(* ===== verification/SIO_Prelude.thy ===== *)
theory SIO_Prelude
  imports Main "HOL-Library.Word"
begin

text \<open>
  Shared vocabulary of the development.

  \<^item> \<open>sio_error\<close> lists every way an operation of the framework can fail: its own
    exceptions (\<open>cache_drain\<close>, \<open>cache_nullptr\<close>), the exceptions of the standard
    library it lets through, and the undefined behaviours of C++ that a
    definition makes explicit (null dereference, access to freed memory, out-of-range access, division by zero,
    waiting on a mutex that is not held). \<open>Stack_Overflow\<close> ends a recursion that is deeper than the
    stack the caller allows.
  \<^item> \<open>result\<close> is the type of an operation that can fail, \<open>bind_res\<close> runs two of
    them in sequence.
  \<^item> \<open>u32\<close> and \<open>u64\<close> are the wrap-around of the code's \<open>unsigned int\<close> and
    \<open>size_t\<close>, written out on natural numbers.
  \<^item> \<open>arr_get\<close> and \<open>arr_set\<close> are the accesses through a raw pointer to an array, with
    the bound of the array made explicit.
  The collection \<open>res_simps\<close> holds the rewriting rules of the result type.
\<close>

named_theorems res_simps \<open>evaluation of operations that can fail\<close>

section \<open>Errors and results\<close>

datatype sio_error =
    Null_Deref
  | Use_After_Free
  | Out_Of_Bounds
  | Div_By_Zero
  | Uninitialised
  | Bad_Lock
  | Terminate
  | Stack_Overflow
  | Std_Out_Of_Range
  | Std_Runtime_Error
  | Bad_Cast
  | Std_Overflow_Error
  | Std_System_Error
  | Exit_Program
  | Thrown_Pointer
  | Cache_Drain string
  | Cache_Nullptr string

type_synonym 'a result = "sio_error + 'a"

definition bind_res :: "'a result \<Rightarrow> ('a \<Rightarrow> 'b result) \<Rightarrow> 'b result" where
  "bind_res r f = (case r of Inl e \<Rightarrow> Inl e | Inr x \<Rightarrow> f x)"

lemma bind_res_Inl [simp, res_simps]: "bind_res (Inl e) f = Inl e"
  by (simp add: bind_res_def)

lemma bind_res_Inr [simp, res_simps]: "bind_res (Inr x) f = f x"
  by (simp add: bind_res_def)

lemma bind_res_eq_Inr:
  "bind_res r f = Inr y \<longleftrightarrow> (\<exists>x. r = Inr x \<and> f x = Inr y)"
  by (cases r) auto

lemma bind_res_eq_Inl:
  "bind_res r f = Inl e \<longleftrightarrow> r = Inl e \<or> (\<exists>x. r = Inr x \<and> f x = Inl e)"
  by (cases r) auto

lemma bind_res_cong [fundef_cong]:
  "r = r' \<Longrightarrow> (\<And>x. r' = Inr x \<Longrightarrow> f x = g x) \<Longrightarrow> bind_res r f = bind_res r' g"
  by (cases r') auto

definition map_res :: "('a \<Rightarrow> 'b) \<Rightarrow> 'a result \<Rightarrow> 'b result" where
  "map_res f r = bind_res r (\<lambda>x. Inr (f x))"

lemma map_res_simps [simp, res_simps]:
  "map_res f (Inl e) = Inl e" "map_res f (Inr x) = Inr (f x)"
  by (simp_all add: map_res_def)

lemma map_res_eq_Inr: "map_res f r = Inr y \<longleftrightarrow> (\<exists>x. r = Inr x \<and> y = f x)"
  by (cases r) auto

section \<open>Unsigned machine integers on natural numbers\<close>

definition u32 :: "nat \<Rightarrow> nat" where
  "u32 n = n mod 4294967296"

definition u64 :: "nat \<Rightarrow> nat" where
  "u64 n = n mod 18446744073709551616"

lemma u32_id: "n < 4294967296 \<Longrightarrow> u32 n = n"
  by (simp add: u32_def)

lemma u64_id: "n < 18446744073709551616 \<Longrightarrow> u64 n = n"
  by (simp add: u64_def)

lemma u32_lt: "u32 n < 4294967296"
  by (simp add: u32_def)

lemma u32_Suc_mod:
  assumes "n < c" and "c \<le> 4294967296"
  shows "u32 (Suc n) mod c = Suc n mod c"
proof (cases "Suc n = 4294967296")
  case True
  with assms have "c = 4294967296" by simp
  with True show ?thesis by (simp add: u32_def)
next
  case False
  with assms show ?thesis by (simp add: u32_id)
qed

lemma mod_add_inj_le:
  fixes s i j c :: nat
  assumes eq: "(s + i) mod c = (s + j) mod c" and "j < c" and le: "i \<le> j"
  shows "i = j"
proof -
  have "c dvd (s + j) - (s + i)"
    using eq le by (metis mod_eq_dvd_iff_nat add_le_mono order_refl)
  then have "c dvd j - i" by simp
  with \<open>j < c\<close> le show ?thesis
    by (metis dvd_imp_le le_antisym diff_is_0_eq less_imp_diff_less not_less zero_less_diff)
qed

lemma mod_add_inj:
  fixes s i j c :: nat
  assumes "(s + i) mod c = (s + j) mod c" and "i < c" and "j < c"
  shows "i = j"
  using assms mod_add_inj_le [of s i c j] mod_add_inj_le [of s j c i]
  by (cases "i \<le> j") auto

section \<open>Arrays behind raw pointers\<close>

definition arr_get :: "'a list \<Rightarrow> nat \<Rightarrow> 'a result" where
  "arr_get xs i = (if i < length xs then Inr (xs ! i) else Inl Out_Of_Bounds)"

definition arr_set :: "'a list \<Rightarrow> nat \<Rightarrow> 'a \<Rightarrow> ('a list) result" where
  "arr_set xs i x = (if i < length xs then Inr (xs[i := x]) else Inl Out_Of_Bounds)"

lemma arr_get_in [simp, res_simps]: "i < length xs \<Longrightarrow> arr_get xs i = Inr (xs ! i)"
  by (simp add: arr_get_def)

lemma arr_set_in [simp, res_simps]: "i < length xs \<Longrightarrow> arr_set xs i x = Inr (xs[i := x])"
  by (simp add: arr_set_def)

lemma arr_get_out [simp, res_simps]: "length xs \<le> i \<Longrightarrow> arr_get xs i = Inl Out_Of_Bounds"
  by (simp add: arr_get_def)

lemma arr_set_out [simp, res_simps]: "length xs \<le> i \<Longrightarrow> arr_set xs i x = Inl Out_Of_Bounds"
  by (simp add: arr_set_def)

section \<open>Lists\<close>

lemma map_nth_upt_append:
  "map f [0..<Suc n] = map f [0..<n] @ [f n]"
  by simp

lemma map_upt_Suc_shift: "map f [0..<Suc n] = f 0 # map (\<lambda>i. f (Suc i)) [0..<n]"
  by (induction n) auto

lemma list_all_nth: "list_all P xs \<longleftrightarrow> (\<forall>i < length xs. P (xs ! i))"
  by (simp add: list_all_length)

end
