(* ===== verification/Fifo_Interface.thy ===== *)
theory Fifo_Interface
  imports SIO_Prelude
begin

text \<open>
  The contract of a first-in first-out container, as the framework's clients use one: the
  circular sample buffer, the package pump of the task queue and the singly linked list of
  the event loop are all meant to give items back in the order they were put in.

  \<open>view\<close> is the sequence a container stands for, \<open>cap\<close> its bound (\<open>None\<close> for an
  unbounded one). The client's program is a list of \<open>Put\<close> and \<open>Take\<close> operations that
  never overfills the container and never takes from an empty one (\<open>fifo_fits\<close>); the
  lemma \<open>run_in_order\<close> says what it observes.
\<close>

datatype 'a fifo_op = Put 'a | Take

fun fifo_run ::
    "('a \<Rightarrow> 'q \<Rightarrow> 'q result) \<Rightarrow> ('q \<Rightarrow> ('a \<times> 'q) result) \<Rightarrow> 'q \<Rightarrow> 'a fifo_op list
      \<Rightarrow> ('a list \<times> 'q) result" where
  "fifo_run enq deq q [] = Inr ([], q)"
| "fifo_run enq deq q (Put x # ops) =
     bind_res (enq x q) (\<lambda>q'. fifo_run enq deq q' ops)"
| "fifo_run enq deq q (Take # ops) =
     bind_res (deq q) (\<lambda>(x, q').
     bind_res (fifo_run enq deq q' ops) (\<lambda>(outs, q''). Inr (x # outs, q'')))"

definition fifo_room :: "nat option \<Rightarrow> nat \<Rightarrow> bool" where
  "fifo_room c n \<longleftrightarrow> (case c of None \<Rightarrow> True | Some m \<Rightarrow> n < m)"

fun fifo_fits :: "nat option \<Rightarrow> nat \<Rightarrow> 'a fifo_op list \<Rightarrow> bool" where
  "fifo_fits c n [] = True"
| "fifo_fits c n (Put x # ops) = (fifo_room c n \<and> fifo_fits c (Suc n) ops)"
| "fifo_fits c n (Take # ops) = (n > 0 \<and> fifo_fits c (n - 1) ops)"

fun fifo_puts :: "'a fifo_op list \<Rightarrow> 'a list" where
  "fifo_puts [] = []"
| "fifo_puts (Put x # ops) = x # fifo_puts ops"
| "fifo_puts (Take # ops) = fifo_puts ops"

fun fifo_takes :: "'a fifo_op list \<Rightarrow> nat" where
  "fifo_takes [] = 0"
| "fifo_takes (Put x # ops) = fifo_takes ops"
| "fifo_takes (Take # ops) = Suc (fifo_takes ops)"

locale fifo_container =
  fixes enq :: "'a \<Rightarrow> 'q \<Rightarrow> 'q result"
    and deq :: "'q \<Rightarrow> ('a \<times> 'q) result"
    and view :: "'q \<Rightarrow> 'a list"
    and ok :: "'q \<Rightarrow> bool"
    and cap :: "'q \<Rightarrow> nat option"
  assumes enq_law: "ok q \<Longrightarrow> fifo_room (cap q) (length (view q)) \<Longrightarrow>
      \<exists>q'. enq x q = Inr q' \<and> ok q' \<and> view q' = view q @ [x] \<and> cap q' = cap q"
    and deq_law: "ok q \<Longrightarrow> view q \<noteq> [] \<Longrightarrow>
      \<exists>q'. deq q = Inr (hd (view q), q') \<and> ok q' \<and> view q' = tl (view q) \<and> cap q' = cap q"
begin

lemma run_in_order:
  assumes "ok q" and "fifo_fits (cap q) (length (view q)) ops"
  shows "\<exists>outs q'. fifo_run enq deq q ops = Inr (outs, q') \<and> ok q'
    \<and> outs @ view q' = view q @ fifo_puts ops \<and> length outs = fifo_takes ops"
  using assms
proof (induction ops arbitrary: q)
  case Nil
  then show ?case by simp
next
  case (Cons a ops)
  show ?case
  proof (cases a)
    case (Put x)
    with Cons.prems obtain q' where q': "enq x q = Inr q'" "ok q'" "view q' = view q @ [x]"
        "cap q' = cap q"
      using enq_law [of q x] by auto
    moreover have "fifo_fits (cap q') (length (view q')) ops"
      using Cons.prems Put q' by simp
    ultimately show ?thesis using Cons.IH [of q'] Put by simp
  next
    case Take
    with Cons.prems have ne: "view q \<noteq> []" by auto
    then obtain q' where q': "deq q = Inr (hd (view q), q')" "ok q'" "view q' = tl (view q)"
        "cap q' = cap q"
      using deq_law [of q] Cons.prems by auto
    moreover have "fifo_fits (cap q') (length (view q')) ops"
      using Cons.prems Take q' by simp
    ultimately obtain outs r where r: "fifo_run enq deq q' ops = Inr (outs, r)" "ok r"
        "outs @ view r = view q' @ fifo_puts ops" "length outs = fifo_takes ops"
      using Cons.IH [of q'] by blast
    have "hd (view q) # outs @ view r = view q @ fifo_puts ops"
      using r(3) q'(3) ne by simp
    with r q' Take show ?thesis by simp
  qed
qed

end

end
