(* ===== verification/Circular_Buffer.thy ===== *)
theory Circular_Buffer
  imports Fifo_Interface
begin

text \<open>
  The circular buffer of \<^verbatim>\<open>framework/buffer/circular.hpp\<close>, operation by operation.

  \<open>cb_start\<close> and \<open>cb_end\<close> are the 32-bit \<open>m_start\<close> and \<open>m_end\<close>, \<open>cb_size\<close> and
  \<open>cb_capacity\<close> the 64-bit \<open>m_size\<close> and \<open>m_capacity\<close>, \<open>cb_buffer\<close> the array behind
  \<open>m_buffer\<close> (\<open>None\<close> is the null pointer of a buffer without capacity). The contents of
  a fresh array are a parameter (\<open>fresh\<close>): for samples they are indeterminate, for a class
  they are default constructed. The value that a moved-from element keeps is a parameter too
  (\<open>moved\<close>).

  \<open>cb_contents\<close> is the abstract sequence the buffer stands for; the lemmas show which
  operations implement a first-in first-out queue on it and which do not.
\<close>

section \<open>State\<close>

record 'a circular =
  cb_start :: nat
  cb_end :: nat
  cb_size :: nat
  cb_capacity :: nat
  cb_buffer :: "'a list option"

definition circular_default :: "'a circular" where
  "circular_default =
     \<lparr>cb_start = 0, cb_end = 0, cb_size = 0, cb_capacity = 0, cb_buffer = None\<rparr>"

definition circular_make :: "(nat \<Rightarrow> 'a) \<Rightarrow> nat \<Rightarrow> 'a circular" where
  "circular_make fresh capacity =
     \<lparr>cb_start = 0, cb_end = 0, cb_size = 0, cb_capacity = capacity,
      cb_buffer = Some (map fresh [0..<capacity])\<rparr>"

section \<open>Operations\<close>

text \<open>Accesses \<open>m_buffer[n]\<close>.\<close>

definition circular_load :: "'a circular \<Rightarrow> nat \<Rightarrow> 'a result" where
  "circular_load b n =
     (case cb_buffer b of None \<Rightarrow> Inl Null_Deref | Some xs \<Rightarrow> arr_get xs n)"

definition circular_store :: "'a circular \<Rightarrow> nat \<Rightarrow> 'a \<Rightarrow> ('a circular) result" where
  "circular_store b n x =
     (case cb_buffer b of
        None \<Rightarrow> Inl Null_Deref
      | Some xs \<Rightarrow> map_res (\<lambda>ys. b\<lparr>cb_buffer := Some ys\<rparr>) (arr_set xs n x))"

definition circular_increment :: "'a circular \<Rightarrow> (nat \<times> 'a circular) result" where
  "circular_increment b =
     (if cb_capacity b = 0 then Inl Div_By_Zero
      else let n = cb_end b;
               e = u32 (n + 1) mod cb_capacity b;
               s = u64 (cb_size b + 1)
           in Inr (n, b\<lparr>cb_end := e,
                       cb_size := (if s > cb_capacity b then cb_capacity b else s)\<rparr>))"

definition circular_decrement :: "'a circular \<Rightarrow> (nat \<times> 'a circular) result" where
  "circular_decrement b =
     (if cb_capacity b = 0 then Inl Div_By_Zero
      else let n = cb_start b;
               s = u32 (n + 1) mod cb_capacity b
           in Inr (n, b\<lparr>cb_start := s, cb_size := u64 (cb_size b + 18446744073709551615)\<rparr>))"

definition circular_push_back :: "'a circular \<Rightarrow> 'a \<Rightarrow> ('a circular) result" where
  "circular_push_back b item =
     bind_res (circular_increment b) (\<lambda>(n, b'). circular_store b' n item)"

fun circular_push_items :: "'a circular \<Rightarrow> 'a list \<Rightarrow> ('a circular) result" where
  "circular_push_items b [] = Inr b"
| "circular_push_items b (x # xs) =
     bind_res (circular_push_back b x) (\<lambda>b'. circular_push_items b' xs)"

definition circular_push_many :: "'a circular \<Rightarrow> 'a list \<Rightarrow> nat \<Rightarrow> ('a circular) result" where
  "circular_push_many b items count =
     (if count \<le> length items then circular_push_items b (take count items)
      else Inl Out_Of_Bounds)"

definition circular_front :: "'a circular \<Rightarrow> 'a result" where
  "circular_front b = circular_load b (cb_start b)"

definition circular_move_front ::
    "('a \<Rightarrow> 'a) \<Rightarrow> 'a circular \<Rightarrow> ('a \<times> 'a circular) result" where
  "circular_move_front moved b =
     bind_res (circular_decrement b) (\<lambda>(n, b').
     bind_res (circular_load b' n) (\<lambda>x.
     bind_res (circular_store b' n (moved x)) (\<lambda>b''. Inr (x, b''))))"

definition circular_pop_front :: "'a circular \<Rightarrow> ('a circular) result" where
  "circular_pop_front b =
     (if cb_size b = 0 then Inr b else map_res snd (circular_decrement b))"

text \<open>
  The loop \<open>for(i = 0; i < count; i++) dest[i] = m_buffer[decrement()]\<close>, for a copy
  (\<open>moved = (\<lambda>x. x)\<close>) and for a move.
\<close>

fun circular_pop_loop ::
    "('a \<Rightarrow> 'a) \<Rightarrow> 'a circular \<Rightarrow> 'a list \<Rightarrow> nat \<Rightarrow> nat \<Rightarrow> ('a list \<times> 'a circular) result" where
  "circular_pop_loop moved b dest i 0 = Inr (dest, b)"
| "circular_pop_loop moved b dest i (Suc k) =
     bind_res (circular_move_front moved b) (\<lambda>(x, b').
     bind_res (arr_set dest i x) (\<lambda>dest'. circular_pop_loop moved b' dest' (Suc i) k))"

definition circular_pop_many ::
    "'a circular \<Rightarrow> 'a list \<Rightarrow> nat \<Rightarrow> ('a list \<times> 'a circular) result" where
  "circular_pop_many b dest count =
     (if cb_size b = 0 then Inr (dest, b) else circular_pop_loop (\<lambda>x. x) b dest 0 count)"

definition circular_move_many ::
    "('a \<Rightarrow> 'a) \<Rightarrow> 'a circular \<Rightarrow> 'a list \<Rightarrow> nat \<Rightarrow> ('a list \<times> 'a circular) result" where
  "circular_move_many moved b dest count =
     (if cb_size b = 0 then Inr (dest, b) else circular_pop_loop moved b dest 0 count)"

text \<open>
  In \<open>m_start + pos % m_capacity\<close> the remainder binds tighter than the sum; the sum is
  computed in 64 bits.
\<close>

definition circular_at :: "'a circular \<Rightarrow> nat \<Rightarrow> 'a result" where
  "circular_at b pos =
     (if pos > cb_size b then Inl Std_Out_Of_Range
      else if cb_capacity b = 0 then Inl Div_By_Zero
      else circular_load b (u64 (cb_start b + pos mod cb_capacity b)))"

definition circular_index :: "'a circular \<Rightarrow> nat \<Rightarrow> 'a result" where
  "circular_index b pos = circular_at b pos"

definition circular_empty :: "'a circular \<Rightarrow> bool" where
  "circular_empty b \<longleftrightarrow> cb_size b = 0"

definition circular_clear :: "'a circular \<Rightarrow> 'a circular" where
  "circular_clear b = b\<lparr>cb_size := 0, cb_start := 0, cb_end := 0\<rparr>"

definition circular_reserve ::
    "(nat \<Rightarrow> 'a) \<Rightarrow> 'a circular \<Rightarrow> nat \<Rightarrow> ('a circular) result" where
  "circular_reserve fresh b new_cap =
     (if new_cap \<le> cb_capacity b then Inr b
      else let t = map fresh [0..<new_cap] in
        if cb_size b = 0 then Inr (b\<lparr>cb_buffer := Some t, cb_capacity := new_cap\<rparr>)
        else (case cb_buffer b of
                None \<Rightarrow> Inl Null_Deref
              | Some xs \<Rightarrow>
                  if cb_size b \<le> length xs
                  then Inr (b\<lparr>cb_buffer := Some (take (cb_size b) xs @ drop (cb_size b) t),
                             cb_capacity := new_cap\<rparr>)
                  else Inl Out_Of_Bounds))"

section \<open>Invariant and abstract contents\<close>

definition cb_array :: "'a circular \<Rightarrow> 'a list" where
  "cb_array b = (case cb_buffer b of None \<Rightarrow> [] | Some xs \<Rightarrow> xs)"

definition cb_contents :: "'a circular \<Rightarrow> 'a list" where
  "cb_contents b =
     map (\<lambda>i. cb_array b ! ((cb_start b + i) mod cb_capacity b)) [0..<cb_size b]"

definition cb_wf :: "'a circular \<Rightarrow> bool" where
  "cb_wf b \<longleftrightarrow> 0 < cb_capacity b \<and> cb_capacity b \<le> 4294967296
     \<and> cb_buffer b \<noteq> None \<and> length (cb_array b) = cb_capacity b
     \<and> cb_start b < cb_capacity b \<and> cb_end b < cb_capacity b \<and> cb_size b \<le> cb_capacity b"

definition cb_aligned :: "'a circular \<Rightarrow> bool" where
  "cb_aligned b \<longleftrightarrow> cb_end b = (cb_start b + cb_size b) mod cb_capacity b"

section \<open>The operations on a well-formed buffer\<close>

lemma cb_wfD:
  assumes "cb_wf b"
  shows "0 < cb_capacity b" "cb_capacity b \<le> 4294967296"
    "cb_buffer b = Some (cb_array b)" "length (cb_array b) = cb_capacity b"
    "cb_start b < cb_capacity b" "cb_end b < cb_capacity b" "cb_size b \<le> cb_capacity b"
  using assms by (auto simp: cb_wf_def cb_array_def)

lemma cb_array_simps [simp]:
  "cb_array (b\<lparr>cb_buffer := Some xs\<rparr>) = xs"
  "cb_array (b\<lparr>cb_start := n\<rparr>) = cb_array b"
  "cb_array (b\<lparr>cb_end := n\<rparr>) = cb_array b"
  "cb_array (b\<lparr>cb_size := n\<rparr>) = cb_array b"
  "cb_array (b\<lparr>cb_capacity := n\<rparr>) = cb_array b"
  by (simp_all add: cb_array_def)

lemma length_cb_contents [simp]: "length (cb_contents b) = cb_size b"
  by (simp add: cb_contents_def)

lemma cb_contents_nth:
  "i < cb_size b \<Longrightarrow> cb_contents b ! i = cb_array b ! ((cb_start b + i) mod cb_capacity b)"
  by (simp add: cb_contents_def)

lemma front_contents:
  assumes "cb_wf b" and "0 < cb_size b"
  shows "circular_front b = Inr (hd (cb_contents b))"
proof -
  have "cb_contents b \<noteq> []" using assms(2) by (simp flip: length_0_conv)
  then show ?thesis
    using assms cb_wfD [OF assms(1)]
    by (simp add: circular_front_def circular_load_def hd_conv_nth cb_contents_nth)
qed

lemma circular_make_simps [simp]:
  "cb_size (circular_make fresh n) = 0" "cb_capacity (circular_make fresh n) = n"
  "cb_start (circular_make fresh n) = 0" "cb_contents (circular_make fresh n) = []"
  by (simp_all add: circular_make_def cb_contents_def)

lemma circular_make_wf:
  "0 < n \<Longrightarrow> n \<le> 4294967296 \<Longrightarrow>
     cb_wf (circular_make fresh n) \<and> cb_aligned (circular_make fresh n)
     \<and> cb_contents (circular_make fresh n) = []"
  by (simp add: circular_make_def cb_wf_def cb_aligned_def cb_contents_def cb_array_def)

lemma push_back_eq:
  assumes "cb_wf b"
  shows "circular_push_back b x =
    Inr (b\<lparr>cb_end := Suc (cb_end b) mod cb_capacity b,
           cb_size := min (Suc (cb_size b)) (cb_capacity b),
           cb_buffer := Some ((cb_array b)[cb_end b := x])\<rparr>)"
proof -
  note wf = cb_wfD [OF assms]
  have s: "u64 (cb_size b + 1) = Suc (cb_size b)"
    using wf by (simp add: u64_id)
  have m: "(if Suc (cb_size b) > cb_capacity b then cb_capacity b else Suc (cb_size b))
      = min (Suc (cb_size b)) (cb_capacity b)"
    by simp
  show ?thesis
    using wf s m
    by (simp add: circular_push_back_def circular_increment_def circular_store_def
        u32_Suc_mod Let_def)
qed

lemma move_front_eq:
  assumes "cb_wf b" and "0 < cb_size b"
  shows "circular_move_front moved b =
    Inr (cb_array b ! cb_start b,
      b\<lparr>cb_start := Suc (cb_start b) mod cb_capacity b, cb_size := cb_size b - 1,
        cb_buffer := Some ((cb_array b)[cb_start b := moved (cb_array b ! cb_start b)])\<rparr>)"
proof -
  note wf = cb_wfD [OF assms(1)]
  have "u64 (cb_size b + 18446744073709551615) = cb_size b - 1"
  proof -
    from assms(2) obtain k where "cb_size b = Suc k" by (cases "cb_size b") auto
    moreover have "Suc k + 18446744073709551615 = k + 18446744073709551616" by simp
    moreover have "k < 18446744073709551616" using calculation wf by simp
    ultimately show ?thesis by (simp only: u64_def mod_add_self2 mod_less diff_Suc_1)
  qed
  with wf show ?thesis
    by (simp add: circular_move_front_def circular_decrement_def circular_load_def
        circular_store_def u32_Suc_mod Let_def)
qed

lemma push_back_wf:
  "cb_wf b \<Longrightarrow> circular_push_back b x = Inr b' \<Longrightarrow> cb_wf b'"
  by (auto simp: push_back_eq cb_wf_def cb_array_def)

lemma push_back_contents:
  assumes wf: "cb_wf b" and al: "cb_aligned b" and room: "cb_size b < cb_capacity b"
    and push: "circular_push_back b x = Inr b'"
  shows "cb_wf b' \<and> cb_aligned b' \<and> cb_contents b' = cb_contents b @ [x]
    \<and> cb_capacity b' = cb_capacity b"
proof -
  note w = cb_wfD [OF wf]
  let ?c = "cb_capacity b" and ?s = "cb_start b" and ?n = "cb_size b"
  have b': "b' = b\<lparr>cb_end := Suc (cb_end b) mod ?c, cb_size := Suc ?n,
      cb_buffer := Some ((cb_array b)[cb_end b := x])\<rparr>"
    using push push_back_eq [OF wf, of x] room by (simp add: min_def)
  have e: "cb_end b = (?s + ?n) mod ?c" using al by (simp add: cb_aligned_def)
  have "cb_aligned b'"
    using e by (simp add: b' cb_aligned_def mod_Suc_eq)
  moreover have "cb_contents b' = cb_contents b @ [x]"
  proof (rule nth_equalityI)
    fix i assume i: "i < length (cb_contents b')"
    then have i': "i < Suc ?n" by (simp add: b')
    show "cb_contents b' ! i = (cb_contents b @ [x]) ! i"
    proof (cases "i = ?n")
      case True
      then show ?thesis using w e by (simp add: b' cb_contents_def nth_append del: upt_Suc)
    next
      case False
      with i' have lt: "i < ?n" by simp
      have "(?s + i) mod ?c \<noteq> cb_end b"
        using mod_add_inj [of ?s i ?c ?n] lt room e by auto
      with lt show ?thesis
        by (simp add: b' cb_contents_def nth_append del: upt_Suc)
    qed
  qed (simp add: b')
  moreover have "cb_wf b'" using push_back_wf [OF wf push] .
  ultimately show ?thesis by (simp add: b')
qed

lemma move_front_contents:
  assumes wf: "cb_wf b" and ne: "0 < cb_size b"
    and pop: "circular_move_front (\<lambda>x. x) b = Inr (x, b')"
  shows "cb_wf b' \<and> x = hd (cb_contents b) \<and> cb_contents b' = tl (cb_contents b)
    \<and> cb_size b' = cb_size b - 1 \<and> cb_capacity b' = cb_capacity b
    \<and> (cb_aligned b \<longrightarrow> cb_aligned b')"
proof -
  note w = cb_wfD [OF wf]
  let ?c = "cb_capacity b" and ?s = "cb_start b" and ?n = "cb_size b"
  have eqs: "x = cb_array b ! ?s" "b' = b\<lparr>cb_start := Suc ?s mod ?c, cb_size := ?n - 1,
      cb_buffer := Some (cb_array b)\<rparr>"
    using pop move_front_eq [OF wf ne, of "\<lambda>x. x"] by simp_all
  have "cb_contents b \<noteq> []" using ne by (simp flip: length_0_conv)
  then have "x = hd (cb_contents b)"
    using w ne by (simp add: eqs hd_conv_nth cb_contents_nth)
  moreover have "cb_contents b' = tl (cb_contents b)"
  proof (rule nth_equalityI)
    fix i assume "i < length (cb_contents b')"
    then have i: "i < ?n - 1" by (simp add: eqs)
    have "(Suc ?s mod ?c + i) mod ?c = (?s + Suc i) mod ?c"
      by (simp add: mod_add_left_eq)
    with i show "cb_contents b' ! i = tl (cb_contents b) ! i"
      by (simp add: eqs cb_contents_nth nth_tl)
  qed (simp add: eqs)
  moreover have "cb_aligned b'" if "cb_aligned b"
  proof -
    obtain k where "?n = Suc k" using ne by (cases ?n) auto
    then have "(Suc ?s mod ?c + (?n - 1)) mod ?c = (?s + ?n) mod ?c"
      by (simp add: mod_add_left_eq)
    with that show ?thesis by (simp add: eqs cb_aligned_def)
  qed
  moreover have "cb_wf b'" using w by (auto simp: eqs cb_wf_def)
  ultimately show ?thesis by (simp add: eqs)
qed

interpretation cb_fifo: fifo_container
  "\<lambda>x b. circular_push_back b x" "circular_move_front (\<lambda>x. x)" cb_contents
  "\<lambda>b. cb_wf b \<and> cb_aligned b" "\<lambda>b. Some (cb_capacity b)"
proof (unfold_locales, goal_cases)
  case (1 q x)
  then have wf: "cb_wf q" and al: "cb_aligned q" and room: "cb_size q < cb_capacity q"
    by (simp_all add: fifo_room_def)
  obtain q' where q': "circular_push_back q x = Inr q'"
    using push_back_eq [OF wf] by blast
  show ?case
    using push_back_contents [OF wf al room q'] q' by simp
next
  case (2 q)
  then have wf: "cb_wf q" and al: "cb_aligned q" and ne: "0 < cb_size q"
    by (auto simp flip: length_cb_contents)
  obtain x q' where q': "circular_move_front (\<lambda>x. x) q = Inr (x, q')"
    using move_front_eq [OF wf ne] by blast
  show ?case
    using move_front_contents [OF wf ne q'] al q' by simp
qed

section \<open>Bulk operations\<close>

lemma push_items_contents:
  assumes "cb_wf b" and "cb_aligned b" and "cb_size b + length xs \<le> cb_capacity b"
  shows "\<exists>b'. circular_push_items b xs = Inr b' \<and> cb_wf b' \<and> cb_aligned b'
    \<and> cb_contents b' = cb_contents b @ xs \<and> cb_capacity b' = cb_capacity b"
  using assms
proof (induction xs arbitrary: b)
  case Nil
  then show ?case by simp
next
  case (Cons x xs)
  obtain b1 where b1: "circular_push_back b x = Inr b1"
    using push_back_eq [OF Cons.prems(1)] by simp
  have c1: "cb_wf b1" "cb_aligned b1" "cb_contents b1 = cb_contents b @ [x]"
      "cb_capacity b1 = cb_capacity b"
    using push_back_contents [OF Cons.prems(1,2) _ b1] Cons.prems(3) by auto
  have "cb_size b1 = Suc (cb_size b)"
    using c1(3) by (metis length_append_singleton length_cb_contents)
  with c1 Cons.IH [of b1] Cons.prems(3) b1 show ?case by auto
qed

lemma pop_loop_contents:
  assumes "cb_wf b" and "k \<le> cb_size b" and "i + k \<le> length dest"
  shows "\<exists>b'. circular_pop_loop (\<lambda>x. x) b dest i k =
      Inr (take i dest @ take k (cb_contents b) @ drop (i + k) dest, b')
    \<and> cb_wf b' \<and> cb_contents b' = drop k (cb_contents b) \<and> cb_capacity b' = cb_capacity b
    \<and> (cb_aligned b \<longrightarrow> cb_aligned b')"
  using assms
proof (induction k arbitrary: b dest i)
  case 0
  then show ?case by simp
next
  case (Suc k)
  then have ne: "0 < cb_size b" by simp
  obtain x b1 where p: "circular_move_front (\<lambda>x. x) b = Inr (x, b1)"
    using move_front_eq [OF Suc.prems(1) ne, of "\<lambda>x. x"] by simp
  note m = move_front_contents [OF Suc.prems(1) ne p]
  let ?d = "dest[i := x]"
  have "cb_contents b \<noteq> []" using ne by (simp flip: length_0_conv)
  with m have split: "cb_contents b = x # cb_contents b1" by simp
  have dest: "arr_set dest i x = Inr ?d" using Suc.prems(3) by simp
  have "cb_wf b1" "k \<le> cb_size b1" "Suc i + k \<le> length ?d"
    using m Suc.prems by simp_all
  from Suc.IH [OF this]
  obtain b' where b': "circular_pop_loop (\<lambda>x. x) b1 ?d (Suc i) k =
      Inr (take (Suc i) ?d @ take k (cb_contents b1) @ drop (Suc i + k) ?d, b')"
    and r: "cb_wf b'" "cb_contents b' = drop k (cb_contents b1)" "cb_capacity b' = cb_capacity b1"
      "cb_aligned b1 \<longrightarrow> cb_aligned b'"
    by blast
  have "take (Suc i) ?d = take i dest @ [x]"
    using Suc.prems(3) by (simp add: take_Suc_conv_app_nth)
  moreover have "drop (Suc i + k) ?d = drop (i + Suc k) dest" by simp
  moreover have "cb_capacity b1 = cb_capacity b" "cb_aligned b \<longrightarrow> cb_aligned b1"
    using m by simp_all
  ultimately show ?case using p dest b' r split by simp
qed

lemma push_back_full:
  assumes "cb_wf b" and "0 < cb_size b" and "cb_size b = cb_capacity b"
    and "circular_push_back b x = Inr b'"
    and "cb_aligned b"
  shows "cb_wf b' \<and> cb_contents b' = x # tl (cb_contents b)
    \<and> cb_start b' = cb_start b \<and> cb_size b' = cb_size b \<and> cb_capacity b' = cb_capacity b
    \<and> cb_end b' = Suc (cb_start b) mod cb_capacity b"
proof -
  note w = cb_wfD [OF assms(1)]
  let ?c = "cb_capacity b" and ?s = "cb_start b" and ?n = "cb_size b"
  have e: "cb_end b = ?s" using assms(3,5) w by (simp add: cb_aligned_def)
  have b': "b' = b\<lparr>cb_end := Suc ?s mod ?c, cb_size := ?n, cb_buffer := Some ((cb_array b)[?s := x])\<rparr>"
    using assms(4) push_back_eq [OF assms(1), of x] assms(3) e by simp
  have "cb_contents b' = x # tl (cb_contents b)"
  proof (rule nth_equalityI)
    fix i assume "i < length (cb_contents b')"
    then have i: "i < ?n" by (simp add: b')
    show "cb_contents b' ! i = (x # tl (cb_contents b)) ! i"
    proof (cases i)
      case 0
      then show ?thesis using i w by (simp add: b' cb_contents_nth)
    next
      case (Suc j)
      have "(?s + i) mod ?c \<noteq> (?s + 0) mod ?c"
        using mod_add_inj [of ?s i ?c 0] i Suc assms(3) by auto
      then have "(?s + i) mod ?c \<noteq> ?s" using w by simp
      then show ?thesis using i Suc by (simp add: b' cb_contents_nth nth_tl)
    qed
  qed (use assms(2) in \<open>simp add: b'\<close>)
  moreover have "cb_wf b'" using push_back_wf [OF assms(1,4)] .
  ultimately show ?thesis by (simp add: b')
qed

lemma pop_loop_size:
  assumes "0 < cb_capacity b" and "cb_capacity b \<le> 4294967296"
    and "cb_buffer b = Some xs" and "length xs = cb_capacity b" and "cb_start b < cb_capacity b"
    and "cb_size b < 18446744073709551616" and "i + k \<le> length dest"
  shows "\<exists>dest' b'. circular_pop_loop (\<lambda>x. x) b dest i k = Inr (dest', b')
    \<and> int (cb_size b') = (int (cb_size b) - int k) mod 18446744073709551616"
  using assms
proof (induction k arbitrary: b dest i)
  case 0
  then show ?case by simp
next
  case (Suc k)
  let ?s = "u64 (cb_size b + 18446744073709551615)"
  let ?b = "b\<lparr>cb_start := Suc (cb_start b) mod cb_capacity b, cb_size := ?s,
      cb_buffer := Some xs\<rparr>"
  have step: "circular_move_front (\<lambda>x. x) b = Inr (xs ! cb_start b, ?b)"
    using Suc.prems
    by (simp add: circular_move_front_def circular_decrement_def circular_load_def
        circular_store_def u32_Suc_mod Let_def)
  have s: "int ?s = (int (cb_size b) - 1) mod 18446744073709551616"
  proof -
    have "int ?s = ((int (cb_size b) - 1) + 18446744073709551616) mod 18446744073709551616"
      by (simp add: u64_def zmod_int add.commute)
    then show ?thesis by (simp only: mod_add_self2)
  qed
  have lt: "?s < 18446744073709551616" by (simp add: u64_def)
  let ?d = "dest[i := xs ! cb_start b]"
  have "0 < cb_capacity ?b" "cb_capacity ?b \<le> 4294967296" "cb_buffer ?b = Some xs"
    "length xs = cb_capacity ?b" "cb_start ?b < cb_capacity ?b"
    "cb_size ?b < 18446744073709551616" "Suc i + k \<le> length ?d"
    using Suc.prems lt by simp_all
  from Suc.IH [OF this]
  obtain d' b' where ih: "circular_pop_loop (\<lambda>x. x) ?b ?d (Suc i) k = Inr (d', b')"
      "int (cb_size b') = (int ?s - int k) mod 18446744073709551616"
    by auto
  have "int (cb_size b') = (int (cb_size b) - int (Suc k)) mod 18446744073709551616"
    unfolding ih(2) s by (simp add: mod_diff_left_eq algebra_simps)
  with ih(1) step Suc.prems show ?case by simp
qed

section \<open>Properties\<close>

text \<open>C15. Refinement of a queue: on a buffer of any capacity, every sequence of pushes and pops
  that never overfills the buffer and never pops it empty runs without an error, and the items
  come out in exactly the order they were pushed; what has not come out yet is still in the
  buffer.\<close>

theorem circular_is_fifo:
  fixes ops :: "'a fifo_op list"
  assumes "0 < n" and "n \<le> 4294967296" and "fifo_fits (Some n) 0 ops"
  shows "\<exists>outs b. fifo_run (\<lambda>x b. circular_push_back b x) (circular_move_front (\<lambda>x. x))
      (circular_make fresh n) ops = Inr (outs, b)
    \<and> outs @ cb_contents b = fifo_puts ops \<and> length outs = fifo_takes ops"
proof -
  note mk = circular_make_wf [OF assms(1,2), of fresh]
  with cb_fifo.run_in_order [of "circular_make fresh n" ops] assms(3) show ?thesis
    by fastforce
qed

theorem circular_is_fifo_witness:
  "\<exists>outs b. fifo_run (\<lambda>x b. circular_push_back b x) (circular_move_front (\<lambda>x. x))
      (circular_make (\<lambda>_. 0 :: int) 2) [Put 5, Put 6, Take, Put 7, Take] = Inr (outs, b)
    \<and> outs @ cb_contents b = [5, 6, 7] \<and> length outs = 2"
  using circular_is_fifo [of 2 "[Put 5, Put 6, Take, Put 7, Take]" "\<lambda>_. 0 :: int"]
  by (simp add: fifo_room_def numeral_2_eq_2 del: fifo_run.simps)

text \<open>Block transfer: pushing a block that fits and popping a block that is there delivers
  exactly the oldest samples, in order, and touches nothing of the destination beyond them.\<close>

theorem circular_block_transfer:
  assumes "cb_wf b" and "cb_aligned b" and "cb_size b + length xs \<le> cb_capacity b"
    and "n \<le> cb_size b + length xs" and "n \<le> length dest"
  shows "\<exists>b1 b2. circular_push_many b xs (length xs) = Inr b1
    \<and> circular_pop_many b1 dest n = Inr (take n (cb_contents b @ xs) @ drop n dest, b2)
    \<and> cb_contents b2 = drop n (cb_contents b @ xs) \<and> cb_wf b2 \<and> cb_aligned b2"
proof -
  obtain b1 where b1: "circular_push_items b xs = Inr b1" "cb_wf b1" "cb_aligned b1"
      "cb_contents b1 = cb_contents b @ xs"
    using push_items_contents [OF assms(1-3)] by blast
  have size: "cb_size b1 = cb_size b + length xs"
    using b1(4) by (metis length_append length_cb_contents)
  show ?thesis
  proof (cases "cb_size b1 = 0")
    case True
    then show ?thesis using b1 size assms(4)
      by (simp add: circular_push_many_def circular_pop_many_def)
  next
    case False
    then show ?thesis using b1 size assms(4,5) pop_loop_contents [OF b1(2), of n 0 dest]
      by (auto simp: circular_push_many_def circular_pop_many_def)
  qed
qed

theorem circular_block_transfer_witness:
  "\<exists>b1 b2. circular_push_many (circular_make (\<lambda>_. 0) 4) [1, 2, 3 :: int] 3 = Inr b1
    \<and> circular_pop_many b1 [9, 9, 9] 2 = Inr ([1, 2, 9], b2) \<and> cb_contents b2 = [3]"
  using circular_block_transfer [of "circular_make (\<lambda>_. 0 :: int) 4" "[1, 2, 3]" 2 "[9, 9, 9]"]
    circular_make_wf [of 4 "\<lambda>_. 0 :: int"]
  by (auto simp: numeral_3_eq_3)

text \<open>Overwriting: a push onto a full buffer replaces the oldest item, keeps every other
  one, and makes the new item the front of the buffer.\<close>

theorem circular_overwrites_oldest:
  assumes "cb_wf b" and "cb_aligned b" and "cb_size b = cb_capacity b"
    and "circular_push_back b x = Inr b'"
  shows "cb_contents b' = x # tl (cb_contents b) \<and> circular_front b' = Inr x \<and> cb_wf b'
    \<and> cb_size b' = cb_capacity b"
proof -
  have ne: "0 < cb_size b" using assms(1,3) by (simp add: cb_wf_def)
  note full = push_back_full [OF assms(1) ne assms(3,4,2)]
  with front_contents [of b'] ne assms(3) show ?thesis by simp
qed

definition full_buffer :: "int circular" where
  "full_buffer = \<lparr>cb_start = 1, cb_end = 1, cb_size = 3, cb_capacity = 3,
     cb_buffer = Some [7, 5, 6]\<rparr>"

lemma upt_3: "[0..<3] = [0, 1, 2 :: nat]"
  by code_simp

lemma full_buffer_facts:
  "cb_wf full_buffer" "cb_aligned full_buffer" "cb_size full_buffer = cb_capacity full_buffer"
  "cb_contents full_buffer = [5, 6, 7]" "cb_capacity full_buffer = 3"
  by (simp_all add: full_buffer_def cb_wf_def cb_aligned_def cb_contents_def cb_array_def upt_3)

theorem circular_overwrites_oldest_witness:
  "\<exists>b'. circular_push_back full_buffer 8 = Inr b' \<and> cb_contents b' = [8, 6, 7]
    \<and> circular_front b' = Inr 8"
proof -
  obtain b' where b': "circular_push_back full_buffer 8 = Inr b'"
    using push_back_eq [OF full_buffer_facts(1)] by blast
  show ?thesis
    using circular_overwrites_oldest [OF full_buffer_facts(1-3) b'] b'
    by (simp add: full_buffer_facts)
qed

text \<open>After an overwrite the buffer is no queue any more: a pop and a push on a buffer that
  has overflowed put the new item at the front, lose the oldest item that was never read, and
  bring the item that was already popped back as the last one.\<close>

theorem circular_overflow_reorders:
  assumes "cb_wf b" and "cb_aligned b" and "cb_size b = cb_capacity b" and "2 \<le> cb_capacity b"
  shows "\<exists>b1 b2 b3. circular_push_back b x = Inr b1
    \<and> circular_move_front (\<lambda>x. x) b1 = Inr (x, b2) \<and> cb_contents b2 = tl (cb_contents b)
    \<and> circular_push_back b2 y = Inr b3 \<and> cb_contents b3 = y # tl (tl (cb_contents b)) @ [x]"
proof -
  note w = cb_wfD [OF assms(1)]
  let ?c = "cb_capacity b" and ?s = "cb_start b"
  have ne: "0 < cb_size b" using assms(3,4) by simp
  obtain b1 where b1: "circular_push_back b x = Inr b1"
    using push_back_eq [OF assms(1)] by blast
  note f1 = push_back_full [OF assms(1) ne assms(3) b1 assms(2)]
  have ne1: "0 < cb_size b1" and wf1: "cb_wf b1" using f1 ne by simp_all
  obtain z b2 where b2: "circular_move_front (\<lambda>x. x) b1 = Inr (z, b2)"
    using move_front_eq [OF wf1 ne1] by blast
  note f2 = move_front_contents [OF wf1 ne1 b2]
  have z: "z = x" and c2: "cb_contents b2 = tl (cb_contents b)" using f1 f2 by simp_all
  have b2eq: "b2 = b1\<lparr>cb_start := Suc ?s mod ?c, cb_size := ?c - 1,
      cb_buffer := Some (cb_array b1)\<rparr>"
    using b2 move_front_eq [OF wf1 ne1] f1 assms(3) by simp
  let ?b3 = "b2\<lparr>cb_end := Suc (Suc ?s mod ?c) mod ?c, cb_size := ?c,
      cb_buffer := Some ((cb_array b1)[Suc ?s mod ?c := y])\<rparr>"
  have "min (Suc (?c - 1)) ?c = ?c" using assms(4) by simp
  then have b3: "circular_push_back b2 y = Inr ?b3"
    using push_back_eq [of b2 y] f2 f1 assms(3) by (simp add: b2eq)
  have arr: "cb_array b1 = (cb_array b)[?s := x]"
  proof -
    have "cb_end b = ?s" using assms(2,3) w by (simp add: cb_aligned_def)
    then have "b1 = b\<lparr>cb_end := Suc ?s mod ?c, cb_size := min (Suc (cb_size b)) ?c,
        cb_buffer := Some ((cb_array b)[?s := x])\<rparr>"
      using b1 push_back_eq [OF assms(1), of x] by simp
    then show ?thesis by simp
  qed
  have "cb_contents ?b3 = y # tl (tl (cb_contents b)) @ [x]"
  proof (rule nth_equalityI)
    fix i assume "i < length (cb_contents ?b3)"
    then have i: "i < ?c" by simp
    have idx: "(Suc ?s mod ?c + i) mod ?c = (?s + Suc i) mod ?c"
      by (simp add: mod_add_left_eq)
    have len: "length (tl (tl (cb_contents b))) = ?c - 2" using assms(3) by simp
    consider "i = 0" | "i = ?c - 1" "0 < i" | j where "i = Suc j" "j < ?c - 2"
      using i by (cases i) (auto, force)
    then show "cb_contents ?b3 ! i = (y # tl (tl (cb_contents b)) @ [x]) ! i"
    proof cases
      case 1
      then show ?thesis using w assms(3,4) idx by (simp add: cb_contents_nth b2eq f1 arr)
    next
      case 2
      then have "(?s + Suc i) mod ?c = ?s" using w by simp
      moreover have "Suc ?s mod ?c \<noteq> ?s" 
        using mod_add_inj [of ?s 1 ?c 0] w assms(4) by auto
      moreover have "(y # tl (tl (cb_contents b)) @ [x]) ! i = x"
      proof -
        have "i = Suc (length (tl (tl (cb_contents b))))" using 2 len assms(4) by simp
        then show ?thesis by (simp only: nth_Cons_Suc nth_append_length)
      qed
      ultimately show ?thesis using w i idx by (simp add: cb_contents_nth b2eq f1 arr)
    next
      case (3 j)
      have lt: "Suc i < ?c" "0 < ?c" "1 < ?c" using 3 assms(4) by linarith+
      have "(?s + Suc i) mod ?c \<noteq> (?s + 0) mod ?c"
        using mod_add_inj [of ?s "Suc i" ?c 0] lt by auto
      moreover have "(?s + Suc i) mod ?c \<noteq> (?s + 1) mod ?c"
        using mod_add_inj [of ?s "Suc i" ?c 1] lt 3(1) by auto
      moreover have "tl (tl (cb_contents b)) ! j = cb_contents b ! Suc i"
        using 3 assms(3) by (simp add: nth_tl)
      ultimately show ?thesis using 3 w i idx len assms(3)
        by (simp add: cb_contents_nth b2eq f1 arr nth_append)
    qed
  qed (use assms(3,4) in simp)
  with b1 b2 b3 z c2 show ?thesis by blast
qed

theorem circular_overflow_reorders_witness:
  "\<exists>b1 b2 b3. circular_push_back full_buffer 8 = Inr b1
    \<and> circular_move_front (\<lambda>x. x) b1 = Inr (8, b2) \<and> cb_contents b2 = [6, 7]
    \<and> circular_push_back b2 9 = Inr b3 \<and> cb_contents b3 = [9, 7, 8]"
  using circular_overflow_reorders [OF full_buffer_facts(1-3), of 8 9]
  by (simp add: full_buffer_facts)

text \<open>Underflow: popping more items than the buffer holds does not fail; the 64-bit size
  wraps around and the buffer then claims to hold almost 2 to the 64 items.\<close>

theorem circular_underflow_wraps:
  assumes "cb_wf b" and "0 < cb_size b" and "cb_size b < count" and "count \<le> length dest"
    and "count < 18446744073709551616"
  shows "\<exists>dest' b'. circular_pop_many b dest count = Inr (dest', b')
    \<and> cb_size b' = 18446744073709551616 - (count - cb_size b)"
proof -
  note w = cb_wfD [OF assms(1)]
  obtain d b' where r: "circular_pop_loop (\<lambda>x. x) b dest 0 count = Inr (d, b')"
    and s: "int (cb_size b') = (int (cb_size b) - int count) mod 18446744073709551616"
    using pop_loop_size [of b "cb_array b" 0 count dest] w assms(4) by auto
  have "(int (cb_size b) - int count) mod 18446744073709551616
      = (int (cb_size b) - int count + 18446744073709551616) mod 18446744073709551616"
    by (simp only: mod_add_self2)
  also have "\<dots> = int (cb_size b) - int count + 18446744073709551616"
    using assms(3,5) by (intro mod_pos_pos_trivial) linarith+
  finally have "(int (cb_size b) - int count) mod 18446744073709551616
      = int (cb_size b) - int count + 18446744073709551616" .
  with s have "cb_size b' = 18446744073709551616 - (count - cb_size b)"
    using assms(3,5) by linarith
  with r assms(2) show ?thesis by (simp add: circular_pop_many_def)
qed

theorem circular_underflow_wraps_witness:
  "\<exists>dest' b'. circular_pop_many full_buffer [0, 0, 0, 0] 4 = Inr (dest', b')
    \<and> cb_size b' = 18446744073709551615"
  using circular_underflow_wraps [OF full_buffer_facts(1), of 4 "[0, 0, 0, 0]"]
  by (simp add: full_buffer_def)

text \<open>Indexed access: \<open>at(pos)\<close> returns the item at that distance from the front only as
  long as the buffer has not wrapped before it; past the wrap it reads beyond the array.\<close>

theorem circular_at_reads:
  assumes "cb_wf b" and "pos < cb_size b"
  shows "circular_at b pos =
    (if cb_start b + pos < cb_capacity b then Inr (cb_contents b ! pos) else Inl Out_Of_Bounds)"
proof -
  note w = cb_wfD [OF assms(1)]
  have "pos mod cb_capacity b = pos" using assms w by simp
  moreover have "u64 (cb_start b + pos) = cb_start b + pos"
    using w assms(2) by (simp add: u64_id)
  ultimately show ?thesis
    using w assms(2) by (simp add: circular_at_def circular_load_def cb_contents_nth)
qed

theorem circular_at_reads_witness:
  "circular_at full_buffer 1 = Inr 6 \<and> circular_at full_buffer 2 = Inl Out_Of_Bounds"
  using circular_at_reads [OF full_buffer_facts(1), of 1]
    circular_at_reads [OF full_buffer_facts(1), of 2]
  by (simp add: full_buffer_facts) (simp add: full_buffer_def)

text \<open>Growing: \<open>reserve\<close> keeps the contents and the queue order when the contents start at
  the beginning of the array and the buffer is not full.\<close>

theorem circular_reserve_keeps:
  assumes "cb_wf b" and "cb_aligned b" and "cb_start b = 0" and "cb_size b < cb_capacity b"
    and "cb_capacity b < n" and "n \<le> 4294967296"
  shows "\<exists>b'. circular_reserve fresh b n = Inr b' \<and> cb_capacity b' = n
    \<and> cb_contents b' = cb_contents b \<and> cb_wf b' \<and> cb_aligned b'"
proof -
  note w = cb_wfD [OF assms(1)]
  let ?a = "take (cb_size b) (cb_array b) @ drop (cb_size b) (map fresh [0..<n])"
  let ?b' = "b\<lparr>cb_buffer := Some ?a, cb_capacity := n\<rparr>"
  have r: "circular_reserve fresh b n = Inr ?b'"
    using w assms(5) by (cases "cb_size b = 0") (simp_all add: circular_reserve_def)
  have e: "cb_end b = cb_size b" using assms(2-4) by (simp add: cb_aligned_def)
  have len: "length ?a = n" using w assms(5) by simp
  have "cb_array ?b' = ?a" by simp
  then have "cb_contents ?b' = cb_contents b"
    using w assms(3-5)
    by (intro nth_equalityI) (simp_all add: cb_contents_nth nth_append)
  moreover have "cb_wf ?b'" using w len assms by (simp add: cb_wf_def)
  moreover have "cb_aligned ?b'" using e assms by (simp add: cb_aligned_def)
  ultimately show ?thesis using r by simp
qed

definition half_buffer :: "int circular" where
  "half_buffer = \<lparr>cb_start = 0, cb_end = 1, cb_size = 1, cb_capacity = 2,
     cb_buffer = Some [7, 0]\<rparr>"

theorem circular_reserve_keeps_witness:
  "\<exists>b'. circular_reserve (\<lambda>_. 0) half_buffer 4 = Inr b' \<and> cb_capacity b' = 4
    \<and> cb_contents b' = cb_contents half_buffer \<and> cb_wf b' \<and> cb_aligned b'"
  by (rule circular_reserve_keeps)
    (simp_all add: half_buffer_def cb_wf_def cb_aligned_def cb_array_def)

text \<open>Growing a buffer whose contents do not start at the beginning of the array loses
  items: on the full buffer that holds 5, 6, 7 from the second cell on, \<open>reserve(6)\<close> leaves
  5, 6 and a cell that was never written.\<close>

theorem circular_reserve_loses:
  "\<exists>b'. circular_reserve (\<lambda>_. 0) full_buffer 6 = Inr b'
    \<and> cb_contents full_buffer = [5, 6, 7] \<and> cb_contents b' = [5, 6, 0]"
proof -
  have "map (\<lambda>_. 0 :: int) [0..<6] = [0, 0, 0, 0, 0, 0]" by code_simp
  then show ?thesis
    by (simp add: circular_reserve_def full_buffer_def cb_contents_def cb_array_def upt_3)
qed

end
