(* ===== verification/Cache_Interface.thy ===== *)
theory Cache_Interface
  imports SIO_Prelude
begin

text \<open>
  The contract behind the abstract class \<open>cache_utility\<close>
  (\<^verbatim>\<open>framework/memory/cache_utility.hpp\<close>), which \<open>cache_ptr\<close> and the units are written
  against, in the build with \<open>CACHE_TRACKING\<close> (the one \<^verbatim>\<open>fwcommon.hpp\<close> selects): \<open>alloc\<close> is
  \<open>alloc_raw\<close> with the identity it writes through its pointer \<open>id\<close>, \<open>free\<close> is \<open>free_raw\<close>,
  \<open>live\<close> the allocations a cache knows (address to number of blocks), \<open>inv\<close> its invariant.
  \<open>freeable\<close> names the live allocations whose release the provider can guarantee.
\<close>

locale cache_provider =
  fixes alloc :: "nat \<Rightarrow> int \<Rightarrow> 'c \<Rightarrow> nat result \<times> int \<times> 'c"
    and free :: "nat \<Rightarrow> 'c \<Rightarrow> 'c result"
    and inv :: "'c \<Rightarrow> bool"
    and live :: "'c \<Rightarrow> nat \<Rightarrow> nat option"
    and freeable :: "'c \<Rightarrow> nat \<Rightarrow> bool"
  assumes alloc_some: "inv c \<Longrightarrow> alloc n tid c = (Inr p, tid', c') \<Longrightarrow>
      0 < n \<and> 0 < p \<and> inv c' \<and> live c p = None \<and> live c' = (live c)(p := Some n)"
    and alloc_none: "inv c \<Longrightarrow> alloc n tid c = (Inl e, tid', c') \<Longrightarrow>
      inv c' \<and> live c' = live c \<and> (\<exists>s. e = Cache_Drain s)"
    and free_some: "inv c \<Longrightarrow> live c p = Some n \<Longrightarrow> freeable c p \<Longrightarrow>
      \<exists>c'. free p c = Inr c' \<and> inv c' \<and> live c' = (live c)(p := None)"
    and null_dead: "inv c \<Longrightarrow> live c 0 = None"
begin

lemma alloc_free_live:
  assumes "inv c" and "alloc n tid c = (Inr p, tid', c1)" and "freeable c1 p"
  shows "\<exists>c2. free p c1 = Inr c2 \<and> inv c2 \<and> live c2 = live c"
proof -
  have a: "inv c1" "live c p = None" "live c1 = (live c)(p := Some n)"
    using alloc_some [OF assms(1,2)] by simp_all
  then obtain c2 where "free p c1 = Inr c2" "inv c2" "live c2 = (live c1)(p := None)"
    using free_some [of c1 p n] assms(3) by auto
  moreover have "(live c1)(p := None) = live c" using a by (simp add: fun_upd_idem)
  ultimately show ?thesis by simp
qed

end

end
