(* ===== verification/Cache_Manager.thy ===== *)
theory Cache_Manager
  imports Cache_Interface
begin

text \<open>
  The block allocator \<^verbatim>\<open>framework/memory/cache_manager.cpp\<close>: one array of
  \<open>num_blocks * block_size\<close> samples, cut into blocks, with one handle per block.

  Pointers to samples are addresses counted in samples; 0 is the null pointer and the address
  \<open>base\<close> that \<open>new\<close> returns is a parameter. \<open>cm_bound\<close> is \<open>None\<close> until \<open>build_cache\<close> sets
  it, because the constructor leaves \<open>m_bound\<close> uninitialised. An allocation that throws keeps
  the changes it made before, so \<open>alloc_raw\<close> returns its result beside the state.

  The abstract state is the list of segments of the array (\<open>cache_segs\<close>), each free or in use
  with its number of blocks: \<open>parse_segs\<close> reads it off the handles. The invariant says that
  the handles are those of a list of segments in which no two free ones are neighbours; the
  lemmas show that allocation is first fit on this list (\<open>alloc_segs\<close>) and that freeing merges
  the segment with its free neighbours (\<open>free_segs\<close>).
\<close>

section \<open>State\<close>

record cache_handle =
  ch_ptr :: nat
  ch_in_use :: bool
  ch_num_blocks :: nat

record cache_manager =
  cm_raw_cache :: nat
  cm_bound :: "nat option"
  cm_num_blocks :: nat
  cm_block_size :: nat
  cm_total :: int
  cm_cache_size :: nat
  cm_track_id :: int
  cm_handles :: "cache_handle list"

definition cache_manager_make :: "int \<Rightarrow> cache_manager" where
  "cache_manager_make num_blocks =
     \<lparr>cm_raw_cache = 0, cm_bound = None, cm_num_blocks = nat (num_blocks mod 4294967296),
      cm_block_size = 0, cm_total = 0, cm_cache_size = 0, cm_track_id = 1, cm_handles = []\<rparr>"

section \<open>Operations\<close>

definition build_handles :: "nat \<Rightarrow> nat \<Rightarrow> nat \<Rightarrow> cache_handle list" where
  "build_handles base num_blocks block_size =
     map (\<lambda>i. \<lparr>ch_ptr = base + u32 (i * block_size), ch_in_use = False,
               ch_num_blocks = num_blocks - i\<rparr>) [0..<num_blocks]"

definition build_cache :: "nat \<Rightarrow> nat \<Rightarrow> cache_manager \<Rightarrow> cache_manager result" where
  "build_cache base block_size c =
     (if cm_raw_cache c \<noteq> 0 then Inr c
      else let n = cm_num_blocks c;
               hs = cm_handles c @ build_handles base n block_size
           in if n = 0 then Inl Out_Of_Bounds
              else Inr (c\<lparr>cm_block_size := block_size, cm_raw_cache := base,
                          cm_cache_size := u32 (block_size * n), cm_handles := hs,
                          cm_bound := Some (ch_ptr (hs ! (n - 1)))\<rparr>))"

text \<open>The loop over the handles in \<open>allocate\<close>, with \<open>toggle\<close> and \<open>ptr\<close> its variables.\<close>

fun allocate_loop ::
    "nat \<Rightarrow> nat \<Rightarrow> nat \<Rightarrow> cache_handle list \<Rightarrow> nat \<times> cache_handle list" where
  "allocate_loop num toggle ptr [] = (ptr, [])"
| "allocate_loop num toggle ptr (h # hs) =
     (if toggle = 0 then (ptr, h # hs)
      else if toggle < num then
        (let (p, hs') = allocate_loop num (toggle - 1) ptr hs
         in (p, h\<lparr>ch_in_use := True, ch_num_blocks := toggle\<rparr> # hs'))
      else if \<not> ch_in_use h \<and> num \<le> ch_num_blocks h then
        (let (p, hs') = allocate_loop num (toggle - 1) (ch_ptr h) hs
         in (p, h\<lparr>ch_in_use := True, ch_num_blocks := num\<rparr> # hs'))
      else (let (p, hs') = allocate_loop num toggle ptr hs in (p, h # hs')))"

definition cache_allocate :: "nat \<Rightarrow> cache_manager \<Rightarrow> nat result \<times> cache_manager" where
  "cache_allocate num c =
     (let (ptr, hs) = allocate_loop num num 0 (cm_handles c);
          c' = c\<lparr>cm_handles := hs\<rparr>
      in if ptr = 0 then (Inl (Cache_Drain ''framework''), c')
         else (Inr ptr, c'\<lparr>cm_total := cm_total c + int num\<rparr>))"

definition alloc_raw :: "nat \<Rightarrow> cache_manager \<Rightarrow> nat result \<times> cache_manager" where
  "alloc_raw num c = (if cm_cache_size c = 0 then (Inr 0, c) else cache_allocate num c)"

text \<open>
  With \<open>CACHE_TRACKING\<close> every allocation also gets an identity, through the pointer \<open>id\<close>:
  the counter advances before the allocation is tried.
\<close>

definition alloc_raw_tracked ::
    "nat \<Rightarrow> int \<Rightarrow> cache_manager \<Rightarrow> nat result \<times> int \<times> cache_manager" where
  "alloc_raw_tracked num tid c =
     (if cm_cache_size c = 0 then (Inr 0, tid, c)
      else let c1 = c\<lparr>cm_track_id := cm_track_id c + 1\<rparr>;
               (r, c2) = cache_allocate num c1
           in (r, cm_track_id c1, c2))"

definition free_blocks ::
    "nat \<Rightarrow> nat \<Rightarrow> nat \<Rightarrow> cache_handle list \<Rightarrow> cache_handle list" where
  "free_blocks index blocks link hs =
     fold (\<lambda>i hs. hs[index + i := (hs ! (index + i))\<lparr>ch_in_use := False,
                                       ch_num_blocks := link - i\<rparr>]) [0..<blocks] hs"

primrec relink_up :: "nat \<Rightarrow> nat \<Rightarrow> cache_handle list \<Rightarrow> cache_handle list" where
  "relink_up 0 link hs =
     (if ch_in_use (hs ! 0) then hs else hs[0 := (hs ! 0)\<lparr>ch_num_blocks := link\<rparr>])"
| "relink_up (Suc i) link hs =
     (if ch_in_use (hs ! Suc i) then hs
      else relink_up i (Suc link) (hs[Suc i := (hs ! Suc i)\<lparr>ch_num_blocks := link\<rparr>]))"

definition free_raw :: "nat \<Rightarrow> cache_manager \<Rightarrow> cache_manager result" where
  "free_raw ptr c =
     (if ptr < cm_raw_cache c then Inr c
      else case cm_bound c of
        None \<Rightarrow> Inl Uninitialised
      | Some bound \<Rightarrow>
          if ptr > bound then Inr c
          else if cm_block_size c = 0 then Inl Div_By_Zero
          else let hs = cm_handles c; index = (ptr - cm_raw_cache c) div cm_block_size c in
            bind_res (arr_get hs index) (\<lambda>h. let blocks = ch_num_blocks h in
            bind_res (arr_get hs (index + blocks)) (\<lambda>next.
              let link = (if ch_in_use next then blocks else blocks + ch_num_blocks next)
              in Inr (c\<lparr>cm_handles := relink_up index link (free_blocks index blocks link hs),
                        cm_total := cm_total c - int blocks\<rparr>))))"

section \<open>Abstract state: segments\<close>

type_synonym seg = "bool \<times> nat"

definition cells :: "cache_handle list \<Rightarrow> seg list" where
  "cells hs = map (\<lambda>h. (ch_in_use h, ch_num_blocks h)) hs"

definition seg_cells :: "seg \<Rightarrow> seg list" where
  "seg_cells s = map (\<lambda>k. (fst s, snd s - k)) [0..<snd s]"

definition cells_of :: "seg list \<Rightarrow> seg list" where
  "cells_of ss = concat (map seg_cells ss)"

function parse_segs :: "seg list \<Rightarrow> seg list option" where
  "parse_segs [] = Some []"
| "parse_segs (s # cs) =
     (if 0 < snd s \<and> take (snd s) (s # cs) = seg_cells s
      then map_option (\<lambda>ss. s # ss) (parse_segs (drop (snd s) (s # cs)))
      else None)"
  by pat_completeness auto
termination
  by (relation "measure length") auto

declare parse_segs.simps(2) [simp del]

fun no_free_neighbours :: "seg list \<Rightarrow> bool" where
  "no_free_neighbours ((u, n) # (v, m) # ss) =
     ((u \<or> v) \<and> no_free_neighbours ((v, m) # ss))"
| "no_free_neighbours ss = True"

fun used_blocks :: "seg list \<Rightarrow> nat" where
  "used_blocks [] = 0"
| "used_blocks ((u, n) # ss) = (if u then n else 0) + used_blocks ss"

definition cache_segs :: "cache_manager \<Rightarrow> seg list option" where
  "cache_segs c = parse_segs (cells (cm_handles c))"

definition cache_inv :: "cache_manager \<Rightarrow> bool" where
  "cache_inv c \<longleftrightarrow> 0 < cm_raw_cache c \<and> 0 < cm_block_size c \<and> 0 < cm_num_blocks c
     \<and> cm_block_size c * cm_num_blocks c < 4294967296
     \<and> cm_cache_size c = cm_block_size c * cm_num_blocks c
     \<and> length (cm_handles c) = cm_num_blocks c
     \<and> map ch_ptr (cm_handles c)
         = map (\<lambda>i. cm_raw_cache c + i * cm_block_size c) [0..<cm_num_blocks c]
     \<and> cm_bound c = Some (cm_raw_cache c + (cm_num_blocks c - 1) * cm_block_size c)
     \<and> (case cache_segs c of None \<Rightarrow> False
        | Some ss \<Rightarrow> no_free_neighbours ss \<and> cm_total c = int (used_blocks ss))"

text \<open>First fit, and freeing with both neighbours, on the abstract state.\<close>

fun alloc_segs :: "nat \<Rightarrow> seg list \<Rightarrow> (nat \<times> seg list) option" where
  "alloc_segs num [] = None"
| "alloc_segs num ((u, n) # ss) =
     (if \<not> u \<and> num \<le> n
      then Some (0, (True, num) # (if n = num then ss else (False, n - num) # ss))
      else map_option (\<lambda>(off, ss'). (off + n, (u, n) # ss')) (alloc_segs num ss))"

fun merge_free :: "nat \<Rightarrow> seg list \<Rightarrow> seg list" where
  "merge_free n ((False, m) # ss) = (False, n + m) # ss"
| "merge_free n ss = (False, n) # ss"

fun free_segs :: "nat \<Rightarrow> seg list \<Rightarrow> seg list option" where
  "free_segs off [] = None"
| "free_segs off ((u, n) # ss) =
     (if off = 0 then (if u then Some (merge_free n ss) else None)
      else if off < n then None
      else map_option (\<lambda>ss'. if u then (u, n) # ss' else merge_free n ss')
             (free_segs (off - n) ss))"

section \<open>Segments and cells\<close>

lemma length_seg_cells [simp]: "length (seg_cells s) = snd s"
  by (simp add: seg_cells_def)

lemma seg_cells_nth: "k < snd s \<Longrightarrow> seg_cells s ! k = (fst s, snd s - k)"
  by (simp add: seg_cells_def)

lemma drop_seg_cells: "num \<le> n \<Longrightarrow> drop num (seg_cells (u, n)) = seg_cells (u, n - num)"
  by (rule nth_equalityI) (simp_all add: seg_cells_nth)

lemma seg_cells_0 [simp]: "snd s = 0 \<Longrightarrow> seg_cells s = []"
  by (simp add: seg_cells_def)

lemma seg_cells_Cons: "0 < n \<Longrightarrow> seg_cells (u, n) = (u, n) # seg_cells (u, n - 1)"
  by (rule nth_equalityI) (auto simp: seg_cells_nth nth_Cons split: nat.split)

lemma cells_of_simps [simp]:
  "cells_of [] = []" "cells_of (s # ss) = seg_cells s @ cells_of ss"
  "cells_of (ss @ ts) = cells_of ss @ cells_of ts"
  by (simp_all add: cells_of_def)

lemma length_cells [simp]: "length (cells hs) = length hs"
  by (simp add: cells_def)

lemma cells_nth [simp]: "i < length hs \<Longrightarrow> cells hs ! i = (ch_in_use (hs ! i), ch_num_blocks (hs ! i))"
  by (simp add: cells_def)

lemma cells_Nil [simp]: "cells [] = []"
  by (simp add: cells_def)

lemma cells_append [simp]: "cells (xs @ ys) = cells xs @ cells ys"
  by (simp add: cells_def)

lemma cells_take_drop: "cells (take n hs) = take n (cells hs)" "cells (drop n hs) = drop n (cells hs)"
  by (simp_all add: cells_def take_map drop_map)

abbreviation segs_pos :: "seg list \<Rightarrow> bool" where
  "segs_pos ss \<equiv> list_all (\<lambda>s. 0 < snd s) ss"

lemma parse_cells_of: "segs_pos ss \<Longrightarrow> parse_segs (cells_of ss) = Some ss"
proof (induction ss)
  case Nil
  then show ?case by simp
next
  case (Cons s ss)
  obtain u n where s: "s = (u, n)" by (cases s)
  with Cons.prems have n: "0 < n" by simp
  have c: "cells_of (s # ss) = s # seg_cells (u, n - 1) @ cells_of ss"
    using seg_cells_Cons [OF n, of u] by (simp add: s)
  have t: "take n (s # seg_cells (u, n - 1) @ cells_of ss) = seg_cells s"
    and d: "drop n (s # seg_cells (u, n - 1) @ cells_of ss) = cells_of ss"
    using seg_cells_Cons [OF n, of u] n by (simp_all add: s flip: append_Cons)
  obtain m where "n = Suc m" using n by (cases n) auto
  then show ?case using Cons n t d unfolding c by (simp add: parse_segs.simps(2) s)
qed

lemma parse_segs_Some:
  "parse_segs cs = Some ss \<Longrightarrow> cs = cells_of ss \<and> segs_pos ss"
proof (induction cs arbitrary: ss rule: parse_segs.induct)
  case 1
  then show ?case by simp
next
  case (2 s cs)
  then obtain ss' where ss: "0 < snd s" "take (snd s) (s # cs) = seg_cells s"
      "parse_segs (drop (snd s) (s # cs)) = Some ss'" "ss = s # ss'"
    by (auto simp: parse_segs.simps(2) split: if_splits)
  with "2.IH" have "drop (snd s) (s # cs) = cells_of ss'" "segs_pos ss'" by auto
  with ss have "s # cs = seg_cells s @ cells_of ss'" by (metis append_take_drop_id)
  with ss \<open>segs_pos ss'\<close> show ?case by simp
qed

lemma parse_segs_iff: "parse_segs cs = Some ss \<longleftrightarrow> cs = cells_of ss \<and> segs_pos ss"
  using parse_segs_Some parse_cells_of by blast

section \<open>Allocation is first fit\<close>

definition mark_used :: "nat \<Rightarrow> cache_handle list \<Rightarrow> cache_handle list" where
  "mark_used t hs = map (\<lambda>k. (hs ! k)\<lparr>ch_in_use := True, ch_num_blocks := t - k\<rparr>) [0..<t] @ drop t hs"

lemma mark_used_Suc:
  "mark_used (Suc t) (h # hs) = h\<lparr>ch_in_use := True, ch_num_blocks := Suc t\<rparr> # mark_used t hs"
  by (simp add: mark_used_def map_upt_Suc_shift del: upt_Suc)

lemma allocate_loop_mark:
  "t < num \<Longrightarrow> t \<le> length hs \<Longrightarrow> allocate_loop num t ptr hs = (ptr, mark_used t hs)"
proof (induction t arbitrary: hs)
  case 0
  then show ?case by (cases hs) (simp_all add: mark_used_def)
next
  case (Suc t)
  then obtain h hs' where "hs = h # hs'" by (cases hs) auto
  with Suc show ?case by (simp add: mark_used_Suc)
qed

lemma allocate_loop_skip:
  assumes "0 < num" and "list_all (\<lambda>h. ch_in_use h \<or> ch_num_blocks h < num) hs"
  shows "allocate_loop num num ptr (hs @ rest) =
    (fst (allocate_loop num num ptr rest), hs @ snd (allocate_loop num num ptr rest))"
  using assms(2)
proof (induction hs)
  case Nil
  then show ?case by simp
next
  case (Cons h hs)
  then show ?case using assms(1) by (auto simp: split_beta)
qed

lemma allocate_loop_hit:
  assumes "0 < num" and "num \<le> length hs" and "\<not> ch_in_use (hs ! 0)" and "num \<le> ch_num_blocks (hs ! 0)"
  shows "allocate_loop num num ptr hs = (ch_ptr (hs ! 0), mark_used num hs)"
proof -
  obtain h hs' where hs: "hs = h # hs'" using assms(1,2) by (cases hs) auto
  obtain t where t: "num = Suc t" using assms(1) by (cases num) auto
  show ?thesis
    using assms allocate_loop_mark [of t num hs' "ch_ptr h"]
    by (simp add: hs t mark_used_Suc)
qed

lemma cells_mark_used:
  assumes "num \<le> length hs"
  shows "cells (mark_used num hs) = seg_cells (True, num) @ drop num (cells hs)"
  by (rule nth_equalityI)
    (use assms in \<open>auto simp: mark_used_def seg_cells_nth nth_append\<close>)

lemma ptrs_mark_used: "num \<le> length hs \<Longrightarrow> map ch_ptr (mark_used num hs) = map ch_ptr hs"
  by (rule nth_equalityI) (auto simp: mark_used_def nth_append)

lemma allocate_loop_segs:
  assumes "0 < num" and "cells hs = cells_of ss"
  shows "(case alloc_segs num ss of
      None \<Rightarrow> allocate_loop num num ptr hs = (ptr, hs)
    | Some (off, ss') \<Rightarrow> off + num \<le> length hs
        \<and> allocate_loop num num ptr hs
            = (ch_ptr (hs ! off), take off hs @ mark_used num (drop off hs))
        \<and> cells (take off hs @ mark_used num (drop off hs)) = cells_of ss'
        \<and> (segs_pos ss \<longrightarrow> segs_pos ss'))"
  using assms(2)
proof (induction ss arbitrary: hs)
  case Nil
  then show ?case by (simp add: cells_def)
next
  case (Cons s ss)
  obtain u n where s: "s = (u, n)" by (cases s)
  have len: "length hs = n + length (cells_of ss)"
    using arg_cong [OF Cons.prems, of length] by (simp add: s)
  have c1: "cells (take n hs) = seg_cells (u, n)" and c2: "cells (drop n hs) = cells_of ss"
    using Cons.prems by (simp_all add: cells_take_drop s)
  show ?case
  proof (cases "\<not> u \<and> num \<le> n")
    case True
    have "cells hs ! 0 = (u, n)" using Cons.prems True assms(1) len
      by (simp add: s nth_append seg_cells_nth del: cells_nth)
    then have h0: "\<not> ch_in_use (hs ! 0)" "num \<le> ch_num_blocks (hs ! 0)"
      using True assms(1) len by auto
    have "num \<le> length hs" using True len by simp
    note hit = allocate_loop_hit [OF assms(1) this h0, of ptr]
    have "drop num (cells hs) = seg_cells (u, n - num) @ cells_of ss"
      using Cons.prems True by (simp add: s drop_seg_cells)
    then show ?thesis
      using True hit cells_mark_used [of num hs] len assms(1) by (simp add: s)
  next
    case False
    have skip: "list_all (\<lambda>h. ch_in_use h \<or> ch_num_blocks h < num) (take n hs)"
    proof -
      have "ch_in_use (hs ! k) \<or> ch_num_blocks (hs ! k) < num" if "k < n" for k
      proof -
        have "cells (take n hs) ! k = (u, n - k)" using that c1 by (simp add: seg_cells_nth del: cells_nth)
        then show ?thesis using that len False by auto
      qed
      then show ?thesis by (simp add: list_all_nth)
    qed
    have split: "allocate_loop num num ptr hs =
        (fst (allocate_loop num num ptr (drop n hs)),
         take n hs @ snd (allocate_loop num num ptr (drop n hs)))"
      using allocate_loop_skip [OF assms(1) skip, of ptr "drop n hs"] by simp
    have ih: "case alloc_segs num ss of
        None \<Rightarrow> allocate_loop num num ptr (drop n hs) = (ptr, drop n hs)
      | Some (off, ss') \<Rightarrow> off + num \<le> length (drop n hs)
          \<and> allocate_loop num num ptr (drop n hs)
              = (ch_ptr (drop n hs ! off), take off (drop n hs) @ mark_used num (drop off (drop n hs)))
          \<and> cells (take off (drop n hs) @ mark_used num (drop off (drop n hs))) = cells_of ss'
          \<and> (segs_pos ss \<longrightarrow> segs_pos ss')"
      using Cons.IH [OF c2] .
    show ?thesis
    proof (cases "alloc_segs num ss")
      case None
      with ih split False show ?thesis by (auto simp: s)
    next
      case (Some r)
      obtain off ss' where r: "r = (off, ss')" by (cases r)
      have t: "take (off + n) hs = take n hs @ take off (drop n hs)"
        by (simp add: take_add add.commute)
      from ih Some r split False c1 t len show ?thesis
        by (auto simp: s add.commute)
    qed
  qed
qed

section \<open>Freeing merges with both neighbours\<close>

lemma free_blocks_nth:
  assumes "index + blocks \<le> length hs"
  shows "length (free_blocks index blocks link hs) = length hs \<and>
    (\<forall>k < length hs. free_blocks index blocks link hs ! k =
      (if index \<le> k \<and> k < index + blocks
       then (hs ! k)\<lparr>ch_in_use := False, ch_num_blocks := link - (k - index)\<rparr> else hs ! k))"
  using assms
proof (induction blocks)
  case 0
  then show ?case by (auto simp: free_blocks_def)
next
  case (Suc n)
  let ?r = "free_blocks index n link hs"
  have "free_blocks index (Suc n) link hs =
      ?r[index + n := (?r ! (index + n))\<lparr>ch_in_use := False, ch_num_blocks := link - n\<rparr>]"
    by (simp add: free_blocks_def)
  with Suc show ?case by (auto simp: nth_list_update)
qed

lemma relink_up_nth:
  assumes "i < length hs" and "j \<le> i" and "\<forall>k. j \<le> k \<and> k \<le> i \<longrightarrow> \<not> ch_in_use (hs ! k)"
    and "j = 0 \<or> ch_in_use (hs ! (j - 1))"
  shows "length (relink_up i link hs) = length hs \<and>
    (\<forall>k < length hs. relink_up i link hs ! k =
      (if j \<le> k \<and> k \<le> i then (hs ! k)\<lparr>ch_num_blocks := link + (i - k)\<rparr> else hs ! k))"
  using assms
proof (induction i arbitrary: hs link)
  case 0
  then show ?case by (auto simp: nth_list_update)
next
  case (Suc i)
  let ?hs = "hs[Suc i := (hs ! Suc i)\<lparr>ch_num_blocks := link\<rparr>]"
  have step: "relink_up (Suc i) link hs = relink_up i (Suc link) ?hs"
    using Suc.prems by simp
  show ?case
  proof (cases "j = Suc i")
    case True
    with Suc.prems have "ch_in_use (hs ! i)" by auto
    then have "ch_in_use (?hs ! i)" by simp
    then have "relink_up i (Suc link) ?hs = ?hs" by (cases i) simp_all
    then show ?thesis unfolding step using True Suc.prems by (auto simp: nth_list_update)
  next
    case False
    with Suc.prems have "i < length ?hs" "j \<le> i"
      "\<forall>k. j \<le> k \<and> k \<le> i \<longrightarrow> \<not> ch_in_use (?hs ! k)" "j = 0 \<or> ch_in_use (?hs ! (j - 1))"
      by (auto simp: nth_list_update)
    from Suc.IH [OF this] False Suc.prems show ?thesis unfolding step
      by (auto simp: nth_list_update Suc_diff_le le_Suc_eq)
  qed
qed

lemma ptrs_free_blocks: "map ch_ptr (free_blocks index blocks link hs) = map ch_ptr hs"
proof (induction blocks)
  case 0
  then show ?case by (simp add: free_blocks_def)
next
  case (Suc n)
  let ?r = "free_blocks index n link hs"
  have "free_blocks index (Suc n) link hs =
      ?r[index + n := (?r ! (index + n))\<lparr>ch_in_use := False, ch_num_blocks := link - n\<rparr>]"
    by (simp add: free_blocks_def)
  with Suc show ?case
    by (metis (no_types, lifting) cache_handle.ext_inject cache_handle.surjective
        cache_handle.update_convs(2,3) list_update_id map_update)
qed

lemma ptrs_relink_up: "map ch_ptr (relink_up i link hs) = map ch_ptr hs"
proof (induction i arbitrary: link hs)
  case 0
  then show ?case by (simp add: map_update) (metis list_update_id map_update)
next
  case (Suc i)
  then show ?case by (simp add: map_update) (metis list_update_id map_update)
qed

text \<open>
  The handles after freeing the segment of \<open>n\<close> blocks that follows \<open>p\<close> free ones: \<open>A\<close> are
  the cells before those, \<open>next\<close> the cell that follows the freed segment.
\<close>

lemma free_cells:
  assumes H: "cells hs = A @ seg_cells (False, p) @ seg_cells (True, n) @ next # R" and n: "0 < n"
    and A: "A = [] \<or> fst (last A)"
  shows "cells (relink_up (length A + p) link (free_blocks (length A + p) n link hs))
    = A @ map (\<lambda>k. (False, link + p - k)) [0..<p + n] @ next # R"
proof -
  let ?a = "length A" and ?f = "free_blocks (length A + p) n link hs"
  have len: "length hs = ?a + p + n + Suc (length R)"
    using arg_cong [OF H, of length] by simp
  have f: "length ?f = length hs" "\<And>k. k < length hs \<Longrightarrow> ?f ! k =
      (if ?a + p \<le> k \<and> k < ?a + p + n
       then (hs ! k)\<lparr>ch_in_use := False, ch_num_blocks := link - (k - (?a + p))\<rparr> else hs ! k)"
    using free_blocks_nth [of "?a + p" n hs link] len by auto
  have c: "k < length hs \<Longrightarrow> (ch_in_use (hs ! k), ch_num_blocks (hs ! k)) =
      (A @ seg_cells (False, p) @ seg_cells (True, n) @ next # R) ! k" for k
    by (metis H cells_nth)
  have free: "\<forall>k. ?a \<le> k \<and> k \<le> ?a + p \<longrightarrow> \<not> ch_in_use (?f ! k)"
  proof (intro allI impI)
    fix k assume k: "?a \<le> k \<and> k \<le> ?a + p"
    then have "k < length hs" using len by simp
    show "\<not> ch_in_use (?f ! k)"
    proof (cases "k = ?a + p")
      case True
      then show ?thesis using n \<open>k < length hs\<close> by (simp add: f)
    next
      case False
      with k have "\<not> k < ?a" "k - ?a < p" "k < ?a + p" by linarith+
      then show ?thesis
        using c [OF \<open>k < length hs\<close>] \<open>k < length hs\<close> by (simp add: f nth_append seg_cells_nth)
    qed
  qed
  have stop: "?a = 0 \<or> ch_in_use (?f ! (?a - 1))"
  proof (cases "A = []")
    case False
    have lt: "?a - 1 < length hs" using len by linarith
    have "A ! (?a - 1) = (ch_in_use (hs ! (?a - 1)), ch_num_blocks (hs ! (?a - 1)))"
      using c [OF lt] False by (simp add: nth_append)
    then have "ch_in_use (hs ! (?a - 1))"
      using A False by (simp add: last_conv_nth)
    moreover have "\<not> ?a + p \<le> ?a - 1" using False by (cases A) simp_all
    then have "?f ! (?a - 1) = hs ! (?a - 1)" using f(2) [OF lt] by simp
    ultimately show ?thesis by simp
  qed simp
  let ?g = "relink_up (?a + p) link ?f"
  have "?a + p < length ?f" using len f n by simp
  from relink_up_nth [OF this _ free stop, of link]
  have g: "length ?g = length hs" "\<And>k. k < length hs \<Longrightarrow> ?g ! k =
      (if ?a \<le> k \<and> k \<le> ?a + p then (?f ! k)\<lparr>ch_num_blocks := link + (?a + p - k)\<rparr> else ?f ! k)"
    using f(1) by auto
  show ?thesis
  proof (rule nth_equalityI)
    show "length (cells ?g) = length (A @ map (\<lambda>k. (False, link + p - k)) [0..<p + n] @ next # R)"
      using g len by simp
  next
    fix k assume "k < length (cells ?g)"
    then have k: "k < length hs" using g by simp
    have gk: "cells ?g ! k = (ch_in_use (?g ! k), ch_num_blocks (?g ! k))"
      using k g by simp
    consider "k < ?a" | "?a \<le> k" "k \<le> ?a + p" | "?a + p < k" "k < ?a + p + n"
      | "?a + p + n \<le> k" by linarith
    then show "cells ?g ! k = (A @ map (\<lambda>k. (False, link + p - k)) [0..<p + n] @ next # R) ! k"
    proof cases
      case 1
      then show ?thesis using c [OF k] k by (simp add: gk g f nth_append)
    next
      case 2
      then have "\<not> ch_in_use (?f ! k)" using free by simp
      moreover have "k - ?a < p + n" "link + (?a + p - k) = link + p - (k - ?a)"
        using 2 n by arith+
      ultimately show ?thesis using 2 k by (simp add: gk g nth_append)
    next
      case 3
      then have "k - ?a < p + n" "link - (k - (?a + p)) = link + p - (k - ?a)" by arith+
      with 3 show ?thesis using k by (simp add: gk g f nth_append)
    next
      case 4
      then obtain d where d: "k = ?a + p + n + d" using le_Suc_ex by blast
      then have "(A @ map (\<lambda>k. (False, link + p - k)) [0..<p + n] @ next # R) ! k = (next # R) ! d"
        by (simp add: nth_append)
      moreover have "(A @ seg_cells (False, p) @ seg_cells (True, n) @ next # R) ! k = (next # R) ! d"
        using d by (simp add: nth_append)
      ultimately show ?thesis using c [OF k] 4 k n by (simp add: gk g f)
    qed
  qed
qed

section \<open>The invariant and the abstract operations\<close>

definition seg_total :: "seg list \<Rightarrow> nat" where
  "seg_total ss = sum_list (map snd ss)"

lemma seg_total_simps [simp]:
  "seg_total [] = 0" "seg_total (s # ss) = snd s + seg_total ss"
  "seg_total (ss @ ts) = seg_total ss + seg_total ts"
  by (simp_all add: seg_total_def)

lemma length_cells_of [simp]: "length (cells_of ss) = seg_total ss"
  by (induction ss) simp_all

lemma used_blocks_append [simp]: "used_blocks (ss @ ts) = used_blocks ss + used_blocks ts"
  by (induction ss rule: used_blocks.induct) auto

lemma no_free_neighbours_Cons:
  "no_free_neighbours (s # ss) \<longleftrightarrow>
    no_free_neighbours ss \<and> (ss = [] \<or> fst s \<or> fst (hd ss))"
  by (cases s; cases ss) auto

lemma no_free_neighbours_append:
  "no_free_neighbours (xs @ ys) \<longleftrightarrow> no_free_neighbours xs \<and> no_free_neighbours ys
    \<and> (xs = [] \<or> ys = [] \<or> fst (last xs) \<or> fst (hd ys))"
  by (induction xs) (auto simp: no_free_neighbours_Cons hd_append)

text \<open>\<open>used_at off ss\<close> is the number of blocks of the allocated segment that starts at block
  \<open>off\<close>, and \<open>cache_live\<close> the same by address: the allocations the cache knows.\<close>

fun used_at :: "nat \<Rightarrow> seg list \<Rightarrow> nat option" where
  "used_at off [] = None"
| "used_at off ((u, n) # ss) =
     (if off = 0 then (if u then Some n else None)
      else if off < n then None else used_at (off - n) ss)"

definition cache_live :: "cache_manager \<Rightarrow> nat \<Rightarrow> nat option" where
  "cache_live c p =
     (if p < cm_raw_cache c \<or> (p - cm_raw_cache c) mod cm_block_size c \<noteq> 0 then None
      else case cache_segs c of None \<Rightarrow> None
        | Some ss \<Rightarrow> used_at ((p - cm_raw_cache c) div cm_block_size c) ss)"

lemma used_at_split:
  assumes "segs_pos ss" and "used_at off ss = Some n"
  shows "\<exists>pre post. ss = pre @ (True, n) # post \<and> seg_total pre = off"
  using assms
proof (induction off ss rule: used_at.induct)
  case (1 off)
  then show ?case by simp
next
  case (2 off u m ss)
  show ?case
  proof (cases "off = 0")
    case True
    with "2.prems" have "(u, m) # ss = [] @ (True, n) # ss" by (auto split: if_splits)
    then show ?thesis using True by (intro exI [of _ "[]"] exI [of _ ss]) simp
  next
    case False
    with "2.prems" have "\<not> off < m" "used_at (off - m) ss = Some n" by (auto split: if_splits)
    with "2.IH" False "2.prems" obtain pre post where
      "ss = pre @ (True, n) # post" "seg_total pre = off - m" by auto
    then show ?thesis using \<open>\<not> off < m\<close> by (intro exI [of _ "(u, m) # pre"] exI [of _ post]) auto
  qed
qed

lemma used_at_append:
  "segs_pos pre \<Longrightarrow> used_at (seg_total pre) (pre @ (True, n) # post) = Some n"
  by (induction pre) auto

lemma cache_invD:
  assumes "cache_inv c"
  obtains ss where "cache_segs c = Some ss" "cells (cm_handles c) = cells_of ss" "segs_pos ss"
    "no_free_neighbours ss" "cm_total c = int (used_blocks ss)"
    "length (cm_handles c) = cm_num_blocks c" "seg_total ss = cm_num_blocks c"
    "\<And>i. i < cm_num_blocks c \<Longrightarrow>
        ch_ptr (cm_handles c ! i) = cm_raw_cache c + i * cm_block_size c"
proof -
  from assms obtain ss where ss: "cache_segs c = Some ss" "no_free_neighbours ss"
      "cm_total c = int (used_blocks ss)"
    by (auto simp: cache_inv_def split: option.splits)
  then have cs: "cells (cm_handles c) = cells_of ss" "segs_pos ss"
    using parse_segs_Some by (auto simp: cache_segs_def)
  have len: "length (cm_handles c) = cm_num_blocks c" using assms by (simp add: cache_inv_def)
  then have "seg_total ss = cm_num_blocks c"
    using arg_cong [OF cs(1), of length] by simp
  moreover have "ch_ptr (cm_handles c ! i) = cm_raw_cache c + i * cm_block_size c"
    if "i < cm_num_blocks c" for i
  proof -
    have "map ch_ptr (cm_handles c) ! i = cm_raw_cache c + i * cm_block_size c"
      using assms that by (simp add: cache_inv_def)
    then show ?thesis using that len by simp
  qed
  ultimately show ?thesis using that ss cs len by blast
qed

text \<open>Every operation on a built cache rewrites the handles and the total only.\<close>

lemma cache_inv_update:
  assumes "cache_inv c" and "length hs = cm_num_blocks c"
    and "map ch_ptr hs = map ch_ptr (cm_handles c)"
    and "cells hs = cells_of ss" and "segs_pos ss" and "no_free_neighbours ss"
    and "t = int (used_blocks ss)"
  shows "cache_inv (c\<lparr>cm_handles := hs, cm_total := t\<rparr>)
    \<and> cache_segs (c\<lparr>cm_handles := hs, cm_total := t\<rparr>) = Some ss"
proof -
  have "cache_segs (c\<lparr>cm_handles := hs, cm_total := t\<rparr>) = Some ss"
    using assms(4,5) by (simp add: cache_segs_def parse_cells_of)
  with assms show ?thesis by (simp add: cache_inv_def)
qed

lemma alloc_segs_split:
  assumes "alloc_segs num ss = Some (off, ss')"
  shows "\<exists>pre n post. ss = pre @ (False, n) # post \<and> num \<le> n \<and> off = seg_total pre
    \<and> ss' = pre @ (True, num) # (if n = num then post else (False, n - num) # post)"
  using assms
proof (induction num ss arbitrary: off ss' rule: alloc_segs.induct)
  case (1 num)
  then show ?case by simp
next
  case (2 num u n ss)
  show ?case
  proof (cases "\<not> u \<and> num \<le> n")
    case True
    with "2.prems" show ?thesis
      by (intro exI [of _ "[]"] exI [of _ n] exI [of _ ss]) auto
  next
    case False
    with "2.prems" obtain off1 ss1 where
      r: "alloc_segs num ss = Some (off1, ss1)" "off = off1 + n" "ss' = (u, n) # ss1" by auto
    from "2.IH" [OF False r(1)] obtain pre m post where
      "ss = pre @ (False, m) # post" "num \<le> m" "off1 = seg_total pre"
      "ss1 = pre @ (True, num) # (if m = num then post else (False, m - num) # post)" by blast
    with r show ?thesis
      by (intro exI [of _ "(u, n) # pre"] exI [of _ m] exI [of _ post]) auto
  qed
qed

lemma alloc_segs_inv:
  assumes "alloc_segs num ss = Some (off, ss')" and "no_free_neighbours ss"
  shows "no_free_neighbours ss' \<and> used_blocks ss' = used_blocks ss + num
    \<and> seg_total ss' = seg_total ss"
proof -
  obtain pre n post where s: "ss = pre @ (False, n) # post" "num \<le> n"
    "ss' = pre @ (True, num) # (if n = num then post else (False, n - num) # post)"
    using alloc_segs_split [OF assms(1)] by blast
  show ?thesis
    using assms(2) s(2) unfolding s(1,3)
    by (auto simp: no_free_neighbours_append no_free_neighbours_Cons)
qed

lemma alloc_raw_refines:
  assumes "cache_inv c" and "cache_segs c = Some ss" and "0 < num"
  shows "(case alloc_segs num ss of
      None \<Rightarrow> alloc_raw num c = (Inl (Cache_Drain ''framework''), c)
    | Some (off, ss') \<Rightarrow>
        let hs = take off (cm_handles c) @ mark_used num (drop off (cm_handles c));
            c' = c\<lparr>cm_handles := hs, cm_total := cm_total c + int num\<rparr>
        in off + num \<le> cm_num_blocks c \<and> cache_inv c' \<and> cache_segs c' = Some ss'
          \<and> alloc_raw num c = (Inr (cm_raw_cache c + off * cm_block_size c), c'))"
proof -
  obtain ss0 where ss: "cache_segs c = Some ss0" "cells (cm_handles c) = cells_of ss0" "segs_pos ss0"
    "no_free_neighbours ss0" "cm_total c = int (used_blocks ss0)"
    "length (cm_handles c) = cm_num_blocks c"
    "\<And>i. i < cm_num_blocks c \<Longrightarrow>
        ch_ptr (cm_handles c ! i) = cm_raw_cache c + i * cm_block_size c"
    using assms(1) by (rule cache_invD) blast
  have eq: "ss0 = ss" using ss(1) assms(2) by simp
  have pos: "0 < cm_raw_cache c" "cm_cache_size c \<noteq> 0"
    using assms(1) by (auto simp: cache_inv_def)
  note loop = allocate_loop_segs [OF assms(3) ss(2), of 0]
  show ?thesis
  proof (cases "alloc_segs num ss")
    case None
    with loop eq pos show ?thesis
      by (simp add: alloc_raw_def cache_allocate_def)
  next
    case (Some r)
    obtain off ss' where r: "r = (off, ss')" by (cases r)
    let ?hs = "take off (cm_handles c) @ mark_used num (drop off (cm_handles c))"
    from loop Some r eq have l: "off + num \<le> length (cm_handles c)"
      "allocate_loop num num 0 (cm_handles c) = (ch_ptr (cm_handles c ! off), ?hs)"
      "cells ?hs = cells_of ss'" "segs_pos ss'" using ss(3) by auto
    have ptr: "ch_ptr (cm_handles c ! off) = cm_raw_cache c + off * cm_block_size c"
      using ss(6) ss(7) [of off] l(1) assms(3) by simp
    have "map ch_ptr (mark_used num (drop off (cm_handles c))) = map ch_ptr (drop off (cm_handles c))"
      using l(1) ptrs_mark_used [of num "drop off (cm_handles c)"] by simp
    then have ptrs: "map ch_ptr ?hs = map ch_ptr (cm_handles c)"
      by (metis append_take_drop_id map_append)
    then have len: "length ?hs = cm_num_blocks c" using ss(6) by (metis length_map)
    have inv: "no_free_neighbours ss'" "cm_total c + int num = int (used_blocks ss')"
      using alloc_segs_inv [of num ss off ss'] Some r ss(4,5) eq by simp_all
    note upd = cache_inv_update [OF assms(1) len ptrs l(3,4) inv]
    have "alloc_raw num c = (Inr (cm_raw_cache c + off * cm_block_size c),
        c\<lparr>cm_handles := ?hs, cm_total := cm_total c + int num\<rparr>)"
      using l(2) ptr pos by (simp add: alloc_raw_def cache_allocate_def)
    with upd l(1) ss(6) Some r show ?thesis by (simp add: Let_def)
  qed
qed

lemma free_segs_at:
  assumes "segs_pos pre"
  shows "free_segs (seg_total pre) (pre @ (True, n) # post) =
    Some (foldr (\<lambda>s r. if fst s then s # r else merge_free (snd s) r) pre (merge_free n post))"
  using assms by (induction pre) auto

lemma foldr_merge_id:
  assumes "no_free_neighbours pre" and "pre = [] \<or> fst (last pre)"
  shows "foldr (\<lambda>s r. if fst s then s # r else merge_free (snd s) r) pre r = pre @ r"
  using assms
proof (induction pre)
  case Nil
  then show ?case by simp
next
  case (Cons s pre)
  obtain u n where s: "s = (u, n)" by (cases s)
  show ?case
  proof (cases pre)
    case Nil
    with Cons.prems show ?thesis by (simp add: s)
  next
    case (Cons t ts)
    with Cons.prems Cons.IH show ?thesis by (cases t) (auto simp: s no_free_neighbours_Cons)
  qed
qed

text \<open>The free segments around an allocation: \<open>p\<close> blocks before it, \<open>link\<close> from it on.\<close>

lemma split_before:
  assumes "no_free_neighbours pre"
  obtains pre' p where "pre = pre' @ (if p = 0 then [] else [(False, p)])"
    "pre' = [] \<or> fst (last pre')" | "\<not> segs_pos pre"
proof (cases "pre = [] \<or> fst (last pre)")
  case True
  then show ?thesis using that(1) [of pre 0] by simp
next
  case False
  then obtain xs s where s: "pre = xs @ [s]" "\<not> fst s" by (metis append_butlast_last_id)
  then have "xs = [] \<or> fst (last xs)"
    using assms by (auto simp: no_free_neighbours_append)
  moreover obtain p where "s = (False, p)" using s(2) by (cases s) auto
  ultimately show ?thesis using s(1) that(1) [of xs p] that(2) by (cases "p = 0") simp_all
qed

definition link_after :: "nat \<Rightarrow> seg list \<Rightarrow> nat" where
  "link_after n post = (case post of (False, m) # _ \<Rightarrow> n + m | _ \<Rightarrow> n)"

definition rest_after :: "seg list \<Rightarrow> seg list" where
  "rest_after post = (case post of (False, m) # ts \<Rightarrow> ts | _ \<Rightarrow> post)"

lemma merge_free_eq: "merge_free n post = (False, link_after n post) # rest_after post"
  by (cases "(n, post)" rule: merge_free.cases) (simp_all add: link_after_def rest_after_def)

lemma cells_merge:
  assumes "post \<noteq> []" and "segs_pos post"
  shows "map (\<lambda>k. (False, link_after n post + p - k)) [0..<p + n] @ cells_of post
    = cells_of ((False, link_after n post + p) # rest_after post)"
proof -
  obtain v m ts where post: "post = (v, m) # ts" using assms(1) by (cases post) auto
  show ?thesis
  proof (cases v)
    case True
    then show ?thesis
      by (simp add: post link_after_def rest_after_def seg_cells_def add.commute)
  next
    case False
    have "map (\<lambda>k. (False, n + m + p - k)) [0..<p + n] @ seg_cells (False, m)
        = seg_cells (False, n + m + p)"
      by (rule nth_equalityI) (auto simp: seg_cells_nth nth_append)
    with False show ?thesis by (simp add: post link_after_def rest_after_def)
  qed
qed

lemma free_raw_refines:
  assumes inv: "cache_inv c" and ss: "cache_segs c = Some ss" and used: "used_at off ss = Some n"
    and room: "off + n < cm_num_blocks c"
  shows "\<exists>c' ss'. free_raw (cm_raw_cache c + off * cm_block_size c) c = Inr c'
    \<and> free_segs off ss = Some ss' \<and> cache_segs c' = Some ss' \<and> cache_inv c'"
proof -
  let ?bs = "cm_block_size c" and ?hs = "cm_handles c"
  obtain ss0 where "cache_segs c = Some ss0" and ss0: "cells ?hs = cells_of ss0" "segs_pos ss0"
    "no_free_neighbours ss0" "cm_total c = int (used_blocks ss0)" "length ?hs = cm_num_blocks c"
    "seg_total ss0 = cm_num_blocks c"
    using inv by (rule cache_invD) blast
  then have S: "cells ?hs = cells_of ss" "segs_pos ss" "no_free_neighbours ss"
    "cm_total c = int (used_blocks ss)" "seg_total ss = cm_num_blocks c" using ss by simp_all
  obtain pre post where dec: "ss = pre @ (True, n) # post" "seg_total pre = off"
    using used_at_split [OF S(2) used] by blast
  have pos: "segs_pos pre" "0 < n" "segs_pos post" using S(2) dec by simp_all
  have nfn: "no_free_neighbours pre" "no_free_neighbours post"
    using S(3) dec by (simp_all add: no_free_neighbours_append no_free_neighbours_Cons)
  have post: "post \<noteq> []" using S(5) dec room by auto
  obtain pre' p where pre: "pre = pre' @ (if p = 0 then [] else [(False, p)])"
      "pre' = [] \<or> fst (last pre')"
    using split_before [OF nfn(1)] pos(1) by blast
  have nfn': "no_free_neighbours pre'" using nfn(1) pre(1)
    by (simp add: no_free_neighbours_append split: if_splits)
  let ?link = "link_after n post" and ?rest = "rest_after post"
  let ?ss' = "pre' @ (False, ?link + p) # ?rest"
  \<comment> \<open>the abstract result\<close>
  have absr: "free_segs off ss = Some ?ss'"
    using free_segs_at [OF pos(1), of n post] dec pre foldr_merge_id [OF nfn' pre(2)]
    by (cases "p = 0") (simp_all add: merge_free_eq [of n post] add.commute)
  \<comment> \<open>the handles the code reads\<close>
  have off: "off = length (cells_of pre') + p" using dec(2) pre by (auto split: if_splits)
  obtain nxt R where nx: "cells_of post = nxt # R" "nxt = hd post"
    using post pos(3) seg_cells_Cons by (cases post) auto
  have H: "cells ?hs = cells_of pre' @ seg_cells (False, p) @ seg_cells (True, n) @ nxt # R"
    using S(1) dec pre nx(1) by (cases "p = 0") simp_all
  have at: "(ch_in_use (?hs ! k), ch_num_blocks (?hs ! k)) = cells ?hs ! k" if "k < cm_num_blocks c" for k
    using that ss0(5) by simp
  have c1: "ch_num_blocks (?hs ! off) = n"
    using at [of off] room pos(2) off unfolding H
    by (simp add: nth_append seg_cells_nth)
  have c2: "(ch_in_use (?hs ! (off + n)), ch_num_blocks (?hs ! (off + n))) = nxt"
    using at [of "off + n"] room off unfolding H by (simp add: nth_append)
  have link: "(if ch_in_use (?hs ! (off + n)) then n else n + ch_num_blocks (?hs ! (off + n))) = ?link"
    using c2 nx(2) post by (cases post) (auto simp: link_after_def)
  \<comment> \<open>the new handles\<close>
  let ?new = "relink_up off ?link (free_blocks off n ?link ?hs)"
  have A: "cells_of pre' = [] \<or> fst (last (cells_of pre'))"
  proof (cases "pre' = []")
    case False
    then obtain xs u m where "pre' = xs @ [(u, m)]" "u"
      using pre(2) by (cases pre' rule: rev_cases) auto
    moreover from this have "0 < m" using pos(1) pre(1) by simp
    ultimately show ?thesis
      by (auto simp: seg_cells_def last_map)
  qed simp
  have "cells ?new = cells_of ?ss'"
    using free_cells [OF H pos(2) A, of ?link] cells_merge [OF post pos(3), of n p] nx(1) off
    by simp
  moreover have "length ?new = cm_num_blocks c" "map ch_ptr ?new = map ch_ptr ?hs"
    using ss0(5) by (simp_all add: ptrs_relink_up ptrs_free_blocks)
      (metis length_map ptrs_free_blocks ptrs_relink_up)
  moreover have "segs_pos ?ss'"
    using pos pre(1) post by (auto simp: rest_after_def link_after_def split: list.splits bool.splits)
  moreover have "no_free_neighbours ?ss'"
    using nfn(2) nfn' pre(2) post
    by (auto simp: no_free_neighbours_append no_free_neighbours_Cons rest_after_def
        split: list.splits bool.splits prod.splits)
  moreover have "cm_total c - int n = int (used_blocks ?ss')"
    using S(4) dec pre(1) by (auto simp: rest_after_def split: list.splits bool.splits if_splits)
  ultimately have upd: "cache_inv (c\<lparr>cm_handles := ?new, cm_total := cm_total c - int n\<rparr>)
      \<and> cache_segs (c\<lparr>cm_handles := ?new, cm_total := cm_total c - int n\<rparr>) = Some ?ss'"
    using cache_inv_update [OF inv] by blast
  have bs: "0 < ?bs" "cm_bound c = Some (cm_raw_cache c + (cm_num_blocks c - 1) * ?bs)"
    using inv by (simp_all add: cache_inv_def)
  have le: "off * ?bs \<le> (cm_num_blocks c - 1) * ?bs" using room by (intro mult_le_mono1) simp
  have "free_raw (cm_raw_cache c + off * ?bs) c =
      Inr (c\<lparr>cm_handles := ?new, cm_total := cm_total c - int n\<rparr>)"
    using bs le room ss0(5) c1 link by (auto simp: free_raw_def Let_def split: if_splits)
  with absr upd show ?thesis by blast
qed

lemma free_raw_last:
  assumes inv: "cache_inv c" and ss: "cache_segs c = Some ss" and used: "used_at off ss = Some n"
    and full: "off + n = cm_num_blocks c"
  shows "free_raw (cm_raw_cache c + off * cm_block_size c) c = Inl Out_Of_Bounds"
proof -
  let ?bs = "cm_block_size c" and ?hs = "cm_handles c"
  obtain ss0 where "cache_segs c = Some ss0" and ss0: "cells ?hs = cells_of ss0" "segs_pos ss0"
    "length ?hs = cm_num_blocks c"
    using inv by (rule cache_invD) blast
  then have S: "cells ?hs = cells_of ss" "segs_pos ss" using ss by simp_all
  obtain pre post where dec: "ss = pre @ (True, n) # post" "seg_total pre = off"
    using used_at_split [OF S(2) used] by blast
  have n: "0 < n" using S(2) dec by simp
  have "cells ?hs ! off = (True, n)"
    using n dec unfolding S(1) dec(1) by (simp add: nth_append seg_cells_nth)
  then have c1: "ch_num_blocks (?hs ! off) = n" using full n ss0(3) by simp
  have bs: "0 < ?bs" "cm_bound c = Some (cm_raw_cache c + (cm_num_blocks c - 1) * ?bs)"
    using inv by (simp_all add: cache_inv_def)
  have le: "off * ?bs \<le> (cm_num_blocks c - 1) * ?bs" using full n by (intro mult_le_mono1) simp
  show ?thesis using bs le full n ss0(3) c1 by (simp add: free_raw_def Let_def)
qed

section \<open>Which allocations are live\<close>

lemma used_at_alloc:
  assumes "alloc_segs num ss = Some (off, ss')" and "segs_pos ss" and "0 < num"
  shows "used_at off ss = None \<and> used_at k ss' = (if k = off then Some num else used_at k ss)"
  using assms
proof (induction num ss arbitrary: off ss' k rule: alloc_segs.induct)
  case (1 num)
  then show ?case by simp
next
  case (2 num u n ss)
  show ?case
  proof (cases "\<not> u \<and> num \<le> n")
    case True
    with "2.prems" show ?thesis by (auto split: if_splits)
  next
    case False
    with "2.prems" obtain off1 ss1 where
      r: "alloc_segs num ss = Some (off1, ss1)" "off = off1 + n" "ss' = (u, n) # ss1" by auto
    with "2.IH" [OF False r(1)] "2.prems" show ?thesis by auto
  qed
qed

lemma merge_free_pos: "0 < n \<Longrightarrow> segs_pos r \<Longrightarrow> segs_pos (merge_free n r)"
  by (cases "(n, r)" rule: merge_free.cases) auto

lemma used_at_merge:
  "0 < n \<Longrightarrow> segs_pos r \<Longrightarrow> used_at k (merge_free n r) = (if k < n then None else used_at (k - n) r)"
  by (cases "(n, r)" rule: merge_free.cases) auto

lemma used_at_free:
  assumes "free_segs off ss = Some ss'" and "segs_pos ss"
  shows "segs_pos ss' \<and> used_at k ss' = (if k = off then None else used_at k ss)"
  using assms
proof (induction off ss arbitrary: ss' k rule: free_segs.induct)
  case (1 off)
  then show ?case by simp
next
  case (2 off u n ss)
  show ?case
  proof (cases "off = 0")
    case True
    with "2.prems" show ?thesis by (auto simp: used_at_merge merge_free_pos split: if_splits)
  next
    case False
    with "2.prems" obtain r where r: "\<not> off < n" "free_segs (off - n) ss = Some r"
      "ss' = (if u then (u, n) # r else merge_free n r)" by (auto split: if_splits)
    from "2.IH" [OF False r(1,2)] "2.prems" False r(1,3) show ?thesis
      by (auto simp: used_at_merge merge_free_pos)
  qed
qed

lemma cache_live_at:
  "cache_segs c = Some ss \<Longrightarrow> 0 < cm_block_size c \<Longrightarrow>
    cache_live c (cm_raw_cache c + k * cm_block_size c) = used_at k ss"
  by (simp add: cache_live_def)

lemma cache_live_upd:
  assumes "cache_segs c = Some ss" and "cache_segs c' = Some ss'" and "0 < cm_block_size c"
    and "cm_raw_cache c' = cm_raw_cache c" and "cm_block_size c' = cm_block_size c"
    and upd: "\<And>k. used_at k ss' = (if k = off then r else used_at k ss)"
  shows "cache_live c' = (cache_live c)(cm_raw_cache c + off * cm_block_size c := r)"
proof
  fix p
  let ?b = "cm_raw_cache c" and ?s = "cm_block_size c"
  show "cache_live c' p = ((cache_live c)(?b + off * ?s := r)) p"
  proof (cases "p < ?b \<or> (p - ?b) mod ?s \<noteq> 0")
    case True
    then have "p \<noteq> ?b + off * ?s" by auto
    with True assms(4,5) show ?thesis by (simp add: cache_live_def)
  next
    case False
    then obtain k where p: "p = ?b + k * ?s"
      by (metis add_diff_inverse_nat mod_0_imp_dvd dvd_def mult.commute)
    have "cache_live c' p = used_at k ss'" "cache_live c p = used_at k ss"
      using assms p cache_live_at [of c' ss' k] cache_live_at [of c ss k] by simp_all
    then show ?thesis using upd [of k] p assms(3) by simp
  qed
qed

text \<open>A live allocation that does not reach the end of the array can be freed.\<close>

definition cache_freeable :: "cache_manager \<Rightarrow> nat \<Rightarrow> bool" where
  "cache_freeable c p =
     (case cache_live c p of None \<Rightarrow> False
      | Some n \<Rightarrow> (p - cm_raw_cache c) div cm_block_size c + n < cm_num_blocks c)"

lemma cache_live_cases:
  assumes "cache_inv c" and "cache_live c p = Some n"
  obtains ss k where "cache_segs c = Some ss" "p = cm_raw_cache c + k * cm_block_size c"
    "used_at k ss = Some n" "k = (p - cm_raw_cache c) div cm_block_size c"
    "cache_freeable c p \<longleftrightarrow> k + n < cm_num_blocks c"
proof -
  let ?k = "(p - cm_raw_cache c) div cm_block_size c"
  from assms(2) have p: "\<not> p < cm_raw_cache c" "(p - cm_raw_cache c) mod cm_block_size c = 0"
    by (auto simp: cache_live_def split: if_splits)
  obtain ss where ss: "cache_segs c = Some ss" using assms(1) by (rule cache_invD) blast
  have "?k * cm_block_size c = p - cm_raw_cache c"
    using p(2) by (simp add: mult.commute mult_div_mod_eq [symmetric] minus_mod_eq_mult_div [symmetric])
  then have "p = cm_raw_cache c + ?k * cm_block_size c" using p(1) by simp
  moreover have "used_at ?k ss = Some n" using assms(2) p ss by (simp add: cache_live_def)
  ultimately show ?thesis using that ss assms(2) by (simp add: cache_freeable_def)
qed

lemma alloc_raw_live:
  assumes "cache_inv c" and "0 < num" and "alloc_raw num c = (Inr p, c')"
  shows "0 < p \<and> cache_inv c' \<and> cache_live c p = None \<and> cache_live c' = (cache_live c)(p := Some num)"
proof -
  obtain ss where ss: "cache_segs c = Some ss" "segs_pos ss"
    using assms(1) by (rule cache_invD) blast
  have b: "0 < cm_block_size c" "0 < cm_raw_cache c" using assms(1) by (simp_all add: cache_inv_def)
  note ref = alloc_raw_refines [OF assms(1) ss(1) assms(2)]
  obtain off ss' where a: "alloc_segs num ss = Some (off, ss')"
    using ref assms(3) by (cases "alloc_segs num ss") auto
  from ref a assms(3) have r: "p = cm_raw_cache c + off * cm_block_size c" "cache_inv c'"
    "cache_segs c' = Some ss'" "cm_raw_cache c' = cm_raw_cache c" "cm_block_size c' = cm_block_size c"
    by (auto simp: Let_def)
  note u = used_at_alloc [OF a ss(2) assms(2)]
  have "cache_live c' = (cache_live c)(p := Some num)"
    using cache_live_upd [OF ss(1) r(3) b(1) r(4,5)] u r(1) by blast
  moreover have "cache_live c p = None" using cache_live_at [OF ss(1) b(1), of off] u r(1) by simp
  ultimately show ?thesis using r(1,2) b by simp
qed

lemma free_raw_live:
  assumes "cache_inv c" and "cache_live c p = Some n" and "cache_freeable c p"
  shows "\<exists>c'. free_raw p c = Inr c' \<and> cache_inv c' \<and> cache_live c' = (cache_live c)(p := None)"
proof -
  obtain ss k where k: "cache_segs c = Some ss" "p = cm_raw_cache c + k * cm_block_size c"
    "used_at k ss = Some n" "k + n < cm_num_blocks c"
    using cache_live_cases [OF assms(1,2)] assms(3) by metis
  have b: "0 < cm_block_size c" using assms(1) by (simp add: cache_inv_def)
  have pos: "segs_pos ss" using assms(1) k(1) by (metis cache_invD option.inject)
  obtain c' ss' where c': "free_raw p c = Inr c'" "free_segs k ss = Some ss'"
    "cache_segs c' = Some ss'" "cache_inv c'"
    using free_raw_refines [OF assms(1) k(1,3,4)] k(2) by blast
  have same: "cm_raw_cache c' = cm_raw_cache c" "cm_block_size c' = cm_block_size c"
    using c'(1) by (auto simp: free_raw_def Let_def bind_res_eq_Inr split: if_splits option.splits)
  have "cache_live c' = (cache_live c)(p := None)"
    using cache_live_upd [OF k(1) c'(3) b same] used_at_free [OF c'(2) pos] k(2) by blast
  with c' show ?thesis by blast
qed

lemma cache_track_id [simp]:
  "cache_segs (c\<lparr>cm_track_id := t\<rparr>) = cache_segs c"
  "cache_inv (c\<lparr>cm_track_id := t\<rparr>) = cache_inv c"
  "cache_live (c\<lparr>cm_track_id := t\<rparr>) = cache_live c"
proof -
  show s: "cache_segs (c\<lparr>cm_track_id := t\<rparr>) = cache_segs c"
    by (simp add: cache_segs_def)
  show "cache_inv (c\<lparr>cm_track_id := t\<rparr>) = cache_inv c"
    by (simp add: cache_inv_def s cong: option.case_cong)
  show "cache_live (c\<lparr>cm_track_id := t\<rparr>) = cache_live c"
    by (rule ext) (simp add: cache_live_def s cong: option.case_cong if_cong)
qed

lemma alloc_raw_tracked_inv:
  assumes "cache_inv c"
  shows "alloc_raw_tracked num tid c =
    (let (r, c2) = alloc_raw num (c\<lparr>cm_track_id := cm_track_id c + 1\<rparr>)
     in (r, cm_track_id c + 1, c2))"
proof -
  have "cm_cache_size c \<noteq> 0" using assms by (simp add: cache_inv_def)
  then show ?thesis by (simp add: alloc_raw_tracked_def alloc_raw_def)
qed

lemma alloc_raw_drains:
  assumes "cache_inv c" and "alloc_raw n c = (Inl e, c')"
  shows "c' = c \<and> e = Cache_Drain ''framework''"
proof (cases "n = 0")
  case True
  have "allocate_loop 0 0 0 hs = (0, hs)" for hs by (cases hs) simp_all
  with assms(2) True show ?thesis
    by (auto simp: alloc_raw_def cache_allocate_def split: if_splits)
next
  case False
  obtain ss where ss: "cache_segs c = Some ss" using assms(1) by (rule cache_invD) blast
  with alloc_raw_refines [OF assms(1) ss, of n] False assms(2) show ?thesis
    by (auto simp: Let_def split: option.splits)
qed

lemma alloc_raw_zero: "cm_cache_size c \<noteq> 0 \<Longrightarrow> alloc_raw 0 c \<noteq> (Inr p, c')"
proof -
  have "allocate_loop 0 0 0 hs = (0, hs)" for hs by (cases hs) simp_all
  then show "cm_cache_size c \<noteq> 0 \<Longrightarrow> alloc_raw 0 c \<noteq> (Inr p, c')"
    by (simp add: alloc_raw_def cache_allocate_def)
qed

interpretation cache: cache_provider alloc_raw_tracked free_raw cache_inv cache_live cache_freeable
proof (unfold_locales, goal_cases)
  case (1 c n tid p tid' c')
  let ?c = "c\<lparr>cm_track_id := cm_track_id c + 1\<rparr>"
  have "alloc_raw n ?c = (Inr p, c')"
    using 1 by (auto simp: alloc_raw_tracked_inv split: prod.splits)
  moreover from this have "0 < n" using alloc_raw_zero [of ?c p c'] 1(1) by (cases n) (auto simp: cache_inv_def)
  ultimately show ?case using alloc_raw_live [of ?c n p c'] 1 by simp
next
  case (2 c n tid e tid' c')
  let ?c = "c\<lparr>cm_track_id := cm_track_id c + 1\<rparr>"
  have "alloc_raw n ?c = (Inl e, c')"
    using 2 by (auto simp: alloc_raw_tracked_inv split: prod.splits)
  with alloc_raw_drains [of ?c n e c'] 2(1) show ?case by simp
next
  case (3 c p n)
  then show ?case by (rule free_raw_live)
next
  case (4 c)
  then show ?case by (simp add: cache_inv_def cache_live_def)
qed

section \<open>Lemmas for the properties\<close>

lemma build_cache_inv:
  assumes "0 < n" and "n < 4294967296" and "0 < base" and "0 < bs" and "bs * n < 4294967296"
  shows "\<exists>c. build_cache base bs (cache_manager_make (int n)) = Inr c \<and> cache_inv c
    \<and> cache_segs c = Some [(False, n)] \<and> cm_raw_cache c = base \<and> cm_num_blocks c = n
    \<and> cm_block_size c = bs"
proof -
  have n: "nat (int n mod 4294967296) = n" using assms(2) by simp
  let ?hs = "build_handles base n bs"
  have ptr: "ch_ptr (?hs ! i) = base + i * bs" if "i < n" for i
  proof -
    have "i * bs \<le> n * bs" using that by (intro mult_le_mono1) simp
    moreover have "n * bs < 4294967296" using assms(5) by (simp only: mult.commute)
    ultimately have "u32 (i * bs) = i * bs" by (intro u32_id) (rule le_less_trans)
    then show ?thesis using that by (simp add: build_handles_def)
  qed
  have "cells ?hs = seg_cells (False, n)"
    by (simp add: cells_def build_handles_def seg_cells_def)
  then have segs: "parse_segs (cells ?hs) = Some [(False, n)]"
    using parse_cells_of [of "[(False, n)]"] assms(1) by simp
  have ptrs: "map ch_ptr ?hs = map (\<lambda>i. base + i * bs) [0..<n]"
  proof (rule nth_equalityI)
    have len: "length ?hs = n" by (simp add: build_handles_def)
    then show "length (map ch_ptr ?hs) = length (map (\<lambda>i. base + i * bs) [0..<n])" by simp
    fix i assume "i < length (map ch_ptr ?hs)"
    with len show "map ch_ptr ?hs ! i = map (\<lambda>i. base + i * bs) [0..<n] ! i"
      by (simp add: ptr)
  qed
  have size: "u32 (bs * n) = bs * n" using assms(5) by (simp add: u32_id)
  let ?c = "(cache_manager_make (int n))\<lparr>cm_block_size := bs, cm_raw_cache := base,
      cm_cache_size := bs * n, cm_handles := ?hs, cm_bound := Some (base + (n - 1) * bs)\<rparr>"
  have "build_cache base bs (cache_manager_make (int n)) = Inr ?c"
    using assms(1) n size ptr [of "n - 1"]
    by (simp add: build_cache_def cache_manager_make_def)
  moreover have "cache_segs ?c = Some [(False, n)]" using segs by (simp add: cache_segs_def)
  moreover from this have "cache_inv ?c"
    using assms n ptrs by (simp add: cache_inv_def cache_manager_make_def build_handles_def)
  ultimately show ?thesis using n by (simp add: cache_manager_make_def)
qed

lemma handles_eqI:
  assumes "cells hs = cells hs'" and "map ch_ptr hs = map ch_ptr hs'"
  shows "hs = (hs' :: cache_handle list)"
proof (rule nth_equalityI)
  show len: "length hs = length hs'" using assms(2) by (metis length_map)
  fix i assume i: "i < length hs"
  then have "ch_ptr (hs ! i) = ch_ptr (hs' ! i)" using assms(2) len by (metis nth_map)
  moreover have "cells hs ! i = cells hs' ! i" using assms(1) by simp
  ultimately show "hs ! i = hs' ! i" using i len by simp
qed

lemma free_raw_frame:
  assumes "free_raw p c = Inr c'"
  shows "\<exists>hs t. c' = c\<lparr>cm_handles := hs, cm_total := t\<rparr>
    \<and> map ch_ptr hs = map ch_ptr (cm_handles c)"
proof (cases "c' = c")
  case True
  then show ?thesis by (intro exI [of _ "cm_handles c"] exI [of _ "cm_total c"]) simp
next
  case False
  with assms obtain i l b t where
    "c' = c\<lparr>cm_handles := relink_up i l (free_blocks i b l (cm_handles c)), cm_total := t\<rparr>"
    by (auto simp: free_raw_def Let_def bind_res_eq_Inr split: if_splits option.splits)
  then show ?thesis by (auto simp: ptrs_relink_up ptrs_free_blocks)
qed

lemma alloc_segs_None:
  assumes "alloc_segs num ss = None" and "no_free_neighbours ss" and "segs_pos ss" and "0 < num"
    and "k + num \<le> seg_total ss"
  shows "\<exists>i < num. fst (cells_of ss ! (k + i))"
  using assms
proof (induction num ss arbitrary: k rule: alloc_segs.induct)
  case (1 num)
  then show ?case by simp
next
  case (2 num u n ss)
  have f: "u \<or> n < num" "alloc_segs num ss = None"
    using "2.prems"(1) by (auto split: if_splits)
  have nn: "no_free_neighbours ss" "ss = [] \<or> u \<or> fst (hd ss)" "segs_pos ss" "0 < n"
    using "2.prems"(2,3) by (auto simp: no_free_neighbours_Cons)
  show ?case
  proof (cases "n \<le> k")
    case True
    then have le: "k - n + num \<le> seg_total ss" using "2.prems"(5) by simp
    have "\<not> (\<not> u \<and> num \<le> n)" using f(1) by auto
    from "2.IH" [OF this f(2) nn(1,3) "2.prems"(4) le]
    obtain i where "i < num" "fst (cells_of ss ! (k - n + i))" by blast
    then show ?thesis using True by (intro exI [of _ i]) (simp add: nth_append)
  next
    case False
    show ?thesis
    proof (cases u)
      case True
      then show ?thesis using False "2.prems"(4)
        by (intro exI [of _ 0]) (simp add: nth_append seg_cells_nth)
    next
      case u: False
      with f have lt: "n < num" by simp
      then have "ss \<noteq> []" using "2.prems"(5) False by auto
      then obtain v m ts where ss: "ss = (v, m) # ts" by (cases ss) auto
      with nn u have "v" "0 < m" by auto
      then have "fst (cells_of ((u, n) # ss) ! (k + (n - k)))"
        using False ss by (simp add: nth_append seg_cells_nth)
      then show ?thesis using lt False by (intro exI [of _ "n - k"]) simp
    qed
  qed
qed

lemma alloc_segs_roundtrip:
  assumes "alloc_segs num ss = Some (off, ss')" and "no_free_neighbours ss" and "segs_pos ss"
    and "0 < num"
  shows "free_segs off ss' = Some ss"
proof -
  obtain pre n post where s: "ss = pre @ (False, n) # post" "num \<le> n" "off = seg_total pre"
    "ss' = pre @ (True, num) # (if n = num then post else (False, n - num) # post)"
    using alloc_segs_split [OF assms(1)] by blast
  have pre: "segs_pos pre" "no_free_neighbours pre" "pre = [] \<or> fst (last pre)"
    "post = [] \<or> fst (hd post)"
    using assms(2,3) s(1) by (auto simp: no_free_neighbours_append no_free_neighbours_Cons)
  have "merge_free num (if n = num then post else (False, n - num) # post) = (False, n) # post"
    using s(2) pre(4) by (cases "(num, post)" rule: merge_free.cases) auto
  then show ?thesis
    using free_segs_at [OF pre(1)] foldr_merge_id [OF pre(2,3)] s by simp
qed

lemma used_blocks_0:
  assumes "no_free_neighbours ss" and "segs_pos ss" and "used_blocks ss = 0" and "ss \<noteq> []"
  shows "ss = [(False, seg_total ss)]"
proof -
  obtain u n ts where ss: "ss = (u, n) # ts" using assms(4) by (cases ss) auto
  with assms have "\<not> u" by (auto split: if_splits)
  moreover have "ts = []"
  proof (rule ccontr)
    assume "ts \<noteq> []"
    then obtain v m r where "ts = (v, m) # r" by (cases ts) auto
    with assms ss \<open>\<not> u\<close> show False by auto
  qed
  ultimately show ?thesis using ss by simp
qed

lemma used_blocks_merge [simp]: "used_blocks (merge_free n ss) = used_blocks ss"
  by (cases "(n, ss)" rule: merge_free.cases) auto

lemma free_segs_used:
  assumes "used_at off ss = Some n" and "free_segs off ss = Some ss'"
  shows "used_blocks ss = used_blocks ss' + n"
  using assms
proof (induction off ss arbitrary: ss' rule: used_at.induct)
  case (1 off)
  then show ?case by simp
next
  case (2 off u m ss)
  show ?case
  proof (cases "off = 0")
    case True
    with "2.prems" show ?thesis by (auto split: if_splits)
  next
    case False
    with "2.prems" obtain z where z: "\<not> off < m" "free_segs (off - m) ss = Some z"
      "ss' = (if u then (u, m) # z else merge_free m z)" "used_at (off - m) ss = Some n"
      by (auto split: if_splits)
    then have "used_blocks ss = used_blocks z + n" using "2.IH" False by simp
    with z(3) show ?thesis by simp
  qed
qed

lemma alloc_free_exact:
  assumes "cache_inv c" and "0 < num" and "alloc_raw num c = (Inr p, c')"
    and "p \<noteq> cm_raw_cache c + (cm_num_blocks c - num) * cm_block_size c"
  shows "free_raw p c' = Inr c"
proof -
  obtain ss where ss: "cache_segs c = Some ss" "segs_pos ss" "no_free_neighbours ss"
    "cm_total c = int (used_blocks ss)" "cells (cm_handles c) = cells_of ss"
    using assms(1) by (rule cache_invD) blast
  note ref = alloc_raw_refines [OF assms(1) ss(1) assms(2)]
  obtain off ss' where a: "alloc_segs num ss = Some (off, ss')"
    using ref assms(3) by (cases "alloc_segs num ss") auto
  let ?hs = "take off (cm_handles c) @ mark_used num (drop off (cm_handles c))"
  from ref a assms(3) have r: "p = cm_raw_cache c + off * cm_block_size c" "cache_inv c'"
    "cache_segs c' = Some ss'" "off + num \<le> cm_num_blocks c"
    "c' = c\<lparr>cm_handles := ?hs, cm_total := cm_total c + int num\<rparr>"
    by (auto simp: Let_def)
  have len: "length (cm_handles c) = cm_num_blocks c" using assms(1) by (simp add: cache_inv_def)
  have used: "used_at off ss' = Some num" using used_at_alloc [OF a ss(2) assms(2)] by simp
  have same: "cm_raw_cache c' = cm_raw_cache c" "cm_block_size c' = cm_block_size c"
    "cm_num_blocks c' = cm_num_blocks c" using r(5) by simp_all
  have "off + num < cm_num_blocks c'"
    using r(1,4) assms(4) same by (cases "off + num = cm_num_blocks c") auto
  from free_raw_refines [OF r(2,3) used this] obtain c2 ss2 where
    c2: "free_raw p c' = Inr c2" "free_segs off ss' = Some ss2" "cache_segs c2 = Some ss2"
      "cache_inv c2"
    using r(1) same by auto
  have "ss2 = ss" using alloc_segs_roundtrip [OF a ss(3,2) assms(2)] c2(2) by simp
  obtain hs t where f: "c2 = c'\<lparr>cm_handles := hs, cm_total := t\<rparr>"
    "map ch_ptr hs = map ch_ptr (cm_handles c')"
    using free_raw_frame [OF c2(1)] by blast
  have "map ch_ptr (cm_handles c') = map ch_ptr (cm_handles c)"
    using r(4,5) len ptrs_mark_used [of num "drop off (cm_handles c)"]
    by (simp flip: drop_map take_map)
  moreover have "cells (cm_handles c2) = cells (cm_handles c)"
    using c2(3) ss(1,5) \<open>ss2 = ss\<close> parse_segs_Some by (simp add: cache_segs_def)
  ultimately have "hs = cm_handles c" using f handles_eqI [of hs "cm_handles c"] by simp
  moreover have "t = cm_total c"
    using c2(3,4) f(1) ss(4) \<open>ss2 = ss\<close> by (auto simp: cache_inv_def)
  ultimately have "c2 = c" using f(1) r(5) by simp
  with c2(1) show ?thesis by simp
qed

lemma alloc_raw_fresh:
  assumes "cache_inv c" and "0 < num" and "alloc_raw num c = (Inr p, c')"
  shows "\<exists>k. p = cm_raw_cache c + k * cm_block_size c \<and> k + num \<le> cm_num_blocks c
    \<and> (\<forall>i < num. \<not> ch_in_use (cm_handles c ! (k + i)) \<and> ch_in_use (cm_handles c' ! (k + i)))
    \<and> (\<forall>i < cm_num_blocks c. i < k \<or> k + num \<le> i \<longrightarrow> cm_handles c' ! i = cm_handles c ! i)"
proof -
  obtain ss where ss: "cache_segs c = Some ss" "cells (cm_handles c) = cells_of ss" "segs_pos ss"
    "length (cm_handles c) = cm_num_blocks c"
    using assms(1) by (rule cache_invD) blast
  note ref = alloc_raw_refines [OF assms(1) ss(1) assms(2)]
  obtain k ss' where a: "alloc_segs num ss = Some (k, ss')"
    using ref assms(3) by (cases "alloc_segs num ss") auto
  let ?new = "take k (cm_handles c) @ mark_used num (drop k (cm_handles c))"
  from ref a assms(3) have r: "k + num \<le> cm_num_blocks c"
    "p = cm_raw_cache c + k * cm_block_size c" "cm_handles c' = ?new"
    by (auto simp: Let_def)
  obtain pre n post where s: "ss = pre @ (False, n) # post" "num \<le> n" "k = seg_total pre"
    using alloc_segs_split [OF a] by blast
  have "\<not> ch_in_use (cm_handles c ! (k + i))" if "i < num" for i
  proof -
    have "cells (cm_handles c) ! (k + i) = (False, n - i)"
      using that s unfolding ss(2) by (simp add: nth_append seg_cells_nth)
    then show ?thesis using that r(1) ss(4) by simp
  qed
  moreover have "ch_in_use (cm_handles c' ! (k + i))" if "i < num" for i
    using that r ss(4) by (simp add: nth_append mark_used_def)
  moreover have "cm_handles c' ! i = cm_handles c ! i" if "i < cm_num_blocks c" "i < k \<or> k + num \<le> i" for i
    using that r ss(4) by (auto simp: nth_append mark_used_def)
  ultimately show ?thesis using r by blast
qed

section \<open>Properties\<close>

text \<open>A cache of four blocks of 8 samples at address 100: empty, with its first two blocks
  allocated, and with its last two blocks allocated as well.\<close>

definition demo_cache :: "seg list \<Rightarrow> cache_manager" where
  "demo_cache ss =
     \<lparr>cm_raw_cache = 100, cm_bound = Some 124, cm_num_blocks = 4, cm_block_size = 8,
      cm_total = int (used_blocks ss), cm_cache_size = 32, cm_track_id = 1,
      cm_handles = map2 (\<lambda>i s. \<lparr>ch_ptr = 100 + i * 8, ch_in_use = fst s, ch_num_blocks = snd s\<rparr>)
        [0, 1, 2, 3] (cells_of ss)\<rparr>"

lemma demo_cache_fields [simp]:
  "cm_raw_cache (demo_cache ss) = 100" "cm_num_blocks (demo_cache ss) = 4"
  "cm_block_size (demo_cache ss) = 8" "cm_cache_size (demo_cache ss) = 32"
  "cm_bound (demo_cache ss) = Some 124" "cm_total (demo_cache ss) = int (used_blocks ss)"
  by (simp_all add: demo_cache_def)

lemma upt_4: "[0..<4] = [0, 1, 2, 3 :: nat]" "[0..<2] = [0, 1 :: nat]"
  by code_simp+

lemma demo_cells:
  "cells_of [(False, 4)] = [(False, 4), (False, 3), (False, 2), (False, 1)]"
  "cells_of [(True, 2), (False, 2)] = [(True, 2), (True, 1), (False, 2), (False, 1)]"
  "cells_of [(True, 2), (True, 2)] = [(True, 2), (True, 1), (True, 2), (True, 1)]"
  by (simp_all add: seg_cells_def upt_4)

lemma demo_cache_facts:
  assumes "ss \<in> {[(False, 4)], [(True, 2), (False, 2)], [(True, 2), (True, 2)]}"
  shows "cache_segs (demo_cache ss) = Some ss \<and> cache_inv (demo_cache ss)"
proof -
  have "cells (cm_handles (demo_cache ss)) = cells_of ss"
    using assms by (auto simp only: insert_iff empty_iff demo_cache_def demo_cells)
      (simp_all add: cells_def)
  moreover have "segs_pos ss" using assms by auto
  ultimately have s: "cache_segs (demo_cache ss) = Some ss"
    by (simp add: cache_segs_def parse_cells_of)
  moreover have p: "map ch_ptr (cm_handles (demo_cache ss)) = [100, 108, 116, 124]"
    using assms by (auto simp only: insert_iff empty_iff demo_cache_def demo_cells) simp_all
  moreover have "length (cm_handles (demo_cache ss)) = 4"
    using arg_cong [OF p, of length] by simp
  moreover have "no_free_neighbours ss" using assms by auto
  moreover have "cm_raw_cache (demo_cache ss) = 100" "cm_bound (demo_cache ss) = Some 124"
    "cm_num_blocks (demo_cache ss) = 4" "cm_block_size (demo_cache ss) = 8"
    "cm_cache_size (demo_cache ss) = 32" "cm_total (demo_cache ss) = int (used_blocks ss)"
    by (simp_all add: demo_cache_def)
  ultimately show ?thesis by (simp add: cache_inv_def upt_4)
qed

text \<open>C21. Building the cache: for every size whose product fits in 32 bits, \<open>build_cache\<close>
  establishes the invariant, with all blocks in one free segment at the start of the new
  array.\<close>

theorem cache_build_establishes:
  assumes "0 < n" and "n < 4294967296" and "0 < base" and "0 < bs" and "bs * n < 4294967296"
  shows "\<exists>c. build_cache base bs (cache_manager_make (int n)) = Inr c \<and> cache_inv c
    \<and> cache_segs c = Some [(False, n)] \<and> cm_raw_cache c = base \<and> cm_num_blocks c = n"
  using build_cache_inv [OF assms] by blast

theorem cache_build_establishes_witness:
  "\<exists>c. build_cache 4096 1024 (cache_manager_make 32) = Inr c \<and> cache_inv c
    \<and> cache_segs c = Some [(False, 32)]"
  using cache_build_establishes [of 32 4096 1024] by auto

text \<open>C9. Allocation refines first fit: on every cache in its invariant a request for at least
  one block returns the address of the first free segment that is large enough, splits that
  segment and keeps the invariant; when there is none it throws \<open>cache_drain\<close> and leaves the
  cache as it was.\<close>

theorem cache_alloc_first_fit:
  assumes "cache_inv c" and "cache_segs c = Some ss" and "0 < num"
  shows "case alloc_segs num ss of
      None \<Rightarrow> alloc_raw num c = (Inl (Cache_Drain ''framework''), c)
    | Some (off, ss') \<Rightarrow> \<exists>c'. alloc_raw num c
          = (Inr (cm_raw_cache c + off * cm_block_size c), c')
        \<and> cache_segs c' = Some ss' \<and> cache_inv c'"
  using alloc_raw_refines [OF assms] by (auto simp: Let_def split: option.splits prod.splits)

theorem cache_alloc_first_fit_witness:
  "\<exists>c'. alloc_raw 1 (demo_cache [(True, 2), (False, 2)]) = (Inr 116, c')
    \<and> cache_segs c' = Some [(True, 2), (True, 1), (False, 1)] \<and> cache_inv c'"
  using cache_alloc_first_fit [of "demo_cache [(True, 2), (False, 2)]" "[(True, 2), (False, 2)]" 1]
    demo_cache_facts [of "[(True, 2), (False, 2)]"]
  by simp

text \<open>Allocations do not overlap: the blocks an allocation returns were all free before, are
  all in use after, lie inside the array, and the handles of every other block are
  untouched.\<close>

theorem cache_alloc_fresh:
  assumes "cache_inv c" and "0 < num" and "alloc_raw num c = (Inr p, c')"
  shows "\<exists>k. p = cm_raw_cache c + k * cm_block_size c \<and> k + num \<le> cm_num_blocks c
    \<and> (\<forall>i < num. \<not> ch_in_use (cm_handles c ! (k + i)) \<and> ch_in_use (cm_handles c' ! (k + i)))
    \<and> (\<forall>i < cm_num_blocks c. i < k \<or> k + num \<le> i \<longrightarrow> cm_handles c' ! i = cm_handles c ! i)"
  using alloc_raw_fresh [OF assms] .

theorem cache_alloc_fresh_witness:
  "\<exists>p c' k. alloc_raw 2 (demo_cache [(True, 2), (False, 2)]) = (Inr p, c') \<and> p = 100 + k * 8
    \<and> (\<forall>i < 2. \<not> ch_in_use (cm_handles (demo_cache [(True, 2), (False, 2)]) ! (k + i))
          \<and> ch_in_use (cm_handles c' ! (k + i)))"
proof -
  let ?c = "demo_cache [(True, 2), (False, 2)]"
  have inv: "cache_inv ?c" "cache_segs ?c = Some [(True, 2), (False, 2)]"
    using demo_cache_facts [of "[(True, 2), (False, 2)]"] by simp_all
  obtain p c' where "alloc_raw 2 ?c = (Inr p, c')"
    using alloc_raw_refines [OF inv, of 2] by (auto simp: Let_def)
  with cache_alloc_fresh [OF inv(1) _ this] show ?thesis
    by auto
qed

text \<open>Completeness of allocation: a request fails exactly when no run of that many
  neighbouring blocks is free; an allocation never fails for want of merging.\<close>

theorem cache_drain_iff:
  assumes "cache_inv c" and "0 < num"
  shows "fst (alloc_raw num c) = Inl (Cache_Drain ''framework'') \<longleftrightarrow>
    (\<forall>k. k + num \<le> cm_num_blocks c \<longrightarrow> (\<exists>i < num. ch_in_use (cm_handles c ! (k + i))))"
proof -
  obtain ss where ss: "cache_segs c = Some ss" "cells (cm_handles c) = cells_of ss" "segs_pos ss"
    "no_free_neighbours ss" "length (cm_handles c) = cm_num_blocks c" "seg_total ss = cm_num_blocks c"
    using assms(1) by (rule cache_invD) blast
  show ?thesis
  proof (cases "alloc_segs num ss")
    case None
    have "\<exists>i < num. ch_in_use (cm_handles c ! (k + i))" if k: "k + num \<le> cm_num_blocks c" for k
    proof -
      obtain i where i: "i < num" "fst (cells_of ss ! (k + i))"
        using alloc_segs_None [OF None ss(4,3) assms(2)] k ss(6) by metis
      have "k + i < length (cm_handles c)" using i(1) k ss(5) by simp
      then have "cells (cm_handles c) ! (k + i)
          = (ch_in_use (cm_handles c ! (k + i)), ch_num_blocks (cm_handles c ! (k + i)))"
        by (rule cells_nth)
      then show ?thesis using i ss(2) by auto
    qed
    moreover have "fst (alloc_raw num c) = Inl (Cache_Drain ''framework'')"
      using alloc_raw_refines [OF assms(1) ss(1) assms(2)] None by simp
    ultimately show ?thesis by blast
  next
    case (Some r)
    then obtain p c' where p: "alloc_raw num c = (Inr p, c')"
      using alloc_raw_refines [OF assms(1) ss(1) assms(2)] by (auto simp: Let_def)
    with alloc_raw_fresh [OF assms p] show ?thesis by auto
  qed
qed

theorem cache_drain_iff_witness:
  "(fst (alloc_raw 3 (demo_cache [(True, 2), (False, 2)])) = Inl (Cache_Drain ''framework'')) =
    (\<forall>k. k + 3 \<le> 4 \<longrightarrow>
      (\<exists>i < 3. ch_in_use (cm_handles (demo_cache [(True, 2), (False, 2)]) ! (k + i))))"
proof -
  have "cache_inv (demo_cache [(True, 2), (False, 2)])"
    using demo_cache_facts [of "[(True, 2), (False, 2)]"] by simp
  from cache_drain_iff [OF this, of 3] show ?thesis by simp
qed

text \<open>C10. Freeing refines the abstract merge: releasing an allocation that does not reach the
  last block turns its segment into a free one, joined with the free segments on both sides,
  keeps the invariant (the running total of blocks in use included) and forgets exactly that
  allocation.\<close>

theorem cache_free_merges:
  assumes "cache_inv c" and "cache_segs c = Some ss" and "used_at off ss = Some n"
    and "off + n < cm_num_blocks c" and "p = cm_raw_cache c + off * cm_block_size c"
  shows "\<exists>c' ss'. free_raw p c = Inr c' \<and> free_segs off ss = Some ss' \<and> cache_segs c' = Some ss'
    \<and> cache_inv c' \<and> used_blocks ss = used_blocks ss' + n"
proof -
  obtain c' ss' where r: "free_raw p c = Inr c'" "free_segs off ss = Some ss'"
    "cache_segs c' = Some ss'" "cache_inv c'"
    using free_raw_refines [OF assms(1-4)] assms(5) by blast
  have "segs_pos ss" using assms(1,2) by (metis cache_invD option.inject)
  then have "used_blocks ss = used_blocks ss' + n"
    using free_segs_used [OF assms(3)] r(2) by simp
  with r show ?thesis by blast
qed

theorem cache_free_merges_witness:
  "\<exists>c'. free_raw 100 (demo_cache [(True, 2), (False, 2)]) = Inr c' \<and> cache_inv c'
    \<and> cache_segs c' = Some [(False, 4)]"
proof -
  let ?c = "demo_cache [(True, 2), (False, 2)]"
  have "cache_inv ?c" "cache_segs ?c = Some [(True, 2), (False, 2)]"
    using demo_cache_facts [of "[(True, 2), (False, 2)]"] by simp_all
  from cache_free_merges [OF this, of 0 2 100] show ?thesis by auto
qed

text \<open>C30. An allocation that reaches the end of the cache cannot be freed safely: \<open>free_raw\<close>
  reads the handle one past the last one (\<open>m_handles[index+blocks]\<close>).\<close>

theorem cache_free_at_end_reads_past:
  assumes "cache_inv c" and "0 < num" and "alloc_raw num c = (Inr p, c')"
    and "p = cm_raw_cache c + (cm_num_blocks c - num) * cm_block_size c"
  shows "free_raw p c' = Inl Out_Of_Bounds"
proof -
  obtain ss where ss: "cache_segs c = Some ss" "segs_pos ss"
    using assms(1) by (rule cache_invD) blast
  have b: "0 < cm_block_size c" using assms(1) by (simp add: cache_inv_def)
  note ref = alloc_raw_refines [OF assms(1) ss(1) assms(2)]
  obtain off ss' where a: "alloc_segs num ss = Some (off, ss')"
    using ref assms(3) by (cases "alloc_segs num ss") auto
  from ref a assms(3) have r: "p = cm_raw_cache c + off * cm_block_size c" "cache_inv c'"
    "cache_segs c' = Some ss'" "cm_raw_cache c' = cm_raw_cache c"
    "cm_block_size c' = cm_block_size c" "cm_num_blocks c' = cm_num_blocks c"
    "off + num \<le> cm_num_blocks c"
    by (auto simp: Let_def)
  have "used_at off ss' = Some num" using used_at_alloc [OF a ss(2) assms(2)] by simp
  moreover have "off + num = cm_num_blocks c'" using r assms(4) b by simp
  ultimately show ?thesis using free_raw_last [OF r(2,3)] r by simp
qed

theorem cache_free_at_end_reads_past_witness:
  "\<exists>p c'. alloc_raw 2 (demo_cache [(True, 2), (False, 2)]) = (Inr p, c')
    \<and> free_raw p c' = Inl Out_Of_Bounds"
proof -
  let ?c = "demo_cache [(True, 2), (False, 2)]"
  have inv: "cache_inv ?c" "cache_segs ?c = Some [(True, 2), (False, 2)]"
    using demo_cache_facts [of "[(True, 2), (False, 2)]"] by simp_all
  obtain c' where "alloc_raw 2 ?c = (Inr 116, c')"
    using alloc_raw_refines [OF inv, of 2] by (auto simp: Let_def)
  with cache_free_at_end_reads_past [OF inv(1) _ this] show ?thesis
    by auto
qed

text \<open>C19. Allocating and freeing again leaves no trace: when the allocation does not reach the
  end of the cache, releasing it restores the cache exactly, every handle and the running
  total included.\<close>

theorem cache_alloc_free_restores:
  assumes "cache_inv c" and "0 < num" and "alloc_raw num c = (Inr p, c')"
    and "p \<noteq> cm_raw_cache c + (cm_num_blocks c - num) * cm_block_size c"
  shows "free_raw p c' = Inr c"
  using alloc_free_exact [OF assms] .

theorem cache_alloc_free_restores_witness:
  "\<exists>p c'. alloc_raw 2 (demo_cache [(False, 4)]) = (Inr p, c')
    \<and> free_raw p c' = Inr (demo_cache [(False, 4)])"
proof -
  let ?c = "demo_cache [(False, 4)]"
  have inv: "cache_inv ?c" "cache_segs ?c = Some [(False, 4)]"
    using demo_cache_facts [of "[(False, 4)]"] by simp_all
  obtain c' where "alloc_raw 2 ?c = (Inr 100, c')"
    using alloc_raw_refines [OF inv, of 2] by (auto simp: Let_def)
  with cache_alloc_free_restores [OF inv(1) _ this] show ?thesis
    by auto
qed

text \<open>No fragmentation outlives the allocations: once every block has been released the
  whole cache is one free run, and a request for all of its blocks succeeds at its first
  address.\<close>

theorem cache_idle_is_whole:
  assumes "cache_inv c" and "cm_total c = 0"
  shows "cache_segs c = Some [(False, cm_num_blocks c)]
    \<and> fst (alloc_raw (cm_num_blocks c) c) = Inr (cm_raw_cache c)"
proof -
  obtain ss where ss: "cache_segs c = Some ss" "segs_pos ss" "no_free_neighbours ss"
    "cm_total c = int (used_blocks ss)" "seg_total ss = cm_num_blocks c"
    using assms(1) by (rule cache_invD) blast
  have n: "0 < cm_num_blocks c" using assms(1) by (simp add: cache_inv_def)
  then have "ss \<noteq> []" using ss(5) by auto
  then have w: "ss = [(False, cm_num_blocks c)]"
    using used_blocks_0 [OF ss(3,2)] ss(4,5) assms(2) by simp
  then show ?thesis
    using alloc_raw_refines [OF assms(1) ss(1) n] ss(1) by (auto simp: Let_def)
qed

theorem cache_idle_is_whole_witness:
  "fst (alloc_raw 4 (demo_cache [(False, 4)])) = Inr 100"
  using cache_idle_is_whole [of "demo_cache [(False, 4)]"] demo_cache_facts [of "[(False, 4)]"]
  by simp

end
