(* ===== verification/Component.thy ===== *)
theory Component
  imports SIO_Prelude Complex_Main
begin

text \<open>
  The vocabulary of \<^verbatim>\<open>framework/component/component.hpp\<close> (states, metrics, the bits of a sync,
  the profile a sync carries), the base class \<open>registrable\<close> and the \<open>registry\<close>
  (\<^verbatim>\<open>framework/component/registrable.cpp\<close>, \<^verbatim>\<open>registry.cpp\<close>).

  The scoped enumerations that the code casts to \<open>int\<close> are datatypes with a conversion
  (\<open>line_state_int\<close>); the bits of a \<open>sync_flag\<close> are a word of 32 bits. The \<open>int\<close> members of
  \<open>sync_profile\<close> are integers: an overflow of a signed integer is undefined in C++ and is not
  modelled. \<open>drift\<close>, a \<open>float\<close>, is a rational number without the rounding.
\<close>

unbundle bit_operations_syntax

section \<open>Enumerations\<close>

datatype unit_type = UT_Mainline | UT_Step | UT_Combine | UT_Split | UT_Dispatch

datatype component_state = Cmpt_Inactive | Cmpt_Active

datatype line_state = Line_Inactive | Line_Active | Line_Flushing

datatype cycle_type = Cycle_Warmup | Cycle_Sync | Cycle_Ac

datatype cycle_state = Complete | Partial | Cycle_Error | Cycle_Empty

datatype profile_metric =
  M_Latency | M_Channels | M_Period | M_Fs | M_Drift | M_State | M_Bpm | M_Fill

datatype ctype = Ctype_Unspec | Ctype_Core | Ctype_Unit

fun line_state_int :: "line_state \<Rightarrow> int" where
  "line_state_int Line_Inactive = 0"
| "line_state_int Line_Active = 1"
| "line_state_int Line_Flushing = 2"

text \<open>The order that \<open>state > cycle_state::complete\<close> and \<open>m_cstate > component_state::inactive\<close>
  read off the enumerators.\<close>

definition after_complete :: "cycle_state \<Rightarrow> bool" where
  "after_complete s \<longleftrightarrow> s \<noteq> Complete"

definition after_inactive :: "component_state \<Rightarrow> bool" where
  "after_inactive s \<longleftrightarrow> s \<noteq> Cmpt_Inactive"

lemma line_state_int_eq [simp]: "line_state_int a = line_state_int b \<longleftrightarrow> a = b"
  by (cases a; cases b) simp_all

section \<open>Synchronisation flags\<close>

type_synonym sync_flag = "32 word"

definition SF_source :: sync_flag where "SF_source = 1"
definition SF_sync_duration :: sync_flag where "SF_sync_duration = 2"
definition SF_glob_sync :: sync_flag where "SF_glob_sync = 4"
definition SF_upstream :: sync_flag where "SF_upstream = 8"
definition SF_downstream :: sync_flag where "SF_downstream = 16"

lemmas sync_flag_defs = SF_source_def SF_sync_duration_def SF_glob_sync_def SF_upstream_def
  SF_downstream_def

text \<open>The test \<open>flags & flag\<close> of the code.\<close>

definition has_flag :: "sync_flag \<Rightarrow> sync_flag \<Rightarrow> bool" where
  "has_flag flags flag \<longleftrightarrow> flags AND flag \<noteq> 0"

section \<open>Profiles\<close>

record sync_profile =
  sp_latency :: int
  sp_channels :: int
  sp_period :: int
  sp_fs :: int
  sp_bpm :: int
  sp_drift :: rat
  sp_jumps :: int
  sp_state :: int
  sp_fill :: int

definition sync_profile_zero :: sync_profile where
  "sync_profile_zero =
     \<lparr>sp_latency = 0, sp_channels = 0, sp_period = 0, sp_fs = 0, sp_bpm = 0, sp_drift = 0,
      sp_jumps = 0, sp_state = 0, sp_fill = 0\<rparr>"

text \<open>The conversion of a \<open>float\<close> to an \<open>int\<close> drops the fraction.\<close>

definition float_to_int :: "rat \<Rightarrow> int" where
  "float_to_int q = (if q < 0 then \<lceil>q\<rceil> else \<lfloor>q\<rfloor>)"

text \<open>\<open>unit::register_metric(profile_metric, int)\<close>: the case \<open>bpm\<close> has no \<open>break\<close>.\<close>

fun register_metric_int :: "profile_metric \<Rightarrow> int \<Rightarrow> sync_profile \<Rightarrow> sync_profile" where
  "register_metric_int M_Latency v p = p\<lparr>sp_latency := v\<rparr>"
| "register_metric_int M_Channels v p = p\<lparr>sp_channels := v\<rparr>"
| "register_metric_int M_Period v p = p\<lparr>sp_period := v\<rparr>"
| "register_metric_int M_Fs v p = p\<lparr>sp_fs := v\<rparr>"
| "register_metric_int M_Drift v p = p\<lparr>sp_drift := rat_of_int v / 100\<rparr>"
| "register_metric_int M_State v p = p\<lparr>sp_state := v\<rparr>"
| "register_metric_int M_Bpm v p = p\<lparr>sp_bpm := v, sp_fill := v\<rparr>"
| "register_metric_int M_Fill v p = p\<lparr>sp_fill := v\<rparr>"

fun register_metric_float :: "profile_metric \<Rightarrow> rat \<Rightarrow> sync_profile \<Rightarrow> sync_profile" where
  "register_metric_float M_Latency v p = p\<lparr>sp_latency := float_to_int v\<rparr>"
| "register_metric_float M_Channels v p = p\<lparr>sp_channels := float_to_int v\<rparr>"
| "register_metric_float M_Period v p = p\<lparr>sp_period := float_to_int v\<rparr>"
| "register_metric_float M_Fs v p = p\<lparr>sp_fs := float_to_int v\<rparr>"
| "register_metric_float M_Drift v p = p\<lparr>sp_drift := v\<rparr>"
| "register_metric_float M_State v p = p\<lparr>sp_state := float_to_int v\<rparr>"
| "register_metric_float M_Bpm v p = p\<lparr>sp_bpm := float_to_int v\<rparr>"
| "register_metric_float M_Fill v p = p\<lparr>sp_fill := float_to_int v\<rparr>"

text \<open>\<open>unit::apply_unit_profile\<close>: what a unit with profile \<open>u\<close> does to the profile that passes
  through it.\<close>

definition apply_drift :: "rat \<Rightarrow> rat \<Rightarrow> rat" where
  "apply_drift ud d =
     (if ud \<noteq> 0 then (if d > 0 then d + d * ud else if d < 0 then d + (d * -1) * ud else ud)
      else d)"

definition apply_unit_profile :: "sync_profile \<Rightarrow> sync_profile \<Rightarrow> sync_profile" where
  "apply_unit_profile u p =
     p\<lparr>sp_channels := (if sp_channels u > 0 then sp_channels u else sp_channels p),
       sp_period := (if sp_period u > 0 \<and> sp_period p < sp_period u
                     then sp_period u else sp_period p),
       sp_fs := (if sp_fs u > 0 then sp_fs u else sp_fs p),
       sp_bpm := (if sp_bpm u > 0 then sp_bpm u else sp_bpm p),
       sp_fill := (if sp_fill u > 0 \<and> sp_fill p < sp_fill u then sp_fill u else sp_fill p),
       sp_state := (if sp_state u = line_state_int Line_Flushing then sp_state u else sp_state p),
       sp_jumps := sp_jumps p + 1,
       sp_drift := apply_drift (sp_drift u) (sp_drift p),
       sp_latency := sp_latency p + sp_latency u\<rparr>"

text \<open>The unit and the profile of a sync can be one object (an upstream sync hands the unit's own
  profile down the line): all reads of \<open>m_unit_profile\<close> then see the earlier writes.
  Each assignment above writes a member whose other reads come before it, so the definition
  covers this case too.\<close>

section \<open>Handles, registrable objects and the registry\<close>

text \<open>\<open>None\<close> stands for a member that is never initialised.\<close>

record rhandle =
  rh_id :: "int option"
  rh_type :: ctype
  rh_model :: string
  rh_label :: string

definition rhandle_zero :: rhandle where
  "rhandle_zero = \<lparr>rh_id = Some 0, rh_type = Ctype_Unspec, rh_model = [], rh_label = []\<rparr>"

record registrable =
  rg_model :: string
  rg_label :: string
  rg_type :: ctype
  rg_component_id :: "int option"
  rg_handle :: "rhandle"

definition registrable_make :: "string \<Rightarrow> string \<Rightarrow> ctype \<Rightarrow> registrable" where
  "registrable_make model label ty =
     \<lparr>rg_model = model, rg_label = label, rg_type = ty, rg_component_id = None,
      rg_handle = rhandle_zero\<lparr>rh_id := None\<rparr>\<rparr>"

definition set_id :: "int \<Rightarrow> ('a) registrable_scheme \<Rightarrow> 'a registrable_scheme" where
  "set_id i r = r\<lparr>rg_component_id := Some i\<rparr>"

definition set_handle :: "rhandle \<Rightarrow> 'a registrable_scheme \<Rightarrow> 'a registrable_scheme" where
  "set_handle h r = r\<lparr>rg_handle := h\<rparr>"

record registry =
  rgy_current_id :: int
  rgy_registry :: "rhandle list"

definition registry_make :: registry where
  "registry_make = \<lparr>rgy_current_id = 0, rgy_registry = []\<rparr>"

definition register_component ::
    "'a registrable_scheme \<Rightarrow> registry \<Rightarrow> 'a registrable_scheme \<times> registry" where
  "register_component cmpt r =
     (let cmpt1 = set_id (rgy_current_id r) cmpt;
          i = \<lparr>rh_id = None, rh_type = rg_type cmpt1, rh_model = rg_model cmpt1,
               rh_label = rg_label cmpt1\<rparr>
      in (set_handle i cmpt1,
          r\<lparr>rgy_registry := rgy_registry r @ [i], rgy_current_id := rgy_current_id r + 1\<rparr>))"

definition with_id :: "int \<Rightarrow> registry \<Rightarrow> rhandle result" where
  "with_id i r =
     (if 0 \<le> i \<and> nat i < length (rgy_registry r) then Inr (rgy_registry r ! nat i)
      else Inl Std_Out_Of_Range)"

fun register_all ::
    "'a registrable_scheme list \<Rightarrow> registry \<Rightarrow> 'a registrable_scheme list \<times> registry" where
  "register_all [] r = ([], r)"
| "register_all (c # cs) r =
     (let (c', r') = register_component c r; (cs', r'') = register_all cs r' in (c' # cs', r''))"

definition registry_wf :: "registry \<Rightarrow> bool" where
  "registry_wf r \<longleftrightarrow> rgy_current_id r = int (length (rgy_registry r))"

lemma register_component_wf:
  assumes "registry_wf r" and "register_component c r = (c', r')"
  shows "registry_wf r' \<and> rg_component_id c' = Some (int (length (rgy_registry r)))
    \<and> rgy_registry r' = rgy_registry r @ [rg_handle c']
    \<and> rg_label c' = rg_label c \<and> rg_model c' = rg_model c \<and> rg_type c' = rg_type c
    \<and> rh_label (rg_handle c') = rg_label c \<and> rh_model (rg_handle c') = rg_model c
    \<and> rh_type (rg_handle c') = rg_type c \<and> rh_id (rg_handle c') = None"
  using assms
  by (auto simp: register_component_def registry_wf_def set_id_def set_handle_def Let_def)

lemma register_all_wf:
  assumes "registry_wf r" and "register_all cs r = (cs', r')"
  shows "registry_wf r' \<and> length cs' = length cs
    \<and> rgy_registry r' = rgy_registry r @ map rg_handle cs'
    \<and> (\<forall>k < length cs. rg_component_id (cs' ! k) = Some (int (length (rgy_registry r) + k))
        \<and> rh_label (rg_handle (cs' ! k)) = rg_label (cs ! k)
        \<and> rh_model (rg_handle (cs' ! k)) = rg_model (cs ! k)
        \<and> rh_type (rg_handle (cs' ! k)) = rg_type (cs ! k)
        \<and> rh_id (rg_handle (cs' ! k)) = None)"
  using assms
proof (induction cs arbitrary: r cs')
  case Nil
  then show ?case by simp
next
  case (Cons c cs)
  obtain c1 r1 where 1: "register_component c r = (c1, r1)" by fastforce
  obtain cs2 r2 where 2: "register_all cs r1 = (cs2, r2)" by fastforce
  have eq: "cs' = c1 # cs2" "r' = r2" using Cons.prems(2) 1 2 by simp_all
  note a = register_component_wf [OF Cons.prems(1) 1]
  have b: "register_all cs r1 = (cs2, r')" using 2 eq by simp
  note ih = Cons.IH [OF conjunct1 [OF a] b]
  show ?case
  proof (intro conjI allI impI)
    show "registry_wf r'" "length cs' = length (c # cs)"
      "rgy_registry r' = rgy_registry r @ map rg_handle cs'"
      using ih a eq by simp_all
  next
    fix k assume "k < length (c # cs)"
    then show "rg_component_id (cs' ! k) = Some (int (length (rgy_registry r) + k))"
      "rh_label (rg_handle (cs' ! k)) = rg_label ((c # cs) ! k)"
      "rh_model (rg_handle (cs' ! k)) = rg_model ((c # cs) ! k)"
      "rh_type (rg_handle (cs' ! k)) = rg_type ((c # cs) ! k)"
      "rh_id (rg_handle (cs' ! k)) = None"
      using ih a eq by (cases k; simp)+
  qed
qed

lemma registry_make_wf: "registry_wf registry_make"
  by (simp add: registry_wf_def registry_make_def)

section \<open>Lemmas on profiles and flags\<close>

lemma has_flag_basic [simp]:
  "has_flag SF_source SF_source" "\<not> has_flag SF_source SF_glob_sync"
  "\<not> has_flag SF_source SF_upstream" "has_flag SF_glob_sync SF_glob_sync"
  "\<not> has_flag SF_glob_sync SF_upstream" "has_flag SF_upstream SF_upstream"
  "\<not> has_flag SF_upstream SF_glob_sync" "\<not> has_flag SF_glob_sync SF_downstream"
  "\<not> has_flag SF_upstream SF_downstream" "\<not> has_flag SF_glob_sync SF_sync_duration"
  "\<not> has_flag SF_upstream SF_sync_duration" "\<not> has_flag SF_glob_sync SF_source"
  "\<not> has_flag SF_upstream SF_source" "\<not> has_flag 0 f"
  by (simp_all add: has_flag_def sync_flag_defs)

lemma has_flag_or: "has_flag (a OR b) f \<longleftrightarrow> has_flag a f \<or> has_flag b f"
  by (simp add: has_flag_def and.commute [of _ f] bit.conj_disj_distrib or_eq_0_iff)

lemma apply_unit_profile_jumps [simp]:
  "sp_jumps (apply_unit_profile u p) = sp_jumps p + 1"
  "sp_latency (apply_unit_profile u p) = sp_latency p + sp_latency u"
  by (simp_all add: apply_unit_profile_def)

lemma fold_apply_jumps:
  "sp_jumps (fold apply_unit_profile us p) = sp_jumps p + int (length us)"
  by (induction us arbitrary: p) auto

lemma fold_apply_latency:
  "sp_latency (fold apply_unit_profile us p) = sp_latency p + sum_list (map sp_latency us)"
  by (induction us arbitrary: p) (auto simp: algebra_simps)

lemma fold_apply_period:
  "sp_period (fold apply_unit_profile us p) = fold (\<lambda>u m. max m u) (map sp_period us) (sp_period p)"
  if "0 \<le> sp_period p"
  using that
proof (induction us arbitrary: p)
  case Nil
  then show ?case by simp
next
  case (Cons u us)
  have "sp_period (apply_unit_profile u p) = max (sp_period p) (sp_period u)"
    using Cons.prems by (auto simp: apply_unit_profile_def max_def)
  with Cons show ?case by simp
qed

section \<open>Properties\<close>

text \<open>Registration hands out consecutive identities: after any list of components has been
  registered with a new registry, the \<open>k\<close>-th component has the identity \<open>k\<close>, looking that
  identity up gives the handle the component itself holds, with its model, label and type, and
  every other identity raises \<open>out_of_range\<close>. The member \<open>id\<close> of a handle is never set.\<close>

theorem registry_identities:
  assumes "register_all cs registry_make = (cs', r)" and "k < length cs"
  shows "rg_component_id (cs' ! k) = Some (int k)
    \<and> with_id (int k) r = Inr (rg_handle (cs' ! k))
    \<and> rh_model (rg_handle (cs' ! k)) = rg_model (cs ! k)
    \<and> rh_label (rg_handle (cs' ! k)) = rg_label (cs ! k)
    \<and> rh_type (rg_handle (cs' ! k)) = rg_type (cs ! k)
    \<and> rh_id (rg_handle (cs' ! k)) = None
    \<and> with_id (int (length cs)) r = Inl Std_Out_Of_Range \<and> with_id (-1) r = Inl Std_Out_Of_Range"
  using register_all_wf [OF registry_make_wf assms(1)] assms(2)
  by (simp add: registry_make_def with_id_def)

definition demo_components :: "registrable list" where
  "demo_components =
     [registrable_make ''Phi'' ''p1'' Ctype_Unit, registrable_make ''Tau'' ''t1'' Ctype_Unit]"

theorem registry_identities_witness:
  "\<exists>cs' r. register_all demo_components registry_make = (cs', r)
    \<and> with_id 1 r = Inr (rg_handle (cs' ! 1)) \<and> rh_label (rg_handle (cs' ! 1)) = ''t1''"
proof -
  obtain cs' r where e: "register_all demo_components registry_make = (cs', r)" by fastforce
  from registry_identities [OF e, of 1] e show ?thesis
    by (auto simp: demo_components_def registrable_make_def)
qed

text \<open>Along a line of units the profile accumulates as documented: the jumps count the units,
  the latencies add up, and the period is the largest one any unit asks for.\<close>

theorem line_profile_accumulates:
  assumes "0 \<le> sp_period p"
  shows "sp_jumps (fold apply_unit_profile us p) = sp_jumps p + int (length us)
    \<and> sp_latency (fold apply_unit_profile us p) = sp_latency p + sum_list (map sp_latency us)
    \<and> sp_period (fold apply_unit_profile us p)
        = fold (\<lambda>u m. max m u) (map sp_period us) (sp_period p)"
  using fold_apply_jumps fold_apply_latency fold_apply_period [OF assms] by blast

theorem line_profile_accumulates_witness:
  "sp_period (fold apply_unit_profile
      [sync_profile_zero\<lparr>sp_period := 256\<rparr>, sync_profile_zero\<lparr>sp_period := 64\<rparr>]
      sync_profile_zero) = 256"
  using line_profile_accumulates [of sync_profile_zero
      "[sync_profile_zero\<lparr>sp_period := 256\<rparr>, sync_profile_zero\<lparr>sp_period := 64\<rparr>]"]
  by (simp add: sync_profile_zero_def)

text \<open>Registering the tempo as an integer destroys the fill level: the case \<open>bpm\<close> of
  \<open>unit::register_metric(profile_metric, int)\<close> falls through. For every profile the
  \<open>float\<close> overload sets the tempo alone.\<close>

theorem register_bpm_clobbers_fill:
  "sp_fill (register_metric_int M_Bpm v p) = v \<and> sp_bpm (register_metric_int M_Bpm v p) = v
    \<and> register_metric_float M_Bpm (rat_of_int v) p = p\<lparr>sp_bpm := v\<rparr>"
  by (simp add: float_to_int_def)

end
