(* ===== verification/Cache_Ptr.thy ===== *)
theory Cache_Ptr
  imports Cache_Manager Component
begin

text \<open>
  The owning handle \<open>cache_ptr\<close> (\<^verbatim>\<open>framework/memory/cache_ptr.cpp\<close>) of an allocation of the
  cache, and the mixin \<open>cptr_utility\<close> (\<^verbatim>\<open>framework/memory/cptr_utility.cpp\<close>) through which
  units allocate one, both in the build with \<open>CACHE_TRACKING\<close> that \<^verbatim>\<open>fwcommon.hpp\<close> selects.

  A handle calls the cache through the abstract class \<open>cache_utility\<close>: the definitions
  take the two virtual methods \<open>alloc_raw\<close> and \<open>free_raw\<close> as arguments \<open>al\<close> and \<open>fr\<close>.
  The framework builds one cache, so \<open>m_cache\<close> is a flag that tells null from
  that cache. What the handles promise together (every live allocation has exactly one
  owner, unless an operation has overwritten it) is proved against the contract
  \<open>cache_provider\<close> and holds for the cache manager by its interpretation.
\<close>

section \<open>The handle\<close>

record cache_ptr =
  cp_cache :: bool
  cp_block :: nat
  cp_num_blocks :: nat
  cp_tracking_id :: int
  cp_owner :: rhandle

definition cache_ptr_null :: cache_ptr where
  "cache_ptr_null =
     \<lparr>cp_cache = False, cp_block = 0, cp_num_blocks = 0, cp_tracking_id = 0,
      cp_owner = rhandle_zero\<rparr>"

definition cache_ptr_make :: "nat \<Rightarrow> nat \<Rightarrow> bool \<Rightarrow> int \<Rightarrow> cache_ptr" where
  "cache_ptr_make block num_blocks cache tid =
     \<lparr>cp_cache = cache, cp_block = block, cp_num_blocks = num_blocks, cp_tracking_id = tid,
      cp_owner = rhandle_zero\<rparr>"

definition null_owner :: "rhandle \<Rightarrow> rhandle" where
  "null_owner h = h\<lparr>rh_id := Some (-1), rh_label := ''null'', rh_model := ''null'',
     rh_type := Ctype_Unspec\<rparr>"

definition cptr_reset_owner :: "cache_ptr \<Rightarrow> cache_ptr" where
  "cptr_reset_owner p = p\<lparr>cp_owner := null_owner (cp_owner p)\<rparr>"

definition cptr_set_owner :: "rhandle \<Rightarrow> cache_ptr \<Rightarrow> cache_ptr" where
  "cptr_set_owner h p = p\<lparr>cp_owner := h\<rparr>"

text \<open>The move constructor and the move assignment return the new handle and what is left of
  the old one; the assignment does not look at what its target held.\<close>

definition cptr_move :: "cache_ptr \<Rightarrow> cache_ptr \<times> cache_ptr" where
  "cptr_move that =
     (\<lparr>cp_cache = cp_cache that, cp_block = cp_block that, cp_num_blocks = cp_num_blocks that,
       cp_tracking_id = cp_tracking_id that, cp_owner = cp_owner that\<rparr>,
      that\<lparr>cp_tracking_id := 0, cp_block := 0, cp_num_blocks := 0\<rparr>)"

definition cptr_move_assign :: "cache_ptr \<Rightarrow> cache_ptr \<Rightarrow> cache_ptr \<times> cache_ptr" where
  "cptr_move_assign this that =
     (this\<lparr>cp_cache := cp_cache that, cp_block := cp_block that,
           cp_num_blocks := cp_num_blocks that, cp_owner := cp_owner that,
           cp_tracking_id := cp_tracking_id that\<rparr>,
      (cptr_reset_owner that)\<lparr>cp_block := 0, cp_num_blocks := 0\<rparr>)"

definition cptr_destroy :: "(nat \<Rightarrow> 'c \<Rightarrow> 'c result) \<Rightarrow> cache_ptr \<Rightarrow> 'c \<Rightarrow> 'c result" where
  "cptr_destroy fr p c = (if cp_block p = 0 \<or> \<not> cp_cache p then Inr c else fr (cp_block p) c)"

definition cptr_block_size :: "nat \<Rightarrow> cache_ptr \<Rightarrow> nat" where
  "cptr_block_size cache_block_size p = (if cp_cache p then cache_block_size else 0)"

definition cptr_release :: "cache_ptr \<Rightarrow> nat \<times> cache_ptr" where
  "cptr_release p = (cp_block p, p\<lparr>cp_num_blocks := 0, cp_block := 0\<rparr>)"

definition cptr_get :: "cache_ptr \<Rightarrow> nat" where
  "cptr_get p = cp_block p"

definition cptr_bool :: "cache_ptr \<Rightarrow> bool" where
  "cptr_bool p = (cp_block p \<noteq> 0)"

definition cptr_free ::
    "(nat \<Rightarrow> 'c \<Rightarrow> 'c result) \<Rightarrow> cache_ptr \<Rightarrow> 'c \<Rightarrow> (cache_ptr \<times> 'c) result" where
  "cptr_free fr p c =
     (if cp_block p = 0 \<or> \<not> cp_cache p then Inr (p, c)
      else bind_res (fr (cp_block p) c) (\<lambda>c'. Inr (cptr_reset_owner (p\<lparr>cp_block := 0\<rparr>), c')))"

definition cptr_reset ::
    "(nat \<Rightarrow> 'c \<Rightarrow> 'c result) \<Rightarrow> nat \<Rightarrow> nat \<Rightarrow> cache_ptr \<Rightarrow> 'c \<Rightarrow> (cache_ptr \<times> 'c) result" where
  "cptr_reset fr ptr num_blocks p c =
     bind_res (if cp_block p \<noteq> 0 then cptr_free fr p c else Inr (p, c))
       (\<lambda>(p', c'). Inr (p'\<lparr>cp_num_blocks := num_blocks, cp_block := ptr\<rparr>, c'))"

text \<open>
  The call \<open>cptr.reset(release(), m_num_blocks)\<close> of \<open>swap\<close> reads the count in one argument and
  clears it in the other; C++ leaves the order open. \<open>left_first\<close> says that \<open>release()\<close> is
  evaluated before the count is read.
\<close>

definition cptr_swap ::
    "bool \<Rightarrow> (nat \<Rightarrow> 'c \<Rightarrow> 'c result) \<Rightarrow> cache_ptr \<Rightarrow> cache_ptr \<Rightarrow> 'c
      \<Rightarrow> (cache_ptr \<times> cache_ptr \<times> 'c) result" where
  "cptr_swap left_first fr this cptr c =
     (let nblocks = cp_num_blocks cptr;
          (ptr, cptr1) = cptr_release cptr;
          (mine, this1) = cptr_release this;
          count = (if left_first then cp_num_blocks this1 else cp_num_blocks this)
      in bind_res (cptr_reset fr mine count cptr1 c) (\<lambda>(cptr2, c1).
         bind_res (cptr_reset fr ptr nblocks this1 c1) (\<lambda>(this2, c2).
           Inr (this2, cptr2, c2))))"

text \<open>A handle swapped with itself: \<open>this\<close> and \<open>cptr\<close> are the same object, so the second \<open>release()\<close>
  finds nothing, and the count reads 0 in either order.\<close>

definition cptr_swap_self ::
    "(nat \<Rightarrow> 'c \<Rightarrow> 'c result) \<Rightarrow> cache_ptr \<Rightarrow> 'c \<Rightarrow> (cache_ptr \<times> 'c) result" where
  "cptr_swap_self fr p c =
     (let nblocks = cp_num_blocks p;
          (ptr, p1) = cptr_release p;
          (mine, p2) = cptr_release p1
      in bind_res (cptr_reset fr mine (cp_num_blocks p2) p2 c) (\<lambda>(p3, c1). cptr_reset fr ptr nblocks p3 c1))"

section \<open>Access to the samples\<close>

text \<open>The memory behind the addresses is a function from addresses to samples.\<close>

definition cptr_copy_from ::
    "'a list \<Rightarrow> nat \<Rightarrow> cache_ptr \<Rightarrow> (nat \<Rightarrow> 'a) \<Rightarrow> (nat \<Rightarrow> 'a) result" where
  "cptr_copy_from samples num_samples p mem =
     (if cp_block p = 0 then Inr mem
      else if length samples < num_samples then Inl Out_Of_Bounds
      else Inr (\<lambda>a. if cp_block p \<le> a \<and> a < cp_block p + num_samples
                    then samples ! (a - cp_block p) else mem a))"

definition cptr_copy_to_num ::
    "'a list \<Rightarrow> nat \<Rightarrow> cache_ptr \<Rightarrow> (nat \<Rightarrow> 'a) \<Rightarrow> ('a list) result" where
  "cptr_copy_to_num samples num_samples p mem =
     (if cp_block p = 0 then Inr samples
      else if length samples < num_samples then Inl Out_Of_Bounds
      else Inr (map (\<lambda>i. mem (cp_block p + i)) [0..<num_samples] @ drop num_samples samples))"

definition cptr_copy_to ::
    "nat \<Rightarrow> 'a list \<Rightarrow> cache_ptr \<Rightarrow> (nat \<Rightarrow> 'a) \<Rightarrow> ('a list) result" where
  "cptr_copy_to cache_block_size samples p mem =
     cptr_copy_to_num samples (u32 (cp_num_blocks p * cptr_block_size cache_block_size p)) p mem"

section \<open>Allocation through \<open>cptr_utility\<close>\<close>

record cptr_utility =
  cu_cache :: bool
  cu_component_name :: string

definition cptr_utility_make :: "string \<Rightarrow> cptr_utility" where
  "cptr_utility_make component = \<lparr>cu_cache = False, cu_component_name = component\<rparr>"

definition set_cache_utility :: "bool \<Rightarrow> cptr_utility \<Rightarrow> cptr_utility" where
  "set_cache_utility cache u = u\<lparr>cu_cache := cache\<rparr>"

definition set_utility :: "cptr_utility \<Rightarrow> cptr_utility \<Rightarrow> cptr_utility" where
  "set_utility u ref = set_cache_utility (cu_cache u) ref"

definition set_component :: "string \<Rightarrow> sio_error \<Rightarrow> sio_error" where
  "set_component cmpt e = (case e of Cache_Drain _ \<Rightarrow> Cache_Drain cmpt | _ \<Rightarrow> e)"

definition cache_alloc ::
    "(nat \<Rightarrow> int \<Rightarrow> 'c \<Rightarrow> nat result \<times> int \<times> 'c) \<Rightarrow> 'b cptr_utility_scheme \<Rightarrow> nat \<Rightarrow> 'c
      \<Rightarrow> cache_ptr result \<times> 'c" where
  "cache_alloc al u num c =
     (if \<not> cu_cache u then (Inr (cache_ptr_make 0 0 False 0), c)
      else case al num 0 c of
        (Inr ptr, tid, c') \<Rightarrow> (Inr (cache_ptr_make ptr num (cu_cache u) tid), c')
      | (Inl e, tid, c') \<Rightarrow> (Inl (set_component (cu_component_name u) e), c'))"

definition utility_block_size :: "nat \<Rightarrow> cptr_utility \<Rightarrow> nat" where
  "utility_block_size cache_block_size u = (if cu_cache u then cache_block_size else 1)"

section \<open>A program of handles\<close>

text \<open>
  What the units do with their handles: a list of slots, and the operations on them. \<open>H_Alloc\<close>
  is \<open>slot = cache_alloc(n)\<close>, \<open>H_Move\<close> is \<open>slot_i = std::move(slot_j)\<close>, \<open>H_Free\<close> and \<open>H_Swap\<close>
  the methods (the flag of \<open>H_Swap\<close> is the evaluation order of its inner call), \<open>H_Reset\<close> is
  \<open>slot_i.reset(slot_j.release(), n)\<close> with the count of slot \<open>j\<close> read before, \<open>H_Drop\<close> the
  destruction of a handle, replaced by a new empty one. The two slots of an operation may be
  the same.
\<close>

datatype handle_op =
    H_Alloc nat nat
  | H_Move nat nat
  | H_Free nat
  | H_Reset nat nat
  | H_Swap bool nat nat
  | H_Drop nat

type_synonym 'c handles = "'c \<times> cache_ptr list"

fun handle_exec ::
    "(nat \<Rightarrow> int \<Rightarrow> 'c \<Rightarrow> nat result \<times> int \<times> 'c) \<Rightarrow> (nat \<Rightarrow> 'c \<Rightarrow> 'c result) \<Rightarrow> cptr_utility
      \<Rightarrow> handle_op \<Rightarrow> 'c handles \<Rightarrow> unit result \<times> 'c handles" where
  "handle_exec al fr u (H_Alloc i n) (c, ps) =
     (case cache_alloc al u n c of
        (Inl e, c') \<Rightarrow> (Inl e, (c', ps))
      | (Inr p, c') \<Rightarrow> (Inr (), (c', ps[i := fst (cptr_move_assign (ps ! i) p)])))"
| "handle_exec al fr u (H_Move i j) (c, ps) =
     (let (p, q) = cptr_move_assign (ps ! i) (ps ! j) in (Inr (), (c, ps[i := p, j := q])))"
| "handle_exec al fr u (H_Free i) (c, ps) =
     (case cptr_free fr (ps ! i) c of
        Inl e \<Rightarrow> (Inl e, (c, ps))
      | Inr (p, c') \<Rightarrow> (Inr (), (c', ps[i := p])))"
| "handle_exec al fr u (H_Reset i j) (c, ps) =
     (let n = cp_num_blocks (ps ! j); (ptr, q) = cptr_release (ps ! j); ps1 = ps[j := q] in
      case cptr_reset fr ptr n (ps1 ! i) c of
        Inl e \<Rightarrow> (Inl e, (c, ps1))
      | Inr (p, c') \<Rightarrow> (Inr (), (c', ps1[i := p])))"
| "handle_exec al fr u (H_Swap left_first i j) (c, ps) =
     (if i = j then
        case cptr_swap_self fr (ps ! i) c of
          Inl e \<Rightarrow> (Inl e, (c, ps))
        | Inr (p, c') \<Rightarrow> (Inr (), (c', ps[i := p]))
      else
        case cptr_swap left_first fr (ps ! i) (ps ! j) c of
          Inl e \<Rightarrow> (Inl e, (c, ps))
        | Inr (p, q, c') \<Rightarrow> (Inr (), (c', ps[i := p, j := q])))"
| "handle_exec al fr u (H_Drop i) (c, ps) =
     (case cptr_destroy fr (ps ! i) c of
        Inl e \<Rightarrow> (Inl e, (c, ps))
      | Inr c' \<Rightarrow> (Inr (), (c', ps[i := cache_ptr_null])))"

text \<open>The block a handle holds, and the blocks a list of handles holds, with repetitions.\<close>

definition held_block :: "cache_ptr \<Rightarrow> nat list" where
  "held_block p = (if cp_block p = 0 then [] else [cp_block p])"

primrec held :: "cache_ptr list \<Rightarrow> nat list" where
  "held [] = []"
| "held (p # ps) = held_block p @ held ps"

text \<open>
  The block an operation overwrites without freeing it. The move assignment does not look at what its
  target held, so it loses the block of the target (its own when a handle is assigned to itself). A
  handle without a cache cannot free: when it holds a block (handed to it by \<open>reset\<close> or \<open>swap\<close>, which do not
  exchange the caches), \<open>reset\<close> and the destructor lose it.
\<close>

fun handle_loses ::
    "(nat \<Rightarrow> int \<Rightarrow> 'c \<Rightarrow> nat result \<times> int \<times> 'c) \<Rightarrow> cptr_utility \<Rightarrow> handle_op \<Rightarrow> 'c handles
      \<Rightarrow> nat list" where
  "handle_loses al u (H_Alloc i n) (c, ps) =
     (case fst (cache_alloc al u n c) of Inl e \<Rightarrow> [] | Inr p \<Rightarrow> held_block (ps ! i))"
| "handle_loses al u (H_Move i j) (c, ps) = held_block (ps ! i)"
| "handle_loses al u (H_Free i) (c, ps) = []"
| "handle_loses al u (H_Reset i j) (c, ps) =
     (if i = j \<or> cp_cache (ps ! i) then [] else held_block (ps ! i))"
| "handle_loses al u (H_Swap left_first i j) (c, ps) = []"
| "handle_loses al u (H_Drop i) (c, ps) = (if cp_cache (ps ! i) then [] else held_block (ps ! i))"

text \<open>When an operation is defined: its slots exist, and the block it frees, if any, is one the cache
  can free (\<open>free_raw\<close> reads past the handles for the others).\<close>

definition frees_ok :: "('c \<Rightarrow> nat \<Rightarrow> bool) \<Rightarrow> 'c \<Rightarrow> cache_ptr \<Rightarrow> bool" where
  "frees_ok freeable c p \<longleftrightarrow> cp_block p = 0 \<or> \<not> cp_cache p \<or> freeable c (cp_block p)"

fun handle_ok :: "('c \<Rightarrow> nat \<Rightarrow> bool) \<Rightarrow> handle_op \<Rightarrow> 'c handles \<Rightarrow> bool" where
  "handle_ok freeable (H_Alloc i n) (c, ps) = (i < length ps)"
| "handle_ok freeable (H_Move i j) (c, ps) = (i < length ps \<and> j < length ps)"
| "handle_ok freeable (H_Free i) (c, ps) = (i < length ps \<and> frees_ok freeable c (ps ! i))"
| "handle_ok freeable (H_Reset i j) (c, ps) =
     (i < length ps \<and> j < length ps \<and> (i = j \<or> frees_ok freeable c (ps ! i)))"
| "handle_ok freeable (H_Swap left_first i j) (c, ps) = (i < length ps \<and> j < length ps)"
| "handle_ok freeable (H_Drop i) (c, ps) = (i < length ps \<and> frees_ok freeable c (ps ! i))"

fun handles_run ::
    "(nat \<Rightarrow> int \<Rightarrow> 'c \<Rightarrow> nat result \<times> int \<times> 'c) \<Rightarrow> (nat \<Rightarrow> 'c \<Rightarrow> 'c result) \<Rightarrow> cptr_utility
      \<Rightarrow> handle_op list \<Rightarrow> 'c handles \<Rightarrow> 'c handles" where
  "handles_run al fr u [] s = s"
| "handles_run al fr u (a # ops) s = handles_run al fr u ops (snd (handle_exec al fr u a s))"

fun handles_lose ::
    "(nat \<Rightarrow> int \<Rightarrow> 'c \<Rightarrow> nat result \<times> int \<times> 'c) \<Rightarrow> (nat \<Rightarrow> 'c \<Rightarrow> 'c result) \<Rightarrow> cptr_utility
      \<Rightarrow> handle_op list \<Rightarrow> 'c handles \<Rightarrow> nat list" where
  "handles_lose al fr u [] s = []"
| "handles_lose al fr u (a # ops) s =
     handle_loses al u a s @ handles_lose al fr u ops (snd (handle_exec al fr u a s))"

fun handles_ok ::
    "(nat \<Rightarrow> int \<Rightarrow> 'c \<Rightarrow> nat result \<times> int \<times> 'c) \<Rightarrow> (nat \<Rightarrow> 'c \<Rightarrow> 'c result)
      \<Rightarrow> ('c \<Rightarrow> nat \<Rightarrow> bool) \<Rightarrow> cptr_utility \<Rightarrow> handle_op list \<Rightarrow> 'c handles \<Rightarrow> bool" where
  "handles_ok al fr freeable u [] s = True"
| "handles_ok al fr freeable u (a # ops) s =
     (handle_ok freeable a s \<and> handles_ok al fr freeable u ops (snd (handle_exec al fr u a s)))"

text \<open>The operations that keep the counts of the handles: all but a swap of two handles
  that releases before it reads the count.\<close>

fun keeps_count :: "handle_op \<Rightarrow> bool" where
  "keeps_count (H_Swap left_first i j) = (\<not> left_first \<or> i = j)"
| "keeps_count a = True"

lemmas cptr_defs = cptr_move_assign_def cptr_release_def cptr_free_def cptr_reset_def
  cptr_destroy_def cptr_swap_def cptr_reset_owner_def cache_ptr_null_def

section \<open>Ownership against the contract of the cache\<close>

text \<open>
  Every live allocation of the cache is held by exactly one handle or has been lost exactly once, and
  nothing else is held or lost; \<open>counts_right\<close> says that the handles know the sizes of what they hold.
\<close>

definition owned_once :: "('c \<Rightarrow> nat \<Rightarrow> nat option) \<Rightarrow> nat list \<Rightarrow> 'c handles \<Rightarrow> bool" where
  "owned_once live lost s \<longleftrightarrow>
     (\<forall>a. count_list (held (snd s)) a + count_list lost a = (if live (fst s) a = None then 0 else 1))"

definition counts_right :: "('c \<Rightarrow> nat \<Rightarrow> nat option) \<Rightarrow> 'c handles \<Rightarrow> bool" where
  "counts_right live s \<longleftrightarrow> (\<forall>p \<in> set (snd s). cp_block p \<noteq> 0 \<longrightarrow>
     live (fst s) (cp_block p) = Some (cp_num_blocks p))"

lemma owned_onceD:
  "owned_once live lost (c, ps) \<Longrightarrow>
     count_list (held ps) a + count_list lost a = (if live c a = None then 0 else 1)"
  by (simp add: owned_once_def)

lemma count_held_block: "count_list (held_block p) a = (if a = cp_block p \<and> a \<noteq> 0 then 1 else 0)"
  by (simp add: held_block_def)

lemma count_held_update:
  "i < length ps \<Longrightarrow> count_list (held (ps[i := p])) a + count_list (held_block (ps ! i)) a
     = count_list (held ps) a + count_list (held_block p) a"
proof (induction ps arbitrary: i)
  case (Cons x ps)
  then show ?case by (cases i) (simp_all add: add.assoc)
qed simp

lemma held_member: "p \<in> set ps \<Longrightarrow> cp_block p \<noteq> 0 \<Longrightarrow> 0 < count_list (held ps) (cp_block p)"
  by (induction ps) (auto simp: count_held_block)

lemma owned_live:
  assumes "owned_once live lost (c, ps)" and "p \<in> set ps" and "cp_block p \<noteq> 0"
  shows "live c (cp_block p) \<noteq> None"
  using owned_onceD [OF assms(1), of "cp_block p"] held_member [OF assms(2,3)] by (auto split: if_splits)

text \<open>A block is freed, a new one enters a slot, and the blocks change places.\<close>

lemma owned_free:
  assumes own: "owned_once live lost (c, ps)" and i: "i < length ps" and b: "cp_block (ps ! i) \<noteq> 0"
    and p: "cp_block p = 0" and l: "live c' = (live c)(cp_block (ps ! i) := None)"
  shows "owned_once live lost (c', ps[i := p])"
  unfolding owned_once_def fst_conv snd_conv
proof
  fix a
  have "live c (cp_block (ps ! i)) \<noteq> None" using owned_live [OF own _ b] i by simp
  with count_held_update [OF i, of p a] owned_onceD [OF own, of a] b p l
  show "count_list (held (ps[i := p])) a + count_list lost a = (if live c' a = None then 0 else 1)"
    by (auto simp: count_held_block split: if_splits)
qed

lemma owned_put:
  assumes own: "owned_once live lost (c, ps)" and i: "i < length ps" and p: "cp_block p \<noteq> 0"
    and l: "live c (cp_block p) = None" "live c' = (live c)(cp_block p := Some n)"
  shows "owned_once live (lost @ held_block (ps ! i)) (c', ps[i := p])"
  unfolding owned_once_def fst_conv snd_conv
proof
  fix a
  from count_held_update [OF i, of p a] owned_onceD [OF own, of a] p l
  show "count_list (held (ps[i := p])) a + count_list (lost @ held_block (ps ! i)) a
    = (if live c' a = None then 0 else 1)"
    by (auto simp: count_held_block split: if_splits)
qed

lemma owned_rearrange:
  assumes "owned_once live lost (c, ps)"
    and "\<And>a. count_list (held qs) a + count_list new a = count_list (held ps) a"
  shows "owned_once live (lost @ new) (c, qs)"
  unfolding owned_once_def fst_conv snd_conv
proof
  fix a
  show "count_list (held qs) a + count_list (lost @ new) a = (if live c a = None then 0 else 1)"
    using owned_onceD [OF assms(1), of a] assms(2) [of a] by simp
qed

lemma count_held_two:
  assumes "i < length ps" and "j < length ps" and "i \<noteq> j"
  shows "count_list (held (ps[i := p, j := q])) a + count_list (held_block (ps ! i)) a
      + count_list (held_block (ps ! j)) a
    = count_list (held ps) a + count_list (held_block p) a + count_list (held_block q) a"
  using count_held_update [of i ps p a] count_held_update [of j "ps[i := p]" q a] assms by simp

lemma owned_same_block:
  assumes "owned_once live lost (c, ps)" and "i < length ps" and "held_block p = held_block (ps ! i)"
  shows "owned_once live lost (c, ps[i := p])"
  using owned_rearrange [OF assms(1), of "ps[i := p]" "[]"] count_held_update [OF assms(2), of p] assms(3)
  by simp

lemma owned_lose:
  assumes "owned_once live lost (c, ps)" and "i < length ps" and "held_block p = []"
  shows "owned_once live (lost @ held_block (ps ! i)) (c, ps[i := p])"
  using owned_rearrange [OF assms(1), of "ps[i := p]" "held_block (ps ! i)"]
    count_held_update [OF assms(2), of p] assms(3) by simp

text \<open>The block of slot \<open>j\<close> goes over to slot \<open>i\<close>, whose own is lost.\<close>

lemma owned_give:
  assumes "owned_once live lost (c, ps)" and ij: "i < length ps" "j < length ps" "i \<noteq> j"
    and "held_block p = held_block (ps ! j)" and "held_block q = []"
  shows "owned_once live (lost @ held_block (ps ! i)) (c, ps[i := p, j := q])"
  using owned_rearrange [OF assms(1), of "ps[i := p, j := q]" "held_block (ps ! i)"]
    count_held_two [OF ij, of p q] assms(5,6) by simp

lemma owned_exchange:
  assumes "owned_once live lost (c, ps)" and ij: "i < length ps" "j < length ps" "i \<noteq> j"
    and "held_block p = held_block (ps ! j)" and "held_block q = held_block (ps ! i)"
  shows "owned_once live lost (c, ps[i := p, j := q])"
  using owned_rearrange [OF assms(1), of "ps[i := p, j := q]" "[]"]
    count_held_two [OF ij, of p q] assms(5,6) by simp

lemma counts_update:
  assumes "counts_right live (c, ps)"
    and "cp_block p \<noteq> 0 \<Longrightarrow> live c' (cp_block p) = Some (cp_num_blocks p)"
    and "\<And>q. q \<in> set ps \<Longrightarrow> q \<in> set (ps[i := p]) \<Longrightarrow> cp_block q \<noteq> 0 \<Longrightarrow> cp_block q \<noteq> cp_block p \<Longrightarrow>
      live c' (cp_block q) = live c (cp_block q)"
    and "\<And>q. q \<in> set ps \<Longrightarrow> cp_block q \<noteq> 0 \<Longrightarrow> cp_block q = cp_block p \<Longrightarrow>
      live c' (cp_block q) = live c (cp_block q)"
  shows "counts_right live (c', ps[i := p])"
  unfolding counts_right_def fst_conv snd_conv
proof (intro ballI impI)
  fix q assume q: "q \<in> set (ps[i := p])" "cp_block q \<noteq> 0"
  show "live c' (cp_block q) = Some (cp_num_blocks q)"
  proof (cases "q \<in> set ps")
    case True
    then have "live c' (cp_block q) = live c (cp_block q)" using assms(3,4) q by metis
    with True q(2) assms(1) show ?thesis by (simp add: counts_right_def)
  next
    case False
    with q(1) have "q = p" using set_update_subset_insert [of ps i p] by blast
    with assms(2) q(2) show ?thesis by simp
  qed
qed

lemma counts_same:
  assumes "counts_right live (c, ps)" and "cp_block p \<noteq> 0 \<Longrightarrow> live c (cp_block p) = Some (cp_num_blocks p)"
  shows "counts_right live (c, ps[i := p])"
  using counts_update [OF assms(1), of p c i] assms(2) by simp

lemma counts_rightD:
  "counts_right live (c, ps) \<Longrightarrow> i < length ps \<Longrightarrow> cp_block (ps ! i) \<noteq> 0 \<Longrightarrow>
     live c (cp_block (ps ! i)) = Some (cp_num_blocks (ps ! i))"
  by (simp add: counts_right_def)

lemma counts_free:
  assumes "counts_right live (c, ps)" and own: "owned_once live lost (c', ps[i := p])"
    and p: "cp_block p = 0" and l: "live c' = (live c)(b := None)"
  shows "counts_right live (c', ps[i := p])"
proof (rule counts_update [OF assms(1)])
  fix q assume q: "q \<in> set ps" "q \<in> set (ps[i := p])" "cp_block q \<noteq> 0"
  then have "live c' (cp_block q) \<noteq> None" using owned_live [OF own] by blast
  then show "live c' (cp_block q) = live c (cp_block q)" using l by auto
qed (use p in auto)

lemma counts_put:
  assumes "counts_right live (c, ps)" and own: "owned_once live lost (c, ps)"
    and l: "live c (cp_block p) = None" "live c' = (live c)(cp_block p := Some (cp_num_blocks p))"
  shows "counts_right live (c', ps[i := p])"
proof (rule counts_update [OF assms(1)])
  fix q assume q: "q \<in> set ps" "cp_block q \<noteq> 0" "cp_block q = cp_block p"
  then show "live c' (cp_block q) = live c (cp_block q)" using owned_live [OF own q(1,2)] l(1) by simp
qed (use l in auto)

lemma swap_self_same: "cptr_swap_self fr p c = Inr (p, c)"
  by (simp add: cptr_swap_self_def cptr_release_def cptr_reset_def)

lemma swap_result:
  "cptr_swap left_first fr p q c = Inr (p\<lparr>cp_num_blocks := cp_num_blocks q, cp_block := cp_block q\<rparr>,
     q\<lparr>cp_num_blocks := (if left_first then 0 else cp_num_blocks p), cp_block := cp_block p\<rparr>, c)"
  by (simp add: cptr_swap_def cptr_release_def cptr_reset_def)

context cache_provider
begin

lemma cptr_free_step:
  assumes own: "owned_once live lost (c, ps)" and inv: "inv c" and i: "i < length ps"
    and fr: "frees_ok freeable c (ps ! i)"
  shows "\<exists>p c'. cptr_free free (ps ! i) c = Inr (p, c') \<and> inv c' \<and> cp_cache p = cp_cache (ps ! i)
    \<and> held_block p = (if cp_cache (ps ! i) then [] else held_block (ps ! i))
    \<and> owned_once live lost (c', ps[i := p])
    \<and> (counts_right live (c, ps) \<longrightarrow> counts_right live (c', ps[i := p]))"
proof (cases "cp_block (ps ! i) = 0 \<or> \<not> cp_cache (ps ! i)")
  case True
  then have "cptr_free free (ps ! i) c = Inr (ps ! i, c)" by (auto simp: cptr_free_def)
  with own inv True show ?thesis
    by (intro exI [of _ "ps ! i"] exI [of _ c]) (auto simp: held_block_def)
next
  case False
  then obtain n where n: "live c (cp_block (ps ! i)) = Some n"
    using owned_live [OF own, of "ps ! i"] i by auto
  obtain c' where c': "free (cp_block (ps ! i)) c = Inr c'" "inv c'"
    "live c' = (live c)(cp_block (ps ! i) := None)"
    using free_some [OF inv n] fr False by (auto simp: frees_ok_def)
  let ?p = "cptr_reset_owner ((ps ! i)\<lparr>cp_block := 0\<rparr>)"
  have p: "cp_block ?p = 0" "cp_cache ?p = cp_cache (ps ! i)" by (simp_all add: cptr_reset_owner_def)
  have o: "owned_once live lost (c', ps[i := ?p])"
    using owned_free [OF own i _ p(1) c'(3)] False by simp
  have "counts_right live (c', ps[i := ?p])" if "counts_right live (c, ps)"
    using counts_free [OF that o p(1) c'(3)] .
  with c' o p False show ?thesis
    by (intro exI [of _ ?p] exI [of _ c']) (simp add: cptr_free_def held_block_def)
qed

lemma cache_alloc_step:
  assumes "inv c" and "cache_alloc alloc u n c = (r, c')"
  shows "(\<exists>p. r = Inr p \<and> inv c' \<and> (if cu_cache u then cp_block p \<noteq> 0 \<and> cp_num_blocks p = n
        \<and> live c (cp_block p) = None \<and> live c' = (live c)(cp_block p := Some n)
      else cp_block p = 0 \<and> c' = c))
    \<or> (r = Inl (Cache_Drain (cu_component_name u)) \<and> inv c' \<and> live c' = live c)"
proof (cases "cu_cache u")
  case False
  with assms show ?thesis by (auto simp: cache_alloc_def cache_ptr_make_def)
next
  case True
  obtain r1 t c1 where a: "alloc n 0 c = (r1, t, c1)" by (cases "alloc n 0 c")
  show ?thesis
  proof (cases r1)
    case (Inl e)
    with alloc_none [OF assms(1)] a have "inv c1 \<and> live c1 = live c \<and> (\<exists>s. e = Cache_Drain s)" by blast
    with assms(2) True a Inl show ?thesis by (auto simp: cache_alloc_def set_component_def)
  next
    case (Inr p)
    with alloc_some [OF assms(1)] a
    have "0 < p \<and> inv c1 \<and> live c p = None \<and> live c1 = (live c)(p := Some n)" by blast
    with assms(2) True a Inr show ?thesis by (auto simp: cache_alloc_def cache_ptr_make_def)
  qed
qed

text \<open>One operation, whatever its slots hold: the invariants go on, and it fails only when an allocation
  finds the cache drained, which leaves the handles as they are.\<close>

definition step_owned ::
    "cptr_utility \<Rightarrow> handle_op \<Rightarrow> nat list \<Rightarrow> 'c handles \<Rightarrow> unit result \<times> 'c handles \<Rightarrow> bool" where
  "step_owned u op lost s = (\<lambda>(r, s'). inv (fst s')
     \<and> owned_once live (lost @ handle_loses alloc u op s) s' \<and> length (snd s') = length (snd s)
     \<and> (keeps_count op \<longrightarrow> counts_right live s \<longrightarrow> counts_right live s')
     \<and> (r = Inr () \<or> (\<exists>i n. op = H_Alloc i n \<and> r = Inl (Cache_Drain (cu_component_name u))
          \<and> snd s' = snd s)))"

lemma alloc_step_owned:
  assumes own: "owned_once live lost (c, ps)" and inv: "inv c" and i: "i < length ps"
  shows "step_owned u (H_Alloc i n) lost (c, ps) (handle_exec alloc free u (H_Alloc i n) (c, ps))"
proof -
  obtain a c1 where a: "cache_alloc alloc u n c = (a, c1)" by fastforce
  show ?thesis
    using cache_alloc_step [OF inv a]
  proof (elim disjE exE conjE)
    fix p assume p: "a = Inr p" "inv c1" "if cu_cache u then cp_block p \<noteq> 0 \<and> cp_num_blocks p = n
      \<and> live c (cp_block p) = None \<and> live c1 = (live c)(cp_block p := Some n) else cp_block p = 0 \<and> c1 = c"
    let ?q = "fst (cptr_move_assign (ps ! i) p)"
    have q: "cp_block ?q = cp_block p" "cp_num_blocks ?q = cp_num_blocks p"
      by (simp_all add: cptr_move_assign_def)
    have "owned_once live (lost @ held_block (ps ! i)) (c1, ps[i := ?q])
      \<and> (counts_right live (c, ps) \<longrightarrow> counts_right live (c1, ps[i := ?q]))"
    proof (cases "cu_cache u")
      case True
      with p(3) have l: "cp_block ?q \<noteq> 0" "live c (cp_block ?q) = None"
        "live c1 = (live c)(cp_block ?q := Some (cp_num_blocks ?q))" using q by simp_all
      show ?thesis
        using owned_put [OF own i l] counts_put [OF _ own l(2,3)] by blast
    next
      case False
      with p(3) have z: "cp_block ?q = 0" "c1 = c" using q by simp_all
      then have "held_block ?q = []" by (simp add: held_block_def)
      with z owned_lose [OF own i this] counts_same [of live c ps ?q i] show ?thesis by simp
    qed
    with a p(1,2) show ?thesis by (simp add: step_owned_def)
  next
    assume "a = Inl (Cache_Drain (cu_component_name u))" "inv c1" "live c1 = live c"
    with a own show ?thesis by (simp add: step_owned_def owned_once_def counts_right_def)
  qed
qed

lemma move_step_owned:
  assumes own: "owned_once live lost (c, ps)" and inv: "inv c" and ij: "i < length ps" "j < length ps"
  shows "step_owned u (H_Move i j) lost (c, ps) (handle_exec alloc free u (H_Move i j) (c, ps))"
proof -
  let ?p = "fst (cptr_move_assign (ps ! i) (ps ! j))" and ?q = "snd (cptr_move_assign (ps ! i) (ps ! j))"
  have b: "cp_block ?p = cp_block (ps ! j)" "cp_num_blocks ?p = cp_num_blocks (ps ! j)" "cp_block ?q = 0"
    by (simp_all add: cptr_move_assign_def cptr_reset_owner_def)
  then have h: "held_block ?p = held_block (ps ! j)" "held_block ?q = []" by (simp_all add: held_block_def)
  have "owned_once live (lost @ held_block (ps ! i)) (c, ps[i := ?p, j := ?q])"
    using owned_give [OF own ij _ h] owned_lose [OF own ij(2) h(2)] by (cases "i = j") auto
  moreover have "counts_right live (c, ps[i := ?p, j := ?q])" if "counts_right live (c, ps)"
    using counts_same [OF counts_same [OF that, of ?p i], of ?q j] counts_rightD [OF that ij(2)] b by simp
  ultimately show ?thesis using inv by (simp add: step_owned_def split_beta Let_def)
qed

lemma reset_step_owned:
  assumes own: "owned_once live lost (c, ps)" and inv: "inv c" and ij: "i < length ps" "j < length ps"
    and fr: "i = j \<or> frees_ok freeable c (ps ! i)"
  shows "step_owned u (H_Reset i j) lost (c, ps) (handle_exec alloc free u (H_Reset i j) (c, ps))"
proof -
  obtain q where rel: "cptr_release (ps ! j) = (cp_block (ps ! j), q)" "held_block q = []" "cp_block q = 0"
    by (simp add: cptr_release_def held_block_def)
  show ?thesis
  proof (cases "i = j")
    case True
    let ?p = "q\<lparr>cp_num_blocks := cp_num_blocks (ps ! j), cp_block := cp_block (ps ! j)\<rparr>"
    have r: "cptr_reset free (cp_block (ps ! j)) (cp_num_blocks (ps ! j)) q c = Inr (?p, c)"
      using rel by (simp add: cptr_reset_def)
    have "owned_once live lost (c, ps[j := ?p])"
      by (rule owned_same_block [OF own ij(2)]) (simp add: held_block_def)
    moreover have "counts_right live (c, ps[j := ?p])" if "counts_right live (c, ps)"
      using counts_same [OF that, of ?p j] counts_rightD [OF that ij(2)] by simp
    ultimately show ?thesis using True rel(1) r inv ij by (simp add: step_owned_def Let_def)
  next
    case False
    obtain p c1 where p: "cptr_free free (ps ! i) c = Inr (p, c1)" "inv c1" "cp_cache p = cp_cache (ps ! i)"
      "held_block p = (if cp_cache (ps ! i) then [] else held_block (ps ! i))"
      "owned_once live lost (c1, ps[i := p])"
      "counts_right live (c, ps) \<longrightarrow> counts_right live (c1, ps[i := p])"
      using cptr_free_step [OF own inv ij(1)] fr False by blast
    let ?p = "p\<lparr>cp_num_blocks := cp_num_blocks (ps ! j), cp_block := cp_block (ps ! j)\<rparr>"
    have r: "cptr_reset free (cp_block (ps ! j)) (cp_num_blocks (ps ! j)) (ps ! i) c = Inr (?p, c1)"
      using p(1) by (cases "cp_block (ps ! i) = 0") (simp_all add: cptr_reset_def cptr_free_def)
    have h: "held_block ?p = held_block ((ps[i := p]) ! j)" using False by (simp add: held_block_def)
    have "owned_once live (lost @ held_block p) (c1, ps[i := ?p, j := q])"
      using owned_give [OF p(5) _ _ False h rel(2)] ij by simp
    moreover have "counts_right live (c1, ps[i := ?p, j := q])" if "counts_right live (c, ps)"
    proof -
      have "counts_right live (c1, ps[i := p])" using p(6) that by blast
      with counts_same [OF counts_same [OF this, of ?p i], of q j] counts_rightD [OF this, of j]
        ij False rel(3) show ?thesis by simp
    qed
    ultimately show ?thesis
      using False rel(1) r p(2,4) by (simp add: step_owned_def Let_def list_update_swap [of i j])
  qed
qed

lemma swap_step_owned:
  assumes own: "owned_once live lost (c, ps)" and inv: "inv c" and ij: "i < length ps" "j < length ps"
  shows "step_owned u (H_Swap l i j) lost (c, ps) (handle_exec alloc free u (H_Swap l i j) (c, ps))"
proof (cases "i = j")
  case True
  with own inv ij show ?thesis by (simp add: step_owned_def swap_self_same)
next
  case False
  let ?p = "(ps ! i)\<lparr>cp_num_blocks := cp_num_blocks (ps ! j), cp_block := cp_block (ps ! j)\<rparr>"
  let ?q = "(ps ! j)\<lparr>cp_num_blocks := (if l then 0 else cp_num_blocks (ps ! i)), cp_block := cp_block (ps ! i)\<rparr>"
  have "owned_once live lost (c, ps[i := ?p, j := ?q])"
    by (rule owned_exchange [OF own ij False]) (simp_all add: held_block_def)
  moreover have "counts_right live (c, ps[i := ?p, j := ?q])" if "counts_right live (c, ps)" "\<not> l"
    using counts_same [OF counts_same [OF that(1), of ?p i], of ?q j]
      counts_rightD [OF that(1) ij(1)] counts_rightD [OF that(1) ij(2)] that(2) by simp
  ultimately show ?thesis using False inv by (simp add: step_owned_def swap_result)
qed

lemma drop_step_owned:
  assumes own: "owned_once live lost (c, ps)" and inv: "inv c" and i: "i < length ps"
    and fr: "frees_ok freeable c (ps ! i)"
  shows "step_owned u (H_Drop i) lost (c, ps) (handle_exec alloc free u (H_Drop i) (c, ps))"
proof -
  have n: "held_block cache_ptr_null = []" "cp_block cache_ptr_null = 0"
    by (simp_all add: cache_ptr_null_def held_block_def)
  show ?thesis
  proof (cases "cp_block (ps ! i) = 0 \<or> \<not> cp_cache (ps ! i)")
    case True
    then have "handle_loses alloc u (H_Drop i) (c, ps) = held_block (ps ! i)" by (auto simp: held_block_def)
    moreover have "cptr_destroy free (ps ! i) c = Inr c" using True by (auto simp: cptr_destroy_def)
    ultimately show ?thesis
      using owned_lose [OF own i n(1)] counts_same [of live c ps cache_ptr_null i] n(2) inv
      by (simp add: step_owned_def)
  next
    case False
    then obtain k where k: "live c (cp_block (ps ! i)) = Some k"
      using owned_live [OF own, of "ps ! i"] i by auto
    obtain c1 where c1: "free (cp_block (ps ! i)) c = Inr c1" "inv c1"
      "live c1 = (live c)(cp_block (ps ! i) := None)"
      using free_some [OF inv k] fr False by (auto simp: frees_ok_def)
    have o: "owned_once live lost (c1, ps[i := cache_ptr_null])"
      using owned_free [OF own i _ n(2) c1(3)] False by simp
    then show ?thesis
      using counts_free [OF _ o n(2) c1(3)] c1(1,2) False by (simp add: step_owned_def cptr_destroy_def)
  qed
qed

lemma handle_exec_owner:
  assumes own: "owned_once live lost (c, ps)" and inv: "inv c" and ok: "handle_ok freeable op (c, ps)"
  shows "step_owned u op lost (c, ps) (handle_exec alloc free u op (c, ps))"
proof (cases op)
  case (H_Free i)
  with ok have i: "i < length ps" "frees_ok freeable c (ps ! i)" by simp_all
  obtain p c' where "cptr_free free (ps ! i) c = Inr (p, c')" "inv c'" "owned_once live lost (c', ps[i := p])"
    "counts_right live (c, ps) \<longrightarrow> counts_right live (c', ps[i := p])"
    using cptr_free_step [OF own inv i] by blast
  with H_Free show ?thesis by (simp add: step_owned_def)
qed (use ok alloc_step_owned [OF own inv] move_step_owned [OF own inv] reset_step_owned [OF own inv]
  swap_step_owned [OF own inv] drop_step_owned [OF own inv] in \<open>simp_all del: handle_exec.simps\<close>)

lemma handles_run_owner:
  assumes "owned_once live lost (c, ps)" and "inv c"
    and "handles_ok alloc free freeable u ops (c, ps)"
    and "handles_run alloc free u ops (c, ps) = (c', ps')"
  shows "inv c' \<and> owned_once live (lost @ handles_lose alloc free u ops (c, ps)) (c', ps')
    \<and> length ps' = length ps
    \<and> (list_all keeps_count ops \<longrightarrow> counts_right live (c, ps) \<longrightarrow> counts_right live (c', ps'))"
  using assms
proof (induction ops arbitrary: c ps lost)
  case Nil
  then show ?case by simp
next
  case (Cons a ops)
  obtain r c1 ps1 where 1: "handle_exec alloc free u a (c, ps) = (r, c1, ps1)"
    by (cases "handle_exec alloc free u a (c, ps)") auto
  have "handle_ok freeable a (c, ps)" using Cons.prems(3) by simp
  note h = handle_exec_owner [OF Cons.prems(1,2) this, of u, unfolded 1 step_owned_def split_conv
      fst_conv snd_conv]
  have "handles_ok alloc free freeable u ops (c1, ps1)"
    "handles_run alloc free u ops (c1, ps1) = (c', ps')"
    using Cons.prems(3,4) 1 by simp_all
  with Cons.IH [of "lost @ handle_loses alloc u a (c, ps)" c1 ps1] h show ?case by (simp add: 1)
qed

lemma nothing_held_nothing_live:
  assumes "owned_once live [] (c, ps)" and "\<forall>p \<in> set ps. cp_block p = 0"
  shows "live c a = None"
proof -
  have "held ps = []" using assms(2) by (induction ps) (simp_all add: held_block_def)
  with owned_onceD [OF assms(1), of a] show ?thesis by (simp split: if_splits)
qed

end

section \<open>Properties\<close>

lemma used_blocks_none:
  assumes "segs_pos ss" and "\<And>k. used_at k ss = None"
  shows "used_blocks ss = 0"
  using assms
proof (induction ss)
  case Nil
  then show ?case by simp
next
  case (Cons s ss)
  obtain u n where s: "s = (u, n)" by (cases s)
  have "\<not> u" using Cons.prems(2) [of 0] s by (auto split: if_splits)
  moreover have "used_at k ss = None" for k
    using Cons.prems(1) Cons.prems(2) [of "k + n"] s by (auto split: if_splits)
  ultimately show ?case using Cons s by simp
qed

lemma no_live_no_total:
  assumes "cache_inv c" and "\<And>p. cache_live c p = None"
  shows "cm_total c = 0"
proof -
  obtain ss where ss: "cache_segs c = Some ss" "segs_pos ss" "cm_total c = int (used_blocks ss)"
    using assms(1) by (rule cache_invD) blast
  have b: "0 < cm_block_size c" using assms(1) by (simp add: cache_inv_def)
  have "used_at k ss = None" for k
    using assms(2) [of "cm_raw_cache c + k * cm_block_size c"] ss(1) b
    by (simp add: cache_live_def)
  with used_blocks_none [OF ss(2)] ss(3) show ?thesis by simp
qed

text \<open>The handles of a unit that has just been constructed.\<close>

definition no_handles :: "nat \<Rightarrow> cache_ptr list" where
  "no_handles n = replicate n cache_ptr_null"

definition demo_unit :: cptr_utility where
  "demo_unit = \<lparr>cu_cache = True, cu_component_name = ''Phi::phi1''\<rparr>"

lemma fresh_owned:
  assumes "\<And>p. cache_live c p = None"
  shows "owned_once cache_live [] (c, no_handles n)" and "counts_right cache_live (c, no_handles n)"
proof -
  have "held (no_handles n) = []"
    by (induction n) (simp_all add: no_handles_def held_block_def cache_ptr_null_def)
  with assms show "owned_once cache_live [] (c, no_handles n)" by (simp add: owned_once_def)
  show "counts_right cache_live (c, no_handles n)"
    by (simp add: counts_right_def no_handles_def cache_ptr_null_def)
qed

lemma build_no_live:
  assumes "0 < n" and "n < 4294967296" and "0 < base" and "0 < bs" and "bs * n < 4294967296"
    and "build_cache base bs (cache_manager_make (int n)) = Inr c"
  shows "cache_inv c \<and> cache_live c p = None"
proof -
  have c: "cache_inv c" "cache_segs c = Some [(False, n)]"
    using build_cache_inv [OF assms(1-5)] assms(6) by auto
  then show ?thesis by (simp add: cache_live_def)
qed

text \<open>C11. Handles never share a block, and a block gets lost only where an operation overwrites it.
  Start from a freshly built cache and empty handles, and run any program of allocations, moves,
  resets, swaps (in either evaluation order of the inner call), frees and destructions whose slots exist,
  equal or not, and in which no operation frees an allocation that reaches the end of the cache, where \<open>free_raw\<close> is
  not defined. Then the cache is in its invariant, and every live allocation is held by exactly one
  handle or is one of those lost, each exactly once, to a move assignment over the handle that held it or to
  the \<open>reset\<close> or the destruction of a holding handle without a cache; nothing else is held or lost. If no swap has
  released before it read the count, every handle knows the size of what it holds. When nothing was
  lost and all handles are empty at the end, no block of the cache is in use.\<close>

theorem cache_ptr_program_owns:
  assumes "0 < n" and "n < 4294967296" and "0 < base" and "0 < bs" and "bs * n < 4294967296"
    and "build_cache base bs (cache_manager_make (int n)) = Inr c"
    and "handles_ok alloc_raw_tracked free_raw cache_freeable u ops (c, no_handles k)"
    and "handles_run alloc_raw_tracked free_raw u ops (c, no_handles k) = (c', ps)"
    and "handles_lose alloc_raw_tracked free_raw u ops (c, no_handles k) = lost"
  shows "cache_inv c'
    \<and> (\<forall>a. count_list (held ps) a + count_list lost a = (if cache_live c' a = None then 0 else 1))
    \<and> (list_all keeps_count ops \<longrightarrow> (\<forall>p \<in> set ps. cp_block p \<noteq> 0 \<longrightarrow>
        cache_live c' (cp_block p) = Some (cp_num_blocks p)))
    \<and> (lost = [] \<and> held ps = [] \<longrightarrow> cm_total c' = 0)"
proof -
  have c: "cache_inv c" "\<And>p. cache_live c p = None" using build_no_live [OF assms(1-6)] by auto
  note r = cache.handles_run_owner [OF fresh_owned(1) [OF c(2)] c(1) assms(7,8), unfolded assms(9)]
  then have o: "count_list (held ps) a + count_list lost a = (if cache_live c' a = None then 0 else 1)" for a
    using owned_onceD [of cache_live lost c' ps a] by simp
  have "cm_total c' = 0" if "lost = []" "held ps = []"
  proof -
    have "cache_live c' a = None" for a using o [of a] that by (simp split: if_splits)
    then show ?thesis using no_live_no_total [of c'] r by blast
  qed
  with r o fresh_owned(2) [OF c(2)] show ?thesis by (simp add: counts_right_def)
qed

lemma demo_build: "build_cache 100 8 (cache_manager_make 4) = Inr (demo_cache [(False, 4)])"
  by (simp add: build_cache_def cache_manager_make_def demo_cache_def build_handles_def seg_cells_def
      upt_4 u32_def)

text \<open>The second block (address 108) is lost when its handle is assigned to; the first one is swapped into
  another handle, which forgets its size, and freed.\<close>

definition demo_program :: "handle_op list" where
  "demo_program = [H_Alloc 0 1, H_Alloc 1 1, H_Move 1 0, H_Swap True 1 0, H_Free 0]"

lemma demo_program_runs:
  "held (snd (handles_run alloc_raw_tracked free_raw demo_unit demo_program
      (demo_cache [(False, 4)], no_handles 3))) = []"
  "handles_lose alloc_raw_tracked free_raw demo_unit demo_program
     (demo_cache [(False, 4)], no_handles 3) = [108]"
  "handles_ok alloc_raw_tracked free_raw cache_freeable demo_unit demo_program
     (demo_cache [(False, 4)], no_handles 3)"
  by code_simp+

theorem cache_ptr_program_owns_witness:
  "\<exists>c' ps. handles_run alloc_raw_tracked free_raw demo_unit demo_program
      (demo_cache [(False, 4)], no_handles 3) = (c', ps) \<and> cache_inv c' \<and> held ps = []
    \<and> (\<forall>a. cache_live c' a \<noteq> None \<longleftrightarrow> a = 108)"
proof -
  obtain c' ps where r: "handles_run alloc_raw_tracked free_raw demo_unit demo_program
      (demo_cache [(False, 4)], no_handles 3) = (c', ps)" by fastforce
  have b: "build_cache 100 8 (cache_manager_make (int 4)) = Inr (demo_cache [(False, 4)])"
    using demo_build by simp
  have h: "held ps = []" using demo_program_runs(1) r by simp
  have n: "0 < (4 :: nat)" "(4 :: nat) < 4294967296" "0 < (100 :: nat)" "0 < (8 :: nat)"
    "8 * 4 < (4294967296 :: nat)" by simp_all
  note o = cache_ptr_program_owns [OF n b demo_program_runs(3) r demo_program_runs(2)]
  have i: "cache_inv c'" using o by blast
  have c: "count_list (held ps) a + count_list [108] a = (if cache_live c' a = None then 0 else 1)" for a
    using o by blast
  have "cache_live c' a \<noteq> None \<longleftrightarrow> a = 108" for a using c [of a] h by (simp split: if_splits)
  with r h i show ?thesis by blast
qed

text \<open>The move assignment leaks: assigning to a handle that holds a block overwrites the block
  without freeing it, so the allocation stays live and no handle holds it.\<close>

theorem cache_ptr_assign_leaks:
  assumes "owned_once cache_live lost (c, ps)" and "cache_inv c" and "i < length ps" and "j < length ps"
    and "cp_block (ps ! i) \<noteq> 0"
    and "handle_exec alloc_raw_tracked free_raw u (H_Move i j) (c, ps) = (r, c', ps')"
  shows "r = Inr () \<and> c' = c \<and> cache_live c' (cp_block (ps ! i)) \<noteq> None
    \<and> (\<forall>p \<in> set ps'. cp_block p \<noteq> cp_block (ps ! i))"
proof -
  let ?b = "cp_block (ps ! i)"
  have r: "r = Inr ()" "c' = c" using assms(6) by (auto simp: split_beta Let_def)
  have l: "cache_live c ?b \<noteq> None" using owned_live [OF assms(1) _ assms(5)] assms(3) by simp
  have "owned_once cache_live (lost @ held_block (ps ! i)) (c', ps')"
    using cache.move_step_owned [OF assms(1-4), of u] assms(6)
    by (simp add: cache.step_owned_def del: handle_exec.simps)
  from owned_onceD [OF this, of ?b] have "count_list (held ps') ?b = 0"
    using assms(5) by (auto simp: held_block_def split: if_splits)
  then have "cp_block p \<noteq> ?b" if "p \<in> set ps'" for p
    using held_member [OF that] assms(5) by (cases "cp_block p = ?b") simp_all
  with r l show ?thesis by blast
qed

text \<open>Samples survive the way through a block: copying samples into a block and out of it
  again gives them back, and as long as they fit the block, the samples of every allocation at
  another address range are untouched.\<close>

theorem cache_ptr_copy_roundtrip:
  assumes "cp_block p \<noteq> 0" and "length out = length samples"
    and "cptr_copy_from samples (length samples) p mem = Inr mem'"
  shows "cptr_copy_to_num out (length samples) p mem' = Inr samples
    \<and> (\<forall>a. a < cp_block p \<or> cp_block p + length samples \<le> a \<longrightarrow> mem' a = mem a)"
proof -
  have m: "mem' = (\<lambda>a. if cp_block p \<le> a \<and> a < cp_block p + length samples
      then samples ! (a - cp_block p) else mem a)"
    using assms by (simp add: cptr_copy_from_def)
  have "map (\<lambda>i. mem' (cp_block p + i)) [0..<length samples] = samples"
    by (rule nth_equalityI) (simp_all add: m)
  with assms(1,2) m show ?thesis by (simp add: cptr_copy_to_num_def)
qed

theorem cache_ptr_copy_roundtrip_witness:
  "\<exists>mem'. cptr_copy_from [1, 2, 3] 3 (cache_ptr_make 100 1 True 1) (\<lambda>a. 0 :: int) = Inr mem'
    \<and> cptr_copy_to_num [0, 0, 0] 3 (cache_ptr_make 100 1 True 1) mem' = Inr [1, 2, 3]"
proof -
  let ?p = "cache_ptr_make 100 1 True 1"
  obtain mem' where m: "cptr_copy_from [1, 2, 3 :: int] (length [1, 2, 3 :: int]) ?p (\<lambda>a. 0) = Inr mem'"
    by (simp add: cache_ptr_make_def cptr_copy_from_def)
  from cache_ptr_copy_roundtrip [of ?p "[0, 0, 0]", OF _ _ m] m show ?thesis
    by (simp add: cache_ptr_make_def numeral_3_eq_3)
qed

end
