(* ===== verification/Linkable.thy ===== *)
theory Linkable
  imports Component
begin

text \<open>
  Links between units: \<^verbatim>\<open>framework/component/linkable.cpp\<close> and the structures \<open>LinkIn\<close> and
  \<open>LinkOut\<close> of \<^verbatim>\<open>linkable.hpp\<close>.

  The objects live in a store, a list; a pointer to an object is its index, a pointer to a
  \<open>LinkIn\<close> the index of its owner and its place among the owner's inputs (the inputs of a unit
  are all added by its constructor, before anything points to them). An \<open>int\<close> identity is
  compared as an \<open>unsigned int\<close>, \<open>uint_of\<close>, and then used as an index into a vector without
  a bounds check, which the definitions make explicit.
\<close>

section \<open>State\<close>

record link_in =
  li_label :: string
  li_id :: nat
  li_unit :: "nat option"
  li_connected :: bool

record link_out =
  lo_label :: string
  lo_id :: nat
  lo_to :: "(nat \<times> nat) option"
  lo_connected :: bool

record linkable = registrable +
  lk_inputs :: "link_in list"
  lk_num_inputs :: nat
  lk_outputs :: "link_out list"
  lk_num_outputs :: nat

definition linkable_make :: "string \<Rightarrow> string \<Rightarrow> ctype \<Rightarrow> linkable" where
  "linkable_make model label ty =
     registrable.extend (registrable_make model label ty)
       \<lparr>lk_inputs = [], lk_num_inputs = 0, lk_outputs = [], lk_num_outputs = 0\<rparr>"

definition uint_of :: "int \<Rightarrow> nat" where
  "uint_of i = nat (i mod 4294967296)"

section \<open>Operations\<close>

definition add_output :: "string \<Rightarrow> 'a linkable_scheme \<Rightarrow> 'a linkable_scheme" where
  "add_output label l =
     l\<lparr>lk_outputs := lk_outputs l
         @ [\<lparr>lo_label = label, lo_id = lk_num_outputs l, lo_to = None, lo_connected = False\<rparr>],
       lk_num_outputs := lk_num_outputs l + 1\<rparr>"

definition add_input :: "nat \<Rightarrow> string \<Rightarrow> 'a linkable_scheme \<Rightarrow> 'a linkable_scheme" where
  "add_input this label l =
     l\<lparr>lk_inputs := lk_inputs l
         @ [\<lparr>li_label = label, li_id = lk_num_inputs l, li_unit = Some this, li_connected = False\<rparr>],
       lk_num_inputs := lk_num_inputs l + 1\<rparr>"

definition has_input :: "string \<Rightarrow> 'a linkable_scheme \<Rightarrow> int" where
  "has_input label l =
     (case find (\<lambda>i. li_label i = label) (lk_inputs l) of None \<Rightarrow> -1 | Some i \<Rightarrow> int (li_id i))"

definition has_output :: "string \<Rightarrow> 'a linkable_scheme \<Rightarrow> int" where
  "has_output label l =
     (case find (\<lambda>i. lo_label i = label) (lk_outputs l) of None \<Rightarrow> -1 | Some i \<Rightarrow> int (lo_id i))"

definition get_input :: "nat \<Rightarrow> int \<Rightarrow> 'a linkable_scheme \<Rightarrow> (nat \<times> nat) option" where
  "get_input this i l = (if lk_num_inputs l \<le> uint_of i then None else Some (this, nat i))"

definition get_output :: "nat \<Rightarrow> int \<Rightarrow> 'a linkable_scheme \<Rightarrow> (nat \<times> nat) option" where
  "get_output this i l = (if lk_num_outputs l \<le> uint_of i then None else Some (this, nat i))"

definition upd_nth :: "nat \<Rightarrow> ('b \<Rightarrow> 'b) \<Rightarrow> 'b list \<Rightarrow> 'b list" where
  "upd_nth k f xs = xs[k := f (xs ! k)]"

definition upd_input ::
    "nat \<Rightarrow> nat \<Rightarrow> (link_in \<Rightarrow> link_in) \<Rightarrow> 'a linkable_scheme list \<Rightarrow> 'a linkable_scheme list" where
  "upd_input u k f st = upd_nth u (\<lambda>l. l\<lparr>lk_inputs := upd_nth k f (lk_inputs l)\<rparr>) st"

definition upd_output ::
    "nat \<Rightarrow> nat \<Rightarrow> (link_out \<Rightarrow> link_out) \<Rightarrow> 'a linkable_scheme list \<Rightarrow> 'a linkable_scheme list" where
  "upd_output u k f st = upd_nth u (\<lambda>l. l\<lparr>lk_outputs := upd_nth k f (lk_outputs l)\<rparr>) st"

definition link_connect ::
    "nat \<Rightarrow> int \<Rightarrow> (nat \<times> nat) option \<Rightarrow> 'a linkable_scheme list
      \<Rightarrow> (bool \<times> 'a linkable_scheme list) result" where
  "link_connect u i lin st =
     (if lk_num_outputs (st ! u) \<le> uint_of i then Inr (False, st)
      else case lin of
        None \<Rightarrow> Inr (False, st)
      | Some (v, k) \<Rightarrow>
          bind_res (arr_get (lk_outputs (st ! u)) (nat i)) (\<lambda>_.
            Inr (True, upd_input v k (\<lambda>l. l\<lparr>li_connected := True\<rparr>)
                   (upd_output u (nat i) (\<lambda>l. l\<lparr>lo_to := lin, lo_connected := True\<rparr>) st))))"

definition link_disconnect ::
    "nat \<Rightarrow> int \<Rightarrow> 'a linkable_scheme list \<Rightarrow> ('a linkable_scheme list) result" where
  "link_disconnect u i st =
     (if lk_num_inputs (st ! u) \<le> uint_of i then Inr st
      else bind_res (arr_get (lk_outputs (st ! u)) (nat i)) (\<lambda>out.
        case lo_to out of
          None \<Rightarrow> Inl Null_Deref
        | Some (v, k) \<Rightarrow>
            Inr (upd_output u (nat i) (\<lambda>l. l\<lparr>lo_to := None\<rparr>)
                  (upd_input v k (\<lambda>l. l\<lparr>li_connected := False\<rparr>)
                    (upd_output u (nat i) (\<lambda>l. l\<lparr>lo_connected := False\<rparr>) st)))))"

definition input_connected :: "nat \<Rightarrow> 'a linkable_scheme \<Rightarrow> bool result" where
  "input_connected i l =
     (if lk_num_inputs l < i then Inr False else map_res li_connected (arr_get (lk_inputs l) i))"

definition output_conncted :: "nat \<Rightarrow> 'a linkable_scheme \<Rightarrow> bool result" where
  "output_conncted i l =
     (if lk_num_outputs l < i then Inr False else map_res lo_connected (arr_get (lk_outputs l) i))"

section \<open>Invariant\<close>

definition links_wf :: "'a linkable_scheme list \<Rightarrow> bool" where
  "links_wf st \<longleftrightarrow> (\<forall>u < length st.
      lk_num_inputs (st ! u) = length (lk_inputs (st ! u))
    \<and> lk_num_outputs (st ! u) = length (lk_outputs (st ! u))
    \<and> (\<forall>k < length (lk_inputs (st ! u)).
         li_id (lk_inputs (st ! u) ! k) = k \<and> li_unit (lk_inputs (st ! u) ! k) = Some u)
    \<and> (\<forall>k < length (lk_outputs (st ! u)).
         lo_id (lk_outputs (st ! u) ! k) = k
       \<and> (case lo_to (lk_outputs (st ! u) ! k) of
            None \<Rightarrow> \<not> lo_connected (lk_outputs (st ! u) ! k)
          | Some (v, j) \<Rightarrow> lo_connected (lk_outputs (st ! u) ! k)
              \<and> v < length st \<and> j < length (lk_inputs (st ! v))
              \<and> li_connected (lk_inputs (st ! v) ! j))))"

lemma length_upd [simp]:
  "length (upd_nth k f xs) = length xs" "length (upd_input u k g st) = length st"
  "length (upd_output u k h st) = length st"
  by (simp_all add: upd_nth_def upd_input_def upd_output_def)

lemma upd_nth_nth: "j < length xs \<Longrightarrow> upd_nth k f xs ! j = (if j = k then f (xs ! j) else xs ! j)"
  by (auto simp: upd_nth_def nth_list_update)

lemma upd_input_nth [simp]:
  assumes "v < length st"
  shows "lk_outputs (upd_input u k f st ! v) = lk_outputs (st ! v)"
    "lk_num_inputs (upd_input u k f st ! v) = lk_num_inputs (st ! v)"
    "lk_num_outputs (upd_input u k f st ! v) = lk_num_outputs (st ! v)"
    "lk_inputs (upd_input u k f st ! v)
      = (if v = u then upd_nth k f (lk_inputs (st ! v)) else lk_inputs (st ! v))"
  using assms by (auto simp: upd_input_def upd_nth_nth)

lemma upd_output_nth [simp]:
  assumes "v < length st"
  shows "lk_inputs (upd_output u k f st ! v) = lk_inputs (st ! v)"
    "lk_num_inputs (upd_output u k f st ! v) = lk_num_inputs (st ! v)"
    "lk_num_outputs (upd_output u k f st ! v) = lk_num_outputs (st ! v)"
    "lk_outputs (upd_output u k f st ! v)
      = (if v = u then upd_nth k f (lk_outputs (st ! v)) else lk_outputs (st ! v))"
  using assms by (auto simp: upd_output_def upd_nth_nth)

lemma links_wfD:
  assumes "links_wf st" and "u < length st"
  shows "lk_num_inputs (st ! u) = length (lk_inputs (st ! u))"
    "lk_num_outputs (st ! u) = length (lk_outputs (st ! u))"
    "\<And>k. k < length (lk_inputs (st ! u)) \<Longrightarrow>
         li_id (lk_inputs (st ! u) ! k) = k \<and> li_unit (lk_inputs (st ! u) ! k) = Some u"
    "\<And>k. k < length (lk_outputs (st ! u)) \<Longrightarrow> lo_id (lk_outputs (st ! u) ! k) = k"
    "\<And>k. k < length (lk_outputs (st ! u)) \<Longrightarrow>
         (lo_connected (lk_outputs (st ! u) ! k) \<longleftrightarrow> lo_to (lk_outputs (st ! u) ! k) \<noteq> None)"
    "\<And>k v j. k < length (lk_outputs (st ! u)) \<Longrightarrow> lo_to (lk_outputs (st ! u) ! k) = Some (v, j) \<Longrightarrow>
         v < length st \<and> j < length (lk_inputs (st ! v)) \<and> li_connected (lk_inputs (st ! v) ! j)"
proof -
  from assms have *: "lk_num_inputs (st ! u) = length (lk_inputs (st ! u))
    \<and> lk_num_outputs (st ! u) = length (lk_outputs (st ! u))
    \<and> (\<forall>k < length (lk_inputs (st ! u)).
         li_id (lk_inputs (st ! u) ! k) = k \<and> li_unit (lk_inputs (st ! u) ! k) = Some u)
    \<and> (\<forall>k < length (lk_outputs (st ! u)).
         lo_id (lk_outputs (st ! u) ! k) = k
       \<and> (case lo_to (lk_outputs (st ! u) ! k) of
            None \<Rightarrow> \<not> lo_connected (lk_outputs (st ! u) ! k)
          | Some (v, j) \<Rightarrow> lo_connected (lk_outputs (st ! u) ! k)
              \<and> v < length st \<and> j < length (lk_inputs (st ! v))
              \<and> li_connected (lk_inputs (st ! v) ! j)))"
    unfolding links_wf_def by blast
  then show "lk_num_inputs (st ! u) = length (lk_inputs (st ! u))"
    "lk_num_outputs (st ! u) = length (lk_outputs (st ! u))"
    "\<And>k. k < length (lk_inputs (st ! u)) \<Longrightarrow>
         li_id (lk_inputs (st ! u) ! k) = k \<and> li_unit (lk_inputs (st ! u) ! k) = Some u"
    "\<And>k. k < length (lk_outputs (st ! u)) \<Longrightarrow> lo_id (lk_outputs (st ! u) ! k) = k"
    by blast+
  fix k assume k: "k < length (lk_outputs (st ! u))"
  note c = conjunct2 [OF conjunct2 [OF conjunct2 [OF *]], rule_format, OF k]
  show "lo_connected (lk_outputs (st ! u) ! k) \<longleftrightarrow> lo_to (lk_outputs (st ! u) ! k) \<noteq> None"
    using conjunct2 [OF c] by (auto split: option.splits)
  show "\<And>v j. lo_to (lk_outputs (st ! u) ! k) = Some (v, j) \<Longrightarrow>
         v < length st \<and> j < length (lk_inputs (st ! v)) \<and> li_connected (lk_inputs (st ! v) ! j)"
    using conjunct2 [OF c] by simp
qed

lemma links_wfI:
  assumes "\<And>u. u < length st \<Longrightarrow> lk_num_inputs (st ! u) = length (lk_inputs (st ! u))"
    "\<And>u. u < length st \<Longrightarrow> lk_num_outputs (st ! u) = length (lk_outputs (st ! u))"
    "\<And>u k. u < length st \<Longrightarrow> k < length (lk_inputs (st ! u)) \<Longrightarrow>
         li_id (lk_inputs (st ! u) ! k) = k \<and> li_unit (lk_inputs (st ! u) ! k) = Some u"
    "\<And>u k. u < length st \<Longrightarrow> k < length (lk_outputs (st ! u)) \<Longrightarrow>
         lo_id (lk_outputs (st ! u) ! k) = k"
    "\<And>u k. u < length st \<Longrightarrow> k < length (lk_outputs (st ! u)) \<Longrightarrow>
         (lo_connected (lk_outputs (st ! u) ! k) \<longleftrightarrow> lo_to (lk_outputs (st ! u) ! k) \<noteq> None)"
    "\<And>u k v j. u < length st \<Longrightarrow> k < length (lk_outputs (st ! u)) \<Longrightarrow>
         lo_to (lk_outputs (st ! u) ! k) = Some (v, j) \<Longrightarrow>
         v < length st \<and> j < length (lk_inputs (st ! v)) \<and> li_connected (lk_inputs (st ! v) ! j)"
  shows "links_wf st"
  unfolding links_wf_def
proof (intro allI impI conjI)
  fix u k assume u: "u < length st" and k: "k < length (lk_outputs (st ! u))"
  show "case lo_to (lk_outputs (st ! u) ! k) of
            None \<Rightarrow> \<not> lo_connected (lk_outputs (st ! u) ! k)
          | Some (v, j) \<Rightarrow> lo_connected (lk_outputs (st ! u) ! k)
              \<and> v < length st \<and> j < length (lk_inputs (st ! v))
              \<and> li_connected (lk_inputs (st ! v) ! j)"
    using assms(5) [OF u k] assms(6) [OF u k] by (auto split: option.splits)
qed (use assms(1-4) in blast)+

section \<open>Every operation keeps the invariant\<close>

lemma uint_of_small: "0 \<le> i \<Longrightarrow> i < 4294967296 \<Longrightarrow> uint_of i = nat i"
  by (simp add: uint_of_def)

lemma uint_of_nat_le: "nat i \<le> uint_of i \<or> 4294967296 \<le> i"
  by (cases "0 \<le> i"; cases "i < 4294967296") (auto simp: uint_of_def)

lemma connect_step:
  assumes wf: "links_wf st" and u: "u < length st" and i: "nat i < length (lk_outputs (st ! u))"
    and v: "v < length st" and k: "k < length (lk_inputs (st ! v))"
    and st': "st' = upd_input v k (\<lambda>l. l\<lparr>li_connected := True\<rparr>)
      (upd_output u (nat i) (\<lambda>l. l\<lparr>lo_to := Some (v, k), lo_connected := True\<rparr>) st)"
  shows "links_wf st'"
proof (rule links_wfI)
  note d = links_wfD [OF wf]
  have len: "length st' = length st" by (simp add: st')
  fix w assume "w < length st'"
  then have w: "w < length st" using len by simp
  show "lk_num_inputs (st' ! w) = length (lk_inputs (st' ! w))"
    "lk_num_outputs (st' ! w) = length (lk_outputs (st' ! w))"
    using d(1,2) [OF w] w by (simp_all add: st')
  fix m
  show "li_id (lk_inputs (st' ! w) ! m) = m \<and> li_unit (lk_inputs (st' ! w) ! m) = Some w"
    if "m < length (lk_inputs (st' ! w))"
    using that d(3) [OF w] w by (simp add: st' upd_nth_nth split: if_splits)
  assume "m < length (lk_outputs (st' ! w))"
  then have m: "m < length (lk_outputs (st ! w))" using w by (simp add: st' split: if_splits)
  show "lo_id (lk_outputs (st' ! w) ! m) = m"
    using m d(4) [OF w m] w by (cases "w = u") (auto simp: st' upd_nth_nth)
  show "lo_connected (lk_outputs (st' ! w) ! m) \<longleftrightarrow> lo_to (lk_outputs (st' ! w) ! m) \<noteq> None"
    using m d(5) [OF w m] w by (cases "w = u") (simp_all add: st' upd_nth_nth)
  fix x j assume "lo_to (lk_outputs (st' ! w) ! m) = Some (x, j)"
  then have "(x, j) = (v, k) \<or> lo_to (lk_outputs (st ! w) ! m) = Some (x, j)"
    using m w by (auto simp: st' upd_nth_nth split: if_splits)
  then have x: "x < length st" "j < length (lk_inputs (st ! x))"
    "(x, j) = (v, k) \<or> li_connected (lk_inputs (st ! x) ! j)"
    using d(6) [OF w m] v k by auto
  then show "x < length st' \<and> j < length (lk_inputs (st' ! x))
    \<and> li_connected (lk_inputs (st' ! x) ! j)"
    using len by (auto simp: st' upd_nth_nth)
qed

lemma disconnect_step:
  assumes wf: "links_wf st" and u: "u < length st" and i: "i < length (lk_outputs (st ! u))"
    and to: "lo_to (lk_outputs (st ! u) ! i) = Some (v, k)"
    and once: "\<And>w m. w < length st \<Longrightarrow> m < length (lk_outputs (st ! w)) \<Longrightarrow>
      lo_to (lk_outputs (st ! w) ! m) = Some (v, k) \<Longrightarrow> (w, m) = (u, i)"
    and st': "st' = upd_output u i (\<lambda>l. l\<lparr>lo_to := None\<rparr>)
      (upd_input v k (\<lambda>l. l\<lparr>li_connected := False\<rparr>)
        (upd_output u i (\<lambda>l. l\<lparr>lo_connected := False\<rparr>) st))"
  shows "links_wf st'"
proof (rule links_wfI)
  note d = links_wfD [OF wf]
  have len: "length st' = length st" by (simp add: st')
  fix w assume "w < length st'"
  then have w: "w < length st" using len by simp
  show "lk_num_inputs (st' ! w) = length (lk_inputs (st' ! w))"
    "lk_num_outputs (st' ! w) = length (lk_outputs (st' ! w))"
    using d(1,2) [OF w] w by (simp_all add: st')
  fix m
  show "li_id (lk_inputs (st' ! w) ! m) = m \<and> li_unit (lk_inputs (st' ! w) ! m) = Some w"
    if "m < length (lk_inputs (st' ! w))"
    using that d(3) [OF w] w by (simp add: st' upd_nth_nth split: if_splits)
  assume "m < length (lk_outputs (st' ! w))"
  then have m: "m < length (lk_outputs (st ! w))" using w by (simp add: st' split: if_splits)
  show "lo_id (lk_outputs (st' ! w) ! m) = m"
    using m d(4) [OF w m] w by (cases "w = u") (auto simp: st' upd_nth_nth)
  show "lo_connected (lk_outputs (st' ! w) ! m) \<longleftrightarrow> lo_to (lk_outputs (st' ! w) ! m) \<noteq> None"
    using m d(5) [OF w m] w by (cases "w = u") (simp_all add: st' upd_nth_nth)
  fix x j assume "lo_to (lk_outputs (st' ! w) ! m) = Some (x, j)"
  then have "lo_to (lk_outputs (st ! w) ! m) = Some (x, j)" "(w, m) \<noteq> (u, i)"
    using m w by (auto simp: st' upd_nth_nth split: if_splits)
  then have x: "x < length st" "j < length (lk_inputs (st ! x))"
    "li_connected (lk_inputs (st ! x) ! j)" "(x, j) \<noteq> (v, k)"
    using d(6) [OF w m] once [OF w m] by auto
  then show "x < length st' \<and> j < length (lk_inputs (st' ! x))
    \<and> li_connected (lk_inputs (st' ! x) ! j)"
    using len by (auto simp: st' upd_nth_nth)
qed

section \<open>Properties\<close>

text \<open>Connecting keeps the links consistent: when the output exists and the pointer leads to an
  input of some unit, \<open>connect\<close> succeeds, both ends are marked connected, the output leads to
  that input, the invariant of the link store holds again and no other output changes.\<close>

theorem connect_links:
  assumes "links_wf st" and "u < length st" and "0 \<le> i" and "i < 4294967296"
    and "nat i < lk_num_outputs (st ! u)" and "v < length st" and "k < length (lk_inputs (st ! v))"
  shows "\<exists>st'. link_connect u i (Some (v, k)) st = Inr (True, st') \<and> links_wf st'
    \<and> lo_to (lk_outputs (st' ! u) ! nat i) = Some (v, k)
    \<and> lo_connected (lk_outputs (st' ! u) ! nat i) \<and> li_connected (lk_inputs (st' ! v) ! k)
    \<and> (\<forall>w < length st. \<forall>m < length (lk_outputs (st ! w)). (w, m) \<noteq> (u, nat i) \<longrightarrow>
         lk_outputs (st' ! w) ! m = lk_outputs (st ! w) ! m)"
proof -
  have i: "nat i < length (lk_outputs (st ! u))" using assms(5) links_wfD(2) [OF assms(1,2)] by simp
  let ?st = "upd_input v k (\<lambda>l. l\<lparr>li_connected := True\<rparr>)
      (upd_output u (nat i) (\<lambda>l. l\<lparr>lo_to := Some (v, k), lo_connected := True\<rparr>) st)"
  have "link_connect u i (Some (v, k)) st = Inr (True, ?st)"
    using assms(3-5) i by (simp add: link_connect_def uint_of_small)
  moreover have "links_wf ?st" by (rule connect_step [OF assms(1,2) i assms(6,7) refl])
  ultimately show ?thesis using assms(2,6,7) i by (auto simp: upd_nth_nth)
qed

text \<open>A source with two outputs and a sink with one input, not yet connected.\<close>

definition demo_links :: "linkable list" where
  "demo_links = [add_output ''right'' (add_output ''left'' (linkable_make ''Src'' ''s'' Ctype_Unit)),
                 add_input 1 ''in'' (linkable_make ''Snk'' ''k'' Ctype_Unit)]"

lemma demo_links_wf:
  "links_wf demo_links" "length demo_links = 2" "length (lk_inputs (demo_links ! 1)) = 1"
  "lk_num_outputs (demo_links ! 0) = 2" "lk_num_inputs (demo_links ! 0) = 0"
  "length (lk_outputs (demo_links ! 0)) = 2"
  by (simp_all add: links_wf_def demo_links_def add_input_def add_output_def linkable_make_def
      registrable.defs linkable.defs registrable_make_def less_Suc_eq numeral_2_eq_2)

theorem connect_links_witness:
  "\<exists>st'. link_connect 0 1 (Some (1, 0)) demo_links = Inr (True, st') \<and> links_wf st'
    \<and> lo_to (lk_outputs (st' ! 0) ! 1) = Some (1, 0)"
proof -
  have "0 < length demo_links" "nat 1 < lk_num_outputs (demo_links ! 0)" "1 < length demo_links"
    "0 < length (lk_inputs (demo_links ! 1))"
    by (simp_all only: demo_links_wf)
  from connect_links [OF demo_links_wf(1) this(1) _ _ this(2-4)] show ?thesis by fastforce
qed

text \<open>C23. \<open>disconnect\<close> by cases. An output whose number is not below the number of inputs of its unit is left as
  it is, connected or not: the guard tests the wrong number. Below that, a number without an output reads outside
  of the vector and an output that leads nowhere dereferences a null pointer. Otherwise the output and the input it led
  to are marked free and no other output changes; the links are consistent again exactly when no other output leads to
  the same input.\<close>

theorem disconnect_unlinks:
  assumes "links_wf st" and "u < length st" and "0 \<le> i" and "i < 4294967296"
  shows "if lk_num_inputs (st ! u) \<le> nat i then link_disconnect u i st = Inr st
    else if lk_num_outputs (st ! u) \<le> nat i then link_disconnect u i st = Inl Out_Of_Bounds
    else case lo_to (lk_outputs (st ! u) ! nat i) of
      None \<Rightarrow> link_disconnect u i st = Inl Null_Deref
    | Some (v, k) \<Rightarrow> \<exists>st'. link_disconnect u i st = Inr st' \<and> length st' = length st
        \<and> lo_to (lk_outputs (st' ! u) ! nat i) = None
        \<and> \<not> lo_connected (lk_outputs (st' ! u) ! nat i) \<and> \<not> li_connected (lk_inputs (st' ! v) ! k)
        \<and> (\<forall>w < length st. \<forall>m < length (lk_outputs (st ! w)). (w, m) \<noteq> (u, nat i) \<longrightarrow>
             lk_outputs (st' ! w) ! m = lk_outputs (st ! w) ! m)
        \<and> (links_wf st' \<longleftrightarrow> (\<forall>w < length st. \<forall>m < length (lk_outputs (st ! w)).
             lo_to (lk_outputs (st ! w) ! m) = Some (v, k) \<longrightarrow> (w, m) = (u, nat i)))"
proof (cases "nat i < lk_num_inputs (st ! u) \<and> nat i < lk_num_outputs (st ! u)")
  case False
  then show ?thesis
    using assms(3,4) links_wfD(2) [OF assms(1,2)] by (auto simp: link_disconnect_def uint_of_small)
next
  case True
  have i: "nat i < length (lk_outputs (st ! u))" using True links_wfD(2) [OF assms(1,2)] by simp
  show ?thesis
  proof (cases "lo_to (lk_outputs (st ! u) ! nat i)")
    case None
    then show ?thesis using True i assms(3,4) by (simp add: link_disconnect_def uint_of_small)
  next
    case (Some t)
    obtain v k where t: "t = (v, k)" by (cases t)
    have to: "lo_to (lk_outputs (st ! u) ! nat i) = Some (v, k)" using Some t by simp
    have v: "v < length st" "k < length (lk_inputs (st ! v))"
      using links_wfD(6) [OF assms(1,2) i to] by simp_all
    define st' where "st' = upd_output u (nat i) (\<lambda>l. l\<lparr>lo_to := None\<rparr>)
        (upd_input v k (\<lambda>l. l\<lparr>li_connected := False\<rparr>)
          (upd_output u (nat i) (\<lambda>l. l\<lparr>lo_connected := False\<rparr>) st))"
    have run: "link_disconnect u i st = Inr st'"
      using assms(3,4) True to i by (simp add: link_disconnect_def uint_of_small st'_def)
    have len: "length st' = length st" by (simp add: st'_def)
    have here: "lo_to (lk_outputs (st' ! u) ! nat i) = None" "\<not> lo_connected (lk_outputs (st' ! u) ! nat i)"
      "\<not> li_connected (lk_inputs (st' ! v) ! k)"
      using assms(2) i v by (auto simp: st'_def upd_nth_nth)
    have other: "lk_outputs (st' ! w) ! m = lk_outputs (st ! w) ! m"
      if "w < length st" "m < length (lk_outputs (st ! w))" "(w, m) \<noteq> (u, nat i)" for w m
      using that by (auto simp: st'_def upd_nth_nth)
    have lens: "length (lk_outputs (st' ! w)) = length (lk_outputs (st ! w))" if "w < length st" for w
      using that by (simp add: st'_def)
    have "links_wf st' \<longleftrightarrow> (\<forall>w < length st. \<forall>m < length (lk_outputs (st ! w)).
        lo_to (lk_outputs (st ! w) ! m) = Some (v, k) \<longrightarrow> (w, m) = (u, nat i))"
    proof
      assume wf: "links_wf st'"
      show "\<forall>w < length st. \<forall>m < length (lk_outputs (st ! w)).
          lo_to (lk_outputs (st ! w) ! m) = Some (v, k) \<longrightarrow> (w, m) = (u, nat i)"
      proof (intro allI impI, rule ccontr)
        fix w m assume w: "w < length st" "m < length (lk_outputs (st ! w))"
          "lo_to (lk_outputs (st ! w) ! m) = Some (v, k)" "(w, m) \<noteq> (u, nat i)"
        then have "lo_to (lk_outputs (st' ! w) ! m) = Some (v, k)" using other by simp
        from links_wfD(6) [OF wf _ _ this] show False using w here(3) len lens by simp
      qed
    next
      assume "\<forall>w < length st. \<forall>m < length (lk_outputs (st ! w)).
          lo_to (lk_outputs (st ! w) ! m) = Some (v, k) \<longrightarrow> (w, m) = (u, nat i)"
      then show "links_wf st'" by (intro disconnect_step [OF assms(1,2) i to _ st'_def]) blast
    qed
    then show ?thesis using True run len here other by (simp add: to)
  qed
qed

text \<open>A unit with one output and one input that are connected to each other.\<close>

definition demo_loop :: "linkable list" where
  "demo_loop = [(linkable_make ''Mid'' ''m'' Ctype_Unit)
     \<lparr>lk_inputs := [\<lparr>li_label = ''in'', li_id = 0, li_unit = Some 0, li_connected = True\<rparr>],
      lk_num_inputs := 1,
      lk_outputs := [\<lparr>lo_label = ''out'', lo_id = 0, lo_to = Some (0, 0), lo_connected = True\<rparr>],
      lk_num_outputs := 1\<rparr>]"

theorem disconnect_unlinks_witness:
  "(\<exists>st'. link_disconnect 0 0 demo_loop = Inr st' \<and> links_wf st' \<and> lo_to (lk_outputs (st' ! 0) ! 0) = None)
   \<and> link_disconnect 0 1 demo_links = Inr demo_links"
proof
  have wf: "links_wf demo_loop" by (simp add: links_wf_def demo_loop_def)
  have l: "0 < length demo_loop" "\<not> lk_num_inputs (demo_loop ! 0) \<le> nat 0" "\<not> lk_num_outputs (demo_loop ! 0) \<le> nat 0"
    "lo_to (lk_outputs (demo_loop ! 0) ! nat 0) = Some (0, 0)"
    by (simp_all add: demo_loop_def)
  have once: "\<forall>w < length demo_loop. \<forall>m < length (lk_outputs (demo_loop ! w)).
      lo_to (lk_outputs (demo_loop ! w) ! m) = Some (0, 0) \<longrightarrow> (w, m) = (0, nat 0)"
    by (simp add: demo_loop_def)
  show "\<exists>st'. link_disconnect 0 0 demo_loop = Inr st' \<and> links_wf st' \<and> lo_to (lk_outputs (st' ! 0) ! 0) = None"
    using disconnect_unlinks [OF wf l(1), of 0] l once by auto
  show "link_disconnect 0 1 demo_links = Inr demo_links"
    using disconnect_unlinks [OF demo_links_wf(1), of 0 1] demo_links_wf by simp
qed

text \<open>The test for a connected input is off by one: for the number just past the last input it
  reads outside the vector instead of returning \<open>false\<close>, while any larger number is refused.\<close>

theorem input_connected_off_by_one:
  assumes "links_wf st" and "u < length st"
  shows "input_connected (lk_num_inputs (st ! u)) (st ! u) = Inl Out_Of_Bounds
    \<and> output_conncted (lk_num_outputs (st ! u)) (st ! u) = Inl Out_Of_Bounds
    \<and> input_connected (Suc (lk_num_inputs (st ! u))) (st ! u) = Inr False"
  using links_wfD(1,2) [OF assms] by (simp add: input_connected_def output_conncted_def)

theorem input_connected_off_by_one_witness:
  "output_conncted 2 (demo_links ! 0) = Inl Out_Of_Bounds"
  using input_connected_off_by_one [OF demo_links_wf(1), of 0] demo_links_wf by simp

end
