(* ===== verification/Unit_Graph.thy ===== *)
theory Unit_Graph
  imports Linkable Cache_Manager
begin

text \<open>
  Units and the two walks over their links: \<^verbatim>\<open>framework/component/unit.cpp\<close> and its
  specialisations \<^verbatim>\<open>framework/spec/combine.cpp\<close>, \<^verbatim>\<open>dispatch.cpp\<close> and \<^verbatim>\<open>mainline.cpp\<close>.

  A unit is a \<open>linkable\<close> with its profiles; \<open>u_class\<close> is the dynamic type that decides which
  override of \<open>sync_line\<close> runs. The methods a concrete unit implements (\<open>cycle\<close>, \<open>init\<close>,
  \<open>resync\<close>) are code outside the framework: the record \<open>unit_methods\<close> carries them as
  functions on the whole state.

  \<open>sync_line\<close> hands one profile down the line by reference. The reference is a location
  (\<open>prof_loc\<close>): the line or unit profile of some unit, the global profile of the rack or
  a local variable of the caller, so that a unit which works on a profile while others
  read it behaves as in the code. The recursion over the links takes the depth of the stack it
  may use as its first argument and ends with \<open>Stack_Overflow\<close> when that is exhausted; on
  links without cycles a depth above the rank of the unit is enough, which is proved below.

  The state of the rack is here as well, because \<open>dispatch\<close> calls back into it
  (\<open>trigger_sync\<close>, \<open>trigger_cycle\<close>).
\<close>

section \<open>State\<close>

datatype unit_class = Plain_Class | Combine_Class | Dispatch_Class | Mainline_Class

record sio_unit = linkable +
  u_class :: unit_class
  u_utype :: unit_type
  u_cstate :: component_state
  u_rack :: bool
  u_upstream :: bool
  u_unit_profile :: sync_profile
  u_line_profile :: sync_profile
  u_global_profile :: sync_profile
  u_input_state :: "bool list"

fun class_utype :: "unit_class \<Rightarrow> unit_type \<Rightarrow> unit_type" where
  "class_utype Combine_Class _ = UT_Combine"
| "class_utype Dispatch_Class _ = UT_Dispatch"
| "class_utype Mainline_Class _ = UT_Mainline"
| "class_utype Plain_Class t = t"

definition unit_make :: "unit_class \<Rightarrow> unit_type \<Rightarrow> string \<Rightarrow> string \<Rightarrow> sio_unit" where
  "unit_make cls ty model label =
     linkable.extend (linkable_make model label Ctype_Unit)
       \<lparr>u_class = cls, u_utype = class_utype cls ty, u_cstate = Cmpt_Inactive, u_rack = False,
        u_upstream = False, u_unit_profile = sync_profile_zero,
        u_line_profile = sync_profile_zero, u_global_profile = sync_profile_zero,
        u_input_state = []\<rparr>"

text \<open>\<open>rk_local_profile\<close> is the variable \<open>bogus\<close> of \<open>backend::sync\<close>, \<open>rk_heap\<close> the address the
  next array of samples gets, \<open>rk_user\<close> what the concrete units keep for themselves.\<close>

record 'm sio_rack =
  rk_units :: "sio_unit list"
  rk_mounted :: "string \<Rightarrow> nat option"
  rk_mainlines :: "string \<Rightarrow> nat option option"
  rk_raw_mainlines :: "nat list"
  rk_global_profile :: sync_profile
  rk_local_profile :: sync_profile
  rk_cache :: "cache_manager option"
  rk_heap :: nat
  rk_resync :: bool
  rk_resync_flags :: sync_flag
  rk_cycle_queue :: int
  rk_user :: 'm

type_synonym ('m, 'a) act = "'m sio_rack \<Rightarrow> 'a result \<times> 'm sio_rack"

record 'm unit_methods =
  vm_cycle :: "nat \<Rightarrow> 'm sio_rack \<Rightarrow> cycle_state result \<times> 'm sio_rack"
  vm_init :: "nat \<Rightarrow> 'm sio_rack \<Rightarrow> cycle_state result \<times> 'm sio_rack"
  vm_resync :: "nat \<Rightarrow> sync_flag \<Rightarrow> 'm sio_rack \<Rightarrow> cycle_state result \<times> 'm sio_rack"

section \<open>Sequencing\<close>

definition ret :: "'a \<Rightarrow> ('m, 'a) act" where
  "ret x = (\<lambda>s. (Inr x, s))"

definition raise :: "sio_error \<Rightarrow> ('m, 'a) act" where
  "raise e = (\<lambda>s. (Inl e, s))"

definition bind_act :: "('m, 'a) act \<Rightarrow> ('a \<Rightarrow> ('m, 'b) act) \<Rightarrow> ('m, 'b) act" where
  "bind_act m f = (\<lambda>s. case m s of (Inl e, s') \<Rightarrow> (Inl e, s') | (Inr x, s') \<Rightarrow> f x s')"

definition modify :: "('m sio_rack \<Rightarrow> 'm sio_rack) \<Rightarrow> ('m, unit) act" where
  "modify f = (\<lambda>s. (Inr (), f s))"

definition with_state :: "('m sio_rack \<Rightarrow> ('m, 'a) act) \<Rightarrow> ('m, 'a) act" where
  "with_state f = (\<lambda>s. f s s)"

primrec for_each :: "('b \<Rightarrow> ('m, unit) act) \<Rightarrow> 'b list \<Rightarrow> ('m, unit) act" where
  "for_each f [] = ret ()"
| "for_each f (x # xs) = bind_act (f x) (\<lambda>_. for_each f xs)"

lemmas act_defs = ret_def raise_def bind_act_def modify_def with_state_def

section \<open>Profiles behind references\<close>

datatype prof_loc = Loc_Line nat | Loc_Unit nat | Loc_Global | Loc_Local

fun load_profile :: "prof_loc \<Rightarrow> 'm sio_rack \<Rightarrow> sync_profile" where
  "load_profile (Loc_Line u) s = u_line_profile (rk_units s ! u)"
| "load_profile (Loc_Unit u) s = u_unit_profile (rk_units s ! u)"
| "load_profile Loc_Global s = rk_global_profile s"
| "load_profile Loc_Local s = rk_local_profile s"

definition upd_unit :: "nat \<Rightarrow> (sio_unit \<Rightarrow> sio_unit) \<Rightarrow> 'm sio_rack \<Rightarrow> 'm sio_rack" where
  "upd_unit u f s = s\<lparr>rk_units := upd_nth u f (rk_units s)\<rparr>"

fun store_profile :: "prof_loc \<Rightarrow> sync_profile \<Rightarrow> 'm sio_rack \<Rightarrow> 'm sio_rack" where
  "store_profile (Loc_Line u) p s = upd_unit u (\<lambda>z. z\<lparr>u_line_profile := p\<rparr>) s"
| "store_profile (Loc_Unit u) p s = upd_unit u (\<lambda>z. z\<lparr>u_unit_profile := p\<rparr>) s"
| "store_profile Loc_Global p s = s\<lparr>rk_global_profile := p\<rparr>"
| "store_profile Loc_Local p s = s\<lparr>rk_local_profile := p\<rparr>"

definition upd_profile :: "prof_loc \<Rightarrow> (sync_profile \<Rightarrow> sync_profile) \<Rightarrow> 'm sio_rack \<Rightarrow> 'm sio_rack" where
  "upd_profile loc f s = store_profile loc (f (load_profile loc s)) s"

section \<open>Requests to the rack\<close>

definition rack_trigger_sync :: "sync_flag \<Rightarrow> 'm sio_rack \<Rightarrow> 'm sio_rack" where
  "rack_trigger_sync flags s =
     (if flags \<noteq> 0 then s\<lparr>rk_resync_flags := rk_resync_flags s OR flags, rk_resync := True\<rparr>
      else s\<lparr>rk_resync := True\<rparr>)"

definition rack_trigger_cycle :: "'m sio_rack \<Rightarrow> 'm sio_rack" where
  "rack_trigger_cycle s = s\<lparr>rk_cycle_queue := rk_cycle_queue s + 1\<rparr>"

definition unit_trigger_cycle :: "nat \<Rightarrow> ('m, unit) act" where
  "unit_trigger_cycle u = with_state (\<lambda>s.
     if u_rack (rk_units s ! u) then modify rack_trigger_cycle else raise Null_Deref)"

definition unit_trigger_sync :: "nat \<Rightarrow> sync_flag \<Rightarrow> ('m, unit) act" where
  "unit_trigger_sync u flags =
     bind_act (if has_flag flags SF_upstream then modify (upd_unit u (\<lambda>z. z\<lparr>u_upstream := True\<rparr>))
               else ret ()) (\<lambda>_.
     with_state (\<lambda>s. if \<not> u_rack (rk_units s ! u) then ret ()
                     else modify (rack_trigger_sync flags)))"

section \<open>Following the links\<close>

text \<open>Where an output leads: nowhere when it is not connected, otherwise to the unit of the input
  (which could be null) and the number of the input. A pointer to no input is an error.\<close>

definition link_dest :: "nat \<Rightarrow> nat \<Rightarrow> 'm sio_rack \<Rightarrow> ((nat option \<times> nat) option) result" where
  "link_dest u k s =
     (let out = lk_outputs (rk_units s ! u) ! k in
      if \<not> lo_connected out then Inr None
      else case lo_to out of
        None \<Rightarrow> Inl Null_Deref
      | Some (v, j) \<Rightarrow>
          if length (rk_units s) \<le> v \<or> length (lk_inputs (rk_units s ! v)) \<le> j then Inl Null_Deref
          else let lin = lk_inputs (rk_units s ! v) ! j in Inr (Some (li_unit lin, li_id lin)))"

definition outputs_of :: "nat \<Rightarrow> 'm sio_rack \<Rightarrow> nat list" where
  "outputs_of u s = [0..<length (lk_outputs (rk_units s ! u))]"

text \<open>\<open>continue_sync\<close>, with the virtual call \<open>sync_line\<close> as its argument \<open>self\<close>.\<close>

type_synonym 'm sync_call = "nat \<Rightarrow> prof_loc \<Rightarrow> sync_flag \<Rightarrow> nat \<Rightarrow> ('m, unit) act"

definition sync_out :: "'m sync_call \<Rightarrow> nat \<Rightarrow> prof_loc \<Rightarrow> sync_flag \<Rightarrow> nat \<Rightarrow> ('m, unit) act" where
  "sync_out self u loc flags k = with_state (\<lambda>s.
     case link_dest u k s of
       Inl e \<Rightarrow> raise e
     | Inr (Some (Some v, i)) \<Rightarrow> self v loc flags i
     | Inr _ \<Rightarrow> ret ())"

definition continue_sync :: "'m sync_call \<Rightarrow> nat \<Rightarrow> prof_loc \<Rightarrow> sync_flag \<Rightarrow> ('m, unit) act" where
  "continue_sync self u loc flags = with_state (\<lambda>s. for_each (sync_out self u loc flags) (outputs_of u s))"

section \<open>The overrides of \<open>sync_line\<close>\<close>

definition call_resync :: "'m unit_methods \<Rightarrow> nat \<Rightarrow> sync_flag \<Rightarrow> ('m, unit) act" where
  "call_resync M u flags = bind_act (vm_resync M u flags) (\<lambda>_. ret ())"

definition unflush :: "sync_profile \<Rightarrow> sync_profile" where
  "unflush p = (if sp_state p = line_state_int Line_Flushing
                then p\<lparr>sp_state := line_state_int Line_Active\<rparr> else p)"

definition copy_global :: "sync_profile \<Rightarrow> sync_profile \<Rightarrow> sync_profile" where
  "copy_global p g =
     g\<lparr>sp_fs := sp_fs p, sp_channels := sp_channels p, sp_period := sp_period p,
       sp_state := sp_state p, sp_bpm := sp_bpm p, sp_fill := sp_fill p\<rparr>"

definition apply_here :: "nat \<Rightarrow> prof_loc \<Rightarrow> 'm sio_rack \<Rightarrow> 'm sio_rack" where
  "apply_here u loc s = upd_profile loc (apply_unit_profile (u_unit_profile (rk_units s ! u))) s"

definition unit_sync_line :: "'m unit_methods \<Rightarrow> 'm sync_call \<Rightarrow> 'm sync_call" where
  "unit_sync_line M self u loc flags line =
     (if has_flag flags SF_glob_sync then
        bind_act (modify (apply_here u loc)) (\<lambda>_.
        bind_act (modify (upd_profile loc unflush)) (\<lambda>_.
        bind_act (continue_sync self u loc flags) (\<lambda>_.
        bind_act (modify (\<lambda>s. upd_unit u
            (\<lambda>z. z\<lparr>u_global_profile := copy_global (load_profile loc s) (u_global_profile z)\<rparr>) s)) (\<lambda>_.
        call_resync M u flags))))
      else if has_flag flags SF_upstream then with_state (\<lambda>s.
        if u_upstream (rk_units s ! u) then
          bind_act (modify (upd_unit u (\<lambda>z. z\<lparr>u_upstream := False\<rparr>))) (\<lambda>_.
          bind_act (call_resync M u flags) (\<lambda>_.
          continue_sync self u (Loc_Unit u) flags))
        else
          bind_act (modify (\<lambda>s. upd_unit u (\<lambda>z. z\<lparr>u_unit_profile :=
              register_metric_int M_State (sp_state (load_profile loc s)) (u_unit_profile z)\<rparr>) s)) (\<lambda>_.
          continue_sync self u loc flags))
      else
        bind_act (if has_flag flags SF_source then ret () else modify (apply_here u loc)) (\<lambda>_.
        let flags' = (if has_flag flags SF_source then flags XOR SF_source else flags) in
        bind_act (continue_sync self u loc flags') (\<lambda>_.
        call_resync M u flags')))"

definition all_inactive :: "bool list \<Rightarrow> bool" where
  "all_inactive acts \<longleftrightarrow> list_all Not acts"

definition all_active :: "bool list \<Rightarrow> bool" where
  "all_active acts \<longleftrightarrow> list_all (\<lambda>a. a) acts"

definition init_input_states :: "sio_unit \<Rightarrow> sio_unit" where
  "init_input_states z = z\<lparr>u_input_state := replicate (length (lk_inputs z)) False\<rparr>"

definition input_active :: "nat \<Rightarrow> sio_unit \<Rightarrow> bool result" where
  "input_active i z =
     (if length (u_input_state z) \<le> i then Inr False
      else if lk_num_inputs z \<le> i then Inl Null_Deref
      else Inr (li_connected (lk_inputs z ! i) \<and> u_input_state z ! i))"

text \<open>The own work of \<open>combine\<close> on an upstream sync, as a function of the unit: the new unit, and
  whether the sync goes on down the line.\<close>

definition combine_upstream :: "int \<Rightarrow> nat \<Rightarrow> sio_unit \<Rightarrow> (sio_unit \<times> bool) result" where
  "combine_upstream state line z =
     bind_res (arr_set (u_input_state z) line (state = line_state_int Line_Active)) (\<lambda>acts.
       let z1 = z\<lparr>u_input_state := acts\<rparr>; global = sp_state (u_global_profile z) in
       if state = line_state_int Line_Active then
         (if global = line_state_int Line_Inactive then
            Inr (z1\<lparr>u_unit_profile :=
                   register_metric_int M_State (line_state_int Line_Active) (u_unit_profile z1)\<rparr>, True)
          else Inr (z1, False))
       else
         (if global = line_state_int Line_Active \<and> all_inactive acts then
            Inr (z1\<lparr>u_unit_profile :=
                   register_metric_int M_State (line_state_int Line_Inactive) (u_unit_profile z1)\<rparr>, True)
          else Inr (z1, False)))"

definition combine_sync_line :: "'m unit_methods \<Rightarrow> 'm sync_call \<Rightarrow> 'm sync_call" where
  "combine_sync_line M self u loc flags line =
     (if has_flag flags SF_upstream then with_state (\<lambda>s.
        case combine_upstream (sp_state (load_profile loc s)) line (rk_units s ! u) of
          Inl e \<Rightarrow> raise e
        | Inr (z, go) \<Rightarrow>
            bind_act (modify (upd_unit u (\<lambda>_. z))) (\<lambda>_.
            if go then continue_sync self u loc flags else ret ()))
      else unit_sync_line M self u loc flags line)"

definition dispatch_sync_line :: "'m unit_methods \<Rightarrow> 'm sync_call \<Rightarrow> 'm sync_call" where
  "dispatch_sync_line M self u loc flags line =
     (if has_flag flags SF_upstream then with_state (\<lambda>s.
        let state = sp_state (load_profile loc s) in
        if state \<noteq> sp_state (u_global_profile (rk_units s ! u)) then
          bind_act (modify (upd_unit u (\<lambda>z. z\<lparr>u_unit_profile :=
              register_metric_int M_State state (u_unit_profile z)\<rparr>))) (\<lambda>_.
          bind_act (unit_trigger_sync u SF_glob_sync) (\<lambda>_.
          if state = line_state_int Line_Active then unit_trigger_cycle u else ret ()))
        else ret ())
      else
        bind_act (modify (\<lambda>s. upd_profile loc (\<lambda>p.
            if sp_state p \<noteq> line_state_int Line_Flushing
            then p\<lparr>sp_state := sp_state (u_unit_profile (rk_units s ! u))\<rparr> else p) s)) (\<lambda>_.
        bind_act (if has_flag flags SF_glob_sync then modify (\<lambda>s. upd_profile loc (\<lambda>p.
            p\<lparr>sp_period := sp_period (u_unit_profile (rk_units s ! u))\<rparr>) s) else ret ()) (\<lambda>_.
        unit_sync_line M self u loc flags line)))"

definition mainline_sync_line :: "'m unit_methods \<Rightarrow> 'm sync_call \<Rightarrow> 'm sync_call" where
  "mainline_sync_line M self u loc flags line =
     (if has_flag flags SF_upstream then
        bind_act (with_state (\<lambda>s. if u_upstream (rk_units s ! u)
          then bind_act (modify (upd_unit u (\<lambda>z. z\<lparr>u_upstream := False\<rparr>))) (\<lambda>_. call_resync M u flags)
          else ret ())) (\<lambda>_.
        bind_act (modify (\<lambda>s. upd_profile loc (\<lambda>p.
            p\<lparr>sp_state := sp_state (u_unit_profile (rk_units s ! u))\<rparr>) s)) (\<lambda>_.
        continue_sync self u loc flags))
      else unit_sync_line M self u loc flags line)"

definition sync_virtual :: "'m unit_methods \<Rightarrow> 'm sync_call \<Rightarrow> 'm sync_call" where
  "sync_virtual M self u loc flags line = with_state (\<lambda>s.
     if length (rk_units s) \<le> u then raise Null_Deref
     else (case u_class (rk_units s ! u) of
         Plain_Class \<Rightarrow> unit_sync_line
       | Combine_Class \<Rightarrow> combine_sync_line
       | Dispatch_Class \<Rightarrow> dispatch_sync_line
       | Mainline_Class \<Rightarrow> mainline_sync_line) M self u loc flags line)"

primrec sync_line :: "'m unit_methods \<Rightarrow> nat \<Rightarrow> 'm sync_call" where
  "sync_line M 0 = (\<lambda>u loc flags line. raise Stack_Overflow)"
| "sync_line M (Suc depth) = sync_virtual M (sync_line M depth)"

section \<open>\<open>cycle_line\<close>\<close>

definition begin_line_sync :: "sync_profile \<Rightarrow> sync_profile" where
  "begin_line_sync p = p\<lparr>sp_state := line_state_int Line_Active, sp_period := 0, sp_drift := 0\<rparr>"

text \<open>The switch of \<open>cycle_line\<close>, and the loop over the outputs, whose results are dropped.\<close>

definition cycle_switch ::
    "'m unit_methods \<Rightarrow> 'm sync_call \<Rightarrow> nat \<Rightarrow> cycle_type \<Rightarrow> ('m, cycle_state) act" where
  "cycle_switch M sync u ty = (case ty of
       Cycle_Ac \<Rightarrow> with_state (\<lambda>s.
         if sp_state (u_line_profile (rk_units s ! u)) = line_state_int Line_Flushing then ret Complete
         else vm_cycle M u)
     | Cycle_Sync \<Rightarrow>
         bind_act (modify (upd_unit u (\<lambda>z. z\<lparr>u_line_profile := begin_line_sync (u_line_profile z)\<rparr>))) (\<lambda>_.
         bind_act (sync u (Loc_Line u) SF_source 0) (\<lambda>_. ret Complete))
     | Cycle_Warmup \<Rightarrow> with_state (\<lambda>s.
         if after_inactive (u_cstate (rk_units s ! u)) then ret Complete
         else bind_act (vm_init M u) (\<lambda>state.
           if state = Complete
           then bind_act (modify (upd_unit u (\<lambda>z. z\<lparr>u_cstate := Cmpt_Active\<rparr>))) (\<lambda>_. ret state)
           else ret state)))"

definition cycle_out ::
    "(nat \<Rightarrow> cycle_type \<Rightarrow> ('m, cycle_state) act) \<Rightarrow> nat \<Rightarrow> cycle_type \<Rightarrow> nat \<Rightarrow> ('m, unit) act" where
  "cycle_out self u ty k = with_state (\<lambda>s.
     case link_dest u k s of
       Inl e \<Rightarrow> raise e
     | Inr None \<Rightarrow> ret ()
     | Inr (Some (None, i)) \<Rightarrow> raise Null_Deref
     | Inr (Some (Some v, i)) \<Rightarrow> bind_act (self v ty) (\<lambda>_. ret ()))"

definition cycle_body ::
    "'m unit_methods \<Rightarrow> 'm sync_call \<Rightarrow> (nat \<Rightarrow> cycle_type \<Rightarrow> ('m, cycle_state) act)
      \<Rightarrow> nat \<Rightarrow> cycle_type \<Rightarrow> ('m, cycle_state) act" where
  "cycle_body M sync self u ty = with_state (\<lambda>s0.
     if length (rk_units s0) \<le> u then raise Null_Deref
     else bind_act (cycle_switch M sync u ty) (\<lambda>state.
       if after_complete state then ret state
       else with_state (\<lambda>s. bind_act (for_each (cycle_out self u ty) (outputs_of u s)) (\<lambda>_. ret state))))"

primrec cycle_line :: "'m unit_methods \<Rightarrow> nat \<Rightarrow> nat \<Rightarrow> cycle_type \<Rightarrow> ('m, cycle_state) act" where
  "cycle_line M 0 = (\<lambda>u ty. raise Stack_Overflow)"
| "cycle_line M (Suc depth) = cycle_body M (sync_line M depth) (cycle_line M depth)"

section \<open>The shape of the graph does not change during a walk\<close>

text \<open>What the walks read but never write: the links, the classes and the pointers to the rack.\<close>

definition unit_shape ::
    "sio_unit \<Rightarrow> link_in list \<times> link_out list \<times> unit_class \<times> bool" where
  "unit_shape z = (lk_inputs z, lk_outputs z, u_class z, u_rack z)"

definition rack_shape ::
    "'m sio_rack \<Rightarrow> (link_in list \<times> link_out list \<times> unit_class \<times> bool) list \<times> nat list" where
  "rack_shape s = (map unit_shape (rk_units s), rk_raw_mainlines s)"

definition keeps_shape :: "('m, 'a) act \<Rightarrow> bool" where
  "keeps_shape m \<longleftrightarrow> (\<forall>s. rack_shape (snd (m s)) = rack_shape s)"

definition resync_keeps_shape :: "'m unit_methods \<Rightarrow> bool" where
  "resync_keeps_shape M \<longleftrightarrow> (\<forall>u flags. keeps_shape (vm_resync M u flags))"

definition methods_keep_shape :: "'m unit_methods \<Rightarrow> bool" where
  "methods_keep_shape M \<longleftrightarrow> resync_keeps_shape M \<and> (\<forall>u. keeps_shape (vm_cycle M u))
     \<and> (\<forall>u. keeps_shape (vm_init M u))"

named_theorems shape_intros \<open>actions that keep the shape of the graph\<close>

lemma keeps_shapeI: "(\<And>s. rack_shape (snd (m s)) = rack_shape s) \<Longrightarrow> keeps_shape m"
  by (simp add: keeps_shape_def)

lemma keeps_shapeD: "keeps_shape m \<Longrightarrow> rack_shape (snd (m s)) = rack_shape s"
  by (simp add: keeps_shape_def)

lemma keeps_ret [shape_intros]: "keeps_shape (ret x)"
  by (simp add: keeps_shape_def ret_def)

lemma keeps_raise [shape_intros]: "keeps_shape (raise e)"
  by (simp add: keeps_shape_def raise_def)

lemma keeps_bind [shape_intros]:
  assumes "keeps_shape m" and "\<And>x. keeps_shape (f x)"
  shows "keeps_shape (bind_act m f)"
proof (rule keeps_shapeI)
  fix s
  obtain r s1 where m: "m s = (r, s1)" by fastforce
  have "rack_shape s1 = rack_shape s" using keeps_shapeD [OF assms(1), of s] m by simp
  then show "rack_shape (snd (bind_act m f s)) = rack_shape s"
    using keeps_shapeD [OF assms(2)] m by (auto simp: bind_act_def split: sum.splits)
qed

lemma keeps_modify [shape_intros]: "(\<And>s. rack_shape (f s) = rack_shape s) \<Longrightarrow> keeps_shape (modify f)"
  by (simp add: keeps_shape_def modify_def)

lemma keeps_with [shape_intros]: "(\<And>s. keeps_shape (f s)) \<Longrightarrow> keeps_shape (with_state f)"
  by (simp add: keeps_shape_def with_state_def)

lemma keeps_each: "(\<And>x. keeps_shape (f x)) \<Longrightarrow> keeps_shape (for_each f xs)"
  by (induction xs) (simp_all add: shape_intros)

lemma shape_upd_unit:
  assumes "\<And>z. unit_shape (f z) = unit_shape z"
  shows "rack_shape (upd_unit u f s) = rack_shape s"
proof -
  have "map unit_shape (upd_nth u f zs) = map unit_shape zs" for zs
    by (rule nth_equalityI) (simp_all add: upd_nth_nth assms)
  then show ?thesis by (simp add: rack_shape_def upd_unit_def)
qed

lemma shape_store [simp]: "rack_shape (store_profile loc p s) = rack_shape s"
  by (cases loc) (simp_all add: shape_upd_unit unit_shape_def, simp_all add: rack_shape_def)

lemma shape_upd_profile [simp]: "rack_shape (upd_profile loc f s) = rack_shape s"
  by (simp add: upd_profile_def)

lemma shape_apply_here [simp]: "rack_shape (apply_here u loc s) = rack_shape s"
  by (simp add: apply_here_def)

lemma shape_triggers [simp]:
  "rack_shape (rack_trigger_sync flags s) = rack_shape s"
  "rack_shape (rack_trigger_cycle s) = rack_shape s"
  by (simp_all add: rack_trigger_sync_def rack_trigger_cycle_def rack_shape_def)

lemma keeps_upd [shape_intros]:
  "(\<And>z. unit_shape (f z) = unit_shape z) \<Longrightarrow> keeps_shape (modify (upd_unit u f))"
  by (simp add: keeps_modify shape_upd_unit)

lemma keeps_trigger_cycle [shape_intros]: "keeps_shape (unit_trigger_cycle u)"
  by (auto simp: unit_trigger_cycle_def intro!: shape_intros)

lemma keeps_trigger_sync [shape_intros]: "keeps_shape (unit_trigger_sync u flags)"
  by (auto simp: unit_trigger_sync_def unit_shape_def intro!: shape_intros)

lemma keeps_continue [shape_intros]:
  assumes "\<And>v loc flags i. keeps_shape (self v loc flags i)"
  shows "keeps_shape (continue_sync self u loc flags)"
  unfolding continue_sync_def sync_out_def
  by (intro keeps_with keeps_each) (auto intro!: shape_intros assms split: sum.splits option.splits)

lemma keeps_resync [shape_intros]:
  "resync_keeps_shape M \<Longrightarrow> keeps_shape (call_resync M u flags)"
  by (auto simp: call_resync_def resync_keeps_shape_def intro!: shape_intros)

lemma combine_upstream_shape: "combine_upstream st line z = Inr (z', go) \<Longrightarrow> unit_shape z' = unit_shape z"
  by (auto simp: combine_upstream_def bind_res_eq_Inr unit_shape_def Let_def split: if_splits)

lemma keeps_unit_sync [shape_intros]:
  assumes "resync_keeps_shape M" and "\<And>v loc flags i. keeps_shape (self v loc flags i)"
  shows "keeps_shape (unit_sync_line M self u loc flags line)"
  using assms
  by (auto simp: unit_sync_line_def Let_def shape_upd_unit unit_shape_def intro!: shape_intros)

lemma keeps_combine_sync [shape_intros]:
  fixes M :: "'m unit_methods"
  assumes "resync_keeps_shape M" and "\<And>v loc flags i. keeps_shape (self v loc flags i)"
  shows "keeps_shape (combine_sync_line M self u loc flags line)"
proof (cases "has_flag flags SF_upstream")
  case False
  with assms show ?thesis by (simp add: combine_sync_line_def shape_intros)
next
  case True
  show ?thesis
  proof (rule keeps_shapeI)
    fix s :: "'m sio_rack"
    let ?c = "combine_upstream (sp_state (load_profile loc s)) line (rk_units s ! u)"
    show "rack_shape (snd (combine_sync_line M self u loc flags line s)) = rack_shape s"
    proof (cases ?c)
      case (Inl e)
      with True show ?thesis by (simp add: combine_sync_line_def with_state_def raise_def)
    next
      case (Inr r)
      obtain z go where r: "r = (z, go)" by (cases r)
      let ?s = "upd_unit u (\<lambda>_. z) s"
      have "map unit_shape (upd_nth u (\<lambda>_. z) (rk_units s)) = map unit_shape (rk_units s)"
        using combine_upstream_shape Inr r by (intro nth_equalityI) (auto simp: upd_nth_nth)
      then have sh: "rack_shape ?s = rack_shape s" by (simp add: rack_shape_def upd_unit_def)
      have "rack_shape (snd ((if go then continue_sync self u loc flags else ret ()) ?s)) = rack_shape ?s"
        by (rule keeps_shapeD) (auto intro!: shape_intros assms(2))
      with True Inr r sh show ?thesis
        by (simp add: combine_sync_line_def with_state_def bind_act_def modify_def)
    qed
  qed
qed

lemma keeps_dispatch_sync [shape_intros]:
  assumes "resync_keeps_shape M" and "\<And>v loc flags i. keeps_shape (self v loc flags i)"
  shows "keeps_shape (dispatch_sync_line M self u loc flags line)"
  using assms
  by (auto simp: dispatch_sync_line_def Let_def unit_shape_def intro!: shape_intros)

lemma keeps_mainline_sync [shape_intros]:
  assumes "resync_keeps_shape M" and "\<And>v loc flags i. keeps_shape (self v loc flags i)"
  shows "keeps_shape (mainline_sync_line M self u loc flags line)"
  using assms
  by (auto simp: mainline_sync_line_def unit_shape_def intro!: shape_intros)

lemma keeps_sync_line [shape_intros]:
  "resync_keeps_shape M \<Longrightarrow> keeps_shape (sync_line M n u loc flags line)"
proof (induction n arbitrary: u loc flags line)
  case 0
  then show ?case by (simp add: shape_intros)
next
  case (Suc n)
  then show ?case
    by (auto simp: sync_virtual_def intro!: shape_intros split: unit_class.splits)
qed

lemma keeps_cycle_switch [shape_intros]:
  assumes M: "methods_keep_shape M"
  shows "keeps_shape (cycle_switch M (sync_line M n) u ty)"
proof -
  have "keeps_shape (vm_cycle M u)" "keeps_shape (vm_init M u)" "resync_keeps_shape M"
    using M by (simp_all add: methods_keep_shape_def)
  then show ?thesis
    by (auto simp: cycle_switch_def unit_shape_def intro!: shape_intros split: cycle_type.splits)
qed

lemma keeps_cycle_line [shape_intros]:
  "methods_keep_shape M \<Longrightarrow> keeps_shape (cycle_line M n u ty)"
proof (induction n arbitrary: u ty)
  case 0
  then show ?case by (simp add: shape_intros)
next
  case (Suc n)
  have out: "keeps_shape (cycle_out (cycle_line M n) v ty k)" for v k
    using Suc by (auto simp: cycle_out_def intro!: shape_intros split: sum.splits option.splits)
  show ?case using Suc.prems
    by (auto simp: cycle_body_def intro!: shape_intros keeps_each out)
qed

section \<open>Termination on links without cycles\<close>

definition leads_to :: "'m sio_rack \<Rightarrow> nat \<Rightarrow> nat \<Rightarrow> bool" where
  "leads_to s u v \<longleftrightarrow> (\<exists>k < length (lk_outputs (rk_units s ! u)). \<exists>i.
     link_dest u k s = Inr (Some (Some v, i)))"

text \<open>A rank of the units that decreases along every link.\<close>

definition ranked :: "(nat \<Rightarrow> nat) \<Rightarrow> 'm sio_rack \<Rightarrow> bool" where
  "ranked rank s \<longleftrightarrow> (\<forall>u v. u < length (rk_units s) \<longrightarrow> leads_to s u v \<longrightarrow> rank v < rank u)"

lemma shape_unit:
  assumes "rack_shape s = rack_shape s'"
  shows "length (rk_units s) = length (rk_units s')"
    and "u < length (rk_units s) \<Longrightarrow> unit_shape (rk_units s ! u) = unit_shape (rk_units s' ! u)"
proof -
  have eq: "map unit_shape (rk_units s) = map unit_shape (rk_units s')"
    using assms by (simp add: rack_shape_def)
  then show l: "length (rk_units s) = length (rk_units s')" by (rule map_eq_imp_length_eq)
  show "unit_shape (rk_units s ! u) = unit_shape (rk_units s' ! u)" if "u < length (rk_units s)"
    using that l arg_cong [OF eq, of "\<lambda>xs. xs ! u"] by simp
qed

lemma shape_links:
  assumes "rack_shape s = rack_shape s'" and "u < length (rk_units s)"
  shows "lk_inputs (rk_units s ! u) = lk_inputs (rk_units s' ! u)"
    "lk_outputs (rk_units s ! u) = lk_outputs (rk_units s' ! u)"
    "u_class (rk_units s ! u) = u_class (rk_units s' ! u)"
    "u_rack (rk_units s ! u) = u_rack (rk_units s' ! u)"
  using shape_unit(2) [OF assms] by (simp_all add: unit_shape_def)

lemma link_dest_shape:
  assumes "rack_shape s = rack_shape s'" and "u < length (rk_units s)"
  shows "link_dest u k s = link_dest u k s'"
proof -
  have "lk_inputs (rk_units s ! v) = lk_inputs (rk_units s' ! v)" if "v < length (rk_units s)" for v
    using shape_links(1) [OF assms(1) that] .
  then show ?thesis
    using shape_links(2) [OF assms] shape_unit(1) [OF assms(1)]
    by (auto simp: link_dest_def Let_def split: option.splits)
qed

lemma leads_to_shape:
  assumes "rack_shape s = rack_shape s'" and "u < length (rk_units s)"
  shows "leads_to s u v = leads_to s' u v"
  using link_dest_shape [OF assms] shape_links(2) [OF assms] by (simp add: leads_to_def)

text \<open>Two actions agree on all states of a given shape, keep that shape and never run out of
  stack.\<close>

definition agree :: "'m sio_rack \<Rightarrow> ('m, 'a) act \<Rightarrow> ('m, 'a) act \<Rightarrow> bool" where
  "agree s0 m m' \<longleftrightarrow> (\<forall>s. rack_shape s = rack_shape s0 \<longrightarrow>
     m s = m' s \<and> rack_shape (snd (m s)) = rack_shape s0 \<and> fst (m s) \<noteq> Inl Stack_Overflow)"

lemma agreeD:
  assumes "agree s0 m m'" and "rack_shape s = rack_shape s0"
  shows "m s = m' s" "rack_shape (snd (m s)) = rack_shape s0" "fst (m s) \<noteq> Inl Stack_Overflow"
  using assms unfolding agree_def by blast+

lemma agree_refl: "keeps_shape m \<Longrightarrow> (\<And>s. fst (m s) \<noteq> Inl Stack_Overflow) \<Longrightarrow> agree s0 m m"
  by (simp add: agree_def keeps_shape_def)

lemma agree_ret: "agree s0 (ret x) (ret x)"
  by (simp add: agree_def ret_def)

lemma agree_raise: "e \<noteq> Stack_Overflow \<Longrightarrow> agree s0 (raise e) (raise e)"
  by (simp add: agree_def raise_def)

lemma agree_modify: "(\<And>s. rack_shape (f s) = rack_shape s) \<Longrightarrow> agree s0 (modify f) (modify f)"
  by (simp add: agree_def modify_def)

lemma agree_bind:
  fixes s0 :: "'m sio_rack"
  assumes "agree s0 m m'" and "\<And>x. agree s0 (f x) (f' x)"
  shows "agree s0 (bind_act m f) (bind_act m' f')"
  unfolding agree_def
proof (intro allI impI)
  fix s :: "'m sio_rack" assume s: "rack_shape s = rack_shape s0"
  note a = agreeD [OF assms(1) s]
  obtain r s1 where m: "m s = (r, s1)" "m' s = (r, s1)" using a(1) by (metis surj_pair)
  show "bind_act m f s = bind_act m' f' s \<and> rack_shape (snd (bind_act m f s)) = rack_shape s0
    \<and> fst (bind_act m f s) \<noteq> Inl Stack_Overflow"
  proof (cases r)
    case (Inl e)
    with a(2,3) m show ?thesis by (simp add: bind_act_def)
  next
    case (Inr x)
    with a(2) m have "rack_shape s1 = rack_shape s0" by simp
    note b = agreeD [OF assms(2) this, of x]
    with m Inr show ?thesis by (simp add: bind_act_def)
  qed
qed

lemma agree_with:
  "(\<And>s. rack_shape s = rack_shape s0 \<Longrightarrow> agree s0 (f s) (f' s)) \<Longrightarrow>
     agree s0 (with_state f) (with_state f')"
  unfolding agree_def with_state_def by blast

lemma agree_each:
  "(\<And>x. x \<in> set xs \<Longrightarrow> agree s0 (f x) (f' x)) \<Longrightarrow> agree s0 (for_each f xs) (for_each f' xs)"
  by (induction xs) (simp_all add: agree_ret agree_bind)

lemma agree_if:
  "(b \<Longrightarrow> agree s0 m m') \<Longrightarrow> (\<not> b \<Longrightarrow> agree s0 k k') \<Longrightarrow>
     agree s0 (if b then m else k) (if b then m' else k')"
  by simp

lemmas agree_intros = agree_ret agree_bind agree_with agree_if agree_modify

lemma agree_upd:
  "(\<And>z. unit_shape (f z) = unit_shape z) \<Longrightarrow> agree s0 (modify (upd_unit u f)) (modify (upd_unit u f))"
  by (simp add: agree_modify shape_upd_unit)

definition methods_bounded :: "'m unit_methods \<Rightarrow> bool" where
  "methods_bounded M \<longleftrightarrow> methods_keep_shape M
     \<and> (\<forall>u flags s. fst (vm_resync M u flags s) \<noteq> Inl Stack_Overflow)
     \<and> (\<forall>u s. fst (vm_cycle M u s) \<noteq> Inl Stack_Overflow)
     \<and> (\<forall>u s. fst (vm_init M u s) \<noteq> Inl Stack_Overflow)"

lemma agree_methods:
  assumes "methods_bounded M"
  shows "agree s0 (vm_resync M u flags) (vm_resync M u flags)" "agree s0 (vm_cycle M u) (vm_cycle M u)"
    "agree s0 (vm_init M u) (vm_init M u)"
  using assms
  by (auto simp: methods_bounded_def methods_keep_shape_def resync_keeps_shape_def intro!: agree_refl)

lemma agree_resync:
  "methods_bounded M \<Longrightarrow> agree s0 (call_resync M u flags) (call_resync M u flags)"
  by (auto simp: call_resync_def intro!: agree_intros agree_methods)

lemma agree_continue:
  assumes u: "u < length (rk_units s0)"
    and self: "\<And>v loc flags i. leads_to s0 u v \<Longrightarrow> agree s0 (self v loc flags i) (self' v loc flags i)"
  shows "agree s0 (continue_sync self u loc flags) (continue_sync self' u loc flags)"
  unfolding continue_sync_def
proof (rule agree_with, rule agree_each)
  fix s k assume s: "rack_shape s = rack_shape s0" and k: "k \<in> set (outputs_of u s)"
  have u': "u < length (rk_units s)" using u shape_unit(1) [OF s] by simp
  have k': "k < length (lk_outputs (rk_units s0 ! u))"
    using k shape_links(2) [OF s u'] by (simp add: outputs_of_def)
  show "agree s0 (sync_out self u loc flags k) (sync_out self' u loc flags k)"
    unfolding sync_out_def
  proof (rule agree_with)
    fix t assume t: "rack_shape t = rack_shape s0"
    have d: "link_dest u k t = link_dest u k s0"
      using link_dest_shape [OF t] u shape_unit(1) [OF t] by simp
    have ne: "link_dest u k s0 \<noteq> Inl Stack_Overflow"
      by (auto simp: link_dest_def Let_def split: option.splits)
    show "agree s0
        (case link_dest u k t of Inl e \<Rightarrow> raise e | Inr (Some (Some v, i)) \<Rightarrow> self v loc flags i
           | Inr _ \<Rightarrow> ret ())
        (case link_dest u k t of Inl e \<Rightarrow> raise e | Inr (Some (Some v, i)) \<Rightarrow> self' v loc flags i
           | Inr _ \<Rightarrow> ret ())"
      using ne k' unfolding d
      by (auto intro!: agree_raise agree_ret self split: sum.splits option.splits)
        (auto simp: leads_to_def)
  qed
qed

lemma agree_unit_sync:
  assumes M: "methods_bounded M" and u: "u < length (rk_units s0)"
    and self: "\<And>v loc flags i. leads_to s0 u v \<Longrightarrow> agree s0 (self v loc flags i) (self' v loc flags i)"
  shows "agree s0 (unit_sync_line M self u loc flags line) (unit_sync_line M self' u loc flags line)"
  unfolding unit_sync_line_def Let_def
  by (intro agree_intros agree_upd agree_resync [OF M] agree_continue [OF u self])
    (simp_all add: unit_shape_def shape_upd_unit)

lemma agree_triggers:
  "agree s0 (unit_trigger_cycle u) (unit_trigger_cycle u)"
  "agree s0 (unit_trigger_sync u flags) (unit_trigger_sync u flags)"
  unfolding unit_trigger_cycle_def unit_trigger_sync_def
  by (intro agree_intros agree_upd agree_raise; simp add: unit_shape_def)+

lemma agree_combine_sync:
  assumes M: "methods_bounded M" and u: "u < length (rk_units s0)"
    and self: "\<And>v loc flags i. leads_to s0 u v \<Longrightarrow> agree s0 (self v loc flags i) (self' v loc flags i)"
  shows "agree s0 (combine_sync_line M self u loc flags line) (combine_sync_line M self' u loc flags line)"
  unfolding combine_sync_line_def
proof (intro agree_if agree_with agree_unit_sync [OF M u self])
  fix s assume s: "rack_shape s = rack_shape s0"
  let ?c = "combine_upstream (sp_state (load_profile loc s)) line (rk_units s ! u)"
  show "agree s0
      (case ?c of Inl e \<Rightarrow> raise e | Inr (z, go) \<Rightarrow> bind_act (modify (upd_unit u (\<lambda>_. z)))
         (\<lambda>_. if go then continue_sync self u loc flags else ret ()))
      (case ?c of Inl e \<Rightarrow> raise e | Inr (z, go) \<Rightarrow> bind_act (modify (upd_unit u (\<lambda>_. z)))
         (\<lambda>_. if go then continue_sync self' u loc flags else ret ()))"
  proof (cases ?c)
    case (Inl e)
    then have "e \<noteq> Stack_Overflow"
      by (auto simp: combine_upstream_def bind_res_eq_Inl arr_set_def Let_def split: if_splits)
    with Inl show ?thesis by (simp add: agree_raise)
  next
    case (Inr r)
    obtain z go where r: "r = (z, go)" by (cases r)
    have z: "unit_shape z = unit_shape (rk_units s0 ! u)"
      using combine_upstream_shape [of _ _ _ z go] Inr r shape_unit(2) [OF s] shape_unit(1) [OF s] u
      by metis
    have "agree s0 (modify (upd_unit u (\<lambda>_. z))) (modify (upd_unit u (\<lambda>_. z)))"
      unfolding agree_def modify_def
    proof (intro allI impI conjI)
      fix t assume t: "rack_shape t = rack_shape s0"
      have "map unit_shape (upd_nth u (\<lambda>_. z) (rk_units t)) = map unit_shape (rk_units t)"
        using z u shape_unit [OF t] by (intro nth_equalityI) (auto simp: upd_nth_nth)
      then show "rack_shape (snd (Inr (), upd_unit u (\<lambda>_. z) t)) = rack_shape s0"
        using t by (simp add: rack_shape_def upd_unit_def)
    qed simp_all
    with Inr r show ?thesis
      by (auto intro!: agree_bind agree_if agree_ret agree_continue [OF u self])
  qed
qed

lemma agree_dispatch_sync:
  assumes M: "methods_bounded M" and u: "u < length (rk_units s0)"
    and self: "\<And>v loc flags i. leads_to s0 u v \<Longrightarrow> agree s0 (self v loc flags i) (self' v loc flags i)"
  shows "agree s0 (dispatch_sync_line M self u loc flags line) (dispatch_sync_line M self' u loc flags line)"
  unfolding dispatch_sync_line_def Let_def
  by (intro agree_intros agree_upd agree_triggers agree_unit_sync [OF M u self])
    (simp_all add: unit_shape_def)

lemma agree_mainline_sync:
  assumes M: "methods_bounded M" and u: "u < length (rk_units s0)"
    and self: "\<And>v loc flags i. leads_to s0 u v \<Longrightarrow> agree s0 (self v loc flags i) (self' v loc flags i)"
  shows "agree s0 (mainline_sync_line M self u loc flags line) (mainline_sync_line M self' u loc flags line)"
  unfolding mainline_sync_line_def
  by (intro agree_intros agree_upd agree_resync [OF M] agree_unit_sync [OF M u self]
      agree_continue [OF u self]) (simp_all add: unit_shape_def)

lemma agree_sync_line:
  fixes s0 :: "'m sio_rack"
  assumes M: "methods_bounded M" and r: "ranked rank s0" and "rank u < n" and "rank u < m"
  shows "agree s0 (sync_line M n u loc flags line) (sync_line M m u loc flags line)"
  using assms(3,4)
proof (induction n arbitrary: m u loc flags line)
  case 0
  then show ?case by simp
next
  case (Suc n)
  then obtain m' where m: "m = Suc m'" by (cases m) auto
  show ?case
  proof (cases "u < length (rk_units s0)")
    case True
    have self: "agree s0 (sync_line M n v loc flags i) (sync_line M m' v loc flags i)"
      if "leads_to s0 u v" for v loc flags i
    proof -
      have "rank v < rank u" using r True that by (simp add: ranked_def)
      with Suc.prems m show ?thesis by (intro Suc.IH) simp_all
    qed
    show ?thesis unfolding m sync_line.simps sync_virtual_def
    proof (rule agree_with)
      fix s assume s: "rack_shape s = rack_shape s0"
      show "agree s0
        (if length (rk_units s) \<le> u then raise Null_Deref
         else (case u_class (rk_units s ! u) of
             Plain_Class \<Rightarrow> unit_sync_line | Combine_Class \<Rightarrow> combine_sync_line
           | Dispatch_Class \<Rightarrow> dispatch_sync_line | Mainline_Class \<Rightarrow> mainline_sync_line)
           M (sync_line M n) u loc flags line)
        (if length (rk_units s) \<le> u then raise Null_Deref
         else (case u_class (rk_units s ! u) of
             Plain_Class \<Rightarrow> unit_sync_line | Combine_Class \<Rightarrow> combine_sync_line
           | Dispatch_Class \<Rightarrow> dispatch_sync_line | Mainline_Class \<Rightarrow> mainline_sync_line)
           M (sync_line M m') u loc flags line)"
        using True shape_unit(1) [OF s] agree_unit_sync [OF M True self]
          agree_combine_sync [OF M True self] agree_dispatch_sync [OF M True self]
          agree_mainline_sync [OF M True self]
        by (cases "u_class (rk_units s ! u)") simp_all
    qed
  next
    case False
    have "agree s0 (sync_line M (Suc j) u loc flags line) (raise Null_Deref)" for j
      unfolding agree_def
    proof (intro allI impI)
      fix s :: "'m sio_rack" assume s: "rack_shape s = rack_shape s0"
      have "length (rk_units s) \<le> u" using False shape_unit(1) [OF s] by simp
      then show "sync_line M (Suc j) u loc flags line s = raise Null_Deref s
        \<and> rack_shape (snd (sync_line M (Suc j) u loc flags line s)) = rack_shape s0
        \<and> fst (sync_line M (Suc j) u loc flags line s) \<noteq> Inl Stack_Overflow"
        using s by (simp add: sync_virtual_def with_state_def raise_def)
    qed
    then show ?thesis unfolding m agree_def by metis
  qed
qed

lemma agree_cycle_switch:
  assumes M: "methods_bounded M" and sync: "\<And>loc. agree s0 (sync u loc SF_source 0) (sync' u loc SF_source 0)"
  shows "agree s0 (cycle_switch M sync u ty) (cycle_switch M sync' u ty)"
proof (cases ty)
  case Cycle_Warmup
  then show ?thesis
    by (simp only: cycle_switch_def cycle_type.case)
      (intro agree_intros agree_upd agree_methods [OF M]; simp add: unit_shape_def)
next
  case Cycle_Sync
  then show ?thesis
    by (simp only: cycle_switch_def cycle_type.case)
      (intro agree_intros agree_upd sync; simp add: unit_shape_def)
next
  case Cycle_Ac
  then show ?thesis
    by (simp only: cycle_switch_def cycle_type.case)
      (intro agree_intros agree_methods [OF M])
qed

lemma agree_cycle_out:
  assumes u: "u < length (rk_units s0)" and k: "k < length (lk_outputs (rk_units s0 ! u))"
    and self: "\<And>v. leads_to s0 u v \<Longrightarrow> agree s0 (self v ty) (self' v ty)"
  shows "agree s0 (cycle_out self u ty k) (cycle_out self' u ty k)"
  unfolding cycle_out_def
proof (rule agree_with)
  fix t assume t: "rack_shape t = rack_shape s0"
  have d: "link_dest u k t = link_dest u k s0"
    using link_dest_shape [OF t] u shape_unit(1) [OF t] by simp
  have ne: "link_dest u k s0 \<noteq> Inl Stack_Overflow"
    by (auto simp: link_dest_def Let_def split: option.splits)
  have lt: "leads_to s0 u v" if "link_dest u k s0 = Inr (Some (Some v, i))" for v i
    using that k by (auto simp: leads_to_def)
  show "agree s0
      (case link_dest u k t of Inl e \<Rightarrow> raise e | Inr None \<Rightarrow> ret ()
         | Inr (Some (None, i)) \<Rightarrow> raise Null_Deref
         | Inr (Some (Some v, i)) \<Rightarrow> bind_act (self v ty) (\<lambda>_. ret ()))
      (case link_dest u k t of Inl e \<Rightarrow> raise e | Inr None \<Rightarrow> ret ()
         | Inr (Some (None, i)) \<Rightarrow> raise Null_Deref
         | Inr (Some (Some v, i)) \<Rightarrow> bind_act (self' v ty) (\<lambda>_. ret ()))"
    using ne lt unfolding d
    by (auto intro!: agree_raise agree_ret agree_bind self split: sum.splits option.splits)
qed

lemma agree_cycle_line:
  fixes s0 :: "'m sio_rack"
  assumes M: "methods_bounded M" and r: "ranked rank s0" and "Suc (rank u) < n" and "Suc (rank u) < m"
  shows "agree s0 (cycle_line M n u ty) (cycle_line M m u ty)"
  using assms(3,4)
proof (induction n arbitrary: m u)
  case 0
  then show ?case by simp
next
  case (Suc n)
  then obtain m' where m: "m = Suc m'" by (cases m) auto
  show ?case
  proof (cases "u < length (rk_units s0)")
    case True
    have self: "agree s0 (cycle_line M n v ty) (cycle_line M m' v ty)" if "leads_to s0 u v" for v
    proof -
      have "rank v < rank u" using r True that by (simp add: ranked_def)
      with Suc.prems m show ?thesis by (intro Suc.IH) simp_all
    qed
    have sync: "agree s0 (sync_line M n u loc SF_source 0) (sync_line M m' u loc SF_source 0)" for loc
      using Suc.prems m by (intro agree_sync_line [OF M r]) simp_all
    have out: "agree s0 (cycle_out (cycle_line M n) u ty k) (cycle_out (cycle_line M m') u ty k)"
      if "rack_shape s = rack_shape s0" "k \<in> set (outputs_of u s)" for s :: "'m sio_rack" and k
    proof (rule agree_cycle_out [OF True])
      show "k < length (lk_outputs (rk_units s0 ! u))"
        using that shape_links(2) [OF that(1)] shape_unit(1) [OF that(1)] True
        by (simp add: outputs_of_def)
    qed (rule self)
    have switch: "agree s0 (cycle_switch M (sync_line M n) u ty) (cycle_switch M (sync_line M m') u ty)"
      by (rule agree_cycle_switch [OF M]) (rule sync)
    show ?thesis unfolding m cycle_line.simps cycle_body_def
      by (intro agree_with agree_if agree_raise agree_bind switch agree_ret
          agree_each out) (simp_all only: sio_error.distinct not_False_eq_True)
  next
    case False
    have "agree s0 (cycle_line M (Suc j) u ty) (raise Null_Deref)" for j
      unfolding agree_def
    proof (intro allI impI)
      fix s :: "'m sio_rack" assume s: "rack_shape s = rack_shape s0"
      have "length (rk_units s) \<le> u" using False shape_unit(1) [OF s] by simp
      then show "cycle_line M (Suc j) u ty s = raise Null_Deref s
        \<and> rack_shape (snd (cycle_line M (Suc j) u ty s)) = rack_shape s0
        \<and> fst (cycle_line M (Suc j) u ty s) \<noteq> Inl Stack_Overflow"
        using s by (simp add: cycle_body_def with_state_def raise_def)
    qed
    then show ?thesis unfolding m agree_def by metis
  qed
qed

end
