(* ===== verification/Sync_Lines.thy ===== *)
theory Sync_Lines
  imports Unit_Graph
begin

text \<open>
  What the walks of \<open>Unit_Graph\<close> compute on a daisychain: a line of units of any class in which
  each unit has one connected output and the last one has none.

  The concrete units are assumed quiet (\<open>quiet_methods\<close>): their \<open>resync\<close> and \<open>cycle\<close> return, and
  change nothing but their own data. Under that hypothesis the three kinds of sync
  are computed exactly: a line sync folds the unit profiles into the profile that
  travels (\<open>chain_line\<close>), a global sync also publishes the result in every unit
  (\<open>chain_glob\<close>), an upstream sync carries the new state to the dispatch unit
  (\<open>chain_upstream\<close>).
\<close>

section \<open>Daisychains and quiet units\<close>

definition quiet_methods :: "'m unit_methods \<Rightarrow> bool" where
  "quiet_methods M \<longleftrightarrow>
     (\<forall>u flags s. \<exists>r x. vm_resync M u flags s = (Inr r, s\<lparr>rk_user := x\<rparr>))
   \<and> (\<forall>u s. \<exists>r x. vm_cycle M u s = (Inr r, s\<lparr>rk_user := x\<rparr>))"

definition sole_link :: "nat \<Rightarrow> nat \<Rightarrow> 'm sio_rack \<Rightarrow> bool" where
  "sole_link u v s \<longleftrightarrow> (\<exists>k < length (lk_outputs (rk_units s ! u)).
     (\<exists>i. link_dest u k s = Inr (Some (Some v, i)))
     \<and> (\<forall>j < length (lk_outputs (rk_units s ! u)). j \<noteq> k \<longrightarrow> link_dest u j s = Inr None))"

definition no_link :: "nat \<Rightarrow> 'm sio_rack \<Rightarrow> bool" where
  "no_link u s \<longleftrightarrow> (\<forall>k < length (lk_outputs (rk_units s ! u)). link_dest u k s = Inr None)"

fun daisychain :: "nat list \<Rightarrow> 'm sio_rack \<Rightarrow> bool" where
  "daisychain [] s = False"
| "daisychain [u] s = (u < length (rk_units s) \<and> no_link u s)"
| "daisychain (u # v # us) s =
     (u < length (rk_units s) \<and> sole_link u v s \<and> u \<notin> set (v # us) \<and> daisychain (v # us) s)"

lemma shape_user [simp]: "rack_shape (s\<lparr>rk_user := x\<rparr>) = rack_shape s"
  by (simp add: rack_shape_def)

lemma quietE:
  assumes "quiet_methods M"
  shows "\<exists>r x. vm_resync M u flags s = (Inr r, s\<lparr>rk_user := x\<rparr>)"
    and "\<exists>r x. vm_cycle M u s = (Inr r, s\<lparr>rk_user := x\<rparr>)"
  using assms unfolding quiet_methods_def by blast+

lemma quiet_resync:
  assumes "quiet_methods M"
  obtains x where "call_resync M u flags s = (Inr (), s\<lparr>rk_user := x\<rparr>)"
proof -
  obtain r x where "vm_resync M u flags s = (Inr r, s\<lparr>rk_user := x\<rparr>)"
    using quietE(1) [OF assms] by blast
  then show ?thesis using that by (simp add: call_resync_def act_defs)
qed

lemma quiet_step: "\<exists>r x. m = (Inr r, s\<lparr>rk_user := x\<rparr>) \<Longrightarrow>
    rack_shape (snd m) = rack_shape s \<and> fst m \<noteq> Inl Stack_Overflow"
  by auto

lemma quiet_keeps: "quiet_methods M \<Longrightarrow> resync_keeps_shape M"
  unfolding resync_keeps_shape_def keeps_shape_def using quiet_step [OF quietE(1)] by blast

lemma sole_link_shape:
  assumes "rack_shape s = rack_shape s'" and "u < length (rk_units s)"
  shows "sole_link u v s = sole_link u v s'" and "no_link u s = no_link u s'"
  using link_dest_shape [OF assms] shape_links(2) [OF assms]
  by (simp_all add: sole_link_def no_link_def)

lemma daisychain_shape:
  "rack_shape s = rack_shape s' \<Longrightarrow> daisychain us s = daisychain us s'"
proof (induction us rule: induct_list012)
  case 1
  then show ?case by simp
next
  case (2 u)
  then show ?case using shape_unit(1) [OF 2] sole_link_shape(2) [OF 2, of u] by auto
next
  case (3 u v us)
  then show ?case using shape_unit(1) [OF 3(3)] sole_link_shape(1) [OF 3(3), of u v] by auto
qed

lemma daisychain_lt: "daisychain us s \<Longrightarrow> u \<in> set us \<Longrightarrow> u < length (rk_units s)"
  by (induction us rule: induct_list012) auto

lemma daisychain_distinct: "daisychain us s \<Longrightarrow> distinct us"
  by (induction us rule: induct_list012) auto

lemma daisychain_tl: "daisychain (u # us) s \<Longrightarrow> us \<noteq> [] \<Longrightarrow> daisychain us s"
  by (cases us) auto

section \<open>Following the one link\<close>

lemma each_skip:
  "(\<And>x. x \<in> set xs \<Longrightarrow> f x s = (Inr (), s)) \<Longrightarrow> for_each f xs s = (Inr (), s)"
  by (induction xs) (simp_all add: act_defs)

lemma each_append:
  "for_each f (xs @ ys) s = bind_act (for_each f xs) (\<lambda>_. for_each f ys) s"
  by (induction xs arbitrary: s) (auto simp: act_defs split: sum.splits prod.splits)

text \<open>A loop over the outputs that does nothing for the unconnected ones is one call.\<close>

lemma each_sole:
  assumes k: "k < n" and f: "f k s = (Inr x, s1)"
    and before: "\<And>j. j < k \<Longrightarrow> f j s = (Inr (), s)"
    and after: "\<And>j. k < j \<Longrightarrow> j < n \<Longrightarrow> f j s1 = (Inr (), s1)"
  shows "for_each f [0..<n] s = (Inr (), s1)"
proof -
  have "[0..<n] = [0..<k] @ [k] @ [Suc k..<n]"
    using k by (metis append_Cons append_Nil le_add1 less_imp_le_nat upt_add_eq_append
        upt_conv_Cons add.left_neutral le_Suc_ex)
  moreover have "for_each f [0..<k] s = (Inr (), s)" by (rule each_skip) (simp add: before)
  moreover have "for_each f [Suc k..<n] s1 = (Inr (), s1)" by (rule each_skip) (simp add: after)
  ultimately show ?thesis using f by (simp add: each_append act_defs)
qed

lemma continue_none:
  assumes "no_link u s"
  shows "continue_sync self u loc flags s = (Inr (), s)"
proof -
  have "sync_out self u loc flags k s = (Inr (), s)" if "k \<in> set (outputs_of u s)" for k
    using assms that by (simp add: sync_out_def no_link_def outputs_of_def act_defs)
  then show ?thesis by (simp add: continue_sync_def with_state_def each_skip)
qed

lemma continue_sole:
  assumes "sole_link u v s" and u: "u < length (rk_units s)"
  shows "\<exists>i. \<forall>s1. self v loc flags i s = (Inr (), s1) \<longrightarrow> rack_shape s1 = rack_shape s \<longrightarrow>
    continue_sync self u loc flags s = (Inr (), s1)"
proof -
  obtain k i where k: "k < length (lk_outputs (rk_units s ! u))"
    "link_dest u k s = Inr (Some (Some v, i))"
    "\<And>j. j < length (lk_outputs (rk_units s ! u)) \<Longrightarrow> j \<noteq> k \<Longrightarrow> link_dest u j s = Inr None"
    using assms(1) by (auto simp: sole_link_def)
  have "continue_sync self u loc flags s = (Inr (), s1)"
    if self: "self v loc flags i s = (Inr (), s1)" and sh: "rack_shape s1 = rack_shape s" for s1
  proof -
    have u1: "u < length (rk_units s1)" using u shape_unit(1) [OF sh] by simp
    have "for_each (sync_out self u loc flags) [0..<length (lk_outputs (rk_units s ! u))] s = (Inr (), s1)"
    proof (rule each_sole [OF k(1)])
      show "sync_out self u loc flags k s = (Inr (), s1)"
        using k(2) self by (simp add: sync_out_def with_state_def)
      show "sync_out self u loc flags j s = (Inr (), s)" if "j < k" for j
        using that k(1) k(3) [of j] by (simp add: sync_out_def act_defs)
      show "sync_out self u loc flags j s1 = (Inr (), s1)"
        if "k < j" "j < length (lk_outputs (rk_units s ! u))" for j
        using that k(3) [of j] link_dest_shape [OF sh u1] by (simp add: sync_out_def act_defs)
    qed
    then show ?thesis by (simp add: continue_sync_def with_state_def outputs_of_def)
  qed
  then show ?thesis by blast
qed

section \<open>Locations that no unit profile shares\<close>

fun own_loc :: "prof_loc \<Rightarrow> bool" where
  "own_loc (Loc_Unit u) = False"
| "own_loc _ = True"

fun loc_in :: "prof_loc \<Rightarrow> 'm sio_rack \<Rightarrow> bool" where
  "loc_in (Loc_Line u) s = (u < length (rk_units s))"
| "loc_in (Loc_Unit u) s = (u < length (rk_units s))"
| "loc_in _ s = True"

lemma length_units [simp]:
  "length (rk_units (upd_unit u f s)) = length (rk_units s)"
  "length (rk_units (store_profile loc p s)) = length (rk_units s)"
  by (cases loc; simp add: upd_unit_def)+

lemma upd_unit_nth:
  "v < length (rk_units s) \<Longrightarrow>
     rk_units (upd_unit u f s) ! v = (if v = u then f (rk_units s ! v) else rk_units s ! v)"
  by (simp add: upd_unit_def upd_nth_nth)

lemma loc_in_store [simp]: "loc_in l (store_profile loc p s) = loc_in l s"
  by (cases l) simp_all

lemma loc_in_user [simp]: "loc_in l (s\<lparr>rk_user := x\<rparr>) = loc_in l s"
  by (cases l) simp_all

lemma load_store: "loc_in loc s \<Longrightarrow> load_profile loc (store_profile loc p s) = p"
  by (cases loc) (simp_all add: upd_unit_nth)

lemma store_store: "store_profile loc p (store_profile loc q s) = store_profile loc p s"
proof -
  have "upd_nth u f (upd_nth u g xs) = upd_nth u (\<lambda>z. f (g z)) xs" for f g u and xs :: "sio_unit list"
    by (cases "u < length xs") (simp_all add: upd_nth_def list_update_beyond)
  then show ?thesis by (cases loc) (simp_all add: upd_unit_def)
qed

lemma store_same: "loc_in loc s \<Longrightarrow> store_profile loc (load_profile loc s) s = s"
  by (cases loc) (simp_all add: upd_unit_def upd_nth_def)

lemma store_unit_fields:
  assumes "own_loc loc" and "v < length (rk_units s)"
  shows "u_unit_profile (rk_units (store_profile loc p s) ! v) = u_unit_profile (rk_units s ! v)"
    "u_global_profile (rk_units (store_profile loc p s) ! v) = u_global_profile (rk_units s ! v)"
    "u_class (rk_units (store_profile loc p s) ! v) = u_class (rk_units s ! v)"
    "u_upstream (rk_units (store_profile loc p s) ! v) = u_upstream (rk_units s ! v)"
  using assms by (cases loc; auto simp: upd_unit_nth)+

lemma user_store: "(store_profile loc p s)\<lparr>rk_user := x\<rparr> = store_profile loc p (s\<lparr>rk_user := x\<rparr>)"
  by (cases loc) (simp_all add: upd_unit_def)

lemma store_user_user: "store_profile loc p (s\<lparr>rk_user := x, rk_user := y\<rparr>) = store_profile loc p (s\<lparr>rk_user := y\<rparr>)"
  by simp

lemma upd_profile_eq: "upd_profile loc f s = store_profile loc (f (load_profile loc s)) s"
  by (simp add: upd_profile_def)

lemma load_user [simp]: "load_profile loc (s\<lparr>rk_user := x\<rparr>) = load_profile loc s"
  by (cases loc) simp_all

section \<open>The line sync\<close>

text \<open>What a unit does to the profile of a line sync that passes it.\<close>

definition line_pass :: "sio_unit \<Rightarrow> sync_profile \<Rightarrow> sync_profile" where
  "line_pass z p = apply_unit_profile (u_unit_profile z)
     (if u_class z = Dispatch_Class \<and> sp_state p \<noteq> line_state_int Line_Flushing
      then p\<lparr>sp_state := sp_state (u_unit_profile z)\<rparr> else p)"

definition plain_flags :: "sync_flag \<Rightarrow> bool" where
  "plain_flags flags \<longleftrightarrow> \<not> has_flag flags SF_glob_sync \<and> \<not> has_flag flags SF_upstream
     \<and> \<not> has_flag flags SF_source"

lemma unit_sync_plain:
  assumes "plain_flags flags"
  shows "unit_sync_line M self u loc flags line =
    bind_act (modify (apply_here u loc)) (\<lambda>_. bind_act (continue_sync self u loc flags)
      (\<lambda>_. call_resync M u flags))"
  using assms by (simp add: unit_sync_line_def plain_flags_def Let_def)

lemma virtual_plain:
  assumes f: "plain_flags flags" and u: "u < length (rk_units s)"
    and l: "own_loc loc" "loc_in loc s"
  shows "sync_virtual M self u loc flags line s =
    bind_act (continue_sync self u loc flags) (\<lambda>_. call_resync M u flags)
      (store_profile loc (line_pass (rk_units s ! u) (load_profile loc s)) s)"
proof -
  have one: "unit_sync_line M self u loc flags line t =
      bind_act (continue_sync self u loc flags) (\<lambda>_. call_resync M u flags)
        (store_profile loc (apply_unit_profile (u_unit_profile (rk_units t ! u)) (load_profile loc t)) t)"
    for t
    by (simp add: unit_sync_plain [OF f] apply_here_def upd_profile_eq act_defs)
  have nf: "\<not> has_flag flags SF_glob_sync" "\<not> has_flag flags SF_upstream"
    using f by (simp_all add: plain_flags_def)
  show ?thesis
  proof (cases "u_class (rk_units s ! u)")
    case Dispatch_Class
    then show ?thesis
      using u l nf
      by (simp add: sync_virtual_def dispatch_sync_line_def with_state_def line_pass_def one
          upd_profile_eq modify_def bind_act_def ret_def load_store store_store store_unit_fields)
  qed (use u nf in \<open>simp_all add: sync_virtual_def combine_sync_line_def mainline_sync_line_def
        with_state_def line_pass_def one\<close>)
qed

lemma chain_line:
  fixes s :: "'m sio_rack"
  assumes q: "quiet_methods M" and f: "plain_flags flags" and own: "own_loc loc"
  shows "daisychain us s \<Longrightarrow> loc_in loc s \<Longrightarrow> length us \<le> n \<Longrightarrow>
    \<exists>x. sync_line M n (hd us) loc flags line s = (Inr (),
      store_profile loc (fold (\<lambda>u. line_pass (rk_units s ! u)) us (load_profile loc s))
        (s\<lparr>rk_user := x\<rparr>))"
proof (induction us arbitrary: s n line rule: induct_list012)
  case 1
  then show ?case by simp
next
  case (2 u)
  then obtain m where n: "n = Suc m" by (cases n) auto
  from 2 have u: "u < length (rk_units s)" "no_link u s" by simp_all
  let ?s1 = "store_profile loc (line_pass (rk_units s ! u) (load_profile loc s)) s"
  have "no_link u ?s1" using sole_link_shape(2) [of ?s1 s u] u by simp
  note c = continue_none [OF this]
  obtain x where x: "call_resync M u flags ?s1 = (Inr (), ?s1\<lparr>rk_user := x\<rparr>)"
    using quiet_resync [OF q] .
  show ?case
    using virtual_plain [OF f u(1) own "2.prems"(2)] c x
    by (simp add: n bind_act_def user_store) blast
next
  case (3 u v us)
  then obtain m where n: "n = Suc m" by (cases n) auto
  from "3.prems" have u: "u < length (rk_units s)" "sole_link u v s" "daisychain (v # us) s"
    "u \<notin> set (v # us)" by simp_all
  let ?s1 = "store_profile loc (line_pass (rk_units s ! u) (load_profile loc s)) s"
  have sh: "rack_shape ?s1 = rack_shape s" by simp
  have d1: "daisychain (v # us) ?s1" "sole_link u v ?s1"
    using u daisychain_shape [OF sh] sole_link_shape(1) [OF sh] by simp_all
  have units: "u_unit_profile (rk_units ?s1 ! w) = u_unit_profile (rk_units s ! w)
      \<and> u_class (rk_units ?s1 ! w) = u_class (rk_units s ! w)" if "w \<in> set (v # us)" for w
    using store_unit_fields [OF own daisychain_lt [OF u(3) that]] by simp
  have pass: "line_pass (rk_units ?s1 ! w) = line_pass (rk_units s ! w)" if "w \<in> set (v # us)" for w
    using units [OF that] by (simp add: line_pass_def fun_eq_iff)
  let ?p = "fold (\<lambda>u. line_pass (rk_units s ! u)) (v # us) (line_pass (rk_units s ! u) (load_profile loc s))"
  have folds: "fold (\<lambda>u. line_pass (rk_units ?s1 ! u)) (v # us) (load_profile loc ?s1) = ?p"
    using pass "3.prems"(2) by (intro fold_cong) (simp_all add: load_store)
  obtain i where i: "\<And>s2. sync_line M m v loc flags i ?s1 = (Inr (), s2) \<Longrightarrow>
      rack_shape s2 = rack_shape ?s1 \<Longrightarrow> continue_sync (sync_line M m) u loc flags ?s1 = (Inr (), s2)"
    using continue_sole [OF d1(2)] u(1) by (metis length_units(2))
  obtain x where "sync_line M m v loc flags i ?s1 = (Inr (), store_profile loc ?p (?s1\<lparr>rk_user := x\<rparr>))"
    using "3.IH"(2) [OF d1(1), of m i] "3.prems"(2,3) folds by (auto simp: n)
  then have c: "continue_sync (sync_line M m) u loc flags ?s1
      = (Inr (), store_profile loc ?p (?s1\<lparr>rk_user := x\<rparr>))"
    by (rule i) simp
  obtain y where "call_resync M u flags (store_profile loc ?p (?s1\<lparr>rk_user := x\<rparr>))
      = (Inr (), (store_profile loc ?p (?s1\<lparr>rk_user := x\<rparr>))\<lparr>rk_user := y\<rparr>)"
    using quiet_resync [OF q] .
  with virtual_plain [OF f u(1) own "3.prems"(2)] c
  show ?case by (simp add: n bind_act_def user_store store_store) blast
qed

section \<open>The global sync\<close>

definition dispatch_glob :: "sync_profile \<Rightarrow> sync_profile \<Rightarrow> sync_profile" where
  "dispatch_glob u p =
     (if sp_state p \<noteq> line_state_int Line_Flushing then p\<lparr>sp_state := sp_state u\<rparr> else p)
       \<lparr>sp_period := sp_period u\<rparr>"

definition glob_pass :: "sio_unit \<Rightarrow> sync_profile \<Rightarrow> sync_profile" where
  "glob_pass z p = unflush (apply_unit_profile (u_unit_profile z)
     (if u_class z = Dispatch_Class then dispatch_glob (u_unit_profile z) p else p))"

text \<open>The state after \<open>f\<close> has been applied to the units \<open>us\<close>; \<open>publish\<close> is the case where they
  copy the profile \<open>p\<close> into their global profile.\<close>

definition on_units :: "nat list \<Rightarrow> (sio_unit \<Rightarrow> sio_unit) \<Rightarrow> 'm sio_rack \<Rightarrow> 'm sio_rack" where
  "on_units us f s = s\<lparr>rk_units := map (\<lambda>i. if i \<in> set us then f (rk_units s ! i)
       else rk_units s ! i) [0..<length (rk_units s)]\<rparr>"

definition take_global :: "sync_profile \<Rightarrow> sio_unit \<Rightarrow> sio_unit" where
  "take_global p z = z\<lparr>u_global_profile := copy_global p (u_global_profile z)\<rparr>"

abbreviation publish :: "nat list \<Rightarrow> sync_profile \<Rightarrow> 'm sio_rack \<Rightarrow> 'm sio_rack" where
  "publish us p \<equiv> on_units us (take_global p)"

lemma length_on_units [simp]: "length (rk_units (on_units us f s)) = length (rk_units s)"
  by (simp add: on_units_def)

lemma on_units_nth:
  "v < length (rk_units s) \<Longrightarrow> rk_units (on_units us f s) ! v
     = (if v \<in> set us then f (rk_units s ! v) else rk_units s ! v)"
  by (simp add: on_units_def)

lemma on_units_Cons:
  assumes "u \<notin> set us"
  shows "upd_unit u f (on_units us f s) = on_units (u # us) f s"
    and "on_units us f (upd_unit u f s) = on_units (u # us) f s"
proof -
  have "upd_nth u f (map (\<lambda>i. if i \<in> set us then f (zs ! i) else zs ! i) [0..<length zs])
     = map (\<lambda>i. if i \<in> set (u # us) then f (zs ! i) else zs ! i) [0..<length zs]" for zs
    using assms by (intro nth_equalityI) (auto simp: upd_nth_nth)
  then show "upd_unit u f (on_units us f s) = on_units (u # us) f s"
    by (simp add: upd_unit_def on_units_def)
  have "map (\<lambda>i. if i \<in> set us then f (upd_nth u f zs ! i) else upd_nth u f zs ! i) [0..<length zs]
     = map (\<lambda>i. if i \<in> set (u # us) then f (zs ! i) else zs ! i) [0..<length zs]" for zs
    using assms by (intro nth_equalityI) (auto simp: upd_nth_nth)
  from this [of "rk_units s"] show "on_units us f (upd_unit u f s) = on_units (u # us) f s"
    by (simp add: upd_unit_def on_units_def del: map_eq_conv cong: if_cong)
qed

lemmas publish_Cons = on_units_Cons(1) [of _ _ "take_global p" for p]

lemma on_units_Nil [simp]: "on_units [] f s = s"
  by (simp add: on_units_def map_nth)

lemma upd_unit_commute:
  assumes "\<And>z. f (g z) = g (f z)"
  shows "upd_unit u f (upd_unit v g s) = upd_unit v g (upd_unit u f s)"
proof -
  have "upd_nth u f (upd_nth v g xs) = upd_nth v g (upd_nth u f xs)" for xs
    using assms by (intro nth_equalityI) (auto simp: upd_nth_nth)
  then show ?thesis by (simp add: upd_unit_def)
qed

lemma store_take_global:
  assumes "own_loc loc"
  shows "upd_unit u (take_global p) (store_profile loc q s)
    = store_profile loc q (upd_unit u (take_global p) s)"
proof (cases loc)
  case (Loc_Line v)
  then show ?thesis
    using upd_unit_commute [of "take_global p" "\<lambda>z. z\<lparr>u_line_profile := q\<rparr>"]
    by (simp add: take_global_def)
qed (use assms in \<open>simp_all add: upd_unit_def\<close>)

lemma store_publish:
  assumes "own_loc loc"
  shows "publish us p (store_profile loc q s) = store_profile loc q (publish us p s)"
proof (cases loc)
  case (Loc_Line v)
  have "map (\<lambda>i. if i \<in> set us then take_global p (upd_nth v (\<lambda>z. z\<lparr>u_line_profile := q\<rparr>) zs ! i)
          else upd_nth v (\<lambda>z. z\<lparr>u_line_profile := q\<rparr>) zs ! i) [0..<length zs]
     = upd_nth v (\<lambda>z. z\<lparr>u_line_profile := q\<rparr>)
         (map (\<lambda>i. if i \<in> set us then take_global p (zs ! i) else zs ! i) [0..<length zs])" for zs
    by (intro nth_equalityI) (auto simp: upd_nth_nth take_global_def)
  from this [of "rk_units s"] Loc_Line show ?thesis
    by (simp add: on_units_def upd_unit_def del: map_eq_conv cong: if_cong)
qed (use assms in \<open>simp_all add: on_units_def\<close>)

lemma on_units_user [simp]: "(on_units us f s)\<lparr>rk_user := x\<rparr> = on_units us f (s\<lparr>rk_user := x\<rparr>)"
  by (simp add: on_units_def)

lemma shape_on_units:
  assumes "\<And>z. unit_shape (f z) = unit_shape z"
  shows "rack_shape (on_units us f s) = rack_shape s"
proof -
  have "map unit_shape (map (\<lambda>i. if i \<in> set us then f (zs ! i) else zs ! i) [0..<length zs])
      = map unit_shape zs" for zs
    by (intro nth_equalityI) (auto simp: assms)
  then show ?thesis by (simp add: rack_shape_def on_units_def)
qed

lemma shape_publish [simp]: "rack_shape (publish us p s) = rack_shape s"
  by (rule shape_on_units) (simp add: take_global_def unit_shape_def)

lemma loc_in_on_units [simp]: "loc_in l (on_units us f s) = loc_in l s"
  by (cases l) simp_all

definition glob_flags :: "sync_flag \<Rightarrow> bool" where
  "glob_flags flags \<longleftrightarrow> has_flag flags SF_glob_sync \<and> \<not> has_flag flags SF_upstream"

lemma virtual_glob:
  assumes f: "glob_flags flags" and u: "u < length (rk_units s)"
    and l: "own_loc loc" "loc_in loc s"
  shows "sync_virtual M self u loc flags line s =
    bind_act (continue_sync self u loc flags) (\<lambda>_.
      bind_act (modify (\<lambda>t. upd_unit u (take_global (load_profile loc t)) t)) (\<lambda>_. call_resync M u flags))
      (store_profile loc (glob_pass (rk_units s ! u) (load_profile loc s)) s)"
proof -
  have f': "has_flag flags SF_glob_sync" "\<not> has_flag flags SF_upstream"
    using f by (simp_all add: glob_flags_def)
  have one: "unit_sync_line M self u loc flags line t =
      bind_act (continue_sync self u loc flags) (\<lambda>_.
        bind_act (modify (\<lambda>t. upd_unit u (take_global (load_profile loc t)) t)) (\<lambda>_. call_resync M u flags))
      (store_profile loc (unflush (apply_unit_profile (u_unit_profile (rk_units t ! u)) (load_profile loc t))) t)"
    if "loc_in loc t" for t
    using f' that
    by (simp add: unit_sync_line_def apply_here_def upd_profile_eq act_defs load_store store_store
        take_global_def [abs_def])
  show ?thesis
  proof (cases "u_class (rk_units s ! u)")
    case Dispatch_Class
    then show ?thesis
      using u l f'
      by (simp add: sync_virtual_def dispatch_sync_line_def with_state_def glob_pass_def one
          upd_profile_eq modify_def bind_act_def ret_def load_store store_store store_unit_fields
          dispatch_glob_def)
  qed (use u f' l(2) in \<open>simp_all add: sync_virtual_def combine_sync_line_def mainline_sync_line_def
        with_state_def glob_pass_def one\<close>)
qed

lemma chain_glob:
  fixes s :: "'m sio_rack"
  assumes q: "quiet_methods M" and f: "glob_flags flags" and own: "own_loc loc"
  shows "daisychain us s \<Longrightarrow> loc_in loc s \<Longrightarrow> length us \<le> n \<Longrightarrow>
    p = fold (\<lambda>u. glob_pass (rk_units s ! u)) us (load_profile loc s) \<Longrightarrow>
    \<exists>x. sync_line M n (hd us) loc flags line s = (Inr (),
      store_profile loc p (publish us p (s\<lparr>rk_user := x\<rparr>)))"
proof (induction us arbitrary: s n line rule: induct_list012)
  case 1
  then show ?case by simp
next
  case (2 u)
  then obtain m where n: "n = Suc m" by (cases n) auto
  from 2 have u: "u < length (rk_units s)" "no_link u s"
    and p: "p = glob_pass (rk_units s ! u) (load_profile loc s)" by simp_all
  let ?s1 = "store_profile loc p s"
  have "no_link u ?s1" using sole_link_shape(2) [of ?s1 s u] u by simp
  note c = continue_none [OF this]
  have t: "upd_unit u (take_global (load_profile loc ?s1)) ?s1 = store_profile loc p (publish [u] p s)"
    using "2.prems"(2) publish_Cons [of u "[]" p s] by (simp add: load_store store_take_global [OF own])
  obtain x where "call_resync M u flags (store_profile loc p (publish [u] p s))
      = (Inr (), (store_profile loc p (publish [u] p s))\<lparr>rk_user := x\<rparr>)"
    using quiet_resync [OF q] .
  with t c show ?case
    using virtual_glob [OF f u(1) own "2.prems"(2)] p
    by (simp add: n bind_act_def modify_def user_store) blast
next
  case (3 u v us)
  then obtain m where n: "n = Suc m" by (cases n) auto
  from "3.prems" have u: "u < length (rk_units s)" "sole_link u v s" "daisychain (v # us) s"
    "u \<notin> set (v # us)" by simp_all
  let ?s1 = "store_profile loc (glob_pass (rk_units s ! u) (load_profile loc s)) s"
  have sh: "rack_shape ?s1 = rack_shape s" by simp
  have d1: "daisychain (v # us) ?s1" "sole_link u v ?s1"
    using u daisychain_shape [OF sh] sole_link_shape(1) [OF sh] by simp_all
  have "glob_pass (rk_units ?s1 ! w) = glob_pass (rk_units s ! w)" if "w \<in> set (v # us)" for w
    using store_unit_fields [OF own daisychain_lt [OF u(3) that]]
    by (simp add: glob_pass_def fun_eq_iff)
  then have folds: "p = fold (\<lambda>u. glob_pass (rk_units ?s1 ! u)) (v # us) (load_profile loc ?s1)"
    using "3.prems"(2,4) by (simp add: load_store cong: fold_cong)
  obtain i where i: "\<And>s2. sync_line M m v loc flags i ?s1 = (Inr (), s2) \<Longrightarrow>
      rack_shape s2 = rack_shape ?s1 \<Longrightarrow> continue_sync (sync_line M m) u loc flags ?s1 = (Inr (), s2)"
    using continue_sole [OF d1(2)] u(1) by (metis length_units(2))
  obtain x where "sync_line M m v loc flags i ?s1
      = (Inr (), store_profile loc p (publish (v # us) p (?s1\<lparr>rk_user := x\<rparr>)))"
    using "3.IH"(2) [OF d1(1) _ _ folds, of m i] "3.prems"(2,3) by (auto simp: n)
  then have c: "continue_sync (sync_line M m) u loc flags ?s1
      = (Inr (), store_profile loc p (publish (v # us) p (?s1\<lparr>rk_user := x\<rparr>)))"
    by (rule i) simp
  have e: "store_profile loc p (publish (v # us) p (?s1\<lparr>rk_user := x\<rparr>))
      = store_profile loc p (publish (v # us) p (s\<lparr>rk_user := x\<rparr>))"
    by (simp add: user_store store_publish [OF own] store_store)
  have t: "upd_unit u (take_global p) (store_profile loc p (publish (v # us) p (s\<lparr>rk_user := x\<rparr>)))
      = store_profile loc p (publish (u # v # us) p (s\<lparr>rk_user := x\<rparr>))"
    using publish_Cons [OF u(4), of p "s\<lparr>rk_user := x\<rparr>"] by (simp add: store_take_global [OF own])
  obtain y where "call_resync M u flags (store_profile loc p (publish (u # v # us) p (s\<lparr>rk_user := x\<rparr>)))
      = (Inr (), (store_profile loc p (publish (u # v # us) p (s\<lparr>rk_user := x\<rparr>)))\<lparr>rk_user := y\<rparr>)"
    using quiet_resync [OF q] .
  with virtual_glob [OF f u(1) own "3.prems"(2)] c [unfolded e] t "3.prems"(2)
  show ?case by (simp add: n bind_act_def modify_def load_store user_store) blast
qed

section \<open>The upstream sync\<close>

definition set_state :: "int \<Rightarrow> sio_unit \<Rightarrow> sio_unit" where
  "set_state st z = z\<lparr>u_unit_profile := register_metric_int M_State st (u_unit_profile z)\<rparr>"

text \<open>What the dispatch unit \<open>d\<close> at the end of the line does with the state that reaches it.\<close>

definition accept_state :: "nat \<Rightarrow> int \<Rightarrow> 'm sio_rack \<Rightarrow> 'm sio_rack" where
  "accept_state d st s =
     (if st \<noteq> sp_state (u_global_profile (rk_units s ! d)) then
        (let s1 = rack_trigger_sync SF_glob_sync (upd_unit d (set_state st) s)
         in if st = line_state_int Line_Active then rack_trigger_cycle s1 else s1)
      else s)"

definition up_flags :: "sync_flag \<Rightarrow> bool" where
  "up_flags flags \<longleftrightarrow> has_flag flags SF_upstream \<and> \<not> has_flag flags SF_glob_sync"

lemma load_set_state:
  assumes "own_loc loc"
  shows "load_profile loc (upd_unit u (set_state st) s) = load_profile loc s"
  using assms
  by (cases loc) (auto simp: upd_unit_def set_state_def upd_nth_def nth_list_update_eq
      list_update_beyond not_less, metis list_update_beyond not_less nth_list_update
      sio_unit.select_convs(7) sio_unit.surjective sio_unit.update_convs(6))

lemma shape_set_state [simp]: "unit_shape (set_state st z) = unit_shape z"
  by (simp add: set_state_def unit_shape_def)

lemma chain_upstream:
  fixes s :: "'m sio_rack"
  assumes f: "up_flags flags" and own: "own_loc loc" and M: "resync_keeps_shape M"
  shows "daisychain (us @ [d]) s \<Longrightarrow> length us < n \<Longrightarrow>
    (\<And>u. u \<in> set us \<Longrightarrow> u_class (rk_units s ! u) = Plain_Class \<and> \<not> u_upstream (rk_units s ! u)) \<Longrightarrow>
    u_class (rk_units s ! d) = Dispatch_Class \<Longrightarrow> u_rack (rk_units s ! d) \<Longrightarrow>
    sp_state (load_profile loc s) = st \<Longrightarrow>
    sync_line M n (hd (us @ [d])) loc flags line s
      = (Inr (), accept_state d st (on_units us (set_state st) s))"
proof (induction us arbitrary: s n line)
  case Nil
  then obtain m where n: "n = Suc m" by (cases n) auto
  have d: "d < length (rk_units s)" using Nil(1) by simp
  have "\<not> has_flag SF_glob_sync SF_upstream" by simp
  then show ?case using Nil d f
    by (simp add: n sync_virtual_def dispatch_sync_line_def up_flags_def act_defs Let_def
        unit_trigger_sync_def unit_trigger_cycle_def accept_state_def upd_unit_nth
        set_state_def [abs_def] rack_trigger_sync_def upd_unit_def upd_nth_nth)
next
  case (Cons u us)
  then obtain m where n: "n = Suc m" by (cases n) auto
  obtain v vs where v: "us @ [d] = v # vs" by (cases us) auto
  have c: "daisychain (u # v # vs) s" using Cons.prems(1) v by simp
  then have u: "u < length (rk_units s)" "sole_link u v s" "u \<notin> set (us @ [d])"
    "daisychain (us @ [d]) s" using v by simp_all
  let ?s1 = "upd_unit u (set_state st) s"
  have sh: "rack_shape ?s1 = rack_shape s" by (simp add: shape_upd_unit)
  have d1: "daisychain (us @ [d]) ?s1" "sole_link u v ?s1"
    using u daisychain_shape [OF sh] sole_link_shape(1) [OF sh] by simp_all
  have nth: "rk_units ?s1 ! w = rk_units s ! w" if "w \<in> set (us @ [d])" for w
    using that u(3) daisychain_lt [OF u(4) that] by (auto simp: upd_unit_nth)
  have "sync_line M m (hd (us @ [d])) loc flags i ?s1
      = (Inr (), accept_state d st (on_units us (set_state st) ?s1))" for i
  proof (rule Cons.IH [OF d1(1)])
    show "length us < m" using Cons.prems(2) n by simp
    show "u_class (rk_units ?s1 ! w) = Plain_Class \<and> \<not> u_upstream (rk_units ?s1 ! w)"
      if "w \<in> set us" for w using Cons.prems(3) [of w] nth [of w] that by simp
    show "u_class (rk_units ?s1 ! d) = Dispatch_Class" "u_rack (rk_units ?s1 ! d)"
      using Cons.prems(4,5) nth [of d] by simp_all
    show "sp_state (load_profile loc ?s1) = st"
      using Cons.prems(6) by (simp add: load_set_state [OF own])
  qed
  moreover have "u \<notin> set us" using u(3) by simp
  ultimately have r: "sync_line M m v loc flags i ?s1
      = (Inr (), accept_state d st (on_units (u # us) (set_state st) s))" for i
    using v by (simp add: on_units_Cons(2))
  have "rack_shape (accept_state d st (on_units (u # us) (set_state st) s)) = rack_shape s"
    by (simp add: accept_state_def Let_def shape_upd_unit shape_on_units)
  then have "continue_sync (sync_line M m) u loc flags ?s1
      = (Inr (), accept_state d st (on_units (u # us) (set_state st) s))"
    using continue_sole [OF d1(2)] r sh u(1) by (metis length_units(1))
  moreover have "\<not> u_upstream (rk_units s ! u)" "u_class (rk_units s ! u) = Plain_Class"
    using Cons.prems(3) [of u] by simp_all
  ultimately show ?case using f u(1) Cons.prems(6)
    by (simp add: n sync_virtual_def unit_sync_line_def up_flags_def act_defs set_state_def [abs_def])
qed

section \<open>A sync cycle changes line profiles only\<close>

definition forget_line :: "sio_unit \<Rightarrow> sio_unit" where
  "forget_line z = z\<lparr>u_line_profile := sync_profile_zero\<rparr>"

definition line_only :: "'m sio_rack \<Rightarrow> 'm sio_rack \<Rightarrow> bool" where
  "line_only s s' \<longleftrightarrow> (\<exists>x zs. s' = s\<lparr>rk_user := x, rk_units := zs\<rparr>
     \<and> map forget_line zs = map forget_line (rk_units s))"

lemma line_only_refl [simp]: "line_only s s"
proof -
  have "s = s\<lparr>rk_user := rk_user s, rk_units := rk_units s\<rparr>" by simp
  then show ?thesis unfolding line_only_def by blast
qed

lemma line_only_trans: "line_only s t \<Longrightarrow> line_only t u \<Longrightarrow> line_only s u"
  by (auto simp: line_only_def) (metis sio_rack.update_convs(1,12))+

lemma line_only_user: "line_only s (s\<lparr>rk_user := x\<rparr>)"
proof -
  have "s\<lparr>rk_user := x\<rparr> = s\<lparr>rk_user := x, rk_units := rk_units s\<rparr>" by simp
  then show ?thesis unfolding line_only_def by blast
qed

lemma line_only_upd: "line_only s (upd_unit u (\<lambda>z. z\<lparr>u_line_profile := f z\<rparr>) s)"
proof -
  have "map forget_line (upd_nth u (\<lambda>z. z\<lparr>u_line_profile := f z\<rparr>) zs) = map forget_line zs" for zs
    by (rule nth_equalityI) (auto simp: upd_nth_nth forget_line_def)
  then show ?thesis unfolding line_only_def upd_unit_def
    by (intro exI [of _ "rk_user s"] exI [of _ "upd_nth u (\<lambda>z. z\<lparr>u_line_profile := f z\<rparr>) (rk_units s)"])
      simp
qed

lemma line_only_store: "line_only s (store_profile (Loc_Line u) p s)"
  using line_only_upd by simp

lemma forget_lineD:
  assumes "forget_line z = forget_line z'"
  shows "u_unit_profile z = u_unit_profile z'" "u_global_profile z = u_global_profile z'"
    "u_class z = u_class z'" "u_upstream z = u_upstream z'" "u_cstate z = u_cstate z'"
    "u_rack z = u_rack z'" "u_input_state z = u_input_state z'" "unit_shape z = unit_shape z'"
proof -
  have "z = z'\<lparr>u_line_profile := u_line_profile z\<rparr>"
    using arg_cong [OF assms, of "\<lambda>y. y\<lparr>u_line_profile := u_line_profile z\<rparr>"]
    by (simp add: forget_line_def)
  then obtain l where z: "z = z'\<lparr>u_line_profile := l\<rparr>" by blast
  show "u_unit_profile z = u_unit_profile z'" "u_global_profile z = u_global_profile z'"
    "u_class z = u_class z'" "u_upstream z = u_upstream z'" "u_cstate z = u_cstate z'"
    "u_rack z = u_rack z'" "u_input_state z = u_input_state z'" "unit_shape z = unit_shape z'"
    by (simp_all add: z unit_shape_def)
qed

lemma line_onlyD:
  assumes "line_only s s'"
  shows "length (rk_units s') = length (rk_units s)"
    "\<And>u. u < length (rk_units s) \<Longrightarrow> forget_line (rk_units s' ! u) = forget_line (rk_units s ! u)"
    "rk_raw_mainlines s' = rk_raw_mainlines s" "rk_global_profile s' = rk_global_profile s"
    "rk_resync s' = rk_resync s" "rk_resync_flags s' = rk_resync_flags s"
    "rk_cycle_queue s' = rk_cycle_queue s" "rk_cache s' = rk_cache s"
    "rack_shape s' = rack_shape s"
proof -
  obtain x zs where s': "s' = s\<lparr>rk_user := x, rk_units := zs\<rparr>"
    and zs: "map forget_line zs = map forget_line (rk_units s)"
    using assms by (auto simp: line_only_def)
  then show l: "length (rk_units s') = length (rk_units s)" using map_eq_imp_length_eq by auto
  show nth: "forget_line (rk_units s' ! u) = forget_line (rk_units s ! u)"
    if "u < length (rk_units s)" for u
    using that l s' arg_cong [OF zs, of "\<lambda>xs. xs ! u"] by simp
  show "rk_raw_mainlines s' = rk_raw_mainlines s" "rk_global_profile s' = rk_global_profile s"
    "rk_resync s' = rk_resync s" "rk_resync_flags s' = rk_resync_flags s"
    "rk_cycle_queue s' = rk_cycle_queue s" "rk_cache s' = rk_cache s"
    by (simp_all add: s')
  have "map unit_shape (rk_units s') = map unit_shape (rk_units s)"
    using l forget_lineD(8) [OF nth] by (intro nth_equalityI) simp_all
  then show "rack_shape s' = rack_shape s" by (simp add: rack_shape_def s')
qed

text \<open>The first unit of a line sync only prepares the profile; the source bit is cleared for the
  units after it.\<close>

definition source_pass :: "sio_unit \<Rightarrow> sync_profile \<Rightarrow> sync_profile" where
  "source_pass z p =
     (if u_class z = Dispatch_Class \<and> sp_state p \<noteq> line_state_int Line_Flushing
      then p\<lparr>sp_state := sp_state (u_unit_profile z)\<rparr> else p)"

lemma plain_0 [simp]: "plain_flags 0"
  by (simp add: plain_flags_def)

lemma virtual_source:
  assumes u: "u < length (rk_units s)" and l: "own_loc loc" "loc_in loc s"
  shows "sync_virtual M self u loc SF_source line s =
    bind_act (continue_sync self u loc 0) (\<lambda>_. call_resync M u 0)
      (store_profile loc (source_pass (rk_units s ! u) (load_profile loc s)) s)"
proof -
  have one: "unit_sync_line M self u loc SF_source line t =
      bind_act (continue_sync self u loc 0) (\<lambda>_. call_resync M u 0) t" for t
    by (simp add: unit_sync_line_def act_defs Let_def)
  show ?thesis
  proof (cases "u_class (rk_units s ! u)")
    case Dispatch_Class
    then show ?thesis
      using u l
      by (simp add: sync_virtual_def dispatch_sync_line_def with_state_def source_pass_def one
          upd_profile_eq modify_def bind_act_def ret_def store_same)
  qed (use u l(2) in \<open>simp_all add: sync_virtual_def combine_sync_line_def mainline_sync_line_def
        with_state_def source_pass_def one store_same\<close>)
qed

lemma chain_source:
  fixes s :: "'m sio_rack"
  assumes q: "quiet_methods M" and own: "own_loc loc" and d: "daisychain (u # us) s"
    and l: "loc_in loc s" and n: "length us < n"
    and p: "p = fold (\<lambda>u. line_pass (rk_units s ! u)) us (source_pass (rk_units s ! u) (load_profile loc s))"
  shows "\<exists>x. sync_line M n u loc SF_source line s = (Inr (), store_profile loc p (s\<lparr>rk_user := x\<rparr>))"
proof -
  obtain m where m: "n = Suc m" using n by (cases n) auto
  have u: "u < length (rk_units s)" using daisychain_lt [OF d] by simp
  let ?s1 = "store_profile loc (source_pass (rk_units s ! u) (load_profile loc s)) s"
  have sh: "rack_shape ?s1 = rack_shape s" by simp
  have "\<exists>x. continue_sync (sync_line M m) u loc 0 ?s1 = (Inr (), store_profile loc p (s\<lparr>rk_user := x\<rparr>))"
  proof (cases us)
    case Nil
    with d have "no_link u ?s1" using sole_link_shape(2) [OF sh] u by simp
    from continue_none [OF this] Nil p
    have "continue_sync (sync_line M m) u loc 0 ?s1 = (Inr (), store_profile loc p (s\<lparr>rk_user := rk_user s\<rparr>))"
      by simp
    then show ?thesis by blast
  next
    case (Cons v vs)
    with d have c: "sole_link u v ?s1" "daisychain us ?s1" "daisychain us s"
      using sole_link_shape(1) [OF sh] daisychain_shape [OF sh] u by simp_all
    have "line_pass (rk_units ?s1 ! w) = line_pass (rk_units s ! w)" if "w \<in> set us" for w
      using store_unit_fields [OF own daisychain_lt [OF c(3) that]]
      by (simp add: line_pass_def fun_eq_iff)
    then have p1: "fold (\<lambda>u. line_pass (rk_units ?s1 ! u)) us (load_profile loc ?s1) = p"
      using l p by (simp add: load_store cong: fold_cong)
    obtain i where i: "\<And>s2. sync_line M m v loc 0 i ?s1 = (Inr (), s2) \<Longrightarrow>
        rack_shape s2 = rack_shape ?s1 \<Longrightarrow> continue_sync (sync_line M m) u loc 0 ?s1 = (Inr (), s2)"
      using continue_sole [OF c(1)] u by (metis length_units(2))
    obtain x where "sync_line M m v loc 0 i ?s1 = (Inr (), store_profile loc p (?s1\<lparr>rk_user := x\<rparr>))"
      using chain_line [OF q plain_0 own c(2), of m i] l n m Cons p1 by auto
    then have "continue_sync (sync_line M m) u loc 0 ?s1
        = (Inr (), store_profile loc p (?s1\<lparr>rk_user := x\<rparr>))"
      by (rule i) simp
    then show ?thesis by (simp add: user_store store_store) blast
  qed
  then obtain x where c: "continue_sync (sync_line M m) u loc 0 ?s1
      = (Inr (), store_profile loc p (s\<lparr>rk_user := x\<rparr>))" by blast
  obtain y where "call_resync M u 0 (store_profile loc p (s\<lparr>rk_user := x\<rparr>))
      = (Inr (), (store_profile loc p (s\<lparr>rk_user := x\<rparr>))\<lparr>rk_user := y\<rparr>)"
    using quiet_resync [OF q] .
  with virtual_source [OF u own l] c show ?thesis
    by (simp add: m bind_act_def user_store) blast
qed

section \<open>Cycles along the chain\<close>

lemma cycle_sole:
  assumes "sole_link u v s" and u: "u < length (rk_units s)"
    and self: "self v ty s = (Inr r, s1)" and sh: "rack_shape s1 = rack_shape s"
  shows "for_each (cycle_out self u ty) (outputs_of u s) s = (Inr (), s1)"
proof -
  obtain k i where k: "k < length (lk_outputs (rk_units s ! u))"
    "link_dest u k s = Inr (Some (Some v, i))"
    "\<And>j. j < length (lk_outputs (rk_units s ! u)) \<Longrightarrow> j \<noteq> k \<Longrightarrow> link_dest u j s = Inr None"
    using assms(1) by (auto simp: sole_link_def)
  have u1: "u < length (rk_units s1)" using u shape_unit(1) [OF sh] by simp
  show ?thesis unfolding outputs_of_def
  proof (rule each_sole [OF k(1)])
    show "cycle_out self u ty k s = (Inr (), s1)"
      using k(2) self by (simp add: cycle_out_def act_defs)
    show "cycle_out self u ty j s = (Inr (), s)" if "j < k" for j
      using that k(1) k(3) [of j] by (simp add: cycle_out_def act_defs)
    show "cycle_out self u ty j s1 = (Inr (), s1)"
      if "k < j" "j < length (lk_outputs (rk_units s ! u))" for j
      using that k(3) [of j] link_dest_shape [OF sh u1] by (simp add: cycle_out_def act_defs)
  qed
qed

lemma cycle_none:
  "no_link u s \<Longrightarrow> for_each (cycle_out self u ty) (outputs_of u s) s = (Inr (), s)"
  by (rule each_skip) (simp add: cycle_out_def no_link_def outputs_of_def act_defs)

text \<open>One unit's own part of a cycle that is not a warmup.\<close>

lemma switch_line_only:
  assumes q: "quiet_methods M" and d: "daisychain (u # us) s" and n: "length us < n"
    and ty: "ty \<noteq> Cycle_Warmup"
  shows "\<exists>r s1. cycle_switch M (sync_line M n) u ty s = (Inr r, s1) \<and> line_only s s1
    \<and> (ty = Cycle_Sync \<longrightarrow> r = Complete)"
proof (cases ty)
  case Cycle_Ac
  obtain r x where "vm_cycle M u s = (Inr r, s\<lparr>rk_user := x\<rparr>)" using quietE(2) [OF q] by blast
  with Cycle_Ac show ?thesis
    by (cases "sp_state (u_line_profile (rk_units s ! u)) = line_state_int Line_Flushing")
      (auto simp: cycle_switch_def act_defs intro: line_only_user)
next
  case Cycle_Sync
  let ?s1 = "upd_unit u (\<lambda>z. z\<lparr>u_line_profile := begin_line_sync (u_line_profile z)\<rparr>) s"
  have sh: "rack_shape ?s1 = rack_shape s" by (rule shape_upd_unit) (simp add: unit_shape_def)
  have d1: "daisychain (u # us) ?s1" using d daisychain_shape [OF sh] by simp
  have l: "loc_in (Loc_Line u) ?s1" using daisychain_lt [OF d] by simp
  obtain x p where "sync_line M n u (Loc_Line u) SF_source 0 ?s1
      = (Inr (), store_profile (Loc_Line u) p (?s1\<lparr>rk_user := x\<rparr>))"
    using chain_source [OF q _ d1 l n refl, of 0] by auto
  moreover have "line_only s (store_profile (Loc_Line u) p (?s1\<lparr>rk_user := x\<rparr>))"
    by (rule line_only_trans [OF line_only_trans [OF line_only_upd line_only_user] line_only_store])
  ultimately show ?thesis using Cycle_Sync by (simp add: cycle_switch_def act_defs del: store_profile.simps)
qed (use ty in simp)

lemma chain_cycle:
  fixes s :: "'m sio_rack"
  assumes q: "quiet_methods M" and ty: "ty \<noteq> Cycle_Warmup"
  shows "daisychain us s \<Longrightarrow> length us < n \<Longrightarrow>
    \<exists>r s1. cycle_line M n (hd us) ty s = (Inr r, s1) \<and> line_only s s1"
proof (induction us arbitrary: s n rule: induct_list012)
  case 1
  then show ?case by simp
next
  case (2 u)
  then obtain m where n: "n = Suc m" by (cases n) auto
  from 2 have u: "u < length (rk_units s)" "no_link u s" by simp_all
  obtain r s1 where r: "cycle_switch M (sync_line M m) u ty s = (Inr r, s1)" "line_only s s1"
    using switch_line_only [OF q "2.prems"(1) _ ty, of m] "2.prems"(2) n by auto
  note sh = line_onlyD(9) [OF r(2)]
  have "no_link u s1" using sole_link_shape(2) [OF sh] u line_onlyD(1) [OF r(2)] by simp
  note c = cycle_none [OF this]
  show ?case using u r c by (simp add: n cycle_body_def act_defs)
next
  case (3 u v us)
  then obtain m where n: "n = Suc m" by (cases n) auto
  from "3.prems" have u: "u < length (rk_units s)" "sole_link u v s" "daisychain (v # us) s" by simp_all
  obtain r s1 where r: "cycle_switch M (sync_line M m) u ty s = (Inr r, s1)" "line_only s s1"
    using switch_line_only [OF q "3.prems"(1) _ ty, of m] "3.prems"(2) n by auto
  note sh = line_onlyD(9) [OF r(2)]
  have u1: "u < length (rk_units s1)" "sole_link u v s1" "daisychain (v # us) s1"
    using u sole_link_shape(1) [OF sh] daisychain_shape [OF sh] line_onlyD(1) [OF r(2)] by simp_all
  obtain r2 s2 where s2: "cycle_line M m v ty s1 = (Inr r2, s2)" "line_only s1 s2"
    using "3.IH"(2) [OF u1(3), of m] "3.prems"(2) n by auto
  note c = cycle_sole [of u v s1 "cycle_line M m", OF u1(2,1) s2(1) line_onlyD(9) [OF s2(2)]]
  show ?case
  proof (cases "after_complete r")
    case True
    with u(1) r show ?thesis by (simp add: n cycle_body_def act_defs)
  next
    case False
    with u(1) r c show ?thesis
      using line_only_trans [OF r(2) s2(2)] by (simp add: n cycle_body_def act_defs)
  qed
qed

section \<open>The mainline unit at the head of an upstream sync\<close>

lemma upd_unit_id:
  assumes "u < length (rk_units s)" and "f (rk_units s ! u) = rk_units s ! u"
  shows "upd_unit u f s = s"
  using assms by (simp add: upd_unit_def upd_nth_def)

lemma load_clear_upstream:
  "own_loc loc \<Longrightarrow> loc_in loc s \<Longrightarrow>
     load_profile loc (upd_unit u (\<lambda>z. z\<lparr>u_upstream := False\<rparr>) s) = load_profile loc s"
  by (cases loc) (simp_all add: upd_unit_nth, simp_all add: upd_unit_def)

lemma mainline_upstream:
  fixes s :: "'m sio_rack"
  assumes q: "quiet_methods M" and f: "up_flags flags" and own: "own_loc loc" and l: "loc_in loc s"
    and d: "daisychain (m # us @ [d]) s" and n: "Suc (length us) < n"
    and cm: "u_class (rk_units s ! m) = Mainline_Class"
    and mids: "\<And>u. u \<in> set us \<Longrightarrow>
      u_class (rk_units s ! u) = Plain_Class \<and> \<not> u_upstream (rk_units s ! u)"
    and cd: "u_class (rk_units s ! d) = Dispatch_Class" "u_rack (rk_units s ! d)"
    and st: "st = sp_state (u_unit_profile (rk_units s ! m))"
  shows "\<exists>x. sync_line M n m loc flags line s = (Inr (), accept_state d st (on_units us (set_state st)
    (store_profile loc ((load_profile loc s)\<lparr>sp_state := st\<rparr>)
      (upd_unit m (\<lambda>z. z\<lparr>u_upstream := False\<rparr>) (s\<lparr>rk_user := x\<rparr>)))))"
proof -
  obtain k where k: "n = Suc k" using n by (cases n) auto
  have m: "m < length (rk_units s)" using daisychain_lt [OF d] by simp
  have up: "has_flag flags SF_upstream" using f by (simp add: up_flags_def)
  define s1 where "s1 x = upd_unit m (\<lambda>z. z\<lparr>u_upstream := False\<rparr>) (s\<lparr>rk_user := x\<rparr>)" for x
  have "\<exists>x. (if u_upstream (rk_units s ! m)
      then bind_act (modify (upd_unit m (\<lambda>z. z\<lparr>u_upstream := False\<rparr>))) (\<lambda>_. call_resync M m flags)
      else ret ()) s = (Inr (), s1 x)"
  proof (cases "u_upstream (rk_units s ! m)")
    case True
    obtain x where "call_resync M m flags (upd_unit m (\<lambda>z. z\<lparr>u_upstream := False\<rparr>) s)
        = (Inr (), (upd_unit m (\<lambda>z. z\<lparr>u_upstream := False\<rparr>) s)\<lparr>rk_user := x\<rparr>)"
      using quiet_resync [OF q] .
    moreover have "(upd_unit m (\<lambda>z. z\<lparr>u_upstream := False\<rparr>) s)\<lparr>rk_user := x\<rparr> = s1 x"
      by (simp add: s1_def upd_unit_def)
    ultimately show ?thesis using True by (intro exI [of _ x]) (simp add: act_defs)
  next
    case False
    have "(rk_units s ! m)\<lparr>u_upstream := False\<rparr> = rk_units s ! m" using False by simp
    then have "s1 (rk_user s) = s" unfolding s1_def using m by (simp add: upd_unit_id)
    with False show ?thesis by (auto simp: act_defs intro!: exI [of _ "rk_user s"])
  qed
  then obtain x where x: "(if u_upstream (rk_units s ! m)
      then bind_act (modify (upd_unit m (\<lambda>z. z\<lparr>u_upstream := False\<rparr>))) (\<lambda>_. call_resync M m flags)
      else ret ()) s = (Inr (), s1 x)" by blast
  let ?p = "(load_profile loc s)\<lparr>sp_state := st\<rparr>"
  let ?s2 = "store_profile loc ?p (s1 x)"
  have sh: "rack_shape ?s2 = rack_shape s" by (simp add: s1_def shape_upd_unit unit_shape_def)
  have l1: "loc_in loc (s1 x)" "load_profile loc (s1 x) = load_profile loc s"
    using l load_clear_upstream [OF own, of "s\<lparr>rk_user := x\<rparr>" m] unfolding s1_def
    by (cases loc; simp)+
  have prof: "u_unit_profile (rk_units (s1 x) ! m) = u_unit_profile (rk_units s ! m)"
    using m by (simp add: s1_def upd_unit_nth)
  obtain v vs where v: "us @ [d] = v # vs" by (cases us) auto
  have len: "length (rk_units (s1 x)) = length (rk_units s)" by (simp add: s1_def)
  have c: "sole_link m v ?s2" "daisychain (us @ [d]) ?s2" "m \<notin> set (us @ [d])" "daisychain (us @ [d]) s"
    using d v m len sole_link_shape(1) [OF sh] daisychain_shape [OF sh] by simp_all
  have same: "u_class (rk_units ?s2 ! w) = u_class (rk_units s ! w)
      \<and> u_upstream (rk_units ?s2 ! w) = u_upstream (rk_units s ! w)
      \<and> u_rack (rk_units ?s2 ! w) = u_rack (rk_units s ! w)" if w: "w \<in> set (us @ [d])" for w
  proof -
    have "w < length (rk_units s)" "w \<noteq> m" using daisychain_lt [OF c(4) w] c(3) w by auto
    then show ?thesis
      using store_unit_fields [OF own, of w "s1 x" ?p] shape_links(4) [OF sh, of w] len
      by (simp add: s1_def upd_unit_nth)
  qed
  have "sync_line M k (hd (us @ [d])) loc flags i ?s2
      = (Inr (), accept_state d st (on_units us (set_state st) ?s2))" for i
  proof (rule chain_upstream [OF f own quiet_keeps [OF q] c(2)])
    show "length us < k" using n k by simp
    show "u_class (rk_units ?s2 ! u) = Plain_Class \<and> \<not> u_upstream (rk_units ?s2 ! u)"
      if "u \<in> set us" for u using same [of u] mids [OF that] that by simp
    show "u_class (rk_units ?s2 ! d) = Dispatch_Class" "u_rack (rk_units ?s2 ! d)"
      using same [of d] cd by simp_all
    show "sp_state (load_profile loc ?s2) = st" using l1(1) by (simp add: load_store)
  qed
  then have r: "sync_line M k v loc flags i ?s2
      = (Inr (), accept_state d st (on_units us (set_state st) ?s2))" for i
    using v by simp
  have "rack_shape (accept_state d st (on_units us (set_state st) ?s2)) = rack_shape ?s2"
    by (simp add: accept_state_def Let_def shape_upd_unit shape_on_units)
  then have "continue_sync (sync_line M k) m loc flags ?s2
      = (Inr (), accept_state d st (on_units us (set_state st) ?s2))"
    using continue_sole [OF c(1)] r m len by (metis length_units(2))
  moreover have "(modify (\<lambda>s. upd_profile loc (\<lambda>p.
            p\<lparr>sp_state := sp_state (u_unit_profile (rk_units s ! m))\<rparr>) s)) (s1 x) = (Inr (), ?s2)"
    using prof st l1(2) by (simp add: modify_def upd_profile_eq)
  ultimately have "sync_line M n m loc flags line s
      = (Inr (), accept_state d st (on_units us (set_state st) ?s2))"
    using cm m x up
    by (simp add: k sync_virtual_def mainline_sync_line_def with_state_def bind_act_def)
  then show ?thesis by (auto simp: s1_def)
qed

section \<open>Properties\<close>

text \<open>C13. A sync walk ends on links without cycles: whatever classes the units have and however
  the links fan out and join, \<open>sync_line\<close> started at a unit never exhausts a stack deeper than
  the unit's rank, and its result does not depend on how deep the stack is. Concrete units are
  only assumed to return and to leave the links alone.\<close>

theorem sync_line_terminates:
  assumes "methods_bounded M" and "ranked rank s" and "rank u < n" and "rank u < m"
  shows "fst (sync_line M n u loc flags line s) \<noteq> Inl Stack_Overflow
    \<and> sync_line M n u loc flags line s = sync_line M m u loc flags line s"
  using agreeD [OF agree_sync_line [OF assms] refl] by blast

text \<open>Quiet units, and a line of three: a mainline unit, a step and a dispatch unit.\<close>

definition demo_methods :: "unit unit_methods" where
  "demo_methods = \<lparr>vm_cycle = (\<lambda>u s. (Inr Complete, s)), vm_init = (\<lambda>u s. (Inr Complete, s)),
     vm_resync = (\<lambda>u flags s. (Inr Complete, s))\<rparr>"

lemma demo_quiet: "quiet_methods demo_methods"
proof -
  have "\<exists>r x. (Inr Complete, s) = (Inr r :: cycle_state result, s\<lparr>rk_user := x\<rparr>)" for s :: "unit sio_rack"
    by (intro exI [of _ Complete] exI [of _ "rk_user s"]) simp
  then show ?thesis by (simp add: quiet_methods_def demo_methods_def)
qed

lemma demo_bounded: "methods_bounded demo_methods"
  by (simp add: methods_bounded_def methods_keep_shape_def resync_keeps_shape_def keeps_shape_def
      demo_methods_def)

definition demo_unit_of :: "unit_class \<Rightarrow> sync_profile \<Rightarrow> nat option \<Rightarrow> nat \<Rightarrow> sio_unit" where
  "demo_unit_of c p dest this =
     (unit_make c UT_Step ''M'' ''u'')
       \<lparr>u_unit_profile := p, u_rack := True,
        lk_inputs := [\<lparr>li_label = ''in'', li_id = 0, li_unit = Some this, li_connected = True\<rparr>],
        lk_num_inputs := 1,
        lk_outputs := [\<lparr>lo_label = ''out'', lo_id = 0, lo_to = map_option (\<lambda>v. (v, 0)) dest,
                        lo_connected = (dest \<noteq> None)\<rparr>],
        lk_num_outputs := 1\<rparr>"

definition demo_rack :: "unit sio_rack" where
  "demo_rack =
     \<lparr>rk_units =
        [(demo_unit_of Mainline_Class (sync_profile_zero\<lparr>sp_state := 1, sp_channels := 2\<rparr>) (Some 1) 0)
           \<lparr>u_upstream := True\<rparr>,
         demo_unit_of Plain_Class (sync_profile_zero\<lparr>sp_latency := 3, sp_period := 64\<rparr>) (Some 2) 1,
         demo_unit_of Dispatch_Class (sync_profile_zero\<lparr>sp_period := 256, sp_latency := 1\<rparr>) None 2],
      rk_mounted = (\<lambda>_. None), rk_mainlines = (\<lambda>_. None), rk_raw_mainlines = [0],
      rk_global_profile = sync_profile_zero, rk_local_profile = sync_profile_zero, rk_cache = None,
      rk_heap = 1, rk_resync = True, rk_resync_flags = SF_upstream, rk_cycle_queue = 1, rk_user = ()\<rparr>"

lemma demo_units:
  "rk_units demo_rack ! 0 = (demo_unit_of Mainline_Class
     (sync_profile_zero\<lparr>sp_state := 1, sp_channels := 2\<rparr>) (Some 1) 0)\<lparr>u_upstream := True\<rparr>"
  "rk_units demo_rack ! 1 = demo_unit_of Plain_Class
     (sync_profile_zero\<lparr>sp_latency := 3, sp_period := 64\<rparr>) (Some 2) 1"
  "rk_units demo_rack ! 2 = demo_unit_of Dispatch_Class
     (sync_profile_zero\<lparr>sp_period := 256, sp_latency := 1\<rparr>) None 2"
  "length (rk_units demo_rack) = 3"
  by (simp_all add: demo_rack_def)

lemma demo_fields [simp]:
  "lk_outputs (demo_unit_of c p dest this) = [\<lparr>lo_label = ''out'', lo_id = 0,
      lo_to = map_option (\<lambda>v. (v, 0)) dest, lo_connected = (dest \<noteq> None)\<rparr>]"
  "lk_inputs (demo_unit_of c p dest this) =
     [\<lparr>li_label = ''in'', li_id = 0, li_unit = Some this, li_connected = True\<rparr>]"
  "u_class (demo_unit_of c p dest this) = c" "u_rack (demo_unit_of c p dest this)"
  "u_upstream (demo_unit_of c p dest this) = False"
  "u_unit_profile (demo_unit_of c p dest this) = p"
  "u_global_profile (demo_unit_of c p dest this) = sync_profile_zero"
  "u_line_profile (demo_unit_of c p dest this) = sync_profile_zero"
  by (simp_all add: demo_unit_of_def unit_make_def registrable.defs linkable.defs sio_unit.defs
      linkable_make_def registrable_make_def)

lemma demo_dests:
  "link_dest 0 0 demo_rack = Inr (Some (Some 1, 0))"
  "link_dest 1 0 demo_rack = Inr (Some (Some 2, 0))"
  "link_dest 2 0 demo_rack = Inr None"
  by (simp_all add: link_dest_def demo_units demo_units(2) [simplified] Let_def)

lemma demo_chain: "daisychain [0, 1, 2] demo_rack"
  by (simp add: sole_link_def no_link_def demo_units demo_units(2) [simplified] demo_dests
      demo_dests(2) [simplified])

lemma demo_ranked: "ranked (\<lambda>u. 2 - u) demo_rack"
proof -
  have "u = 0 \<or> u = 1 \<or> u = 2" if "u < 3" for u :: nat using that by auto
  moreover have "leads_to demo_rack 0 v \<longleftrightarrow> v = 1" "leads_to demo_rack 1 v \<longleftrightarrow> v = 2"
    "\<not> leads_to demo_rack 2 v" for v
    using demo_dests by (auto simp: leads_to_def demo_units demo_units(2) [simplified])
  ultimately show ?thesis unfolding ranked_def demo_units(4) by fastforce
qed

theorem sync_line_terminates_witness:
  "fst (sync_line demo_methods 3 0 Loc_Global SF_glob_sync 0 demo_rack) \<noteq> Inl Stack_Overflow
   \<and> sync_line demo_methods 3 0 Loc_Global SF_glob_sync 0 demo_rack
     = sync_line demo_methods 9 0 Loc_Global SF_glob_sync 0 demo_rack"
proof -
  have "(2 - 0 :: nat) < 3" "(2 - 0 :: nat) < 9" by simp_all
  from sync_line_terminates [OF demo_bounded demo_ranked this] show ?thesis
    by blast
qed

text \<open>C17. The line sync of a daisychain collects the line: started from the first unit on its own
  line profile, it leaves there the profiles of the units after it, folded in the order of the
  line, and changes no other profile of any unit and nothing of the rack.\<close>

theorem line_sync_collects:
  assumes "quiet_methods M" and "daisychain (u # us) s" and "length us < n"
  shows "\<exists>x. sync_line M n u (Loc_Line u) SF_source 0 s = (Inr (), upd_unit u (\<lambda>z.
      z\<lparr>u_line_profile := fold (\<lambda>v. line_pass (rk_units s ! v)) us
          (source_pass (rk_units s ! u) (u_line_profile (rk_units s ! u)))\<rparr>) (s\<lparr>rk_user := x\<rparr>))"
  using chain_source [OF assms(1) _ assms(2) _ assms(3) refl, of "Loc_Line u" 0]
    daisychain_lt [OF assms(2), of u] by simp

theorem line_sync_collects_witness:
  "\<exists>s'. sync_line demo_methods 9 0 (Loc_Line 0) SF_source 0 demo_rack = (Inr (), s')
    \<and> sp_latency (u_line_profile (rk_units s' ! 0)) = 4
    \<and> sp_period (u_line_profile (rk_units s' ! 0)) = 256"
proof -
  obtain x where x: "sync_line demo_methods 9 0 (Loc_Line 0) SF_source 0 demo_rack = (Inr (),
      upd_unit 0 (\<lambda>z. z\<lparr>u_line_profile := fold (\<lambda>v. line_pass (rk_units demo_rack ! v)) [1, 2]
        (source_pass (rk_units demo_rack ! 0) (u_line_profile (rk_units demo_rack ! 0)))\<rparr>)
        (demo_rack\<lparr>rk_user := x\<rparr>))"
    using line_sync_collects [OF demo_quiet demo_chain, of 9] by auto
  show ?thesis unfolding x
    by (simp add: upd_unit_nth demo_units demo_units(2) [simplified] source_pass_def line_pass_def
        apply_unit_profile_def sync_profile_zero_def)
qed

text \<open>C16. The global sync of a daisychain agrees on one profile: the profile folded along the line
  ends up in the rack, and every unit of the line takes its sample rate, channels, period,
  state, tempo and fill level; their other profiles stay.\<close>

theorem global_sync_agrees:
  assumes "quiet_methods M" and "daisychain us s" and "length us \<le> n"
    and "p = fold (\<lambda>u. glob_pass (rk_units s ! u)) us (rk_global_profile s)"
  shows "\<exists>s'. sync_line M n (hd us) Loc_Global SF_glob_sync line s = (Inr (), s')
    \<and> rk_global_profile s' = p
    \<and> (\<forall>u \<in> set us. u_global_profile (rk_units s' ! u)
         = copy_global p (u_global_profile (rk_units s ! u)))
    \<and> (\<forall>u < length (rk_units s). u_unit_profile (rk_units s' ! u) = u_unit_profile (rk_units s ! u)
         \<and> (u \<notin> set us \<longrightarrow> rk_units s' ! u = rk_units s ! u))"
proof -
  have "glob_flags SF_glob_sync" by (simp add: glob_flags_def)
  then obtain x where "sync_line M n (hd us) Loc_Global SF_glob_sync line s
      = (Inr (), store_profile Loc_Global p (publish us p (s\<lparr>rk_user := x\<rparr>)))"
    using chain_glob [OF assms(1) _ _ assms(2) _ assms(3), of _ Loc_Global p line] assms(4) by auto
  then show ?thesis
    using daisychain_lt [OF assms(2)] by (auto simp: on_units_nth take_global_def)
qed

theorem global_sync_agrees_witness:
  "\<exists>s'. sync_line demo_methods 9 0 Loc_Global SF_glob_sync 0 demo_rack = (Inr (), s')
    \<and> (\<forall>u \<in> {0, 1, 2}. sp_period (u_global_profile (rk_units s' ! u)) = 256
         \<and> sp_channels (u_global_profile (rk_units s' ! u)) = 2)"
proof -
  let ?p = "fold (\<lambda>u. glob_pass (rk_units demo_rack ! u)) [0, 1, 2] (rk_global_profile demo_rack)"
  have "sp_period ?p = 256" "sp_channels ?p = 2"
    by (simp_all add: demo_units demo_units(2) [simplified] glob_pass_def unflush_def dispatch_glob_def
        apply_unit_profile_def sync_profile_zero_def demo_rack_def)
  moreover have "\<exists>s'. sync_line demo_methods 9 (hd [0, 1, 2]) Loc_Global SF_glob_sync 0 demo_rack = (Inr (), s')
    \<and> rk_global_profile s' = ?p
    \<and> (\<forall>u \<in> set [0, 1, 2]. u_global_profile (rk_units s' ! u)
         = copy_global ?p (u_global_profile (rk_units demo_rack ! u)))
    \<and> (\<forall>u < length (rk_units demo_rack).
         u_unit_profile (rk_units s' ! u) = u_unit_profile (rk_units demo_rack ! u)
         \<and> (u \<notin> set [0, 1, 2] \<longrightarrow> rk_units s' ! u = rk_units demo_rack ! u))"
    by (rule global_sync_agrees [OF demo_quiet demo_chain _ refl]) simp
  ultimately show ?thesis by (fastforce simp: copy_global_def)
qed

text \<open>C18. What a combine unit passes on. An upstream sync on one input sets the state of that input and leaves the others. It
  goes on down the line if and only if the state of the line as a whole, whether any input is active, now differs
  from the global state that was last published to the unit, and, where an input is turned off, none is active any more; then the unit's own
  state is the new state of the line. (The global state is one of the two states of a line.) So when the global state is up to date, exactly the changes of the whole
  line go on. When it is not, because the sync that turned the first input on has not been followed by a
  global sync, an input that is turned off goes no further even when it was the last: the unit's own state stays.\<close>

theorem combine_passes_changes:
  assumes "combine_upstream st line z = Inr (z', go)"
    and "sp_state (u_global_profile z) \<in> {line_state_int Line_Inactive, line_state_int Line_Active}"
  shows "let old = (\<exists>i < length (u_input_state z). u_input_state z ! i);
        new = (\<exists>i < length (u_input_state z'). u_input_state z' ! i);
        published = (sp_state (u_global_profile z) = line_state_int Line_Active)
    in u_input_state z' = (u_input_state z)[line := (st = line_state_int Line_Active)]
     \<and> (go \<longleftrightarrow> new \<noteq> published \<and> (new \<longrightarrow> st = line_state_int Line_Active))
     \<and> (go \<longrightarrow> sp_state (u_unit_profile z') = (if new then line_state_int Line_Active else line_state_int Line_Inactive))
     \<and> (\<not> go \<longrightarrow> u_unit_profile z' = u_unit_profile z)
     \<and> (published = old \<longrightarrow> (go \<longleftrightarrow> new \<noteq> old))
     \<and> (\<not> published \<and> st \<noteq> line_state_int Line_Active \<longrightarrow> \<not> go)"
proof -
  let ?new = "(u_input_state z)[line := (st = line_state_int Line_Active)]"
  define old new published where
    "old = (\<exists>i < length (u_input_state z). u_input_state z ! i)"
    and "new = (\<exists>i < length (u_input_state z'). u_input_state z' ! i)"
    and "published = (sp_state (u_global_profile z) = line_state_int Line_Active)"
  have line: "line < length (u_input_state z)"
    using assms(1) by (auto simp: combine_upstream_def arr_set_def split: if_splits)
  have act: "u_input_state z' = ?new"
    using assms(1) line by (auto simp: combine_upstream_def Let_def split: if_splits)
  have on: new if "st = line_state_int Line_Active"
    unfolding new_def act using that line by (intro exI [of _ line]) simp
  have off: "new \<longrightarrow> old" if "st \<noteq> line_state_int Line_Active"
    unfolding new_def old_def act using that line by (auto simp: nth_list_update split: if_splits)
  have inact: "all_inactive ?new \<longleftrightarrow> \<not> new"
    unfolding new_def act by (auto simp: all_inactive_def list_all_length)
  have unpub: "\<not> published \<longleftrightarrow> sp_state (u_global_profile z) = line_state_int Line_Inactive"
    using assms(2) by (auto simp: published_def)
  have main: "(go \<longleftrightarrow> new \<noteq> published \<and> (new \<longrightarrow> st = line_state_int Line_Active))
     \<and> (go \<longrightarrow> sp_state (u_unit_profile z') = (if new then line_state_int Line_Active else line_state_int Line_Inactive))
     \<and> (\<not> go \<longrightarrow> u_unit_profile z' = u_unit_profile z)"
  proof (cases "st = line_state_int Line_Active")
    case True
    have "z' = (if \<not> published then z\<lparr>u_input_state := ?new, u_unit_profile :=
          register_metric_int M_State (line_state_int Line_Active) (u_unit_profile z)\<rparr> else z\<lparr>u_input_state := ?new\<rparr>)"
      "go \<longleftrightarrow> \<not> published"
      using assms(1) line True unfolding unpub by (auto simp: combine_upstream_def Let_def split: if_splits)
    then show ?thesis using True on by auto
  next
    case False
    have "z' = (if published \<and> \<not> new then z\<lparr>u_input_state := ?new, u_unit_profile :=
          register_metric_int M_State (line_state_int Line_Inactive) (u_unit_profile z)\<rparr> else z\<lparr>u_input_state := ?new\<rparr>)"
      "go \<longleftrightarrow> published \<and> \<not> new"
      using assms(1) line False unfolding inact [symmetric] published_def
      by (auto simp: combine_upstream_def Let_def split: if_splits)
    then show ?thesis using False by auto
  qed
  moreover have "published = old \<longrightarrow> (go \<longleftrightarrow> new \<noteq> old)" using main on off by blast
  moreover have "\<not> published \<and> st \<noteq> line_state_int Line_Active \<longrightarrow> \<not> go" using main by blast
  ultimately show ?thesis
    unfolding Let_def old_def [symmetric] new_def [symmetric] published_def [symmetric] using act by blast
qed

definition demo_combine :: sio_unit where
  "demo_combine = (unit_make Combine_Class UT_Combine ''C'' ''c'')\<lparr>u_input_state := [False, False]\<rparr>"

lemma demo_combine_fields [simp]:
  "u_input_state demo_combine = [False, False]" "u_global_profile demo_combine = sync_profile_zero"
  by (simp_all add: demo_combine_def unit_make_def registrable.defs linkable.defs sio_unit.defs
      linkable_make_def registrable_make_def)

text \<open>The first of two inputs is turned on, and off again before the global sync.\<close>

theorem combine_passes_changes_witness:
  "\<exists>z1 z2. combine_upstream 1 0 demo_combine = Inr (z1, True) \<and> u_input_state z1 = [True, False]
    \<and> sp_state (u_unit_profile z1) = 1
    \<and> combine_upstream 0 0 z1 = Inr (z2, False) \<and> u_input_state z2 = [False, False] \<and> sp_state (u_unit_profile z2) = 1"
proof -
  let ?z1 = "demo_combine\<lparr>u_input_state := [True, False], u_unit_profile :=
     register_metric_int M_State 1 (u_unit_profile demo_combine)\<rparr>"
  let ?z2 = "?z1\<lparr>u_input_state := [False, False]\<rparr>"
  have r: "combine_upstream 1 0 demo_combine = Inr (?z1, True)" "combine_upstream 0 0 ?z1 = Inr (?z2, False)"
    by (simp_all add: combine_upstream_def sync_profile_zero_def)
  have g: "sp_state (u_global_profile demo_combine) \<in> {line_state_int Line_Inactive, line_state_int Line_Active}"
    "sp_state (u_global_profile ?z1) \<in> {line_state_int Line_Inactive, line_state_int Line_Active}"
    by (simp_all add: sync_profile_zero_def)
  have on: "\<exists>i < length [True, False]. [True, False] ! i" by (intro exI [of _ 0]) simp
  have "sp_state (u_unit_profile ?z1) = 1"
    using combine_passes_changes [OF r(1) g(1)] on unfolding Let_def by (simp del: length_Cons)
  moreover have "u_unit_profile ?z2 = u_unit_profile ?z1"
    using combine_passes_changes [OF r(2) g(2)] unfolding Let_def by simp
  ultimately show ?thesis using r by - (rule exI [of _ ?z1], rule exI [of _ ?z2], simp)
qed

end
