(* ===== verification/Rack.thy ===== *)
theory Rack
  imports Sync_Lines Cache_Ptr
begin

text \<open>
  The rack: the mounted units and their connections (\<^verbatim>\<open>framework/component/mount.cpp\<close>), the walks
  over all mainlines (\<^verbatim>\<open>backend.cpp\<close>) and the worker that runs them (\<^verbatim>\<open>rack.cpp\<close>).

  The worker thread of the rack is modelled one pass at a time: \<open>rack_pass\<close> is the body of the
  loop over the queued cycles, \<open>rack_drain\<close> the loop itself. Where the code waits on the
  condition variable is the business of the caller. A pass either ends normally or, after one
  of the two exceptions of the framework, bails out of the loop.
\<close>

section \<open>Mounting and connecting units\<close>

definition rack_make :: "'m \<Rightarrow> 'm sio_rack" where
  "rack_make x =
     \<lparr>rk_units = [], rk_mounted = (\<lambda>_. None), rk_mainlines = (\<lambda>_. None), rk_raw_mainlines = [],
      rk_global_profile = sync_profile_zero, rk_local_profile = sync_profile_zero,
      rk_cache = None, rk_heap = 1, rk_resync = False, rk_resync_flags = 0, rk_cycle_queue = 0,
      rk_user = x\<rparr>"

text \<open>\<open>mount_dependencies\<close>: the unit gets the rack; the object enters the store and, by its label,
  the map (which keeps an entry that is already there, so that a second unit of the same
  label is destroyed).\<close>

definition add_unit :: "sio_unit \<Rightarrow> 'm sio_rack \<Rightarrow> 'm sio_rack" where
  "add_unit z s =
     (let u = length (rk_units s); label = rg_label z in
      s\<lparr>rk_units := rk_units s @ [z\<lparr>u_rack := True\<rparr>],
        rk_mounted := (if rk_mounted s label = None then (rk_mounted s)(label \<mapsto> u)
                       else rk_mounted s)\<rparr>)"

definition get_unit :: "string \<Rightarrow> 'm sio_rack \<Rightarrow> nat option" where
  "get_unit label s = rk_mounted s label"

definition has_unit :: "string \<Rightarrow> 'm sio_rack \<Rightarrow> bool" where
  "has_unit label s \<longleftrightarrow> rk_mounted s label \<noteq> None"

definition clear_units :: "'m sio_rack \<Rightarrow> 'm sio_rack" where
  "clear_units s = s\<lparr>rk_mounted := (\<lambda>_. None)\<rparr>"

definition add_mainline :: "string \<Rightarrow> 'm sio_rack \<Rightarrow> 'm sio_rack" where
  "add_mainline name s =
     (if rk_mainlines s name \<noteq> None then s
      else s\<lparr>rk_mainlines := (rk_mainlines s)(name \<mapsto> None)\<rparr>)"

definition connect_mainline :: "string \<Rightarrow> string \<Rightarrow> 'm sio_rack \<Rightarrow> bool \<times> 'm sio_rack" where
  "connect_mainline mainline label s =
     (case rk_mainlines s mainline of
        None \<Rightarrow> (False, s)
      | Some _ \<Rightarrow>
          (case get_unit label s of
             None \<Rightarrow> (False, s)
           | Some u \<Rightarrow> (True, s\<lparr>rk_mainlines := (rk_mainlines s)(mainline \<mapsto> Some u),
                                 rk_raw_mainlines := rk_raw_mainlines s @ [u]\<rparr>)))"

definition connect_units ::
    "string \<Rightarrow> string \<Rightarrow> string \<Rightarrow> string \<Rightarrow> 'm sio_rack \<Rightarrow> (bool \<times> 'm sio_rack) result" where
  "connect_units from_label out to_label inp s =
     (case get_unit from_label s of
        None \<Rightarrow> Inr (False, s)
      | Some ufrom \<Rightarrow>
          (case get_unit to_label s of
             None \<Rightarrow> Inr (False, s)
           | Some uto \<Rightarrow>
               let output_id = has_output out (rk_units s ! ufrom);
                   input_id = has_input inp (rk_units s ! uto)
               in if output_id < 0 \<or> input_id < 0 then Inr (False, s)
                  else bind_res (link_connect ufrom output_id
                           (get_input uto input_id (rk_units s ! uto)) (rk_units s))
                         (\<lambda>(r, units). Inr (r, s\<lparr>rk_units := units\<rparr>))))"

section \<open>The backend\<close>

primrec cycle_all ::
    "'m unit_methods \<Rightarrow> nat \<Rightarrow> cycle_type \<Rightarrow> cycle_state \<Rightarrow> nat list \<Rightarrow> ('m, cycle_state) act" where
  "cycle_all M n ty state [] = ret state"
| "cycle_all M n ty state (u # us) =
     bind_act (cycle_line M n u ty) (\<lambda>state'. cycle_all M n ty state' us)"

definition be_cycle :: "'m unit_methods \<Rightarrow> nat \<Rightarrow> cycle_type \<Rightarrow> ('m, cycle_state) act" where
  "be_cycle M n ty = with_state (\<lambda>s. cycle_all M n ty Cycle_Empty (rk_raw_mainlines s))"

definition be_sync_profile :: "'m unit_methods \<Rightarrow> nat \<Rightarrow> prof_loc \<Rightarrow> sync_flag \<Rightarrow> ('m, unit) act" where
  "be_sync_profile M n loc flags = with_state (\<lambda>s.
     for_each (\<lambda>u. sync_line M n u loc flags 0) (rk_raw_mainlines s))"

definition be_profile_sync :: "'m unit_methods \<Rightarrow> nat \<Rightarrow> sync_flag \<Rightarrow> ('m, unit) act" where
  "be_profile_sync M n flags = bind_act (be_cycle M n Cycle_Sync) (\<lambda>_. ret ())"

text \<open>\<open>rack::resync\<close>: build the cache once the global profile says how large a block is.\<close>

definition rack_resync :: "('m, unit) act" where
  "rack_resync = with_state (\<lambda>s.
     case rk_cache s of
       None \<Rightarrow> ret ()
     | Some c \<Rightarrow>
         if cm_block_size c > 0 then ret ()
         else (let bs = uint_of (sp_period (rk_global_profile s) * 2 * sp_channels (rk_global_profile s))
               in case build_cache (rk_heap s) bs c of
                    Inl e \<Rightarrow> raise e
                  | Inr c' \<Rightarrow> modify (\<lambda>s. s\<lparr>rk_cache := Some c'\<rparr>)))"

definition be_sync :: "'m unit_methods \<Rightarrow> nat \<Rightarrow> sync_flag \<Rightarrow> ('m, unit) act" where
  "be_sync M n flags =
     bind_act (if has_flag flags SF_downstream
               then bind_act (be_cycle M n Cycle_Sync) (\<lambda>_. ret ()) else ret ()) (\<lambda>_.
     if has_flag flags SF_sync_duration then be_profile_sync M n flags
     else
       bind_act (if has_flag flags SF_glob_sync then
                   bind_act (be_sync_profile M n Loc_Global flags) (\<lambda>_. rack_resync)
                 else if has_flag flags SF_upstream then with_state (\<lambda>s.
                   for_each (\<lambda>u.
                     bind_act (modify (\<lambda>t. t\<lparr>rk_local_profile := rk_global_profile t\<rparr>)) (\<lambda>_.
                     sync_line M n u Loc_Local flags 0)) (rk_raw_mainlines s))
                 else ret ()) (\<lambda>_.
       bind_act (be_cycle M n Cycle_Sync) (\<lambda>_. ret ())))"

text \<open>\<open>profile_line\<close> syncs the unit in a socket; a socket nothing is plugged into is null.\<close>

definition profile_line ::
    "'m unit_methods \<Rightarrow> nat \<Rightarrow> prof_loc \<Rightarrow> string \<Rightarrow> ('m, bool) act" where
  "profile_line M n loc mainline = with_state (\<lambda>s.
     case rk_mainlines s mainline of
       None \<Rightarrow> ret False
     | Some None \<Rightarrow> raise Null_Deref
     | Some (Some u) \<Rightarrow> bind_act (sync_line M n u loc 0 0) (\<lambda>_. ret True))"

section \<open>The rack\<close>

definition rack_warmup :: "'m unit_methods \<Rightarrow> nat \<Rightarrow> ('m, unit) act" where
  "rack_warmup M n =
     bind_act (be_cycle M n Cycle_Warmup) (\<lambda>_.
     bind_act (be_cycle M n Cycle_Sync) (\<lambda>_.
     be_sync M n SF_glob_sync))"

definition rack_resync_step :: "'m unit_methods \<Rightarrow> nat \<Rightarrow> ('m, unit) act" where
  "rack_resync_step M n = with_state (\<lambda>s.
     if rk_resync_flags s \<noteq> 0 then
       bind_act (if has_flag (rk_resync_flags s) SF_upstream
                 then bind_act (be_sync M n SF_upstream) (\<lambda>_.
                      modify (\<lambda>s. s\<lparr>rk_resync_flags := rk_resync_flags s XOR SF_upstream\<rparr>))
                 else ret ()) (\<lambda>_.
       bind_act (with_state (\<lambda>s. be_sync M n (rk_resync_flags s))) (\<lambda>_.
       modify (\<lambda>s. s\<lparr>rk_resync_flags := 0\<rparr>)))
     else bind_act (be_cycle M n Cycle_Sync) (\<lambda>_. ret ()))"

definition rack_pass :: "'m unit_methods \<Rightarrow> nat \<Rightarrow> ('m, unit) act" where
  "rack_pass M n =
     bind_act (be_cycle M n Cycle_Ac) (\<lambda>_.
     bind_act (with_state (\<lambda>s.
       if rk_resync s then bind_act (rack_resync_step M n) (\<lambda>_. modify (\<lambda>s. s\<lparr>rk_resync := False\<rparr>))
       else ret ())) (\<lambda>_.
     modify (\<lambda>s. s\<lparr>rk_cycle_queue := rk_cycle_queue s - 1\<rparr>)))"

datatype pass_end = Pass_Done | Pass_Bail | Pass_Crash sio_error

definition rack_try :: "'m unit_methods \<Rightarrow> nat \<Rightarrow> 'm sio_rack \<Rightarrow> pass_end \<times> 'm sio_rack" where
  "rack_try M n s =
     (case rack_pass M n s of
        (Inr _, s') \<Rightarrow> (Pass_Done, s')
      | (Inl e, s') \<Rightarrow>
          (case e of Cache_Drain _ \<Rightarrow> (Pass_Bail, s') | Cache_Nullptr _ \<Rightarrow> (Pass_Bail, s')
           | _ \<Rightarrow> (Pass_Crash e, s')))"

text \<open>The loop over the queued cycles, for at most \<open>k\<close> passes; \<open>None\<close> when it would go on.\<close>

primrec rack_drain ::
    "'m unit_methods \<Rightarrow> nat \<Rightarrow> nat \<Rightarrow> 'm sio_rack \<Rightarrow> (pass_end \<times> 'm sio_rack) option" where
  "rack_drain M n 0 s = (if rk_cycle_queue s \<le> 0 then Some (Pass_Done, s) else None)"
| "rack_drain M n (Suc k) s =
     (if rk_cycle_queue s \<le> 0 then Some (Pass_Done, s)
      else case rack_try M n s of
        (Pass_Done, s') \<Rightarrow> rack_drain M n k s'
      | r \<Rightarrow> Some r)"

section \<open>One pass of the worker on a daisychain\<close>

definition line_ready :: "nat \<Rightarrow> nat list \<Rightarrow> nat \<Rightarrow> 'm sio_rack \<Rightarrow> bool" where
  "line_ready m us d s \<longleftrightarrow> rk_raw_mainlines s = [m] \<and> daisychain (m # us @ [d]) s
     \<and> u_class (rk_units s ! m) = Mainline_Class
     \<and> (\<forall>u \<in> set us. u_class (rk_units s ! u) = Plain_Class \<and> \<not> u_upstream (rk_units s ! u))
     \<and> u_class (rk_units s ! d) = Dispatch_Class \<and> u_rack (rk_units s ! d)"

text \<open>Either there is no cache, or it has been built.\<close>

definition cache_built :: "'m sio_rack \<Rightarrow> bool" where
  "cache_built s \<longleftrightarrow> (case rk_cache s of None \<Rightarrow> True | Some c \<Rightarrow> 0 < cm_block_size c)"

lemma line_ready_lt: "line_ready m us d s \<Longrightarrow> u \<in> set (m # us @ [d]) \<Longrightarrow> u < length (rk_units s)"
  unfolding line_ready_def using daisychain_lt by blast

lemma line_ready_same:
  assumes "line_ready m us d s" and sh: "rack_shape s' = rack_shape s"
    and up: "\<And>u. u \<in> set us \<Longrightarrow> u_upstream (rk_units s' ! u) = u_upstream (rk_units s ! u)"
  shows "line_ready m us d s'"
proof -
  have "u_class (rk_units s' ! u) = u_class (rk_units s ! u) \<and> u_rack (rk_units s' ! u) = u_rack (rk_units s ! u)"
    if "u \<in> set (m # us @ [d])" for u
    using shape_links(3,4) [OF sh] shape_unit(1) [OF sh] line_ready_lt [OF assms(1) that] by simp
  moreover have "rk_raw_mainlines s' = rk_raw_mainlines s" using sh by (simp add: rack_shape_def)
  ultimately show ?thesis
    using assms(1) up daisychain_shape [OF sh] by (simp add: line_ready_def)
qed

lemma line_ready_line_only:
  assumes "line_ready m us d s" and "line_only s s'"
  shows "line_ready m us d s'"
proof (rule line_ready_same [OF assms(1) line_onlyD(9) [OF assms(2)]])
  fix u assume "u \<in> set us"
  then have "u < length (rk_units s)" using line_ready_lt [OF assms(1)] by simp
  from forget_lineD(4) [OF line_onlyD(2) [OF assms(2) this]]
  show "u_upstream (rk_units s' ! u) = u_upstream (rk_units s ! u)" .
qed

lemma ready_cycle:
  assumes "quiet_methods M" and "line_ready m us d s" and "length us + 2 < n" and "ty \<noteq> Cycle_Warmup"
  shows "\<exists>r s1. be_cycle M n ty s = (Inr r, s1) \<and> line_only s s1"
proof -
  have "rk_raw_mainlines s = [m]" "daisychain (m # us @ [d]) s"
    using assms(2) by (simp_all add: line_ready_def)
  moreover obtain r s1 where "cycle_line M n m ty s = (Inr r, s1)" "line_only s s1"
    using chain_cycle [OF assms(1,4) calculation(2), of n] assms(3) by auto
  ultimately show ?thesis by (auto simp: be_cycle_def act_defs)
qed

lemma rack_resync_built:
  "cache_built s \<Longrightarrow> rack_resync s = (Inr (), s)"
  by (auto simp: rack_resync_def cache_built_def act_defs split: option.splits)

text \<open>The upstream sync of the backend when the state of the mainline differs from the state the
  dispatch unit has published.\<close>

lemma ready_upstream:
  fixes s :: "'m sio_rack"
  assumes q: "quiet_methods M" and r: "line_ready m us d s" and n: "length us + 2 < n"
    and st: "st = sp_state (u_unit_profile (rk_units s ! m))"
      "st \<noteq> sp_state (u_global_profile (rk_units s ! d))"
  shows "\<exists>s'. be_sync M n SF_upstream s = (Inr (), s') \<and> line_ready m us d s'
    \<and> sp_state (u_unit_profile (rk_units s' ! d)) = st
    \<and> rk_resync s' \<and> rk_resync_flags s' = rk_resync_flags s OR SF_glob_sync
    \<and> rk_cycle_queue s' = rk_cycle_queue s + (if st = line_state_int Line_Active then 1 else 0)
    \<and> rk_cache s' = rk_cache s"
proof -
  have ready: "rk_raw_mainlines s = [m]" "daisychain (m # us @ [d]) s"
    "u_class (rk_units s ! m) = Mainline_Class"
    "\<And>u. u \<in> set us \<Longrightarrow> u_class (rk_units s ! u) = Plain_Class \<and> \<not> u_upstream (rk_units s ! u)"
    "u_class (rk_units s ! d) = Dispatch_Class" "u_rack (rk_units s ! d)"
    using r by (simp_all add: line_ready_def)
  have lt: "m < length (rk_units s)" "d < length (rk_units s)"
    using line_ready_lt [OF r] by simp_all
  have ne: "m \<noteq> d" "d \<notin> set us" "m \<notin> set us"
    using daisychain_distinct [OF ready(2)] by auto
  define t where "t = s\<lparr>rk_local_profile := rk_global_profile s\<rparr>"
  have sh: "rack_shape t = rack_shape s" by (simp add: t_def rack_shape_def)
  have units: "rk_units t = rk_units s" by (simp add: t_def)
  have up: "up_flags SF_upstream" by (simp add: up_flags_def)
  have "daisychain (m # us @ [d]) t" using daisychain_shape [OF sh] ready(2) by simp
  from mainline_upstream [OF q up _ _ this, of Loc_Local n st 0] n ready(3-6) st(1) units
  obtain x where x: "sync_line M n m Loc_Local SF_upstream 0 t = (Inr (), accept_state d st
      (on_units us (set_state st) (store_profile Loc_Local ((load_profile Loc_Local t)\<lparr>sp_state := st\<rparr>)
        (upd_unit m (\<lambda>z. z\<lparr>u_upstream := False\<rparr>) (t\<lparr>rk_user := x\<rparr>)))))"
    by auto
  define y where "y = on_units us (set_state st)
      (store_profile Loc_Local ((load_profile Loc_Local t)\<lparr>sp_state := st\<rparr>)
        (upd_unit m (\<lambda>z. z\<lparr>u_upstream := False\<rparr>) (t\<lparr>rk_user := x\<rparr>)))"
  have ylen: "length (rk_units y) = length (rk_units s)" by (simp add: y_def units upd_unit_def)
  have yd: "rk_units y ! d = rk_units s ! d"
    using lt ne by (simp add: y_def on_units_nth upd_unit_nth units upd_unit_def upd_nth_nth)
  have ysh: "rack_shape y = rack_shape s"
  proof -
    have "rack_shape (upd_unit m (\<lambda>z. z\<lparr>u_upstream := False\<rparr>) (t\<lparr>rk_user := x\<rparr>)) = rack_shape s"
      by (simp add: shape_upd_unit sh unit_shape_def)
    then show ?thesis unfolding y_def by (simp add: shape_on_units del: store_profile.simps)
  qed
  have yup: "u_upstream (rk_units y ! u) = u_upstream (rk_units s ! u)" if "u \<in> set us" for u
    using that line_ready_lt [OF r, of u] ne
    by (auto simp: y_def on_units_nth upd_unit_nth units upd_unit_def upd_nth_nth set_state_def)
  have yf: "rk_resync_flags y = rk_resync_flags s" "rk_cycle_queue y = rk_cycle_queue s"
    "rk_cache y = rk_cache s"
    by (simp_all add: y_def on_units_def upd_unit_def t_def)
  define w where "w = accept_state d st y"
  have wu: "rk_units w = upd_nth d (set_state st) (rk_units y)"
    and wf: "rk_resync w" "rk_resync_flags w = rk_resync_flags s OR SF_glob_sync"
      "rk_cycle_queue w = rk_cycle_queue s + (if st = line_state_int Line_Active then 1 else 0)"
      "rk_cache w = rk_cache s"
    using st(2) yd yf by (simp_all add: w_def accept_state_def Let_def rack_trigger_sync_def
        rack_trigger_cycle_def upd_unit_def SF_glob_sync_def)
  have wsh: "rack_shape w = rack_shape s"
    using ysh by (simp add: w_def accept_state_def Let_def shape_upd_unit)
  have wr: "line_ready m us d w"
  proof (rule line_ready_same [OF r wsh])
    show "u_upstream (rk_units w ! u) = u_upstream (rk_units s ! u)" if "u \<in> set us" for u
      using that yup [OF that] line_ready_lt [OF r, of u] ylen
      by (auto simp: wu upd_nth_nth set_state_def)
  qed
  obtain r2 z where z: "be_cycle M n Cycle_Sync w = (Inr r2, z)" "line_only w z"
    using ready_cycle [OF q wr n, of Cycle_Sync] by auto
  note lo = line_onlyD [OF z(2)]
  have dw: "d < length (rk_units w)" using lt ylen by (simp add: wu)
  have "sp_state (u_unit_profile (rk_units w ! d)) = st"
    using lt ylen by (simp add: wu upd_nth_nth set_state_def)
  then have "sp_state (u_unit_profile (rk_units z ! d)) = st"
    using forget_lineD(1) [OF lo(2) [OF dw]] by simp
  moreover have "be_sync M n SF_upstream s = (Inr (), z)"
    using x z(1) ready(1) unfolding y_def [symmetric] w_def [symmetric]
    by (simp add: be_sync_def with_state_def bind_act_def ret_def modify_def t_def [symmetric])
  ultimately show ?thesis
    using line_ready_line_only [OF wr z(2)] wf lo(5-8) by auto
qed

lemma glob_pass_not_flushing: "sp_state (glob_pass z p) \<noteq> line_state_int Line_Flushing"
  by (simp add: glob_pass_def unflush_def)

lemma glob_pass_dispatch:
  assumes "u_class z = Dispatch_Class" and "sp_state p \<noteq> line_state_int Line_Flushing"
    and "sp_state (u_unit_profile z) \<noteq> line_state_int Line_Flushing"
  shows "sp_state (glob_pass z p) = sp_state (u_unit_profile z)"
  using assms by (simp add: glob_pass_def unflush_def dispatch_glob_def apply_unit_profile_def)

text \<open>The global sync publishes the state of the dispatch unit.\<close>

lemma ready_global:
  assumes q: "quiet_methods M" and r: "line_ready m us d s" and n: "length us + 2 < n"
    and st: "st = sp_state (u_unit_profile (rk_units s ! d))" "st \<noteq> line_state_int Line_Flushing"
    and built: "cache_built s"
  shows "\<exists>s'. be_sync M n SF_glob_sync s = (Inr (), s')
    \<and> (\<forall>u \<in> set (m # us @ [d]). sp_state (u_global_profile (rk_units s' ! u)) = st)
    \<and> sp_state (rk_global_profile s') = st \<and> rk_cycle_queue s' = rk_cycle_queue s"
proof -
  let ?us = "m # us @ [d]"
  have ready: "rk_raw_mainlines s = [m]" "daisychain ?us s" "u_class (rk_units s ! d) = Dispatch_Class"
    using r by (simp_all add: line_ready_def)
  define p where "p = fold (\<lambda>u. glob_pass (rk_units s ! u)) ?us (rk_global_profile s)"
  have "\<exists>p0 z. p = glob_pass (rk_units s ! d) (glob_pass z p0)"
  proof (cases us rule: rev_cases)
    case Nil
    then show ?thesis by (auto simp: p_def)
  next
    case (snoc vs v)
    then show ?thesis by (auto simp: p_def)
  qed
  then have pst: "sp_state p = st"
    using glob_pass_dispatch [OF ready(3)] glob_pass_not_flushing st by metis
  have "glob_flags SF_glob_sync" by (simp add: glob_flags_def)
  from chain_glob [OF q this _ ready(2), of Loc_Global n p 0] n obtain x where
    "sync_line M n m Loc_Global SF_glob_sync 0 s
      = (Inr (), store_profile Loc_Global p (publish ?us p (s\<lparr>rk_user := x\<rparr>)))"
    by (auto simp: p_def)
  moreover define t where "t = store_profile Loc_Global p (publish ?us p (s\<lparr>rk_user := x\<rparr>))"
  ultimately have sync: "sync_line M n m Loc_Global SF_glob_sync 0 s = (Inr (), t)" by simp
  have tr: "line_ready m us d t"
  proof (rule line_ready_same [OF r])
    show "rack_shape t = rack_shape s" by (simp add: t_def del: store_profile.simps)
    show "u_upstream (rk_units t ! u) = u_upstream (rk_units s ! u)" if "u \<in> set us" for u
      using that line_ready_lt [OF r, of u] by (auto simp: t_def on_units_nth take_global_def)
  qed
  have tg: "sp_state (u_global_profile (rk_units t ! u)) = st" if "u \<in> set ?us" for u
    using that line_ready_lt [OF r that] pst by (auto simp: t_def on_units_nth take_global_def copy_global_def)
  have "cache_built t" using built by (simp add: t_def cache_built_def on_units_def)
  note res = rack_resync_built [OF this]
  obtain r2 z where z: "be_cycle M n Cycle_Sync t = (Inr r2, z)" "line_only t z"
    using ready_cycle [OF q tr n, of Cycle_Sync] by auto
  note lo = line_onlyD [OF z(2)]
  have "sp_state (u_global_profile (rk_units z ! u)) = st" if "u \<in> set ?us" for u
    using tg [OF that] forget_lineD(2) [OF lo(2) [OF line_ready_lt [OF tr that]]] by simp
  moreover have "be_sync M n SF_glob_sync s = (Inr (), z)"
    using sync res z(1) ready(1)
    by (simp add: be_sync_def be_sync_profile_def with_state_def bind_act_def ret_def)
  moreover have "sp_state (rk_global_profile z) = st" "rk_cycle_queue z = rk_cycle_queue s"
    using lo(4,7) pst by (simp_all add: t_def on_units_def)
  ultimately show ?thesis by blast
qed

section \<open>Warming up\<close>

text \<open>The concrete units prepare themselves in \<open>init\<close>: they register metrics of their own, so their unit
  profile changes (\<open>reg\<close> is what unit \<open>u\<close> makes of its profile), and they touch their own data.\<close>

definition inits_register :: "(nat \<Rightarrow> sync_profile \<Rightarrow> sync_profile) \<Rightarrow> 'm unit_methods \<Rightarrow> bool" where
  "inits_register reg M \<longleftrightarrow> (\<forall>u s. \<exists>x. vm_init M u s = (Inr Complete,
     upd_unit u (\<lambda>z. z\<lparr>u_unit_profile := reg u (u_unit_profile z)\<rparr>) (s\<lparr>rk_user := x\<rparr>)))"

definition warmed :: "(nat \<Rightarrow> sync_profile \<Rightarrow> sync_profile) \<Rightarrow> nat \<Rightarrow> sio_unit \<Rightarrow> sio_unit" where
  "warmed reg u z = (if after_inactive (u_cstate z) then z
     else z\<lparr>u_unit_profile := reg u (u_unit_profile z), u_cstate := Cmpt_Active\<rparr>)"

definition warm_units ::
    "(nat \<Rightarrow> sync_profile \<Rightarrow> sync_profile) \<Rightarrow> nat list \<Rightarrow> 'm sio_rack \<Rightarrow> 'm sio_rack" where
  "warm_units reg us s = s\<lparr>rk_units := map (\<lambda>i. if i \<in> set us then warmed reg i (rk_units s ! i)
       else rk_units s ! i) [0..<length (rk_units s)]\<rparr>"

lemma warmed_active: "u_cstate (warmed reg u z) = Cmpt_Active"
  by (cases "u_cstate z") (simp_all add: warmed_def after_inactive_def)

lemma shape_warmed [simp]: "unit_shape (warmed reg u z) = unit_shape z"
  by (simp add: warmed_def unit_shape_def)

lemma length_warm_units [simp]: "length (rk_units (warm_units reg us s)) = length (rk_units s)"
  by (simp add: warm_units_def)

lemma warm_units_nth:
  "v < length (rk_units s) \<Longrightarrow> v \<in> set us \<Longrightarrow>
     rk_units (warm_units reg us s) ! v = warmed reg v (rk_units s ! v)"
  by (simp add: warm_units_def)

lemma shape_warm_units: "rack_shape (warm_units reg us s) = rack_shape s"
proof -
  have "map unit_shape (map (\<lambda>i. if i \<in> set us then warmed reg i (zs ! i) else zs ! i) [0..<length zs])
      = map unit_shape zs" for zs
    by (intro nth_equalityI) auto
  then show ?thesis by (simp add: rack_shape_def warm_units_def)
qed

lemma warm_units_Cons:
  assumes "u \<notin> set us"
  shows "warm_units reg us ((upd_unit u (warmed reg u) s)\<lparr>rk_user := x\<rparr>)
    = warm_units reg (u # us) (s\<lparr>rk_user := x\<rparr>)"
proof -
  have "map (\<lambda>i. if i \<in> set us then warmed reg i (upd_nth u (warmed reg u) zs ! i)
        else upd_nth u (warmed reg u) zs ! i) [0..<length zs]
     = map (\<lambda>i. if i \<in> set (u # us) then warmed reg i (zs ! i) else zs ! i) [0..<length zs]" for zs
    using assms by (intro nth_equalityI) (auto simp: upd_nth_nth)
  from this [of "rk_units s"] show ?thesis
    by (simp add: upd_unit_def warm_units_def del: map_eq_conv cong: if_cong)
qed

lemma warm_units_single: "upd_unit u (warmed reg u) s = warm_units reg [u] s"
proof -
  have "upd_nth u (warmed reg u) zs
     = map (\<lambda>i. if i = u then warmed reg i (zs ! i) else zs ! i) [0..<length zs]" for zs
    by (intro nth_equalityI) (auto simp: upd_nth_nth)
  from this [of "rk_units s"] show ?thesis
    by (simp add: upd_unit_def warm_units_def del: map_eq_conv cong: if_cong)
qed

lemma switch_warmup:
  assumes "inits_register reg M" and u: "u < length (rk_units s)"
  shows "\<exists>x. cycle_switch M sync u Cycle_Warmup s
    = (Inr Complete, upd_unit u (warmed reg u) (s\<lparr>rk_user := x\<rparr>))"
proof (cases "after_inactive (u_cstate (rk_units s ! u))")
  case True
  then have "warmed reg u (rk_units s ! u) = rk_units s ! u" by (simp add: warmed_def)
  then have "upd_unit u (warmed reg u) (s\<lparr>rk_user := rk_user s\<rparr>) = s" using u by (simp add: upd_unit_id)
  with True show ?thesis
    by (intro exI [of _ "rk_user s"]) (simp add: cycle_switch_def act_defs)
next
  case False
  obtain x where x: "vm_init M u s = (Inr Complete,
      upd_unit u (\<lambda>z. z\<lparr>u_unit_profile := reg u (u_unit_profile z)\<rparr>) (s\<lparr>rk_user := x\<rparr>))"
    using assms(1) by (auto simp: inits_register_def)
  have "upd_nth u (\<lambda>z. z\<lparr>u_cstate := Cmpt_Active\<rparr>)
      (upd_nth u (\<lambda>z. z\<lparr>u_unit_profile := reg u (u_unit_profile z)\<rparr>) (rk_units s))
    = upd_nth u (warmed reg u) (rk_units s)"
    using False by (intro nth_equalityI) (auto simp: upd_nth_nth warmed_def)
  then show ?thesis using x False
    by (intro exI [of _ x]) (simp add: cycle_switch_def act_defs upd_unit_def)
qed

lemma chain_warmup:
  fixes s :: "'m sio_rack"
  assumes q: "inits_register reg M"
  shows "daisychain us s \<Longrightarrow> length us \<le> n \<Longrightarrow>
    \<exists>x. cycle_line M n (hd us) Cycle_Warmup s = (Inr Complete, warm_units reg us (s\<lparr>rk_user := x\<rparr>))"
proof (induction us arbitrary: s n rule: induct_list012)
  case 1
  then show ?case by simp
next
  case (2 u)
  then obtain k where n: "n = Suc k" by (cases n) auto
  from 2 have u: "u < length (rk_units s)" "no_link u s" by simp_all
  obtain x where x: "cycle_switch M (sync_line M k) u Cycle_Warmup s
      = (Inr Complete, upd_unit u (warmed reg u) (s\<lparr>rk_user := x\<rparr>))"
    using switch_warmup [OF q u(1)] by blast
  let ?s1 = "upd_unit u (warmed reg u) (s\<lparr>rk_user := x\<rparr>)"
  have sh: "rack_shape ?s1 = rack_shape s" by (simp add: shape_upd_unit)
  have "no_link u ?s1" using sole_link_shape(2) [OF sh] u by simp
  note c = cycle_none [OF this]
  with u(1) x show ?case
    by (intro exI [of _ x]) (simp add: n cycle_body_def act_defs after_complete_def warm_units_single)
next
  case (3 u v us)
  then obtain k where n: "n = Suc k" by (cases n) auto
  from "3.prems" have u: "u < length (rk_units s)" "sole_link u v s" "daisychain (v # us) s"
    "u \<notin> set (v # us)" by simp_all
  obtain x where x: "cycle_switch M (sync_line M k) u Cycle_Warmup s
      = (Inr Complete, upd_unit u (warmed reg u) (s\<lparr>rk_user := x\<rparr>))"
    using switch_warmup [OF q u(1)] by blast
  let ?s1 = "upd_unit u (warmed reg u) (s\<lparr>rk_user := x\<rparr>)"
  have sh: "rack_shape ?s1 = rack_shape s" by (simp add: shape_upd_unit)
  have u1: "u < length (rk_units ?s1)" "sole_link u v ?s1" "daisychain (v # us) ?s1"
    using u sole_link_shape(1) [OF sh] daisychain_shape [OF sh] by simp_all
  obtain y where "cycle_line M k (hd (v # us)) Cycle_Warmup ?s1
      = (Inr Complete, warm_units reg (v # us) (?s1\<lparr>rk_user := y\<rparr>))"
    using "3.IH"(2) [OF u1(3), of k] "3.prems"(2) n by auto
  then have y: "cycle_line M k v Cycle_Warmup ?s1
      = (Inr Complete, warm_units reg (u # v # us) (s\<lparr>rk_user := y\<rparr>))"
    using warm_units_Cons [OF u(4), where reg = reg and s = "s\<lparr>rk_user := x\<rparr>" and x = y] by simp
  have sh2: "rack_shape (warm_units reg (u # v # us) (s\<lparr>rk_user := y\<rparr>)) = rack_shape ?s1"
    by (simp add: shape_warm_units sh)
  note c = cycle_sole [of u v ?s1 "cycle_line M k", OF u1(2,1) y sh2]
  show ?case using u(1) x c
    by (intro exI [of _ y]) (simp add: n cycle_body_def act_defs after_complete_def)
qed

text \<open>The cycles and the global sync of any daisychain that is the only mainline of the rack.\<close>

lemma chain_be_cycle:
  assumes "quiet_methods M" and "daisychain us s" and "rk_raw_mainlines s = [hd us]"
    and "length us < n" and "ty \<noteq> Cycle_Warmup"
  shows "\<exists>r s1. be_cycle M n ty s = (Inr r, s1) \<and> line_only s s1"
  using chain_cycle [OF assms(1,5,2,4)] assms(3) by (auto simp: be_cycle_def act_defs)

lemma glob_pass_same:
  "u_unit_profile z = u_unit_profile z' \<Longrightarrow> u_class z = u_class z' \<Longrightarrow> glob_pass z = glob_pass z'"
  by (simp add: glob_pass_def fun_eq_iff)

lemma warmup_steps:
  fixes s :: "'m sio_rack"
  assumes q: "quiet_methods M" "inits_register reg M" and d: "daisychain us s"
    and raw: "rk_raw_mainlines s = [hd us]" and n: "length us < n"
    and p: "p = fold (\<lambda>u. glob_pass (warmed reg u (rk_units s ! u))) us (rk_global_profile s)"
    and c: "rk_cache s = Some (cache_manager_make (int k))" "k < 4294967296"
    and bs: "bs = sp_period p * 2 * sp_channels p" "0 < bs" "bs < 4294967296"
    and fit: "0 < k" "nat bs * k < 4294967296" "0 < rk_heap s"
  shows "\<exists>s' c'. rack_warmup M n s = (Inr (), s') \<and> rk_global_profile s' = p
    \<and> (\<forall>u \<in> set us. u_cstate (rk_units s' ! u) = Cmpt_Active
        \<and> u_unit_profile (rk_units s' ! u) = u_unit_profile (warmed reg u (rk_units s ! u))
        \<and> u_global_profile (rk_units s' ! u) = copy_global p (u_global_profile (rk_units s ! u)))
    \<and> rk_cache s' = Some c' \<and> cache_inv c' \<and> cache_segs c' = Some [(False, k)]
    \<and> cm_block_size c' = nat bs"
proof -
  have lt: "u < length (rk_units s)" if "u \<in> set us" for u using daisychain_lt [OF d that] .
  obtain x where w: "cycle_line M n (hd us) Cycle_Warmup s
      = (Inr Complete, warm_units reg us (s\<lparr>rk_user := x\<rparr>))"
    using chain_warmup [OF q(2) d, of n] n by auto
  define s1 where "s1 = warm_units reg us (s\<lparr>rk_user := x\<rparr>)"
  have sh1: "rack_shape s1 = rack_shape s" by (simp add: s1_def shape_warm_units)
  have d1: "daisychain us s1" "rk_raw_mainlines s1 = [hd us]"
    using d daisychain_shape [OF sh1] raw by (simp_all add: s1_def warm_units_def)
  have b1: "be_cycle M n Cycle_Warmup s = (Inr Complete, s1)"
    using w raw by (simp add: be_cycle_def act_defs s1_def)
  obtain r2 s2 where s2: "be_cycle M n Cycle_Sync s1 = (Inr r2, s2)" "line_only s1 s2"
    using chain_be_cycle [OF q(1) d1 n, of Cycle_Sync] by auto
  note l2 = line_onlyD [OF s2(2)]
  have d2: "daisychain us s2" "rk_raw_mainlines s2 = [hd us]"
    using d1 daisychain_shape [OF l2(9)] l2(3) by simp_all
  have "glob_pass (rk_units s2 ! u) = glob_pass (warmed reg u (rk_units s ! u))" if "u \<in> set us" for u
  proof -
    have f: "forget_line (rk_units s2 ! u) = forget_line (rk_units s1 ! u)"
      using l2(2) lt [OF that] by (simp add: s1_def)
    have "rk_units s1 ! u = warmed reg u (rk_units s ! u)"
      using lt [OF that] that by (simp add: s1_def warm_units_nth)
    then show ?thesis
      using forget_lineD(1) [OF f] forget_lineD(3) [OF f]
      by (intro glob_pass_same) simp_all
  qed
  moreover have "rk_global_profile s2 = rk_global_profile s" using l2(4) by (simp add: s1_def warm_units_def)
  ultimately have p2: "p = fold (\<lambda>u. glob_pass (rk_units s2 ! u)) us (load_profile Loc_Global s2)"
    using p by (simp cong: fold_cong)
  have "glob_flags SF_glob_sync" by (simp add: glob_flags_def)
  from chain_glob [OF q(1) this _ d2(1) _ _ p2, of n 0] n obtain y where
    y: "sync_line M n (hd us) Loc_Global SF_glob_sync 0 s2
      = (Inr (), store_profile Loc_Global p (publish us p (s2\<lparr>rk_user := y\<rparr>)))" by auto
  define s3 where "s3 = store_profile Loc_Global p (publish us p (s2\<lparr>rk_user := y\<rparr>))"
  have f3: "rk_global_profile s3 = p" "rk_cache s3 = rk_cache s" "rk_raw_mainlines s3 = [hd us]"
    "rk_heap s3 = rk_heap s"
    using l2(8) d2(2) s2(2) by (auto simp: s3_def on_units_def warm_units_def s1_def line_only_def)
  have sh3: "rack_shape s3 = rack_shape s2" by (simp add: s3_def del: store_profile.simps)
  have ub: "uint_of bs = nat bs" using bs by (simp add: uint_of_small)
  obtain c' where c': "build_cache (rk_heap s) (nat bs) (cache_manager_make (int k)) = Inr c'"
    "cache_inv c'" "cache_segs c' = Some [(False, k)]"
    using build_cache_inv [of k "rk_heap s" "nat bs"] fit bs c(2) by auto
  have bsz: "cm_block_size c' = nat bs"
    using c'(1) fit(1) c(2) by (auto simp: build_cache_def cache_manager_make_def Let_def split: if_splits)
  define s4 where "s4 = s3\<lparr>rk_cache := Some c'\<rparr>"
  have "cm_block_size (cache_manager_make (int k)) = 0" by (simp add: cache_manager_make_def)
  then have r4: "rack_resync s3 = (Inr (), s4)"
    using f3(1,2,4) c(1) c'(1) bs(1) ub by (simp add: rack_resync_def act_defs s4_def)
  have sh4: "rack_shape s4 = rack_shape s2" using sh3 by (simp add: s4_def rack_shape_def)
  have d4: "daisychain us s4" "rk_raw_mainlines s4 = [hd us]"
    using d2 daisychain_shape [OF sh4] f3(3) by (simp_all add: s4_def)
  obtain r5 s5 where s5: "be_cycle M n Cycle_Sync s4 = (Inr r5, s5)" "line_only s4 s5"
    using chain_be_cycle [OF q(1) d4 n, of Cycle_Sync] by auto
  note l5 = line_onlyD [OF s5(2)]
  have "be_sync M n SF_glob_sync s2 = (Inr (), s5)"
    using y r4 s5(1) d2(2)
    by (simp add: be_sync_def be_sync_profile_def with_state_def bind_act_def ret_def s3_def [symmetric]
        del: store_profile.simps)
  then have "rack_warmup M n s = (Inr (), s5)"
    using b1 s2(1) by (simp add: rack_warmup_def bind_act_def)
  moreover have "u_cstate (rk_units s5 ! u) = Cmpt_Active
      \<and> u_unit_profile (rk_units s5 ! u) = u_unit_profile (warmed reg u (rk_units s ! u))
      \<and> u_global_profile (rk_units s5 ! u) = copy_global p (u_global_profile (rk_units s ! u))"
    if u: "u \<in> set us" for u
  proof -
    have ul: "u < length (rk_units s4)" "u < length (rk_units s2)" "u < length (rk_units s1)"
      using lt [OF u] l2(1) by (simp_all add: s4_def s3_def s1_def)
    have z1: "rk_units s1 ! u = warmed reg u (rk_units s ! u)"
      using lt [OF u] u by (simp add: s1_def warm_units_nth)
    have z4: "rk_units s4 ! u = take_global p (rk_units s2 ! u)"
      using ul(2) u by (simp add: s4_def s3_def on_units_nth)
    note f5 = forget_lineD [OF l5(2) [OF ul(1)]] and f2 = forget_lineD [OF l2(2) [OF ul(3)]]
    show ?thesis
      using f5(1,2,5) f2(1,2,5) z1 z4 warmed_active [of reg u "rk_units s ! u"]
      by (simp add: take_global_def warmed_def)
  qed
  moreover have "rk_global_profile s5 = p" "rk_cache s5 = Some c'"
    using l5(4,8) f3(1) by (simp_all add: s4_def)
  ultimately show ?thesis using c'(2,3) bsz by blast
qed

section \<open>Properties\<close>

text \<open>C1. The handshake that changes the state of a daisychain takes one pass of the worker. When
  the mainline unit has registered a new state (active or inactive) and requested an upstream
  sync, the next pass carries the state to the dispatch unit, which asks for a global sync that
  the same pass still runs: at its end every unit of the line and the rack itself have the new
  state in their global profile, no request is left, and one more cycle has been queued
  when the line was turned on.\<close>

theorem rack_state_handshake:
  assumes "quiet_methods M" and "line_ready m us d s" and "length us + 2 < n" and "cache_built s"
    and "rk_resync s" and "rk_resync_flags s = SF_upstream"
    and "st = sp_state (u_unit_profile (rk_units s ! m))" and "st \<noteq> line_state_int Line_Flushing"
    and "st \<noteq> sp_state (u_global_profile (rk_units s ! d))"
  shows "\<exists>s'. rack_pass M n s = (Inr (), s')
    \<and> (\<forall>u \<in> set (m # us @ [d]). sp_state (u_global_profile (rk_units s' ! u)) = st)
    \<and> sp_state (rk_global_profile s') = st \<and> \<not> rk_resync s' \<and> rk_resync_flags s' = 0
    \<and> rk_cycle_queue s' = rk_cycle_queue s - (if st = line_state_int Line_Active then 0 else 1)"
proof -
  obtain r1 s1 where s1: "be_cycle M n Cycle_Ac s = (Inr r1, s1)" "line_only s s1"
    using ready_cycle [OF assms(1-3), of Cycle_Ac] by auto
  note l1 = line_onlyD [OF s1(2)]
  have lt: "m < length (rk_units s)" "d < length (rk_units s)"
    using line_ready_lt [OF assms(2)] by simp_all
  have ready1: "line_ready m us d s1" using line_ready_line_only [OF assms(2) s1(2)] .
  have st1: "st = sp_state (u_unit_profile (rk_units s1 ! m))"
    "st \<noteq> sp_state (u_global_profile (rk_units s1 ! d))"
    using assms(7,9) forget_lineD(1) [OF l1(2) [OF lt(1)]] forget_lineD(2) [OF l1(2) [OF lt(2)]]
    by simp_all
  obtain s2 where s2: "be_sync M n SF_upstream s1 = (Inr (), s2)" "line_ready m us d s2"
    "sp_state (u_unit_profile (rk_units s2 ! d)) = st" "rk_resync_flags s2 = SF_upstream OR SF_glob_sync"
    "rk_cycle_queue s2 = rk_cycle_queue s + (if st = line_state_int Line_Active then 1 else 0)"
    "rk_cache s2 = rk_cache s"
    using ready_upstream [OF assms(1) ready1 assms(3) st1] l1(6-8) assms(6) by auto
  let ?s3 = "s2\<lparr>rk_resync_flags := SF_glob_sync\<rparr>"
  have ready3: "line_ready m us d ?s3"
    using line_ready_same [OF s2(2), of ?s3] by (simp add: rack_shape_def)
  have "cache_built ?s3" using assms(4) s2(6) by (simp add: cache_built_def)
  with ready_global [OF assms(1) ready3 assms(3), of st] s2(3) assms(8) obtain s4 where
    s4: "be_sync M n SF_glob_sync ?s3 = (Inr (), s4)"
      "\<forall>u \<in> set (m # us @ [d]). sp_state (u_global_profile (rk_units s4 ! u)) = st"
      "sp_state (rk_global_profile s4) = st" "rk_cycle_queue s4 = rk_cycle_queue s2"
    by auto
  have x: "(SF_upstream OR SF_glob_sync) XOR SF_upstream = SF_glob_sync"
    "SF_upstream \<noteq> 0" by (simp_all add: sync_flag_defs)
  let ?s5 = "s4\<lparr>rk_resync_flags := 0, rk_resync := False, rk_cycle_queue := rk_cycle_queue s4 - 1\<rparr>"
  have "rack_pass M n s = (Inr (), ?s5)"
    using s1(1) l1(5,6) assms(5,6) s2(1,4) s4(1) x
    by (simp add: rack_pass_def rack_resync_step_def act_defs)
  moreover have "rk_cycle_queue ?s5
      = rk_cycle_queue s - (if st = line_state_int Line_Active then 0 else 1)"
    using s4(4) s2(5) by simp
  ultimately show ?thesis using s4(2,3) by (intro exI [of _ ?s5]) simp
qed

lemma demo_ready: "line_ready 0 [1] 2 demo_rack"
proof -
  have "daisychain (0 # [1] @ [2]) demo_rack" using demo_chain by simp
  then show ?thesis unfolding line_ready_def by (simp add: demo_units demo_units(2) [simplified] demo_rack_def)
qed

theorem rack_state_handshake_witness:
  "\<exists>s'. rack_pass demo_methods 9 demo_rack = (Inr (), s')
    \<and> (\<forall>u \<in> {0, 1, 2}. sp_state (u_global_profile (rk_units s' ! u)) = line_state_int Line_Active)
    \<and> rk_cycle_queue s' = 1"
proof -
  have "cache_built demo_rack" "rk_resync demo_rack" "rk_resync_flags demo_rack = SF_upstream"
    "rk_cycle_queue demo_rack = 1"
    by (simp_all add: cache_built_def demo_rack_def)
  moreover have "line_state_int Line_Active = sp_state (u_unit_profile (rk_units demo_rack ! 0))"
    "line_state_int Line_Active \<noteq> sp_state (u_global_profile (rk_units demo_rack ! 2))"
    by (simp_all add: demo_units sync_profile_zero_def)
  ultimately show ?thesis
    using rack_state_handshake [OF demo_quiet demo_ready, of 9 "line_state_int Line_Active"] by auto
qed

text \<open>C12. Warming up a daisychain makes the rack ready. Let every unit of the line complete its
  \<open>init\<close>, in which it may register metrics in its own unit profile, and let the other calls of the
  units be quiet. When the line is the only mainline of the rack and the cache, so far only
  constructed, can be allocated, then after \<open>warmup\<close> all units of the line are active; the
  profile of the rack is the one folded along the line from the profiles the units have
  registered, and every unit of the line has published it; and the cache has been built with blocks of
  twice the period times the channels of that profile, in its invariant and with all blocks free. A unit
  that was active before is not initialised again.\<close>

theorem rack_warmup_readies:
  assumes "quiet_methods M" and "inits_register reg M" and "daisychain us s"
    and "rk_raw_mainlines s = [hd us]" and "length us < n"
    and "p = fold (\<lambda>u. glob_pass (warmed reg u (rk_units s ! u))) us (rk_global_profile s)"
    and "rk_cache s = Some (cache_manager_make (int k))" and "k < 4294967296"
    and "bs = sp_period p * 2 * sp_channels p" and "0 < bs" and "bs < 4294967296"
    and "0 < k" and "nat bs * k < 4294967296" and "0 < rk_heap s"
  shows "\<exists>s' c'. rack_warmup M n s = (Inr (), s') \<and> rk_global_profile s' = p
    \<and> (\<forall>u \<in> set us. u_cstate (rk_units s' ! u) = Cmpt_Active
        \<and> u_unit_profile (rk_units s' ! u) = u_unit_profile (warmed reg u (rk_units s ! u))
        \<and> u_global_profile (rk_units s' ! u) = copy_global p (u_global_profile (rk_units s ! u)))
    \<and> rk_cache s' = Some c' \<and> cache_inv c' \<and> cache_segs c' = Some [(False, k)]
    \<and> cm_block_size c' = nat bs"
  using warmup_steps [OF assms] .

text \<open>The rack of the test of the cache management (\<open>Phi\<close> and \<open>Tau\<close> of the test suite): a mainline
  unit that registers two channels at 44100 Hz and a dispatch unit that registers a period of 512,
  both with empty profiles before. The blocks get 2048 samples, where the test asks for 1024.\<close>

definition phi_tau_init :: "nat \<Rightarrow> sync_profile \<Rightarrow> sync_profile" where
  "phi_tau_init u p =
     (if u = 0 then register_metric_int M_Fs 44100 (register_metric_int M_Channels 2 p)
      else register_metric_int M_Period 512 p)"

definition phi_tau_methods :: "unit unit_methods" where
  "phi_tau_methods = demo_methods\<lparr>vm_init := \<lambda>u s. (Inr Complete,
     upd_unit u (\<lambda>z. z\<lparr>u_unit_profile := phi_tau_init u (u_unit_profile z)\<rparr>) s)\<rparr>"

definition phi_tau_rack :: "unit sio_rack" where
  "phi_tau_rack = demo_rack\<lparr>rk_units :=
     [demo_unit_of Mainline_Class sync_profile_zero (Some 1) 0,
      demo_unit_of Dispatch_Class sync_profile_zero None 1],
     rk_cache := Some (cache_manager_make (int 32))\<rparr>"

lemma phi_tau_chain: "daisychain [0, 1] phi_tau_rack"
  by (simp add: phi_tau_rack_def demo_unit_of_def sole_link_def no_link_def link_dest_def
      unit_make_def linkable_make_def)

theorem rack_warmup_readies_witness:
  "\<exists>s' c'. rack_warmup phi_tau_methods 9 phi_tau_rack = (Inr (), s')
    \<and> sp_channels (rk_global_profile s') = 2 \<and> sp_fs (rk_global_profile s') = 44100
    \<and> sp_period (rk_global_profile s') = 512
    \<and> rk_cache s' = Some c' \<and> cache_inv c' \<and> cm_block_size c' = 2048"
proof -
  let ?p = "fold (\<lambda>u. glob_pass (warmed phi_tau_init u (rk_units phi_tau_rack ! u))) [0, 1]
    (rk_global_profile phi_tau_rack)"
  have q: "quiet_methods phi_tau_methods"
    using demo_quiet by (simp add: quiet_methods_def phi_tau_methods_def)
  have e: "s\<lparr>rk_user := ()\<rparr> = s" for s :: "unit sio_rack" by (cases s) simp
  have i: "inits_register phi_tau_init phi_tau_methods"
    by (simp add: inits_register_def phi_tau_methods_def e)
  have p: "sp_period ?p = 512" "sp_channels ?p = 2" "sp_fs ?p = 44100"
    by (simp_all add: phi_tau_rack_def demo_unit_of_def unit_make_def linkable.defs linkable_make_def
        warmed_def after_inactive_def
        phi_tau_init_def glob_pass_def unflush_def dispatch_glob_def apply_unit_profile_def
        sync_profile_zero_def demo_rack_def)
  then have b: "2048 = sp_period ?p * 2 * sp_channels ?p" by simp
  have "rk_raw_mainlines phi_tau_rack = [hd [0, 1]]" "0 < rk_heap phi_tau_rack"
    "rk_cache phi_tau_rack = Some (cache_manager_make (int 32))"
    by (simp_all add: phi_tau_rack_def demo_rack_def)
  from rack_warmup_readies [OF q i phi_tau_chain this(1) _ refl this(3) _ b _ _ _ _ this(2), of 9] p
  show ?thesis by fastforce
qed

text \<open>A cycle reports the state of its first unit only: whatever the units down the line return,
  the result of \<open>cycle_line\<close> is what the unit's own step returned, although the documentation of
  \<open>backend::cycle\<close> promises the state at the end of the call stack.\<close>

theorem cycle_reports_head:
  assumes "cycle_line M (Suc n) u ty s = (Inr r, s')"
  shows "\<exists>s1. cycle_switch M (sync_line M n) u ty s = (Inr r, s1)"
  using assms
  by (auto simp: cycle_body_def act_defs split: if_splits sum.splits prod.splits)

lemma cycle_body_seq:
  "u < length (rk_units s) \<Longrightarrow> cycle_switch M f u ty s = (Inr r, s1) \<Longrightarrow> \<not> after_complete r \<Longrightarrow>
     for_each (cycle_out g u ty) (outputs_of u s1) s1 = (Inr (), s2) \<Longrightarrow>
     cycle_body M f g u ty s = (Inr r, s2)"
  by (simp add: cycle_body_def act_defs)

lemma demo_length: "u < 3 \<Longrightarrow> u < length (rk_units demo_rack)"
  by (simp add: demo_units)

definition failing_methods :: "unit unit_methods" where
  "failing_methods = demo_methods\<lparr>vm_cycle := (\<lambda>u s. (Inr (if u = 0 then Complete else Cycle_Error), s))\<rparr>"

theorem cycle_reports_head_witness:
  "\<exists>s1. cycle_switch failing_methods (sync_line failing_methods 8) 0 Cycle_Ac demo_rack
      = (Inr Complete, s1)"
proof -
  have r: "cycle_line failing_methods (Suc 8) 0 Cycle_Ac demo_rack = (Inr Complete, demo_rack)"
  proof -
    have sw: "cycle_switch failing_methods f u Cycle_Ac demo_rack
        = (Inr (if u = 0 then Complete else Cycle_Error), demo_rack)" if "u < 3" for u f
    proof -
      have "u = 0 \<or> u = 1 \<or> u = 2" using that by auto
      then have "sp_state (u_line_profile (rk_units demo_rack ! u)) = 0"
        using demo_units by (auto simp: sync_profile_zero_def)
      then show ?thesis by (simp add: cycle_switch_def act_defs failing_methods_def)
    qed
    have one: "cycle_line failing_methods (Suc 7) 1 Cycle_Ac demo_rack = (Inr Cycle_Error, demo_rack)"
      unfolding cycle_line.simps
      using sw [of 1] by (simp add: cycle_body_def act_defs demo_units after_complete_def)
    have "sole_link 0 1 demo_rack" using demo_chain by simp
    then have "for_each (cycle_out (cycle_line failing_methods (Suc 7)) 0 Cycle_Ac) (outputs_of 0 demo_rack)
        demo_rack = (Inr (), demo_rack)"
      using cycle_sole [of 0 1 demo_rack "cycle_line failing_methods (Suc 7)" Cycle_Ac Cycle_Error, OF _ _ one]
      by (simp add: demo_units)
    moreover have "cycle_switch failing_methods (sync_line failing_methods 8) 0 Cycle_Ac demo_rack
        = (Inr Complete, demo_rack)" using sw [of 0] by simp
    moreover have "Suc 7 = 8" by simp
    ultimately show ?thesis
      by (simp only: cycle_line.simps(2) [of _ 8])
        (rule cycle_body_seq [OF demo_length]; simp add: after_complete_def)
  qed
  from cycle_reports_head [OF r] show ?thesis .
qed

text \<open>A pass that runs out of blocks keeps its request: after \<open>cache_drain\<close> or \<open>cache_nullptr\<close>
  in the processing of the cycle the worker bails out of the loop with the cycle still counted
  and the requested sync still pending.\<close>

theorem rack_bail_keeps_request:
  assumes "be_cycle M n Cycle_Ac s = (Inl e, s1)" and "e = Cache_Drain c \<or> e = Cache_Nullptr c"
  shows "rack_try M n s = (Pass_Bail, s1)
    \<and> (0 < rk_cycle_queue s \<longrightarrow> rack_drain M n (Suc k) s = Some (Pass_Bail, s1))"
  using assms by (auto simp: rack_try_def rack_pass_def act_defs)

definition draining_methods :: "unit unit_methods" where
  "draining_methods = demo_methods\<lparr>vm_cycle := (\<lambda>u s. (Inl (Cache_Drain ''M::u''), s))\<rparr>"

theorem rack_bail_keeps_request_witness:
  "rack_try draining_methods 9 demo_rack = (Pass_Bail, demo_rack) \<and> rk_cycle_queue demo_rack = 1
    \<and> rk_resync demo_rack"
proof -
  have "be_cycle draining_methods (Suc 8) Cycle_Ac demo_rack = (Inl (Cache_Drain ''M::u''), demo_rack)"
  proof -
    have "rk_raw_mainlines demo_rack = [0]" by (simp add: demo_rack_def)
    moreover have "cycle_line draining_methods (Suc 8) 0 Cycle_Ac demo_rack
        = (Inl (Cache_Drain ''M::u''), demo_rack)"
      unfolding cycle_line.simps
      using demo_length [of 0, simplified]
      by (simp add: cycle_body_def cycle_switch_def act_defs draining_methods_def demo_units
          sync_profile_zero_def)
    ultimately show ?thesis unfolding be_cycle_def with_state_def
      by (simp only: cycle_all.simps bind_act_def ret_def) simp
  qed
  from rack_bail_keeps_request [OF this] show ?thesis by (simp add: demo_rack_def)
qed

lemma has_output_found:
  assumes "links_wf st" and "u < length st" and "0 \<le> has_output out (st ! u)"
  shows "nat (has_output out (st ! u)) < length (lk_outputs (st ! u))
    \<and> lo_label (lk_outputs (st ! u) ! nat (has_output out (st ! u))) = out"
proof -
  obtain o1 where f: "find (\<lambda>i. lo_label i = out) (lk_outputs (st ! u)) = Some o1"
    using assms(3) by (auto simp: has_output_def split: option.splits)
  then obtain k where k: "k < length (lk_outputs (st ! u))" "lo_label (lk_outputs (st ! u) ! k) = out"
    "o1 = lk_outputs (st ! u) ! k" by (auto simp: find_Some_iff)
  then have "lo_id o1 = k" using links_wfD(4) [OF assms(1,2) k(1)] by simp
  with f k show ?thesis by (simp add: has_output_def)
qed

lemma has_input_found:
  assumes "links_wf st" and "u < length st" and "0 \<le> has_input inp (st ! u)"
  shows "nat (has_input inp (st ! u)) < length (lk_inputs (st ! u))
    \<and> li_label (lk_inputs (st ! u) ! nat (has_input inp (st ! u))) = inp"
proof -
  obtain i1 where f: "find (\<lambda>i. li_label i = inp) (lk_inputs (st ! u)) = Some i1"
    using assms(3) by (auto simp: has_input_def split: option.splits)
  then obtain k where k: "k < length (lk_inputs (st ! u))" "li_label (lk_inputs (st ! u) ! k) = inp"
    "i1 = lk_inputs (st ! u) ! k" by (auto simp: find_Some_iff)
  then have "li_id i1 = k" using links_wfD(3) [OF assms(1,2) k(1)] by simp
  with f k show ?thesis by (simp add: has_input_def)
qed

text \<open>C22. Connecting by label finds the right ends: when both units are mounted and have links of the
  given labels, \<open>connect_units\<close> connects the first output of that label to the first input of
  that label and keeps the links of the rack consistent.\<close>

theorem connect_units_connects:
  assumes "links_wf (rk_units s)" and "get_unit a s = Some u" and "get_unit b s = Some v"
    and "u < length (rk_units s)" and "v < length (rk_units s)"
    and "0 \<le> has_output out (rk_units s ! u)" and "has_output out (rk_units s ! u) < 4294967296"
    and "0 \<le> has_input inp (rk_units s ! v)" and "has_input inp (rk_units s ! v) < 4294967296"
  shows "\<exists>s' k j. connect_units a out b inp s = Inr (True, s') \<and> links_wf (rk_units s')
    \<and> k < length (lk_outputs (rk_units s ! u)) \<and> lo_label (lk_outputs (rk_units s ! u) ! k) = out
    \<and> j < length (lk_inputs (rk_units s ! v)) \<and> li_label (lk_inputs (rk_units s ! v) ! j) = inp
    \<and> lo_to (lk_outputs (rk_units s' ! u) ! k) = Some (v, j)"
proof -
  let ?st = "rk_units s"
  let ?k = "has_output out (?st ! u)" and ?j = "has_input inp (?st ! v)"
  note o = has_output_found [OF assms(1,4,6)] and i = has_input_found [OF assms(1,5,8)]
  have j: "get_input v ?j (?st ! v) = Some (v, nat ?j)"
    using i assms(8,9) links_wfD(1) [OF assms(1,5)] by (simp add: get_input_def uint_of_small)
  let ?new = "upd_input v (nat ?j) (\<lambda>l. l\<lparr>li_connected := True\<rparr>)
      (upd_output u (nat ?k) (\<lambda>l. l\<lparr>lo_to := Some (v, nat ?j), lo_connected := True\<rparr>) ?st)"
  have c: "link_connect u ?k (Some (v, nat ?j)) ?st = Inr (True, ?new)"
    using o assms(6,7) links_wfD(2) [OF assms(1,4)] by (simp add: link_connect_def uint_of_small)
  have "links_wf ?new"
    using connect_step [OF assms(1,4) _ assms(5) _ refl] o i by blast
  moreover have "connect_units a out b inp s = Inr (True, s\<lparr>rk_units := ?new\<rparr>)"
    using assms(2,3,6,8) j c by (simp add: connect_units_def Let_def)
  moreover have "lo_to (lk_outputs (?new ! u) ! nat ?k) = Some (v, nat ?j)"
    using assms(4) o by (simp add: upd_nth_nth)
  ultimately show ?thesis using o i
    by (intro exI [of _ "s\<lparr>rk_units := ?new\<rparr>"] exI [of _ "nat ?k"] exI [of _ "nat ?j"]) simp
qed

text \<open>Two units as the assembler mounts them.\<close>

definition demo_mounted :: "unit sio_rack" where
  "demo_mounted = add_unit (add_input 1 ''in'' (unit_make Dispatch_Class UT_Dispatch ''Tau'' ''t''))
     (add_unit (add_output ''out'' (unit_make Mainline_Class UT_Mainline ''Phi'' ''p'')) (rack_make ()))"

theorem connect_units_connects_witness:
  "\<exists>s'. connect_units ''p'' ''out'' ''t'' ''in'' demo_mounted = Inr (True, s') \<and> links_wf (rk_units s')
    \<and> lo_to (lk_outputs (rk_units s' ! 0) ! 0) = Some (1, 0)"
proof -
  have f: "links_wf (rk_units demo_mounted)" "get_unit ''p'' demo_mounted = Some 0"
    "get_unit ''t'' demo_mounted = Some 1" "length (rk_units demo_mounted) = 2"
    "has_output ''out'' (rk_units demo_mounted ! 0) = 0" "has_input ''in'' (rk_units demo_mounted ! 1) = 0"
    "length (lk_outputs (rk_units demo_mounted ! 0)) = 1" "length (lk_inputs (rk_units demo_mounted ! 1)) = 1"
    by (simp_all add: demo_mounted_def add_unit_def rack_make_def add_input_def add_output_def
        unit_make_def registrable.defs linkable.defs sio_unit.defs linkable_make_def
        registrable_make_def get_unit_def has_output_def has_input_def links_wf_def Let_def
        less_Suc_eq numeral_2_eq_2)
  have "0 < length (rk_units demo_mounted)" "1 < length (rk_units demo_mounted)"
    "0 \<le> has_output ''out'' (rk_units demo_mounted ! 0)"
    "has_output ''out'' (rk_units demo_mounted ! 0) < 4294967296"
    "0 \<le> has_input ''in'' (rk_units demo_mounted ! 1)"
    "has_input ''in'' (rk_units demo_mounted ! 1) < 4294967296"
    by (simp_all add: f(4-6) del: One_nat_def)
  from connect_units_connects [OF f(1-3) this] f(7,8) show ?thesis by fastforce
qed

end
