(* ===== verification/Event_Loop.thy ===== *)
theory Event_Loop
  imports SIO_Prelude
begin

text \<open>
  The event loop \<^verbatim>\<open>framework/events/loop.cpp\<close>: a singly linked list of messages that many threads
  append to (\<open>add_event\<close>) and a task of the task queue (\<open>cycle_events\<close>) takes apart while they
  do. The mutex protects the tail; the consumer looks at \<open>m_tail_ptr\<close> and at the link of its node
  without it.

  The model is a step relation at the granularity of those accesses. Nodes live in a heap, a
  pointer is an address with 0 as null. A producer is in its critical section
  (\<open>Lock_Link\<close>, \<open>Lock_First\<close>, by which branch it took) or has left it and has still to
  count the event and, in the first branch, to enqueue the task (\<open>el_after\<close>, \<open>el_after_task\<close>).
  Every enqueued task may be picked up at any time by any worker; all tasks ever picked up
  are in the list \<open>el_cons\<close>, with their program counters. \<open>el_sent\<close> and \<open>el_delivered\<close> are
  the histories of the messages accepted and of the calls of listeners. An access to a node that
  has been deleted, or to a message that has been moved out, sets \<open>el_crash\<close>.

  Listeners are added while units are set up; the map of listeners is constant here. What
  an idle thread does is not a step.
\<close>

section \<open>State\<close>

record ev_msg =
  em_type :: int
  em_data :: nat

text \<open>\<open>event_list\<close>: the message, until it is moved out, and the address of the next node.\<close>

type_synonym ev_node = "ev_msg option \<times> nat"

datatype ev_lock = Lock_Free | Lock_Link nat | Lock_First nat | Lock_Cons nat

datatype ev_pc =
    C_Deliver nat
  | C_Check nat
  | C_Lock nat
  | C_Locked nat
  | C_Next nat
  | C_Done

record 'l ev_loop =
  el_listeners :: "int \<Rightarrow> 'l list option"
  el_nodes :: "nat \<Rightarrow> ev_node option"
  el_head :: nat
  el_tail :: nat
  el_tail_ptr :: nat
  el_lock :: ev_lock
  el_after :: nat
  el_after_task :: nat
  el_tasks :: nat
  el_load :: int
  el_task_queue :: nat
  el_max_queue :: nat
  el_cons :: "ev_pc list"
  el_sent :: "ev_msg list"
  el_delivered :: "('l \<times> ev_msg) list"
  el_crash :: bool

definition loop_make :: "'l ev_loop" where
  "loop_make =
     \<lparr>el_listeners = (\<lambda>_. None), el_nodes = (\<lambda>_. None), el_head = 0, el_tail = 0,
      el_tail_ptr = 0, el_lock = Lock_Free, el_after = 0, el_after_task = 0, el_tasks = 0,
      el_load = 0, el_task_queue = 0, el_max_queue = 0, el_cons = [], el_sent = [], el_delivered = [], el_crash = False\<rparr>"

definition loop_add_listener :: "int \<Rightarrow> 'l \<Rightarrow> 'l ev_loop \<Rightarrow> 'l ev_loop" where
  "loop_add_listener ty callback s =
     (case el_listeners s ty of
        None \<Rightarrow> s\<lparr>el_listeners := (el_listeners s)(ty \<mapsto> [callback])\<rparr>
      | Some ls \<Rightarrow> s\<lparr>el_listeners := (el_listeners s)(ty \<mapsto> ls @ [callback])\<rparr>)"

definition loop_listeners :: "int \<Rightarrow> 'l ev_loop \<Rightarrow> nat" where
  "loop_listeners ty s = (case el_listeners s ty of None \<Rightarrow> 0 | Some ls \<Rightarrow> length ls)"

text \<open>The statistics of the development build.\<close>

definition loop_load :: "'l ev_loop \<Rightarrow> int" where
  "loop_load s = el_load s"

definition loop_max_queue :: "'l ev_loop \<Rightarrow> nat" where
  "loop_max_queue s = el_max_queue s"

definition loop_size :: "'l ev_loop \<Rightarrow> nat" where
  "loop_size s = card (dom (el_listeners s))"

text \<open>\<open>m_listeners[type]\<close>, which would insert an empty vector.\<close>

definition listeners_of :: "int \<Rightarrow> 'l ev_loop \<Rightarrow> 'l list" where
  "listeners_of ty s = (case el_listeners s ty of None \<Rightarrow> [] | Some ls \<Rightarrow> ls)"

section \<open>Steps\<close>

definition crash :: "'l ev_loop \<Rightarrow> 'l ev_loop" where
  "crash s = s\<lparr>el_crash := True\<rparr>"

text \<open>\<open>add_event\<close> up to the end of the writes in its critical section that come before the last
  one: the link of the old tail and \<open>m_tail\<close>, or \<open>m_tail_ptr\<close>. A null message and one nobody
  listens to are dropped. \<open>item\<close> is the address \<^verbatim>\<open>new\<close> returns, any that is not in use, so
  addresses of deleted nodes come back.\<close>

definition add_event_enter :: "nat \<Rightarrow> ev_msg option \<Rightarrow> 'l ev_loop \<Rightarrow> 'l ev_loop option" where
  "add_event_enter item message s =
     (case message of
        None \<Rightarrow> Some s
      | Some m \<Rightarrow>
          if loop_listeners (em_type m) s = 0 then Some s
          else if item = 0 \<or> el_nodes s item \<noteq> None then None
          else if el_lock s \<noteq> Lock_Free then None
          else
            (let s1 = s\<lparr>el_nodes := (el_nodes s)(item \<mapsto> (Some m, 0)),
                        el_sent := el_sent s @ [m]\<rparr>
             in if el_tail_ptr s = 0
                then Some (s1\<lparr>el_tail_ptr := item, el_lock := Lock_First item\<rparr>)
                else (case el_nodes s1 (el_tail s) of
                        None \<Rightarrow> Some (crash s1)
                      | Some (p, _) \<Rightarrow>
                          Some (s1\<lparr>el_nodes := (el_nodes s1)(el_tail s \<mapsto> (p, item)),
                                   el_tail := item, el_lock := Lock_Link item\<rparr>))))"

text \<open>The rest of the critical section.\<close>

definition add_event_leave :: "'l ev_loop \<Rightarrow> 'l ev_loop option" where
  "add_event_leave s =
     (case el_lock s of
        Lock_Link item \<Rightarrow>
          Some (s\<lparr>el_tail_ptr := item, el_lock := Lock_Free, el_after := el_after s + 1\<rparr>)
      | Lock_First item \<Rightarrow>
          Some (s\<lparr>el_head := item, el_tail := item, el_lock := Lock_Free,
                  el_after_task := el_after_task s + 1\<rparr>)
      | _ \<Rightarrow> None)"

text \<open>After the critical section: \<open>m_load++\<close>, and \<open>add_task\<close> in the first branch.\<close>

definition add_event_finish :: "bool \<Rightarrow> 'l ev_loop \<Rightarrow> 'l ev_loop option" where
  "add_event_finish retask s =
     (if retask then
        (if el_after_task s = 0 then None
         else Some (s\<lparr>el_after_task := el_after_task s - 1, el_tasks := el_tasks s + 1,
                      el_load := el_load s + 1\<rparr>))
      else
        (if el_after s = 0 then None
         else Some (s\<lparr>el_after := el_after s - 1, el_load := el_load s + 1\<rparr>)))"

text \<open>A worker starts \<open>cycle_events\<close>.\<close>

definition cycle_events_start :: "'l ev_loop \<Rightarrow> 'l ev_loop option" where
  "cycle_events_start s =
     (if el_tasks s = 0 then None
      else Some (s\<lparr>el_tasks := el_tasks s - 1,
                   el_cons := el_cons s @ [if el_head s = 0 then C_Done else C_Deliver (el_head s)]\<rparr>))"

text \<open>One step of the \<open>j\<close>-th run of \<open>cycle_events\<close>.\<close>

definition cycle_events_step :: "nat \<Rightarrow> 'l ev_loop \<Rightarrow> 'l ev_loop option" where
  "cycle_events_step j s =
     (if length (el_cons s) \<le> j then None
      else let to = (\<lambda>pc s. s\<lparr>el_cons := (el_cons s)[j := pc]\<rparr>) in
        case el_cons s ! j of
          C_Deliver node \<Rightarrow>
            (case el_nodes s node of
               Some (Some m, nxt) \<Rightarrow>
                 Some (to (C_Check node) (s\<lparr>el_task_queue := u32 (el_task_queue s + 1),
                   el_nodes := (el_nodes s)(node \<mapsto> (None, nxt)),
                   el_delivered := el_delivered s
                     @ map (\<lambda>l. (l, m)) (listeners_of (em_type m) s)\<rparr>))
             | _ \<Rightarrow> Some (crash s))
        | C_Check node \<Rightarrow>
            Some (to (if el_tail_ptr s = node then C_Lock node else C_Next node) s)
        | C_Lock node \<Rightarrow>
            (if el_lock s = Lock_Free then Some (to (C_Locked node) (s\<lparr>el_lock := Lock_Cons j\<rparr>))
             else None)
        | C_Locked node \<Rightarrow>
            Some (to (C_Next node)
              (if el_tail_ptr s = node
               then s\<lparr>el_tail_ptr := 0, el_tail := 0, el_head := 0,
                      el_max_queue := max (el_max_queue s) (el_task_queue s), el_task_queue := 0,
                      el_lock := Lock_Free\<rparr>
               else s\<lparr>el_lock := Lock_Free\<rparr>))
        | C_Next node \<Rightarrow>
            (case el_nodes s node of
               None \<Rightarrow> Some (crash s)
             | Some (_, nxt) \<Rightarrow>
                 Some (to (if nxt = 0 then C_Done else C_Deliver nxt)
                   (s\<lparr>el_nodes := (el_nodes s)(node := None), el_load := el_load s - 1\<rparr>)))
        | C_Done \<Rightarrow> None)"

text \<open>What goes on without new events, and every step.\<close>

inductive ev_work :: "'l ev_loop \<Rightarrow> 'l ev_loop \<Rightarrow> bool" where
  Leave: "add_event_leave s = Some s' \<Longrightarrow> ev_work s s'"
| Finish: "add_event_finish retask s = Some s' \<Longrightarrow> ev_work s s'"
| Start: "cycle_events_start s = Some s' \<Longrightarrow> ev_work s s'"
| Cycle: "cycle_events_step j s = Some s' \<Longrightarrow> ev_work s s'"

inductive ev_step :: "'l ev_loop \<Rightarrow> 'l ev_loop \<Rightarrow> bool" where
  Enter: "add_event_enter item message s = Some s' \<Longrightarrow> ev_step s s'"
| Work: "ev_work s s' \<Longrightarrow> ev_step s s'"

text \<open>Components reach the loop through an \<open>event_utility\<close>, which ignores the calls as long as it has
  no loop.\<close>

type_synonym event_utility = "nat option"

definition event_utility_make :: event_utility where
  "event_utility_make = None"

definition set_loop_utility :: "nat option \<Rightarrow> event_utility \<Rightarrow> event_utility" where
  "set_loop_utility utility _ = utility"

definition utility_add_listener :: "int \<Rightarrow> 'l \<Rightarrow> event_utility \<Rightarrow> (nat \<Rightarrow> 'l ev_loop) \<Rightarrow> (nat \<Rightarrow> 'l ev_loop)" where
  "utility_add_listener ty callback u loops =
     (case u of None \<Rightarrow> loops | Some l \<Rightarrow> loops(l := loop_add_listener ty callback (loops l)))"

definition utility_add_event ::
    "nat \<Rightarrow> ev_msg option \<Rightarrow> event_utility \<Rightarrow> (nat \<Rightarrow> 'l ev_loop) \<Rightarrow> (nat \<Rightarrow> 'l ev_loop) option" where
  "utility_add_event item message u loops =
     (case u of
        None \<Rightarrow> Some loops
      | Some l \<Rightarrow> map_option (\<lambda>s. loops(l := s)) (add_event_enter item message (loops l)))"

inductive ev_reach :: "'l ev_loop \<Rightarrow> 'l ev_loop \<Rightarrow> bool" for s0 where
  Init: "ev_reach s0 s0"
| Step: "ev_reach s0 s \<Longrightarrow> ev_step s s' \<Longrightarrow> ev_reach s0 s'"

inductive_cases ev_stepE: "ev_step s s'"
inductive_cases ev_workE: "ev_work s s'"

section \<open>Invariant\<close>

text \<open>The nodes of the list, in order, each linked to the next and the last to null.\<close>

fun ev_chain :: "(nat \<Rightarrow> ev_node option) \<Rightarrow> nat list \<Rightarrow> bool" where
  "ev_chain h [] = True"
| "ev_chain h (a # as) =
     ((\<exists>p. h a = Some (p, case as of [] \<Rightarrow> 0 | b # _ \<Rightarrow> b)) \<and> ev_chain h as)"

text \<open>The messages still waiting in them.\<close>

fun ev_waiting :: "(nat \<Rightarrow> ev_node option) \<Rightarrow> nat list \<Rightarrow> ev_msg list" where
  "ev_waiting h [] = []"
| "ev_waiting h (a # as) = (case h a of Some (Some m, _) \<Rightarrow> [m] | _ \<Rightarrow> []) @ ev_waiting h as"

definition all_waiting :: "(nat \<Rightarrow> ev_node option) \<Rightarrow> nat list \<Rightarrow> bool" where
  "all_waiting h as \<longleftrightarrow> (\<forall>a \<in> set as. \<exists>m nxt. h a = Some (Some m, nxt))"

text \<open>The calls of listeners that a sequence of messages amounts to.\<close>

definition ev_calls :: "(int \<Rightarrow> 'l list option) \<Rightarrow> ev_msg list \<Rightarrow> ('l \<times> ev_msg) list" where
  "ev_calls ls ms = concat (map (\<lambda>m. map (\<lambda>l. (l, m))
     (case ls (em_type m) of None \<Rightarrow> [] | Some xs \<Rightarrow> xs)) ms)"

text \<open>Who is in charge of the list: nobody when it is empty, the producer that is creating it or has
  still to enqueue its task, the enqueued task, or a run of \<open>cycle_events\<close>. Every other run is
  done or about to delete its last node.\<close>

datatype ev_owner = By_Nobody | By_Lock | By_After | By_Task | By_Cons nat

fun pc_node :: "ev_pc \<Rightarrow> nat" where
  "pc_node (C_Deliver n) = n"
| "pc_node (C_Check n) = n"
| "pc_node (C_Lock n) = n"
| "pc_node (C_Locked n) = n"
| "pc_node (C_Next n) = n"
| "pc_node C_Done = 0"

definition list_ok :: "(nat \<Rightarrow> ev_node option) \<Rightarrow> nat list \<Rightarrow> bool" where
  "list_ok h as \<longleftrightarrow> distinct as \<and> 0 \<notin> set as \<and> ev_chain h as"

text \<open>The tail, by what the holder of the lock has written so far.\<close>

definition tail_ok :: "nat list \<Rightarrow> 'l ev_loop \<Rightarrow> bool" where
  "tail_ok as s \<longleftrightarrow> (case el_lock s of
      Lock_First item \<Rightarrow> as = [item] \<and> el_tail_ptr s = item
    | Lock_Link item \<Rightarrow> (\<exists>bs. as = bs @ [item] \<and> bs \<noteq> [] \<and> el_tail s = item \<and> el_tail_ptr s = last bs)
    | _ \<Rightarrow> (if as = [] then el_tail_ptr s = 0 else el_tail_ptr s = last as \<and> el_tail s = last as))"

text \<open>The run in charge.\<close>

fun run_ok :: "(nat \<Rightarrow> ev_node option) \<Rightarrow> nat \<Rightarrow> nat list \<Rightarrow> ev_pc \<Rightarrow> bool" where
  "run_ok h tp as (C_Deliver n) = (n = hd as \<and> all_waiting h as)"
| "run_ok h tp as (C_Check n) = (n = hd as \<and> all_waiting h (tl as) \<and> (\<exists>x. h n = Some (None, x)))"
| "run_ok h tp as (C_Lock n) = (n = hd as \<and> all_waiting h (tl as) \<and> (\<exists>x. h n = Some (None, x)))"
| "run_ok h tp as (C_Locked n) = (n = hd as \<and> all_waiting h (tl as) \<and> (\<exists>x. h n = Some (None, x)))"
| "run_ok h tp as (C_Next n) =
     (n = hd as \<and> all_waiting h (tl as) \<and> (\<exists>x. h n = Some (None, x)) \<and> tp \<noteq> n)"
| "run_ok h tp as C_Done = False"

definition owner_ok :: "ev_owner \<Rightarrow> nat list \<Rightarrow> 'l ev_loop \<Rightarrow> bool" where
  "owner_ok own as s \<longleftrightarrow>
     (own = By_Nobody \<longleftrightarrow> as = [])
   \<and> el_after_task s = (if own = By_After then 1 else 0)
   \<and> el_tasks s = (if own = By_Task then 1 else 0)
   \<and> (own = By_Lock \<longleftrightarrow> (\<exists>item. el_lock s = Lock_First item))
   \<and> (own = By_After \<or> own = By_Task \<longrightarrow> el_head s = hd as)
   \<and> (\<forall>j. el_lock s = Lock_Cons j \<longleftrightarrow> own = By_Cons j \<and> (\<exists>n. el_cons s ! j = C_Locked n))
   \<and> (case own of
        By_Cons j \<Rightarrow> j < length (el_cons s) \<and> run_ok (el_nodes s) (el_tail_ptr s) as (el_cons s ! j)
      | _ \<Rightarrow> all_waiting (el_nodes s) as)"

definition others_ok :: "ev_owner \<Rightarrow> nat list \<Rightarrow> 'l ev_loop \<Rightarrow> bool" where
  "others_ok own as s \<longleftrightarrow>
     (\<forall>i < length (el_cons s). own \<noteq> By_Cons i \<longrightarrow> el_cons s ! i = C_Done
        \<or> (\<exists>n. el_cons s ! i = C_Next n \<and> el_nodes s n = Some (None, 0) \<and> n \<notin> set as \<and> n \<noteq> 0))
   \<and> (\<forall>i < length (el_cons s). \<forall>j < length (el_cons s). i \<noteq> j \<longrightarrow> el_cons s ! i \<noteq> C_Done \<longrightarrow>
        pc_node (el_cons s ! i) \<noteq> pc_node (el_cons s ! j))"

text \<open>Every node that is allocated is in the list or about to be deleted, and \<open>m_load\<close> counts
  them.\<close>

definition nodes_ok :: "nat list \<Rightarrow> 'l ev_loop \<Rightarrow> bool" where
  "nodes_ok as s \<longleftrightarrow> dom (el_nodes s) = set as \<union> (pc_node ` (set (el_cons s) - {C_Done}))"

definition load_ok :: "'l ev_loop \<Rightarrow> bool" where
  "load_ok s \<longleftrightarrow> el_load s + int (el_after s) + int (el_after_task s)
       + (case el_lock s of Lock_Link _ \<Rightarrow> 1 | Lock_First _ \<Rightarrow> 1 | _ \<Rightarrow> 0)
     = int (card (dom (el_nodes s)))"

definition history_ok :: "nat list \<Rightarrow> 'l ev_loop \<Rightarrow> bool" where
  "history_ok as s \<longleftrightarrow>
     el_delivered s @ ev_calls (el_listeners s) (ev_waiting (el_nodes s) as)
     = ev_calls (el_listeners s) (el_sent s)"

definition ev_inv :: "ev_owner \<Rightarrow> nat list \<Rightarrow> 'l ev_loop \<Rightarrow> bool" where
  "ev_inv own as s \<longleftrightarrow> \<not> el_crash s \<and> list_ok (el_nodes s) as \<and> tail_ok as s \<and> owner_ok own as s
     \<and> others_ok own as s \<and> nodes_ok as s \<and> load_ok s \<and> history_ok as s"

subsection \<open>The list\<close>

lemma ev_chain_cong: "(\<And>a. a \<in> set as \<Longrightarrow> h a = h' a) \<Longrightarrow> ev_chain h as = ev_chain h' as"
  by (induction as) auto

lemma ev_chain_other [simp]: "x \<notin> set as \<Longrightarrow> ev_chain (h(x := y)) as = ev_chain h as"
  by (rule ev_chain_cong) auto

lemma ev_waiting_other [simp]: "x \<notin> set as \<Longrightarrow> ev_waiting (h(x := y)) as = ev_waiting h as"
  by (induction as) auto

lemma all_waiting_other [simp]: "x \<notin> set as \<Longrightarrow> all_waiting (h(x := y)) as = all_waiting h as"
  by (auto simp: all_waiting_def)

lemma ev_chain_nodes: "ev_chain h as \<Longrightarrow> a \<in> set as \<Longrightarrow> h a \<noteq> None"
  by (induction as) auto

lemma ev_chain_link:
  assumes "ev_chain h (as @ [t])" and "distinct (as @ [t])" and "h t = Some (p, x)"
    and "item \<notin> set (as @ [t])"
  shows "ev_chain (h(item \<mapsto> (q, 0), t \<mapsto> (p, item))) (as @ [t, item])"
  using assms
proof (induction as)
  case Nil
  then show ?case by simp
next
  case (Cons a as)
  let ?h = "h(item \<mapsto> (q, 0), t \<mapsto> (p, item))"
  have rest: "ev_chain ?h (as @ [t, item])"
    by (rule Cons.IH) (use Cons.prems in auto)
  have "?h a = h a" using Cons.prems by auto
  moreover have "\<exists>p. h a = Some (p, case as @ [t] of [] \<Rightarrow> 0 | b # _ \<Rightarrow> b)"
    using Cons.prems(1) by simp
  ultimately have "\<exists>p. ?h a = Some (p, case as @ [t, item] of [] \<Rightarrow> 0 | b # _ \<Rightarrow> b)"
    by (cases as) simp_all
  with rest show ?case by (simp del: fun_upd_apply)
qed

lemma ev_waiting_append [simp]: "ev_waiting h (as @ bs) = ev_waiting h as @ ev_waiting h bs"
  by (induction as) auto

lemma ev_waiting_link:
  assumes "distinct (as @ [t])" and "h t = Some (p, x)" and "item \<notin> set (as @ [t])"
  shows "ev_waiting (h(item \<mapsto> (Some m, 0), t \<mapsto> (p, item))) (as @ [t, item]) = ev_waiting h (as @ [t]) @ [m]"
  using assms by (auto split: option.splits)

lemma all_waiting_append [simp]:
  "all_waiting h (as @ bs) \<longleftrightarrow> all_waiting h as \<and> all_waiting h bs"
  by (auto simp: all_waiting_def)

lemma all_waiting_link:
  "all_waiting h as \<Longrightarrow> h t = Some (p, x) \<Longrightarrow> item \<notin> set as \<Longrightarrow> item \<noteq> t \<Longrightarrow>
   all_waiting (h(item \<mapsto> (Some m, 0), t \<mapsto> (p, y))) (as @ [item])"
  by (force simp: all_waiting_def)

lemma ev_calls_append [simp]: "ev_calls ls (xs @ ys) = ev_calls ls xs @ ev_calls ls ys"
  by (simp add: ev_calls_def)

lemma ev_calls_Nil [simp]: "ev_calls ls [] = []"
  by (simp add: ev_calls_def)

lemma ev_calls_Cons: "ev_calls (el_listeners s) (m # ms) =
    map (\<lambda>l. (l, m)) (listeners_of (em_type m) s) @ ev_calls (el_listeners s) ms"
  by (simp add: ev_calls_def listeners_of_def)

subsection \<open>The steps keep the invariant\<close>

lemma run_ok_node: "run_ok h tp as pc \<Longrightarrow> pc \<noteq> C_Done \<and> pc_node pc = hd as"
  by (cases pc) auto

lemma others_ok_keep:
  assumes oth: "others_ok own as s" and cs: "el_cons s' = el_cons s"
    and n: "\<And>n. n \<notin> set as \<Longrightarrow> el_nodes s n = Some (None, 0) \<Longrightarrow>
          el_nodes s' n = Some (None, 0) \<and> n \<notin> set as'"
    and own: "\<And>i. own' = By_Cons i \<longleftrightarrow> own = By_Cons i"
  shows "others_ok own' as' s'"
proof -
  have "el_cons s ! i = C_Done \<or> (\<exists>n. el_cons s ! i = C_Next n \<and> el_nodes s' n = Some (None, 0)
      \<and> n \<notin> set as' \<and> n \<noteq> 0)" if "i < length (el_cons s)" "own' \<noteq> By_Cons i" for i
    using oth that n own unfolding others_ok_def by metis
  with oth show ?thesis unfolding others_ok_def cs by blast
qed

lemma nodes_ok_finite: "nodes_ok as s \<Longrightarrow> finite (dom (el_nodes s))"
  by (simp add: nodes_ok_def)

lemma load_ok_new:
  assumes ld: "load_ok s" "nodes_ok as s" and item: "el_nodes s item = None"
    and dom: "dom (el_nodes s') = insert item (dom (el_nodes s))"
    and cs: "el_cons s' = el_cons s" and rest: "el_load s' = el_load s" "el_after s' = el_after s"
      "el_after_task s' = el_after_task s"
    and as': "set as' = insert item (set as)"
    and lock: "el_lock s = Lock_Free" "el_lock s' = Lock_Link item \<or> el_lock s' = Lock_First item"
  shows "nodes_ok as' s' \<and> load_ok s'"
proof
  have "item \<notin> dom (el_nodes s)" using item by auto
  then have "card (dom (el_nodes s')) = Suc (card (dom (el_nodes s)))"
    unfolding dom using nodes_ok_finite [OF ld(2)] by simp
  then show "load_ok s'" using ld(1) lock rest by (auto simp: load_ok_def)
  show "nodes_ok as' s'" using ld(2) by (simp add: nodes_ok_def dom as' cs)
qed

lemma tail_ok_keep:
  assumes "tail_ok as s" and "el_lock s' = el_lock s" and "el_tail s' = el_tail s"
    and "el_tail_ptr s' = el_tail_ptr s"
  shows "tail_ok as s'"
  using assms by (cases "el_lock s") (simp_all add: tail_ok_def)

lemma ev_last_node: "ev_chain h as \<Longrightarrow> as \<noteq> [] \<Longrightarrow> \<exists>p. h (last as) = Some (p, 0)"
  by (induction as) (auto split: list.splits if_splits)

text \<open>A producer starts a list.\<close>

lemma enter_first_inv:
  assumes inv: "ev_inv own as s" and item: "item \<noteq> 0" "el_nodes s item = None"
    and free: "el_lock s = Lock_Free" and tp: "el_tail_ptr s = 0"
    and s': "s' = s\<lparr>el_nodes := (el_nodes s)(item \<mapsto> (Some m, 0)), el_sent := el_sent s @ [m],
                     el_tail_ptr := item, el_lock := Lock_First item\<rparr>"
  shows "ev_inv By_Lock [item] s'"
proof -
  note parts = inv [unfolded ev_inv_def]
  have as: "as = []"
  proof (rule ccontr)
    assume ne: "as \<noteq> []"
    then have "last as \<noteq> 0" using parts last_in_set [OF ne] by (metis list_ok_def)
    with ne parts free tp show False by (simp add: tail_ok_def)
  qed
  have own: "own = By_Nobody" using parts as by (auto simp: owner_ok_def)
  have oth: "others_ok own as s" using parts by simp
  have "others_ok By_Lock [item] s'"
  proof (rule others_ok_keep [OF oth])
    show "el_nodes s' n = Some (None, 0) \<and> n \<notin> set [item]"
      if "n \<notin> set as" "el_nodes s n = Some (None, 0)" for n
      using that item by (auto simp: s')
  qed (simp_all add: s' own)
  moreover have "nodes_ok [item] s' \<and> load_ok s'"
    by (rule load_ok_new [of s as item]) (use parts item as free in \<open>auto simp: s'\<close>)
  moreover have "history_ok [item] s'" using parts as by (simp add: history_ok_def s')
  moreover have "owner_ok By_Lock [item] s'"
    using parts own free by (simp add: owner_ok_def s' all_waiting_def)
  ultimately show ?thesis
    using parts item by (simp add: ev_inv_def list_ok_def tail_ok_def s')
qed

text \<open>A producer appends to a list.\<close>

lemma enter_link_inv:
  assumes inv: "ev_inv own as s" and item: "item \<noteq> 0" "el_nodes s item = None"
    and free: "el_lock s = Lock_Free" and tp: "el_tail_ptr s \<noteq> 0"
  shows "\<exists>p x. el_nodes s (el_tail s) = Some (p, x) \<and> el_tail s \<noteq> item \<and>
    ev_inv own (as @ [item]) (s\<lparr>el_nodes := (el_nodes s)(item \<mapsto> (Some m, 0), el_tail s \<mapsto> (p, item)),
      el_sent := el_sent s @ [m], el_tail := item, el_lock := Lock_Link item\<rparr>)"
proof -
  note parts = inv [unfolded ev_inv_def]
  have as: "as \<noteq> []" and tl: "el_tail s = last as" "el_tail_ptr s = last as"
    using parts free tp by (auto simp: tail_ok_def split: if_splits)
  then obtain cs where cs: "as = cs @ [el_tail s]" by (metis append_butlast_last_id)
  have lst: "list_ok (el_nodes s) as" using parts by simp
  obtain p where p: "el_nodes s (el_tail s) = Some (p, 0)"
    using ev_last_node [of "el_nodes s" as] lst as tl by (auto simp: list_ok_def)
  have fresh: "item \<notin> set as"
    using ev_chain_nodes [of "el_nodes s" as item] lst item by (auto simp: list_ok_def)
  have ne: "el_tail s \<noteq> item" using p item by auto
  let ?h = "(el_nodes s)(item \<mapsto> (Some m, 0), el_tail s \<mapsto> (p, item))"
  let ?s = "s\<lparr>el_nodes := ?h, el_sent := el_sent s @ [m], el_tail := item, el_lock := Lock_Link item\<rparr>"
  have list: "list_ok ?h (as @ [item])"
    using ev_chain_link [of "el_nodes s" cs "el_tail s" p 0 item "Some m"] lst p fresh item cs
    by (simp add: list_ok_def del: fun_upd_apply)
  have hist: "history_ok (as @ [item]) ?s"
    using parts ev_waiting_link [of cs "el_tail s" "el_nodes s" p 0 item m] lst p fresh cs
    by (simp add: history_ok_def list_ok_def del: ev_waiting_append fun_upd_apply)
  have wait: "all_waiting ?h (bs @ [item])" if "all_waiting (el_nodes s) bs" "set bs \<subseteq> set as" for bs
    using all_waiting_link [of "el_nodes s" bs "el_tail s" p 0 item m item] that p fresh ne by blast
  have oth: "others_ok own (as @ [item]) ?s"
  proof (rule others_ok_keep [of own as s])
    show "el_nodes ?s n = Some (None, 0) \<and> n \<notin> set (as @ [item])"
      if "n \<notin> set as" "el_nodes s n = Some (None, 0)" for n
      using that item as tl last_in_set [of as] by auto
  qed (use parts in simp_all)
  have own: "owner_ok own (as @ [item]) ?s"
  proof -
    have o: "owner_ok own as s" using parts by simp
    have tls: "set (tl as) \<subseteq> set as" by (cases as) auto
    have run: "run_ok ?h (el_tail_ptr s) (as @ [item]) pc"
      if "run_ok (el_nodes s) (el_tail_ptr s) as pc" for pc
      using that wait [of as] wait [of "tl as"] tls as item p by (cases pc) auto
    show ?thesis
      using o as free wait [of as] run unfolding owner_ok_def
      by (auto split: ev_owner.splits simp del: fun_upd_apply)
  qed
  have dom: "dom ?h = insert item (dom (el_nodes s))" using p by auto
  have "nodes_ok (as @ [item]) ?s \<and> load_ok ?s"
    by (rule load_ok_new [of s as item]) (use parts item free dom in \<open>simp_all del: fun_upd_apply\<close>)
  moreover have "tail_ok (as @ [item]) ?s" using as tl by (simp add: tail_ok_def)
  ultimately have "ev_inv own (as @ [item]) ?s"
    using parts list hist oth own by (simp add: ev_inv_def del: fun_upd_apply)
  with p ne show ?thesis by blast
qed

text \<open>Leaving the critical section and what follows it.\<close>

lemma leave_inv:
  assumes inv: "ev_inv own as s" and step: "add_event_leave s = Some s'"
  shows "ev_inv (if own = By_Lock then By_After else own) as s'"
proof -
  note parts = inv [unfolded ev_inv_def]
  note o = parts [THEN conjunct2, THEN conjunct2, THEN conjunct2, THEN conjunct1]
  show ?thesis
  proof (cases "el_lock s")
    case (Lock_Link item)
    then have s': "s' = s\<lparr>el_tail_ptr := item, el_lock := Lock_Free, el_after := el_after s + 1\<rparr>"
      using step by (simp add: add_event_leave_def)
    have nl: "own \<noteq> By_Lock" using o Lock_Link by (simp add: owner_ok_def)
    have t: "as \<noteq> []" "el_tail s = last as" "item = last as" "distinct as"
        "el_tail_ptr s \<noteq> hd as \<longrightarrow> item \<noteq> hd as"
      using parts Lock_Link by (auto simp: tail_ok_def list_ok_def neq_Nil_conv hd_append)
    have "run_ok (el_nodes s) item as pc" if "run_ok (el_nodes s) (el_tail_ptr s) as pc" for pc
      using that t(5) by (cases pc) auto
    then have "owner_ok own as s'"
      using o Lock_Link nl unfolding owner_ok_def s' by (cases own) auto
    moreover have "others_ok own as s'"
      by (rule others_ok_keep [of own as s]) (use parts in \<open>simp_all add: s'\<close>)
    moreover have "load_ok s'" using parts Lock_Link by (simp add: load_ok_def s')
    moreover have "tail_ok as s'" using t by (simp add: tail_ok_def s')
    ultimately show ?thesis
      using parts nl by (simp add: ev_inv_def nodes_ok_def history_ok_def s')
  next
    case (Lock_First item)
    then have s': "s' = s\<lparr>el_head := item, el_tail := item, el_lock := Lock_Free,
        el_after_task := el_after_task s + 1\<rparr>"
      using step by (simp add: add_event_leave_def)
    have own: "own = By_Lock" and as: "as = [item]" "el_tail_ptr s = item"
      using parts Lock_First by (auto simp: owner_ok_def tail_ok_def)
    have "others_ok By_After as s'"
      by (rule others_ok_keep [of own as s]) (use parts own in \<open>simp_all add: s'\<close>)
    moreover have "load_ok s'" using parts Lock_First by (simp add: load_ok_def s')
    moreover have "tail_ok as s'" using as by (simp add: tail_ok_def s')
    moreover have "owner_ok By_After as s'" using o Lock_First own as by (simp add: owner_ok_def s')
    ultimately show ?thesis
      using parts own by (simp add: ev_inv_def nodes_ok_def history_ok_def s')
  qed (use step in \<open>simp_all add: add_event_leave_def\<close>)
qed

lemma finish_inv:
  assumes inv: "ev_inv own as s" and step: "add_event_finish retask s = Some s'"
  shows "ev_inv (if retask then By_Task else own) as s'"
proof -
  note parts = inv [unfolded ev_inv_def]
  have tail: "tail_ok as s'"
    by (rule tail_ok_keep [of as s])
       (use parts step in \<open>auto simp: add_event_finish_def split: if_splits\<close>)
  show ?thesis
  proof (cases retask)
    case True
    then have s': "s' = s\<lparr>el_after_task := el_after_task s - 1, el_tasks := el_tasks s + 1,
        el_load := el_load s + 1\<rparr>" and pos: "0 < el_after_task s"
      using step by (auto simp: add_event_finish_def split: if_splits)
    have own: "own = By_After" using parts pos by (auto simp: owner_ok_def split: if_splits)
    have "others_ok By_Task as s'"
      by (rule others_ok_keep [of own as s]) (use parts own in \<open>simp_all add: s'\<close>)
    moreover have "owner_ok By_Task as s'" using parts own by (simp add: owner_ok_def s')
    moreover have "load_ok s'" using parts pos by (simp add: load_ok_def s')
    ultimately show ?thesis
      using parts True tail by (simp add: ev_inv_def nodes_ok_def history_ok_def s')
  next
    case False
    then have s': "s' = s\<lparr>el_after := el_after s - 1, el_load := el_load s + 1\<rparr>" and pos: "0 < el_after s"
      using step by (auto simp: add_event_finish_def split: if_splits)
    have "others_ok own as s'"
      by (rule others_ok_keep [of own as s]) (use parts in \<open>simp_all add: s'\<close>)
    moreover have "owner_ok own as s'" using parts by (cases own) (simp_all add: owner_ok_def all_waiting_def s')
    moreover have "load_ok s'" using parts pos by (simp add: load_ok_def s')
    ultimately show ?thesis
      using parts False tail by (simp add: ev_inv_def nodes_ok_def history_ok_def s')
  qed
qed

text \<open>A worker picks up a task.\<close>

lemma start_inv:
  assumes inv: "ev_inv own as s" and step: "cycle_events_start s = Some s'"
  shows "ev_inv (By_Cons (length (el_cons s))) as s'"
proof -
  note parts = inv [unfolded ev_inv_def]
  have pos: "0 < el_tasks s" using step by (auto simp: cycle_events_start_def split: if_splits)
  have own: "own = By_Task" using parts pos by (auto simp: owner_ok_def split: if_splits)
  have as: "as \<noteq> []" "el_head s = hd as" using parts own by (auto simp: owner_ok_def)
  then have head: "el_head s \<in> set as" by simp
  then have pos_head: "el_head s \<noteq> 0" using parts by (metis list_ok_def)
  have s': "s' = s\<lparr>el_tasks := el_tasks s - 1, el_cons := el_cons s @ [C_Deliver (el_head s)]\<rparr>"
    using step pos pos_head by (simp add: cycle_events_start_def)
  have oth: "others_ok own as s" using parts by simp
  have runs: "el_cons s ! i = C_Done \<or> (\<exists>n. el_cons s ! i = C_Next n \<and> el_nodes s n = Some (None, 0)
      \<and> n \<notin> set as \<and> n \<noteq> 0)" if "i < length (el_cons s)" for i
    using oth that own by (simp add: others_ok_def)
  have "others_ok (By_Cons (length (el_cons s))) as s'"
  proof -
    have "el_head s \<notin> pc_node ` set (el_cons s)"
      using runs head pos_head by (force simp: in_set_conv_nth)
    moreover from this have "pc_node (el_cons s ! i) \<noteq> el_head s" if "i < length (el_cons s)" for i
      using that by (metis image_eqI nth_mem)
    ultimately show ?thesis
      using oth runs pos_head unfolding others_ok_def s'
      by (auto simp: nth_append less_Suc_eq own)
  qed
  moreover have "owner_ok (By_Cons (length (el_cons s))) as s'"
    using parts own as by (auto simp: owner_ok_def s')
  moreover have "nodes_ok as s'"
    using parts head by (auto simp: nodes_ok_def s')
  moreover have "tail_ok as s'"
    by (rule tail_ok_keep [of as s]) (use parts in \<open>simp_all add: s'\<close>)
  moreover have "load_ok s'" using parts by (simp add: load_ok_def s')
  ultimately show ?thesis
    using parts by (simp add: ev_inv_def history_ok_def s')
qed

text \<open>One run of \<open>cycle_events\<close> moves.\<close>

lemma others_ok_move:
  assumes oth: "others_ok own as s" and cs: "el_cons s' = (el_cons s)[j := pc]" and j: "j < length (el_cons s)"
    and ne: "\<And>i. i < length (el_cons s) \<Longrightarrow> i \<noteq> j \<Longrightarrow> el_cons s ! i \<noteq> C_Done \<Longrightarrow>
          pc_node (el_cons s ! i) \<noteq> pc_node pc"
    and pos: "pc \<noteq> C_Done \<Longrightarrow> pc_node pc \<noteq> 0 \<and>
          (\<forall>i < length (el_cons s). i \<noteq> j \<longrightarrow> pc_node (el_cons s ! i) \<noteq> pc_node pc)"
    and mine: "own' \<noteq> By_Cons j \<Longrightarrow> pc = C_Done \<or> (\<exists>n. pc = C_Next n \<and> el_nodes s' n = Some (None, 0)
          \<and> n \<notin> set as' \<and> n \<noteq> 0)"
    and own: "\<And>i. i \<noteq> j \<Longrightarrow> own = By_Cons i \<Longrightarrow> own' = By_Cons i"
    and other: "\<And>i n. i < length (el_cons s) \<Longrightarrow> i \<noteq> j \<Longrightarrow> el_cons s ! i = C_Next n \<Longrightarrow> n \<notin> set as \<Longrightarrow>
          el_nodes s n = Some (None, 0) \<Longrightarrow> el_nodes s' n = Some (None, 0) \<and> n \<notin> set as'"
  shows "others_ok own' as' s'"
proof -
  have "el_cons s' ! i = C_Done \<or> (\<exists>n. el_cons s' ! i = C_Next n \<and> el_nodes s' n = Some (None, 0)
      \<and> n \<notin> set as' \<and> n \<noteq> 0)" if "i < length (el_cons s')" "own' \<noteq> By_Cons i" for i
  proof (cases "i = j")
    case True
    then show ?thesis using mine that j by (simp add: cs)
  next
    case False
    then have "own \<noteq> By_Cons i" using own that by blast
    with False that oth have "el_cons s ! i = C_Done \<or> (\<exists>n. el_cons s ! i = C_Next n
        \<and> el_nodes s n = Some (None, 0) \<and> n \<notin> set as \<and> n \<noteq> 0)"
      by (simp add: others_ok_def cs)
    with False that other [of i] show ?thesis by (auto simp: cs)
  qed
  moreover have "pc_node (el_cons s' ! i) \<noteq> pc_node (el_cons s' ! k)"
    if "i < length (el_cons s')" "k < length (el_cons s')" "i \<noteq> k" "el_cons s' ! i \<noteq> C_Done" for i k
    using that oth ne [of i] pos j unfolding others_ok_def cs by (cases "i = j"; cases "k = j") auto
  ultimately show ?thesis unfolding others_ok_def by blast
qed

text \<open>The run in charge works on the first node of the list; the runs that are not work on none
  of it.\<close>

lemma mover_cases:
  assumes inv: "ev_inv own as s" and j: "j < length (el_cons s)" and nd: "el_cons s ! j \<noteq> C_Done"
  obtains (owner) "own = By_Cons j" "as \<noteq> []" "pc_node (el_cons s ! j) = hd as" "hd as \<noteq> 0"
      "run_ok (el_nodes s) (el_tail_ptr s) as (el_cons s ! j)"
      "\<And>i. i < length (el_cons s) \<Longrightarrow> i \<noteq> j \<Longrightarrow> pc_node (el_cons s ! i) \<notin> set as"
    | (last) n where "own \<noteq> By_Cons j" "el_cons s ! j = C_Next n" "el_nodes s n = Some (None, 0)"
      "n \<notin> set as" "n \<noteq> 0"
proof (cases "own = By_Cons j")
  case True
  note parts = inv [unfolded ev_inv_def]
  have as: "as \<noteq> []" using parts True by (auto simp: owner_ok_def)
  then have "hd as \<noteq> 0" using parts by (metis list.set_sel(1) list_ok_def)
  moreover have r: "run_ok (el_nodes s) (el_tail_ptr s) as (el_cons s ! j)"
    using parts True by (simp add: owner_ok_def)
  moreover have "pc_node (el_cons s ! i) \<notin> set as" if "i < length (el_cons s)" "i \<noteq> j" for i
  proof -
    have "el_cons s ! i = C_Done \<or> (\<exists>n. el_cons s ! i = C_Next n \<and> n \<notin> set as)"
      using parts True that unfolding others_ok_def by auto
    then show ?thesis using parts by (auto simp: list_ok_def)
  qed
  ultimately show ?thesis using True as run_ok_node [OF r] owner by blast
next
  case False
  with inv j nd show ?thesis using last unfolding ev_inv_def others_ok_def by blast
qed

lemma pc_nodes_update:
  assumes "j < length cs"
  shows "set (cs[j := pc]) = insert pc (set (take j cs) \<union> set (drop (Suc j) cs))"
    and "set cs = insert (cs ! j) (set (take j cs) \<union> set (drop (Suc j) cs))"
  using assms by (auto simp: upd_conv_take_nth_drop) (metis id_take_nth_drop in_set_conv_decomp Un_iff insert_iff list.set(2) set_append)+

text \<open>Moves of the run in charge within its node.\<close>

lemma owner_move_nodes:
  assumes "nodes_ok as s" and "j < length (el_cons s)" and "el_cons s' = (el_cons s)[j := pc]"
    and "dom (el_nodes s') = dom (el_nodes s)" and "pc_node pc = pc_node (el_cons s ! j)"
    and "pc \<noteq> C_Done" and "el_cons s ! j \<noteq> C_Done"
  shows "nodes_ok as s'"
proof -
  have "pc_node ` (set (el_cons s') - {C_Done}) = pc_node ` (set (el_cons s) - {C_Done})"
    using assms(5-7) unfolding assms(3) pc_nodes_update [OF assms(2)] by (simp add: insert_Diff_if)
  with assms(1,4) show ?thesis by (simp add: nodes_ok_def)
qed

lemma owner_move_inv:
  assumes inv: "ev_inv (By_Cons j) as s" and j: "j < length (el_cons s)"
    and s': "el_cons s' = (el_cons s)[j := pc]" "el_listeners s' = el_listeners s" "el_after s' = el_after s"
      "el_after_task s' = el_after_task s" "el_tasks s' = el_tasks s" "el_load s' = el_load s"
      "el_tail s' = el_tail s" "el_tail_ptr s' = el_tail_ptr s" "el_crash s' = el_crash s"
      "el_sent s' = el_sent s"
    and dom: "dom (el_nodes s') = dom (el_nodes s)" and chain: "ev_chain (el_nodes s') as"
    and same: "\<And>n. n \<notin> set as \<Longrightarrow> el_nodes s' n = el_nodes s n"
    and hist: "history_ok as s'"
    and pc: "run_ok (el_nodes s') (el_tail_ptr s) as pc"
    and lock: "el_lock s' = el_lock s \<and> (\<forall>n. pc \<noteq> C_Locked n \<and> el_cons s ! j \<noteq> C_Locked n)
      \<or> el_lock s = Lock_Free \<and> el_lock s' = Lock_Cons j \<and> (\<exists>n. pc = C_Locked n)
      \<or> el_lock s = Lock_Cons j \<and> el_lock s' = Lock_Free \<and> (\<forall>n. pc \<noteq> C_Locked n)"
  shows "ev_inv (By_Cons j) as s'"
proof -
  note parts = inv [unfolded ev_inv_def]
  have o: "owner_ok (By_Cons j) as s" using parts by simp
  have run: "run_ok (el_nodes s) (el_tail_ptr s) as (el_cons s ! j)" using o by (simp add: owner_ok_def)
  have nd: "el_cons s ! j \<noteq> C_Done" and pc_nd: "pc \<noteq> C_Done"
    and node: "pc_node pc = pc_node (el_cons s ! j)"
    using run_ok_node [OF run] run_ok_node [OF pc] by auto
  have oth: "others_ok (By_Cons j) as s" using parts by simp
  have "others_ok (By_Cons j) as s'"
  proof (rule others_ok_move [OF oth s'(1) j])
    have *: "pc_node (el_cons s ! i) \<noteq> pc_node pc" if "i < length (el_cons s)" "i \<noteq> j" for i
      using oth that j nd unfolding others_ok_def node by metis
    show "pc_node (el_cons s ! i) \<noteq> pc_node pc" if "i < length (el_cons s)" "i \<noteq> j" for i
      by (rule * [OF that])
    have "as \<noteq> []" using o by (auto simp: owner_ok_def)
    then have "hd as \<noteq> 0" using parts by (metis list.set_sel(1) list_ok_def)
    then show "pc_node pc \<noteq> 0 \<and> (\<forall>i < length (el_cons s). i \<noteq> j \<longrightarrow> pc_node (el_cons s ! i) \<noteq> pc_node pc)"
      using * run_ok_node [OF pc] by auto
  qed (use same in auto)
  moreover have "owner_ok (By_Cons j) as s'"
    using o pc lock j by (cases "el_lock s") (auto simp: owner_ok_def s')
  moreover have "nodes_ok as s'"
    by (rule owner_move_nodes [OF _ j s'(1) dom node pc_nd nd]) (use parts in simp)
  moreover have "load_ok s'"
    using parts lock by (auto simp: load_ok_def s' dom)
  moreover have "tail_ok as s'"
    using parts lock by (cases "el_lock s") (auto simp: tail_ok_def s')
  ultimately show ?thesis using parts hist chain by (simp add: ev_inv_def list_ok_def s')
qed

lemma mover_owner:
  assumes "ev_inv own as s" and "j < length (el_cons s)" and "el_cons s ! j = pc"
    and "pc \<noteq> C_Done" and "\<And>n. pc \<noteq> C_Next n"
  shows "own = By_Cons j \<and> as \<noteq> [] \<and> hd as = pc_node pc \<and> run_ok (el_nodes s) (el_tail_ptr s) as pc"
proof -
  have nd: "el_cons s ! j \<noteq> C_Done" using assms(3,4) by simp
  show ?thesis
  proof (rule mover_cases [OF assms(1,2) nd])
    assume "own = By_Cons j" "as \<noteq> []" "pc_node (el_cons s ! j) = hd as"
      "run_ok (el_nodes s) (el_tail_ptr s) as (el_cons s ! j)"
    then show ?thesis using assms(3) by simp
  next
    fix n assume "el_cons s ! j = C_Next n"
    then show ?thesis using assms(3,5) by simp
  qed
qed

lemma run_node_in:
  assumes "ev_inv own as s" and "as \<noteq> []"
  shows "\<exists>p nxt. el_nodes s (hd as) = Some (p, nxt)
    \<and> (case tl as of [] \<Rightarrow> nxt = 0 | b # _ \<Rightarrow> nxt = b \<and> b \<noteq> 0)"
  using assms by (cases as; cases "tl as") (auto simp: ev_inv_def list_ok_def)

lemma deliver_inv:
  assumes inv: "ev_inv own as s" and j: "j < length (el_cons s)" and pc: "el_cons s ! j = C_Deliver node"
    and step: "cycle_events_step j s = Some s'"
  shows "ev_inv own as s'"
proof -
  have own: "own = By_Cons j" and as: "as \<noteq> []" "hd as = node"
      and run: "run_ok (el_nodes s) (el_tail_ptr s) as (el_cons s ! j)"
    unfolding pc using mover_owner [OF inv j pc, unfolded pc_node.simps] by blast+
  obtain bs where bs: "as = node # bs" using as by (cases as) auto
  note parts = inv [unfolded ev_inv_def]
  have wait: "all_waiting (el_nodes s) as" using run pc by simp
  then obtain m nxt where n: "el_nodes s node = Some (Some m, nxt)" using bs by (auto simp: all_waiting_def)
  have dist: "node \<notin> set bs" using parts bs by (simp add: list_ok_def)
  have s': "s' = s\<lparr>el_task_queue := u32 (el_task_queue s + 1), el_nodes := (el_nodes s)(node \<mapsto> (None, nxt)),
      el_delivered := el_delivered s @ map (\<lambda>l. (l, m)) (listeners_of (em_type m) s),
      el_cons := (el_cons s)[j := C_Check node]\<rparr>"
    using step j pc n by (simp add: cycle_events_step_def Let_def)
  have inv': "ev_inv (By_Cons j) as s" using inv own by simp
  show ?thesis unfolding own
  proof (rule owner_move_inv [OF inv' j, of s' "C_Check node"])
    show "dom (el_nodes s') = dom (el_nodes s)" using n by (auto simp: s')
    show "ev_chain (el_nodes s') as"
      using parts bs dist n by (auto simp: list_ok_def s')
    show "history_ok as s'"
      using parts bs dist n by (simp add: history_ok_def s' ev_calls_Cons)
    show "run_ok (el_nodes s') (el_tail_ptr s) as (C_Check node)"
      using wait bs dist by (auto simp: s' all_waiting_def)
    show "el_nodes s' n = el_nodes s n" if "n \<notin> set as" for n
      using that bs by (auto simp: s')
  qed (use pc in \<open>simp_all add: s'\<close>)
qed

lemma check_inv:
  assumes inv: "ev_inv own as s" and j: "j < length (el_cons s)" and pc: "el_cons s ! j = C_Check node"
    and step: "cycle_events_step j s = Some s'"
  shows "ev_inv own as s'"
proof -
  have own: "own = By_Cons j" and as: "as \<noteq> []" "hd as = node"
      and run: "run_ok (el_nodes s) (el_tail_ptr s) as (el_cons s ! j)"
    unfolding pc using mover_owner [OF inv j pc, unfolded pc_node.simps] by blast+
  let ?pc = "if el_tail_ptr s = node then C_Lock node else C_Next node"
  have s': "s' = s\<lparr>el_cons := (el_cons s)[j := ?pc]\<rparr>"
    using step j pc by (simp add: cycle_events_step_def Let_def)
  have inv': "ev_inv (By_Cons j) as s" using inv own by simp
  show ?thesis unfolding own
    by (rule owner_move_inv [OF inv' j, of s' ?pc])
       (use inv run as pc in \<open>auto simp: s' ev_inv_def list_ok_def history_ok_def\<close>)
qed

lemma lock_inv:
  assumes inv: "ev_inv own as s" and j: "j < length (el_cons s)" and pc: "el_cons s ! j = C_Lock node"
    and step: "cycle_events_step j s = Some s'"
  shows "ev_inv own as s'"
proof -
  have own: "own = By_Cons j" and as: "as \<noteq> []" "hd as = node"
      and run: "run_ok (el_nodes s) (el_tail_ptr s) as (el_cons s ! j)"
    unfolding pc using mover_owner [OF inv j pc, unfolded pc_node.simps] by blast+
  have s': "s' = s\<lparr>el_lock := Lock_Cons j, el_cons := (el_cons s)[j := C_Locked node]\<rparr>"
    and free: "el_lock s = Lock_Free"
    using step j pc by (auto simp: cycle_events_step_def Let_def split: if_splits)
  have inv': "ev_inv (By_Cons j) as s" using inv own by simp
  show ?thesis unfolding own
    by (rule owner_move_inv [OF inv' j, of s' "C_Locked node"])
       (use inv run as pc free in \<open>auto simp: s' ev_inv_def list_ok_def history_ok_def\<close>)
qed

lemma locked_inv:
  assumes inv: "ev_inv own as s" and j: "j < length (el_cons s)" and pc: "el_cons s ! j = C_Locked node"
    and step: "cycle_events_step j s = Some s'"
  shows "\<exists>own as. ev_inv own as s'"
proof -
  have own: "own = By_Cons j" and as: "as \<noteq> []" "hd as = node"
      and run: "run_ok (el_nodes s) (el_tail_ptr s) as (el_cons s ! j)"
    unfolding pc using mover_owner [OF inv j pc, unfolded pc_node.simps] by blast+
  note parts = inv [unfolded ev_inv_def]
  have inv': "ev_inv (By_Cons j) as s" using inv own by simp
  have lock: "el_lock s = Lock_Cons j" using parts own pc by (auto simp: owner_ok_def)
  show ?thesis
  proof (cases "el_tail_ptr s = node")
    case False
    then have s': "s' = s\<lparr>el_lock := Lock_Free, el_cons := (el_cons s)[j := C_Next node]\<rparr>"
      using step j pc by (simp add: cycle_events_step_def Let_def)
    have "ev_inv (By_Cons j) as s'"
      by (rule owner_move_inv [OF inv' j, of s' "C_Next node"])
         (use inv run as pc lock False in \<open>auto simp: s' ev_inv_def list_ok_def history_ok_def\<close>)
    then show ?thesis by blast
  next
    case True
    then have s': "s' = s\<lparr>el_tail_ptr := 0, el_tail := 0, el_head := 0,
        el_max_queue := max (el_max_queue s) (el_task_queue s), el_task_queue := 0, el_lock := Lock_Free,
        el_cons := (el_cons s)[j := C_Next node]\<rparr>"
      using step j pc by (simp add: cycle_events_step_def Let_def)
    have "last as = node" using parts lock as True by (simp add: tail_ok_def)
    then have as1: "as = [node]"
      using as parts by (cases as) (auto simp: list_ok_def split: if_splits)
    obtain x where "el_nodes s node = Some (None, x)" using run pc by auto
    with parts as1 have n: "el_nodes s node = Some (None, 0)" "node \<noteq> 0" by (auto simp: list_ok_def)
    have "others_ok By_Nobody [] s'"
    proof (rule others_ok_move [of own as s s' j "C_Next node"])
      have *: "pc_node (el_cons s ! i) \<noteq> node" if "i < length (el_cons s)" "i \<noteq> j" for i
        using parts that j pc unfolding others_ok_def by (metis ev_pc.distinct(27) pc_node.simps(4))
      show "pc_node (el_cons s ! i) \<noteq> pc_node (C_Next node)" if "i < length (el_cons s)" "i \<noteq> j" for i
        using * that by simp
      show "pc_node (C_Next node) \<noteq> 0 \<and> (\<forall>i < length (el_cons s). i \<noteq> j \<longrightarrow>
          pc_node (el_cons s ! i) \<noteq> pc_node (C_Next node))"
        using * n by simp
    qed (use parts n own j in \<open>simp_all add: s'\<close>)
    moreover have "owner_ok By_Nobody [] s'"
      using parts own by (simp add: owner_ok_def s' all_waiting_def)
    moreover have "nodes_ok [] s'"
    proof -
      have "pc_node ` (set (el_cons s') - {C_Done}) = pc_node ` (set (el_cons s) - {C_Done})"
        using pc j pc_nodes_update(1) [of j "el_cons s" "C_Next node"] pc_nodes_update(2) [of j "el_cons s"]
        by (simp add: s' insert_Diff_if)
      moreover have "C_Locked node \<in> set (el_cons s)" using pc j by (metis nth_mem)
      then have "node \<in> pc_node ` (set (el_cons s) - {C_Done})" by force
      ultimately show ?thesis using parts as1 by (auto simp: nodes_ok_def s')
    qed
    moreover have "load_ok s'" using parts lock by (simp add: load_ok_def s')
    moreover have "history_ok [] s'" using parts as1 n by (simp add: history_ok_def s')
    ultimately have "ev_inv By_Nobody [] s'"
      using parts by (simp add: ev_inv_def list_ok_def tail_ok_def s')
    then show ?thesis by blast
  qed
qed

lemma rest_nodes:
  assumes "j < length cs" and "\<And>i. i < length cs \<Longrightarrow> i \<noteq> j \<Longrightarrow> pc_node (cs ! i) \<noteq> node"
  shows "node \<notin> pc_node ` (set (take j cs) \<union> set (drop (Suc j) cs) - {C_Done})"
proof -
  have "pc_node pc \<noteq> node" if "pc \<in> set (take j cs) \<union> set (drop (Suc j) cs)" for pc
  proof -
    have "\<exists>i < length cs. i \<noteq> j \<and> pc = cs ! i"
      using that
    proof
      assume "pc \<in> set (take j cs)"
      then obtain i where "i < j" "pc = cs ! i" by (auto simp: in_set_conv_nth)
      with assms(1) show ?thesis by (intro exI [of _ i]) simp
    next
      assume "pc \<in> set (drop (Suc j) cs)"
      then obtain i where "i < length cs - Suc j" "pc = cs ! (Suc j + i)"
        by (auto simp: in_set_conv_nth)
      then show ?thesis by (intro exI [of _ "Suc j + i"]) simp
    qed
    then show ?thesis using assms(2) by blast
  qed
  then show ?thesis by auto
qed

lemma next_owner_inv:
  assumes inv: "ev_inv (By_Cons j) as s" and j: "j < length (el_cons s)" and pc: "el_cons s ! j = C_Next node"
    and step: "cycle_events_step j s = Some s'"
  shows "ev_inv (By_Cons j) (tl as) s'"
proof -
  note parts = inv [unfolded ev_inv_def]
  have o: "owner_ok (By_Cons j) as s" using parts by simp
  have as: "as \<noteq> []" "hd as = node" "el_tail_ptr s \<noteq> node" "all_waiting (el_nodes s) (tl as)"
    "\<exists>x. el_nodes s node = Some (None, x)"
    using o pc by (auto simp: owner_ok_def)
  have nolock: "el_lock s \<noteq> Lock_Cons k" for k using o pc by (auto simp: owner_ok_def)
  have tl: "tl as \<noteq> [] \<and> (el_lock s = Lock_Free \<or> (\<exists>item. el_lock s = Lock_Link item \<and> butlast (tl as) \<noteq> []
      \<and> last (butlast (tl as)) = el_tail_ptr s))"
    using parts as pc nolock
    by (cases "el_lock s"; cases as) (auto simp: tail_ok_def owner_ok_def butlast_append Cons_eq_append_conv split: if_splits)
  then obtain b bs where b: "as = node # b # bs" using as by (cases as; cases "tl as") auto
  have n: "el_nodes s node = Some (None, b)" "b \<noteq> 0" "node \<notin> set (b # bs)" "b \<notin> set bs"
    using parts b as by (auto simp: list_ok_def)
  have s': "s' = s\<lparr>el_nodes := (el_nodes s)(node := None), el_load := el_load s - 1,
      el_cons := (el_cons s)[j := C_Deliver b]\<rparr>"
    using step j pc n by (simp add: cycle_events_step_def Let_def)
  have ne: "pc_node (el_cons s ! i) \<notin> set as" if "i < length (el_cons s)" "i \<noteq> j" for i
  proof (rule mover_cases [OF inv j])
    show "el_cons s ! j \<noteq> C_Done" using pc by simp
  qed (use that in auto)
  have "others_ok (By_Cons j) (tl as) s'"
  proof (rule others_ok_move [of "By_Cons j" as s s' j "C_Deliver b"])
    show "pc_node (el_cons s ! i) \<noteq> pc_node (C_Deliver b)" if "i < length (el_cons s)" "i \<noteq> j" for i
      using ne [OF that] b by auto
    then show "pc_node (C_Deliver b) \<noteq> 0 \<and> (\<forall>i < length (el_cons s). i \<noteq> j \<longrightarrow>
        pc_node (el_cons s ! i) \<noteq> pc_node (C_Deliver b))"
      using n by simp
    show "el_nodes s' m = Some (None, 0) \<and> m \<notin> set (tl as)"
      if "m \<notin> set as" "el_nodes s m = Some (None, 0)" for m
      using that b by (auto simp: s')
  qed (use parts j in \<open>simp_all add: s'\<close>)
  moreover have "owner_ok (By_Cons j) (tl as) s'"
    using o as b n j nolock by (auto simp: owner_ok_def s' all_waiting_def)
  moreover have "nodes_ok (tl as) s'"
  proof -
    let ?rest = "set (take j (el_cons s)) \<union> set (drop (Suc j) (el_cons s))"
    have "node \<notin> pc_node ` (?rest - {C_Done})"
      by (rule rest_nodes [OF j]) (use ne b in auto)
    then show ?thesis
      using parts b n j pc pc_nodes_update(1) [of j "el_cons s" "C_Deliver b"]
        pc_nodes_update(2) [of j "el_cons s"]
      by (auto simp: nodes_ok_def s' insert_Diff_if)
  qed
  moreover have "load_ok s'"
  proof -
    have "card (dom (el_nodes s)) = Suc (card (dom (el_nodes s) - {node}))"
      using n nodes_ok_finite [of as s] parts by (intro card.remove) auto
    then show ?thesis using parts by (simp add: load_ok_def s')
  qed
  moreover have "tail_ok (tl as) s'"
    using parts tl nolock b unfolding tail_ok_def s'
    by (cases "el_lock s") (auto simp: Cons_eq_append_conv)
  moreover have "history_ok (tl as) s'"
    using parts b n by (simp add: history_ok_def s')
  ultimately show ?thesis
    using parts b n by (simp add: ev_inv_def list_ok_def s')
qed

text \<open>A run that is not in charge deletes its last node and is done.\<close>

lemma next_last_inv:
  assumes inv: "ev_inv own as s" and j: "j < length (el_cons s)" and pc: "el_cons s ! j = C_Next node"
    and other: "own \<noteq> By_Cons j" and step: "cycle_events_step j s = Some s'"
  shows "ev_inv own as s'"
proof -
  note parts = inv [unfolded ev_inv_def]
  have oth: "others_ok own as s" using parts by simp
  have n: "el_nodes s node = Some (None, 0)" "node \<notin> set as" "node \<noteq> 0"
    using oth other j pc by (auto simp: others_ok_def)
  have s': "s' = s\<lparr>el_nodes := (el_nodes s)(node := None), el_load := el_load s - 1,
      el_cons := (el_cons s)[j := C_Done]\<rparr>"
    using step j pc n by (simp add: cycle_events_step_def Let_def)
  have ne: "pc_node (el_cons s ! i) \<noteq> node" if "i < length (el_cons s)" "i \<noteq> j" for i
    using oth that j pc unfolding others_ok_def by (metis ev_pc.distinct(29) pc_node.simps(5))
  have "others_ok own as s'"
  proof (rule others_ok_move [of own as s s' j C_Done])
    show "pc_node (el_cons s ! i) \<noteq> pc_node C_Done"
      if "i < length (el_cons s)" "i \<noteq> j" "el_cons s ! i \<noteq> C_Done" for i
    proof (rule mover_cases [OF inv that(1,3)])
    qed (use that in auto)
    show "el_nodes s' m = Some (None, 0) \<and> m \<notin> set as"
      if "i < length (el_cons s)" "i \<noteq> j" "el_cons s ! i = C_Next m" "m \<notin> set as" "el_nodes s m = Some (None, 0)" for i m
      using that ne [of i] by (auto simp: s')
  qed (use oth j in \<open>simp_all add: s'\<close>)
  moreover have "owner_ok own as s'"
  proof -
    have run: "run_ok ((el_nodes s)(node := None)) tp as pc" if "run_ok (el_nodes s) tp as pc" "as \<noteq> []" for tp pc
    proof -
      have "node \<noteq> hd as" "node \<notin> set (tl as)"
        using n(2) that(2) by (auto dest: list.set_sel)
      then show ?thesis using that n(2) by (cases pc) auto
    qed
    have "owner_ok own as s" using parts by simp
    then show ?thesis
      using other j n pc run unfolding owner_ok_def s' by (cases own) auto
  qed
  moreover have "nodes_ok as s'"
  proof -
    let ?rest = "set (take j (el_cons s)) \<union> set (drop (Suc j) (el_cons s))"
    have "node \<notin> pc_node ` (?rest - {C_Done})"
      by (rule rest_nodes [OF j ne])
    then show ?thesis
      using parts n j pc pc_nodes_update(1) [of j "el_cons s" C_Done]
        pc_nodes_update(2) [of j "el_cons s"]
      by (auto simp: nodes_ok_def s' insert_Diff_if)
  qed
  moreover have "load_ok s'"
  proof -
    have "card (dom (el_nodes s)) = Suc (card (dom (el_nodes s) - {node}))"
      using n nodes_ok_finite [of as s] parts by (intro card.remove) auto
    then show ?thesis using parts by (simp add: load_ok_def s')
  qed
  moreover have "tail_ok as s'"
    by (rule tail_ok_keep [of as s]) (use parts in \<open>simp_all add: s'\<close>)
  moreover have "history_ok as s'"
    using parts n by (simp add: history_ok_def s')
  ultimately show ?thesis
    using parts n by (simp add: ev_inv_def list_ok_def s')
qed

lemma cycle_inv:
  assumes inv: "ev_inv own as s" and step: "cycle_events_step j s = Some s'"
  shows "\<exists>own as. ev_inv own as s'"
proof -
  have j: "j < length (el_cons s)" using step by (auto simp: cycle_events_step_def split: if_splits)
  show ?thesis
  proof (cases "el_cons s ! j")
    case (C_Deliver n)
    then show ?thesis using deliver_inv [OF inv j _ step] by blast
  next
    case (C_Check n)
    then show ?thesis using check_inv [OF inv j _ step] by blast
  next
    case (C_Lock n)
    then show ?thesis using lock_inv [OF inv j _ step] by blast
  next
    case (C_Locked n)
    then show ?thesis using locked_inv [OF inv j _ step] by blast
  next
    case (C_Next n)
    then show ?thesis
      using next_owner_inv [of j as s n s'] next_last_inv [OF inv j C_Next _ step] inv j step by blast
  next
    case C_Done
    then show ?thesis using step j by (simp add: cycle_events_step_def)
  qed
qed

lemma work_inv:
  assumes "ev_work s s'" and "ev_inv own as s"
  shows "\<exists>own as. ev_inv own as s'"
  using assms(1)
proof cases
  case Leave
  then show ?thesis using leave_inv [OF assms(2)] by blast
next
  case (Finish retask)
  then show ?thesis using finish_inv [OF assms(2)] by blast
next
  case Start
  then show ?thesis using start_inv [OF assms(2)] by blast
next
  case (Cycle j)
  then show ?thesis using cycle_inv [OF assms(2)] by blast
qed

lemma step_inv:
  assumes "ev_step s s'" and inv: "ev_inv own as s"
  shows "\<exists>own as. ev_inv own as s'"
  using assms(1)
proof cases
  case (Enter item message)
  show ?thesis
  proof (cases "s' = s")
    case True
    with inv show ?thesis by blast
  next
    case False
    with Enter obtain m where m: "message = Some m" and item: "item \<noteq> 0" "el_nodes s item = None"
        and free: "el_lock s = Lock_Free"
      by (auto simp: add_event_enter_def simp del: not_None_eq split: option.splits if_splits)
    show ?thesis
    proof (cases "el_tail_ptr s = 0")
      case True
      then have "s' = s\<lparr>el_nodes := (el_nodes s)(item \<mapsto> (Some m, 0)), el_sent := el_sent s @ [m],
                       el_tail_ptr := item, el_lock := Lock_First item\<rparr>"
        using Enter m item free False by (auto simp: add_event_enter_def split: if_splits)
      then show ?thesis using enter_first_inv [OF inv item free True] by blast
    next
      case tp: False
      obtain p x where px: "el_nodes s (el_tail s) = Some (p, x)" "el_tail s \<noteq> item"
        and i: "ev_inv own (as @ [item]) (s\<lparr>el_nodes := (el_nodes s)(item \<mapsto> (Some m, 0), el_tail s \<mapsto> (p, item)),
          el_sent := el_sent s @ [m], el_tail := item, el_lock := Lock_Link item\<rparr>)"
        using enter_link_inv [OF inv item free tp, of m] by blast
      then have "s' = s\<lparr>el_nodes := (el_nodes s)(item \<mapsto> (Some m, 0), el_tail s \<mapsto> (p, item)),
          el_sent := el_sent s @ [m], el_tail := item, el_lock := Lock_Link item\<rparr>"
        using Enter m item free False tp by (auto simp: add_event_enter_def Let_def split: if_splits)
      then show ?thesis using i by blast
    qed
  qed
next
  case Work
  then show ?thesis using work_inv [OF _ inv] by blast
qed

subsection \<open>Progress and termination\<close>

definition quiescent :: "'l ev_loop \<Rightarrow> bool" where
  "quiescent s \<longleftrightarrow> el_lock s = Lock_Free \<and> el_after s = 0 \<and> el_after_task s = 0 \<and> el_tasks s = 0
     \<and> (\<forall>pc \<in> set (el_cons s). pc = C_Done)"

lemma cycle_enabled:
  assumes "j < length (el_cons s)" and "el_cons s ! j \<noteq> C_Done"
    and "el_lock s = Lock_Free \<or> (\<forall>n. el_cons s ! j \<noteq> C_Lock n)"
  shows "\<exists>s'. cycle_events_step j s = Some s'"
  using assms by (cases "el_cons s ! j") (auto simp: cycle_events_step_def Let_def split: option.splits)

lemma work_progress:
  assumes inv: "ev_inv own as s" and busy: "\<not> quiescent s"
  shows "\<exists>s'. ev_work s s'"
proof (cases "el_lock s")
  case Lock_Free
  consider "0 < el_after s" | "0 < el_after_task s" | "0 < el_tasks s"
    | pc where "pc \<in> set (el_cons s)" "pc \<noteq> C_Done"
    using busy Lock_Free unfolding quiescent_def by blast
  then show ?thesis
  proof cases
    case 1
    then show ?thesis by (intro exI, intro Finish [of False]) (simp add: add_event_finish_def)
  next
    case 2
    then show ?thesis by (intro exI, intro Finish [of True]) (simp add: add_event_finish_def)
  next
    case 3
    then show ?thesis by (intro exI, intro Start) (simp add: cycle_events_start_def)
  next
    case (4 pc)
    then obtain j where "j < length (el_cons s)" "el_cons s ! j \<noteq> C_Done" by (auto simp: in_set_conv_nth)
    then show ?thesis using cycle_enabled [of j s] Lock_Free ev_work.Cycle by blast
  qed
next
  case (Lock_Cons j)
  have o: "owner_ok own as s" using inv by (simp add: ev_inv_def)
  then obtain n where n: "own = By_Cons j" "el_cons s ! j = C_Locked n"
    using Lock_Cons unfolding owner_ok_def by blast
  then have "j < length (el_cons s)" using o by (simp add: owner_ok_def)
  then obtain s' where "cycle_events_step j s = Some s'" using cycle_enabled [of j s] n by auto
  then show ?thesis using ev_work.Cycle by blast
qed (intro exI, intro Leave, simp add: add_event_leave_def)+

fun pc_rank :: "ev_pc \<Rightarrow> nat" where
  "pc_rank (C_Deliver n) = 0"
| "pc_rank (C_Check n) = 4"
| "pc_rank (C_Lock n) = 3"
| "pc_rank (C_Locked n) = 2"
| "pc_rank (C_Next n) = 1"
| "pc_rank C_Done = 0"

definition undelivered :: "(nat \<Rightarrow> ev_node option) \<Rightarrow> nat set" where
  "undelivered h = {a. \<exists>m nxt. h a = Some (Some m, nxt)}"

text \<open>What is left to do.\<close>

definition ev_left :: "'l ev_loop \<Rightarrow> nat" where
  "ev_left s = (case el_lock s of Lock_Link _ \<Rightarrow> 3 | Lock_First _ \<Rightarrow> 3 | _ \<Rightarrow> 0)
     + 2 * el_after s + 2 * el_after_task s + el_tasks s
     + 5 * card (undelivered (el_nodes s)) + sum_list (map pc_rank (el_cons s))"

lemma rank_update:
  assumes "j < length cs"
  shows "sum_list (map pc_rank (cs[j := pc])) + pc_rank (cs ! j) = sum_list (map pc_rank cs) + pc_rank pc"
  using assms by (induction cs arbitrary: j) (auto simp: nth_Cons split: nat.splits)

lemma undelivered_finite: "nodes_ok as s \<Longrightarrow> finite (undelivered (el_nodes s))"
  by (rule finite_subset [OF _ nodes_ok_finite]) (auto simp: undelivered_def)

lemma cycle_left:
  assumes inv: "ev_inv own as s" and step: "cycle_events_step j s = Some s'"
  shows "ev_left s' < ev_left s"
proof -
  have j: "j < length (el_cons s)" using step by (auto simp: cycle_events_step_def split: if_splits)
  note upd = rank_update [OF j]
  have sum: "sum_list (map pc_rank (el_cons s)) \<ge> pc_rank (el_cons s ! j)"
    using upd [of C_Done] by simp
  show ?thesis
  proof (cases "el_cons s ! j")
    case (C_Deliver n)
    have run: "run_ok (el_nodes s) (el_tail_ptr s) as (C_Deliver n)" and as: "as \<noteq> []"
      using mover_owner [OF inv j C_Deliver] by blast+
    then obtain m nxt where node: "el_nodes s n = Some (Some m, nxt)"
      by (cases as) (auto simp: all_waiting_def)
    let ?h = "(el_nodes s)(n \<mapsto> (None, nxt))"
    have s': "s' = s\<lparr>el_task_queue := u32 (el_task_queue s + 1), el_nodes := ?h,
        el_delivered := el_delivered s @ map (\<lambda>l. (l, m)) (listeners_of (em_type m) s),
        el_cons := (el_cons s)[j := C_Check n]\<rparr>"
      using step j C_Deliver node by (simp add: cycle_events_step_def Let_def)
    have "undelivered ?h = undelivered (el_nodes s) - {n}" by (auto simp: undelivered_def)
    moreover have "finite (undelivered (el_nodes s))"
      using inv undelivered_finite by (auto simp: ev_inv_def)
    moreover have "n \<in> undelivered (el_nodes s)" using node by (simp add: undelivered_def)
    ultimately have "card (undelivered (el_nodes s)) = Suc (card (undelivered ?h))"
      by (metis card.remove)
    then show ?thesis using upd [of "C_Check n"] C_Deliver by (simp add: s' ev_left_def)
  next
    case (C_Check n)
    then show ?thesis
      using step j upd [of "C_Lock n"] upd [of "C_Next n"]
      by (auto simp: cycle_events_step_def Let_def ev_left_def)
  next
    case (C_Lock n)
    then show ?thesis
      using step j upd [of "C_Locked n"]
      by (auto simp: cycle_events_step_def Let_def ev_left_def split: if_splits)
  next
    case (C_Locked n)
    have "own = By_Cons j" using mover_owner [OF inv j C_Locked] by blast
    then have "el_lock s = Lock_Cons j" using inv C_Locked by (auto simp: ev_inv_def owner_ok_def)
    then show ?thesis
      using step j upd [of "C_Next n"] C_Locked
      by (auto simp: cycle_events_step_def Let_def ev_left_def split: if_splits)
  next
    case (C_Next n)
    have "undelivered ((el_nodes s)(n := None)) \<subseteq> undelivered (el_nodes s)"
      by (auto simp: undelivered_def)
    moreover have "finite (undelivered (el_nodes s))"
      using inv undelivered_finite by (auto simp: ev_inv_def)
    ultimately have c: "card (undelivered ((el_nodes s)(n := None))) \<le> card (undelivered (el_nodes s))"
      by (rule card_mono [rotated])
    have "\<exists>p nxt. el_nodes s n = Some (p, nxt)"
      by (rule mover_cases [OF inv j]) (use C_Next in auto)
    then obtain p nxt where node: "el_nodes s n = Some (p, nxt)" by blast
    let ?pc = "if nxt = 0 then C_Done else C_Deliver nxt"
    have s': "s' = s\<lparr>el_nodes := (el_nodes s)(n := None), el_load := el_load s - 1,
        el_cons := (el_cons s)[j := ?pc]\<rparr>"
      using step j C_Next node by (simp add: cycle_events_step_def Let_def)
    have "sum_list (map pc_rank ((el_cons s)[j := ?pc])) < sum_list (map pc_rank (el_cons s))"
      using upd [of ?pc] C_Next by (simp split: if_splits)
    then show ?thesis using c by (simp add: s' ev_left_def)
  next
    case C_Done
    then show ?thesis using step j by (simp add: cycle_events_step_def)
  qed
qed

lemma work_left:
  assumes "ev_work s s'" and inv: "ev_inv own as s"
  shows "ev_left s' < ev_left s"
  using assms(1)
proof cases
  case Leave
  then show ?thesis by (auto simp: add_event_leave_def ev_left_def split: ev_lock.splits)
next
  case (Finish retask)
  then show ?thesis
    by (cases retask) (auto simp: add_event_finish_def ev_left_def split: if_splits)
next
  case Start
  then show ?thesis by (auto simp: cycle_events_start_def ev_left_def split: if_splits)
next
  case (Cycle j)
  then show ?thesis by (rule cycle_left [OF inv])
qed

lemma quiescent_all_delivered:
  assumes inv: "ev_inv own as s" and q: "quiescent s"
  shows "as = [] \<and> el_delivered s = ev_calls (el_listeners s) (el_sent s)
    \<and> el_nodes s = (\<lambda>_. None) \<and> el_load s = 0 \<and> el_tail_ptr s = 0"
proof -
  note parts = inv [unfolded ev_inv_def]
  have own: "own \<noteq> By_Cons j" for j
  proof
    assume "own = By_Cons j"
    then have "j < length (el_cons s)" "run_ok (el_nodes s) (el_tail_ptr s) as (el_cons s ! j)"
      using parts by (simp_all add: owner_ok_def)
    then show False using q run_ok_node nth_mem unfolding quiescent_def by blast
  qed
  have as: "as = []"
    using parts q own by (cases own) (auto simp: owner_ok_def quiescent_def)
  then have "dom (el_nodes s) = {}" using parts q by (auto simp: nodes_ok_def quiescent_def)
  then show ?thesis
    using parts q as by (simp add: history_ok_def load_ok_def tail_ok_def quiescent_def)
qed

subsection \<open>A loop with listeners\<close>

definition loop_setup :: "(int \<times> 'l) list \<Rightarrow> 'l ev_loop" where
  "loop_setup regs = fold (\<lambda>(ty, callback). loop_add_listener ty callback) regs loop_make"

text \<open>The calls a sequence of messages stands for, by the registrations.\<close>

definition calls_for :: "(int \<times> 'l) list \<Rightarrow> ev_msg list \<Rightarrow> ('l \<times> ev_msg) list" where
  "calls_for regs ms =
     concat (map (\<lambda>m. map (\<lambda>(_, l). (l, m)) (filter (\<lambda>(ty, _). ty = em_type m) regs)) ms)"

lemma add_listener_simps [simp]:
  "listeners_of ty (loop_add_listener ty' l s) = listeners_of ty s @ (if ty = ty' then [l] else [])"
  "el_crash (loop_add_listener ty' l s) = el_crash s" "el_nodes (loop_add_listener ty' l s) = el_nodes s"
  "el_cons (loop_add_listener ty' l s) = el_cons s" "el_sent (loop_add_listener ty' l s) = el_sent s"
  by (auto simp: loop_add_listener_def listeners_of_def split: option.splits)

lemma setup_listeners_from:
  "listeners_of ty (fold (\<lambda>(ty, callback). loop_add_listener ty callback) regs s)
     = listeners_of ty s @ map snd (filter (\<lambda>(ty', _). ty' = ty) regs)"
  by (induction regs arbitrary: s) auto

lemma setup_listeners: "listeners_of ty (loop_setup regs) = map snd (filter (\<lambda>(ty', _). ty' = ty) regs)"
proof -
  have "listeners_of ty loop_make = ([] :: 'a list)" by (simp add: listeners_of_def loop_make_def)
  then show ?thesis by (simp add: loop_setup_def setup_listeners_from)
qed

lemma setup_fields:
  "\<exists>ls. fold (\<lambda>(ty, callback). loop_add_listener ty callback) regs s = s\<lparr>el_listeners := ls\<rparr>"
proof (induction regs arbitrary: s)
  case Nil
  show ?case by (intro exI [of _ "el_listeners s"]) simp
next
  case (Cons r regs)
  obtain ls where "loop_add_listener (fst r) (snd r) s = s\<lparr>el_listeners := ls\<rparr>"
    by (cases "el_listeners s (fst r)") (auto simp: loop_add_listener_def)
  with Cons [of "s\<lparr>el_listeners := ls\<rparr>"] show ?case by (auto simp: case_prod_unfold)
qed

lemma setup_inv: "ev_inv By_Nobody [] (loop_setup regs)"
proof -
  obtain ls where "loop_setup regs = loop_make\<lparr>el_listeners := ls\<rparr>"
    using setup_fields unfolding loop_setup_def by blast
  then show ?thesis
    by (simp add: ev_inv_def loop_make_def list_ok_def tail_ok_def owner_ok_def others_ok_def
        nodes_ok_def load_ok_def history_ok_def all_waiting_def)
qed

lemma calls_for_ev_calls: "ev_calls (el_listeners (loop_setup regs)) ms = calls_for regs ms"
  by (induction ms) (auto simp: ev_calls_Cons setup_listeners calls_for_def ev_calls_def [of _ "[]"] case_prod_unfold)

text \<open>The listeners do not change.\<close>

lemma step_listeners: "ev_step s s' \<Longrightarrow> el_listeners s' = el_listeners s"
  by (auto simp: add_event_enter_def add_event_leave_def add_event_finish_def cycle_events_start_def
      cycle_events_step_def Let_def crash_def elim!: ev_stepE ev_workE
      split: option.splits if_splits ev_lock.splits ev_pc.splits)

lemma reach_inv:
  assumes "ev_reach (loop_setup regs) s"
  shows "(\<exists>own as. ev_inv own as s) \<and> el_listeners s = el_listeners (loop_setup regs)"
  using assms
proof (induction rule: ev_reach.induct)
  case Init
  then show ?case using setup_inv by blast
next
  case (Step s s')
  then show ?case using step_inv step_listeners by metis
qed

lemma reach_work: "ev_work\<^sup>*\<^sup>* s s' \<Longrightarrow> ev_reach s0 s \<Longrightarrow> ev_reach s0 s'"
  by (induction rule: rtranclp_induct) (blast intro: ev_reach.Step ev_step.Work)+

lemma work_drains:
  assumes "ev_reach (loop_setup regs) s"
  shows "\<exists>s'. ev_work\<^sup>*\<^sup>* s s' \<and> quiescent s'"
  using assms
proof (induction "ev_left s" arbitrary: s rule: less_induct)
  case less
  show ?case
  proof (cases "quiescent s")
    case True
    then show ?thesis by blast
  next
    case False
    obtain own as where inv: "ev_inv own as s" using reach_inv [OF less.prems] by blast
    obtain t where t: "ev_work s t" using work_progress [OF inv False] by blast
    have "ev_reach (loop_setup regs) t" using less.prems t by (blast intro: ev_reach.Step ev_step.Work)
    then obtain s' where "ev_work\<^sup>*\<^sup>* t s'" "quiescent s'"
      using less.hyps [OF work_left [OF t inv]] by blast
    with t show ?thesis by (meson converse_rtranclp_into_rtranclp)
  qed
qed

lemma work_finite:
  assumes "ev_reach (loop_setup regs) (f 0)" and step: "\<And>i. ev_work (f i) (f (Suc i))"
  shows False
proof -
  have "ev_reach (loop_setup regs) (f i)" for i
    by (induction i) (use assms in \<open>auto intro: ev_reach.Step ev_step.Work\<close>)
  then have "ev_left (f (Suc i)) < ev_left (f i)" for i
    using reach_inv work_left step by metis
  then have "ev_left (f i) + i \<le> ev_left (f 0)" for i
  proof (induction i)
    case (Suc i)
    then show ?case using Suc.prems [of i] by (metis Suc.IH add_Suc_right add_less_mono1 le_eq_less_or_eq less_le_trans Suc_leI)
  qed simp
  from this [of "Suc (ev_left (f 0))"] show False by simp
qed

section \<open>Properties\<close>

text \<open>C2. However producers and workers interleave, no deleted node and no message that was moved
  out is ever touched, and the listeners are called exactly for the messages that were
  accepted, in the order of their acceptance, each listener of a type in the order of
  registration; what has not been delivered yet is pending.\<close>

theorem event_loop_in_order:
  assumes "ev_reach (loop_setup regs) s"
  shows "\<not> el_crash s
    \<and> (\<exists>pending. el_delivered s @ calls_for regs pending = calls_for regs (el_sent s))"
proof -
  obtain own as where inv: "ev_inv own as s" and ls: "el_listeners s = el_listeners (loop_setup regs)"
    using reach_inv [OF assms] by blast
  have "el_delivered s @ calls_for regs (ev_waiting (el_nodes s) as) = calls_for regs (el_sent s)"
    using inv ls by (simp add: ev_inv_def history_ok_def flip: calls_for_ev_calls)
  with inv show ?thesis by (auto simp: ev_inv_def)
qed

theorem event_loop_in_order_witness:
  "\<exists>s. ev_reach (loop_setup [(1, ''a''), (1, ''b'')]) s \<and> el_sent s = [\<lparr>em_type = 1, em_data = 7\<rparr>]
    \<and> (\<exists>pending. el_delivered s @ calls_for [(1, ''a''), (1, ''b'')] pending
         = [(''a'', \<lparr>em_type = 1, em_data = 7\<rparr>), (''b'', \<lparr>em_type = 1, em_data = 7\<rparr>)])"
proof -
  let ?regs = "[(1, ''a''), (1, ''b'')] :: (int \<times> string) list"
  let ?m = "\<lparr>em_type = 1, em_data = 7\<rparr> :: ev_msg"
  obtain s where s: "add_event_enter 5 (Some ?m) (loop_setup ?regs) = Some s" "el_sent s = [?m]"
    by (simp add: add_event_enter_def loop_setup_def loop_make_def loop_add_listener_def
        loop_listeners_def)
  then have r: "ev_reach (loop_setup ?regs) s" by (blast intro: ev_reach.intros ev_step.Enter)
  have "calls_for ?regs [?m] = [(''a'', ?m), (''b'', ?m)]" by (simp add: calls_for_def)
  then show ?thesis using event_loop_in_order [OF r] r s(2) by metis
qed

text \<open>C3. Without new events the loop comes to rest: no sequence of steps of the threads goes on for
  ever, there is always a sequence to a state of rest, and in every state where no thread
  can go on everything accepted has been delivered, all nodes are deleted and the load is
  0.\<close>

theorem event_loop_drains:
  assumes "ev_reach (loop_setup regs) s"
  shows "\<not> (\<exists>f. f 0 = s \<and> (\<forall>i. ev_work (f i) (f (Suc i))))
    \<and> (\<exists>s'. ev_work\<^sup>*\<^sup>* s s' \<and> quiescent s')
    \<and> (\<forall>s'. ev_work\<^sup>*\<^sup>* s s' \<and> (\<forall>t. \<not> ev_work s' t) \<longrightarrow>
         el_delivered s' = calls_for regs (el_sent s') \<and> el_nodes s' = (\<lambda>_. None) \<and> el_load s' = 0)"
proof (intro conjI allI impI notI)
  show False if "\<exists>f. f 0 = s \<and> (\<forall>i. ev_work (f i) (f (Suc i)))"
    using that assms work_finite by blast
  show "\<exists>s'. ev_work\<^sup>*\<^sup>* s s' \<and> quiescent s'" by (rule work_drains [OF assms])
  fix s' assume s': "ev_work\<^sup>*\<^sup>* s s' \<and> (\<forall>t. \<not> ev_work s' t)"
  then have "ev_reach (loop_setup regs) s'" using reach_work assms by blast
  then obtain own as where inv: "ev_inv own as s'"
      and ls: "el_listeners s' = el_listeners (loop_setup regs)"
    using reach_inv by blast
  have "quiescent s'" using work_progress [OF inv] s' by blast
  from quiescent_all_delivered [OF inv this] show "el_delivered s' = calls_for regs (el_sent s')"
      "el_nodes s' = (\<lambda>_. None)" "el_load s' = 0"
    using ls by (auto simp flip: calls_for_ev_calls)
qed

theorem event_loop_drains_witness:
  "\<exists>s s'. ev_reach (loop_setup [(1, ''a'')]) s \<and> el_sent s = [\<lparr>em_type = 1, em_data = 7\<rparr>]
    \<and> ev_work\<^sup>*\<^sup>* s s' \<and> quiescent s'"
proof -
  let ?m = "\<lparr>em_type = 1, em_data = 7\<rparr> :: ev_msg"
  obtain s where s: "add_event_enter 5 (Some ?m) (loop_setup [(1, ''a'')]) = Some s" "el_sent s = [?m]"
    by (simp add: add_event_enter_def loop_setup_def loop_make_def loop_add_listener_def
        loop_listeners_def)
  then have r: "ev_reach (loop_setup [(1, ''a'')]) s" by (blast intro: ev_reach.intros ev_step.Enter)
  show ?thesis using event_loop_drains [OF r] r s(2) by blast
qed

end
