(* ===== verification/Task_Queue.thy ===== *)
theory Task_Queue
  imports Fifo_Interface "HOL-Library.Multiset"
begin

text \<open>
  The task queue \<^verbatim>\<open>framework/threads/\<close>: the pump that stores packages, the workers that run them,
  the pool that owns the workers and the queue, whose waiter thread hands packages from the
  pump to the workers (\<^verbatim>\<open>pump.cpp\<close>, \<^verbatim>\<open>worker.cpp\<close>, \<^verbatim>\<open>pool.cpp\<close>, \<^verbatim>\<open>queue.cpp\<close>).

  The threads are state machines with program counters (\<open>worker_pc\<close>, \<open>waiter_pc\<close>,
  \<open>main_pc\<close>); a \<open>tq_move\<close> names the thread that takes the next step and \<open>tq_step\<close> is that
  step, one access to a shared object each. A condition variable remembers nothing: a
  notification wakes who is blocked and is lost otherwise. Wake-ups without a notification,
  which the standard allows, are the moves \<open>Spurious_Worker\<close> and \<open>Spurious_Waiter\<close>.
  The pump is thread safe by its mutex; it is an interpretation of the contract of a
  first-in first-out container.
\<close>

section \<open>The pump\<close>

record 't pump =
  pu_queue :: "'t list"
  pu_load :: int

definition pump_make :: "'t pump" where
  "pump_make = \<lparr>pu_queue = [], pu_load = 0\<rparr>"

definition pump_add_package :: "'t \<Rightarrow> 't pump \<Rightarrow> 't pump" where
  "pump_add_package task p = p\<lparr>pu_queue := pu_queue p @ [task], pu_load := pu_load p + 1\<rparr>"

definition pump_next_package :: "'t pump \<Rightarrow> 't option \<times> 't pump" where
  "pump_next_package p =
     (case pu_queue p of
        [] \<Rightarrow> (None, p)
      | task # rest \<Rightarrow> (Some task, p\<lparr>pu_queue := rest, pu_load := pu_load p - 1\<rparr>))"

definition pump_get_load :: "'t pump \<Rightarrow> int" where
  "pump_get_load p = pu_load p"

definition pump_ok :: "'t pump \<Rightarrow> bool" where
  "pump_ok p \<longleftrightarrow> pu_load p = int (length (pu_queue p))"

text \<open>As a container: taking from an empty pump gives a null pointer.\<close>

definition pump_put :: "'t \<Rightarrow> 't pump \<Rightarrow> 't pump result" where
  "pump_put task p = Inr (pump_add_package task p)"

definition pump_take :: "'t pump \<Rightarrow> ('t \<times> 't pump) result" where
  "pump_take p = (case pump_next_package p of (None, _) \<Rightarrow> Inl Null_Deref | (Some t, p') \<Rightarrow> Inr (t, p'))"

interpretation pump_fifo: fifo_container pump_put pump_take pu_queue pump_ok "\<lambda>_. None"
proof unfold_locales
  fix q :: "'t pump" and x :: 't
  assume "pump_ok q"
  then show "\<exists>q'. pump_put x q = Inr q' \<and> pump_ok q' \<and> pu_queue q' = pu_queue q @ [x] \<and> None = None"
    by (simp add: pump_put_def pump_add_package_def pump_ok_def)
next
  fix q :: "'t pump"
  assume "pump_ok q" and "pu_queue q \<noteq> []"
  then show "\<exists>q'. pump_take q = Inr (hd (pu_queue q), q') \<and> pump_ok q' \<and> pu_queue q' = tl (pu_queue q)
      \<and> None = None"
    by (cases "pu_queue q") (auto simp: pump_take_def pump_next_package_def pump_ok_def)
qed

section \<open>Workers\<close>

datatype lock_owner = By_No_One | By_Worker | By_Waiter

datatype worker_pc =
    W_None
  | W_Lock
  | W_Init
  | W_Test
  | W_Enter
  | W_Blocked
  | W_Woken
  | W_Check
  | W_Run
  | W_Unload
  | W_Ready
  | W_End

record 't worker =
  w_running :: bool
  w_loaded :: bool
  w_active :: bool
  w_current :: "'t option"
  w_owner :: lock_owner
  w_pc :: worker_pc

definition worker_make :: "'t worker" where
  "worker_make = \<lparr>w_running = False, w_loaded = False, w_active = False, w_current = None,
     w_owner = By_No_One, w_pc = W_None\<rparr>"

text \<open>\<open>start\<close> creates the thread.\<close>

definition worker_start :: "'t worker \<Rightarrow> 't worker" where
  "worker_start w = (if w_active w then w else w\<lparr>w_running := False, w_pc := W_Lock\<rparr>)"

definition worker_is_running :: "'t worker \<Rightarrow> bool" where
  "worker_is_running w = w_running w"

definition worker_is_active :: "'t worker \<Rightarrow> bool" where
  "worker_is_active w = w_active w"

definition worker_is_loaded :: "'t worker \<Rightarrow> bool" where
  "worker_is_loaded w = w_loaded w"

text \<open>\<open>notify\<close>, also the notification of \<open>stop\<close>: there is one thread to wake.\<close>

definition worker_notify :: "'t worker \<Rightarrow> 't worker" where
  "worker_notify w = (if w_pc w = W_Blocked then w\<lparr>w_pc := W_Woken\<rparr> else w)"

text \<open>\<open>is_waiting\<close> leaves the mutex locked when it answers \<open>true\<close>; \<open>try_lock\<close> may fail for no
  reason (\<open>fails\<close>).\<close>

definition worker_is_waiting :: "bool \<Rightarrow> 't worker \<Rightarrow> bool \<times> 't worker" where
  "worker_is_waiting fails w =
     (if fails \<or> w_owner w \<noteq> By_No_One then (False, w)
      else if w_loaded w then (False, w)
      else (True, w\<lparr>w_owner := By_Waiter\<rparr>))"

definition worker_assign_package :: "'t \<Rightarrow> bool \<Rightarrow> 't worker \<Rightarrow> 't worker" where
  "worker_assign_package task unlock w =
     (let w' = w\<lparr>w_current := Some task, w_loaded := True\<rparr>
      in if unlock then w'\<lparr>w_owner := By_No_One\<rparr> else w')"

text \<open>One step of \<open>process\<close>: the new worker, the task that was run, whether the queue is notified
  and whether a null package was run.\<close>

definition worker_step :: "'t worker \<Rightarrow> ('t worker \<times> 't option \<times> bool \<times> bool) option" where
  "worker_step w =
     (case w_pc w of
        W_Lock \<Rightarrow>
          (if w_owner w = By_No_One then Some (w\<lparr>w_owner := By_Worker, w_pc := W_Init\<rparr>, None, False, False)
           else None)
      | W_Init \<Rightarrow>
          Some (w\<lparr>w_loaded := False, w_running := True, w_active := True, w_pc := W_Test\<rparr>, None, False, False)
      | W_Test \<Rightarrow>
          Some (if w_running w then w\<lparr>w_pc := W_Enter\<rparr> else w\<lparr>w_owner := By_No_One, w_pc := W_End\<rparr>,
            None, False, False)
      | W_Enter \<Rightarrow> Some (w\<lparr>w_owner := By_No_One, w_pc := W_Blocked\<rparr>, None, False, False)
      | W_Woken \<Rightarrow>
          (if w_owner w = By_No_One then Some (w\<lparr>w_owner := By_Worker, w_pc := W_Check\<rparr>, None, False, False)
           else None)
      | W_Check \<Rightarrow>
          Some (if w_running w then w\<lparr>w_pc := W_Run\<rparr>
                else w\<lparr>w_current := None, w_owner := By_No_One, w_pc := W_End\<rparr>, None, False, False)
      | W_Run \<Rightarrow> Some (w\<lparr>w_pc := W_Unload\<rparr>, w_current w, False, w_current w = None)
      | W_Unload \<Rightarrow> Some (w\<lparr>w_loaded := False, w_pc := W_Ready\<rparr>, None, False, False)
      | W_Ready \<Rightarrow> Some (w\<lparr>w_pc := W_Test\<rparr>, None, True, False)
      | _ \<Rightarrow> None)"

section \<open>The pool\<close>

record 't pool =
  p_size :: int
  p_workers :: "'t worker list"
  p_running :: bool

definition pool_make :: "int \<Rightarrow> 't pool" where
  "pool_make num_threads = \<lparr>p_size = num_threads, p_workers = [], p_running = False\<rparr>"

definition pool_set_size :: "int \<Rightarrow> 't pool \<Rightarrow> 't pool" where
  "pool_set_size num_threads p = p\<lparr>p_size := num_threads\<rparr>"

definition pool_init :: "'t pool \<Rightarrow> 't pool" where
  "pool_init p = p\<lparr>p_workers := p_workers p @ replicate (nat (p_size p)) worker_make\<rparr>"

text \<open>\<open>get_thread\<close> and the index operator.\<close>

definition pool_get_thread :: "nat \<Rightarrow> 't pool \<Rightarrow> 't worker result" where
  "pool_get_thread index p = arr_get (p_workers p) index"

definition pool_map_thread :: "nat \<Rightarrow> ('t worker \<Rightarrow> 't worker) \<Rightarrow> 't pool \<Rightarrow> 't pool" where
  "pool_map_thread index f p =
     (if index < length (p_workers p)
      then p\<lparr>p_workers := (p_workers p)[index := f (p_workers p ! index)]\<rparr> else p)"

section \<open>The queue\<close>

datatype waiter_pc =
    Q_None
  | Q_Start
  | Q_Test
  | Q_Load
  | Q_Enter
  | Q_Blocked
  | Q_Check
  | Q_Take
  | Q_Scan nat
  | Q_Assign nat
  | Q_Notify nat
  | Q_End

text \<open>The thread that calls \<open>start\<close> and \<open>stop\<close>.\<close>

datatype main_pc =
    M_Idle
  | M_Start nat
  | M_Spin nat
  | M_Waiter
  | M_Running
  | M_Started
  | M_Stop nat
  | M_Stop_Notify nat
  | M_Join nat
  | M_Stop_Queue
  | M_Notify_Queue
  | M_Join_Queue
  | M_Stopped

record 't tqueue =
  q_pool :: "'t pool"
  q_pump :: "'t pump"
  q_running :: bool
  q_active :: bool
  q_size :: int
  q_pc :: waiter_pc
  q_raw :: "'t option"
  q_main :: main_pc
  q_notifs :: nat
  q_added :: "'t list"
  q_assigned :: "'t list"
  q_executed :: "'t list"
  q_crash :: bool

definition queue_make :: "int \<Rightarrow> 't tqueue" where
  "queue_make n = \<lparr>q_pool = pool_make n, q_pump = pump_make, q_running = False, q_active = False,
     q_size = n, q_pc = Q_None, q_raw = None, q_main = M_Idle, q_notifs = 0, q_added = [],
     q_assigned = [], q_executed = [], q_crash = False\<rparr>"

definition queue_set_size :: "int \<Rightarrow> 't tqueue \<Rightarrow> 't tqueue" where
  "queue_set_size n s = s\<lparr>q_pool := pool_set_size n (q_pool s), q_size := n\<rparr>"

definition queue_size :: "'t tqueue \<Rightarrow> int" where
  "queue_size s = p_size (q_pool s)"

definition queue_get_load :: "'t tqueue \<Rightarrow> int" where
  "queue_get_load s = pump_get_load (q_pump s)"

definition queue_is_running :: "'t tqueue \<Rightarrow> bool" where
  "queue_is_running s = q_running s"

definition queue_is_active :: "'t tqueue \<Rightarrow> bool" where
  "queue_is_active s = q_active s"

text \<open>The condition variable of the queue.\<close>

definition notify_cycle :: "'t tqueue \<Rightarrow> 't tqueue" where
  "notify_cycle s = (if q_pc s = Q_Blocked then s\<lparr>q_pc := Q_Check\<rparr> else s)"

text \<open>\<open>add_package\<close> is two steps: the package is in the pump, then the waiter is notified.\<close>

definition queue_add_package :: "'t \<Rightarrow> 't tqueue \<Rightarrow> 't tqueue" where
  "queue_add_package task s = s\<lparr>q_pump := pump_add_package task (q_pump s),
     q_added := q_added s @ [task], q_notifs := q_notifs s + 1\<rparr>"

definition queue_add_notify :: "'t tqueue \<Rightarrow> 't tqueue option" where
  "queue_add_notify s =
     (if q_notifs s = 0 then None else Some (notify_cycle (s\<lparr>q_notifs := q_notifs s - 1\<rparr>)))"

definition map_worker :: "nat \<Rightarrow> ('t worker \<Rightarrow> 't worker) \<Rightarrow> 't tqueue \<Rightarrow> 't tqueue" where
  "map_worker i f s = s\<lparr>q_pool := pool_map_thread i f (q_pool s)\<rparr>"

text \<open>A step of \<open>cycle\<close>, with \<open>assign\<close> as its loop over the workers.\<close>

definition queue_cycle_step :: "bool \<Rightarrow> 't tqueue \<Rightarrow> 't tqueue option" where
  "queue_cycle_step fails s =
     (case q_pc s of
        Q_Start \<Rightarrow> Some (s\<lparr>q_active := True, q_raw := None, q_pc := Q_Test\<rparr>)
      | Q_Test \<Rightarrow> Some (s\<lparr>q_pc := (if q_running s then Q_Load else Q_End)\<rparr>)
      | Q_Load \<Rightarrow> Some (s\<lparr>q_pc := (if queue_get_load s = 0 then Q_Enter else Q_Check)\<rparr>)
      | Q_Enter \<Rightarrow> Some (s\<lparr>q_pc := Q_Blocked\<rparr>)
      | Q_Check \<Rightarrow>
          Some (s\<lparr>q_pc := (if \<not> q_running s then Q_End else if q_raw s = None then Q_Take else Q_Scan 0)\<rparr>)
      | Q_Take \<Rightarrow>
          (case pump_next_package (q_pump s) of
             (None, p) \<Rightarrow> Some (s\<lparr>q_pump := p, q_pc := Q_Test\<rparr>)
           | (Some t, p) \<Rightarrow> Some (s\<lparr>q_pump := p, q_raw := Some t, q_pc := Q_Scan 0\<rparr>))
      | Q_Scan i \<Rightarrow>
          (if int i < q_size s
           then (case pool_get_thread i (q_pool s) of
                   Inl _ \<Rightarrow> Some (s\<lparr>q_crash := True\<rparr>)
                 | Inr w \<Rightarrow>
                     (case worker_is_waiting fails w of
                        (True, w') \<Rightarrow> Some ((map_worker i (\<lambda>_. w') s)\<lparr>q_pc := Q_Assign i\<rparr>)
                      | (False, w') \<Rightarrow> Some ((map_worker i (\<lambda>_. w') s)\<lparr>q_pc := Q_Scan (i + 1)\<rparr>)))
           else Some (s\<lparr>q_pc := Q_Test\<rparr>))
      | Q_Assign i \<Rightarrow>
          (case q_raw s of
             None \<Rightarrow> None
           | Some t \<Rightarrow> Some ((map_worker i (worker_assign_package t True) s)
                         \<lparr>q_raw := None, q_assigned := q_assigned s @ [t], q_pc := Q_Notify i\<rparr>))
      | Q_Notify i \<Rightarrow> Some ((map_worker i worker_notify s)\<lparr>q_pc := Q_Test\<rparr>)
      | _ \<Rightarrow> None)"

text \<open>\<open>pool::start\<close>, with \<open>worker::start\<close>, spins until each worker runs.\<close>

definition pool_start_step :: "main_pc \<Rightarrow> 't tqueue \<Rightarrow> 't tqueue option" where
  "pool_start_step m s =
     (case m of
        M_Start i \<Rightarrow>
          (if i < length (p_workers (q_pool s))
           then Some ((map_worker i worker_start s)\<lparr>q_main := M_Spin i\<rparr>)
           else Some (s\<lparr>q_pool := (q_pool s)\<lparr>p_running := True\<rparr>, q_main := M_Waiter\<rparr>))
      | M_Spin i \<Rightarrow>
          (case pool_get_thread i (q_pool s) of
             Inl _ \<Rightarrow> None
           | Inr w \<Rightarrow> if worker_is_running w then Some (s\<lparr>q_main := M_Start (i + 1)\<rparr>) else None)
      | _ \<Rightarrow> None)"

text \<open>\<open>worker::stop\<close> up to its notification, and after the join.\<close>

definition worker_stop :: "'t worker \<Rightarrow> 't worker" where
  "worker_stop w = w\<lparr>w_running := False\<rparr>"

definition worker_joined :: "'t worker \<Rightarrow> 't worker" where
  "worker_joined w = w\<lparr>w_active := False\<rparr>"

text \<open>\<open>pool::stop\<close> stops and joins the workers one after the other.\<close>

definition pool_stop_step :: "main_pc \<Rightarrow> 't tqueue \<Rightarrow> 't tqueue option" where
  "pool_stop_step m s =
     (case m of
        M_Stop i \<Rightarrow>
          (case pool_get_thread i (q_pool s) of
             Inl _ \<Rightarrow> Some (s\<lparr>q_pool := (q_pool s)\<lparr>p_running := False\<rparr>, q_main := M_Stop_Queue\<rparr>)
           | Inr w \<Rightarrow>
               if w_active w then Some ((map_worker i worker_stop s)\<lparr>q_main := M_Stop_Notify i\<rparr>)
               else Some (s\<lparr>q_main := M_Stop (i + 1)\<rparr>))
      | M_Stop_Notify i \<Rightarrow> Some ((map_worker i worker_notify s)\<lparr>q_main := M_Join i\<rparr>)
      | M_Join i \<Rightarrow>
          (case pool_get_thread i (q_pool s) of
             Inl _ \<Rightarrow> None
           | Inr w \<Rightarrow>
               if w_pc w = W_End
               then Some ((map_worker i worker_joined s)\<lparr>q_main := M_Stop (i + 1)\<rparr>)
               else None)
      | _ \<Rightarrow> None)"

text \<open>A step of \<open>start\<close>, then of \<open>stop\<close>; a join waits for the end of a thread.\<close>

definition queue_main_step :: "'t tqueue \<Rightarrow> 't tqueue option" where
  "queue_main_step s =
     (case q_main s of
        M_Idle \<Rightarrow> Some (s\<lparr>q_active := False, q_pool := pool_init (q_pool s), q_main := M_Start 0\<rparr>)
      | M_Start i \<Rightarrow> pool_start_step (M_Start i) s
      | M_Spin i \<Rightarrow> pool_start_step (M_Spin i) s
      | M_Waiter \<Rightarrow> Some (s\<lparr>q_pc := Q_Start, q_main := M_Running\<rparr>)
      | M_Running \<Rightarrow> Some (s\<lparr>q_running := True, q_main := M_Started\<rparr>)
      | M_Started \<Rightarrow> Some (s\<lparr>q_main := (if p_running (q_pool s) then M_Stop 0 else M_Stop_Queue)\<rparr>)
      | M_Stop i \<Rightarrow> pool_stop_step (M_Stop i) s
      | M_Stop_Notify i \<Rightarrow> pool_stop_step (M_Stop_Notify i) s
      | M_Join i \<Rightarrow> pool_stop_step (M_Join i) s
      | M_Stop_Queue \<Rightarrow> Some (s\<lparr>q_running := False, q_main := M_Notify_Queue\<rparr>)
      | M_Notify_Queue \<Rightarrow> Some ((notify_cycle s)\<lparr>q_main := M_Join_Queue\<rparr>)
      | M_Join_Queue \<Rightarrow> (if q_pc s = Q_End then Some (s\<lparr>q_active := False, q_main := M_Stopped\<rparr>) else None)
      | M_Stopped \<Rightarrow> None)"

declare pool_start_step_def [simp] pool_stop_step_def [simp] worker_stop_def [simp] worker_joined_def [simp]

text \<open>Components add tasks through a \<open>task_utility\<close>, which drops them as long as it has no queue.\<close>

record task_utility =
  tu_queue :: "nat option"

definition task_utility_make :: task_utility where
  "task_utility_make = \<lparr>tu_queue = None\<rparr>"

definition set_queue_utility :: "nat option \<Rightarrow> task_utility \<Rightarrow> task_utility" where
  "set_queue_utility q u = u\<lparr>tu_queue := q\<rparr>"

definition add_task :: "'t \<Rightarrow> task_utility \<Rightarrow> (nat \<Rightarrow> 't tqueue) \<Rightarrow> (nat \<Rightarrow> 't tqueue)" where
  "add_task task u queues =
     (case tu_queue u of None \<Rightarrow> queues | Some q \<Rightarrow> queues(q := queue_add_package task (queues q)))"

datatype 't tq_move =
    Add_Package 't
  | Add_Notify
  | Worker nat
  | Waiter bool
  | Main
  | Spurious_Worker nat
  | Spurious_Waiter

definition tq_step :: "'t tq_move \<Rightarrow> 't tqueue \<Rightarrow> 't tqueue option" where
  "tq_step m s =
     (case m of
        Add_Package t \<Rightarrow> Some (queue_add_package t s)
      | Add_Notify \<Rightarrow> queue_add_notify s
      | Worker i \<Rightarrow>
          (case pool_get_thread i (q_pool s) of
             Inl _ \<Rightarrow> None
           | Inr w \<Rightarrow>
               (case worker_step w of
                  None \<Rightarrow> None
                | Some (w', done_task, ready, null) \<Rightarrow>
                    let s1 = (map_worker i (\<lambda>_. w') s)
                          \<lparr>q_executed := q_executed s @ (case done_task of None \<Rightarrow> [] | Some t \<Rightarrow> [t]),
                           q_crash := (q_crash s \<or> null)\<rparr>
                    in Some (if ready then notify_cycle s1 else s1)))
      | Waiter fails \<Rightarrow> queue_cycle_step fails s
      | Main \<Rightarrow> queue_main_step s
      | Spurious_Worker i \<Rightarrow>
          (case pool_get_thread i (q_pool s) of
             Inl _ \<Rightarrow> None
           | Inr w \<Rightarrow> if w_pc w = W_Blocked then Some (map_worker i worker_notify s) else None)
      | Spurious_Waiter \<Rightarrow> if q_pc s = Q_Blocked then Some (notify_cycle s) else None)"

fun tq_run :: "'t tq_move list \<Rightarrow> 't tqueue \<Rightarrow> 't tqueue option" where
  "tq_run [] s = Some s"
| "tq_run (m # ms) s = (case tq_step m s of None \<Rightarrow> None | Some s' \<Rightarrow> tq_run ms s')"

section \<open>Invariant\<close>

definition inited :: "'t worker \<Rightarrow> bool" where
  "inited w \<longleftrightarrow> w_pc w \<notin> {W_None, W_Lock, W_Init}"

definition has_task :: "'t worker \<Rightarrow> bool" where
  "has_task w \<longleftrightarrow> w_loaded w \<and> w_current w \<noteq> None"

text \<open>The mutex is with the worker outside its waits; who is woken to go on has a task; a worker
  that has not begun has none.\<close>

definition worker_ok :: "'t worker \<Rightarrow> bool" where
  "worker_ok w \<longleftrightarrow>
     (w_owner w = By_Worker \<longleftrightarrow> w_pc w \<in> {W_Init, W_Test, W_Enter, W_Check, W_Run, W_Unload, W_Ready})
   \<and> (w_running w \<longrightarrow> inited w \<and> w_pc w \<noteq> W_End)
   \<and> (w_pc w \<in> {W_Woken, W_Check} \<longrightarrow> \<not> w_running w \<or> has_task w)
   \<and> (w_pc w = W_Run \<longrightarrow> has_task w)
   \<and> (\<not> inited w \<longrightarrow> \<not> w_loaded w)"

fun stopping :: "main_pc \<Rightarrow> bool" where
  "stopping M_Idle = False"
| "stopping (M_Start i) = False"
| "stopping (M_Spin i) = False"
| "stopping M_Waiter = False"
| "stopping M_Running = False"
| "stopping M_Started = False"
| "stopping _ = True"

fun must_init :: "main_pc \<Rightarrow> nat \<Rightarrow> bool" where
  "must_init M_Idle k = False"
| "must_init (M_Start i) k = (k < i)"
| "must_init (M_Spin i) k = (k < i)"
| "must_init _ k = True"

fun must_fresh :: "main_pc \<Rightarrow> nat \<Rightarrow> bool" where
  "must_fresh M_Idle k = True"
| "must_fresh (M_Start i) k = (i \<le> k)"
| "must_fresh (M_Spin i) k = (i < k)"
| "must_fresh _ k = False"

definition before_waiter :: "main_pc \<Rightarrow> bool" where
  "before_waiter m \<longleftrightarrow> m = M_Idle \<or> m = M_Waiter \<or> (\<exists>i. m = M_Start i \<or> m = M_Spin i)"

text \<open>How worker \<open>i\<close> depends on the waiter and the starting thread.\<close>

definition w_link :: "waiter_pc \<Rightarrow> main_pc \<Rightarrow> nat \<Rightarrow> 't worker \<Rightarrow> bool" where
  "w_link q m i w \<longleftrightarrow>
     (w_owner w = By_Waiter \<longleftrightarrow> q = Q_Assign i)
     \<and> (q = Q_Assign i \<longrightarrow> \<not> w_loaded w)
     \<and> (q = Q_Notify i \<and> w_running w \<longrightarrow> w_pc w = W_Blocked \<and> has_task w)
     \<and> (\<not> stopping m \<and> inited w \<longrightarrow> w_running w)
     \<and> (must_init m i \<or> q \<noteq> Q_None \<longrightarrow> inited w)
     \<and> (must_fresh m i \<longrightarrow> w_pc w = W_None \<and> \<not> w_active w)
     \<and> (m = M_Stop_Notify i \<longrightarrow> \<not> w_running w)"

definition w_inv :: "waiter_pc \<Rightarrow> main_pc \<Rightarrow> nat \<Rightarrow> 't worker \<Rightarrow> bool" where
  "w_inv q m i w \<longleftrightarrow> worker_ok w \<and> w_link q m i w"

text \<open>The package a worker has and has not run yet.\<close>

definition held :: "'t worker \<Rightarrow> 't multiset" where
  "held w = (if w_loaded w \<and> w_pc w \<noteq> W_Unload
     then (case w_current w of None \<Rightarrow> {#} | Some t \<Rightarrow> {#t#}) else {#})"

definition held_all :: "'t tqueue \<Rightarrow> 't multiset" where
  "held_all s = sum_list (map held (p_workers (q_pool s)))"

fun q_index :: "waiter_pc \<Rightarrow> nat option" where
  "q_index (Q_Assign i) = Some i"
| "q_index (Q_Notify i) = Some i"
| "q_index _ = None"

definition opt_list :: "'a option \<Rightarrow> 'a list" where
  "opt_list x = (case x of None \<Rightarrow> [] | Some y \<Rightarrow> [y])"

lemma opt_list_simps [simp]: "opt_list None = []" "opt_list (Some x) = [x]"
  by (simp_all add: opt_list_def)

definition shape_ok :: "'t tqueue \<Rightarrow> bool" where
  "shape_ok s \<longleftrightarrow> \<not> q_crash s \<and> pump_ok (q_pump s) \<and> q_size s = p_size (q_pool s)
     \<and> length (p_workers (q_pool s)) = (if q_main s = M_Idle then 0 else nat (q_size s))
     \<and> (q_pc s = Q_None \<longleftrightarrow> before_waiter (q_main s))
     \<and> (\<forall>i. q_main s = M_Spin i \<longrightarrow> i < length (p_workers (q_pool s)))
     \<and> (\<forall>i. q_index (q_pc s) = Some i \<longrightarrow> i < length (p_workers (q_pool s)))
     \<and> ((\<exists>i. q_pc s = Q_Scan i \<or> q_pc s = Q_Assign i) \<longrightarrow> q_raw s \<noteq> None)
     \<and> (q_pc s = Q_None \<or> q_pc s = Q_Start \<or> q_pc s = Q_Take \<longrightarrow> q_raw s = None)"

definition hist_ok :: "'t tqueue \<Rightarrow> bool" where
  "hist_ok s \<longleftrightarrow> q_assigned s @ opt_list (q_raw s) @ pu_queue (q_pump s) = q_added s
     \<and> mset (q_executed s) + held_all s \<subseteq># mset (q_assigned s)
     \<and> (\<not> stopping (q_main s) \<longrightarrow> mset (q_executed s) + held_all s = mset (q_assigned s))"

definition tq_inv :: "'t tqueue \<Rightarrow> bool" where
  "tq_inv s \<longleftrightarrow> shape_ok s \<and> hist_ok s
     \<and> (\<forall>i < length (p_workers (q_pool s)). w_inv (q_pc s) (q_main s) i (p_workers (q_pool s) ! i))"

lemma held_update:
  "i < length ws \<Longrightarrow> sum_list (map held (ws[i := w])) + held (ws ! i) = sum_list (map held ws) + held w"
proof (induction ws arbitrary: i)
  case (Cons a ws)
  then show ?case by (cases i) (auto simp: ac_simps)
qed simp

text \<open>A move of worker \<open>i\<close> that keeps or gives up its package, or runs it.\<close>

lemma hist_ok_worker:
  assumes h: "hist_ok s" and i: "i < length (p_workers (q_pool s))"
    and s': "p_workers (q_pool s') = (p_workers (q_pool s))[i := w']" "q_raw s' = q_raw s"
      "q_pump s' = q_pump s" "q_added s' = q_added s" "q_main s' = q_main s" "q_assigned s' = q_assigned s"
    and ex: "mset (q_executed s') + held w' \<subseteq># mset (q_executed s) + held (p_workers (q_pool s) ! i)"
    and eq: "\<not> stopping (q_main s) \<Longrightarrow>
        mset (q_executed s') + held w' = mset (q_executed s) + held (p_workers (q_pool s) ! i)"
  shows "hist_ok s'"
proof -
  let ?w = "held (p_workers (q_pool s) ! i)"
  have *: "held_all s' + ?w = held_all s + held w'"
    using held_update [OF i, of w'] by (simp add: held_all_def s')
  have sum: "mset (q_executed s') + held_all s' + ?w = (mset (q_executed s') + held w') + held_all s"
    using * by (simp add: ac_simps)
  have "(mset (q_executed s') + held w') + held_all s \<subseteq># (mset (q_executed s) + ?w) + held_all s"
    using ex by (simp add: mset_subset_eq_mono_add)
  then have "mset (q_executed s') + held_all s' + ?w \<subseteq># mset (q_executed s) + held_all s + ?w"
    unfolding sum by (simp add: ac_simps)
  then have le: "mset (q_executed s') + held_all s' \<subseteq># mset (q_executed s) + held_all s"
    by (simp only: mset_subset_eq_mono_add_right_cancel)
  have same: "mset (q_executed s') + held_all s' = mset (q_executed s) + held_all s" if "\<not> stopping (q_main s)"
  proof -
    have "mset (q_executed s') + held_all s' + ?w = (mset (q_executed s) + ?w) + held_all s"
      unfolding sum eq [OF that] ..
    also have "\<dots> = mset (q_executed s) + held_all s + ?w" by (simp add: ac_simps)
    finally show ?thesis by (simp only: add_right_cancel)
  qed
  show ?thesis
    using h le same subset_mset.trans [OF le] unfolding hist_ok_def s' by simp
qed

lemma w_inv_at: "tq_inv s \<Longrightarrow> i < length (p_workers (q_pool s)) \<Longrightarrow>
    w_inv (q_pc s) (q_main s) i (p_workers (q_pool s) ! i)"
  by (simp add: tq_inv_def)

lemma w_inv_pc:
  assumes "w_inv q m i w" and "\<And>k. q \<noteq> Q_Assign k" and "q_index q' = None" and "q \<noteq> Q_None"
  shows "w_inv q' m i w"
proof -
  have "q' \<noteq> Q_Assign i" "q' \<noteq> Q_Notify i" using assms(3) by auto
  with assms(1,2,4) show ?thesis unfolding w_inv_def w_link_def by simp
qed

lemma w_inv_main:
  assumes "w_inv q m i w" and "stopping m \<longrightarrow> stopping m'" and "must_init m' i \<longrightarrow> inited w"
    and "must_fresh m' i \<longrightarrow> must_fresh m i" and "m' \<noteq> M_Stop_Notify i"
  shows "w_inv q m' i w"
  using assms unfolding w_inv_def w_link_def by blast

text \<open>A move that changes worker \<open>i\<close> only, or wakes the waiter as well.\<close>

lemma tq_inv_worker:
  assumes inv: "tq_inv s" and i: "i < length (p_workers (q_pool s))"
    and s': "q_pool s' = (q_pool s)\<lparr>p_workers := (p_workers (q_pool s))[i := w']\<rparr>" "q_raw s' = q_raw s"
      "q_pump s' = q_pump s" "q_added s' = q_added s" "q_main s' = q_main s" "q_assigned s' = q_assigned s"
      "q_size s' = q_size s" "q_crash s' = q_crash s"
    and pc: "q_pc s' = q_pc s \<or> q_pc s = Q_Blocked \<and> q_pc s' = Q_Check"
    and w': "w_inv (q_pc s) (q_main s) i w'"
    and ex: "mset (q_executed s') + held w' \<subseteq># mset (q_executed s) + held (p_workers (q_pool s) ! i)"
    and eq: "\<not> stopping (q_main s) \<Longrightarrow>
        mset (q_executed s') + held w' = mset (q_executed s) + held (p_workers (q_pool s) ! i)"
  shows "tq_inv s'"
proof -
  have h: "hist_ok s" and sh: "shape_ok s" using inv by (simp_all add: tq_inv_def)
  have "hist_ok s'"
  proof (rule hist_ok_worker [OF h i])
    show "mset (q_executed s') + held w' = mset (q_executed s) + held (p_workers (q_pool s) ! i)"
      if "\<not> stopping (q_main s)"
      by (rule eq [OF that])
  qed (simp_all add: s' ex)
  moreover have "shape_ok s'"
    using pc by (elim disjE) (use sh in \<open>auto simp: shape_ok_def s'\<close>)
  moreover have "w_inv (q_pc s') (q_main s') k (p_workers (q_pool s') ! k)"
    if "k < length (p_workers (q_pool s'))" for k
  proof -
    have "w_inv (q_pc s) (q_main s) k (p_workers (q_pool s') ! k)"
      using that inv w' i by (cases "k = i") (simp_all add: s' tq_inv_def)
    then show ?thesis using pc w_inv_pc [of "q_pc s" "q_main s" k _ Q_Check] by (auto simp: s')
  qed
  ultimately show ?thesis by (simp add: tq_inv_def)
qed

lemmas w_inv_defs = w_inv_def w_link_def worker_ok_def inited_def has_task_def

lemma worker_step_ok:
  assumes "worker_ok w" and "worker_step w = Some (w', t, ready, null)"
  shows "worker_ok w'"
  using assms
  by (cases "w_pc w"; clarsimp simp: worker_step_def split: if_splits;
      simp add: worker_ok_def inited_def has_task_def)

lemma worker_step_link:
  assumes ok: "worker_ok w" and link: "w_link q m i w" and step: "worker_step w = Some (w', t, ready, null)"
  shows "w_link q m i w'"
proof -
  have own: "w_owner w' = By_Waiter \<longleftrightarrow> w_owner w = By_Waiter"
    using ok step by (cases "w_pc w") (auto simp: worker_step_def worker_ok_def split: if_splits)
  have run: "inited w \<Longrightarrow> inited w' \<and> w_running w' = w_running w"
    "w_pc w \<noteq> W_None" "w_pc w \<noteq> W_Blocked" "w_loaded w' \<Longrightarrow> w_loaded w"
    using step by (cases "w_pc w"; clarsimp simp: worker_step_def inited_def split: if_splits)+
  have init: "\<not> inited w \<Longrightarrow> inited w' \<Longrightarrow> w_running w'" "w_running w' \<Longrightarrow> inited w'"
    using step ok by (cases "w_pc w"; clarsimp simp: worker_step_def inited_def worker_ok_def split: if_splits)+
  show ?thesis
    using link own run init unfolding w_link_def by auto
qed

lemma worker_step_w_inv:
  assumes "w_inv q m i w" and "worker_step w = Some (w', t, ready, null)"
  shows "w_inv q m i w'"
  using assms worker_step_ok worker_step_link unfolding w_inv_def by blast

lemma worker_step_held:
  assumes "w_inv q m i w" and "worker_step w = Some (w', t, ready, null)"
  shows "\<not> null \<and> mset (opt_list t) + held w' \<subseteq># held w
    \<and> (\<not> stopping m \<longrightarrow> mset (opt_list t) + held w' = held w)"
  using assms
  by (cases "w_pc w") (auto simp: worker_step_def w_inv_defs held_def split: if_splits option.splits)

lemma worker_move_inv:
  assumes inv: "tq_inv s" and step: "tq_step (Worker i) s = Some s'"
  shows "tq_inv s'"
proof -
  have i: "i < length (p_workers (q_pool s))"
    using step by (auto simp: tq_step_def pool_get_thread_def arr_get_def split: if_splits)
  let ?w = "p_workers (q_pool s) ! i"
  obtain w' t ready null where w': "worker_step ?w = Some (w', t, ready, null)"
    using step i by (auto simp: tq_step_def pool_get_thread_def split: option.splits)
  note wi = w_inv_at [OF inv i]
  note held = worker_step_held [OF wi w']
  let ?s = "(map_worker i (\<lambda>_. w') s)\<lparr>q_executed := q_executed s @ opt_list t, q_crash := (q_crash s \<or> null)\<rparr>"
  have s': "s' = (if ready then notify_cycle ?s else ?s)"
    using step i w' by (auto simp: tq_step_def pool_get_thread_def opt_list_def Let_def)
  show ?thesis
    by (rule tq_inv_worker [OF inv i, where w' = w'])
       (use s' i held worker_step_w_inv [OF wi w'] in
         \<open>auto simp: notify_cycle_def map_worker_def pool_map_thread_def ac_simps subset_mset.add_left_mono\<close>)
qed

text \<open>Moves that leave the workers alone.\<close>

lemma tq_inv_frame:
  fixes s s' :: "'t tqueue"
  assumes inv: "tq_inv s" and pool: "p_workers (q_pool s') = p_workers (q_pool s)"
    and sh: "shape_ok s'" and ex: "q_executed s' = q_executed s" and asg: "q_assigned s' = q_assigned s"
    and hist: "q_assigned s @ opt_list (q_raw s') @ pu_queue (q_pump s') = q_added s'"
    and m: "q_main s' = q_main s \<or> stopping (q_main s') \<or> \<not> stopping (q_main s)"
    and w: "\<And>i (w :: 't worker). i < length (p_workers (q_pool s)) \<Longrightarrow> w_inv (q_pc s) (q_main s) i w \<Longrightarrow>
          w_inv (q_pc s') (q_main s') i w"
  shows "tq_inv s'"
proof -
  have "hist_ok s" using inv by (simp add: tq_inv_def)
  then have "hist_ok s'"
    using m hist unfolding hist_ok_def held_all_def pool ex asg by auto
  moreover have "w_inv (q_pc s') (q_main s') i (p_workers (q_pool s') ! i)"
    if "i < length (p_workers (q_pool s'))" for i
  proof -
    have i: "i < length (p_workers (q_pool s))" using that by (simp add: pool)
    show ?thesis unfolding pool by (rule w [OF i w_inv_at [OF inv i]])
  qed
  ultimately show ?thesis using sh by (simp add: tq_inv_def)
qed

lemma add_move_inv: "tq_inv s \<Longrightarrow> tq_inv (queue_add_package t s)"
  by (rule tq_inv_frame)
     (auto simp: queue_add_package_def shape_ok_def pump_add_package_def pump_ok_def tq_inv_def hist_ok_def)

text \<open>Moves of the waiter that only change its program counter.\<close>

lemma pc_move_inv:
  assumes inv: "tq_inv s" and q: "\<And>k. q_pc s \<noteq> Q_Assign k" "q_pc s \<noteq> Q_None"
    and q': "q_index q' = None" "q' \<noteq> Q_None" "\<And>i. q' = Q_Scan i \<Longrightarrow> q_raw s \<noteq> None"
      "q' = Q_Start \<or> q' = Q_Take \<Longrightarrow> q_raw s = None"
  shows "tq_inv (s\<lparr>q_pc := q'\<rparr>)"
proof (rule tq_inv_frame [OF inv])
  show "w_inv (q_pc (s\<lparr>q_pc := q'\<rparr>)) (q_main (s\<lparr>q_pc := q'\<rparr>)) i w"
    if "w_inv (q_pc s) (q_main s) i w" for i w
    using w_inv_pc [OF that q(1) q'(1) q(2)] by simp
  have "q' \<noteq> Q_Assign i" for i using q'(1) by auto
  then show "shape_ok (s\<lparr>q_pc := q'\<rparr>)"
    using inv q q' unfolding tq_inv_def shape_ok_def by auto
qed (use inv in \<open>simp_all add: tq_inv_def hist_ok_def\<close>)

lemma active_inv: "tq_inv (s\<lparr>q_active := a\<rparr>) = tq_inv s"
  by (simp add: tq_inv_def shape_ok_def hist_ok_def held_all_def)

lemma notify_cycle_inv: "tq_inv s \<Longrightarrow> tq_inv (notify_cycle s)"
  using pc_move_inv [of s Q_Check] by (auto simp: notify_cycle_def)

lemma add_notify_inv: "tq_inv s \<Longrightarrow> queue_add_notify s = Some s' \<Longrightarrow> tq_inv s'"
proof -
  assume inv: "tq_inv s" and "queue_add_notify s = Some s'"
  then have s': "s' = notify_cycle (s\<lparr>q_notifs := q_notifs s - 1\<rparr>)"
    by (auto simp: queue_add_notify_def split: if_splits)
  have "tq_inv (s\<lparr>q_notifs := q_notifs s - 1\<rparr>)"
    by (rule tq_inv_frame [OF inv]) (use inv in \<open>force simp: shape_ok_def tq_inv_def hist_ok_def\<close>)+
  then show ?thesis unfolding s' by (rule notify_cycle_inv)
qed

text \<open>The waiter.\<close>

lemma take_inv:
  assumes inv: "tq_inv s" and pc: "q_pc s = Q_Take"
    and step: "queue_cycle_step fails s = Some s'"
  shows "tq_inv s'"
proof (rule tq_inv_frame [OF inv])
  have raw: "q_raw s = None" using inv pc by (simp add: tq_inv_def shape_ok_def)
  show "shape_ok s'"
    using step pc inv unfolding tq_inv_def shape_ok_def
    by (cases "pu_queue (q_pump s)") (auto simp: queue_cycle_step_def pump_next_package_def pump_ok_def before_waiter_def)
  show "q_assigned s @ opt_list (q_raw s') @ pu_queue (q_pump s') = q_added s'"
    using step pc raw inv
    by (cases "pu_queue (q_pump s)")
       (auto simp: queue_cycle_step_def pump_next_package_def tq_inv_def hist_ok_def)
  show "w_inv (q_pc s') (q_main s') i w" if "w_inv (q_pc s) (q_main s) i w" for i w
    using step pc that w_inv_pc [of "q_pc s" "q_main s" i w]
    by (cases "pu_queue (q_pump s)") (auto simp: queue_cycle_step_def pump_next_package_def)
qed (use step pc in \<open>cases "pu_queue (q_pump s)"; auto simp: queue_cycle_step_def pump_next_package_def\<close>)+

lemma scan_inv:
  assumes inv: "tq_inv s" and pc: "q_pc s = Q_Scan i"
    and step: "queue_cycle_step fails s = Some s'"
  shows "tq_inv s'"
proof (cases "int i < q_size s")
  case False
  then have s': "s' = s\<lparr>q_pc := Q_Test\<rparr>" using step pc by (simp add: queue_cycle_step_def)
  show ?thesis using pc_move_inv [OF inv, of Q_Test] pc by (simp add: s')
next
  case True
  let ?w = "p_workers (q_pool s) ! i"
  have i: "i < length (p_workers (q_pool s))"
    using inv True pc by (auto simp: tq_inv_def shape_ok_def before_waiter_def)
  note wi = w_inv_at [OF inv i]
  show ?thesis
  proof (cases "fst (worker_is_waiting fails ?w)")
    case free: True
    then have w: "w_owner ?w = By_No_One" "\<not> w_loaded ?w"
      by (auto simp: worker_is_waiting_def split: if_splits)
    let ?w' = "?w\<lparr>w_owner := By_Waiter\<rparr>"
    have s': "s' = s\<lparr>q_pool := (q_pool s)\<lparr>p_workers := (p_workers (q_pool s))[i := ?w']\<rparr>, q_pc := Q_Assign i\<rparr>"
      using step pc True i free
      by (auto simp: queue_cycle_step_def pool_get_thread_def worker_is_waiting_def map_worker_def
          pool_map_thread_def split: if_splits)
    have "w_inv (Q_Assign i) (q_main s) k (p_workers (q_pool s') ! k)" if "k < length (p_workers (q_pool s))" for k
    proof (cases "k = i")
      case True
      then show ?thesis using wi w i pc by (auto simp: s' w_inv_defs)
    next
      case False
      then show ?thesis using w_inv_at [OF inv that] that pc by (auto simp: s' w_inv_def w_link_def)
    qed
    moreover have "hist_ok s'"
      by (rule hist_ok_worker [of s i s' ?w']) (use inv i w in \<open>auto simp: s' tq_inv_def held_def hist_ok_def\<close>)
    moreover have "shape_ok s'" using inv i pc by (auto simp: s' tq_inv_def shape_ok_def)
    ultimately show ?thesis by (simp add: tq_inv_def s')
  next
    case False
    have "(p_workers (q_pool s))[i := ?w] = p_workers (q_pool s)" by simp
    then have s': "s' = s\<lparr>q_pool := (q_pool s)\<lparr>p_workers := p_workers (q_pool s)\<rparr>, q_pc := Q_Scan (i + 1)\<rparr>"
      using step pc True i False
      by (auto simp: queue_cycle_step_def pool_get_thread_def worker_is_waiting_def map_worker_def
          pool_map_thread_def split: if_splits)
    have "q_raw s \<noteq> None" using inv pc by (auto simp: tq_inv_def shape_ok_def)
    then show ?thesis using pc_move_inv [OF inv, of "Q_Scan (i + 1)"] pc by (simp add: s')
  qed
qed

lemma assign_package_ok:
  assumes "w_link (Q_Assign i) m i w" and "worker_ok w"
  shows "worker_ok (worker_assign_package t True w)"
    and "w_link (Q_Notify i) m i (worker_assign_package t True w)"
    and "held (worker_assign_package t True w) = {#t#}" and "held w = {#}"
  using assms
  by (cases "w_pc w"; simp add: worker_ok_def has_task_def inited_def w_link_def worker_assign_package_def
      held_def)+

lemma worker_notify_ok:
  assumes link: "w_link (Q_Notify i) m i w" and ok: "worker_ok w"
  shows "worker_ok (worker_notify w)" and "w_link Q_Test m i (worker_notify w)"
    and "held (worker_notify w) = held w"
proof -
  show "held (worker_notify w) = held w" by (auto simp: worker_notify_def held_def)
  have inited: "inited (worker_notify w) = inited w" by (simp add: worker_notify_def inited_def)
  then show "w_link Q_Test m i (worker_notify w)"
    using link unfolding w_link_def by (cases "w_pc w = W_Blocked"; simp add: worker_notify_def; blast?)
  show "worker_ok (worker_notify w)"
  proof (cases "w_pc w = W_Blocked")
    case True
    then have "w_running w \<Longrightarrow> has_task w" using link by (simp add: w_link_def)
    with True ok show ?thesis
      by (cases "w_running w") (simp_all add: worker_notify_def worker_ok_def has_task_def inited_def)
  qed (use ok in \<open>simp add: worker_notify_def\<close>)
qed

lemma assign_inv:
  assumes inv: "tq_inv s" and pc: "q_pc s = Q_Assign i"
    and step: "queue_cycle_step fails s = Some s'"
  shows "tq_inv s'"
proof -
  have i: "i < length (p_workers (q_pool s))" and raw: "q_raw s \<noteq> None"
    using inv pc by (auto simp: tq_inv_def shape_ok_def)
  then obtain t where t: "q_raw s = Some t" by blast
  let ?w = "p_workers (q_pool s) ! i"
  let ?w' = "worker_assign_package t True ?w"
  have wi: "worker_ok ?w" "w_link (Q_Assign i) (q_main s) i ?w"
    using w_inv_at [OF inv i] pc by (simp_all add: w_inv_def)
  have s': "s' = s\<lparr>q_pool := (q_pool s)\<lparr>p_workers := (p_workers (q_pool s))[i := ?w']\<rparr>, q_raw := None,
      q_assigned := q_assigned s @ [t], q_pc := Q_Notify i\<rparr>"
    using step pc t i by (simp add: queue_cycle_step_def map_worker_def pool_map_thread_def)
  note ok = assign_package_ok [OF wi(2,1)]
  have this_w: "w_inv (Q_Notify i) (q_main s) i ?w'" using ok by (simp add: w_inv_def)
  have "w_inv (Q_Notify i) (q_main s) k (p_workers (q_pool s') ! k)" if "k < length (p_workers (q_pool s))" for k
  proof (cases "k = i")
    case True
    then show ?thesis using this_w i by (simp add: s')
  next
    case False
    then show ?thesis using w_inv_at [OF inv that] that pc by (simp add: s' w_inv_def w_link_def)
  qed
  moreover have "hist_ok s'"
  proof -
    have "held_all s' = held_all s + {#t#}"
      using held_update [OF i, of ?w'] ok by (simp add: s' held_all_def)
    then show ?thesis using inv t by (simp add: s' tq_inv_def hist_ok_def)
  qed
  moreover have "shape_ok s'" using inv i pc by (auto simp: s' tq_inv_def shape_ok_def)
  ultimately show ?thesis by (simp add: tq_inv_def s')
qed

lemma notify_inv:
  assumes inv: "tq_inv s" and pc: "q_pc s = Q_Notify i"
    and step: "queue_cycle_step fails s = Some s'"
  shows "tq_inv s'"
proof -
  have i: "i < length (p_workers (q_pool s))" using inv pc by (auto simp: tq_inv_def shape_ok_def)
  let ?w = "p_workers (q_pool s) ! i"
  have wi: "worker_ok ?w" "w_link (Q_Notify i) (q_main s) i ?w"
    using w_inv_at [OF inv i] pc by (simp_all add: w_inv_def)
  note ok = worker_notify_ok [OF wi(2,1)]
  have s': "s' = s\<lparr>q_pool := (q_pool s)\<lparr>p_workers := (p_workers (q_pool s))[i := worker_notify ?w]\<rparr>,
      q_pc := Q_Test\<rparr>"
    using step pc i by (simp add: queue_cycle_step_def map_worker_def pool_map_thread_def)
  have "w_inv Q_Test (q_main s) k (p_workers (q_pool s') ! k)" if "k < length (p_workers (q_pool s))" for k
  proof (cases "k = i")
    case True
    then show ?thesis using i ok by (simp add: s' w_inv_def)
  next
    case False
    then show ?thesis using w_inv_at [OF inv that] that pc by (simp add: s' w_inv_def w_link_def)
  qed
  moreover have "hist_ok s'"
    by (rule hist_ok_worker [of s i s' "worker_notify ?w"]) (use inv i ok(3) in \<open>simp_all add: s' tq_inv_def\<close>)
  moreover have "shape_ok s'" using inv i pc by (auto simp: s' tq_inv_def shape_ok_def)
  ultimately show ?thesis by (simp add: tq_inv_def s')
qed

lemma waiter_move_inv:
  assumes inv: "tq_inv s" and step: "queue_cycle_step fails s = Some s'"
  shows "tq_inv s'"
proof -
  have raw: "q_pc s = Q_Start \<Longrightarrow> q_raw s = None" using inv by (simp add: tq_inv_def shape_ok_def)
  show ?thesis
  proof (cases "q_pc s")
    case Q_Start
    then have "s' = s\<lparr>q_active := True, q_raw := q_raw s, q_pc := Q_Test\<rparr>"
      using step raw by (simp add: queue_cycle_step_def)
    then have "s' = s\<lparr>q_active := True, q_pc := Q_Test\<rparr>" by (cases s) simp
    then show ?thesis
      using pc_move_inv [of "s\<lparr>q_active := True\<rparr>" Q_Test] inv Q_Start by (simp add: active_inv)
  next
    case Q_Test
    then have "s' = s\<lparr>q_pc := if q_running s then Q_Load else Q_End\<rparr>"
      using step by (simp add: queue_cycle_step_def)
    then show ?thesis
      using pc_move_inv [OF inv, of Q_Load] pc_move_inv [OF inv, of Q_End] Q_Test
      by (simp split: if_splits)
  next
    case Q_Load
    then have "s' = s\<lparr>q_pc := if queue_get_load s = 0 then Q_Enter else Q_Check\<rparr>"
      using step by (simp add: queue_cycle_step_def)
    then show ?thesis
      using pc_move_inv [OF inv, of Q_Enter] pc_move_inv [OF inv, of Q_Check] Q_Load
      by (simp split: if_splits)
  next
    case Q_Enter
    then have "s' = s\<lparr>q_pc := Q_Blocked\<rparr>"
      using step by (simp add: queue_cycle_step_def)
    then show ?thesis using pc_move_inv [OF inv, of Q_Blocked] Q_Enter by simp
  next
    case Q_Check
    then have "s' = s\<lparr>q_pc := if \<not> q_running s then Q_End else if q_raw s = None then Q_Take else Q_Scan 0\<rparr>"
      using step by (simp add: queue_cycle_step_def)
    then show ?thesis
      using pc_move_inv [OF inv, of Q_End] pc_move_inv [OF inv, of Q_Take]
        pc_move_inv [OF inv, of "Q_Scan 0"] Q_Check
      by (auto split: if_splits)
  next
    case Q_Take
    then show ?thesis using take_inv [OF inv _ step] by blast
  next
    case (Q_Scan i)
    then show ?thesis using scan_inv [OF inv _ step] by blast
  next
    case (Q_Assign i)
    then show ?thesis using assign_inv [OF inv _ step] by blast
  next
    case (Q_Notify i)
    then show ?thesis using notify_inv [OF inv _ step] by blast
  qed (use step in \<open>simp_all add: queue_cycle_step_def\<close>)
qed

text \<open>The thread that starts and stops the queue. A move that changes only its own counter and
  flags:\<close>

lemma main_frame:
  fixes s s' :: "'t tqueue"
  assumes inv: "tq_inv s" and pool: "p_workers (q_pool s') = p_workers (q_pool s)" "p_size (q_pool s') = p_size (q_pool s)"
    and s': "q_pump s' = q_pump s" "q_raw s' = q_raw s" "q_pc s' = q_pc s" "q_added s' = q_added s"
      "q_assigned s' = q_assigned s" "q_executed s' = q_executed s" "q_size s' = q_size s" "q_crash s' = q_crash s"
    and q: "before_waiter (q_main s') = before_waiter (q_main s)" "q_main s \<noteq> M_Idle" "q_main s' \<noteq> M_Idle"
      "\<And>k. q_main s' \<noteq> M_Spin k"
    and st: "stopping (q_main s) \<longrightarrow> stopping (q_main s')"
    and w: "\<And>i (w :: 't worker). i < length (p_workers (q_pool s)) \<Longrightarrow>
        w_inv (q_pc s) (q_main s) i w \<Longrightarrow> w_inv (q_pc s) (q_main s') i w"
  shows "tq_inv s'"
proof (rule tq_inv_frame [OF inv pool(1)])
  show "shape_ok s'" using inv q pool by (auto simp: tq_inv_def shape_ok_def s')
  show "w_inv (q_pc s') (q_main s') i w" if "i < length (p_workers (q_pool s))" "w_inv (q_pc s) (q_main s) i w"
    for i and w :: "'t worker"
    unfolding s' by (rule w [OF that])
qed (use inv pool st in \<open>auto simp: tq_inv_def hist_ok_def s'\<close>)

text \<open>A move that also changes worker \<open>i\<close>, which keeps its package:\<close>

lemma main_worker:
  fixes s :: "'t tqueue"
  assumes inv: "tq_inv s" and i: "i < length (p_workers (q_pool s))"
    and q: "before_waiter m = before_waiter (q_main s)" "q_main s \<noteq> M_Idle" "m \<noteq> M_Idle" "\<And>k. m = M_Spin k \<Longrightarrow> k = i"
    and st: "stopping m = stopping (q_main s)"
    and held: "held w' = held (p_workers (q_pool s) ! i)"
    and w': "w_inv (q_pc s) m i w'"
    and w: "\<And>k (w :: 't worker). k < length (p_workers (q_pool s)) \<Longrightarrow> k \<noteq> i \<Longrightarrow>
        w_inv (q_pc s) (q_main s) k w \<Longrightarrow> w_inv (q_pc s) m k w"
  shows "tq_inv (s\<lparr>q_pool := (q_pool s)\<lparr>p_workers := (p_workers (q_pool s))[i := w']\<rparr>, q_main := m\<rparr>)"
    (is "tq_inv ?s")
proof -
  have "held_all ?s = held_all s"
    using held_update [OF i, of w'] held by (simp add: held_all_def)
  then have "hist_ok ?s" using inv st by (simp add: tq_inv_def hist_ok_def)
  moreover have "shape_ok ?s" using inv q i by (auto simp: tq_inv_def shape_ok_def)
  moreover have "w_inv (q_pc s) m k (p_workers (q_pool ?s) ! k)" if "k < length (p_workers (q_pool s))" for k
  proof (cases "k = i")
    case False
    then show ?thesis using w [OF that False w_inv_at [OF inv that]] by simp
  qed (use w' i in simp)
  ultimately show ?thesis by (simp add: tq_inv_def)
qed

lemma idle_inv:
  fixes s s' :: "'t tqueue"
  assumes inv: "tq_inv s" and m: "q_main s = M_Idle" and step: "queue_main_step s = Some s'"
  shows "tq_inv s'"
proof -
  have ws: "p_workers (q_pool s) = []" and q: "q_pc s = Q_None" and size: "q_size s = p_size (q_pool s)"
    using inv m by (auto simp: tq_inv_def shape_ok_def before_waiter_def)
  have s': "s' = s\<lparr>q_active := False, q_pool := (q_pool s)
      \<lparr>p_workers := replicate (nat (p_size (q_pool s))) worker_make\<rparr>, q_main := M_Start 0\<rparr>"
    using step m ws by (simp add: queue_main_step_def pool_init_def)
  have fresh: "w_inv Q_None (M_Start 0) i (worker_make :: 't worker)" for i
    by (simp add: w_inv_def w_link_def worker_ok_def worker_make_def inited_def)
  have "sum_list (map held (replicate n (worker_make :: 't worker))) = {#}" for n
    by (induction n) (simp_all add: held_def worker_make_def)
  then have "held_all s' = held_all s" by (simp add: held_all_def s' ws)
  then have "hist_ok s'" using inv m by (simp add: tq_inv_def hist_ok_def s')
  moreover have "shape_ok s'"
    using inv m q size by (auto simp: tq_inv_def shape_ok_def s' before_waiter_def)
  ultimately show ?thesis using fresh q unfolding tq_inv_def s' by simp
qed

lemma start_worker_inv:
  assumes inv: "tq_inv s" and m: "q_main s = M_Start i" and step: "queue_main_step s = Some s'"
  shows "tq_inv s'"
proof (cases "i < length (p_workers (q_pool s))")
  case True
  let ?w = "p_workers (q_pool s) ! i"
  have wi: "worker_ok ?w" "w_link (q_pc s) (M_Start i) i ?w"
    using w_inv_at [OF inv True] m by (simp_all add: w_inv_def)
  have q: "q_pc s = Q_None" using inv m by (auto simp: tq_inv_def shape_ok_def before_waiter_def)
  have s': "s' = s\<lparr>q_pool := (q_pool s)\<lparr>p_workers := (p_workers (q_pool s))[i := worker_start ?w]\<rparr>,
      q_main := M_Spin i\<rparr>"
    using step m True by (simp add: queue_main_step_def map_worker_def pool_map_thread_def)
  have fresh: "w_pc ?w = W_None" "\<not> w_active ?w" using wi(2) by (auto simp: w_link_def)
  show ?thesis unfolding s'
  proof (rule main_worker [OF inv True])
    show "w_inv (q_pc s) (M_Spin i) i (worker_start ?w)"
      using wi fresh q by (simp add: w_inv_def worker_ok_def w_link_def worker_start_def inited_def)
    show "held (worker_start ?w) = held ?w"
      using wi fresh by (simp add: worker_start_def held_def worker_ok_def inited_def)
    show "w_inv (q_pc s) (M_Spin i) k w" if "k \<noteq> i" "w_inv (q_pc s) (q_main s) k w" for k w
      using w_inv_main [OF that(2), of "M_Spin i"] that m q by (auto simp: w_inv_def w_link_def)
  qed (simp_all add: m before_waiter_def)
next
  case False
  then have s': "s' = s\<lparr>q_pool := (q_pool s)\<lparr>p_running := True\<rparr>, q_main := M_Waiter\<rparr>"
    using step m by (simp add: queue_main_step_def)
  show ?thesis
  proof (rule main_frame [OF inv])
    show "w_inv (q_pc s) (q_main s') k w" if "k < length (p_workers (q_pool s))" "w_inv (q_pc s) (q_main s) k w" for k w
      using w_inv_main [OF that(2), of M_Waiter] that m False by (auto simp: w_inv_def w_link_def s')
  qed (simp_all add: m before_waiter_def s')
qed

lemma stop_worker_inv:
  assumes inv: "tq_inv s" and m: "q_main s = M_Stop i" and step: "queue_main_step s = Some s'"
  shows "tq_inv s'"
proof -
  consider (out) "length (p_workers (q_pool s)) \<le> i"
    | (inactive) "i < length (p_workers (q_pool s))" "\<not> w_active (p_workers (q_pool s) ! i)"
    | (active) "i < length (p_workers (q_pool s))" "w_active (p_workers (q_pool s) ! i)"
    by linarith
  then show ?thesis
  proof cases
    case active
    let ?w = "p_workers (q_pool s) ! i"
    have s': "s' = s\<lparr>q_pool := (q_pool s)\<lparr>p_workers := (p_workers (q_pool s))[i := ?w\<lparr>w_running := False\<rparr>]\<rparr>,
        q_main := M_Stop_Notify i\<rparr>"
      using step m active by (simp add: queue_main_step_def pool_get_thread_def map_worker_def pool_map_thread_def)
    have wi: "worker_ok ?w" "w_link (q_pc s) (M_Stop i) i ?w"
      using w_inv_at [OF inv active(1)] m by (simp_all add: w_inv_def)
    show ?thesis unfolding s'
    proof (rule main_worker [OF inv active(1)])
      show "w_inv (q_pc s) (M_Stop_Notify i) i (?w\<lparr>w_running := False\<rparr>)"
        using wi by (simp add: w_inv_def worker_ok_def w_link_def has_task_def inited_def)
      show "w_inv (q_pc s) (M_Stop_Notify i) k w" if "k \<noteq> i" "w_inv (q_pc s) (q_main s) k w" for k w
        using w_inv_main [OF that(2), of "M_Stop_Notify i"] that m by (simp add: w_inv_def w_link_def)
    qed (simp_all add: m before_waiter_def held_def)
  next
    case out
    show ?thesis
    proof (rule main_frame [OF inv])
      show "w_inv (q_pc s) (q_main s') k w" if "w_inv (q_pc s) (q_main s) k w" for k w
        using w_inv_main [OF that, of M_Stop_Queue] that m step out
        by (auto simp: w_inv_def w_link_def queue_main_step_def pool_get_thread_def)
    qed (use step m out in \<open>auto simp: queue_main_step_def pool_get_thread_def before_waiter_def\<close>)
  next
    case inactive
    show ?thesis
    proof (rule main_frame [OF inv])
      show "w_inv (q_pc s) (q_main s') k w" if "w_inv (q_pc s) (q_main s) k w" for k w
        using w_inv_main [OF that, of "M_Stop (i + 1)"] that m step inactive
        by (auto simp: w_inv_def w_link_def queue_main_step_def pool_get_thread_def)
    qed (use step m inactive in \<open>auto simp: queue_main_step_def pool_get_thread_def before_waiter_def\<close>)
  qed
qed

lemma stop_notify_inv:
  assumes inv: "tq_inv s" and m: "q_main s = M_Stop_Notify i" and step: "queue_main_step s = Some s'"
  shows "tq_inv s'"
proof (cases "i < length (p_workers (q_pool s))")
  case True
  let ?w = "p_workers (q_pool s) ! i"
  have s': "s' = s\<lparr>q_pool := (q_pool s)\<lparr>p_workers := (p_workers (q_pool s))[i := worker_notify ?w]\<rparr>,
      q_main := M_Join i\<rparr>"
    using step m True by (simp add: queue_main_step_def map_worker_def pool_map_thread_def)
  have wi: "worker_ok ?w" "w_link (q_pc s) (M_Stop_Notify i) i ?w"
    using w_inv_at [OF inv True] m by (simp_all add: w_inv_def)
  then have off: "\<not> w_running ?w" by (simp add: w_link_def)
  show ?thesis unfolding s'
  proof (rule main_worker [OF inv True])
    show "w_inv (q_pc s) (M_Join i) i (worker_notify ?w)"
      using wi off by (cases "w_pc ?w = W_Blocked")
        (simp_all add: w_inv_def worker_ok_def w_link_def has_task_def inited_def worker_notify_def)
    show "held (worker_notify ?w) = held ?w" by (auto simp: worker_notify_def held_def)
    show "w_inv (q_pc s) (M_Join i) k w" if "k \<noteq> i" "w_inv (q_pc s) (q_main s) k w" for k w
      using w_inv_main [OF that(2), of "M_Join i"] that m by (simp add: w_inv_def w_link_def)
  qed (simp_all add: m before_waiter_def)
next
  case False
  then have s': "s' = s\<lparr>q_pool := q_pool s, q_main := M_Join i\<rparr>"
    using step m by (simp add: queue_main_step_def map_worker_def pool_map_thread_def)
  show ?thesis
  proof (rule main_frame [OF inv])
    show "w_inv (q_pc s) (q_main s') k w" if "w_inv (q_pc s) (q_main s) k w" for k w
      using w_inv_main [OF that, of "M_Join i"] that m by (simp add: w_inv_def w_link_def s')
  qed (simp_all add: s' m before_waiter_def)
qed

lemma join_inv:
  assumes inv: "tq_inv s" and m: "q_main s = M_Join i" and step: "queue_main_step s = Some s'"
  shows "tq_inv s'"
proof -
  have i: "i < length (p_workers (q_pool s))"
    using step m by (auto simp: queue_main_step_def pool_get_thread_def arr_get_def split: if_splits)
  let ?w = "p_workers (q_pool s) ! i"
  have s': "s' = s\<lparr>q_pool := (q_pool s)\<lparr>p_workers := (p_workers (q_pool s))[i := ?w\<lparr>w_active := False\<rparr>]\<rparr>,
      q_main := M_Stop (i + 1)\<rparr>"
    using step m i by (auto simp: queue_main_step_def pool_get_thread_def map_worker_def pool_map_thread_def
        split: if_splits)
  have wi: "worker_ok ?w" "w_link (q_pc s) (M_Join i) i ?w"
    using w_inv_at [OF inv i] m by (simp_all add: w_inv_def)
  show ?thesis unfolding s'
  proof (rule main_worker [OF inv i])
    show "w_inv (q_pc s) (M_Stop (i + 1)) i (?w\<lparr>w_active := False\<rparr>)"
      using wi by (simp add: w_inv_def worker_ok_def w_link_def has_task_def inited_def)
    show "w_inv (q_pc s) (M_Stop (i + 1)) k w" if "k \<noteq> i" "w_inv (q_pc s) (q_main s) k w" for k w
      using w_inv_main [OF that(2), of "M_Stop (i + 1)"] that m by (simp add: w_inv_def w_link_def)
  qed (simp_all add: m before_waiter_def held_def)
qed

text \<open>The waiter thread is created.\<close>

lemma waiter_start_inv:
  assumes inv: "tq_inv s" and m: "q_main s = M_Waiter" and step: "queue_main_step s = Some s'"
  shows "tq_inv s'"
proof -
  have s': "s' = s\<lparr>q_pc := Q_Start, q_main := M_Running\<rparr>" using step m by (simp add: queue_main_step_def)
  have q: "q_pc s = Q_None" "q_raw s = None" using inv m by (auto simp: tq_inv_def shape_ok_def before_waiter_def)
  show ?thesis
  proof (rule tq_inv_frame [OF inv])
    show "w_inv (q_pc s') (q_main s') k w" if "w_inv (q_pc s) (q_main s) k w" for k w
      using that m q by (simp add: s' w_inv_def w_link_def)
    show "shape_ok s'" using inv m q by (auto simp: tq_inv_def shape_ok_def s' before_waiter_def)
  qed (use inv m in \<open>simp_all add: s' tq_inv_def hist_ok_def\<close>)
qed

text \<open>The other moves of the thread change flags only.\<close>

lemma plain_main_inv:
  fixes s s' :: "'t tqueue"
  assumes inv: "tq_inv s" and step: "queue_main_step s = Some s'"
    and m: "q_main s = M_Spin i \<and> q_main s' = M_Start (i + 1) \<and> w_running (p_workers (q_pool s) ! i)
        \<and> i < length (p_workers (q_pool s))
      \<or> q_main s = M_Running \<and> q_main s' = M_Started
      \<or> q_main s = M_Started \<and> (q_main s' = M_Stop 0 \<or> q_main s' = M_Stop_Queue)
      \<or> q_main s = M_Stop_Queue \<and> q_main s' = M_Notify_Queue
      \<or> q_main s = M_Join_Queue \<and> q_main s' = M_Stopped"
    and same: "q_pool s' = q_pool s" "q_pump s' = q_pump s" "q_raw s' = q_raw s" "q_pc s' = q_pc s"
      "q_added s' = q_added s" "q_assigned s' = q_assigned s" "q_executed s' = q_executed s"
      "q_size s' = q_size s" "q_crash s' = q_crash s"
  shows "tq_inv s'"
proof -
  have "w_inv (q_pc s) (q_main s') k (p_workers (q_pool s) ! k)" if k: "k < length (p_workers (q_pool s))" for k
  proof -
    have wk: "w_inv (q_pc s) (q_main s) k (p_workers (q_pool s) ! k)" by (rule w_inv_at [OF inv k])
    have run: "w_running (p_workers (q_pool s) ! k) \<Longrightarrow> inited (p_workers (q_pool s) ! k)"
      and init: "must_init (q_main s) k \<Longrightarrow> inited (p_workers (q_pool s) ! k)"
      using wk unfolding w_inv_def worker_ok_def w_link_def by blast+
    show ?thesis
    proof (rule w_inv_main [OF wk])
      show "stopping (q_main s) \<longrightarrow> stopping (q_main s')" using m by (elim disjE) simp_all
      show "must_fresh (q_main s') k \<longrightarrow> must_fresh (q_main s) k" using m by (elim disjE conjE) auto
      show "q_main s' \<noteq> M_Stop_Notify k" using m by (elim disjE conjE) simp_all
      show "must_init (q_main s') k \<longrightarrow> inited (p_workers (q_pool s) ! k)"
        using m run init by (elim disjE conjE; cases "k = i") simp_all
    qed
  qed
  moreover have "shape_ok s'"
  proof -
    have "before_waiter (q_main s') = before_waiter (q_main s)" "q_main s \<noteq> M_Idle" "q_main s' \<noteq> M_Idle"
      "\<And>k. q_main s' \<noteq> M_Spin k"
      using m by (elim disjE conjE; simp add: before_waiter_def)+
    then show ?thesis using inv by (auto simp: tq_inv_def shape_ok_def same)
  qed
  moreover have "hist_ok s'"
  proof -
    have "stopping (q_main s) \<longrightarrow> stopping (q_main s')" using m by (elim disjE) simp_all
    then show ?thesis using inv by (auto simp: tq_inv_def hist_ok_def same held_all_def)
  qed
  ultimately show ?thesis by (simp add: tq_inv_def same)
qed

lemma main_move_inv:
  assumes inv: "tq_inv s" and step: "queue_main_step s = Some s'"
  shows "tq_inv s'"
proof (cases "q_main s")
  case M_Idle
  then show ?thesis using idle_inv inv step by blast
next
  case (M_Start i)
  then show ?thesis using start_worker_inv inv step by blast
next
  case M_Waiter
  then show ?thesis using waiter_start_inv inv step by blast
next
  case (M_Stop i)
  then show ?thesis using stop_worker_inv inv step by blast
next
  case (M_Stop_Notify i)
  then show ?thesis using stop_notify_inv inv step by blast
next
  case (M_Join i)
  then show ?thesis using join_inv inv step by blast
next
  case M_Notify_Queue
  then have s': "s' = notify_cycle s\<lparr>q_main := M_Join_Queue\<rparr>" using step by (simp add: queue_main_step_def)
  have "tq_inv (notify_cycle s)" by (rule notify_cycle_inv [OF inv])
  moreover have "q_main (notify_cycle s) = M_Notify_Queue" using M_Notify_Queue by (simp add: notify_cycle_def)
  ultimately show ?thesis unfolding s'
    by (rule_tac main_frame [of "notify_cycle s"]) (auto simp: before_waiter_def w_inv_def w_link_def)
next
  case (M_Spin i)
  then show ?thesis
    by (intro plain_main_inv [OF inv step, of i])
       (use step in \<open>auto simp: queue_main_step_def pool_get_thread_def arr_get_def worker_is_running_def split: if_splits\<close>)
next
  case M_Running
  then show ?thesis
    by (intro plain_main_inv [OF inv step]) (use step in \<open>auto simp: queue_main_step_def\<close>)
next
  case M_Started
  then show ?thesis
    by (intro plain_main_inv [OF inv step]) (use step in \<open>auto simp: queue_main_step_def split: if_splits\<close>)
next
  case M_Stop_Queue
  then show ?thesis
    by (intro plain_main_inv [OF inv step]) (use step in \<open>auto simp: queue_main_step_def\<close>)
next
  case M_Join_Queue
  then show ?thesis
    by (intro plain_main_inv [OF inv step])
       (use step in \<open>auto simp: queue_main_step_def split: if_splits\<close>)
qed (use step in \<open>simp add: queue_main_step_def\<close>)

definition no_spurious :: "'t tq_move list \<Rightarrow> bool" where
  "no_spurious ms \<longleftrightarrow> list_all (\<lambda>m. (\<forall>i. m \<noteq> Spurious_Worker i) \<and> m \<noteq> Spurious_Waiter) ms"

lemma move_inv:
  assumes "tq_inv s" and "tq_step m s = Some s'" and "no_spurious [m]"
  shows "tq_inv s'"
proof (cases m)
  case (Add_Package t)
  then show ?thesis using assms add_move_inv by (auto simp: tq_step_def)
next
  case Add_Notify
  then show ?thesis using assms add_notify_inv by (auto simp: tq_step_def)
next
  case (Worker i)
  then show ?thesis using assms worker_move_inv by blast
next
  case (Waiter fails)
  then show ?thesis using assms waiter_move_inv by (auto simp: tq_step_def)
next
  case Main
  then show ?thesis using assms main_move_inv by (auto simp: tq_step_def)
qed (use assms in \<open>simp_all add: no_spurious_def\<close>)

lemma run_inv: "tq_run ms s = Some s' \<Longrightarrow> tq_inv s \<Longrightarrow> no_spurious ms \<Longrightarrow> tq_inv s'"
proof (induction ms arbitrary: s)
  case (Cons m ms)
  then obtain s1 where "tq_step m s = Some s1" "tq_run ms s1 = Some s'" by (auto split: option.splits)
  moreover have "no_spurious [m]" "no_spurious ms" using Cons.prems by (simp_all add: no_spurious_def)
  ultimately show ?case using Cons.IH move_inv Cons.prems(2) by blast
qed simp

lemma make_inv: "tq_inv (queue_make n)"
  by (simp add: tq_inv_def shape_ok_def hist_ok_def queue_make_def pool_make_def pump_make_def pump_ok_def
      before_waiter_def held_all_def)

section \<open>Properties\<close>

text \<open>C4. As long as no wake-up is spurious, the queue never runs a null package or indexes a missing
  worker, packages are handed to the workers in the order they were added, every package is
  run at most once, and until the queue is stopped a package that was handed over is
  either run or waiting in its worker.\<close>

theorem task_queue_runs_once:
  assumes "tq_run ms (queue_make n) = Some s" and "no_spurious ms"
  shows "\<not> q_crash s
    \<and> q_assigned s @ opt_list (q_raw s) @ pu_queue (q_pump s) = q_added s
    \<and> mset (q_executed s) \<subseteq># mset (q_assigned s)
    \<and> (\<not> stopping (q_main s) \<longrightarrow> mset (q_executed s) + held_all s = mset (q_assigned s))"
proof -
  have "tq_inv s" by (rule run_inv [OF assms(1) make_inv assms(2)])
  then show ?thesis
    by (auto simp: tq_inv_def shape_ok_def hist_ok_def intro: subset_mset.trans mset_subset_eq_add_left)
qed

text \<open>A queue of one worker that has been started and whose waiter found the pump empty.\<close>

definition demo_start :: "'t tq_move list" where
  "demo_start = [Main, Main, Worker 0, Worker 0, Main, Main, Worker 0, Worker 0, Main, Main,
     Waiter False, Waiter False, Waiter False]"

text \<open>From there a package goes through.\<close>

definition demo_package :: "'t \<Rightarrow> 't tq_move list" where
  "demo_package t = [Waiter False, Add_Package t, Add_Notify, Waiter False, Waiter False, Waiter False,
     Waiter False, Waiter False, Worker 0, Worker 0, Worker 0, Worker 0, Worker 0, Worker 0, Worker 0]"

lemmas tq_eval = tq_step_def queue_main_step_def queue_cycle_step_def queue_add_notify_def
  queue_add_package_def notify_cycle_def map_worker_def pool_map_thread_def pool_get_thread_def
  worker_step_def worker_is_waiting_def worker_assign_package_def worker_notify_def worker_start_def
  worker_is_running_def queue_get_load_def pump_get_load_def pump_add_package_def
  pump_next_package_def pool_init_def pool_make_def pump_make_def queue_make_def worker_make_def
  arr_get_def

lemma demo_started:
  "\<exists>s. tq_run demo_start (queue_make 1) = Some s \<and> q_pc s = Q_Enter \<and> q_main s = M_Started \<and> q_running s
    \<and> q_notifs s = 0 \<and> q_pump s = pump_make \<and> q_raw s = None \<and> q_size s = 1 \<and> \<not> q_crash s
    \<and> q_executed s = [] \<and> q_assigned s = [] \<and> q_added s = []
    \<and> p_workers (q_pool s) = [\<lparr>w_running = True, w_loaded = False, w_active = True, w_current = None,
         w_owner = By_No_One, w_pc = W_Blocked\<rparr>]"
  by (simp add: demo_start_def tq_eval)

theorem task_queue_runs_once_witness:
  "\<exists>s. tq_run (demo_start @ demo_package ''t'') (queue_make 1) = Some s \<and> q_executed s = [''t'']
    \<and> mset (q_executed s) \<subseteq># mset (q_assigned s)"
proof -
  obtain s where s: "tq_run (demo_start @ demo_package ''t'') (queue_make 1) = Some s"
      and ex: "q_executed s = [''t'']"
    by (simp add: demo_start_def demo_package_def tq_eval)
  have "no_spurious (demo_start @ demo_package ''t'')"
    by (simp add: no_spurious_def demo_start_def demo_package_def)
  from task_queue_runs_once [OF s this] s ex show ?thesis by blast
qed

text \<open>A waiter that has ended hands nothing out any more.\<close>

definition packages_of :: "'t tq_move list \<Rightarrow> 't list" where
  "packages_of ms = concat (map (\<lambda>m. case m of Add_Package t \<Rightarrow> [t] | _ \<Rightarrow> []) ms)"

lemma ended_move:
  assumes "q_pc s = Q_End" and "m \<noteq> Main" and "tq_step m s = Some s'"
  shows "q_pc s' = Q_End \<and> q_running s' = q_running s \<and> q_assigned s' = q_assigned s
    \<and> pu_queue (q_pump s') = pu_queue (q_pump s) @ packages_of [m]"
  using assms
  by (cases m)
     (auto simp: tq_step_def queue_add_notify_def notify_cycle_def queue_cycle_step_def queue_add_package_def
       pump_add_package_def packages_of_def map_worker_def Let_def split: sum.splits option.splits if_splits)

lemma ended_run:
  "q_pc s = Q_End \<Longrightarrow> Main \<notin> set ms \<Longrightarrow> tq_run ms s = Some s' \<Longrightarrow>
     q_pc s' = Q_End \<and> q_running s' = q_running s \<and> q_assigned s' = q_assigned s
     \<and> pu_queue (q_pump s') = pu_queue (q_pump s) @ packages_of ms"
proof (induction ms arbitrary: s)
  case (Cons m ms)
  then obtain s1 where s1: "tq_step m s = Some s1" "tq_run ms s1 = Some s'" by (auto split: option.splits)
  have "packages_of (m # ms) = packages_of [m] @ packages_of ms" by (simp add: packages_of_def)
  then show ?case using ended_move [OF Cons.prems(1) _ s1(1)] Cons.IH [OF _ _ s1(2)] Cons.prems(2) by auto
qed (simp add: packages_of_def)

lemma blocked_workers_stay:
  assumes "\<forall>w \<in> set (p_workers (q_pool s)). w_pc w = W_Blocked"
  shows "tq_step (Worker i) s = None"
proof (cases "i < length (p_workers (q_pool s))")
  case True
  then have "w_pc (p_workers (q_pool s) ! i) = W_Blocked" using assms by simp
  then show ?thesis using True by (simp add: tq_step_def pool_get_thread_def arr_get_def worker_step_def)
next
  case False
  then show ?thesis by (simp add: tq_step_def pool_get_thread_def arr_get_def)
qed

text \<open>C25. The waits of the queue test no predicate under the mutex, and \<open>start\<close> sets \<open>m_running\<close> after it has created the
  waiter thread. (1) From any state in which the waiter has seen an empty pump and is about to wait and all
  workers wait for work: a package that is added now, with its notification, stays in the pump; no thread can move until something else
  happens, another package, \<open>stop\<close> or a spurious wake-up. (2) From any state in which \<open>start\<close> has created the waiter and
  has not set \<open>m_running\<close>: when the waiter runs first, it ends, the queue reports that it runs, and until it is
  stopped every package that is added stays in the pump and none is handed to a worker.\<close>

theorem queue_lost_wakeup:
  fixes s :: "'t tqueue"
  shows "(q_pc s = Q_Enter \<and> q_notifs s = 0 \<and> (\<forall>w \<in> set (p_workers (q_pool s)). w_pc w = W_Blocked) \<longrightarrow>
      (\<exists>s1. tq_run [Add_Package t, Add_Notify, Waiter fails] s = Some s1
         \<and> pu_queue (q_pump s1) = pu_queue (q_pump s) @ [t] \<and> q_running s1 = q_running s \<and> q_main s1 = q_main s
         \<and> (\<forall>m. tq_step m s1 \<noteq> None \<longrightarrow> (\<exists>t'. m = Add_Package t') \<or> m = Main
              \<or> m = Spurious_Waiter \<or> (\<exists>i. m = Spurious_Worker i))))
    \<and> (q_pc s = Q_Start \<and> q_main s = M_Running \<and> \<not> q_running s \<longrightarrow>
      (\<exists>s1. tq_run [Waiter f1, Waiter f2, Main] s = Some s1 \<and> queue_is_running s1 \<and> q_main s1 = M_Started
         \<and> (\<forall>ms s2. Main \<notin> set ms \<and> tq_run ms s1 = Some s2 \<longrightarrow> queue_is_running s2 \<and> q_assigned s2 = q_assigned s
              \<and> pu_queue (q_pump s2) = pu_queue (q_pump s) @ packages_of ms)))"
proof (intro conjI impI)
  assume a: "q_pc s = Q_Enter \<and> q_notifs s = 0 \<and> (\<forall>w \<in> set (p_workers (q_pool s)). w_pc w = W_Blocked)"
  define s1 where "s1 = (queue_add_package t s)\<lparr>q_notifs := 0, q_pc := Q_Blocked\<rparr>"
  have run: "tq_run [Add_Package t, Add_Notify, Waiter fails] s = Some s1"
    using a by (simp add: tq_step_def queue_add_notify_def notify_cycle_def queue_cycle_step_def queue_add_package_def s1_def)
  have "tq_step (Worker i) s1 = None" for i
    using a by (intro blocked_workers_stay) (simp add: s1_def queue_add_package_def)
  then have "\<forall>m. tq_step m s1 \<noteq> None \<longrightarrow> (\<exists>t'. m = Add_Package t') \<or> m = Main \<or> m = Spurious_Waiter \<or> (\<exists>i. m = Spurious_Worker i)"
    by (intro allI, rename_tac m, case_tac m)
       (auto simp: tq_step_def queue_add_notify_def queue_cycle_step_def s1_def)
  moreover have "pu_queue (q_pump s1) = pu_queue (q_pump s) @ [t] \<and> q_running s1 = q_running s \<and> q_main s1 = q_main s"
    by (simp add: s1_def queue_add_package_def pump_add_package_def)
  ultimately show "\<exists>s1. tq_run [Add_Package t, Add_Notify, Waiter fails] s = Some s1
      \<and> pu_queue (q_pump s1) = pu_queue (q_pump s) @ [t] \<and> q_running s1 = q_running s \<and> q_main s1 = q_main s
      \<and> (\<forall>m. tq_step m s1 \<noteq> None \<longrightarrow> (\<exists>t'. m = Add_Package t') \<or> m = Main \<or> m = Spurious_Waiter \<or> (\<exists>i. m = Spurious_Worker i))"
    using run by blast
next
  assume b: "q_pc s = Q_Start \<and> q_main s = M_Running \<and> \<not> q_running s"
  define s1 where "s1 = s\<lparr>q_active := True, q_raw := None, q_pc := Q_End, q_running := True, q_main := M_Started\<rparr>"
  have run: "tq_run [Waiter f1, Waiter f2, Main] s = Some s1"
    using b by (simp add: tq_step_def queue_cycle_step_def queue_main_step_def s1_def)
  have same: "q_pc s1 = Q_End" "queue_is_running s1" "q_main s1 = M_Started" "q_assigned s1 = q_assigned s" "q_pump s1 = q_pump s"
    by (simp_all add: s1_def queue_is_running_def)
  have "queue_is_running s2 \<and> q_assigned s2 = q_assigned s \<and> pu_queue (q_pump s2) = pu_queue (q_pump s) @ packages_of ms"
    if "Main \<notin> set ms" "tq_run ms s1 = Some s2" for ms s2
    using ended_run [OF same(1) that] same by (simp add: queue_is_running_def)
  then show "\<exists>s1. tq_run [Waiter f1, Waiter f2, Main] s = Some s1 \<and> queue_is_running s1 \<and> q_main s1 = M_Started
      \<and> (\<forall>ms s2. Main \<notin> set ms \<and> tq_run ms s1 = Some s2 \<longrightarrow> queue_is_running s2 \<and> q_assigned s2 = q_assigned s
           \<and> pu_queue (q_pump s2) = pu_queue (q_pump s) @ packages_of ms)"
    using run same(2,3) by blast
qed

text \<open>Both states are reached by \<open>start\<close>.\<close>

theorem queue_lost_wakeup_witness:
  "(\<exists>s s1. tq_run demo_start (queue_make 1) = Some s
     \<and> tq_run [Add_Package ''t'', Add_Notify, Waiter False] s = Some s1 \<and> q_running s1 \<and> pu_queue (q_pump s1) = [''t'']
     \<and> (\<forall>fails. tq_step (Waiter fails) s1 = None) \<and> (\<forall>i. tq_step (Worker i) s1 = None))
   \<and> (\<exists>s s1. tq_run [Main, Main, Worker 0, Worker 0, Main, Main, Main] (queue_make 1 :: string tqueue) = Some s
     \<and> tq_run [Waiter False, Waiter False, Main] s = Some s1 \<and> queue_is_running s1
     \<and> (\<forall>t s2. tq_run [Add_Package t, Add_Notify] s1 = Some s2 \<longrightarrow> pu_queue (q_pump s2) = [t]))"
proof
  obtain s :: "string tqueue" where s: "tq_run demo_start (queue_make 1) = Some s" "q_pc s = Q_Enter" "q_notifs s = 0"
    "\<forall>w \<in> set (p_workers (q_pool s)). w_pc w = W_Blocked" "q_running s" "pu_queue (q_pump s) = []"
    by (simp add: demo_start_def tq_eval)
  obtain s1 where s1: "tq_run [Add_Package ''t'', Add_Notify, Waiter False] s = Some s1" "q_running s1"
    "pu_queue (q_pump s1) = [''t'']" and m: "\<forall>m. tq_step m s1 \<noteq> None \<longrightarrow> (\<exists>t'. m = Add_Package t') \<or> m = Main
              \<or> m = Spurious_Waiter \<or> (\<exists>i. m = Spurious_Worker i)"
    using conjunct1 [OF queue_lost_wakeup [of s "''t''" False True True]] s by auto
  from m have "\<forall>fails. tq_step (Waiter fails) s1 = None" "\<forall>i. tq_step (Worker i) s1 = None" by blast+
  then show "\<exists>s s1. tq_run demo_start (queue_make 1) = Some s
     \<and> tq_run [Add_Package ''t'', Add_Notify, Waiter False] s = Some s1 \<and> q_running s1 \<and> pu_queue (q_pump s1) = [''t'']
     \<and> (\<forall>fails. tq_step (Waiter fails) s1 = None) \<and> (\<forall>i. tq_step (Worker i) s1 = None)"
    using s(1) s1 by blast
next
  let ?early = "[Main, Main, Worker 0, Worker 0, Main, Main, Main]"
  obtain s :: "string tqueue" where s: "tq_run ?early (queue_make 1) = Some s" "q_pc s = Q_Start" "q_main s = M_Running"
    "\<not> q_running s" "pu_queue (q_pump s) = []"
    by (simp add: tq_eval)
  obtain s1 where s1: "tq_run [Waiter False, Waiter False, Main] s = Some s1" "queue_is_running s1"
    and k: "\<forall>ms s2. Main \<notin> set ms \<and> tq_run ms s1 = Some s2 \<longrightarrow> pu_queue (q_pump s2) = pu_queue (q_pump s) @ packages_of ms"
    using conjunct2 [OF queue_lost_wakeup [of s "''t''" False False False]] s by blast
  have "pu_queue (q_pump s2) = [t]" if "tq_run [Add_Package t, Add_Notify] s1 = Some s2" for t s2
    using k [rule_format, of "[Add_Package t, Add_Notify]" s2] that s(5)
    by (simp add: packages_of_def del: tq_run.simps)
  then show "\<exists>s s1. tq_run ?early (queue_make 1 :: string tqueue) = Some s
     \<and> tq_run [Waiter False, Waiter False, Main] s = Some s1 \<and> queue_is_running s1
     \<and> (\<forall>t s2. tq_run [Add_Package t, Add_Notify] s1 = Some s2 \<longrightarrow> pu_queue (q_pump s2) = [t])"
    using s(1) s1 by blast
qed

text \<open>A worker does not check after its wait that a package was assigned and keeps the package it
  has run: a spurious wake-up makes it run the same package again, or, before the first
  one, a null package.\<close>

theorem worker_spurious_reruns:
  "(\<exists>s. tq_run (demo_start @ demo_package ''t'' @ [Spurious_Worker 0, Worker 0, Worker 0, Worker 0])
       (queue_make 1) = Some s
     \<and> q_added s = [''t''] \<and> q_executed s = [''t'', ''t''])
   \<and> (\<exists>s. tq_run (demo_start @ [Spurious_Worker 0, Worker 0, Worker 0, Worker 0]) (queue_make 1 :: string tqueue) = Some s
     \<and> q_crash s)"
  by (simp add: demo_start_def demo_package_def tq_eval)

text \<open>The pump gives packages out in the order they came in.\<close>

theorem pump_is_fifo:
  assumes "fifo_fits None 0 ops"
  shows "\<exists>outs p. fifo_run pump_put pump_take pump_make ops = Inr (outs, p)
    \<and> outs @ pu_queue p = fifo_puts ops \<and> length outs = fifo_takes ops
    \<and> pump_get_load p = int (length (pu_queue p))"
  using pump_fifo.run_in_order [of pump_make ops] assms
  by (auto simp: pump_make_def pump_ok_def pump_get_load_def)

theorem pump_is_fifo_witness:
  "\<exists>p. fifo_run pump_put pump_take pump_make [Put 1, Put (2 :: nat), Take, Put 3, Take] = Inr ([1, 2], p)
    \<and> pump_get_load p = int (length (pu_queue p))"
proof -
  have "fifo_fits None 0 [Put 1, Put (2 :: nat), Take, Put 3, Take]" by (simp add: fifo_room_def)
  from pump_is_fifo [OF this] show ?thesis
    by (auto simp: pump_put_def pump_take_def pump_add_package_def pump_next_package_def pump_make_def)
qed

end
