(* ===== verification/Midi.thy ===== *)
theory Midi
  imports Complex_Main SIO_Prelude
begin

text \<open>
  Midi devices and their handler: \<^verbatim>\<open>framework/midi/device.cpp\<close>, \<^verbatim>\<open>midi_handler.cpp\<close>,
  \<^verbatim>\<open>led_toggle_utility.cpp\<close>, and the conversion of velocities in \<^verbatim>\<open>routine/midi.cpp\<close>.

  The driver (ALSA) is a parameter: the functions that open a port give a handle or none.
  Callbacks are values of a type \<open>'f\<close>; what a device calls and what it writes are lists. The
  handler keeps pointers to the elements of its vector of devices; whether a later
  \<open>push_back\<close> moves the elements is up to the library, so \<open>add_device\<close> has it as an argument,
  and an access through a pointer that is no longer valid is an error.
\<close>

section \<open>Casts\<close>

text \<open>\<open>(int)\<close> and \<open>(uint8_t)\<close> of a \<open>double\<close>: rounding towards zero, undefined when the result does not
  fit.\<close>

definition trunc_rat :: "rat \<Rightarrow> int" where
  "trunc_rat q = (if 0 \<le> q then \<lfloor>q\<rfloor> else \<lceil>q\<rceil>)"

definition cast_int :: "rat \<Rightarrow> int result" where
  "cast_int q = (let i = trunc_rat q in
     if -2147483648 \<le> i \<and> i < 2147483648 then Inr i else Inl Bad_Cast)"

definition cast_byte :: "rat \<Rightarrow> 8 word result" where
  "cast_byte q = (let i = trunc_rat q in if 0 \<le> i \<and> i < 256 then Inr (word_of_int i) else Inl Bad_Cast)"

lemma trunc_of_int [simp]: "trunc_rat (of_int i) = i"
  by (simp add: trunc_rat_def)

lemma cast_int_of_int: "-2147483648 \<le> i \<Longrightarrow> i < 2147483648 \<Longrightarrow> cast_int (of_int i) = Inr i"
  by (simp add: cast_int_def)

lemma cast_byte_of_word: "cast_byte (rat_of_int (uint w)) = Inr (w :: 8 word)"
proof -
  have "0 \<le> uint w" "uint w < 256" using uint_lt2p [of w] by simp_all
  then show ?thesis by (simp only: cast_byte_def trunc_of_int Let_def) simp
qed

section \<open>Devices\<close>

record midi_msg =
  mm_f :: "8 word"
  mm_n :: "8 word"
  mm_v :: "8 word"

record ('f, 'h) device =
  dv_handle :: "'h option"
  dv_output :: "'h option"
  dv_port_name :: string
  dv_alias :: string
  dv_running :: bool
  dv_led_on :: "8 word"
  dv_led_off :: "8 word"
  dv_bindings :: "int \<Rightarrow> 'f option"

text \<open>\<open>m_running\<close> is not initialised by the constructor; the first write is the one of \<open>cycle\<close>.\<close>

definition device_make :: "string \<Rightarrow> string \<Rightarrow> ('f, 'h) device" where
  "device_make port alias = \<lparr>dv_handle = None, dv_output = None, dv_port_name = port, dv_alias = alias,
     dv_running = False, dv_led_on = 0, dv_led_off = 0, dv_bindings = (\<lambda>_. None)\<rparr>"

text \<open>The driver.\<close>

record 'h midi_driver =
  open_input_port :: "string \<Rightarrow> string \<Rightarrow> 'h option"
  open_output_port :: "string \<Rightarrow> string \<Rightarrow> 'h option"

definition device_init :: "'h midi_driver \<Rightarrow> ('f, 'h) device \<Rightarrow> bool \<times> ('f, 'h) device" where
  "device_init drv d =
     (case open_input_port drv (dv_alias d) (dv_port_name d) of
        None \<Rightarrow> (False, d)
      | Some hndl \<Rightarrow>
          let d1 = d\<lparr>dv_handle := Some hndl\<rparr> in
          (case open_output_port drv (dv_alias d) (dv_port_name d) of
             None \<Rightarrow> (True, d1)
           | Some out \<Rightarrow> (True, d1\<lparr>dv_output := Some out\<rparr>)))"

definition device_get_alias :: "('f, 'h) device \<Rightarrow> string" where
  "device_get_alias d = dv_alias d"

definition device_get_port :: "('f, 'h) device \<Rightarrow> string" where
  "device_get_port d = dv_port_name d"

definition device_running :: "('f, 'h) device \<Rightarrow> bool" where
  "device_running d = dv_running d"

text \<open>The driver over ALSA: \<open>snd_rawmidi_open\<close> gives a status and a handle (\<^verbatim>\<open>alsa_driver_utility.cpp\<close>).
  What \<open>snd_rawmidi_read\<close> gives is a status and what is then in the three bytes of the message
  (\<^verbatim>\<open>alsa_input.cpp\<close>).\<close>

record 'h alsa_port =
  ap_handle :: 'h
  ap_port_name :: string

definition alsa_open_input_port :: "(string \<Rightarrow> int \<times> 'h) \<Rightarrow> string \<Rightarrow> string \<Rightarrow> 'h alsa_port option" where
  "alsa_open_input_port snd_rawmidi_open dev name =
     (case snd_rawmidi_open name of (status, handle) \<Rightarrow>
        if status < 0 then None else Some \<lparr>ap_handle = handle, ap_port_name = name\<rparr>)"

definition alsa_open_output_port :: "(string \<Rightarrow> int \<times> 'h) \<Rightarrow> string \<Rightarrow> string \<Rightarrow> 'h alsa_port option" where
  "alsa_open_output_port snd_rawmidi_open dev name =
     (case snd_rawmidi_open name of (status, handle) \<Rightarrow>
        if status < 0 then None else Some \<lparr>ap_handle = handle, ap_port_name = name\<rparr>)"

definition alsa_flush :: "int \<times> midi_msg \<Rightarrow> midi_msg" where
  "alsa_flush reading =
     (case reading of (status, code) \<Rightarrow>
        if status < 0 then \<lparr>mm_f = 0, mm_n = 0, mm_v = 0\<rparr> else code)"

text \<open>What is asked of ALSA when a message is written, with the status of \<open>snd_rawmidi_write\<close>, and when
  a port is closed. The statuses are negated error numbers.\<close>

datatype 'h alsa_call = Snd_Drain 'h | Snd_Write 'h midi_msg | Snd_Close 'h | Print_Error string

definition alsa_write :: "int \<Rightarrow> 'h alsa_port \<Rightarrow> midi_msg \<Rightarrow> 'h alsa_call list" where
  "alsa_write status p chr =
     [Snd_Drain (ap_handle p), Snd_Write (ap_handle p) chr]
     @ (if status < 0
        then (if status = -11 \<or> status = -16 then [] else [Print_Error (ap_port_name p)])
        else [Snd_Drain (ap_handle p)])"

definition alsa_close_port :: "'h alsa_port \<Rightarrow> 'h alsa_call list" where
  "alsa_close_port p = [Snd_Close (ap_handle p)]"

definition alsa_handle :: "'h alsa_port \<Rightarrow> 'h" where
  "alsa_handle p = ap_handle p"

text \<open>\<open>std::map::insert\<close> keeps an entry that is there.\<close>

definition device_add_binding :: "rat \<Rightarrow> 'f \<Rightarrow> ('f, 'h) device \<Rightarrow> ('f, 'h) device result" where
  "device_add_binding code func d =
     bind_res (cast_int code) (\<lambda>c.
       Inr (case dv_bindings d c of
              None \<Rightarrow> d\<lparr>dv_bindings := (dv_bindings d)(c \<mapsto> func)\<rparr>
            | Some _ \<Rightarrow> d))"

definition device_get_bindings :: "('f, 'h) device \<Rightarrow> (int \<Rightarrow> 'f option)" where
  "device_get_bindings d = dv_bindings d"

definition device_write_msg :: "midi_msg \<Rightarrow> ('f, 'h) device \<Rightarrow> ('h \<times> midi_msg) list" where
  "device_write_msg m d = (case dv_output d of None \<Rightarrow> [] | Some out \<Rightarrow> [(out, m)])"

definition device_set_led_on :: "8 word \<Rightarrow> ('f, 'h) device \<Rightarrow> ('f, 'h) device" where
  "device_set_led_on val d = d\<lparr>dv_led_on := val\<rparr>"

definition device_set_led_off :: "8 word \<Rightarrow> ('f, 'h) device \<Rightarrow> ('f, 'h) device" where
  "device_set_led_off val d = d\<lparr>dv_led_off := val\<rparr>"

definition device_led_on :: "('f, 'h) device \<Rightarrow> 8 word" where
  "device_led_on d = dv_led_on d"

definition device_led_off :: "('f, 'h) device \<Rightarrow> 8 word" where
  "device_led_off d = dv_led_off d"

text \<open>The loop of \<open>cycle\<close>, on what happens outside: each flush of the handle gives a message, and by then
  \<open>m_running\<close> is still set or not. The result: the calls, whether the loop is over or blocked in the next
  flush, and \<open>m_running\<close>. The \<open>catch\<close> around \<open>at\<close> covers the call too: an \<open>out_of_range\<close> that a callback throws
  is dropped like the one for a code without binding, and the loop goes on, so the calls are the same. Any
  other exception of a callback would end the program; the callbacks are the units' and are taken not to throw one.\<close>

fun cycle_loop ::
    "(int \<Rightarrow> 'f option) \<Rightarrow> (midi_msg \<times> bool) list \<Rightarrow> ('f \<times> midi_msg) list \<times> bool \<times> bool" where
  "cycle_loop bindings [] = ([], False, True)"
| "cycle_loop bindings ((code, running) # rest) =
     (if \<not> running then ([], True, False)
      else if mm_f code = 0 then ([], True, True)
      else (case cycle_loop bindings rest of (calls, over) \<Rightarrow>
        ((case bindings (uint (mm_n code)) of None \<Rightarrow> [] | Some func \<Rightarrow> [(func, code)]) @ calls, over)))"

text \<open>\<open>m_handle\<close> is null in a device whose port did not open.\<close>

definition device_cycle ::
    "(midi_msg \<times> bool) list \<Rightarrow> ('f, 'h) device \<Rightarrow> (('f \<times> midi_msg) list \<times> bool \<times> ('f, 'h) device) result" where
  "device_cycle flushes d =
     (case dv_handle d of
        None \<Rightarrow> Inl Null_Deref
      | Some _ \<Rightarrow>
          (case cycle_loop (dv_bindings d) flushes of (calls, over, running) \<Rightarrow>
             Inr (calls, over, d\<lparr>dv_running := running\<rparr>)))"

definition device_stop :: "('f, 'h) device \<Rightarrow> ('f, 'h) device" where
  "device_stop d = d\<lparr>dv_running := False\<rparr>"

definition device_test_cycle :: "midi_msg \<Rightarrow> ('f, 'h) device \<Rightarrow> ('f \<times> midi_msg) list result" where
  "device_test_cycle code d =
     (case dv_handle d of
        None \<Rightarrow> Inl Null_Deref
      | Some _ \<Rightarrow>
          Inr (case dv_bindings d (uint (mm_n code)) of None \<Rightarrow> [] | Some func \<Rightarrow> [(func, code)]))"

section \<open>The handler\<close>

datatype led_mode = led_steady | led_blink | led_off

record led_state =
  ls_device :: string
  ls_mode :: led_mode
  ls_code :: int
  ls_value :: "8 word"

record ('f, 'h) midi_handler =
  mh_devices :: "('f, 'h) device list"
  mh_active_dev :: "nat list"
  mh_dangling :: bool
  mh_led_map :: "string \<Rightarrow> (int \<Rightarrow> led_state option) option"

definition midi_handler_make :: "('f, 'h) midi_handler" where
  "midi_handler_make =
     \<lparr>mh_devices = [], mh_active_dev = [], mh_dangling = False, mh_led_map = (\<lambda>_. None)\<rparr>"

definition midi_add_device :: "bool \<Rightarrow> string \<Rightarrow> string \<Rightarrow> ('f, 'h) midi_handler \<Rightarrow> ('f, 'h) midi_handler" where
  "midi_add_device moves port name h =
     h\<lparr>mh_devices := mh_devices h @ [device_make port name],
       mh_dangling := (mh_dangling h \<or> moves \<and> mh_active_dev h \<noteq> [])\<rparr>"

fun init_devices :: "'h midi_driver \<Rightarrow> nat \<Rightarrow> ('f, 'h) device list \<Rightarrow> ('f, 'h) device list \<times> nat list" where
  "init_devices drv i [] = ([], [])"
| "init_devices drv i (d # ds) =
     (case device_init drv d of (ok, d') \<Rightarrow>
      case init_devices drv (i + 1) ds of (ds', active) \<Rightarrow>
        (d' # ds', if ok then i # active else active))"

definition midi_init :: "'h midi_driver \<Rightarrow> ('f, 'h) midi_handler \<Rightarrow> ('f, 'h) midi_handler" where
  "midi_init drv h =
     (case init_devices drv 0 (mh_devices h) of (ds, active) \<Rightarrow>
        h\<lparr>mh_devices := ds, mh_active_dev := mh_active_dev h @ active\<rparr>)"

text \<open>The devices behind the pointers.\<close>

definition active_devices :: "('f, 'h) midi_handler \<Rightarrow> ('f, 'h) device list result" where
  "active_devices h =
     (if mh_dangling h \<and> mh_active_dev h \<noteq> [] then Inl Null_Deref
      else Inr (map ((!) (mh_devices h)) (mh_active_dev h)))"

definition midi_index :: "string \<Rightarrow> ('f, 'h) midi_handler \<Rightarrow> ('f, 'h) device option result" where
  "midi_index name h = map_res (find (\<lambda>d. device_get_alias d = name)) (active_devices h)"

definition midi_get :: "string \<Rightarrow> ('f, 'h) midi_handler \<Rightarrow> nat option" where
  "midi_get label h = find (\<lambda>i. device_get_alias (mh_devices h ! i) = label) [0..<length (mh_devices h)]"

fun bind_devices :: "string \<Rightarrow> rat \<Rightarrow> 'f \<Rightarrow> ('f, 'h) device list \<Rightarrow> ('f, 'h) device list result" where
  "bind_devices modul code func [] = Inr []"
| "bind_devices modul code func (d # ds) =
     bind_res (if device_get_alias d = modul then device_add_binding code func d else Inr d) (\<lambda>d'.
     bind_res (bind_devices modul code func ds) (\<lambda>ds'. Inr (d' # ds')))"

definition midi_add_binding ::
    "string \<Rightarrow> rat \<Rightarrow> 'f \<Rightarrow> ('f, 'h) midi_handler \<Rightarrow> ('f, 'h) midi_handler result" where
  "midi_add_binding modul code func h =
     map_res (\<lambda>ds. h\<lparr>mh_devices := ds\<rparr>) (bind_devices modul code func (mh_devices h))"

definition midi_add_led ::
    "string \<Rightarrow> int \<Rightarrow> string \<Rightarrow> int \<Rightarrow> 8 word \<Rightarrow> led_mode \<Rightarrow> ('f, 'h) midi_handler \<Rightarrow> ('f, 'h) midi_handler" where
  "midi_add_led unit state dev code value mode h =
     (let p1 = \<lparr>ls_device = dev, ls_mode = mode, ls_code = code, ls_value = value\<rparr> in
      case mh_led_map h unit of
        None \<Rightarrow> h\<lparr>mh_led_map := (mh_led_map h)(unit \<mapsto> [state \<mapsto> p1])\<rparr>
      | Some states \<Rightarrow>
          (case states state of
             None \<Rightarrow> h\<lparr>mh_led_map := (mh_led_map h)(unit \<mapsto> states(state \<mapsto> p1))\<rparr>
           | Some _ \<Rightarrow> h))"

text \<open>\<open>trigger_led\<close>: what is written, and to which port.\<close>

definition midi_trigger_led :: "string \<Rightarrow> int \<Rightarrow> ('f, 'h) midi_handler \<Rightarrow> ('h \<times> midi_msg) list result" where
  "midi_trigger_led unit state h =
     (case mh_led_map h unit of
        None \<Rightarrow> Inr []
      | Some states \<Rightarrow>
          (case states state of
             None \<Rightarrow> Inr []
           | Some st \<Rightarrow>
               map_res (\<lambda>ds. concat (map (\<lambda>d.
                   if device_get_alias d = ls_device st
                   then device_write_msg \<lparr>mm_f = device_led_on d, mm_n = word_of_int (ls_code st),
                          mm_v = ls_value st\<rparr> d
                   else []) ds))
                 (active_devices h)))"

text \<open>Units reach it through a \<open>led_toggle_utility\<close>, whose pointer is not initialised.\<close>

definition toggle_led_state ::
    "string \<Rightarrow> int \<Rightarrow> ('f, 'h) midi_handler option \<Rightarrow> ('h \<times> midi_msg) list result" where
  "toggle_led_state unit state led =
     (case led of None \<Rightarrow> Inl Uninitialised | Some h \<Rightarrow> midi_trigger_led unit state h)"

section \<open>Velocities\<close>

text \<open>\<open>normalise_velocity64\<close> and \<open>normalise_velocity128\<close>; \<open>float\<close> is rational.\<close>

definition normalise_velocity64 :: "int \<Rightarrow> rat" where
  "normalise_velocity64 value =
     (if value = 64 then 0
      else if value < 64 then - ((64 - of_int value) * (15625 / 1000000))
      else (of_int value - 63) * (15625 / 1000000))"

definition normalise_velocity128 :: "int \<Rightarrow> rat" where
  "normalise_velocity128 value = (if value = 64 then 5 / 10 else of_int value / 127)"

section \<open>Lemmas\<close>

text \<open>The first binding of a code is the one that stays.\<close>

fun add_bindings :: "(int \<times> 'f) list \<Rightarrow> ('f, 'h) device \<Rightarrow> ('f, 'h) device result" where
  "add_bindings [] d = Inr d"
| "add_bindings ((code, func) # bs) d = bind_res (device_add_binding (of_int code) func d) (add_bindings bs)"

definition int_range :: "int \<Rightarrow> bool" where
  "int_range i \<longleftrightarrow> -2147483648 \<le> i \<and> i < 2147483648"

definition first_of :: "'k \<Rightarrow> ('k \<times> 'v) list \<Rightarrow> 'v option" where
  "first_of k kvs = map_of kvs k"

lemma add_bindings_fields:
  assumes "\<forall>(c, f) \<in> set bs. int_range c"
  shows "\<exists>d'. add_bindings bs d = Inr d' \<and> dv_bindings d' = map_of bs ++ dv_bindings d
    \<and> dv_handle d' = dv_handle d \<and> dv_alias d' = dv_alias d"
  using assms
proof (induction bs arbitrary: d)
  case Nil
  then show ?case by simp
next
  case (Cons b bs)
  obtain c f where b: "b = (c, f)" by (cases b)
  let ?d = "case dv_bindings d c of None \<Rightarrow> d\<lparr>dv_bindings := (dv_bindings d)(c \<mapsto> f)\<rparr> | Some _ \<Rightarrow> d"
  have one: "device_add_binding (of_int c) f d = Inr ?d"
    using Cons.prems b by (simp add: device_add_binding_def cast_int_of_int int_range_def split: option.splits)
  obtain d' where d': "add_bindings bs ?d = Inr d'" "dv_bindings d' = map_of bs ++ dv_bindings ?d"
      "dv_handle d' = dv_handle ?d" "dv_alias d' = dv_alias ?d"
    using Cons.IH [of ?d] Cons.prems by auto
  have "map_of bs ++ dv_bindings ?d = map_of (b # bs) ++ dv_bindings d"
    by (rule ext) (auto simp: b map_add_def split: option.splits)
  then have "dv_bindings d' = map_of (b # bs) ++ dv_bindings d" using d'(2) by metis
  moreover have "add_bindings (b # bs) d = Inr d'" using one d'(1) by (simp add: b)
  moreover have "dv_handle ?d = dv_handle d" "dv_alias ?d = dv_alias d" by (auto split: option.splits)
  ultimately show ?case using d'(3,4) by metis
qed

lemma cycle_loop_calls:
  "cycle_loop bindings flushes =
    (concat (map (\<lambda>(m, _). case bindings (uint (mm_n m)) of None \<Rightarrow> [] | Some f \<Rightarrow> [(f, m)])
       (takeWhile (\<lambda>(m, r). r \<and> mm_f m \<noteq> 0) flushes)),
     \<not> list_all (\<lambda>(m, r). r \<and> mm_f m \<noteq> 0) flushes,
     (case dropWhile (\<lambda>(m, r). r \<and> mm_f m \<noteq> 0) flushes of [] \<Rightarrow> True | (_, r) # _ \<Rightarrow> r))"
  by (induction bindings flushes rule: cycle_loop.induct) auto

text \<open>A failing read ends the loop of a device.\<close>

lemma cycle_loop_read_error:
  "status < 0 \<Longrightarrow> cycle_loop bindings ((alsa_flush (status, code), running) # rest) = ([], True, running)"
  by (simp add: alsa_flush_def)

text \<open>Leds.\<close>

type_synonym led_entry = "string \<times> int \<times> led_state"

fun add_leds :: "led_entry list \<Rightarrow> ('f, 'h) midi_handler \<Rightarrow> ('f, 'h) midi_handler" where
  "add_leds [] h = h"
| "add_leds ((u, st, l) # es) h =
     add_leds es (midi_add_led u st (ls_device l) (ls_code l) (ls_value l) (ls_mode l) h)"

definition led_at :: "('f, 'h) midi_handler \<Rightarrow> string \<Rightarrow> int \<Rightarrow> led_state option" where
  "led_at h u st = (case mh_led_map h u of None \<Rightarrow> None | Some states \<Rightarrow> states st)"

definition first_led :: "led_entry list \<Rightarrow> string \<Rightarrow> int \<Rightarrow> led_state option" where
  "first_led es u st = map_of (map (\<lambda>(u, st, l). ((u, st), l)) es) (u, st)"

lemma add_led_at:
  "led_at (midi_add_led u st (ls_device l) (ls_code l) (ls_value l) (ls_mode l) h) u' st' =
     (case led_at h u' st' of Some l' \<Rightarrow> Some l' | None \<Rightarrow> if u = u' \<and> st = st' then Some l else None)"
  by (auto simp: led_at_def midi_add_led_def Let_def split: option.splits)

lemma add_led_fields [simp]:
  "mh_devices (midi_add_led u st d c v m h) = mh_devices h"
  "mh_active_dev (midi_add_led u st d c v m h) = mh_active_dev h"
  "mh_dangling (midi_add_led u st d c v m h) = mh_dangling h"
  by (auto simp: midi_add_led_def Let_def split: option.splits)

lemma add_leds_at:
  "led_at (add_leds es h) u st = (case led_at h u st of Some l \<Rightarrow> Some l | None \<Rightarrow> first_led es u st)"
proof (induction es h rule: add_leds.induct)
  case (1 h)
  show ?case by (cases "led_at h u st") (simp_all add: first_led_def)
next
  case (2 u' st' l es h)
  have "first_led ((u', st', l) # es) u st = (if u' = u \<and> st' = st then Some l else first_led es u st)"
    by (simp add: first_led_def)
  with 2 show ?case by (cases "led_at h u st") (simp_all add: add_led_at)
qed

lemma add_leds_fields [simp]:
  "mh_devices (add_leds es h) = mh_devices h"
  "mh_active_dev (add_leds es h) = mh_active_dev h"
  "mh_dangling (add_leds es h) = mh_dangling h"
  by (induction es h rule: add_leds.induct) simp_all

lemma trigger_led_at:
  "midi_trigger_led unit state h =
     (case led_at h unit state of
        None \<Rightarrow> Inr []
      | Some st \<Rightarrow> map_res (\<lambda>ds. concat (map (\<lambda>d. if dv_alias d = ls_device st
          then device_write_msg \<lparr>mm_f = dv_led_on d, mm_n = word_of_int (ls_code st), mm_v = ls_value st\<rparr> d
          else []) ds)) (active_devices h))"
  by (simp add: midi_trigger_led_def led_at_def device_get_alias_def device_led_on_def cong: if_cong
      split: option.splits)

section \<open>Properties\<close>

text \<open>C29. A device calls, for every message until the first one with function code 0 or the end of its
  running, the callback that was bound first to the message's note, in order, and
  nothing for a note without binding. Ended by a message with code 0, it still counts
  as running.\<close>

theorem device_dispatches:
  assumes "dv_handle d = Some hndl" and "dv_bindings d = (\<lambda>_. None)" and "\<forall>(c, f) \<in> set bs. int_range c"
  shows "\<exists>d1 d2. add_bindings bs d = Inr d1
    \<and> device_cycle flushes d1 =
        Inr (concat (map (\<lambda>(m, _). case first_of (uint (mm_n m)) bs of None \<Rightarrow> [] | Some f \<Rightarrow> [(f, m)])
               (takeWhile (\<lambda>(m, r). r \<and> mm_f m \<noteq> 0) flushes)),
             \<not> list_all (\<lambda>(m, r). r \<and> mm_f m \<noteq> 0) flushes, d2)
    \<and> dv_running d2 =
        (case dropWhile (\<lambda>(m, r). r \<and> mm_f m \<noteq> 0) flushes of [] \<Rightarrow> True | (_, r) # _ \<Rightarrow> r)"
proof -
  obtain d1 where d1: "add_bindings bs d = Inr d1" "dv_bindings d1 = map_of bs" "dv_handle d1 = Some hndl"
    using add_bindings_fields [OF assms(3), of d] assms(1,2) by (auto simp: map_add_def)
  show ?thesis
    by (intro exI [of _ d1] exI [of _ "d1\<lparr>dv_running :=
        (case dropWhile (\<lambda>(m, r). r \<and> mm_f m \<noteq> 0) flushes of [] \<Rightarrow> True | (_, r) # _ \<Rightarrow> r)\<rparr>"])
       (simp add: d1 device_cycle_def cycle_loop_calls first_of_def)
qed

theorem device_dispatches_witness:
  "\<exists>d1 d2. add_bindings [(60, ''a''), (60, ''b''), (61, ''c'')]
       ((device_make ''hw:1'' ''pad'')\<lparr>dv_handle := Some (0 :: nat)\<rparr>) = Inr d1
    \<and> device_cycle [(\<lparr>mm_f = 144, mm_n = 60, mm_v = 1\<rparr>, True), (\<lparr>mm_f = 144, mm_n = 62, mm_v = 1\<rparr>, True),
         (\<lparr>mm_f = 0, mm_n = 0, mm_v = 0\<rparr>, True), (\<lparr>mm_f = 144, mm_n = 61, mm_v = 1\<rparr>, True)] d1
       = Inr ([(''a'', \<lparr>mm_f = 144, mm_n = 60, mm_v = 1\<rparr>)], True, d2) \<and> dv_running d2"
  using device_dispatches [of "(device_make ''hw:1'' ''pad'')\<lparr>dv_handle := Some (0 :: nat)\<rparr>" 0
    "[(60, ''a''), (60, ''b''), (61, ''c'')]"
    "[(\<lparr>mm_f = 144, mm_n = 60, mm_v = 1\<rparr>, True), (\<lparr>mm_f = 144, mm_n = 62, mm_v = 1\<rparr>, True),
      (\<lparr>mm_f = 0, mm_n = 0, mm_v = 0\<rparr>, True), (\<lparr>mm_f = 144, mm_n = 61, mm_v = 1\<rparr>, True)]"]
  by (simp add: device_make_def int_range_def first_of_def)

text \<open>Triggering the state of a unit writes the first led registered for the pair to every active
  device with the led's alias that has an output, with the on code of the device and the
  note and value of the led; the mode has no effect. A pair without a led writes nothing.\<close>

theorem trigger_writes_first_led:
  assumes "mh_led_map h = (\<lambda>_. None)" and "\<not> mh_dangling h"
  shows "midi_trigger_led unit state (add_leds es h) =
    Inr (case first_led es unit state of
           None \<Rightarrow> []
         | Some st \<Rightarrow> concat (map (\<lambda>i. let d = mh_devices h ! i in
             case dv_output d of
               None \<Rightarrow> []
             | Some out \<Rightarrow> if dv_alias d = ls_device st
                 then [(out, \<lparr>mm_f = dv_led_on d, mm_n = word_of_int (ls_code st), mm_v = ls_value st\<rparr>)]
                 else []) (mh_active_dev h)))"
proof -
  have at: "led_at (add_leds es h) unit state = first_led es unit state"
    using assms(1) add_leds_at [of es h unit state] led_at_def [of h unit state] by simp
  have "active_devices (add_leds es h) = Inr (map ((!) (mh_devices h)) (mh_active_dev h))"
    using assms(2) by (simp add: active_devices_def)
  then show ?thesis
    by (auto simp: trigger_led_at at device_write_msg_def Let_def o_def split: option.splits
        intro!: arg_cong [where f = concat])
qed

definition demo_handler :: "(string, nat) midi_handler" where
  "demo_handler = midi_init \<lparr>open_input_port = (\<lambda>_ _. Some 3), open_output_port = (\<lambda>_ _. Some 4)\<rparr>
     (midi_add_device False ''hw:1'' ''pad'' midi_handler_make)"

theorem trigger_writes_first_led_witness:
  "midi_trigger_led ''deck'' 1 (add_leds
      [(''deck'', 1, \<lparr>ls_device = ''pad'', ls_mode = led_blink, ls_code = 9, ls_value = 127\<rparr>),
       (''deck'', 1, \<lparr>ls_device = ''pad'', ls_mode = led_off, ls_code = 10, ls_value = 0\<rparr>)] demo_handler)
   = Inr [(4, \<lparr>mm_f = 0, mm_n = 9, mm_v = 127\<rparr>)]"
proof -
  have "mh_led_map demo_handler = (\<lambda>_. None)" "\<not> mh_dangling demo_handler"
    by (simp_all add: demo_handler_def midi_init_def midi_add_device_def midi_handler_make_def
        device_init_def device_make_def)
  then show ?thesis
    unfolding trigger_writes_first_led [OF \<open>mh_led_map demo_handler = (\<lambda>_. None)\<close> \<open>\<not> mh_dangling demo_handler\<close>]
    by (simp add: first_led_def demo_handler_def midi_init_def midi_add_device_def midi_handler_make_def
        device_init_def device_make_def)
qed

text \<open>Velocities are normalised into the interval from -1 to 1, and from 0 to 1, and a higher velocity
  never gives a lower value.\<close>

theorem velocities_normalised:
  assumes "0 \<le> v" and "v \<le> w" and "w \<le> 127"
  shows "-1 \<le> normalise_velocity64 v \<and> normalise_velocity64 v \<le> normalise_velocity64 w
    \<and> normalise_velocity64 w \<le> 1
    \<and> 0 \<le> normalise_velocity128 v \<and> normalise_velocity128 v \<le> normalise_velocity128 w
    \<and> normalise_velocity128 w \<le> 1"
proof -
  have r: "0 \<le> (of_int v :: rat)" "(of_int v :: rat) \<le> of_int w" "(of_int w :: rat) \<le> 127"
    using assms by simp_all
  have lt: "i < 64 \<Longrightarrow> (of_int i :: rat) \<le> 63" for i
    using of_int_le_iff [of i 63, where ?'a = rat] by simp
  have gt: "64 < i \<Longrightarrow> 65 \<le> (of_int i :: rat)" for i
    using of_int_le_iff [of 65 i, where ?'a = rat] by simp
  have "normalise_velocity64 v \<le> normalise_velocity64 w \<and> -1 \<le> normalise_velocity64 v
      \<and> normalise_velocity64 w \<le> 1"
    using r assms lt [of v] gt [of w] lt [of w] gt [of v] unfolding normalise_velocity64_def
    by (auto simp: field_simps)
  moreover have "normalise_velocity128 v \<le> normalise_velocity128 w \<and> 0 \<le> normalise_velocity128 v
      \<and> normalise_velocity128 w \<le> 1"
    using r assms lt [of v] gt [of w] unfolding normalise_velocity128_def
    by (auto simp: field_simps)
  ultimately show ?thesis by simp
qed

theorem velocities_normalised_witness:
  "normalise_velocity64 0 = -1 \<and> normalise_velocity64 127 = 1 \<and> normalise_velocity64 63 \<le> normalise_velocity64 65"
  using velocities_normalised [of 63 65] by (simp add: normalise_velocity64_def)

end
