(* ===== verification/Picojson.thy ===== *)
theory Picojson
  imports Complex_Main SIO_Prelude "HOL-Library.List_Lexorder" "HOL-Library.Char_ord" "HOL-Library.Sublist"
begin

unbundle bit_operations_syntax

text \<open>
  The JSON library \<^verbatim>\<open>framework/include/framework/picojson/picojson.h\<close> the configuration is read with:
  values, the serializer and the parser, in the order of the header (without \<open>PICOJSON_USE_INT64\<close>).

  A value is a datatype; \<open>std::map<std::string, value>\<close> is a list of pairs in the order of the
  keys, which is also the order of iteration. A \<open>double\<close> is a rational number: the rounding of a
  decimal number to a \<open>double\<close>, the output of \<open>%.17g\<close> and the decimal point of the locale are fields of the
  environment. A position in the input is the string that is still to be read; \<open>getc\<close> gives
  -1 at the end. A failed \<open>PICOJSON_ASSERT\<close> throws \<open>std::runtime_error\<close>.

  The mutual recursion of the parser carries a number that bounds its depth plus the length of
  its loops; \<open>json_parse\<close> starts it with one that always suffices.
\<close>

section \<open>Characters and numbers\<close>

definition chr_int :: "char \<Rightarrow> int" where
  "chr_int c = of_char c"

lemma chr_int_eq [simp]: "chr_int c = chr_int d \<longleftrightarrow> c = d"
  by (simp add: chr_int_def)

lemma char_of_chr_int [simp]: "char_of (chr_int c) = c"
  by (simp add: chr_int_def)

lemma chr_int_range: "0 \<le> chr_int c" "chr_int c < 256"
proof -
  have "chr_int c = chr_int c mod 256" by (simp add: chr_int_def)
  then show "0 \<le> chr_int c" "chr_int c < 256"
    by (metis pos_mod_sign zero_less_numeral, metis pos_mod_bound zero_less_numeral)
qed

lemma chr_int_ne_eof [simp]: "chr_int c \<noteq> -1" "-1 \<noteq> chr_int c"
  using chr_int_range(1) [of c] by auto

text \<open>\<open>snprintf\<close> with \<open>%.f\<close> of an integral number, and with \<open>%04x\<close>.\<close>

definition digit_char :: "nat \<Rightarrow> char" where
  "digit_char d = char_of (if d < 10 then 48 + d else 87 + d)"

fun show_nat :: "nat \<Rightarrow> string" where
  "show_nat n = (if n < 10 then [digit_char n] else show_nat (n div 10) @ [digit_char (n mod 10)])"

declare show_nat.simps [simp del]

definition show_int :: "int \<Rightarrow> string" where
  "show_int i = (if i < 0 then ''-'' @ show_nat (nat (- i)) else show_nat (nat i))"

definition show_hex4 :: "nat \<Rightarrow> string" where
  "show_hex4 n = [digit_char (n div 4096 mod 16), digit_char (n div 256 mod 16),
     digit_char (n div 16 mod 16), digit_char (n mod 16)]"

text \<open>\<open>strtod\<close> on a whole string: optional sign, digits with an optional decimal point, optional
  exponent. \<open>None\<close> when the number ends before the string does.\<close>

definition is_digit :: "char \<Rightarrow> bool" where
  "is_digit c \<longleftrightarrow> 48 \<le> chr_int c \<and> chr_int c \<le> 57"

definition digits_val :: "string \<Rightarrow> int" where
  "digits_val ds = foldl (\<lambda>v c. 10 * v + (chr_int c - 48)) 0 ds"

definition take_sign :: "string \<Rightarrow> int \<times> string" where
  "take_sign s = (case s of [] \<Rightarrow> (1, []) | c # cs \<Rightarrow>
     if c = CHR ''-'' then (-1, cs) else if c = CHR ''+'' then (1, cs) else (1, s))"

definition pow10 :: "int \<Rightarrow> rat" where
  "pow10 e = (if 0 \<le> e then 10 ^ nat e else 1 / 10 ^ nat (- e))"

definition take_exponent :: "string \<Rightarrow> int option" where
  "take_exponent s = (case s of [] \<Rightarrow> Some 0 | c # cs \<Rightarrow>
     if c = CHR ''e'' \<or> c = CHR ''E''
     then (case take_sign cs of (sg, ds) \<Rightarrow>
             if ds \<noteq> [] \<and> list_all is_digit ds then Some (sg * digits_val ds) else None)
     else None)"

definition take_fraction :: "string \<Rightarrow> string \<Rightarrow> string \<times> string" where
  "take_fraction point s =
     (if prefix point s then (let t = drop (length point) s in (takeWhile is_digit t, dropWhile is_digit t)) else ([], s))"

definition strtod :: "string \<Rightarrow> string \<Rightarrow> rat option" where
  "strtod point s =
     (case take_sign s of (sg, s1) \<Rightarrow>
      let whole = takeWhile is_digit s1; s2 = dropWhile is_digit s1 in
      case take_fraction point s2 of (part, s3) \<Rightarrow>
        if whole = [] \<and> part = [] then None
        else (case take_exponent s3 of
                None \<Rightarrow> None
              | Some e \<Rightarrow> Some (of_int (sg * digits_val (whole @ part)) * pow10 (e - int (length part)))))"

text \<open>What the numbers depend on: the decimal point of the locale, \<open>snprintf\<close> with \<open>%.17g\<close>, and the
  \<open>double\<close> nearest to a rational number (\<open>None\<close> for an infinity).\<close>

record json_env =
  je_point :: string
  je_fmt17 :: "rat \<Rightarrow> string"
  je_double :: "rat \<Rightarrow> rat option"

section \<open>Values\<close>

datatype jvalue =
    JNull
  | JBool bool
  | JNum rat
  | JStr string
  | JArr "jvalue list"
  | JObj "(string \<times> jvalue) list"

fun is_null :: "jvalue \<Rightarrow> bool" where "is_null JNull = True" | "is_null _ = False"
fun is_bool :: "jvalue \<Rightarrow> bool" where "is_bool (JBool b) = True" | "is_bool _ = False"
fun is_double :: "jvalue \<Rightarrow> bool" where "is_double (JNum n) = True" | "is_double _ = False"
fun is_string :: "jvalue \<Rightarrow> bool" where "is_string (JStr s) = True" | "is_string _ = False"
fun is_array :: "jvalue \<Rightarrow> bool" where "is_array (JArr a) = True" | "is_array _ = False"
fun is_object :: "jvalue \<Rightarrow> bool" where "is_object (JObj ob) = True" | "is_object _ = False"

fun get_bool :: "jvalue \<Rightarrow> bool result" where
  "get_bool (JBool b) = Inr b" | "get_bool _ = Inl Std_Runtime_Error"
fun get_double :: "jvalue \<Rightarrow> rat result" where
  "get_double (JNum n) = Inr n" | "get_double _ = Inl Std_Runtime_Error"
fun get_string :: "jvalue \<Rightarrow> string result" where
  "get_string (JStr s) = Inr s" | "get_string _ = Inl Std_Runtime_Error"
fun get_array :: "jvalue \<Rightarrow> jvalue list result" where
  "get_array (JArr a) = Inr a" | "get_array _ = Inl Std_Runtime_Error"
fun get_object :: "jvalue \<Rightarrow> (string \<times> jvalue) list result" where
  "get_object (JObj ob) = Inr ob" | "get_object _ = Inl Std_Runtime_Error"

text \<open>The constructor of a number refuses infinities.\<close>

definition value_of_double :: "rat option \<Rightarrow> jvalue result" where
  "value_of_double n = (case n of None \<Rightarrow> Inl Std_Overflow_Error | Some q \<Rightarrow> Inr (JNum q))"

fun evaluate_as_boolean :: "jvalue \<Rightarrow> bool" where
  "evaluate_as_boolean JNull = False"
| "evaluate_as_boolean (JBool b) = b"
| "evaluate_as_boolean (JNum n) = (n \<noteq> 0)"
| "evaluate_as_boolean (JStr s) = (s \<noteq> [])"
| "evaluate_as_boolean _ = True"

definition get_idx :: "jvalue \<Rightarrow> nat \<Rightarrow> jvalue result" where
  "get_idx v idx = bind_res (get_array v) (\<lambda>a. Inr (if idx < length a then a ! idx else JNull))"

definition get_key :: "jvalue \<Rightarrow> string \<Rightarrow> jvalue result" where
  "get_key v key = bind_res (get_object v) (\<lambda>ob.
     Inr (case map_of ob key of Some x \<Rightarrow> x | None \<Rightarrow> JNull))"

definition contains_idx :: "jvalue \<Rightarrow> nat \<Rightarrow> bool result" where
  "contains_idx v idx = bind_res (get_array v) (\<lambda>a. Inr (idx < length a))"

definition contains_key :: "jvalue \<Rightarrow> string \<Rightarrow> bool result" where
  "contains_key v key = bind_res (get_object v) (\<lambda>ob. Inr (map_of ob key \<noteq> None))"

text \<open>\<open>std::map::operator[]\<close>: the value of a key, null when it is new; and the map afterwards, with what is
  then stored through the reference. The order of the keys is that of the standard container; the program's own
  part is which keys it asks for and what it stores.\<close>

definition obj_at :: "string \<Rightarrow> (string \<times> jvalue) list \<Rightarrow> jvalue" where
  "obj_at key ob = (case map_of ob key of Some x \<Rightarrow> x | None \<Rightarrow> JNull)"

fun obj_put :: "string \<Rightarrow> jvalue \<Rightarrow> (string \<times> jvalue) list \<Rightarrow> (string \<times> jvalue) list" where
  "obj_put key x [] = [(key, x)]"
| "obj_put key x ((k, y) # ob) =
     (if key = k then (k, x) # ob
      else if key < k then (key, x) # (k, y) # ob
      else (k, y) # obj_put key x ob)"

fun replace_first :: "string \<Rightarrow> string \<Rightarrow> string" where
  "replace_first point [] = []"
| "replace_first point (c # cs) =
     (if prefix point (c # cs) then ''.'' @ drop (length point) (c # cs) else c # replace_first point cs)"

definition show_number :: "json_env \<Rightarrow> rat \<Rightarrow> string" where
  "show_number E n =
     (let buf = (if \<bar>n\<bar> < 9007199254740992 \<and> of_int \<lfloor>n\<rfloor> = n then show_int \<lfloor>n\<rfloor> else je_fmt17 E n) in
      if je_point E \<noteq> ''.'' then replace_first (je_point E) buf else buf)"

fun to_str :: "json_env \<Rightarrow> jvalue \<Rightarrow> string" where
  "to_str E JNull = ''null''"
| "to_str E (JBool b) = (if b then ''true'' else ''false'')"
| "to_str E (JNum n) = show_number E n"
| "to_str E (JStr s) = s"
| "to_str E (JArr a) = ''array''"
| "to_str E (JObj ob) = ''object''"

text \<open>\<open>operator==\<close>; vectors and maps compare element by element.\<close>

fun json_eq :: "jvalue \<Rightarrow> jvalue \<Rightarrow> bool"
  and json_eq_list :: "jvalue list \<Rightarrow> jvalue list \<Rightarrow> bool"
  and json_eq_pairs :: "(string \<times> jvalue) list \<Rightarrow> (string \<times> jvalue) list \<Rightarrow> bool" where
  "json_eq JNull y = is_null y"
| "json_eq (JBool b) y = (case y of JBool b' \<Rightarrow> b = b' | _ \<Rightarrow> False)"
| "json_eq (JNum n) y = (case y of JNum n' \<Rightarrow> n = n' | _ \<Rightarrow> False)"
| "json_eq (JStr s) y = (case y of JStr s' \<Rightarrow> s = s' | _ \<Rightarrow> False)"
| "json_eq (JArr a) y = (case y of JArr a' \<Rightarrow> json_eq_list a a' | _ \<Rightarrow> False)"
| "json_eq (JObj ob) y = (case y of JObj ob' \<Rightarrow> json_eq_pairs ob ob' | _ \<Rightarrow> False)"
| "json_eq_list [] ys = (ys = [])"
| "json_eq_list (x # xs) ys = (case ys of [] \<Rightarrow> False | y # ys' \<Rightarrow> json_eq x y \<and> json_eq_list xs ys')"
| "json_eq_pairs [] ys = (ys = [])"
| "json_eq_pairs ((k, x) # xs) ys =
     (case ys of [] \<Rightarrow> False | (k', y) # ys' \<Rightarrow> k = k' \<and> json_eq x y \<and> json_eq_pairs xs ys')"

lemma json_eq_iff [simp]:
  "json_eq x y \<longleftrightarrow> x = y"
  "json_eq_list xs ys \<longleftrightarrow> xs = ys"
  "json_eq_pairs ps qs \<longleftrightarrow> ps = qs"
proof (induction x y and xs ys and ps qs rule: json_eq_json_eq_list_json_eq_pairs.induct)
  case (1 y)
  then show ?case by (cases y) simp_all
qed (auto split: jvalue.splits list.splits)

section \<open>The serializer\<close>

definition escape_char :: "char \<Rightarrow> string" where
  "escape_char c =
     (if c = CHR 0x22 then [CHR 0x5C, CHR 0x22]
      else if c = CHR 0x5C then [CHR 0x5C, CHR 0x5C]
      else if c = CHR ''/'' then [CHR 0x5C, CHR ''/'']
      else if c = CHR 0x08 then [CHR 0x5C, CHR ''b'']
      else if c = CHR 0x0C then [CHR 0x5C, CHR ''f'']
      else if c = CHR 0x0A then [CHR 0x5C, CHR ''n'']
      else if c = CHR 0x0D then [CHR 0x5C, CHR ''r'']
      else if c = CHR 0x09 then [CHR 0x5C, CHR ''t'']
      else if chr_int c < 32 \<or> chr_int c = 127 then [CHR 0x5C, CHR ''u''] @ show_hex4 (nat (chr_int c))
      else [c])"

definition serialize_str :: "string \<Rightarrow> string" where
  "serialize_str s = [CHR 0x22] @ concat (map escape_char s) @ [CHR 0x22]"

definition indent_str :: "int \<Rightarrow> string" where
  "indent_str indent = CHR 0x0A # replicate (nat (indent * 2)) (CHR '' '')"

text \<open>\<open>_serialize\<close> and its loops over the items of an array and the members of an object; \<open>first\<close> says
  that the iterator is at the beginning.\<close>

function (sequential) serialize_value :: "json_env \<Rightarrow> int \<Rightarrow> jvalue \<Rightarrow> string"
  and serialize_items :: "json_env \<Rightarrow> int \<Rightarrow> bool \<Rightarrow> jvalue list \<Rightarrow> string"
  and serialize_members :: "json_env \<Rightarrow> int \<Rightarrow> bool \<Rightarrow> (string \<times> jvalue) list \<Rightarrow> string" where
  "serialize_value E indent v =
     (case v of
        JStr s \<Rightarrow> serialize_str s
      | JArr a \<Rightarrow>
          (let inner = (if indent \<noteq> -1 then indent + 1 else indent) in
           ''['' @ serialize_items E inner True a
           @ (if inner \<noteq> -1 \<and> a \<noteq> [] then indent_str (inner - 1) else []) @ '']'')
      | JObj ob \<Rightarrow>
          (let inner = (if indent \<noteq> -1 then indent + 1 else indent) in
           ''{'' @ serialize_members E inner True ob
           @ (if inner \<noteq> -1 \<and> ob \<noteq> [] then indent_str (inner - 1) else []) @ ''}'')
      | _ \<Rightarrow> to_str E v)
     @ (if indent = 0 then [CHR 0x0A] else [])"
| "serialize_items E indent first [] = []"
| "serialize_items E indent first (x # xs) =
     (if first then [] else '','') @ (if indent \<noteq> -1 then indent_str indent else [])
     @ serialize_value E indent x @ serialize_items E indent False xs"
| "serialize_members E indent first [] = []"
| "serialize_members E indent first ((k, x) # xs) =
     (if first then [] else '','') @ (if indent \<noteq> -1 then indent_str indent else [])
     @ serialize_str k @ '':'' @ (if indent \<noteq> -1 then '' '' else [])
     @ serialize_value E indent x @ serialize_members E indent False xs"
  by pat_completeness auto

termination
  by (relation "measure (case_sum (\<lambda>(_, _, v). size v)
       (case_sum (\<lambda>(_, _, _, xs). size_list size xs) (\<lambda>(_, _, _, xs). size_list (size_prod (\<lambda>_. 0) size) xs)))")
     simp_all

declare serialize_value.simps [simp del]

definition json_serialize :: "json_env \<Rightarrow> bool \<Rightarrow> jvalue \<Rightarrow> string" where
  "json_serialize E prettify v = serialize_value E (if prettify then 0 else -1) v"

section \<open>The input\<close>

record input =
  in_rest :: string
  in_last :: int
  in_ungot :: bool
  in_line :: int

definition input_make :: "string \<Rightarrow> input" where
  "input_make s = \<lparr>in_rest = s, in_last = -1, in_ungot = False, in_line = 1\<rparr>"

definition getc :: "input \<Rightarrow> int \<times> input" where
  "getc i =
     (if in_ungot i then (in_last i, i\<lparr>in_ungot := False\<rparr>)
      else case in_rest i of
        [] \<Rightarrow> (-1, i\<lparr>in_last := -1\<rparr>)
      | c # cs \<Rightarrow> (chr_int c, i\<lparr>in_rest := cs, in_last := chr_int c,
                      in_line := (if in_last i = 10 then in_line i + 1 else in_line i)\<rparr>))"

definition ungetc :: "input \<Rightarrow> input result" where
  "ungetc i =
     (if in_last i \<noteq> -1 then
        (if in_ungot i then Inl Std_Runtime_Error else Inr (i\<lparr>in_ungot := True\<rparr>))
      else Inr i)"

text \<open>What is left to read, and its length; reading makes it shorter.\<close>

definition in_len :: "input \<Rightarrow> nat" where
  "in_len i = length (in_rest i) + (if in_ungot i then 1 else 0)"

lemma getc_len:
  assumes "getc i = (ch, j)"
  shows "in_len j \<le> in_len i" "ch \<noteq> -1 \<Longrightarrow> in_len j < in_len i"
  using assms by (auto simp: getc_def in_len_def split: if_splits list.splits)

lemma getc_ungetc_len:
  assumes "getc i = (ch, j)"
  shows "\<exists>k. ungetc j = Inr k \<and> in_len k \<le> in_len i"
  using assms by (auto simp: getc_def ungetc_def in_len_def split: if_splits list.splits)

definition is_ws :: "int \<Rightarrow> bool" where
  "is_ws ch \<longleftrightarrow> ch = 32 \<or> ch = 9 \<or> ch = 10 \<or> ch = 13"

lemma not_ws_eof [simp]: "\<not> is_ws (-1)"
  by (simp add: is_ws_def)

lemma getc_consumes: "(ch, j) = getc i \<Longrightarrow> ch \<noteq> -1 \<Longrightarrow> in_len j < in_len i"
  using getc_len(2) [of i ch j] by simp

lemma getc_ws_len: "(ch, j) = getc i \<Longrightarrow> is_ws ch \<Longrightarrow> in_len j < in_len i"
  using getc_consumes [of ch j i] by (auto simp: is_ws_def)

function skip_ws :: "input \<Rightarrow> input result" where
  "skip_ws i = (case getc i of (ch, i1) \<Rightarrow> if \<not> is_ws ch then ungetc i1 else skip_ws i1)"
  by auto

termination
  by (relation "measure in_len") (simp_all add: getc_ws_len)

declare skip_ws.simps [simp del]

definition expect_ch :: "int \<Rightarrow> input \<Rightarrow> (bool \<times> input) result" where
  "expect_ch e i = bind_res (skip_ws i) (\<lambda>i1.
     case getc i1 of (ch, i2) \<Rightarrow> if ch \<noteq> e then map_res (Pair False) (ungetc i2) else Inr (True, i2))"

fun match_text :: "string \<Rightarrow> input \<Rightarrow> (bool \<times> input) result" where
  "match_text [] i = Inr (True, i)"
| "match_text (p # ps) i =
     (case getc i of (ch, i1) \<Rightarrow>
        if ch \<noteq> chr_int p then map_res (Pair False) (ungetc i1) else match_text ps i1)"

declare match_text.simps [simp del]

section \<open>Strings\<close>

definition hex_digit :: "int \<Rightarrow> int option" where
  "hex_digit hex =
     (if 48 \<le> hex \<and> hex \<le> 57 then Some (hex - 48)
      else if 65 \<le> hex \<and> hex \<le> 70 then Some (hex - (65 - 10))
      else if 97 \<le> hex \<and> hex \<le> 102 then Some (hex - (97 - 10))
      else None)"

fun quadhex_loop :: "nat \<Rightarrow> int \<Rightarrow> input \<Rightarrow> (int \<times> input) result" where
  "quadhex_loop 0 uni_ch i = Inr (uni_ch, i)"
| "quadhex_loop (Suc n) uni_ch i =
     (case getc i of (hex, i1) \<Rightarrow>
        if hex = -1 then Inr (-1, i1)
        else (case hex_digit hex of
                None \<Rightarrow> map_res (Pair (-1)) (ungetc i1)
              | Some d \<Rightarrow> quadhex_loop n (uni_ch * 16 + d) i1))"

definition parse_quadhex :: "input \<Rightarrow> (int \<times> input) result" where
  "parse_quadhex i = quadhex_loop 4 0 i"

text \<open>The bytes \<open>_parse_codepoint\<close> appends.\<close>

definition utf8_bytes :: "int \<Rightarrow> string" where
  "utf8_bytes uni_ch =
     map char_of
      (if uni_ch < 0x80 then [uni_ch]
       else (if uni_ch < 0x800 then [0xc0 OR drop_bit 6 uni_ch]
             else (if uni_ch < 0x10000 then [0xe0 OR drop_bit 12 uni_ch]
                   else [0xf0 OR drop_bit 18 uni_ch, 0x80 OR (drop_bit 12 uni_ch AND 0x3f)])
                  @ [0x80 OR (drop_bit 6 uni_ch AND 0x3f)])
            @ [0x80 OR (uni_ch AND 0x3f)])"

definition surrogates :: "int \<Rightarrow> int \<Rightarrow> int" where
  "surrogates uni_ch second = (push_bit 10 (uni_ch - 0xd800) OR ((second - 0xdc00) AND 0x3ff)) + 0x10000"

definition parse_codepoint :: "string \<Rightarrow> input \<Rightarrow> (bool \<times> string \<times> input) result" where
  "parse_codepoint out i =
     bind_res (parse_quadhex i) (\<lambda>(uni_ch, i1).
       if uni_ch = -1 then Inr (False, out, i1)
       else if 0xd800 \<le> uni_ch \<and> uni_ch \<le> 0xdfff then
         if 0xdc00 \<le> uni_ch then Inr (False, out, i1)
         else (case getc i1 of (c1, i2) \<Rightarrow>
           if c1 \<noteq> 92 then map_res (\<lambda>j. (False, out, j)) (ungetc i2)
           else (case getc i2 of (c2, i3) \<Rightarrow>
             if c2 \<noteq> 117 then map_res (\<lambda>j. (False, out, j)) (ungetc i3)
             else bind_res (parse_quadhex i3) (\<lambda>(second, i4).
               if \<not> (0xdc00 \<le> second \<and> second \<le> 0xdfff) then Inr (False, out, i4)
               else Inr (True, out @ utf8_bytes (surrogates uni_ch second), i4))))
       else Inr (True, out @ utf8_bytes uni_ch, i1))"

definition unescape :: "int \<Rightarrow> char option" where
  "unescape ch =
     (if ch = 34 then Some (CHR 0x22)
      else if ch = 92 then Some (CHR 0x5C)
      else if ch = 47 then Some (CHR ''/'')
      else if ch = 98 then Some (CHR 0x08)
      else if ch = 102 then Some (CHR 0x0C)
      else if ch = 110 then Some (CHR 0x0A)
      else if ch = 114 then Some (CHR 0x0D)
      else if ch = 116 then Some (CHR 0x09)
      else None)"

text \<open>Reading never throws here: what is pushed back has just been read. It never makes the input
  longer.\<close>

lemma quadhex_len: "\<exists>u j. quadhex_loop n uni_ch i = Inr (u, j) \<and> in_len j \<le> in_len i"
proof (induction n arbitrary: uni_ch i)
  case 0
  then show ?case by simp
next
  case (Suc n)
  obtain hex i1 where g: "getc i = (hex, i1)" by (cases "getc i")
  obtain k where k: "ungetc i1 = Inr k" "in_len k \<le> in_len i" using getc_ungetc_len [OF g] by auto
  obtain d where "hex = -1 \<or> hex_digit hex = None \<or> hex_digit hex = Some d" by (cases "hex_digit hex") auto
  then show ?case
    using g k Suc.IH [of "uni_ch * 16 + d" i1] getc_len(1) [OF g] by (fastforce split: option.split)
qed

lemma codepoint_len: "\<exists>b s j. parse_codepoint out i = Inr (b, s, j) \<and> in_len j \<le> in_len i"
proof -
  obtain u i1 where u: "parse_quadhex i = Inr (u, i1)" "in_len i1 \<le> in_len i"
    using quadhex_len unfolding parse_quadhex_def by blast
  obtain c1 i2 where c1: "getc i1 = (c1, i2)" by (cases "getc i1")
  obtain c2 i3 where c2: "getc i2 = (c2, i3)" by (cases "getc i2")
  obtain k1 where k1: "ungetc i2 = Inr k1" "in_len k1 \<le> in_len i1" using getc_ungetc_len [OF c1] by auto
  obtain k2 where k2: "ungetc i3 = Inr k2" "in_len k2 \<le> in_len i2" using getc_ungetc_len [OF c2] by auto
  obtain w i4 where w: "parse_quadhex i3 = Inr (w, i4)" "in_len i4 \<le> in_len i3"
    using quadhex_len unfolding parse_quadhex_def by blast
  have le: "in_len i2 \<le> in_len i1" "in_len i3 \<le> in_len i2"
    using getc_len(1) [OF c1] getc_len(1) [OF c2] .
  show ?thesis
    unfolding parse_codepoint_def using u c1 c2 k1 k2 w le by auto
qed

lemma codepoint_len': "parse_codepoint out i = Inr (b, s, j) \<Longrightarrow> in_len j \<le> in_len i"
  using codepoint_len [of out i] by auto

lemma getc_shrinks: "(ch, j) = getc i \<Longrightarrow> in_len j \<le> in_len i"
  using getc_len(1) [of i ch j] by simp

lemma escape_shrinks: "(92, j) = getc i \<Longrightarrow> (ch, k) = getc j \<Longrightarrow> in_len k < in_len i"
  using getc_consumes [of 92 j i] getc_shrinks [of ch k j] by simp

function parse_string :: "string \<Rightarrow> input \<Rightarrow> (bool \<times> string \<times> input) result" where
  "parse_string out i =
     (case getc i of (ch, i1) \<Rightarrow>
        if ch < 32 then map_res (\<lambda>j. (False, out, j)) (ungetc i1)
        else if ch = 34 then Inr (True, out, i1)
        else if ch = 92 then
          (case getc i1 of (ch2, i2) \<Rightarrow>
             if ch2 = -1 then Inr (False, out, i2)
             else (case unescape ch2 of
                     Some c \<Rightarrow> parse_string (out @ [c]) i2
                   | None \<Rightarrow>
                       if ch2 = 117 then
                         bind_res (parse_codepoint out i2) (\<lambda>(ok, s, i3).
                           if ok then parse_string s i3 else Inr (False, s, i3))
                       else Inr (False, out, i2)))
        else parse_string (out @ [char_of ch]) i1)"
  by auto

termination
  by (relation "measure (\<lambda>(out, i). in_len i)")
     (simp_all, (fastforce dest: escape_shrinks codepoint_len' getc_consumes)+)

declare parse_string.simps [simp del]

section \<open>The parser\<close>

function parse_number :: "json_env \<Rightarrow> string \<Rightarrow> input \<Rightarrow> (string \<times> input) result" where
  "parse_number E num_str i =
     (case getc i of (ch, i1) \<Rightarrow>
        if (48 \<le> ch \<and> ch \<le> 57) \<or> ch = 43 \<or> ch = 45 \<or> ch = 101 \<or> ch = 69
        then parse_number E (num_str @ [char_of ch]) i1
        else if ch = 46 then parse_number E (num_str @ je_point E) i1
        else map_res (Pair num_str) (ungetc i1))"
  by auto

termination
  by (relation "measure (\<lambda>(E, num, i). in_len i)") (simp_all, (fastforce dest: getc_consumes)+)

declare parse_number.simps [simp del]

text \<open>\<open>_parse\<close> with a \<open>default_parse_context\<close>: what is parsed replaces the value behind \<open>out_\<close>, which keeps what
  was read when the input turns out to be malformed. \<open>parse_items\<close> and \<open>parse_members\<close> are the loops of
  \<open>_parse_array\<close> and \<open>_parse_object\<close>, with the array or object so far.\<close>

fun parse_value :: "json_env \<Rightarrow> nat \<Rightarrow> jvalue \<Rightarrow> input \<Rightarrow> (bool \<times> jvalue \<times> input) result"
  and parse_items :: "json_env \<Rightarrow> nat \<Rightarrow> jvalue list \<Rightarrow> input \<Rightarrow> (bool \<times> jvalue \<times> input) result"
  and parse_members :: "json_env \<Rightarrow> nat \<Rightarrow> (string \<times> jvalue) list \<Rightarrow> input \<Rightarrow> (bool \<times> jvalue \<times> input) result"
where
  "parse_value E 0 out i = Inl Stack_Overflow"
| "parse_value E (Suc n) out i =
     bind_res (skip_ws i) (\<lambda>i1. case getc i1 of (ch, i2) \<Rightarrow>
       if ch = 110 then
         map_res (\<lambda>(ok, j). (ok, if ok then JNull else out, j)) (match_text ''ull'' i2)
       else if ch = 102 then
         map_res (\<lambda>(ok, j). (ok, if ok then JBool False else out, j)) (match_text ''alse'' i2)
       else if ch = 116 then
         map_res (\<lambda>(ok, j). (ok, if ok then JBool True else out, j)) (match_text ''rue'' i2)
       else if ch = 34 then
         map_res (\<lambda>(ok, s, j). (ok, JStr s, j)) (parse_string [] i2)
       else if ch = 91 then
         bind_res (expect_ch 93 i2) (\<lambda>(none, i3).
           if none then Inr (True, JArr [], i3) else parse_items E n [] i3)
       else if ch = 123 then
         bind_res (expect_ch 125 i2) (\<lambda>(none, i3).
           if none then Inr (True, JObj [], i3) else parse_members E n [] i3)
       else if (48 \<le> ch \<and> ch \<le> 57) \<or> ch = 45 then
         bind_res (ungetc i2) (\<lambda>i3. bind_res (parse_number E [] i3) (\<lambda>(num_str, i4).
           if num_str = [] then Inr (False, out, i4)
           else (case strtod (je_point E) num_str of
                   None \<Rightarrow> Inr (False, out, i4)
                 | Some f \<Rightarrow> map_res (\<lambda>v. (True, v, i4)) (value_of_double (je_double E f)))))
       else map_res (\<lambda>j. (False, out, j)) (ungetc i2))"
| "parse_items E 0 a i = Inl Stack_Overflow"
| "parse_items E (Suc n) a i =
     bind_res (parse_value E n JNull i) (\<lambda>(ok, x, i1).
       let a' = a @ [x] in
       if \<not> ok then Inr (False, JArr a', i1)
       else bind_res (expect_ch 44 i1) (\<lambda>(more, i2).
         if more then parse_items E n a' i2
         else map_res (\<lambda>(stop, j). (stop, JArr a', j)) (expect_ch 93 i2)))"
| "parse_members E 0 ob i = Inl Stack_Overflow"
| "parse_members E (Suc n) ob i =
     bind_res (expect_ch 34 i) (\<lambda>(quote, i1).
       if \<not> quote then Inr (False, JObj ob, i1)
       else bind_res (parse_string [] i1) (\<lambda>(ok, key, i2).
         if \<not> ok then Inr (False, JObj ob, i2)
         else bind_res (expect_ch 58 i2) (\<lambda>(colon, i3).
           if \<not> colon then Inr (False, JObj ob, i3)
           else bind_res (parse_value E n (obj_at key ob) i3) (\<lambda>(ok, x, i4).
             let ob' = obj_put key x ob in
             if \<not> ok then Inr (False, JObj ob', i4)
             else bind_res (expect_ch 44 i4) (\<lambda>(more, i5).
               if more then parse_members E n ob' i5
               else map_res (\<lambda>(stop, j). (stop, JObj ob', j)) (expect_ch 125 i5))))))"

text \<open>\<open>_parse\<close> with a \<open>null_parse_context\<close>, which throws the values away.\<close>

fun null_parse :: "json_env \<Rightarrow> nat \<Rightarrow> input \<Rightarrow> (bool \<times> input) result"
  and null_items :: "json_env \<Rightarrow> nat \<Rightarrow> input \<Rightarrow> (bool \<times> input) result"
  and null_members :: "json_env \<Rightarrow> nat \<Rightarrow> input \<Rightarrow> (bool \<times> input) result"
where
  "null_parse E 0 i = Inl Stack_Overflow"
| "null_parse E (Suc n) i =
     bind_res (skip_ws i) (\<lambda>i1. case getc i1 of (ch, i2) \<Rightarrow>
       if ch = 110 then match_text ''ull'' i2
       else if ch = 102 then match_text ''alse'' i2
       else if ch = 116 then match_text ''rue'' i2
       else if ch = 34 then map_res (\<lambda>(ok, s, j). (ok, j)) (parse_string [] i2)
       else if ch = 91 then
         bind_res (expect_ch 93 i2) (\<lambda>(none, i3). if none then Inr (True, i3) else null_items E n i3)
       else if ch = 123 then
         bind_res (expect_ch 125 i2) (\<lambda>(none, i3). if none then Inr (True, i3) else null_members E n i3)
       else if (48 \<le> ch \<and> ch \<le> 57) \<or> ch = 45 then
         bind_res (ungetc i2) (\<lambda>i3. bind_res (parse_number E [] i3) (\<lambda>(num_str, i4).
           if num_str = [] then Inr (False, i4)
           else (case strtod (je_point E) num_str of
                   None \<Rightarrow> Inr (False, i4)
                 | Some f \<Rightarrow> Inr (True, i4))))
       else map_res (Pair False) (ungetc i2))"
| "null_items E 0 i = Inl Stack_Overflow"
| "null_items E (Suc n) i =
     bind_res (null_parse E n i) (\<lambda>(ok, i1).
       if \<not> ok then Inr (False, i1)
       else bind_res (expect_ch 44 i1) (\<lambda>(more, i2).
         if more then null_items E n i2 else expect_ch 93 i2))"
| "null_members E 0 i = Inl Stack_Overflow"
| "null_members E (Suc n) i =
     bind_res (expect_ch 34 i) (\<lambda>(quote, i1).
       if \<not> quote then Inr (False, i1)
       else bind_res (parse_string [] i1) (\<lambda>(ok, key, i2).
         if \<not> ok then Inr (False, i2)
         else bind_res (expect_ch 58 i2) (\<lambda>(colon, i3).
           if \<not> colon then Inr (False, i3)
           else bind_res (null_parse E n i3) (\<lambda>(ok, i4).
             if \<not> ok then Inr (False, i4)
             else bind_res (expect_ch 44 i4) (\<lambda>(more, i5).
               if more then null_members E n i5 else expect_ch 125 i5)))))"

text \<open>The error message.\<close>

function near_text :: "string \<Rightarrow> input \<Rightarrow> string" where
  "near_text err i =
     (case getc i of (ch, i1) \<Rightarrow>
        if ch = -1 \<or> ch = 10 then err
        else if 32 \<le> ch then near_text (err @ [char_of ch]) i1
        else near_text err i1)"
  by auto

termination
  by (relation "measure (\<lambda>(err, i). in_len i)") (simp_all, (fastforce dest: getc_consumes)+)

declare near_text.simps [simp del]

text \<open>\<open>parse(value&, first, last, &err)\<close>: the value, the error and what is not read.\<close>

definition json_parse_at :: "json_env \<Rightarrow> jvalue \<Rightarrow> string \<Rightarrow> (jvalue \<times> string \<times> string) result" where
  "json_parse_at E out s =
     bind_res (parse_value E (2 * length s + 1) out (input_make s)) (\<lambda>(ok, v, i).
       if ok then Inr (v, [], in_rest i)
       else Inr (v, near_text (''syntax error at line '' @ show_int (in_line i) @ '' near: '') i, in_rest i))"

definition json_parse :: "json_env \<Rightarrow> jvalue \<Rightarrow> string \<Rightarrow> (jvalue \<times> string) result" where
  "json_parse E out s = map_res (\<lambda>(v, err, _). (v, err)) (json_parse_at E out s)"

end
