(* ===== verification/Picojson_Laws.thy ===== *)
theory Picojson_Laws
  imports Picojson
begin

text \<open>
  What the parser of the JSON library promises for any text: it ends and throws nothing but the overflow of a
  number, and it accepts the same texts whether it keeps the values or throws them away. The measure is the length of
  the text an input still has to deliver.
\<close>

section \<open>Totality\<close>

lemma skip_ws_len: "\<exists>j. skip_ws i = Inr j \<and> in_len j \<le> in_len i"
proof (induction i rule: skip_ws.induct)
  case (1 i)
  obtain ch i1 where g: "getc i = (ch, i1)" by (cases "getc i")
  show ?case
  proof (cases "is_ws ch")
    case True
    then show ?thesis
      using 1 [OF g [symmetric]] g getc_len(1) [OF g] by (fastforce simp: skip_ws.simps [of i])
  next
    case False
    then show ?thesis using g getc_ungetc_len [OF g] by (auto simp: skip_ws.simps [of i])
  qed
qed

lemma expect_len:
  assumes "e \<noteq> -1"
  shows "\<exists>b j. expect_ch e i = Inr (b, j) \<and> in_len j \<le> in_len i \<and> (b \<longrightarrow> in_len j < in_len i)"
proof -
  obtain i1 where i1: "skip_ws i = Inr i1" "in_len i1 \<le> in_len i" using skip_ws_len by blast
  obtain ch i2 where g: "getc i1 = (ch, i2)" by (cases "getc i1")
  obtain k where k: "ungetc i2 = Inr k" "in_len k \<le> in_len i1" using getc_ungetc_len [OF g] by auto
  show ?thesis
    using i1 g k getc_len(2) [OF g] assms by (cases "ch = e") (auto simp: expect_ch_def)
qed

lemma match_len: "\<exists>b j. match_text ps i = Inr (b, j) \<and> in_len j \<le> in_len i"
proof (induction ps arbitrary: i)
  case Nil
  then show ?case by (auto simp: match_text.simps intro: exI [of _ True])
next
  case (Cons p ps)
  obtain ch i1 where g: "getc i = (ch, i1)" by (cases "getc i")
  obtain k where k: "ungetc i1 = Inr k" "in_len k \<le> in_len i" using getc_ungetc_len [OF g] by auto
  show ?case
    using Cons.IH [of i1] g k getc_len(1) [OF g] by (cases "ch = chr_int p") (auto simp: match_text.simps)
qed

lemma parse_string_len: "\<exists>b s j. parse_string out i = Inr (b, s, j) \<and> in_len j \<le> in_len i"
proof (induction out i rule: parse_string.induct)
  case (1 out i)
  obtain ch i1 where g: "getc i = (ch, i1)" by (cases "getc i")
  obtain ch2 i2 where g2: "getc i1 = (ch2, i2)" by (cases "getc i1")
  obtain b s i3 where cp: "parse_codepoint out i2 = Inr (b, s, i3)" "in_len i3 \<le> in_len i2"
    using codepoint_len by blast
  note le = getc_len(1) [OF g] getc_len(1) [OF g2]
  consider "ch < 32" | "ch = 34" | "ch = 92" "ch2 = -1" | c where "ch = 92" "ch2 \<noteq> -1" "unescape ch2 = Some c"
    | "ch = 92" "ch2 \<noteq> -1" "unescape ch2 = None" | "\<not> ch < 32" "ch \<noteq> 34" "ch \<noteq> 92"
    by fastforce
  then show ?case
  proof cases
    case 1
    then show ?thesis using g getc_ungetc_len [OF g] by (auto simp: parse_string.simps [of out i])
  next
    case 2
    then show ?thesis using g le by (auto simp: parse_string.simps [of out i] intro: exI [of _ True])
  next
    case 3
    then show ?thesis using g g2 le by (auto simp: parse_string.simps [of out i] intro: exI [of _ False])
  next
    case (4 c)
    then show ?thesis
      using "1.IH"(2) [OF g [symmetric] _ _ _ g2 [symmetric], of c] g g2 le
      by (force simp: parse_string.simps [of out i])
  next
    case 5
    show ?thesis
    proof (cases "ch2 = 117 \<and> b")
      case True
      have "\<exists>b' s' j. parse_string s i3 = Inr (b', s', j) \<and> in_len j \<le> in_len i3"
        using "1.IH"(1) [OF g [symmetric] _ _ _ g2 [symmetric], of "(b, s, i3)" b "(s, i3)" s i3] 5 True cp
        by simp
      then show ?thesis using 5 True g g2 cp le by (force simp: parse_string.simps [of out i])
    next
      case False
      then show ?thesis using 5 g g2 cp le by (auto simp: parse_string.simps [of out i])
    qed
  next
    case 6
    then show ?thesis
      using "1.IH"(3) [OF g [symmetric]] g le by (force simp: parse_string.simps [of out i])
  qed
qed

lemma parse_number_len: "\<exists>num j. parse_number E acc i = Inr (num, j) \<and> in_len j \<le> in_len i"
proof (induction E acc i rule: parse_number.induct)
  case (1 E acc i)
  obtain ch i1 where g: "getc i = (ch, i1)" by (cases "getc i")
  let ?d = "(48 \<le> ch \<and> ch \<le> 57) \<or> ch = 43 \<or> ch = 45 \<or> ch = 101 \<or> ch = 69"
  consider ?d | "\<not> ?d" "ch = 46" | "\<not> ?d" "ch \<noteq> 46" by blast
  then show ?case
  proof cases
    case 1
    then show ?thesis
      using "1.IH"(1) [OF g [symmetric]] g getc_len(1) [OF g] by (force simp: parse_number.simps [of E acc i])
  next
    case 2
    then show ?thesis
      using "1.IH"(2) [OF g [symmetric]] g getc_len(1) [OF g] by (force simp: parse_number.simps [of E acc i])
  next
    case 3
    then show ?thesis using g getc_ungetc_len [OF g] by (auto simp: parse_number.simps [of E acc i])
  qed
qed

text \<open>The recursion: twice the length of the text, and a bit, is enough.\<close>

definition ends_within :: "nat \<Rightarrow> (bool \<times> jvalue \<times> input) result \<Rightarrow> bool" where
  "ends_within l r = (case r of Inl e \<Rightarrow> e = Std_Overflow_Error | Inr (ok, v, j) \<Rightarrow> in_len j \<le> l)"

lemma ends_within_Inr [simp]: "ends_within l (Inr (ok, v, j)) \<longleftrightarrow> in_len j \<le> l"
  by (simp add: ends_within_def)

lemma ends_within_map:
  assumes "\<exists>b j. r = Inr (b, j) \<and> in_len j \<le> l"
  shows "ends_within l (map_res (\<lambda>(ok, j). (g ok, h ok, j)) r)"
  using assms by auto

lemma ends_within_mono: "ends_within l r \<Longrightarrow> l \<le> m \<Longrightarrow> ends_within m r"
  by (auto simp: ends_within_def split: sum.splits prod.splits)

lemma ends_within_bind:
  assumes "ends_within l r" and "\<And>ok v j. in_len j \<le> l \<Longrightarrow> ends_within m (f (ok, v, j))"
  shows "ends_within m (bind_res r f)"
proof (cases r)
  case (Inl e)
  then show ?thesis using assms(1) by (simp add: ends_within_def)
next
  case (Inr x)
  obtain ok v j where "x = (ok, v, j)" by (cases x)
  then show ?thesis using Inr assms by simp
qed

lemma value_ends:
  assumes items: "\<And>a j. 2 * in_len j + 2 \<le> n \<Longrightarrow> ends_within (in_len j) (parse_items E n a j)"
    and members: "\<And>ob j. 2 * in_len j + 2 \<le> n \<Longrightarrow> ends_within (in_len j) (parse_members E n ob j)"
    and n: "2 * in_len i + 1 \<le> Suc n"
  shows "ends_within (in_len i) (parse_value E (Suc n) out i)"
proof -
  obtain i1 where i1: "skip_ws i = Inr i1" "in_len i1 \<le> in_len i" using skip_ws_len by blast
  obtain ch i2 where g: "getc i1 = (ch, i2)" by (cases "getc i1")
  obtain k where k: "ungetc i2 = Inr k" "in_len k \<le> in_len i1" using getc_ungetc_len [OF g] by auto
  have i2: "in_len i2 \<le> in_len i" using getc_len(1) [OF g] i1(2) by simp
  have less: "ch \<noteq> -1 \<Longrightarrow> in_len i2 < in_len i" using getc_len(2) [OF g] i1(2) by simp
  obtain b1 s1 j1 where s: "parse_string [] i2 = Inr (b1, s1, j1)" "in_len j1 \<le> in_len i2"
    using parse_string_len by blast
  obtain num j2 where num: "parse_number E [] k = Inr (num, j2)" "in_len j2 \<le> in_len k"
    using parse_number_len by blast
  obtain b3 j3 where e3: "expect_ch 93 i2 = Inr (b3, j3)" "in_len j3 \<le> in_len i2"
    using expect_len [of 93 i2] by auto
  obtain b4 j4 where e4: "expect_ch 125 i2 = Inr (b4, j4)" "in_len j4 \<le> in_len i2"
    using expect_len [of 125 i2] by auto
  have m: "ends_within (in_len i) (map_res (\<lambda>(ok, j). (ok, h ok, j)) (match_text ps i2))" for h ps
    using match_len [of ps i2] i2 by (intro ends_within_map) fastforce
  have arr: "ch = 91 \<Longrightarrow> ends_within (in_len i) (parse_items E n [] j3)"
    using less n e3(2) by (intro ends_within_mono [OF items]) simp_all
  have ob: "ch = 123 \<Longrightarrow> ends_within (in_len i) (parse_members E n [] j4)"
    using less n e4(2) by (intro ends_within_mono [OF members]) simp_all
  have dbl: "ends_within (in_len i) (map_res (\<lambda>v. (True, v, j2)) (value_of_double q))" for q
    using num(2) k(2) i1(2) by (simp add: value_of_double_def ends_within_def split: option.split)
  show ?thesis
    using arr ob s(2) i2 num(2) k(2) i1(2) e3(2) e4(2)
    by (simp add: i1(1) g m s(1) k(1) num(1) e3(1) e4(1) dbl split: option.split)
qed

text \<open>The end of both loops: another item after a comma, or the closing character.\<close>

lemma loop_ends:
  assumes more: "\<And>j. 2 * in_len j + 2 \<le> n \<Longrightarrow> ends_within (in_len j) (again j)"
    and n: "2 * in_len i + 2 \<le> Suc n" and j: "in_len j \<le> in_len i" and c: "c \<noteq> -1"
  shows "ends_within (in_len i) (bind_res (expect_ch 44 j) (\<lambda>(more, i2).
         if more then again i2 else map_res (\<lambda>(stop, j). (stop, v, j)) (expect_ch c i2)))"
proof -
  obtain b j1 where e: "expect_ch 44 j = Inr (b, j1)" "in_len j1 \<le> in_len j" "b \<Longrightarrow> in_len j1 < in_len j"
    using expect_len [of 44 j] by auto
  have "\<exists>b k. expect_ch c j1 = Inr (b, k) \<and> in_len k \<le> in_len i"
    using expect_len [OF c, of j1] e(2) j by fastforce
  from ends_within_map [OF this]
  have "ends_within (in_len i) (map_res (\<lambda>(stop, j). (stop, v, j)) (expect_ch c j1))" .
  moreover have "b \<Longrightarrow> ends_within (in_len i) (again j1)"
    using e(3) j n by (intro ends_within_mono [OF more]) simp_all
  ultimately show ?thesis using e(1) by simp
qed

lemma items_ends:
  assumes v: "\<And>out j. 2 * in_len j + 1 \<le> n \<Longrightarrow> ends_within (in_len j) (parse_value E n out j)"
    and items: "\<And>a j. 2 * in_len j + 2 \<le> n \<Longrightarrow> ends_within (in_len j) (parse_items E n a j)"
    and n: "2 * in_len i + 2 \<le> Suc n"
  shows "ends_within (in_len i) (parse_items E (Suc n) a i)"
  unfolding parse_items.simps Let_def
  by (rule ends_within_bind [OF v]) (use n loop_ends [OF items n] in auto)

lemma members_ends:
  assumes v: "\<And>out j. 2 * in_len j + 1 \<le> n \<Longrightarrow> ends_within (in_len j) (parse_value E n out j)"
    and members: "\<And>ob j. 2 * in_len j + 2 \<le> n \<Longrightarrow> ends_within (in_len j) (parse_members E n ob j)"
    and n: "2 * in_len i + 2 \<le> Suc n"
  shows "ends_within (in_len i) (parse_members E (Suc n) ob i)"
proof -
  obtain b1 i1 where e1: "expect_ch 34 i = Inr (b1, i1)" "in_len i1 \<le> in_len i" using expect_len [of 34 i] by auto
  obtain b2 key i2 where e2: "parse_string [] i1 = Inr (b2, key, i2)" "in_len i2 \<le> in_len i1"
    using parse_string_len by blast
  obtain b3 i3 where e3: "expect_ch 58 i2 = Inr (b3, i3)" "in_len i3 \<le> in_len i2"
    using expect_len [of 58 i2] by auto
  have "ends_within (in_len i) (bind_res (parse_value E n (obj_at key ob) i3) (\<lambda>(ok, x, i4).
       let ob' = obj_put key x ob in
       if \<not> ok then Inr (False, JObj ob', i4)
       else bind_res (expect_ch 44 i4) (\<lambda>(more, i5).
         if more then parse_members E n ob' i5
         else map_res (\<lambda>(stop, j). (stop, JObj ob', j)) (expect_ch 125 i5))))"
    unfolding Let_def
    by (rule ends_within_bind [OF v])
       (use e1(2) e2(2) e3(2) n loop_ends [OF members n] in auto)
  then show ?thesis
    using e1(2) e2(2) e3(2) by (simp add: e1(1) e2(1) e3(1))
qed

lemma parse_ends:
  "2 * in_len i + 1 \<le> n \<Longrightarrow> ends_within (in_len i) (parse_value E n out i)"
  "2 * in_len i + 2 \<le> n \<Longrightarrow> ends_within (in_len i) (parse_items E n a i)"
  "2 * in_len i + 2 \<le> n \<Longrightarrow> ends_within (in_len i) (parse_members E n ob i)"
proof (induction n arbitrary: i out a ob)
  case (Suc n)
  { case 1 then show ?case by (intro value_ends Suc.IH) simp_all }
  { case 2 then show ?case by (intro items_ends Suc.IH) simp_all }
  { case 3 then show ?case by (intro members_ends Suc.IH) simp_all }
qed simp_all

lemma in_len_make [simp]: "in_len (input_make s) = length s"
  by (simp add: in_len_def input_make_def)

text \<open>C14. Parsing always ends, and the only exception it throws is the overflow of a number that is too
  large for a \<open>double\<close>; no assertion of the library fails.\<close>

theorem json_parse_total:
  "case json_parse E out s of Inl e \<Rightarrow> e = Std_Overflow_Error | Inr _ \<Rightarrow> True"
  using parse_ends(1) [of "input_make s" "2 * length s + 1" E out]
  by (auto simp: json_parse_def json_parse_at_def ends_within_def bind_res_def map_res_def
      split: sum.splits prod.splits)

section \<open>Objects\<close>

lemma size_member: "p \<in> set ob \<Longrightarrow> size (snd p) < Suc (size_list (size_prod (\<lambda>_. 0) size) ob)"
  by (induction ob) (auto simp: less_Suc_eq_le)

lemma size_item: "x \<in> set a \<Longrightarrow> size x < Suc (size_list size a)"
  by (simp add: size_list_estimation' less_Suc_eq_le)

lemma obj_put_keys: "fst ` set (obj_put key x ob) = insert key (fst ` set ob)"
  by (induction key x ob rule: obj_put.induct) (simp_all add: insert_commute)

lemma obj_put_sorted: "sorted_wrt (<) (map fst ob) \<Longrightarrow> sorted_wrt (<) (map fst (obj_put key x ob))"
proof (induction ob)
  case (Cons p ob)
  obtain k y where p: "p = (k, y)" by (cases p)
  have "set (map fst (obj_put key x ob)) = insert key (fst ` set ob)"
    using obj_put_keys [of key x ob] by simp
  with Cons p show ?case by (force simp: not_less order.order_iff_strict)
qed simp

lemma obj_put_set: "q \<in> set (obj_put key x ob) \<Longrightarrow> q = (key, x) \<or> q \<in> set ob"
  by (induction ob) (auto split: if_splits)

text \<open>An environment, and a text that ends early.\<close>

definition demo_env :: json_env where
  "demo_env = \<lparr>je_point = ''.'', je_fmt17 = (\<lambda>n. if n = 5 / 2 then ''2.5'' else ''0''), je_double = Some\<rparr>"

definition demo_text :: string where
  "demo_text = [CHR ''{'', CHR 0x22, CHR ''b'', CHR 0x22, CHR '':'', CHR ''1'', CHR '','',
     CHR 0x22, CHR ''a'', CHR 0x22, CHR '':'', CHR ''['']"

lemma demo_parse:
  "json_parse demo_env JNull demo_text
   = Inr (JObj [(''a'', JArr [JNull]), (''b'', JNum 1)], ''syntax error at line 1 near: '')"
  by code_simp

section \<open>The two contexts\<close>

definition agrees :: "(bool \<times> jvalue \<times> input) result \<Rightarrow> (bool \<times> input) result \<Rightarrow> bool" where
  "agrees r r' \<longleftrightarrow> r = Inl Std_Overflow_Error \<or> r' = map_res (\<lambda>(ok, v, j). (ok, j)) r"

lemma agrees_refl [simp]:
  "agrees (Inr (ok, v, j)) (Inr (ok', j')) \<longleftrightarrow> ok = ok' \<and> j = j'" "agrees (Inl e) (Inl e)"
  by (auto simp: agrees_def)

lemma agrees_map: "agrees (map_res (\<lambda>(ok, j). (ok, f ok, j)) r) r"
proof (cases r)
  case (Inr x)
  then show ?thesis by (cases x) simp
qed simp

lemma agrees_close: "agrees (map_res (\<lambda>(stop, j). (stop, v, j)) r) r"
  by (rule agrees_map)

lemma agrees_then: "(\<And>x. agrees (f x) (g x)) \<Longrightarrow> agrees (bind_res r f) (bind_res r g)"
  by (cases r) simp_all

lemma agrees_bind:
  assumes "agrees r r'" and "\<And>ok v j. agrees (f (ok, v, j)) (g (ok, j))"
  shows "agrees (bind_res r f) (bind_res r' g)"
proof (cases r)
  case (Inl e)
  then show ?thesis using assms(1) by (auto simp: agrees_def)
next
  case (Inr x)
  obtain ok v j where "x = (ok, v, j)" by (cases x)
  then show ?thesis using Inr assms by (simp add: agrees_def)
qed

lemma agrees_string:
  "agrees (map_res (\<lambda>(ok, s, j). (ok, JStr s, j)) r) (map_res (\<lambda>(ok, s, j). (ok, j)) r)"
  by (cases r) (auto simp: agrees_def)

lemma agrees_false: "agrees (map_res (\<lambda>j. (False, v, j)) r) (map_res (Pair False) r)"
  by (cases r) simp_all

lemma agrees_number: "agrees (map_res (\<lambda>v. (True, v, j)) (value_of_double q)) (Inr (True, j))"
  by (cases q) (simp_all add: value_of_double_def agrees_def)

lemmas agrees_rules = agrees_map agrees_close agrees_string agrees_false agrees_number

lemma contexts_agree:
  "agrees (parse_value E n out i) (null_parse E n i)"
  "agrees (parse_items E n a i) (null_items E n i)"
  "agrees (parse_members E n ob i) (null_members E n i)"
proof (induction n arbitrary: i out a ob)
  case (Suc n)
  { case 1
    show ?case
      unfolding parse_value.simps null_parse.simps
      by (rule agrees_then)
         (auto simp: agrees_rules Suc.IH split: prod.split option.split intro!: agrees_then) }
  { case 2
    show ?case
      unfolding parse_items.simps null_items.simps Let_def
      by (rule agrees_bind [OF Suc.IH(1)])
         (auto simp: agrees_rules Suc.IH split: prod.split intro!: agrees_then) }
  { case 3
    have step: "agrees (bind_res (parse_value E n (obj_at key ob) j) (\<lambda>(ok, x, i4).
             let ob' = obj_put key x ob in
             if \<not> ok then Inr (False, JObj ob', i4)
             else bind_res (expect_ch 44 i4) (\<lambda>(more, i5).
               if more then parse_members E n ob' i5
               else map_res (\<lambda>(stop, j). (stop, JObj ob', j)) (expect_ch 125 i5))))
           (bind_res (null_parse E n j) (\<lambda>(ok, i4).
             if \<not> ok then Inr (False, i4)
             else bind_res (expect_ch 44 i4) (\<lambda>(more, i5).
               if more then null_members E n i5 else expect_ch 125 i5)))" for key j
      unfolding Let_def
      by (rule agrees_bind [OF Suc.IH(1)])
         (auto simp: agrees_rules Suc.IH split: prod.split intro!: agrees_then)
    show ?case
      unfolding parse_members.simps null_members.simps
      by (rule agrees_then) (auto simp: step split: prod.split intro!: agrees_then) }
qed simp_all

text \<open>Parsing for nothing (\<open>null_parse_context\<close>) accepts and consumes exactly what parsing into a
  value does, whatever is in the value before, unless a number overflows.\<close>

theorem json_contexts_agree:
  "parse_value E n out i = Inl Std_Overflow_Error
   \<or> null_parse E n i = map_res (\<lambda>(ok, v, j). (ok, j)) (parse_value E n out i)"
  using contexts_agree(1) [of E n out i] by (simp add: agrees_def)

end
