(* ===== verification/Picojson_Roundtrip.thy ===== *)
theory Picojson_Roundtrip
  imports Picojson_Laws
begin

text \<open>
  The parser of the JSON library reads back what its serializer writes. \<open>sees i cs\<close> says that an
  input, whether a character was pushed back or not, is about to deliver the text \<open>cs\<close>; every
  function of the parser is described by the text it sees before and after.
\<close>

section \<open>What an input delivers\<close>

definition sees :: "input \<Rightarrow> string \<Rightarrow> bool" where
  "sees i cs \<longleftrightarrow>
     (if in_ungot i then (\<exists>c. in_last i = chr_int c \<and> cs = c # in_rest i) else cs = in_rest i)"

lemma sees_make [simp]: "sees (input_make s) s"
  by (simp add: sees_def input_make_def)

lemma sees_len: "sees i cs \<Longrightarrow> in_len i = length cs"
  by (auto simp: sees_def in_len_def split: if_splits)

text \<open>A character that was read can be pushed back.\<close>

lemma getc_sees:
  assumes "sees i (c # cs)"
  shows "\<exists>j k. getc i = (chr_int c, j) \<and> sees j cs \<and> ungetc j = Inr k \<and> sees k (c # cs)"
proof (cases "in_ungot i")
  case True
  then have "in_last i = chr_int c" "cs = in_rest i" using assms by (auto simp: sees_def)
  then show ?thesis using True by (simp add: sees_def getc_def ungetc_def)
next
  case False
  then have "in_rest i = c # cs" using assms by (simp add: sees_def)
  then show ?thesis using False by (simp add: sees_def getc_def ungetc_def)
qed

lemma getc_sees_end:
  assumes "sees i []"
  shows "\<exists>j. getc i = (-1, j) \<and> sees j [] \<and> ungetc j = Inr j"
  using assms by (auto simp: sees_def getc_def ungetc_def split: if_splits)

definition ws_char :: "char \<Rightarrow> bool" where
  "ws_char c \<longleftrightarrow> is_ws (chr_int c)"

lemma skip_ws_sees:
  assumes "list_all ws_char ws" and "\<not> ws_char c" and "sees i (ws @ c # cs)"
  shows "\<exists>j. skip_ws i = Inr j \<and> sees j (c # cs)"
  using assms
proof (induction ws arbitrary: i)
  case Nil
  then obtain j k where "getc i = (chr_int c, j)" "ungetc j = Inr k" "sees k (c # cs)"
    using getc_sees [of i c cs] by auto
  then show ?case using Nil by (simp add: skip_ws.simps [of i] ws_char_def)
next
  case (Cons w ws)
  then obtain j where "getc i = (chr_int w, j)" "sees j (ws @ c # cs)"
    using getc_sees [of i w "ws @ c # cs"] by auto
  then show ?case using Cons by (simp add: skip_ws.simps [of i] ws_char_def)
qed

lemma expect_sees:
  assumes "list_all ws_char ws" and "\<not> ws_char c" and "sees i (ws @ c # cs)"
  shows "\<exists>j. expect_ch e i = Inr (chr_int c = e, j) \<and> sees j (if chr_int c = e then cs else c # cs)"
proof -
  obtain i1 where i1: "skip_ws i = Inr i1" "sees i1 (c # cs)" using skip_ws_sees [OF assms] by auto
  obtain j k where "getc i1 = (chr_int c, j)" "sees j cs" "ungetc j = Inr k" "sees k (c # cs)"
    using getc_sees [OF i1(2)] by auto
  then show ?thesis by (simp add: expect_ch_def i1(1))
qed

lemma match_sees: "sees i (ps @ cs) \<Longrightarrow> \<exists>j. match_text ps i = Inr (True, j) \<and> sees j cs"
proof (induction ps arbitrary: i)
  case Nil
  then show ?case by (simp add: match_text.simps)
next
  case (Cons p ps)
  then obtain j where "getc i = (chr_int p, j)" "sees j (ps @ cs)"
    using getc_sees [of i p "ps @ cs"] by auto
  then show ?case using Cons.IH [of j] by (simp add: match_text.simps)
qed

section \<open>Strings\<close>

lemma chr_int_char_of: "n < 256 \<Longrightarrow> chr_int (char_of n) = int n"
proof -
  assume "n < 256"
  have "chr_int (char_of n) = int (of_char (char_of n))" unfolding chr_int_def by (rule of_nat_of_char [symmetric])
  with \<open>n < 256\<close> show ?thesis by (simp only: of_char_of mod_less)
qed

lemma digit_char_int: "d < 16 \<Longrightarrow> chr_int (digit_char d) = int (if d < 10 then 48 + d else 87 + d)"
  by (simp add: digit_char_def chr_int_char_of)

lemma digit_char_hex: "d < 16 \<Longrightarrow> hex_digit (chr_int (digit_char d)) = Some (int d)"
  by (auto simp: digit_char_int hex_digit_def)

lemma quadhex_loop_sees:
  assumes "list_all (\<lambda>d. d < 16) ds" and "sees i (map digit_char ds @ cs)"
  shows "\<exists>j. quadhex_loop (length ds) u i = Inr (foldl (\<lambda>v d. v * 16 + int d) u ds, j) \<and> sees j cs"
  using assms
proof (induction ds arbitrary: u i)
  case Nil
  then show ?case by simp
next
  case (Cons d ds)
  then obtain j where "getc i = (chr_int (digit_char d), j)" "sees j (map digit_char ds @ cs)"
    using getc_sees [of i "digit_char d" "map digit_char ds @ cs"] by auto
  then show ?case using Cons.IH [of j "u * 16 + int d"] Cons.prems digit_char_hex [of d] by simp
qed

lemma quadhex_sees:
  assumes "n < 65536" and "sees i (show_hex4 n @ cs)"
  shows "\<exists>j. parse_quadhex i = Inr (int n, j) \<and> sees j cs"
proof -
  let ?ds = "[n div 4096 mod 16, n div 256 mod 16, n div 16 mod 16, n mod 16]"
  have step: "m div 16 * 16 + m mod 16 = m" for m :: nat by simp
  have d: "n div 256 = n div 16 div 16" "n div 4096 = n div 16 div 16 div 16"
    by (simp_all add: div_mult2_eq [symmetric])
  have "n div 4096 < 16" using assms(1) by simp
  then have "n div 4096 mod 16 = n div 4096" by simp
  then have eq: "((n div 4096 mod 16 * 16 + n div 256 mod 16) * 16 + n div 16 mod 16) * 16 + n mod 16 = n"
    unfolding d by (simp only: step)
  have "foldl (\<lambda>v d. v * 16 + int d) 0 ?ds =
      int (((n div 4096 mod 16 * 16 + n div 256 mod 16) * 16 + n div 16 mod 16) * 16 + n mod 16)"
    by simp
  then have "foldl (\<lambda>v d. v * 16 + int d) 0 ?ds = int n" by (simp only: eq)
  moreover have "list_all (\<lambda>d. d < 16) ?ds" by simp
  moreover have "map digit_char ?ds = show_hex4 n" "length ?ds = 4" by (simp_all add: show_hex4_def)
  ultimately obtain ds where "list_all (\<lambda>d. d < 16) ds" "map digit_char ds = show_hex4 n" "length ds = 4"
      "foldl (\<lambda>v d. v * 16 + int d) 0 ds = int n"
    by metis
  then show ?thesis
    using quadhex_loop_sees [of ds i cs 0] assms(2) by (simp add: parse_quadhex_def)
qed

lemma ascii_code_sees:
  assumes "chr_int c < 128" and "sees i (show_hex4 (nat (chr_int c)) @ cs)"
  shows "\<exists>j. parse_codepoint out i = Inr (True, out @ [c], j) \<and> sees j cs"
proof -
  obtain j where "parse_quadhex i = Inr (chr_int c, j)" "sees j cs"
    using quadhex_sees [OF _ assms(2)] assms(1) chr_int_range(1) [of c] by force
  then show ?thesis
    using assms(1) by (simp add: parse_codepoint_def utf8_bytes_def)
qed

lemma chr_codes:
  "chr_int (CHR 0x22) = 34" "chr_int (CHR 0x5C) = 92" "chr_int (CHR ''/'') = 47" "chr_int (CHR ''b'') = 98"
  "chr_int (CHR ''f'') = 102" "chr_int (CHR ''n'') = 110" "chr_int (CHR ''r'') = 114"
  "chr_int (CHR ''t'') = 116" "chr_int (CHR ''u'') = 117" "chr_int (CHR '','') = 44" "chr_int (CHR '':'') = 58"
  "chr_int (CHR ''['') = 91" "chr_int (CHR '']'') = 93" "chr_int (CHR ''{'') = 123" "chr_int (CHR ''}'') = 125"
  "chr_int (CHR ''-'') = 45" "chr_int (CHR '' '') = 32" "chr_int (CHR 0x0A) = 10" "chr_int (CHR ''.'') = 46"
  "chr_int (CHR ''+'') = 43" "chr_int (CHR ''e'') = 101" "chr_int (CHR ''E'') = 69"
  by (simp_all add: chr_int_def)

text \<open>An escape of two characters.\<close>

lemma escape_sees:
  assumes "sees i (CHR 0x5C # e # cs)" and "unescape (chr_int e) = Some c"
  shows "\<exists>j. parse_string out i = parse_string (out @ [c]) j \<and> sees j cs"
proof -
  obtain i1 where i1: "getc i = (92, i1)" "sees i1 (e # cs)"
    using getc_sees [OF assms(1)] by (auto simp: chr_codes)
  obtain i2 where i2: "getc i1 = (chr_int e, i2)" "sees i2 cs" using getc_sees [OF i1(2)] by auto
  show ?thesis
    by (rule exI [of _ i2]) (simp add: parse_string.simps [of out i] i1(1) i2 assms(2))
qed

lemma unicode_sees:
  assumes "sees i ([CHR 0x5C, CHR ''u''] @ show_hex4 (nat (chr_int c)) @ cs)" and "chr_int c < 128"
  shows "\<exists>j. parse_string out i = parse_string (out @ [c]) j \<and> sees j cs"
proof -
  obtain i1 where i1: "getc i = (92, i1)" "sees i1 (CHR ''u'' # show_hex4 (nat (chr_int c)) @ cs)"
    using getc_sees [of i "CHR 0x5C"] assms(1) by (auto simp: chr_codes)
  obtain i2 where i2: "getc i1 = (117, i2)" "sees i2 (show_hex4 (nat (chr_int c)) @ cs)"
    using getc_sees [OF i1(2)] by (auto simp: chr_codes)
  obtain i3 where "parse_codepoint out i2 = Inr (True, out @ [c], i3)" "sees i3 cs"
    using ascii_code_sees [OF assms(2) i2(2)] by auto
  then show ?thesis
    by (intro exI [of _ i3]) (simp add: parse_string.simps [of out i] i1(1) i2(1) unescape_def)
qed

lemma escape_table:
  assumes "c \<in> {CHR 0x22, CHR 0x5C, CHR ''/'', CHR 0x08, CHR 0x0C, CHR 0x0A, CHR 0x0D, CHR 0x09}"
  shows "\<exists>e. escape_char c = [CHR 0x5C, e] \<and> unescape (chr_int e) = Some c"
  using assms by (elim insertE emptyE) (simp_all add: escape_char_def unescape_def chr_codes)

lemma char_sees:
  assumes "sees i (escape_char c @ cs)"
  shows "\<exists>j. parse_string out i = parse_string (out @ [c]) j \<and> sees j cs"
proof (cases "\<exists>e. escape_char c = [CHR 0x5C, e] \<and> unescape (chr_int e) = Some c")
  case True
  then show ?thesis using assms escape_sees by fastforce
next
  case False
  then have ne: "c \<noteq> CHR 0x22" "c \<noteq> CHR 0x5C" "c \<noteq> CHR ''/''" "c \<noteq> CHR 0x08" "c \<noteq> CHR 0x0C" "c \<noteq> CHR 0x0A"
      "c \<noteq> CHR 0x0D" "c \<noteq> CHR 0x09"
    using escape_table [of c] by auto
  then have esc: "escape_char c = (if chr_int c < 32 \<or> chr_int c = 127
      then [CHR 0x5C, CHR ''u''] @ show_hex4 (nat (chr_int c)) else [c])"
    by (simp add: escape_char_def)
  show ?thesis
  proof (cases "chr_int c < 32 \<or> chr_int c = 127")
    case True
    then show ?thesis using assms unicode_sees [of i c cs out] by (auto simp: esc)
  next
    case plain: False
    then obtain j where j: "getc i = (chr_int c, j)" "sees j cs"
      using getc_sees [of i c cs] assms by (auto simp: esc)
    moreover have "chr_int c \<noteq> 34" "chr_int c \<noteq> 92"
      using ne(1,2) chr_int_eq [of c "CHR 0x22"] chr_int_eq [of c "CHR 0x5C"] unfolding chr_codes by blast+
    ultimately show ?thesis
      using plain by (intro exI [of _ j]) (simp add: parse_string.simps [of out i])
  qed
qed

lemma parse_string_sees:
  assumes "sees i (concat (map escape_char s) @ CHR 0x22 # cs)"
  shows "\<exists>j. parse_string out i = Inr (True, out @ s, j) \<and> sees j cs"
  using assms
proof (induction s arbitrary: i out)
  case Nil
  then obtain j where "getc i = (34, j)" "sees j cs"
    using getc_sees [of i "CHR 0x22" cs] by (auto simp: chr_codes)
  then show ?case by (simp add: parse_string.simps [of out i])
next
  case (Cons c s)
  then obtain j where "parse_string out i = parse_string (out @ [c]) j"
      "sees j (concat (map escape_char s) @ CHR 0x22 # cs)"
    using char_sees [of i c "concat (map escape_char s) @ CHR 0x22 # cs" out] by auto
  then show ?case using Cons.IH [of j "out @ [c]"] by simp
qed

section \<open>Numbers\<close>

lemma is_digit_char: "d < 10 \<Longrightarrow> is_digit (digit_char d)"
  by (simp add: is_digit_def digit_char_int)

lemma show_nat_digits: "list_all is_digit (show_nat n) \<and> show_nat n \<noteq> []"
proof (induction n rule: show_nat.induct)
  case (1 n)
  then show ?case by (simp add: show_nat.simps [of n] is_digit_char)
qed

lemma digits_val_snoc: "digits_val (ds @ [c]) = 10 * digits_val ds + (chr_int c - 48)"
  by (simp add: digits_val_def)

lemma digits_val_show: "digits_val (show_nat n) = int n"
proof (induction n rule: show_nat.induct)
  case (1 n)
  show ?case
  proof (cases "n < 10")
    case True
    then show ?thesis by (simp add: show_nat.simps [of n] digits_val_def digit_char_int)
  next
    case False
    have "digits_val (show_nat n) = 10 * int (n div 10) + int (n mod 10)"
      using False 1 by (simp add: show_nat.simps [of n] digits_val_snoc digit_char_int)
    also have "\<dots> = int n" using mult_div_mod_eq [of 10 n] by linarith
    finally show ?thesis .
  qed
qed

lemma digit_not_sign: "is_digit c \<Longrightarrow> c \<noteq> CHR ''-'' \<and> c \<noteq> CHR ''+''"
  by (auto simp: is_digit_def chr_codes)

lemma take_sign_show: "take_sign (show_nat n) = (1, show_nat n)"
  using show_nat_digits [of n] digit_not_sign by (cases "show_nat n") (auto simp: take_sign_def)

lemma digits_span: "list_all is_digit ds \<Longrightarrow> takeWhile is_digit ds = ds \<and> dropWhile is_digit ds = []"
  by (simp add: list_all_iff)

lemma strtod_sign:
  assumes "take_sign s = (sg, show_nat n)"
  shows "strtod ''.'' s = Some (of_int (sg * int n))"
  using assms show_nat_digits [of n]
  by (simp add: strtod_def digits_span take_fraction_def take_exponent_def digits_val_show pow10_def Let_def)

lemma strtod_show_int: "strtod ''.'' (show_int k) = Some (of_int k)"
proof (cases "k < 0")
  case True
  then have "take_sign (show_int k) = (-1, show_nat (nat (- k)))" by (simp add: show_int_def take_sign_def)
  from strtod_sign [OF this] True show ?thesis by simp
next
  case False
  then have "take_sign (show_int k) = (1, show_nat (nat k))" by (simp add: show_int_def take_sign_show)
  from strtod_sign [OF this] False show ?thesis by simp
qed

definition num_char :: "char \<Rightarrow> bool" where
  "num_char c \<longleftrightarrow> is_digit c \<or> c \<in> set ''+-eE.''"

definition num_start :: "string \<Rightarrow> bool" where
  "num_start t \<longleftrightarrow> t \<noteq> [] \<and> (is_digit (hd t) \<or> hd t = CHR ''-'')"

lemma show_int_chars: "list_all num_char (show_int k) \<and> num_start (show_int k)"
proof -
  have "list_all num_char (show_nat n)" "num_start (show_nat n)" for n
    using show_nat_digits [of n]
    by (auto simp: num_char_def num_start_def list_all_iff intro: hd_in_set)
  then show ?thesis by (auto simp: show_int_def num_char_def num_start_def)
qed

text \<open>A number that can be written and read: integral and below \<open>2^53\<close>, or written by \<open>%.17g\<close> as a number that
  is read as the same \<open>double\<close>.\<close>

definition number_ok :: "json_env \<Rightarrow> rat \<Rightarrow> bool" where
  "number_ok E n \<longleftrightarrow>
     (if \<bar>n\<bar> < 9007199254740992 \<and> of_int \<lfloor>n\<rfloor> = n then je_double E n = Some n
      else list_all num_char (je_fmt17 E n) \<and> num_start (je_fmt17 E n)
        \<and> (case strtod ''.'' (je_fmt17 E n) of None \<Rightarrow> False | Some q \<Rightarrow> je_double E q = Some n))"

lemma show_number_ok:
  assumes "je_point E = ''.''" and "number_ok E n"
  shows "list_all num_char (show_number E n) \<and> num_start (show_number E n)
    \<and> (\<exists>q. strtod ''.'' (show_number E n) = Some q \<and> je_double E q = Some n)"
  using assms show_int_chars [of "\<lfloor>n\<rfloor>"] strtod_show_int [of "\<lfloor>n\<rfloor>"]
  by (auto simp: show_number_def number_ok_def Let_def split: if_splits option.splits)

definition stops :: "string \<Rightarrow> bool" where
  "stops cs \<longleftrightarrow> cs = [] \<or> \<not> num_char (hd cs)"

lemma num_char_code:
  "num_char c \<longleftrightarrow> (48 \<le> chr_int c \<and> chr_int c \<le> 57) \<or> chr_int c = 43 \<or> chr_int c = 45
     \<or> chr_int c = 101 \<or> chr_int c = 69 \<or> chr_int c = 46"
proof -
  have "chr_int c = 43 \<longleftrightarrow> c = CHR ''+''" "chr_int c = 45 \<longleftrightarrow> c = CHR ''-''" "chr_int c = 101 \<longleftrightarrow> c = CHR ''e''"
      "chr_int c = 69 \<longleftrightarrow> c = CHR ''E''" "chr_int c = 46 \<longleftrightarrow> c = CHR ''.''"
    using chr_int_eq [of c] chr_codes by metis+
  then show ?thesis by (auto simp: num_char_def is_digit_def)
qed

lemma parse_number_stop:
  assumes "stops cs" and "sees i cs"
  shows "\<exists>j. parse_number E acc i = Inr (acc, j) \<and> sees j cs"
proof (cases cs)
  case Nil
  then obtain j where "getc i = (-1, j)" "sees j []" "ungetc j = Inr j" using getc_sees_end assms(2) by blast
  then show ?thesis using Nil by (simp add: parse_number.simps [of E acc i])
next
  case (Cons c rest)
  then obtain j k where "getc i = (chr_int c, j)" "ungetc j = Inr k" "sees k (c # rest)"
    using getc_sees assms(2) by blast
  moreover have "\<not> num_char c" using assms(1) Cons by (simp add: stops_def)
  ultimately show ?thesis using Cons by (auto simp: parse_number.simps [of E acc i] num_char_code)
qed

lemma parse_number_sees:
  assumes "je_point E = ''.''" and "list_all num_char t" and "stops cs" and "sees i (t @ cs)"
  shows "\<exists>j. parse_number E acc i = Inr (acc @ t, j) \<and> sees j cs"
  using assms(2,4)
proof (induction t arbitrary: acc i)
  case Nil
  then show ?case using parse_number_stop [OF assms(3)] by simp
next
  case (Cons c t)
  then obtain j where j: "getc i = (chr_int c, j)" "sees j (t @ cs)" using getc_sees [of i c "t @ cs"] by auto
  have "parse_number E acc i = parse_number E (acc @ [c]) j"
  proof (cases "chr_int c = 46")
    case True
    then have "c = CHR ''.''" using chr_int_eq [of c "CHR ''.''"] chr_codes by metis
    then show ?thesis using j(1) assms(1) by (simp add: parse_number.simps [of E acc i] chr_codes)
  next
    case False
    then show ?thesis using j(1) Cons.prems(1) by (auto simp: parse_number.simps [of E acc i] num_char_code)
  qed
  then show ?case using Cons.IH [of j "acc @ [c]"] Cons.prems(1) j(2) by simp
qed

section \<open>Values\<close>

function json_ok :: "json_env \<Rightarrow> jvalue \<Rightarrow> bool" where
  "json_ok E JNull = True"
| "json_ok E (JBool b) = True"
| "json_ok E (JNum n) = number_ok E n"
| "json_ok E (JStr s) = True"
| "json_ok E (JArr a) = (\<forall>x \<in> set a. json_ok E x)"
| "json_ok E (JObj ob) = (sorted_wrt (<) (map fst ob) \<and> (\<forall>p \<in> set ob. json_ok E (snd p)))"
  by pat_completeness auto

termination
  by (relation "measure (\<lambda>(E, v). size v)") (simp_all add: size_member size_item)

text \<open>What a text says: a tree whose objects are lists of members, in any order, also with repeated keys. What it means:
  each object has its members in the order of their keys, as a \<open>std::map\<close> has, each with the last value
  that the text gives for it.\<close>

primrec numbers_ok :: "json_env \<Rightarrow> jvalue \<Rightarrow> bool" where
  "numbers_ok E JNull = True"
| "numbers_ok E (JBool b) = True"
| "numbers_ok E (JNum n) = number_ok E n"
| "numbers_ok E (JStr s) = True"
| "numbers_ok E (JArr a) = list_all id (map (numbers_ok E) a)"
| "numbers_ok E (JObj ob) = list_all snd (map (map_prod id (numbers_ok E)) ob)"

definition last_members :: "(string \<times> 'a) list \<Rightarrow> (string \<times> 'a) list" where
  "last_members ob = map (\<lambda>k. (k, the (map_of (rev ob) k))) (sorted_list_of_set (fst ` set ob))"

primrec json_meaning :: "jvalue \<Rightarrow> jvalue" where
  "json_meaning JNull = JNull"
| "json_meaning (JBool b) = JBool b"
| "json_meaning (JNum n) = JNum n"
| "json_meaning (JStr s) = JStr s"
| "json_meaning (JArr a) = JArr (map json_meaning a)"
| "json_meaning (JObj ob) = JObj (last_members (map (map_prod id json_meaning) ob))"

abbreviation put_members :: "(string \<times> jvalue) list \<Rightarrow> (string \<times> jvalue) list \<Rightarrow> (string \<times> jvalue) list" where
  "put_members ms ob \<equiv> fold (\<lambda>(k, x). obj_put k x) ms ob"

lemma obj_put_lookup: "map_of (obj_put k x ob) = (map_of ob)(k \<mapsto> x)"
  by (induction k x ob rule: obj_put.induct) (auto simp: fun_eq_iff)

lemma put_members_lookup: "map_of (put_members ms ob) = map_of ob ++ map_of (rev ms)"
  by (induction ms arbitrary: ob) (auto simp: obj_put_lookup fun_eq_iff map_add_def split: option.split)

lemma put_members_keys: "sorted_wrt (<) (map fst ob) \<Longrightarrow> sorted_wrt (<) (map fst (put_members ms ob))
    \<and> set (map fst (put_members ms ob)) = fst ` set ob \<union> fst ` set ms"
proof (induction ms arbitrary: ob)
  case (Cons m ms)
  obtain k x where m: "m = (k, x)" by (cases m)
  show ?case
    using Cons.IH [of "obj_put k x ob"] obj_put_sorted [OF Cons.prems, of k x] obj_put_keys [of k x ob] by (auto simp: m)
qed simp

lemma assoc_by_keys: "distinct (map fst kvs) \<Longrightarrow> kvs = map (\<lambda>k. (k, the (map_of kvs k))) (map fst kvs)"
proof -
  assume "distinct (map fst kvs)"
  then have "map (\<lambda>p. (fst p, the (map_of kvs (fst p)))) kvs = kvs" by (intro map_idI) (auto simp: map_of_is_SomeI)
  then show ?thesis by (simp add: comp_def)
qed

lemma put_members_last: "put_members ms [] = last_members ms"
proof -
  let ?ob = "put_members ms []"
  have s: "sorted_wrt (<) (map fst ?ob)" "set (map fst ?ob) = fst ` set ms"
    using put_members_keys [of "[]" ms] by simp_all
  then have "map fst ?ob = sorted_list_of_set (fst ` set ms)"
    by (metis finite_imageI finite_set sorted_list_of_set.idem_if_sorted_distinct strict_sorted_iff)
  moreover have "distinct (map fst ?ob)" using s(1) by (simp add: strict_sorted_iff)
  ultimately show ?thesis
    using assoc_by_keys [of ?ob] by (simp add: last_members_def put_members_lookup)
qed

text \<open>A value means itself when its objects are maps.\<close>

lemma last_members_sorted: "sorted_wrt (<) (map fst ob) \<Longrightarrow> last_members ob = ob"
proof -
  assume s: "sorted_wrt (<) (map fst ob)"
  then have d: "distinct (map fst ob)" by (simp add: strict_sorted_iff)
  have "sorted_list_of_set (fst ` set ob) = map fst ob"
    using s sorted_list_of_set.idem_if_sorted_distinct [of "map fst ob"] by (simp add: strict_sorted_iff)
  moreover have "map_of (rev ob) = map_of ob" by (rule ext) (metis d distinct_rev map_of_eq_Some_iff not_None_eq rev_map set_rev)
  ultimately show ?thesis using assoc_by_keys [OF d] by (simp add: last_members_def)
qed

lemma map_prod_keys: "map fst (map (map_prod id f) ob) = map fst ob"
  by (induction ob) auto

lemma json_ok_meaning: "json_ok E v \<Longrightarrow> numbers_ok E v \<and> json_meaning v = v"
proof (induction v)
  case (JArr a)
  then show ?case by (auto simp: list_all_iff map_idI)
next
  case (JObj ob)
  have each: "\<forall>p \<in> set ob. numbers_ok E (snd p) \<and> json_meaning (snd p) = snd p"
    using JObj by (force simp: snds.simps)
  then have "map (map_prod id json_meaning) ob = ob" by (intro map_idI) (auto simp: map_prod_def split: prod.split)
  then show ?case using JObj.prems each last_members_sorted by (auto simp: list_all_iff)
qed simp_all

text \<open>What is written of a value before the newline that follows the outermost one.\<close>

definition value_text :: "json_env \<Rightarrow> int \<Rightarrow> jvalue \<Rightarrow> string" where
  "value_text E indent v =
     (case v of
        JStr s \<Rightarrow> serialize_str s
      | JArr a \<Rightarrow>
          (let inner = (if indent \<noteq> -1 then indent + 1 else indent) in
           ''['' @ serialize_items E inner True a
           @ (if inner \<noteq> -1 \<and> a \<noteq> [] then indent_str (inner - 1) else []) @ '']'')
      | JObj ob \<Rightarrow>
          (let inner = (if indent \<noteq> -1 then indent + 1 else indent) in
           ''{'' @ serialize_members E inner True ob
           @ (if inner \<noteq> -1 \<and> ob \<noteq> [] then indent_str (inner - 1) else []) @ ''}'')
      | _ \<Rightarrow> to_str E v)"

lemma serialize_text: "serialize_value E indent v = value_text E indent v @ (if indent = 0 then [CHR 0x0A] else [])"
  by (simp add: serialize_value.simps [of E indent v] value_text_def)

definition inner_indent :: "int \<Rightarrow> int" where
  "inner_indent indent = (if indent \<noteq> -1 then indent + 1 else indent)"

lemma inner_text:
  "-1 \<le> indent \<Longrightarrow> serialize_value E (inner_indent indent) v = value_text E (inner_indent indent) v"
  by (simp add: serialize_text inner_indent_def)

lemma indent_ws: "list_all ws_char (indent_str k)" "list_all ws_char []" "list_all ws_char '' ''"
  by (auto simp: indent_str_def ws_char_def is_ws_def chr_codes list_all_iff)

text \<open>The first character of a value.\<close>

definition value_start :: "char \<Rightarrow> bool" where
  "value_start c \<longleftrightarrow> \<not> ws_char c \<and> c \<notin> set '']}''"

lemma digit_start: "is_digit c \<or> c = CHR ''-'' \<Longrightarrow> value_start c"
  by (auto simp: value_start_def is_digit_def ws_char_def is_ws_def chr_codes)

lemma value_text_start:
  assumes "je_point E = ''.''" and "numbers_ok E v"
  shows "\<exists>c cs. value_text E indent v = c # cs \<and> value_start c"
proof (cases v)
  case (JNum n)
  then have "num_start (show_number E n)" using show_number_ok [OF assms(1)] assms(2) by simp
  then show ?thesis
    using digit_start JNum by (cases "show_number E n") (auto simp: value_text_def num_start_def)
qed (auto simp: value_text_def Let_def serialize_str_def value_start_def ws_char_def is_ws_def chr_codes)

text \<open>What a value promises to the parser of what contains it.\<close>

definition reads_value :: "json_env \<Rightarrow> jvalue \<Rightarrow> bool" where
  "reads_value E v \<longleftrightarrow> (\<forall>indent n out i ws cs.
     -1 \<le> indent \<longrightarrow> list_all ws_char ws \<longrightarrow> stops cs \<longrightarrow> sees i (ws @ value_text E indent v @ cs)
     \<longrightarrow> 2 * in_len i + 1 \<le> n \<longrightarrow> (\<exists>j. parse_value E n out i = Inr (True, json_meaning v, j) \<and> sees j cs))"

lemma reads_valueD:
  assumes "reads_value E v" and "-1 \<le> indent" and "list_all ws_char ws" and "stops cs"
    and "sees i (ws @ value_text E indent v @ cs)" and "2 * in_len i + 1 \<le> n"
  shows "\<exists>j. parse_value E n out i = Inr (True, json_meaning v, j) \<and> sees j cs"
  using assms unfolding reads_value_def by blast

text \<open>The first character decides.\<close>

lemma value_dispatch:
  assumes "list_all ws_char ws" and "\<not> ws_char c" and "sees i (ws @ c # cs)"
  shows "\<exists>i1 i2 k. skip_ws i = Inr i1 \<and> getc i1 = (chr_int c, i2) \<and> sees i2 cs
    \<and> ungetc i2 = Inr k \<and> sees k (c # cs)"
proof -
  obtain i1 where i1: "skip_ws i = Inr i1" "sees i1 (c # cs)" using skip_ws_sees [OF assms] by auto
  from getc_sees [OF i1(2)] i1(1) show ?thesis by blast
qed

lemma literal_sees:
  assumes "list_all ws_char ws" and "stops cs" and "v = JNull \<or> v = JBool b"
    and "sees i (ws @ to_str E v @ cs)"
  shows "\<exists>j. parse_value E (Suc n) out i = Inr (True, v, j) \<and> sees j cs"
proof -
  have "\<exists>j. parse_value E (Suc n) out i = Inr (True, v, j) \<and> sees j cs"
    if t: "to_str E v = c # ps" "\<not> ws_char c"
      and p: "\<And>i1 i2 j. skip_ws i = Inr i1 \<Longrightarrow> getc i1 = (chr_int c, i2) \<Longrightarrow> match_text ps i2 = Inr (True, j)
        \<Longrightarrow> parse_value E (Suc n) out i = Inr (True, v, j)" for c ps
  proof -
    have "sees i (ws @ c # ps @ cs)" using assms(4) t(1) by simp
    from value_dispatch [OF assms(1) t(2) this] obtain i1 i2
      where i: "skip_ws i = Inr i1" "getc i1 = (chr_int c, i2)" "sees i2 (ps @ cs)" by blast
    from match_sees [OF i(3)] obtain j where "match_text ps i2 = Inr (True, j)" "sees j cs" by blast
    then show ?thesis using p [OF i(1,2)] by blast
  qed
  note rule = this
  have ws: "\<not> ws_char (CHR ''n'')" "\<not> ws_char (CHR ''t'')" "\<not> ws_char (CHR ''f'')"
    by (simp_all add: ws_char_def is_ws_def chr_codes)
  consider "v = JNull" | "v = JBool True" | "v = JBool False" using assms(3) by (cases b) auto
  then show ?thesis
  proof cases
    case 1
    show ?thesis by (rule rule [OF _ ws(1), of "''ull''"]) (simp_all add: 1 chr_codes)
  next
    case 2
    show ?thesis by (rule rule [OF _ ws(2), of "''rue''"]) (simp_all add: 2 chr_codes)
  next
    case 3
    show ?thesis by (rule rule [OF _ ws(3), of "''alse''"]) (simp_all add: 3 chr_codes)
  qed
qed

lemma string_sees:
  assumes "list_all ws_char ws" and "sees i (ws @ serialize_str s @ cs)"
  shows "\<exists>j. parse_value E (Suc n) out i = Inr (True, JStr s, j) \<and> sees j cs"
proof -
  have "\<not> ws_char (CHR 0x22)" by (simp add: ws_char_def is_ws_def chr_codes)
  moreover have "sees i (ws @ CHR 0x22 # concat (map escape_char s) @ CHR 0x22 # cs)"
    using assms(2) by (simp add: serialize_str_def)
  ultimately obtain i1 i2 where i: "skip_ws i = Inr i1" "getc i1 = (34, i2)"
      "sees i2 (concat (map escape_char s) @ CHR 0x22 # cs)"
    using value_dispatch [OF assms(1), of "CHR 0x22" i] chr_codes(1) by metis
  from parse_string_sees [OF i(3), of "[]"] show ?thesis by (auto simp: i(1,2))
qed

lemma number_sees:
  assumes "je_point E = ''.''" and "number_ok E q" and "list_all ws_char ws" and "stops cs"
    and "sees i (ws @ show_number E q @ cs)"
  shows "\<exists>j. parse_value E (Suc n) out i = Inr (True, JNum q, j) \<and> sees j cs"
proof -
  obtain f where t: "list_all num_char (show_number E q)" "num_start (show_number E q)"
      "strtod ''.'' (show_number E q) = Some f" "je_double E f = Some q"
    using show_number_ok [OF assms(1,2)] by blast
  obtain c ts where ts: "show_number E q = c # ts" "is_digit c \<or> c = CHR ''-''"
    using t(2) by (cases "show_number E q") (auto simp: num_start_def)
  have "\<not> ws_char c" using digit_start [OF ts(2)] by (simp add: value_start_def)
  moreover have "sees i (ws @ c # ts @ cs)" using assms(5) ts(1) by simp
  ultimately obtain i1 i2 k where i: "skip_ws i = Inr i1" "getc i1 = (chr_int c, i2)" "ungetc i2 = Inr k"
      "sees k (c # ts @ cs)"
    using value_dispatch [OF assms(3)] by metis
  obtain j where j: "parse_number E [] k = Inr (c # ts, j)" "sees j cs"
    using parse_number_sees [OF assms(1) t(1) assms(4), of k "[]"] i(4) ts(1) by auto
  have code: "(48 \<le> chr_int c \<and> chr_int c \<le> 57) \<or> chr_int c = 45"
    using ts(2) by (auto simp: is_digit_def chr_codes)
  then have "chr_int c \<notin> {110, 102, 116, 34, 91, 123}" by auto
  then show ?thesis
    using code j t(3,4) i(1-3) by (auto simp: ts(1) assms(1) value_of_double_def)
qed

lemma inner_ge: "-1 \<le> indent \<Longrightarrow> -1 \<le> inner_indent indent"
  by (simp add: inner_indent_def)

text \<open>The rest of an array, from an item on.\<close>

lemma stops_char: "c \<in> set '',]}'' \<or> ws_char c \<Longrightarrow> stops (c # cs)"
  by (auto simp: stops_def num_char_code ws_char_def is_ws_def chr_codes)

lemma stops_close: "list_all ws_char ws \<Longrightarrow> c \<in> set '',]}'' \<Longrightarrow> stops (ws @ c # cs)"
  using stops_char by (cases ws) auto

lemma not_ws_chars: "\<not> ws_char (CHR '','')" "\<not> ws_char (CHR '']'')" "\<not> ws_char (CHR ''}'')"
    "\<not> ws_char (CHR '':'')" "\<not> ws_char (CHR 0x22)" "\<not> ws_char (CHR ''['')" "\<not> ws_char (CHR ''{'')"
  by (simp_all add: ws_char_def is_ws_def chr_codes)

lemma close_sees:
  assumes "list_all ws_char ws" and "c = CHR '']'' \<or> c = CHR ''}''" and "sees i (ws @ c # cs)"
  shows "\<exists>j k. expect_ch 44 i = Inr (False, j) \<and> expect_ch (chr_int c) j = Inr (True, k) \<and> sees k cs"
proof -
  have c: "\<not> ws_char c" "chr_int c \<noteq> 44" using assms(2) not_ws_chars by (auto simp: chr_codes)
  obtain j where j: "expect_ch 44 i = Inr (False, j)" "sees j (c # cs)"
    using expect_sees [OF assms(1) c(1) assms(3), of 44] c(2) by auto
  obtain k where "expect_ch (chr_int c) j = Inr (True, k)" "sees k cs"
    using expect_sees [of "[]" c j cs "chr_int c"] c(1) j(2) by auto
  then show ?thesis using j(1) by blast
qed

lemma items_read:
  assumes "-1 \<le> indent" and "list_all ws_char ws" and "list_all ws_char wse"
    and "\<forall>y \<in> set (x # xs). reads_value E y"
    and "sees i (ws @ value_text E (inner_indent indent) x
           @ serialize_items E (inner_indent indent) False xs @ wse @ CHR '']'' # cs)"
    and "2 * in_len i + 2 \<le> n"
  shows "\<exists>j. parse_items E n a i = Inr (True, JArr (a @ map json_meaning (x # xs)), j) \<and> sees j cs"
  using assms(2,4-6)
proof (induction xs arbitrary: x ws i n a)
  case Nil
  obtain m where n: "n = Suc m" using Nil.prems(4) by (cases n) auto
  obtain j where j: "parse_value E m JNull i = Inr (True, json_meaning x, j)" "sees j (wse @ CHR '']'' # cs)"
    using reads_valueD [of E x "inner_indent indent" ws "wse @ CHR '']'' # cs" i m JNull] Nil.prems assms(1)
      stops_close [OF assms(3), of "CHR '']''"] by (auto simp: n inner_indent_def split: if_splits)
  from close_sees [OF assms(3) _ j(2)] show ?case by (auto simp: n j(1) chr_codes)
next
  case (Cons y ys)
  obtain m where n: "n = Suc m" using Cons.prems(4) by (cases n) auto
  let ?pre = "if inner_indent indent \<noteq> -1 then indent_str (inner_indent indent) else []"
  let ?rest = "?pre @ value_text E (inner_indent indent) y
     @ serialize_items E (inner_indent indent) False ys @ wse @ CHR '']'' # cs"
  have txt_eq: "serialize_items E (inner_indent indent) False (y # ys) @ wse @ CHR '']'' # cs = CHR '','' # ?rest"
    using inner_text [OF assms(1)] by simp
  have sees: "sees i (ws @ value_text E (inner_indent indent) x @ CHR '','' # ?rest)"
    using Cons.prems(3) txt_eq by (simp del: serialize_items.simps)
  obtain j where j: "parse_value E m JNull i = Inr (True, json_meaning x, j)" "sees j (CHR '','' # ?rest)"
    using reads_valueD [of E x "inner_indent indent" ws _ i m JNull, OF _ inner_ge [OF assms(1)] _ _ sees]
      Cons.prems(1,2,4) stops_char [of "CHR '',''"] by (auto simp: n)
  obtain k where k: "expect_ch 44 j = Inr (True, k)" "sees k ?rest"
    using expect_sees [of "[]" "CHR '',''" j ?rest 44] not_ws_chars j(2) by (auto simp: chr_codes)
  have len: "2 * in_len k + 2 \<le> m"
    using sees_len [OF sees] sees_len [OF k(2)] Cons.prems(4) n by simp
  have ws: "list_all ws_char ?pre" using indent_ws by simp
  from Cons.IH [OF ws _ k(2) len, of "a @ [json_meaning x]"] Cons.prems(2)
  obtain l where "parse_items E m (a @ [json_meaning x]) k = Inr (True, JArr (a @ map json_meaning (x # y # ys)), l)" "sees l cs" by auto
  then show ?case by (simp add: n j(1) k(1))
qed

text \<open>The rest of an object, from a member on.\<close>

definition colon_space :: "int \<Rightarrow> string" where
  "colon_space indent = (if indent \<noteq> -1 then '' '' else [])"

lemma colon_space_ws: "list_all ws_char (colon_space indent)"
  using indent_ws by (simp add: colon_space_def)

lemma member_sees:
  assumes "list_all ws_char ws" and "sees i (ws @ serialize_str k @ CHR '':'' # cs)"
  shows "\<exists>i1 i2 i3. expect_ch 34 i = Inr (True, i1) \<and> parse_string [] i1 = Inr (True, k, i2)
    \<and> expect_ch 58 i2 = Inr (True, i3) \<and> sees i3 cs"
proof -
  have "sees i (ws @ CHR 0x22 # concat (map escape_char k) @ CHR 0x22 # CHR '':'' # cs)"
    using assms(2) by (simp add: serialize_str_def)
  then obtain i1 where i1: "expect_ch 34 i = Inr (True, i1)"
      "sees i1 (concat (map escape_char k) @ CHR 0x22 # CHR '':'' # cs)"
    using expect_sees [OF assms(1) not_ws_chars(5), of i _ 34] by (auto simp: chr_codes)
  obtain i2 where i2: "parse_string [] i1 = Inr (True, k, i2)" "sees i2 (CHR '':'' # cs)"
    using parse_string_sees [OF i1(2), of "[]"] by auto
  obtain i3 where "expect_ch 58 i2 = Inr (True, i3)" "sees i3 cs"
    using expect_sees [of "[]" "CHR '':''" i2 cs 58] not_ws_chars(4) i2(2) by (auto simp: chr_codes)
  then show ?thesis using i1(1) i2(1) by blast
qed

lemma members_read:
  assumes "-1 \<le> indent" and "list_all ws_char ws" and "list_all ws_char wse"
    and "\<forall>p \<in> set ((k, x) # ms). reads_value E (snd p)"
    and "sees i (ws @ serialize_str k @ CHR '':'' # colon_space (inner_indent indent)
           @ value_text E (inner_indent indent) x
           @ serialize_members E (inner_indent indent) False ms @ wse @ CHR ''}'' # cs)"
    and "2 * in_len i + 2 \<le> n"
  shows "\<exists>j. parse_members E n ob i = Inr (True, JObj (put_members (map (map_prod id json_meaning) ((k, x) # ms)) ob), j) \<and> sees j cs"
  using assms(2,4-6)
proof (induction ms arbitrary: k x ws i n ob)
  case Nil
  obtain m where n: "n = Suc m" using Nil.prems(4) by (cases n) auto
  obtain i1 i2 i3 where i: "expect_ch 34 i = Inr (True, i1)" "parse_string [] i1 = Inr (True, k, i2)"
      "expect_ch 58 i2 = Inr (True, i3)"
      "sees i3 (colon_space (inner_indent indent) @ value_text E (inner_indent indent) x @ wse @ CHR ''}'' # cs)"
    using member_sees [OF Nil.prems(1,3)] by auto
  have len: "2 * in_len i3 + 1 \<le> m"
    using sees_len [OF i(4)] sees_len [OF Nil.prems(3)] Nil.prems(4) n by simp
  obtain j where j: "parse_value E m (obj_at k ob) i3 = Inr (True, json_meaning x, j)" "sees j (wse @ CHR ''}'' # cs)"
    using reads_valueD [OF _ inner_ge [OF assms(1)] colon_space_ws stops_close [OF assms(3), of "CHR ''}''"] i(4) len]
      Nil.prems(2) by auto
  from close_sees [OF assms(3) _ j(2)] show ?case by (auto simp: n i(1-3) j(1) chr_codes id_def)
next
  case (Cons q ms)
  obtain k' y where q: "q = (k', y)" by (cases q)
  obtain m where n: "n = Suc m" using Cons.prems(4) by (cases n) auto
  let ?pre = "if inner_indent indent \<noteq> -1 then indent_str (inner_indent indent) else []"
  let ?rest = "?pre @ serialize_str k' @ CHR '':'' # colon_space (inner_indent indent)
     @ value_text E (inner_indent indent) y
     @ serialize_members E (inner_indent indent) False ms @ wse @ CHR ''}'' # cs"
  have txt_eq: "serialize_members E (inner_indent indent) False (q # ms) @ wse @ CHR ''}'' # cs = CHR '','' # ?rest"
    using inner_text [OF assms(1)] q by (simp add: colon_space_def)
  have sees: "sees i (ws @ serialize_str k @ CHR '':'' # colon_space (inner_indent indent)
      @ value_text E (inner_indent indent) x @ CHR '','' # ?rest)"
    using Cons.prems(3) txt_eq by (simp del: serialize_members.simps)
  obtain i1 i2 i3 where i: "expect_ch 34 i = Inr (True, i1)" "parse_string [] i1 = Inr (True, k, i2)"
      "expect_ch 58 i2 = Inr (True, i3)"
      "sees i3 (colon_space (inner_indent indent) @ value_text E (inner_indent indent) x @ CHR '','' # ?rest)"
    using member_sees [OF Cons.prems(1) sees] by auto
  have len3: "2 * in_len i3 + 1 \<le> m"
    using sees_len [OF i(4)] sees_len [OF sees] Cons.prems(4) n by simp
  obtain j where j: "parse_value E m (obj_at k ob) i3 = Inr (True, json_meaning x, j)" "sees j (CHR '','' # ?rest)"
    using reads_valueD [OF _ inner_ge [OF assms(1)] colon_space_ws stops_char i(4) len3] Cons.prems(2) by auto
  obtain l where l: "expect_ch 44 j = Inr (True, l)" "sees l ?rest"
    using expect_sees [of "[]" "CHR '',''" j ?rest 44] not_ws_chars j(2) by (auto simp: chr_codes)
  have len: "2 * in_len l + 2 \<le> m"
    using sees_len [OF sees] sees_len [OF l(2)] Cons.prems(4) n by simp
  have ws: "list_all ws_char ?pre" using indent_ws by simp
  have "\<exists>j. parse_members E m (obj_put k (json_meaning x) ob) l
      = Inr (True, JObj (put_members (map (map_prod id json_meaning) ((k', y) # ms)) (obj_put k (json_meaning x) ob)), j) \<and> sees j cs"
    by (rule Cons.IH [OF ws _ l(2) len]) (use Cons.prems(2) q in auto)
  then show ?case by (auto simp: n i(1-3) j(1) l(1) q id_def)
qed

text \<open>An opening bracket, and whether the closing one follows.\<close>

lemma open_empty:
  assumes "list_all ws_char ws" and "\<not> ws_char b" and "\<not> ws_char e" and "sees i (ws @ b # e # cs)"
  shows "\<exists>i1 i2 j. skip_ws i = Inr i1 \<and> getc i1 = (chr_int b, i2) \<and> expect_ch (chr_int e) i2 = Inr (True, j)
    \<and> sees j cs"
proof -
  obtain i1 i2 where i: "skip_ws i = Inr i1" "getc i1 = (chr_int b, i2)" "sees i2 (e # cs)"
    using value_dispatch [OF assms(1,2,4)] by blast
  have "\<exists>j. expect_ch (chr_int e) i2 = Inr (True, j) \<and> sees j cs"
    using expect_sees [of "[]" e i2 cs "chr_int e"] assms(3) i(3) by auto
  then show ?thesis using i(1,2) by blast
qed

lemma open_nonempty:
  assumes "list_all ws_char ws" and "\<not> ws_char b" and "list_all ws_char pre" and "\<not> ws_char c" and "c \<noteq> e"
    and "sees i (ws @ b # pre @ c # cs)"
  shows "\<exists>i1 i2 j. skip_ws i = Inr i1 \<and> getc i1 = (chr_int b, i2) \<and> expect_ch (chr_int e) i2 = Inr (False, j)
    \<and> sees j (c # cs) \<and> in_len j < in_len i"
proof -
  obtain i1 i2 where i: "skip_ws i = Inr i1" "getc i1 = (chr_int b, i2)" "sees i2 (pre @ c # cs)"
    using value_dispatch [OF assms(1,2,6)] by blast
  obtain j where j: "expect_ch (chr_int e) i2 = Inr (False, j)" "sees j (c # cs)"
    using expect_sees [OF assms(3,4) i(3), of "chr_int e"] assms(5) by auto
  have "in_len j < in_len i" using sees_len [OF assms(6)] sees_len [OF j(2)] by simp
  then show ?thesis using i(1,2) j by blast
qed

definition closing_ws :: "int \<Rightarrow> string" where
  "closing_ws indent = (if inner_indent indent \<noteq> -1 then indent_str (inner_indent indent - 1) else [])"

lemma closing_ws_ws: "list_all ws_char (closing_ws indent)"
  using indent_ws by (simp add: closing_ws_def)

lemma array_sees:
  assumes pt: "je_point E = ''.''" and ok: "numbers_ok E (JArr a)" and IH: "\<forall>x \<in> set a. reads_value E x"
  shows "reads_value E (JArr a)"
  unfolding reads_value_def
proof (intro allI impI)
  fix indent :: int and n out i ws cs
  assume ind: "-1 \<le> indent" and ws: "list_all ws_char ws" and "stops cs"
    and sees: "sees i (ws @ value_text E indent (JArr a) @ cs)" and n: "2 * in_len i + 1 \<le> n"
  obtain m where m: "n = Suc m" using n by (cases n) auto
  show "\<exists>j. parse_value E n out i = Inr (True, json_meaning (JArr a), j) \<and> sees j cs"
  proof (cases a)
    case Nil
    then have "sees i (ws @ CHR ''['' # CHR '']'' # cs)"
      using sees by (simp add: value_text_def Let_def)
    from open_empty [OF ws not_ws_chars(6) not_ws_chars(2) this] show ?thesis
      using Nil by (auto simp: m chr_codes)
  next
    case (Cons x xs)
    let ?pre = "if inner_indent indent \<noteq> -1 then indent_str (inner_indent indent) else []"
    let ?more = "serialize_items E (inner_indent indent) False xs @ closing_ws indent @ CHR '']'' # cs"
    obtain c ts where c: "value_text E (inner_indent indent) x = c # ts" "value_start c"
      using value_text_start [OF pt, of x "inner_indent indent"] ok Cons by auto
    then have start: "\<not> ws_char c" "c \<noteq> CHR '']''" by (auto simp: value_start_def)
    have pre: "list_all ws_char ?pre" using indent_ws by simp
    have "value_text E indent (JArr a) @ cs
        = CHR ''['' # ?pre @ value_text E (inner_indent indent) x @ ?more"
      using inner_text [OF ind] Cons
      by (simp add: value_text_def [of E indent] Let_def closing_ws_def flip: inner_indent_def)
    then have "sees i (ws @ CHR ''['' # ?pre @ c # ts @ ?more)" using sees c(1) by simp
    from open_nonempty [OF ws not_ws_chars(6) pre start this] obtain i1 i2 j
      where j: "skip_ws i = Inr i1" "getc i1 = (91, i2)" "expect_ch 93 i2 = Inr (False, j)"
        "sees j (c # ts @ ?more)" "in_len j < in_len i"
      by (auto simp: chr_codes)
    have "\<exists>k. parse_items E m [] j = Inr (True, JArr ([] @ map json_meaning (x # xs)), k) \<and> sees k cs"
    proof (rule items_read [OF ind _ closing_ws_ws])
      show "list_all ws_char []" by simp
      show "\<forall>y \<in> set (x # xs). reads_value E y" using IH Cons by simp
      show "sees j ([] @ value_text E (inner_indent indent) x @ ?more)" using j(4) c(1) by simp
      show "2 * in_len j + 2 \<le> m" using j(5) n m by simp
    qed
    then show ?thesis using Cons by (auto simp: m j(1-3))
  qed
qed

lemma object_sees:
  assumes IH: "\<forall>p \<in> set ob. reads_value E (snd p)"
  shows "reads_value E (JObj ob)"
  unfolding reads_value_def
proof (intro allI impI)
  fix indent :: int and n out i ws cs
  assume ind: "-1 \<le> indent" and ws: "list_all ws_char ws" and "stops cs"
    and sees: "sees i (ws @ value_text E indent (JObj ob) @ cs)" and n: "2 * in_len i + 1 \<le> n"
  obtain m where m: "n = Suc m" using n by (cases n) auto
  show "\<exists>j. parse_value E n out i = Inr (True, json_meaning (JObj ob), j) \<and> sees j cs"
  proof (cases ob)
    case Nil
    then have "sees i (ws @ CHR ''{'' # CHR ''}'' # cs)"
      using sees by (simp add: value_text_def Let_def)
    from open_empty [OF ws not_ws_chars(7) not_ws_chars(3) this] show ?thesis
      using Nil by (auto simp: m chr_codes last_members_def)
  next
    case (Cons p ms)
    obtain k x where p: "p = (k, x)" by (cases p)
    let ?pre = "if inner_indent indent \<noteq> -1 then indent_str (inner_indent indent) else []"
    let ?more = "CHR '':'' # colon_space (inner_indent indent) @ value_text E (inner_indent indent) x
      @ serialize_members E (inner_indent indent) False ms @ closing_ws indent @ CHR ''}'' # cs"
    obtain ts where k: "serialize_str k = CHR 0x22 # ts" by (simp add: serialize_str_def)
    have pre: "list_all ws_char ?pre" using indent_ws by simp
    have "value_text E indent (JObj ob) @ cs = CHR ''{'' # ?pre @ serialize_str k @ ?more"
      using inner_text [OF ind] Cons p
      by (simp add: value_text_def [of E indent] Let_def closing_ws_def colon_space_def flip: inner_indent_def)
    then have "sees i (ws @ CHR ''{'' # ?pre @ CHR 0x22 # ts @ ?more)" using sees k by simp
    from open_nonempty [OF ws not_ws_chars(7) pre not_ws_chars(5) _ this, of "CHR ''}''"] obtain i1 i2 j
      where j: "skip_ws i = Inr i1" "getc i1 = (123, i2)" "expect_ch 125 i2 = Inr (False, j)"
        "sees j (CHR 0x22 # ts @ ?more)" "in_len j < in_len i"
      by (auto simp: chr_codes)
    have "\<exists>l. parse_members E m [] j = Inr (True, JObj (put_members (map (map_prod id json_meaning) ((k, x) # ms)) []), l) \<and> sees l cs"
    proof (rule members_read [OF ind _ closing_ws_ws])
      show "list_all ws_char []" by simp
      show "\<forall>p \<in> set ((k, x) # ms). reads_value E (snd p)" using IH Cons p by simp
      show "sees j ([] @ serialize_str k @ ?more)" using j(4) k by simp
      show "2 * in_len j + 2 \<le> m" using j(5) n m by simp
    qed
    then show ?thesis using Cons p put_members_last [of "map (map_prod id json_meaning) ob"] by (auto simp: m j(1-3))
  qed
qed

lemma all_read:
  assumes "je_point E = ''.''"
  shows "numbers_ok E v \<Longrightarrow> reads_value E v"
proof (induction v)
  case (JArr a)
  then show ?case by (intro array_sees [OF assms]) (simp_all add: list_all_iff)
next
  case (JObj ob)
  then show ?case
    by (intro object_sees) (force simp: snds.simps list_all_iff)+
next
  case (JNum q)
  then have "number_ok E q" by simp
  then show ?case
    using number_sees [OF assms] by (auto simp: reads_value_def value_text_def dest!: Suc_le_D)
next
  case (JStr s)
  show ?case
    using string_sees by (auto simp: reads_value_def value_text_def dest!: Suc_le_D)
qed (auto simp: reads_value_def value_text_def dest!: Suc_le_D simp del: parse_value.simps
       intro!: literal_sees)

lemma parse_serialized:
  assumes "je_point E = ''.''" and "numbers_ok E v"
  shows "json_parse E out (json_serialize E prettify v) = Inr (json_meaning v, [])"
proof -
  let ?indent = "if prettify then 0 else -1 :: int"
  let ?tl = "if ?indent = 0 then [CHR 0x0A] else []"
  let ?s = "json_serialize E prettify v"
  have s: "?s = value_text E ?indent v @ ?tl" by (simp only: json_serialize_def serialize_text)
  have "stops ?tl" using stops_char [of "CHR 0x0A"] by (simp add: ws_char_def is_ws_def chr_codes stops_def)
  moreover have "sees (input_make ?s) ([] @ value_text E ?indent v @ ?tl)"
    using sees_make [of ?s] by (simp only: s append_Nil)
  moreover have "-1 \<le> ?indent" "list_all ws_char []" "2 * in_len (input_make ?s) + 1 \<le> 2 * length ?s + 1"
    by simp_all
  ultimately obtain j where "parse_value E (2 * length ?s + 1) out (input_make ?s) = Inr (True, json_meaning v, j)"
    using reads_valueD [OF all_read [OF assms]] by metis
  then show ?thesis by (simp add: json_parse_def json_parse_at_def)
qed

lemma serialize_parse:
  assumes "je_point E = ''.''" and "json_ok E v"
  shows "json_parse E out (json_serialize E prettify v) = Inr (v, [])"
  using parse_serialized [OF assms(1)] json_ok_meaning [OF assms(2)] by simp

section \<open>Properties\<close>

text \<open>C7. What is serialized, prettified or not, is read back as the same value without an error,
  for every value whose objects are maps and whose numbers are integral and below \<open>2^53\<close>, or
  written by \<open>%.17g\<close> such that they can be read. What was in the variable does not matter.\<close>

theorem json_roundtrip:
  assumes "je_point E = ''.''" and "json_ok E v"
  shows "json_parse E out (json_serialize E prettify v) = Inr (v, [])"
  by (rule serialize_parse [OF assms])

definition demo_doc :: jvalue where
  "demo_doc = JObj [(''a'', JArr [JNum (-3), JNum (5 / 2), JStr [CHR 0x22, CHR 0x01], JArr []]),
     (''b'', JObj []), (''c'', JBool True)]"

lemma demo_ok: "je_point demo_env = ''.''" "json_ok demo_env demo_doc"
proof -
  have "strtod ''.'' ''2.5'' = Some (5 / 2)"
    by (simp add: strtod_def take_sign_def is_digit_def chr_int_def take_fraction_def take_exponent_def
        digits_val_def pow10_def Let_def)
  moreover have "\<lfloor>5 / 2 :: rat\<rfloor> = 2" by (simp add: floor_eq_iff)
  ultimately show "json_ok demo_env demo_doc"
    by (simp add: demo_doc_def demo_env_def number_ok_def num_start_def num_char_def is_digit_def chr_int_def
        less_char_def)
qed (simp add: demo_env_def)

theorem json_roundtrip_witness:
  "json_parse demo_env (JNum 7) (json_serialize demo_env True demo_doc) = Inr (demo_doc, [])"
  by (rule json_roundtrip [OF demo_ok])

lemma last_members_lookup:
  "sorted_wrt (<) (map fst (last_members ob)) \<and> map_of (last_members ob) = map_of (rev ob)"
proof
  show "sorted_wrt (<) (map fst (last_members ob))"
    by (simp add: last_members_def comp_def)
  have "map_of (map (\<lambda>k. (k, f k)) ks) k = (if k \<in> set ks then Some (f k) else None)" for f :: "string \<Rightarrow> 'a" and ks k
    by (induction ks) auto
  then have "map_of (last_members ob) k = (if k \<in> fst ` set ob then Some (the (map_of (rev ob) k)) else None)" for k
    by (simp add: last_members_def)
  moreover have "map_of (rev ob) k = None \<longleftrightarrow> k \<notin> fst ` set ob" for k by (simp add: map_of_eq_None_iff)
  ultimately show "map_of (last_members ob) = map_of (rev ob)"
    by (intro ext) (metis option.collapse)
qed

text \<open>C28. Texts with the members of their objects in any order, also repeated. The parser reads every one of them to its end, without
  an error, and what it leaves is what the text says: at each level every key that occurs has the last value given
  for it, no other key is there, and the members are in the order of their keys. The text is that of a tree
  written prettified or not, its numbers as they can be read back; what was in the variable does not matter.\<close>

theorem json_members_read:
  assumes "je_point E = ''.''" and "numbers_ok E v"
  shows "json_parse E out (json_serialize E prettify v) = Inr (json_meaning v, [])
    \<and> (\<forall>ob. v = JObj ob \<longrightarrow> (\<exists>ob'. json_meaning v = JObj ob' \<and> sorted_wrt (<) (map fst ob')
         \<and> (\<forall>k. map_of ob' k = map_option json_meaning (map_of (rev ob) k))))"
proof -
  have "map_of (rev (map (map_prod id json_meaning) ob)) k = map_option json_meaning (map_of (rev ob) k)"
    for ob :: "(string \<times> jvalue) list" and k
    using map_of_map [of json_meaning "rev ob"] by (simp add: rev_map map_prod_def id_def fun_eq_iff)
  then have "\<exists>ob'. json_meaning v = JObj ob' \<and> sorted_wrt (<) (map fst ob')
      \<and> (\<forall>k. map_of ob' k = map_option json_meaning (map_of (rev ob) k))" if "v = JObj ob" for ob
    using last_members_lookup [of "map (map_prod id json_meaning) ob"] that
    by (intro exI [of _ "last_members (map (map_prod id json_meaning) ob)"]) simp
  then show ?thesis using parse_serialized [OF assms] by blast
qed

definition unordered_doc :: jvalue where
  "unordered_doc = JObj [(''b'', JNum 1), (''a'', JArr [JObj [(''d'', JNull), (''c'', JBool True)]]), (''b'', JNum 2)]"

theorem json_members_read_witness:
  "json_parse demo_env JNull (json_serialize demo_env False unordered_doc)
   = Inr (JObj [(''a'', JArr [JObj [(''c'', JBool True), (''d'', JNull)]]), (''b'', JNum 2)], [])"
proof -
  have "json_meaning unordered_doc = JObj [(''a'', JArr [JObj [(''c'', JBool True), (''d'', JNull)]]), (''b'', JNum 2)]"
    by code_simp
  moreover have "numbers_ok demo_env unordered_doc" by (simp add: unordered_doc_def demo_env_def number_ok_def)
  ultimately show ?thesis using json_members_read [OF demo_ok(1), of unordered_doc JNull False] by simp
qed

end
