(* ===== verification/Document.thy ===== *)
theory Document
  imports Midi Picojson_Roundtrip
begin

text \<open>
  Reading a configuration: the records of \<^verbatim>\<open>framework/include/framework/config/description.hpp\<close> and
  \<^verbatim>\<open>framework/config/document.cpp\<close>, on the JSON values of the library. The file system is a parameter: a
  path leads to the contents of a file or to none. The numbers of a description that the code does not
  initialise are options. Members of objects are visited in the order of their keys, as the iteration
  over a \<open>std::map\<close> does.

  The reference writer \<open>desc_json\<close> builds the document of a description; the round trip says that the
  code reads back exactly what a document says.
\<close>

section \<open>The description\<close>

record s_linux_sys =
  lx_policy :: string
  lx_priority :: int
  lx_affinity :: "int option"

record s_controller =
  ct_label :: string
  ct_port :: string
  ct_led_on :: "8 word"
  ct_led_off :: "8 word"

record s_link =
  lk_from :: string
  lk_plug :: string
  lk_to :: string
  lk_jack :: string

record s_config =
  cf_type :: string
  cf_value :: string

record s_binding =
  bd_name :: string
  bd_module :: string
  bd_code :: int

record s_leds =
  ld_state :: string
  ld_device :: string
  ld_mode :: string
  ld_code :: int
  ld_value :: "8 word"

record s_unit =
  su_label :: string
  su_unit :: string
  su_library :: string
  su_configs :: "s_config list"
  su_bindings :: "s_binding list"
  su_leds :: "s_leds list"

record description =
  ds_workers :: "int option"
  ds_linux :: s_linux_sys
  ds_controllers :: "s_controller list"
  ds_mainlines :: "string list"
  ds_daisychains :: "s_link list"
  ds_units :: "s_unit list"

text \<open>What \<open>load\<close> starts with.\<close>

definition description_new :: description where
  "description_new = \<lparr>ds_workers = None,
     ds_linux = \<lparr>lx_policy = ''SCHED_OTHER'', lx_priority = 0, lx_affinity = None\<rparr>,
     ds_controllers = [], ds_mainlines = [], ds_daisychains = [], ds_units = []\<rparr>"

section \<open>Units\<close>

text \<open>The conversions of the members of an object.\<close>

definition get_text :: "jvalue \<Rightarrow> string \<Rightarrow> string result" where
  "get_text v key = bind_res (get_key v key) get_string"

definition get_int :: "jvalue \<Rightarrow> string \<Rightarrow> int result" where
  "get_int v key = bind_res (get_key v key) (\<lambda>c. bind_res (get_double c) cast_int)"

definition get_byte :: "jvalue \<Rightarrow> string \<Rightarrow> 8 word result" where
  "get_byte v key = bind_res (get_key v key) (\<lambda>c. bind_res (get_double c) cast_byte)"

text \<open>\<open>a.get(k1).is<null>() || a.get(k2).is<null>() || \<dots>\<close>\<close>

fun some_null :: "jvalue \<Rightarrow> string list \<Rightarrow> bool result" where
  "some_null v [] = Inr False"
| "some_null v (k # ks) = bind_res (get_key v k) (\<lambda>x. if is_null x then Inr True else some_null v ks)"

fun bindings_loop :: "(string \<times> jvalue) list \<Rightarrow> s_unit \<Rightarrow> s_unit result" where
  "bindings_loop [] unit = Inr unit"
| "bindings_loop ((method, b) # bits) unit =
     bind_res (some_null b [''module'', ''code'']) (\<lambda>skip.
       if skip then bindings_loop bits unit
       else bind_res (get_text b ''module'') (\<lambda>modul.
         bind_res (get_int b ''code'') (\<lambda>code.
           bindings_loop bits (unit\<lparr>su_bindings := su_bindings unit @
             [\<lparr>bd_name = method, bd_module = modul, bd_code = code\<rparr>]\<rparr>))))"

definition parse_bindings :: "s_unit \<Rightarrow> jvalue \<Rightarrow> s_unit result" where
  "parse_bindings unit v = bind_res (get_object v) (\<lambda>ob. bindings_loop ob unit)"

fun leds_loop :: "(string \<times> jvalue) list \<Rightarrow> s_unit \<Rightarrow> s_unit result" where
  "leds_loop [] unit = Inr unit"
| "leds_loop ((state, b) # bits) unit =
     bind_res (some_null b [''module'', ''code'', ''mode'']) (\<lambda>skip.
       if skip then leds_loop bits unit
       else bind_res (get_text b ''module'') (\<lambda>modul.
         bind_res (get_int b ''code'') (\<lambda>code.
         bind_res (get_byte b ''value'') (\<lambda>val.
         bind_res (get_text b ''mode'') (\<lambda>mode.
           leds_loop bits (unit\<lparr>su_leds := su_leds unit @
             [\<lparr>ld_state = state, ld_device = modul, ld_mode = mode, ld_code = code, ld_value = val\<rparr>]\<rparr>))))))"

definition parse_leds :: "s_unit \<Rightarrow> jvalue \<Rightarrow> s_unit result" where
  "parse_leds unit v = bind_res (get_object v) (\<lambda>ob. leds_loop ob unit)"

fun configs_loop :: "(string \<times> jvalue) list \<Rightarrow> s_unit \<Rightarrow> s_unit result" where
  "configs_loop [] unit = Inr unit"
| "configs_loop ((ty, x) # its) unit =
     bind_res (get_string x) (\<lambda>val.
       configs_loop its (unit\<lparr>su_configs := su_configs unit @ [\<lparr>cf_type = ty, cf_value = val\<rparr>]\<rparr>))"

text \<open>A member that may be missing, and what is done with it otherwise.\<close>

definition opt_member :: "jvalue \<Rightarrow> string \<Rightarrow> (jvalue \<Rightarrow> 'a \<Rightarrow> 'a result) \<Rightarrow> 'a \<Rightarrow> 'a result" where
  "opt_member v key f x = bind_res (get_key v key) (\<lambda>cv. if is_null cv then Inr x else f cv x)"

definition unit_members :: "string \<Rightarrow> jvalue \<Rightarrow> s_unit result" where
  "unit_members label v =
     (let unit = \<lparr>su_label = label, su_unit = [], su_library = [], su_configs = [], su_bindings = [], su_leds = []\<rparr> in
      bind_res (opt_member v ''library'' (\<lambda>cv u. map_res (\<lambda>s. u\<lparr>su_library := s\<rparr>) (get_string cv)) unit) (\<lambda>unit.
      bind_res (opt_member v ''unit'' (\<lambda>cv u. map_res (\<lambda>s. u\<lparr>su_unit := s\<rparr>) (get_string cv)) unit) (\<lambda>unit.
      bind_res (opt_member v ''bindings'' (\<lambda>cv u. parse_bindings u cv) unit) (\<lambda>unit.
      bind_res (opt_member v ''leds'' (\<lambda>cv u. parse_leds u cv) unit) (\<lambda>unit.
        opt_member v ''config'' (\<lambda>cv u. bind_res (get_object cv) (\<lambda>ob. configs_loop ob u)) unit)))))"

definition parse_unit :: "string \<Rightarrow> jvalue \<Rightarrow> description \<Rightarrow> description result" where
  "parse_unit label v d =
     (if \<exists>u \<in> set (ds_units d). su_label u = label then Inr d
      else map_res (\<lambda>unit. d\<lparr>ds_units := ds_units d @ [unit]\<rparr>) (unit_members label v))"

section \<open>The rack\<close>

fun mainlines_loop :: "jvalue list \<Rightarrow> description \<Rightarrow> description result" where
  "mainlines_loop [] d = Inr d"
| "mainlines_loop (m # ms) d =
     bind_res (get_text m ''plug'') (\<lambda>p. mainlines_loop ms (d\<lparr>ds_mainlines := ds_mainlines d @ [p]\<rparr>))"

fun daisychains_loop :: "jvalue \<Rightarrow> jvalue list \<Rightarrow> description \<Rightarrow> description result" where
  "daisychains_loop v [] d = Inr d"
| "daisychains_loop v (it # its) d =
     bind_res (get_text it ''from'') (\<lambda>fm.
     bind_res (get_text it ''plug'') (\<lambda>pl.
     bind_res (get_text it ''to'') (\<lambda>to.
     bind_res (get_text it ''jack'') (\<lambda>jk.
       let d1 = d\<lparr>ds_daisychains := ds_daisychains d @
             [\<lparr>lk_from = fm, lk_plug = pl, lk_to = to, lk_jack = jk\<rparr>]\<rparr> in
       bind_res (get_key v to) (\<lambda>uv.
         if is_null uv then daisychains_loop v its d1
         else bind_res (parse_unit to uv d1) (daisychains_loop v its))))))"

definition parse_rack :: "jvalue \<Rightarrow> description \<Rightarrow> description result" where
  "parse_rack v d =
     bind_res (bind_res (get_key v ''mainlines'') get_array) (\<lambda>mlines.
     bind_res (mainlines_loop mlines d) (\<lambda>d1.
     bind_res (bind_res (get_key v ''daisychains'') get_array) (\<lambda>chains.
       daisychains_loop v chains d1)))"

section \<open>The document\<close>

definition set_linux :: "(s_linux_sys \<Rightarrow> s_linux_sys) \<Rightarrow> description \<Rightarrow> description" where
  "set_linux f d = d\<lparr>ds_linux := f (ds_linux d)\<rparr>"

definition parse_syslinux :: "jvalue \<Rightarrow> description \<Rightarrow> description result" where
  "parse_syslinux v d =
     bind_res (opt_member v ''sched_policy''
       (\<lambda>cv d. map_res (\<lambda>p. set_linux (lx_policy_update (\<lambda>_. p)) d) (get_string cv)) d) (\<lambda>d.
     bind_res (opt_member v ''sched_priority''
       (\<lambda>cv d. map_res (\<lambda>p. set_linux (lx_priority_update (\<lambda>_. p)) d)
          (bind_res (get_double cv) cast_int)) d) (\<lambda>d.
     bind_res (get_key v ''cpu_affinity'') (\<lambda>cv.
       if is_null cv then Inr (set_linux (lx_affinity_update (\<lambda>_. Some (-1))) d)
       else map_res (\<lambda>a. set_linux (lx_affinity_update (\<lambda>_. Some a)) d)
              (bind_res (get_double cv) cast_int))))"

text \<open>The loop of \<open>parse_document\<close> over the members of \<open>system\<close>; \<open>threads\<close> ends it.\<close>

fun system_loop :: "(string \<times> jvalue) list \<Rightarrow> description \<Rightarrow> description result" where
  "system_loop [] d = Inr d"
| "system_loop ((key, x) # ms) d =
     (if key = ''threads'' then
        bind_res (get_key x ''workers'') (\<lambda>cv.
          if is_null cv then Inr d
          else map_res (\<lambda>n. d\<lparr>ds_workers := Some n\<rparr>) (bind_res (get_double cv) cast_int))
      else if key = ''linux'' then bind_res (parse_syslinux x d) (system_loop ms)
      else system_loop ms d)"

text \<open>The loop over the controllers; \<open>True\<close> when it returned from \<open>parse_document\<close>.\<close>

fun controllers_loop :: "(string \<times> jvalue) list \<Rightarrow> description \<Rightarrow> (bool \<times> description) result" where
  "controllers_loop [] d = Inr (False, d)"
| "controllers_loop ((label, details) # ms) d =
     bind_res (get_key details ''port'') (\<lambda>dv.
       if is_null dv then Inr (True, d)
       else bind_res (get_string dv) (\<lambda>port.
         let controller = \<lparr>ct_label = label, ct_port = port, ct_led_on = 0, ct_led_off = 0\<rparr> in
         bind_res (opt_member details ''led_on''
           (\<lambda>dv c. map_res (\<lambda>b. c\<lparr>ct_led_on := b\<rparr>) (bind_res (get_double dv) cast_byte)) controller) (\<lambda>controller.
         bind_res (opt_member details ''led_off''
           (\<lambda>dv c. map_res (\<lambda>b. c\<lparr>ct_led_off := b\<rparr>) (bind_res (get_double dv) cast_byte)) controller) (\<lambda>controller.
           controllers_loop ms (d\<lparr>ds_controllers := ds_controllers d @ [controller]\<rparr>)))))"

datatype element_type = root_element | system_element

definition parse_document_system :: "jvalue \<Rightarrow> description \<Rightarrow> description result" where
  "parse_document_system v d = (if is_object v then bind_res (get_object v) (\<lambda>obj. system_loop obj d) else Inr d)"

fun root_loop :: "(string \<times> jvalue) list \<Rightarrow> description \<Rightarrow> description result" where
  "root_loop [] d = Inr d"
| "root_loop ((key, x) # ms) d =
     (if key = ''system'' then bind_res (parse_document_system x d) (root_loop ms)
      else if key = ''rack'' then bind_res (parse_rack x d) (root_loop ms)
      else if key = ''midi'' then
        bind_res (get_object x) (\<lambda>obj.
        bind_res (controllers_loop obj d) (\<lambda>(returned, d1).
          if returned then Inr d1 else root_loop ms d1))
      else root_loop ms d)"

definition parse_document :: "jvalue \<Rightarrow> element_type \<Rightarrow> description \<Rightarrow> description result" where
  "parse_document v element d =
     (case element of
        system_element \<Rightarrow> parse_document_system v d
      | root_element \<Rightarrow> if is_object v then bind_res (get_object v) (\<lambda>obj. root_loop obj d) else Inr d)"

text \<open>\<open>load_file\<close> ends the program when there is no file; \<open>load\<close> prints the error of the JSON library and
  goes on with what was read.\<close>

definition load_file :: "(string \<Rightarrow> string option) \<Rightarrow> string \<Rightarrow> string result" where
  "load_file files path = (case files path of None \<Rightarrow> Inl Exit_Program | Some config \<Rightarrow> Inr config)"

definition document_load :: "json_env \<Rightarrow> (string \<Rightarrow> string option) \<Rightarrow> string \<Rightarrow> description result" where
  "document_load E files path =
     bind_res (load_file files path) (\<lambda>config.
     bind_res (json_parse E JNull config) (\<lambda>(v, err).
       parse_document v root_element description_new))"

section \<open>The reference writer\<close>

definition mk_obj :: "(string \<times> jvalue) list \<Rightarrow> jvalue" where
  "mk_obj kvs = JObj (fold (\<lambda>(k, x). obj_put k x) kvs [])"

definition json_int :: "int \<Rightarrow> jvalue" where
  "json_int i = JNum (of_int i)"

definition json_byte :: "8 word \<Rightarrow> jvalue" where
  "json_byte b = JNum (of_int (uint b))"

definition binding_json :: "s_binding \<Rightarrow> string \<times> jvalue" where
  "binding_json b = (bd_name b, mk_obj [(''module'', JStr (bd_module b)), (''code'', json_int (bd_code b))])"

definition led_json :: "s_leds \<Rightarrow> string \<times> jvalue" where
  "led_json l = (ld_state l, mk_obj [(''module'', JStr (ld_device l)), (''code'', json_int (ld_code l)),
     (''value'', json_byte (ld_value l)), (''mode'', JStr (ld_mode l))])"

definition config_json :: "s_config \<Rightarrow> string \<times> jvalue" where
  "config_json c = (cf_type c, JStr (cf_value c))"

definition unit_json :: "s_unit \<Rightarrow> jvalue" where
  "unit_json u = mk_obj [(''library'', JStr (su_library u)), (''unit'', JStr (su_unit u)),
     (''bindings'', JObj (map binding_json (su_bindings u))), (''leds'', JObj (map led_json (su_leds u))),
     (''config'', JObj (map config_json (su_configs u)))]"

definition link_json :: "s_link \<Rightarrow> jvalue" where
  "link_json l = mk_obj [(''from'', JStr (lk_from l)), (''plug'', JStr (lk_plug l)), (''to'', JStr (lk_to l)),
     (''jack'', JStr (lk_jack l))]"

definition rack_json :: "description \<Rightarrow> jvalue" where
  "rack_json d = mk_obj (map (\<lambda>u. (su_label u, unit_json u)) (ds_units d) @
     [(''mainlines'', JArr (map (\<lambda>p. mk_obj [(''plug'', JStr p)]) (ds_mainlines d))),
      (''daisychains'', JArr (map link_json (ds_daisychains d)))])"

definition controller_json :: "s_controller \<Rightarrow> string \<times> jvalue" where
  "controller_json c = (ct_label c, mk_obj [(''port'', JStr (ct_port c)), (''led_on'', json_byte (ct_led_on c)),
     (''led_off'', json_byte (ct_led_off c))])"

definition linux_json :: "s_linux_sys \<Rightarrow> jvalue" where
  "linux_json l = mk_obj [(''sched_policy'', JStr (lx_policy l)), (''sched_priority'', json_int (lx_priority l)),
     (''cpu_affinity'', json_int (the (lx_affinity l)))]"

definition desc_json :: "description \<Rightarrow> jvalue" where
  "desc_json d = mk_obj
     [(''midi'', JObj (map controller_json (ds_controllers d))), (''rack'', rack_json d),
      (''system'', mk_obj [(''linux'', linux_json (ds_linux d)),
                           (''threads'', mk_obj [(''workers'', json_int (the (ds_workers d)))])])]"

text \<open>The order in which the units of the daisychains come up first.\<close>

fun firsts :: "string list \<Rightarrow> string list \<Rightarrow> string list" where
  "firsts seen [] = []"
| "firsts seen (t # ts) = (if t \<in> set seen then firsts seen ts else t # firsts (seen @ [t]) ts)"

definition unit_ok :: "s_unit \<Rightarrow> bool" where
  "unit_ok u \<longleftrightarrow>
     sorted_wrt (<) (map bd_name (su_bindings u)) \<and> list_all (\<lambda>b. int_range (bd_code b)) (su_bindings u)
   \<and> sorted_wrt (<) (map ld_state (su_leds u)) \<and> list_all (\<lambda>l. int_range (ld_code l)) (su_leds u)
   \<and> sorted_wrt (<) (map cf_type (su_configs u))"

text \<open>The descriptions a document can say: everything initialised, the entries of an object in the order of
  their keys, the units in the order of their first appearance in a daisychain.\<close>

definition desc_ok :: "description \<Rightarrow> bool" where
  "desc_ok d \<longleftrightarrow>
     (case ds_workers d of None \<Rightarrow> False | Some n \<Rightarrow> int_range n)
   \<and> (case lx_affinity (ds_linux d) of None \<Rightarrow> False | Some a \<Rightarrow> int_range a)
   \<and> int_range (lx_priority (ds_linux d))
   \<and> sorted_wrt (<) (map ct_label (ds_controllers d))
   \<and> list_all (\<lambda>l. lk_to l \<noteq> ''mainlines'' \<and> lk_to l \<noteq> ''daisychains'') (ds_daisychains d)
   \<and> map su_label (ds_units d) =
       firsts [] (filter (\<lambda>t. t \<in> set (map su_label (ds_units d))) (map lk_to (ds_daisychains d)))
   \<and> list_all unit_ok (ds_units d)"

section \<open>Reading what was written\<close>

lemma map_of_obj_put: "map_of (obj_put k x ob) = (map_of ob)(k \<mapsto> x)"
proof (induction ob)
  case (Cons p ob)
  then show ?case by (cases p) (auto simp: fun_eq_iff)
qed simp

lemma map_of_fold_put: "map_of (fold (\<lambda>(k, x). obj_put k x) kvs ob) = map_of ob ++ map_of (rev kvs)"
proof (induction kvs arbitrary: ob)
  case (Cons p kvs)
  then show ?case by (cases p) (auto simp: map_of_obj_put fun_eq_iff map_add_def split: option.split)
qed simp

lemma get_mk_obj: "get_key (mk_obj kvs) key = Inr (case map_of (rev kvs) key of Some x \<Rightarrow> x | None \<Rightarrow> JNull)"
  by (simp add: get_key_def mk_obj_def map_of_fold_put)

lemma get_json_int: "int_range i \<Longrightarrow> bind_res (get_double (json_int i)) cast_int = Inr i"
  by (simp add: json_int_def int_range_def cast_int_of_int)

lemma get_json_byte: "bind_res (get_double (json_byte b)) cast_byte = Inr b"
  by (simp only: json_byte_def get_double.simps bind_res_Inr cast_byte_of_word)

lemma json_num_not_null [simp]: "\<not> is_null (json_int i)" "\<not> is_null (json_byte b)" "\<not> is_null (mk_obj kvs)"
  by (simp_all add: json_int_def json_byte_def mk_obj_def)

lemmas member_simps = get_mk_obj get_text_def get_int_def get_byte_def opt_member_def get_json_int get_json_byte

lemma read_bindings:
  "list_all (\<lambda>b. int_range (bd_code b)) bs
   \<Longrightarrow> bindings_loop (map binding_json bs) u = Inr (u\<lparr>su_bindings := su_bindings u @ bs\<rparr>)"
proof (induction bs arbitrary: u)
  case (Cons b bs)
  then show ?case by (simp add: binding_json_def member_simps)
qed simp

lemma read_leds:
  "list_all (\<lambda>l. int_range (ld_code l)) ls
   \<Longrightarrow> leds_loop (map led_json ls) u = Inr (u\<lparr>su_leds := su_leds u @ ls\<rparr>)"
proof (induction ls arbitrary: u)
  case (Cons l ls)
  then show ?case by (simp add: led_json_def member_simps)
qed simp

lemma read_configs: "configs_loop (map config_json cs) u = Inr (u\<lparr>su_configs := su_configs u @ cs\<rparr>)"
proof (induction cs arbitrary: u)
  case (Cons c cs)
  then show ?case by (simp add: config_json_def)
qed simp

lemma read_unit:
  assumes "unit_ok u" and "su_label u = label"
  shows "parse_unit label (unit_json u) d =
    Inr (if label \<in> set (map su_label (ds_units d)) then d else d\<lparr>ds_units := ds_units d @ [u]\<rparr>)"
proof -
  have b: "list_all (\<lambda>b. int_range (bd_code b)) (su_bindings u)" and l: "list_all (\<lambda>l. int_range (ld_code l)) (su_leds u)"
    using assms(1) by (simp_all add: unit_ok_def)
  have known: "(\<exists>u' \<in> set (ds_units d). su_label u' = label) \<longleftrightarrow> label \<in> set (map su_label (ds_units d))"
    by auto
  have new: "\<lparr>su_label = label, su_unit = su_unit u, su_library = su_library u, su_configs = su_configs u,
      su_bindings = su_bindings u, su_leds = su_leds u\<rparr> = u"
    using assms(2) by (cases u) simp
  show ?thesis
  proof (cases "label \<in> set (map su_label (ds_units d))")
    case True
    then show ?thesis by (simp only: parse_unit_def known if_True)
  next
    case False
    then show ?thesis
      unfolding parse_unit_def known
      by (simp add: unit_members_def unit_json_def member_simps parse_bindings_def parse_leds_def
          read_bindings [OF b] read_leds [OF l] read_configs new)
  qed
qed

lemma read_mainlines:
  "mainlines_loop (map (\<lambda>p. mk_obj [(''plug'', JStr p)]) ps) d = Inr (d\<lparr>ds_mainlines := ds_mainlines d @ ps\<rparr>)"
proof (induction ps arbitrary: d)
  case (Cons p ps)
  then show ?case by (simp add: member_simps)
qed simp

text \<open>The daisychains, with the units they name.\<close>

definition unit_of :: "s_unit list \<Rightarrow> string \<Rightarrow> s_unit" where
  "unit_of us t = the (map_of (map (\<lambda>u. (su_label u, u)) us) t)"

lemma unit_of_label:
  assumes "t \<in> set (map su_label us)"
  shows "unit_of us t \<in> set us" "su_label (unit_of us t) = t"
proof -
  obtain u where "map_of (map (\<lambda>u. (su_label u, u)) us) t = Some u"
    using assms by (cases "map_of (map (\<lambda>u. (su_label u, u)) us) t") (force simp: map_of_eq_None_iff image_iff)+
  then show "unit_of us t \<in> set us" "su_label (unit_of us t) = t"
    by (auto simp: unit_of_def dest!: map_of_SomeD)
qed

lemma unit_of_self: "distinct (map su_label us) \<Longrightarrow> map (unit_of us) (map su_label us) = us"
proof (induction us)
  case (Cons u us)
  have "map (unit_of (u # us)) (map su_label us) = map (unit_of us) (map su_label us)"
  proof (rule map_cong [OF refl])
    fix t assume "t \<in> set (map su_label us)"
    moreover have "su_label u \<notin> set (map su_label us)" using Cons.prems by simp
    ultimately have "t \<noteq> su_label u" by blast
    then show "unit_of (u # us) t = unit_of us t" by (simp add: unit_of_def)
  qed
  moreover have "unit_of (u # us) (su_label u) = u" by (simp add: unit_of_def)
  moreover have "map (unit_of us) (map su_label us) = us" using Cons by simp
  ultimately show ?case by (simp only: list.map)
qed simp

lemma read_daisychains:
  assumes v: "\<And>t. t \<in> set (map lk_to ls) \<Longrightarrow>
      get_key v t = Inr (if t \<in> set (map su_label us) then unit_json (unit_of us t) else JNull)"
    and ok: "list_all unit_ok us"
  shows "daisychains_loop v (map link_json ls) d =
    Inr (d\<lparr>ds_daisychains := ds_daisychains d @ ls,
           ds_units := ds_units d @ map (unit_of us)
             (firsts (map su_label (ds_units d)) (filter (\<lambda>t. t \<in> set (map su_label us)) (map lk_to ls)))\<rparr>)"
  using v
proof (induction ls arbitrary: d)
  case Nil
  then show ?case by simp
next
  case (Cons l ls)
  let ?d1 = "d\<lparr>ds_daisychains := ds_daisychains d @ [l]\<rparr>"
  have texts: "get_text (link_json l) ''from'' = Inr (lk_from l)" "get_text (link_json l) ''plug'' = Inr (lk_plug l)"
      "get_text (link_json l) ''to'' = Inr (lk_to l)" "get_text (link_json l) ''jack'' = Inr (lk_jack l)"
    by (simp_all add: link_json_def member_simps)
  have l: "\<lparr>lk_from = lk_from l, lk_plug = lk_plug l, lk_to = lk_to l, lk_jack = lk_jack l\<rparr> = l" by simp
  have IH: "daisychains_loop v (map link_json ls) d' =
      Inr (d'\<lparr>ds_daisychains := ds_daisychains d' @ ls,
           ds_units := ds_units d' @ map (unit_of us)
             (firsts (map su_label (ds_units d')) (filter (\<lambda>t. t \<in> set (map su_label us)) (map lk_to ls)))\<rparr>)" for d'
    using Cons.prems by (intro Cons.IH) simp
  have key: "get_key v (lk_to l) =
      Inr (if lk_to l \<in> set (map su_label us) then unit_json (unit_of us (lk_to l)) else JNull)"
    using Cons.prems by simp
  have step: "daisychains_loop v (map link_json (l # ls)) d =
      (if lk_to l \<in> set (map su_label us)
       then bind_res (parse_unit (lk_to l) (unit_json (unit_of us (lk_to l))) ?d1) (daisychains_loop v (map link_json ls))
       else daisychains_loop v (map link_json ls) ?d1)"
    by (simp add: texts key l unit_json_def Let_def del: get_text_def)
  show ?case
  proof (cases "lk_to l \<in> set (map su_label us)")
    case False
    then show ?thesis unfolding step by (simp only: IH if_False) simp
  next
    case True
    note u = unit_of_label [OF True]
    have "unit_ok (unit_of us (lk_to l))" using ok u(1) by (simp add: list_all_iff)
    from read_unit [OF this u(2)] True show ?thesis
      unfolding step by (simp only: if_True bind_res_Inr) (auto simp: IH u(2))
  qed
qed

text \<open>The rest of the document.\<close>

lemma read_controllers:
  "controllers_loop (map controller_json cs) d = Inr (False, d\<lparr>ds_controllers := ds_controllers d @ cs\<rparr>)"
proof (induction cs arbitrary: d)
  case (Cons c cs)
  have "controllers_loop (controller_json c # ms) d
      = controllers_loop ms (d\<lparr>ds_controllers := ds_controllers d @ [c]\<rparr>)" for ms
    by (cases c) (simp add: controller_json_def member_simps)
  then show ?case by (simp add: Cons.IH)
qed simp

lemma read_linux:
  assumes "int_range (lx_priority l)" and "lx_affinity l = Some a" and "int_range a"
  shows "parse_syslinux (linux_json l) d = Inr (d\<lparr>ds_linux := l\<rparr>)"
  using assms by (cases l) (simp add: parse_syslinux_def linux_json_def member_simps set_linux_def)

lemma firsts_distinct: "distinct (firsts seen ts) \<and> set (firsts seen ts) \<inter> set seen = {}"
  by (induction seen ts rule: firsts.induct) auto

lemma map_of_rev_distinct: "distinct (map fst xs) \<Longrightarrow> map_of (rev xs) = map_of xs"
proof (induction xs)
  case (Cons p xs)
  then have "map_of xs (fst p) = None" by (simp add: map_of_eq_None_iff)
  with Cons show ?case by (cases p) (auto simp: fun_eq_iff map_add_def split: option.split)
qed simp

lemma map_of_units: "map_of (map (\<lambda>u. (su_label u, unit_json u)) us) t
    = map_option unit_json (map_of (map (\<lambda>u. (su_label u, u)) us) t)"
  by (induction us) auto

lemma get_rack_unit:
  assumes "distinct (map su_label (ds_units d))" and "t \<noteq> ''mainlines''" and "t \<noteq> ''daisychains''"
  shows "get_key (rack_json d) t =
    Inr (if t \<in> set (map su_label (ds_units d)) then unit_json (unit_of (ds_units d) t) else JNull)"
proof -
  let ?us = "ds_units d"
  have rev_eq: "map_of (rev (map (\<lambda>u. (su_label u, unit_json u)) ?us)) = map_of (map (\<lambda>u. (su_label u, unit_json u)) ?us)"
    using assms(1) by (intro map_of_rev_distinct) (simp add: comp_def)
  have eq: "map_of (rev (map (\<lambda>u. (su_label u, unit_json u)) ?us)) t
      = map_option unit_json (map_of (map (\<lambda>u. (su_label u, u)) ?us) t)"
    by (simp only: rev_eq map_of_units)
  have "map_of (map (\<lambda>u. (su_label u, u)) ?us) t = None \<longleftrightarrow> t \<notin> set (map su_label ?us)"
    by (simp add: map_of_eq_None_iff comp_def image_image)
  then show ?thesis
    using assms(2,3) eq
    by (cases "map_of (map (\<lambda>u. (su_label u, u)) ?us) t") (simp_all add: rack_json_def get_mk_obj unit_of_def)
qed

lemma get_rack_lists:
  "get_key (rack_json d) ''mainlines'' = Inr (JArr (map (\<lambda>p. mk_obj [(''plug'', JStr p)]) (ds_mainlines d)))"
  "get_key (rack_json d) ''daisychains'' = Inr (JArr (map link_json (ds_daisychains d)))"
  by (simp_all add: rack_json_def get_mk_obj)

lemma read_rack:
  assumes "desc_ok d" and "ds_mainlines d0 = []" "ds_daisychains d0 = []" "ds_units d0 = []"
  shows "parse_rack (rack_json d) d0 = Inr (d0\<lparr>ds_mainlines := ds_mainlines d,
    ds_daisychains := ds_daisychains d, ds_units := ds_units d\<rparr>)"
proof -
  have order: "map su_label (ds_units d) =
       firsts [] (filter (\<lambda>t. t \<in> set (map su_label (ds_units d))) (map lk_to (ds_daisychains d)))"
    and units: "list_all unit_ok (ds_units d)"
    and tos: "list_all (\<lambda>l. lk_to l \<noteq> ''mainlines'' \<and> lk_to l \<noteq> ''daisychains'') (ds_daisychains d)"
    using assms(1) unfolding desc_ok_def by blast+
  have dist: "distinct (map su_label (ds_units d))" using firsts_distinct order by metis
  have v: "get_key (rack_json d) t =
      Inr (if t \<in> set (map su_label (ds_units d)) then unit_json (unit_of (ds_units d) t) else JNull)"
    if "t \<in> set (map lk_to (ds_daisychains d))" for t
    using that tos by (intro get_rack_unit [OF dist]) (auto simp: list_all_iff)
  show ?thesis
    by (simp add: parse_rack_def get_rack_lists read_mainlines read_daisychains [OF v units]
        assms(2-4) order [symmetric] unit_of_self [OF dist] del: set_map map_map)
qed

lemma read_document:
  assumes "desc_ok d"
  shows "parse_document (desc_json d) root_element description_new = Inr d"
proof -
  obtain n a where na: "ds_workers d = Some n" "int_range n" "lx_affinity (ds_linux d) = Some a" "int_range a"
    using assms by (auto simp: desc_ok_def split: option.splits)
  have p: "int_range (lx_priority (ds_linux d))" using assms by (simp add: desc_ok_def)
  have "fold (\<lambda>(k, x). obj_put k x) [(''linux'', x), (''threads'', y)] [] = [(''linux'', x), (''threads'', y)]"
    "fold (\<lambda>(k, x). obj_put k x) [(''midi'', x), (''rack'', y), (''system'', z)] []
      = [(''midi'', x), (''rack'', y), (''system'', z)]" for x y z
    by (simp_all add: less_char_def)
  note objs = this
  let ?d1 = "description_new\<lparr>ds_controllers := ds_controllers d\<rparr>"
  let ?d2 = "?d1\<lparr>ds_mainlines := ds_mainlines d, ds_daisychains := ds_daisychains d, ds_units := ds_units d\<rparr>"
  have rack: "parse_rack (rack_json d) ?d1 = Inr ?d2"
    by (rule read_rack [OF assms]) (simp_all add: description_new_def)
  have linux: "parse_syslinux (linux_json (ds_linux d)) ?d2 = Inr (?d2\<lparr>ds_linux := ds_linux d\<rparr>)"
    by (rule read_linux [OF p na(3,4)])
  have midi: "controllers_loop (map controller_json (ds_controllers d)) description_new = Inr (False, ?d1)"
    by (simp add: read_controllers) (simp add: description_new_def)
  have sys: "parse_document_system (mk_obj [(''linux'', linux_json (ds_linux d)),
        (''threads'', mk_obj [(''workers'', json_int n)])]) ?d2 = Inr (?d2\<lparr>ds_linux := ds_linux d, ds_workers := Some n\<rparr>)"
    unfolding parse_document_system_def mk_obj_def [of "[(''linux'', _), _]"] objs
    by (simp add: linux get_mk_obj get_json_int na(2))
  have "?d2\<lparr>ds_linux := ds_linux d, ds_workers := Some n\<rparr> = d"
    using na(1) by (cases d) (simp add: description_new_def)
  moreover have "desc_json d = JObj
     [(''midi'', JObj (map controller_json (ds_controllers d))), (''rack'', rack_json d),
      (''system'', mk_obj [(''linux'', linux_json (ds_linux d)), (''threads'', mk_obj [(''workers'', json_int n)])])]"
    unfolding desc_json_def mk_obj_def [of "[(''midi'', _), _, _]"] objs na(1) by simp
  ultimately show ?thesis
    by (simp add: parse_document_def midi rack sys del: bind_res_Inl)
qed

text \<open>What is written can be serialized.\<close>

definition exact_ints :: "json_env \<Rightarrow> bool" where
  "exact_ints E \<longleftrightarrow> (\<forall>i. int_range i \<longrightarrow> je_double E (of_int i) = Some (of_int i))"

lemma json_ok_fold:
  "json_ok E (JObj ob) \<Longrightarrow> \<forall>p \<in> set kvs. json_ok E (snd p)
   \<Longrightarrow> json_ok E (JObj (fold (\<lambda>(k, x). obj_put k x) kvs ob))"
proof (induction kvs arbitrary: ob)
  case (Cons p kvs)
  obtain k x where p: "p = (k, x)" by (cases p)
  have "json_ok E (JObj (obj_put k x ob))"
    using Cons.prems obj_put_sorted [of ob k x] p by (auto dest: obj_put_set)
  then show ?case using Cons.IH Cons.prems p by simp
qed simp

lemma json_ok_mk_obj: "\<forall>p \<in> set kvs. json_ok E (snd p) \<Longrightarrow> json_ok E (mk_obj kvs)"
  unfolding mk_obj_def by (rule json_ok_fold) simp_all

lemma json_ok_int: "exact_ints E \<Longrightarrow> int_range i \<Longrightarrow> json_ok E (json_int i)"
  by (auto simp: json_int_def number_ok_def exact_ints_def int_range_def simp flip: of_int_abs)

lemma json_ok_byte: "exact_ints E \<Longrightarrow> json_ok E (json_byte b)"
proof -
  assume "exact_ints E"
  moreover have "0 \<le> uint b" "uint b < 256" using uint_lt2p [of b] by simp_all
  then have "int_range (uint b)" unfolding int_range_def by linarith
  ultimately show ?thesis using json_ok_int [of E "uint b"] by (simp only: json_int_def json_byte_def)
qed

lemma json_ok_unit:
  assumes E: "exact_ints E" and u: "unit_ok u"
  shows "json_ok E (unit_json u)"
proof -
  have "json_ok E (snd (binding_json b))" if "b \<in> set (su_bindings u)" for b
    using that u unfolding binding_json_def
    by (auto simp: unit_ok_def list_all_iff intro!: json_ok_mk_obj json_ok_int [OF E])
  moreover have "json_ok E (snd (led_json l))" if "l \<in> set (su_leds u)" for l
    using that u unfolding led_json_def
    by (auto simp: unit_ok_def list_all_iff intro!: json_ok_mk_obj json_ok_int [OF E] json_ok_byte [OF E])
  moreover have "map fst (map binding_json bs) = map bd_name bs" "map fst (map led_json ls) = map ld_state ls"
      "map fst (map config_json cs) = map cf_type cs" for bs ls cs
    by (simp_all add: binding_json_def led_json_def config_json_def)
  ultimately show ?thesis
    using u unfolding unit_json_def
    by (intro json_ok_mk_obj) (auto simp: unit_ok_def config_json_def simp del: map_map)
qed

lemma json_ok_desc:
  assumes E: "exact_ints E" and d: "desc_ok d"
  shows "json_ok E (desc_json d)"
proof -
  obtain n a where na: "ds_workers d = Some n" "int_range n" "lx_affinity (ds_linux d) = Some a" "int_range a"
    using d by (auto simp: desc_ok_def split: option.splits)
  have p: "int_range (lx_priority (ds_linux d))" and us: "\<forall>u \<in> set (ds_units d). unit_ok u"
    and cs: "sorted_wrt (<) (map ct_label (ds_controllers d))"
    using d by (simp_all add: desc_ok_def list_all_iff)
  have rack: "json_ok E (rack_json d)"
    unfolding rack_json_def link_json_def
    by (auto intro!: json_ok_mk_obj json_ok_unit [OF E] us [rule_format])
  have "map fst (map controller_json (ds_controllers d)) = map ct_label (ds_controllers d)"
    by (simp add: controller_json_def)
  then have midi: "json_ok E (JObj (map controller_json (ds_controllers d)))"
    using cs by (auto simp: controller_json_def intro!: json_ok_mk_obj json_ok_byte [OF E] simp del: map_map)
  have sys: "json_ok E (mk_obj [(''linux'', linux_json (ds_linux d)), (''threads'', mk_obj [(''workers'', json_int n)])])"
    using p na unfolding linux_json_def by (auto intro!: json_ok_mk_obj json_ok_int [OF E])
  show ?thesis
    unfolding desc_json_def na(1) option.sel
    by (intro json_ok_mk_obj) (use rack midi sys in auto)
qed

lemmas res_elims = bind_res_eq_Inr map_res_eq_Inr

lemma load_serialized:
  assumes "je_point E = ''.''" and "exact_ints E" and "desc_ok d"
    and "files path = Some (json_serialize E prettify (desc_json d))"
  shows "document_load E files path = Inr d"
  using assms(4) serialize_parse [OF assms(1) json_ok_desc [OF assms(2,3)]] read_document [OF assms(3)]
  by (simp add: document_load_def load_file_def)

lemma controllers_append:
  "controllers_loop before d = Inr (False, d1) \<Longrightarrow> controllers_loop (before @ ms) d = controllers_loop ms d1"
proof (induction before d arbitrary: d1 rule: controllers_loop.induct)
  case (2 label details bs d)
  obtain dv where dv: "get_key details ''port'' = Inr dv" "\<not> is_null dv"
    using 2(2) by (auto simp: res_elims split: if_splits)
  then obtain port c1 c2 where c: "get_string dv = Inr port"
      "opt_member details ''led_on'' (\<lambda>dv c. map_res (\<lambda>b. c\<lparr>ct_led_on := b\<rparr>) (bind_res (get_double dv) cast_byte))
         \<lparr>ct_label = label, ct_port = port, ct_led_on = 0, ct_led_off = 0\<rparr> = Inr c1"
      "opt_member details ''led_off'' (\<lambda>dv c. map_res (\<lambda>b. c\<lparr>ct_led_off := b\<rparr>) (bind_res (get_double dv) cast_byte)) c1
         = Inr c2"
    using 2(2) by (auto simp: res_elims Let_def)
  then show ?case using 2 dv by (simp add: Let_def)
qed simp

section \<open>Units are unique\<close>

definition units_inv :: "description \<Rightarrow> bool" where
  "units_inv d \<longleftrightarrow> distinct (map su_label (ds_units d)) \<and>
     set (map su_label (ds_units d)) \<subseteq> set (map lk_to (ds_daisychains d))"

definition same_units :: "description \<Rightarrow> description \<Rightarrow> bool" where
  "same_units d d' \<longleftrightarrow> ds_units d' = ds_units d \<and> ds_daisychains d' = ds_daisychains d"

lemma same_units_inv: "same_units d d' \<Longrightarrow> units_inv d \<Longrightarrow> units_inv d'"
  by (simp add: same_units_def units_inv_def)

lemma syslinux_same: "parse_syslinux v d = Inr d' \<Longrightarrow> same_units d d'"
  by (auto simp: parse_syslinux_def opt_member_def set_linux_def same_units_def res_elims split: if_splits)

lemma same_units_trans: "same_units d d1 \<Longrightarrow> same_units d1 d' \<Longrightarrow> same_units d d'"
  by (simp add: same_units_def)

lemma system_same: "system_loop ms d = Inr d' \<Longrightarrow> same_units d d'"
proof (induction ms arbitrary: d)
  case (Cons p ms)
  obtain key x where p: "p = (key, x)" by (cases p)
  consider "key = ''threads''" | "key = ''linux''" | "key \<noteq> ''threads''" "key \<noteq> ''linux''" by blast
  then show ?case
  proof cases
    case 1
    then show ?thesis using Cons.prems by (auto simp: p same_units_def res_elims split: if_splits)
  next
    case 2
    then obtain d1 where "parse_syslinux x d = Inr d1" "system_loop ms d1 = Inr d'"
      using Cons.prems by (auto simp: p res_elims)
    then show ?thesis using same_units_trans [OF syslinux_same Cons.IH] by blast
  next
    case 3
    then show ?thesis using Cons by (simp add: p)
  qed
qed (simp add: same_units_def)

lemma controllers_same: "controllers_loop ms d = Inr (b, d') \<Longrightarrow> same_units d d'"
proof (induction ms d arbitrary: b d' rule: controllers_loop.induct)
  case (2 label details ms d)
  obtain dv where dv: "get_key details ''port'' = Inr dv" using 2(2) by (auto simp: res_elims)
  show ?case
  proof (cases "is_null dv")
    case True
    then show ?thesis using 2(2) dv by (simp add: same_units_def)
  next
    case False
    then obtain c where "controllers_loop ms (d\<lparr>ds_controllers := ds_controllers d @ [c]\<rparr>) = Inr (b, d')"
      using 2(2) dv by (auto simp: res_elims Let_def)
    moreover from False 2(2) dv obtain port where "get_string dv = Inr port" by (auto simp: res_elims)
    ultimately show ?thesis
      using 2(1) [OF dv False] 2(2) dv False by (auto simp: res_elims Let_def same_units_def)
  qed
qed (simp add: same_units_def)

lemma mainlines_same: "mainlines_loop ms d = Inr d' \<Longrightarrow> same_units d d'"
proof (induction ms d arbitrary: d' rule: mainlines_loop.induct)
  case (2 m ms d)
  then show ?case by (fastforce simp: res_elims same_units_def)
qed (simp add: same_units_def)

lemma bindings_label: "bindings_loop ms u = Inr u' \<Longrightarrow> su_label u' = su_label u"
proof (induction ms arbitrary: u)
  case (Cons p ms)
  obtain k v where p: "p = (k, v)" by (cases p)
  from Cons.prems obtain w where "bindings_loop ms w = Inr u'" "su_label w = su_label u"
    by (auto simp: p bind_res_eq_Inr split: if_splits)
  with Cons.IH show ?case by fastforce
qed simp

lemma leds_label: "leds_loop ms u = Inr u' \<Longrightarrow> su_label u' = su_label u"
proof (induction ms arbitrary: u)
  case (Cons p ms)
  obtain k v where p: "p = (k, v)" by (cases p)
  from Cons.prems obtain w where "leds_loop ms w = Inr u'" "su_label w = su_label u"
    by (auto simp: p bind_res_eq_Inr split: if_splits)
  with Cons.IH show ?case by fastforce
qed simp

lemma configs_label: "configs_loop ms u = Inr u' \<Longrightarrow> su_label u' = su_label u"
proof (induction ms arbitrary: u)
  case (Cons p ms)
  obtain k v where p: "p = (k, v)" by (cases p)
  from Cons.prems obtain w where "configs_loop ms w = Inr u'" "su_label w = su_label u"
    by (auto simp: p bind_res_eq_Inr)
  with Cons.IH show ?case by fastforce
qed simp

lemma opt_label:
  assumes "opt_member v key f u = Inr u'" and "\<And>cv u u'. f cv u = Inr u' \<Longrightarrow> su_label u' = su_label u"
  shows "su_label u' = su_label u"
  using assms by (auto simp: opt_member_def res_elims split: if_splits)

lemma member_labels:
  "opt_member v k (\<lambda>cv u. map_res (\<lambda>s. u\<lparr>su_library := s\<rparr>) (get_string cv)) u = Inr u' \<Longrightarrow> su_label u' = su_label u"
  "opt_member v k (\<lambda>cv u. map_res (\<lambda>s. u\<lparr>su_unit := s\<rparr>) (get_string cv)) u = Inr u' \<Longrightarrow> su_label u' = su_label u"
  "opt_member v k (\<lambda>cv u. parse_bindings u cv) u = Inr u' \<Longrightarrow> su_label u' = su_label u"
  "opt_member v k (\<lambda>cv u. parse_leds u cv) u = Inr u' \<Longrightarrow> su_label u' = su_label u"
  "opt_member v k (\<lambda>cv u. bind_res (get_object cv) (\<lambda>ob. configs_loop ob u)) u = Inr u' \<Longrightarrow> su_label u' = su_label u"
  by (erule opt_label;
      auto simp: map_res_eq_Inr bind_res_eq_Inr parse_bindings_def parse_leds_def
        dest: bindings_label leds_label configs_label)+

lemma bind_InrE: "bind_res r f = Inr y \<Longrightarrow> (\<And>x. r = Inr x \<Longrightarrow> f x = Inr y \<Longrightarrow> P) \<Longrightarrow> P"
  by (cases r) auto

lemma unit_members_label: "unit_members label v = Inr u \<Longrightarrow> su_label u = label"
  unfolding unit_members_def Let_def
  by (elim bind_InrE, drule member_labels(1), drule member_labels(2), drule member_labels(3),
      drule member_labels(4), drule member_labels(5)) simp

lemma parse_unit_inv:
  assumes "units_inv d" and "t \<in> set (map lk_to (ds_daisychains d))" and "parse_unit t v d = Inr d'"
  shows "units_inv d' \<and> ds_daisychains d' = ds_daisychains d"
proof (cases "\<exists>u \<in> set (ds_units d). su_label u = t")
  case True
  then show ?thesis using assms by (simp add: parse_unit_def)
next
  case False
  then obtain u where u: "unit_members t v = Inr u" and d': "d' = d\<lparr>ds_units := ds_units d @ [u]\<rparr>"
    using assms(3) by (auto simp: parse_unit_def map_res_eq_Inr)
  then show ?thesis
    using False assms(1,2) unit_members_label [OF u] by (auto simp: d' units_inv_def)
qed

lemma daisychains_inv: "daisychains_loop v ls d = Inr d' \<Longrightarrow> units_inv d \<Longrightarrow> units_inv d'"
proof (induction ls arbitrary: d)
  case (Cons it ls)
  obtain fm pl to jk where t: "get_text it ''from'' = Inr fm" "get_text it ''plug'' = Inr pl"
      "get_text it ''to'' = Inr to" "get_text it ''jack'' = Inr jk"
    using Cons.prems(1) by (auto simp: res_elims)
  let ?d1 = "d\<lparr>ds_daisychains := ds_daisychains d @ [\<lparr>lk_from = fm, lk_plug = pl, lk_to = to, lk_jack = jk\<rparr>]\<rparr>"
  have inv: "units_inv ?d1" using Cons.prems(2) by (auto simp: units_inv_def)
  obtain uv where uv: "get_key v to = Inr uv" using Cons.prems(1) t by (auto simp: res_elims Let_def)
  show ?case
  proof (cases "is_null uv")
    case True
    then have "daisychains_loop v ls ?d1 = Inr d'" using Cons.prems(1) t uv by simp
    then show ?thesis by (rule Cons.IH [OF _ inv])
  next
    case False
    then obtain d2 where d2: "parse_unit to uv ?d1 = Inr d2" "daisychains_loop v ls d2 = Inr d'"
      using Cons.prems(1) t uv by (auto simp: res_elims)
    have "units_inv d2" using parse_unit_inv [OF inv _ d2(1)] by simp
    with Cons.IH [OF d2(2)] show ?thesis by simp
  qed
qed simp

lemma rack_inv: "parse_rack v d = Inr d' \<Longrightarrow> units_inv d \<Longrightarrow> units_inv d'"
  by (auto simp: parse_rack_def res_elims intro: daisychains_inv same_units_inv [OF mainlines_same])

lemma root_inv: "root_loop ms d = Inr d' \<Longrightarrow> units_inv d \<Longrightarrow> units_inv d'"
proof (induction ms arbitrary: d)
  case (Cons p ms)
  obtain key x where p: "p = (key, x)" by (cases p)
  have sys: "parse_document_system x d = Inr d1 \<Longrightarrow> units_inv d1" for d1
    using Cons.prems(2) same_units_inv [OF system_same]
    by (auto simp: parse_document_system_def res_elims split: if_splits)
  have midi: "controllers_loop ob d = Inr (b, d1) \<Longrightarrow> units_inv d1" for ob b d1
    using Cons.prems(2) same_units_inv [OF controllers_same] by blast
  show ?case
    using Cons.prems(1) Cons.IH sys midi Cons.prems(2) rack_inv [of x d]
    by (auto simp: p res_elims split: if_splits)
qed simp

section \<open>Properties\<close>

text \<open>C6. The configuration reads back what a document says: a file that holds the serialized document of
  a description, prettified or not, gives that description, with the controllers, units, bindings,
  leds and settings, and each unit once in the order of the daisychains.\<close>

theorem document_roundtrip:
  assumes "je_point E = ''.''" and "exact_ints E" and "desc_ok d"
    and "files path = Some (json_serialize E prettify (desc_json d))"
  shows "document_load E files path = Inr d"
  using assms by (rule load_serialized)

definition demo_desc :: description where
  "demo_desc = \<lparr>ds_workers = Some 4,
     ds_linux = \<lparr>lx_policy = ''SCHED_FIFO'', lx_priority = 50, lx_affinity = Some (-1)\<rparr>,
     ds_controllers = [\<lparr>ct_label = ''pad'', ct_port = ''hw:1,0,0'', ct_led_on = 144, ct_led_off = 128\<rparr>],
     ds_mainlines = [''ac1''],
     ds_daisychains = [\<lparr>lk_from = ''rack'', lk_plug = ''ac1'', lk_to = ''loader'', lk_jack = ''ac''\<rparr>,
       \<lparr>lk_from = ''loader'', lk_plug = ''out'', lk_to = ''sink'', lk_jack = ''in''\<rparr>],
     ds_units = [\<lparr>su_label = ''loader'', su_unit = ''Loader'', su_library = ''lib.so'', su_configs = [],
       su_bindings = [\<lparr>bd_name = ''trigger'', bd_module = ''pad'', bd_code = 60\<rparr>],
       su_leds = [\<lparr>ld_state = ''on'', ld_device = ''pad'', ld_mode = ''blink'', ld_code = 60, ld_value = 127\<rparr>]\<rparr>]\<rparr>"

lemma demo_good: "je_point demo_env = ''.''" "exact_ints demo_env" "desc_ok demo_desc"
  by (simp_all add: demo_env_def exact_ints_def desc_ok_def demo_desc_def int_range_def unit_ok_def)

theorem document_roundtrip_witness:
  "document_load demo_env [''rack.cfg'' \<mapsto> json_serialize demo_env True (desc_json demo_desc)] ''rack.cfg''
   = Inr demo_desc"
  by (rule document_roundtrip) (simp_all add: demo_good)

text \<open>C27. Whatever the file holds, the description has every unit once, however often daisychains
  lead to it, and only units that some daisychain leads to.\<close>

theorem document_units_once:
  assumes "document_load E files path = Inr d"
  shows "distinct (map su_label (ds_units d))
    \<and> set (map su_label (ds_units d)) \<subseteq> set (map lk_to (ds_daisychains d))"
proof -
  obtain v where "parse_document v root_element description_new = Inr d"
    using assms by (auto simp: document_load_def res_elims)
  moreover have "units_inv description_new" by (simp add: units_inv_def description_new_def)
  ultimately have "units_inv d"
    using root_inv by (auto simp: parse_document_def res_elims split: if_splits)
  then show ?thesis by (simp add: units_inv_def)
qed

theorem document_units_once_witness:
  "document_load demo_env [''rack.cfg'' \<mapsto> json_serialize demo_env True (desc_json demo_desc)] ''rack.cfg'' = Inr demo_desc
   \<and> distinct (map su_label (ds_units demo_desc))"
proof -
  have "document_load demo_env [''rack.cfg'' \<mapsto> json_serialize demo_env True (desc_json demo_desc)] ''rack.cfg''
      = Inr demo_desc"
    by (rule load_serialized) (simp_all add: demo_good)
  with document_units_once [OF this] show ?thesis by simp
qed

text \<open>A controller without a port ends the reading of the document: the rack and the system settings,
  whose keys come after \<open>midi\<close>, are not read, and the description stays empty apart from the
  controllers before.\<close>

theorem missing_port_drops_rest:
  assumes "controllers_loop before d = Inr (False, d1)" and "get_key details ''port'' = Inr JNull"
  shows "parse_document (JObj ((''midi'', JObj (before @ (label, details) # after)) # rest)) root_element d = Inr d1"
  using assms(2) by (simp add: parse_document_def controllers_append [OF assms(1)])

theorem missing_port_drops_rest_witness:
  "parse_document (JObj [(''midi'', JObj ([] @ (''pad'', JObj [(''led_on'', JNum 9)]) # [])),
     (''rack'', JNull), (''system'', JNull)]) root_element description_new = Inr description_new"
  by (rule missing_port_drops_rest) (simp_all add: get_key_def)

end
