(* ===== verification/Scheduled.thy ===== *)
theory Scheduled
  imports SIO_Prelude
begin

text \<open>
  Threads with a scheduling policy: \<^verbatim>\<open>framework/threads/scheduled.cpp\<close> and \<^verbatim>\<open>thread/sched_desc.hpp\<close>, and
  how \<^verbatim>\<open>rack::start\<close> uses them. The calls of the kernel are a parameter; what is asked of the kernel is a
  list of requests.

  The thread that \<open>start\<close> creates works on the object it was created by, through \<open>this\<close>. The second part
  follows this object and the thread step by step through \<open>target = scheduled(desc, func)\<close>, the
  statement of \<open>rack::start\<close>, in every interleaving.
\<close>

section \<open>Policies\<close>

record sched_desc =
  sd_policy :: int
  sd_priority :: int
  sd_cpu_affinity :: int

definition sched_desc_zero :: sched_desc where
  "sched_desc_zero = \<lparr>sd_policy = 0, sd_priority = 0, sd_cpu_affinity = 0\<rparr>"

text \<open>The kernel: \<open>sched_getparam\<close> gives an error number or the priority.\<close>

record sched_os =
  os_gettid :: int
  os_getparam :: "int \<Rightarrow> int + int"
  os_getscheduler :: "int \<Rightarrow> int"
  os_setscheduler :: "int \<Rightarrow> int \<Rightarrow> int \<Rightarrow> int"

definition EINVAL :: int where
  "EINVAL = 22"

text \<open>With \<open>EINVAL\<close> the code goes on and reads the priority from a structure nothing was written to.\<close>

definition assigned_policy :: "sched_os \<Rightarrow> int \<Rightarrow> sched_desc result" where
  "assigned_policy os tid =
     (let d = \<lparr>sd_policy = -1, sd_priority = 0, sd_cpu_affinity = 0\<rparr> in
      case os_getparam os tid of
        Inl errno \<Rightarrow>
          if errno \<noteq> EINVAL then Inr d
          else if os_getscheduler os tid < 0 then Inr (d\<lparr>sd_priority := 0\<rparr>)
          else Inl Uninitialised
      | Inr priority \<Rightarrow>
          if os_getscheduler os tid < 0 then Inr d
          else Inr (d\<lparr>sd_policy := os_getscheduler os tid, sd_priority := priority\<rparr>))"

text \<open>What \<open>schedule\<close> asks for: a mask of processors of a given size in bytes, and a policy. The mask has
  the bit of the processor, the size is \<open>CPU_COUNT\<close>, the number of bits that are set.\<close>

datatype os_request =
    Set_Affinity int "nat set" nat
  | Set_Scheduler int int int

definition cpu_count :: "int \<Rightarrow> nat" where
  "cpu_count cpu = (if 0 \<le> cpu \<and> cpu < 1024 then 1 else 0)"

definition cpu_mask :: "int \<Rightarrow> nat set" where
  "cpu_mask cpu = (if 0 \<le> cpu \<and> cpu < 1024 then {nat cpu} else {})"

definition schedule :: "sched_os \<Rightarrow> int \<Rightarrow> sched_desc \<Rightarrow> os_request list \<times> sched_desc option result" where
  "schedule os tid d =
     ((if 0 \<le> sd_cpu_affinity d
       then [Set_Affinity tid (cpu_mask (sd_cpu_affinity d)) (cpu_count (sd_cpu_affinity d))] else [])
      @ [Set_Scheduler tid (sd_policy d) (sd_priority d)],
      if os_setscheduler os tid (sd_policy d) (sd_priority d) \<noteq> 0 then Inr None
      else map_res Some (assigned_policy os tid))"

text \<open>The kernel looks at the given number of bytes of the mask only.\<close>

definition processors :: "os_request \<Rightarrow> nat set" where
  "processors r = (case r of Set_Affinity tid cpus bytes \<Rightarrow> cpus \<inter> {0 ..< 8 * bytes} | _ \<Rightarrow> {})"

section \<open>Objects\<close>

text \<open>\<open>so_handle\<close> is the thread a \<open>std::thread\<close> owns, if any. The descriptor and the thread id have no
  value where a constructor does not initialise them.\<close>

record scheduled =
  so_active :: bool
  so_handle :: "nat option"
  so_desc :: "sched_desc option"
  so_system :: string
  so_tid :: "int option"

definition scheduled_default :: scheduled where
  "scheduled_default = \<lparr>so_active = False, so_handle = None, so_desc = None, so_system = ''scheduled'',
     so_tid = Some (-1)\<rparr>"

definition scheduled_named :: "string \<Rightarrow> scheduled" where
  "scheduled_named sys = \<lparr>so_active = False, so_handle = None, so_desc = Some sched_desc_zero, so_system = sys,
     so_tid = Some (-1)\<rparr>"

definition scheduled_with :: "sched_desc \<Rightarrow> string \<Rightarrow> scheduled" where
  "scheduled_with desc sys = \<lparr>so_active = False, so_handle = None, so_desc = Some desc, so_system = sys,
     so_tid = Some (-1)\<rparr>"

text \<open>\<open>start\<close>: the thread \<open>t\<close> is created, unless the object is active. Assigning to a \<open>std::thread\<close>
  that still owns a thread ends the program.\<close>

definition scheduled_start :: "nat \<Rightarrow> scheduled \<Rightarrow> scheduled result" where
  "scheduled_start t s =
     (if so_active s then Inr s
      else (case so_handle s of None \<Rightarrow> Inr (s\<lparr>so_handle := Some t\<rparr>) | Some _ \<Rightarrow> Inl Terminate))"

definition scheduled_started :: "sched_desc \<Rightarrow> nat \<Rightarrow> string \<Rightarrow> scheduled result" where
  "scheduled_started desc t sys = scheduled_start t (scheduled_with desc sys)"

definition scheduled_move :: "scheduled \<Rightarrow> scheduled \<times> scheduled" where
  "scheduled_move s =
     (\<lparr>so_active = so_active s, so_handle = so_handle s, so_desc = so_desc s, so_system = so_system s, so_tid = None\<rparr>,
      s\<lparr>so_handle := None\<rparr>)"

definition scheduled_assign :: "scheduled \<Rightarrow> scheduled \<Rightarrow> scheduled \<times> scheduled" where
  "scheduled_assign target s =
     (target\<lparr>so_handle := so_handle s, so_desc := so_desc s, so_active := so_active s, so_system := so_system s\<rparr>,
      s\<lparr>so_handle := so_handle target\<rparr>)"

definition local_policy :: "scheduled \<Rightarrow> sched_desc result" where
  "local_policy s = (case so_desc s of None \<Rightarrow> Inl Uninitialised | Some d \<Rightarrow> Inr d)"

definition set_system :: "string \<Rightarrow> scheduled \<Rightarrow> scheduled" where
  "set_system sys s = s\<lparr>so_system := sys\<rparr>"

definition assign_tid :: "sched_os \<Rightarrow> scheduled \<Rightarrow> scheduled" where
  "assign_tid os s = s\<lparr>so_tid := Some (os_gettid os)\<rparr>"

definition thread_id :: "scheduled \<Rightarrow> int option" where
  "thread_id s = so_tid s"

definition scheduled_is_active :: "scheduled \<Rightarrow> bool" where
  "scheduled_is_active s = so_active s"

text \<open>\<open>join\<close> gives the thread to wait for.\<close>

definition scheduled_join :: "scheduled \<Rightarrow> (nat \<times> scheduled) result" where
  "scheduled_join s =
     (case so_handle s of None \<Rightarrow> Inl Std_System_Error | Some t \<Rightarrow> Inr (t, s\<lparr>so_handle := None\<rparr>))"

text \<open>The destructor: an exception in it ends the program, and so does the destruction of a
  \<open>std::thread\<close> that still owns a thread. The result is the thread it waits for, if any.\<close>

definition scheduled_destroy :: "scheduled \<Rightarrow> nat option result" where
  "scheduled_destroy s =
     (if so_active s then
        (case scheduled_join s of Inl e \<Rightarrow> Inl Terminate | Inr (t, _) \<Rightarrow> Inr (Some t))
      else (case so_handle s of None \<Rightarrow> Inr None | Some t \<Rightarrow> Inl Terminate))"

section \<open>\<open>target = scheduled(desc, func, system)\<close>\<close>

datatype thread_pc = T_Tid | T_Schedule | T_Activate | T_Func | T_Deactivate | T_Done

datatype start_pc = S_Assign | S_Destroy | S_Done

record start_state =
  ss_temp :: "scheduled option"
  ss_target :: scheduled
  ss_thread :: thread_pc
  ss_main :: start_pc

text \<open>The thread works on the temporary object; when that is gone, an access is undefined. \<open>func\<close> does not
  touch the object.\<close>

definition on_temp :: "(scheduled \<Rightarrow> scheduled) \<Rightarrow> thread_pc \<Rightarrow> start_state \<Rightarrow> start_state result" where
  "on_temp f pc s =
     (case ss_temp s of None \<Rightarrow> Inl Null_Deref
      | Some t \<Rightarrow> Inr (s\<lparr>ss_temp := Some (f t), ss_thread := pc\<rparr>))"

fun thread_step :: "sched_os \<Rightarrow> thread_pc \<Rightarrow> start_state \<Rightarrow> start_state result" where
  "thread_step os T_Tid s = on_temp (assign_tid os) T_Schedule s"
| "thread_step os T_Schedule s = on_temp id T_Activate s"
| "thread_step os T_Activate s = on_temp (\<lambda>t. t\<lparr>so_active := True\<rparr>) T_Func s"
| "thread_step os T_Func s = Inr (s\<lparr>ss_thread := T_Deactivate\<rparr>)"
| "thread_step os T_Deactivate s = on_temp (\<lambda>t. t\<lparr>so_active := False\<rparr>) T_Done s"
| "thread_step os T_Done s = Inr s"

text \<open>The creating thread: the assignment, then the end of the temporary. A destructor that waits for
  the thread takes its step when the thread is done.\<close>

fun main_step :: "start_pc \<Rightarrow> start_state \<Rightarrow> start_state result" where
  "main_step S_Assign s =
     (case ss_temp s of None \<Rightarrow> Inl Null_Deref
      | Some t \<Rightarrow> (case scheduled_assign (ss_target s) t of (target, t') \<Rightarrow>
          Inr (s\<lparr>ss_target := target, ss_temp := Some t', ss_main := S_Destroy\<rparr>)))"
| "main_step S_Destroy s =
     (case ss_temp s of None \<Rightarrow> Inl Null_Deref
      | Some t \<Rightarrow> bind_res (scheduled_destroy t) (\<lambda>w.
          if w \<noteq> None \<and> ss_thread s \<noteq> T_Done then Inr s
          else Inr (s\<lparr>ss_temp := None, ss_main := S_Done\<rparr>)))"
| "main_step S_Done s = Inr s"

text \<open>An interleaving is a list of choices.\<close>

fun start_run :: "sched_os \<Rightarrow> bool list \<Rightarrow> start_state \<Rightarrow> start_state result" where
  "start_run os [] s = Inr s"
| "start_run os (b # bs) s =
     bind_res (if b then thread_step os (ss_thread s) s else main_step (ss_main s) s) (start_run os bs)"

definition start_begin :: "sched_desc \<Rightarrow> nat \<Rightarrow> string \<Rightarrow> scheduled \<Rightarrow> start_state result" where
  "start_begin desc t sys target = map_res (\<lambda>temp.
     \<lparr>ss_temp = Some temp, ss_target = target, ss_thread = T_Tid, ss_main = S_Assign\<rparr>) (scheduled_started desc t sys)"

section \<open>What becomes of the thread\<close>

text \<open>The temporary is active exactly while the thread is in \<open>func\<close>; after the assignment it owns no
  thread (the target had none).\<close>

definition start_inv :: "start_state \<Rightarrow> bool" where
  "start_inv s \<longleftrightarrow>
     (case ss_temp s of
        None \<Rightarrow> ss_main s = S_Done \<and> ss_thread s \<notin> {T_Func, T_Deactivate}
      | Some t \<Rightarrow> ss_main s \<noteq> S_Done \<and> so_active t = (ss_thread s \<in> {T_Func, T_Deactivate})
          \<and> (ss_main s = S_Destroy \<longrightarrow> so_handle t = None)
          \<and> (ss_main s = S_Assign \<longrightarrow> so_handle (ss_target s) = None))"

lemma thread_step_inv: "start_inv s \<Longrightarrow> thread_step os (ss_thread s) s = Inr s' \<Longrightarrow> start_inv s'"
  by (cases "ss_thread s") (auto simp: start_inv_def on_temp_def assign_tid_def split: option.splits)

lemma main_step_inv: "start_inv s \<Longrightarrow> main_step (ss_main s) s = Inr s' \<Longrightarrow> start_inv s'"
  by (cases "ss_main s")
     (auto simp: start_inv_def scheduled_assign_def scheduled_destroy_def scheduled_join_def bind_res_eq_Inr
       split: option.splits if_splits)

lemma start_run_inv: "start_inv s \<Longrightarrow> start_run os bs s = Inr s' \<Longrightarrow> start_inv s'"
proof (induction bs arbitrary: s)
  case (Cons b bs)
  then obtain s1 where "(if b then thread_step os (ss_thread s) s else main_step (ss_main s) s) = Inr s1"
      "start_run os bs s1 = Inr s'"
    by (auto simp: bind_res_eq_Inr)
  then show ?case
    using Cons thread_step_inv [of s os s1] main_step_inv [of s s1] by (auto split: if_splits)
qed simp

lemma start_begin_inv: "so_handle target = None \<Longrightarrow> start_begin desc t sys target = Inr s \<Longrightarrow> start_inv s"
  by (auto simp: start_inv_def start_begin_def scheduled_started_def scheduled_start_def scheduled_with_def)

section \<open>Properties\<close>

text \<open>A thread started through a temporary object, as the thread of the rack is, never gets into its
  function safely: in every interleaving, once the temporary is gone the thread has either
  finished already or has not reached its function and uses the dead object next; and ending the
  temporary while the function runs ends the program.\<close>

theorem started_through_temporary:
  assumes "so_handle target = None" and "bind_res (start_begin desc t sys target) (start_run os bs) = Inr s"
  shows "(ss_main s = S_Done \<and> ss_thread s \<noteq> T_Done \<longrightarrow>
            ss_thread s \<in> {T_Tid, T_Schedule, T_Activate} \<and> thread_step os (ss_thread s) s = Inl Null_Deref)
    \<and> (ss_main s = S_Destroy \<and> ss_thread s \<in> {T_Func, T_Deactivate} \<longrightarrow> main_step S_Destroy s = Inl Terminate)"
proof -
  obtain s0 where "start_begin desc t sys target = Inr s0" "start_run os bs s0 = Inr s"
    using assms(2) by (auto simp: bind_res_eq_Inr)
  then have inv: "start_inv s" using start_run_inv start_begin_inv [OF assms(1)] by blast
  have "ss_thread s \<in> {T_Tid, T_Schedule, T_Activate} \<and> thread_step os (ss_thread s) s = Inl Null_Deref"
    if "ss_main s = S_Done" "ss_thread s \<noteq> T_Done"
    using inv that by (cases "ss_thread s") (auto simp: start_inv_def on_temp_def split: option.splits)
  moreover have "main_step S_Destroy s = Inl Terminate"
    if "ss_main s = S_Destroy" "ss_thread s \<in> {T_Func, T_Deactivate}"
    using inv that
    by (auto simp: start_inv_def scheduled_destroy_def scheduled_join_def split: option.splits)
  ultimately show ?thesis by blast
qed

definition demo_os :: sched_os where
  "demo_os = \<lparr>os_gettid = 7, os_getparam = (\<lambda>_. Inr 0), os_getscheduler = (\<lambda>_. 0), os_setscheduler = (\<lambda>_ _ _. 0)\<rparr>"

definition demo_start :: "bool list \<Rightarrow> start_state result" where
  "demo_start bs = bind_res (start_begin sched_desc_zero 1 ''rack'' (scheduled_named ''rack'')) (start_run demo_os bs)"

lemmas demo_start_simps = demo_start_def start_begin_def scheduled_started_def scheduled_start_def scheduled_with_def
  scheduled_named_def on_temp_def assign_tid_def scheduled_assign_def scheduled_destroy_def scheduled_join_def

theorem started_through_temporary_witness:
  "\<exists>s1 s2. demo_start [False, False] = Inr s1 \<and> thread_step demo_os (ss_thread s1) s1 = Inl Null_Deref
    \<and> demo_start [True, True, True, False] = Inr s2 \<and> main_step S_Destroy s2 = Inl Terminate"
proof -
  obtain s1 where s1: "demo_start [False, False] = Inr s1" "ss_main s1 = S_Done" "ss_thread s1 = T_Tid"
    by (simp add: demo_start_simps)
  obtain s2 where s2: "demo_start [True, True, True, False] = Inr s2" "ss_main s2 = S_Destroy" "ss_thread s2 = T_Func"
    by (simp add: demo_start_simps)
  have h: "so_handle (scheduled_named ''rack'') = None" by (simp add: scheduled_named_def)
  show ?thesis
    using started_through_temporary [OF h s1(1) [unfolded demo_start_def]] s1
      started_through_temporary [OF h s2(1) [unfolded demo_start_def]] s2 by auto
qed

text \<open>A processor number of 8 or more never reaches the kernel: the size of the mask is passed as the
  number of its bits, one byte, so the kernel sees an empty mask.\<close>

theorem affinity_truncated:
  assumes "Set_Affinity tid cpus bytes \<in> set (fst (schedule os tid d))"
  shows "processors (Set_Affinity tid cpus bytes) =
    (if sd_cpu_affinity d < 8 then {nat (sd_cpu_affinity d)} else {})"
  using assms by (auto simp: schedule_def processors_def cpu_mask_def cpu_count_def split: if_splits)

theorem affinity_truncated_witness:
  "processors (Set_Affinity 7 {9} 1) = {}"
  using affinity_truncated [of 7 "{9}" 1 demo_os "\<lparr>sd_policy = 0, sd_priority = 0, sd_cpu_affinity = 9\<rparr>"]
  by (simp add: schedule_def cpu_mask_def cpu_count_def)

end
