(* ===== verification/Json_Store.thy ===== *)
theory Json_Store
  imports Picojson_Laws
begin

text \<open>
  The values of \<^verbatim>\<open>framework/include/framework/picojson/picojson.h\<close> as they lie in memory: the tagged union of the class
  \<open>value\<close>, its constructors, destructor, assignment and \<open>swap\<close>, the references \<open>get\<close> returns, and
  how \<open>default_parse_context\<close> replaces what it points to.

  A value is its tag with the member of the union the tag selects (\<open>jval\<close>); strings, arrays and
  objects are cells of a heap (\<open>jcell\<close>), with the values of the elements inside the cell. An
  address is never used twice, so an access to freed memory is seen: \<open>Use_After_Free\<close>. A place is where
  a value lies: a variable, an element of an array or a member of an object. The variables \<open>Null_Idx\<close>
  and \<open>Null_Key\<close> are the static \<open>s_null\<close> of the two \<open>get\<close> that are not const, \<open>Temp\<close> is the
  temporary of an assignment. The spare capacity of vectors, which elements are copied to when they
  grow, is left out.

  \<open>holds c v j A\<close> says that the value \<open>v\<close> stands for \<open>j\<close> and owns the cells at the addresses \<open>A\<close>.
\<close>

section \<open>Values and the heap\<close>

datatype jtype = T_Null | T_Boolean | T_Number | T_String | T_Array | T_Object

datatype jval = V_Null | V_Bool bool | V_Num rat | V_Str nat | V_Arr nat | V_Obj nat

datatype jcell = C_Str string | C_Arr "jval list" | C_Obj "(string \<times> jval) list"

record jheap =
  jh_cells :: "nat \<Rightarrow> jcell option"
  jh_next :: nat

definition jh_new :: "jcell \<Rightarrow> jheap \<Rightarrow> nat \<times> jheap" where
  "jh_new c h = (jh_next h, h\<lparr>jh_cells := (jh_cells h)(jh_next h \<mapsto> c), jh_next := Suc (jh_next h)\<rparr>)"

definition jh_free :: "nat \<Rightarrow> jheap \<Rightarrow> jheap" where
  "jh_free a h = h\<lparr>jh_cells := (jh_cells h)(a := None)\<rparr>"

definition value_of_type :: "jtype \<Rightarrow> jheap \<Rightarrow> jval \<times> jheap" where
  "value_of_type t h =
     (case t of
        T_Null \<Rightarrow> (V_Null, h)
      | T_Boolean \<Rightarrow> (V_Bool False, h)
      | T_Number \<Rightarrow> (V_Num 0, h)
      | T_String \<Rightarrow> map_prod V_Str id (jh_new (C_Str []) h)
      | T_Array \<Rightarrow> map_prod V_Arr id (jh_new (C_Arr []) h)
      | T_Object \<Rightarrow> map_prod V_Obj id (jh_new (C_Obj []) h))"

definition value_of_number :: "rat option \<Rightarrow> jval result" where
  "value_of_number n = (case n of None \<Rightarrow> Inl Std_Overflow_Error | Some q \<Rightarrow> Inr (V_Num q))"

definition value_of_string :: "string \<Rightarrow> jheap \<Rightarrow> jval \<times> jheap" where
  "value_of_string s h = map_prod V_Str id (jh_new (C_Str s) h)"

text \<open>\<open>value(const char*, size_t)\<close> takes the characters of the array up to the length it is given.\<close>

definition value_of_chars :: "string \<Rightarrow> nat \<Rightarrow> jheap \<Rightarrow> (jval \<times> jheap) result" where
  "value_of_chars s len h = (if len \<le> length s then Inr (value_of_string (take len s) h) else Inl Out_Of_Bounds)"

text \<open>The copy constructor and the destructor. The number bounds the depth; \<open>json_copy\<close> and \<open>json_destroy\<close>
  start with one more than there are cells.\<close>

primrec copy_items :: "(jval \<Rightarrow> jheap \<Rightarrow> (jval \<times> jheap) result) \<Rightarrow> jval list \<Rightarrow> jheap \<Rightarrow> (jval list \<times> jheap) result" where
  "copy_items f [] h = Inr ([], h)"
| "copy_items f (v # vs) h =
     bind_res (f v h) (\<lambda>(w, h1). map_res (\<lambda>(ws, h2). (w # ws, h2)) (copy_items f vs h1))"

primrec copy_value :: "nat \<Rightarrow> jval \<Rightarrow> jheap \<Rightarrow> (jval \<times> jheap) result" where
  "copy_value 0 v h = Inl Stack_Overflow"
| "copy_value (Suc n) v h =
     (case v of
        V_Str a \<Rightarrow> (case jh_cells h a of
            Some (C_Str s) \<Rightarrow> Inr (map_prod V_Str id (jh_new (C_Str s) h))
          | _ \<Rightarrow> Inl Use_After_Free)
      | V_Arr a \<Rightarrow> (case jh_cells h a of
            Some (C_Arr vs) \<Rightarrow>
              map_res (\<lambda>(ws, h1). map_prod V_Arr id (jh_new (C_Arr ws) h1)) (copy_items (copy_value n) vs h)
          | _ \<Rightarrow> Inl Use_After_Free)
      | V_Obj a \<Rightarrow> (case jh_cells h a of
            Some (C_Obj ps) \<Rightarrow>
              map_res (\<lambda>(ws, h1). map_prod V_Obj id (jh_new (C_Obj (zip (map fst ps) ws)) h1))
                (copy_items (copy_value n) (map snd ps) h)
          | _ \<Rightarrow> Inl Use_After_Free)
      | _ \<Rightarrow> Inr (v, h))"

primrec destroy_items :: "(jval \<Rightarrow> jheap \<Rightarrow> jheap result) \<Rightarrow> jval list \<Rightarrow> jheap \<Rightarrow> jheap result" where
  "destroy_items f [] h = Inr h"
| "destroy_items f (v # vs) h = bind_res (f v h) (destroy_items f vs)"

primrec destroy_value :: "nat \<Rightarrow> jval \<Rightarrow> jheap \<Rightarrow> jheap result" where
  "destroy_value 0 v h = Inl Stack_Overflow"
| "destroy_value (Suc n) v h =
     (case v of
        V_Str a \<Rightarrow> (case jh_cells h a of
            Some (C_Str s) \<Rightarrow> Inr (jh_free a h)
          | _ \<Rightarrow> Inl Use_After_Free)
      | V_Arr a \<Rightarrow> (case jh_cells h a of
            Some (C_Arr vs) \<Rightarrow> map_res (jh_free a) (destroy_items (destroy_value n) vs h)
          | _ \<Rightarrow> Inl Use_After_Free)
      | V_Obj a \<Rightarrow> (case jh_cells h a of
            Some (C_Obj ps) \<Rightarrow> map_res (jh_free a) (destroy_items (destroy_value n) (map snd ps) h)
          | _ \<Rightarrow> Inl Use_After_Free)
      | _ \<Rightarrow> Inr h)"

definition json_copy :: "jval \<Rightarrow> jheap \<Rightarrow> (jval \<times> jheap) result" where
  "json_copy v h = copy_value (Suc (jh_next h)) v h"

definition json_destroy :: "jval \<Rightarrow> jheap \<Rightarrow> jheap result" where
  "json_destroy v h = destroy_value (Suc (jh_next h)) v h"

text \<open>\<open>value(const array&)\<close> and \<open>value(const object&)\<close>: a copy of the container.\<close>

definition value_of_array :: "jval list \<Rightarrow> jheap \<Rightarrow> (jval \<times> jheap) result" where
  "value_of_array a h =
     map_res (\<lambda>(ws, h1). map_prod V_Arr id (jh_new (C_Arr ws) h1)) (copy_items (copy_value (Suc (jh_next h))) a h)"

definition value_of_object :: "(string \<times> jval) list \<Rightarrow> jheap \<Rightarrow> (jval \<times> jheap) result" where
  "value_of_object ob h =
     map_res (\<lambda>(ws, h1). map_prod V_Obj id (jh_new (C_Obj (zip (map fst ob) ws)) h1))
       (copy_items (copy_value (Suc (jh_next h))) (map snd ob) h)"

section \<open>Places\<close>

datatype jvar = Local nat | Temp | Null_Idx | Null_Key

datatype jplace = P_Var jvar | P_Elem nat nat | P_Member nat string

record jmem =
  jm_heap :: jheap
  jm_vars :: "jvar \<Rightarrow> jval"

definition load_place :: "jmem \<Rightarrow> jplace \<Rightarrow> jval result" where
  "load_place m p =
     (case p of
        P_Var x \<Rightarrow> Inr (jm_vars m x)
      | P_Elem a i \<Rightarrow> (case jh_cells (jm_heap m) a of
            Some (C_Arr vs) \<Rightarrow> arr_get vs i
          | _ \<Rightarrow> Inl Use_After_Free)
      | P_Member a k \<Rightarrow> (case jh_cells (jm_heap m) a of
            Some (C_Obj ps) \<Rightarrow> (case map_of ps k of Some v \<Rightarrow> Inr v | None \<Rightarrow> Inl Out_Of_Bounds)
          | _ \<Rightarrow> Inl Use_After_Free))"

definition set_cell :: "jmem \<Rightarrow> nat \<Rightarrow> jcell \<Rightarrow> jmem" where
  "set_cell m a c = m\<lparr>jm_heap := (jm_heap m)\<lparr>jh_cells := (jh_cells (jm_heap m))(a \<mapsto> c)\<rparr>\<rparr>"

definition store_place :: "jmem \<Rightarrow> jplace \<Rightarrow> jval \<Rightarrow> jmem result" where
  "store_place m p w =
     (case p of
        P_Var x \<Rightarrow> Inr (m\<lparr>jm_vars := (jm_vars m)(x := w)\<rparr>)
      | P_Elem a i \<Rightarrow> (case jh_cells (jm_heap m) a of
            Some (C_Arr vs) \<Rightarrow> map_res (\<lambda>ws. set_cell m a (C_Arr ws)) (arr_set vs i w)
          | _ \<Rightarrow> Inl Use_After_Free)
      | P_Member a k \<Rightarrow> (case jh_cells (jm_heap m) a of
            Some (C_Obj ps) \<Rightarrow>
              if k \<in> fst ` set ps then Inr (set_cell m a (C_Obj (map (\<lambda>(k', v). (k', if k' = k then w else v)) ps)))
              else Inl Out_Of_Bounds
          | _ \<Rightarrow> Inl Use_After_Free))"

definition json_assign :: "jplace \<Rightarrow> jplace \<Rightarrow> jmem \<Rightarrow> jmem result" where
  "json_assign p q m =
     (if p = q then Inr m
      else bind_res (load_place m p) (\<lambda>v.
        bind_res (json_destroy v (jm_heap m)) (\<lambda>h1.
        let m1 = m\<lparr>jm_heap := h1\<rparr> in
        bind_res (load_place m1 q) (\<lambda>x.
        bind_res (json_copy x h1) (\<lambda>(w, h2). store_place (m1\<lparr>jm_heap := h2\<rparr>) p w)))))"

definition json_swap :: "jplace \<Rightarrow> jplace \<Rightarrow> jmem \<Rightarrow> jmem result" where
  "json_swap p q m =
     bind_res (load_place m p) (\<lambda>v. bind_res (load_place m q) (\<lambda>w.
       bind_res (store_place m p w) (\<lambda>m1. store_place m1 q v)))"

definition destroy_var :: "jvar \<Rightarrow> jmem \<Rightarrow> jmem result" where
  "destroy_var x m =
     map_res (\<lambda>h. m\<lparr>jm_heap := h, jm_vars := (jm_vars m)(x := V_Null)\<rparr>) (json_destroy (jm_vars m x) (jm_heap m))"

text \<open>The references that \<open>get(idx)\<close> and \<open>get(key)\<close> return; for an index or key that is not there, the
  static null of the function.\<close>

definition get_idx_place :: "jplace \<Rightarrow> nat \<Rightarrow> jmem \<Rightarrow> jplace result" where
  "get_idx_place p idx m =
     bind_res (load_place m p) (\<lambda>v.
       case v of
         V_Arr a \<Rightarrow> (case jh_cells (jm_heap m) a of
             Some (C_Arr vs) \<Rightarrow> Inr (if idx < length vs then P_Elem a idx else P_Var Null_Idx)
           | _ \<Rightarrow> Inl Use_After_Free)
       | _ \<Rightarrow> Inl Std_Runtime_Error)"

definition get_key_place :: "jplace \<Rightarrow> string \<Rightarrow> jmem \<Rightarrow> jplace result" where
  "get_key_place p key m =
     bind_res (load_place m p) (\<lambda>v.
       case v of
         V_Obj a \<Rightarrow> (case jh_cells (jm_heap m) a of
             Some (C_Obj ps) \<Rightarrow> Inr (if map_of ps key \<noteq> None then P_Member a key else P_Var Null_Key)
           | _ \<Rightarrow> Inl Use_After_Free)
       | _ \<Rightarrow> Inl Std_Runtime_Error)"

text \<open>What \<open>default_parse_context\<close> stores through \<open>out_\<close>: a temporary is built, assigned and destroyed.\<close>

definition assign_temp :: "jplace \<Rightarrow> jval \<times> jheap \<Rightarrow> jmem \<Rightarrow> jmem result" where
  "assign_temp p wh m =
     bind_res (json_assign p (P_Var Temp) (m\<lparr>jm_heap := snd wh, jm_vars := (jm_vars m)(Temp := fst wh)\<rparr>))
       (destroy_var Temp)"

definition ctx_set_null :: "jplace \<Rightarrow> jmem \<Rightarrow> jmem result" where
  "ctx_set_null out m = assign_temp out (V_Null, jm_heap m) m"

definition ctx_set_bool :: "jplace \<Rightarrow> bool \<Rightarrow> jmem \<Rightarrow> jmem result" where
  "ctx_set_bool out b m = assign_temp out (V_Bool b, jm_heap m) m"

definition ctx_set_number :: "jplace \<Rightarrow> rat option \<Rightarrow> jmem \<Rightarrow> jmem result" where
  "ctx_set_number out f m = bind_res (value_of_number f) (\<lambda>v. assign_temp out (v, jm_heap m) m)"

definition ctx_start :: "jplace \<Rightarrow> jtype \<Rightarrow> jmem \<Rightarrow> jmem result" where
  "ctx_start out t m = assign_temp out (value_of_type t (jm_heap m)) m"

text \<open>\<open>a.push_back(value())\<close> in \<open>parse_array_item\<close>, and \<open>push_back\<close> of a value: the copy is appended.\<close>

definition array_push :: "jplace \<Rightarrow> jplace \<Rightarrow> jmem \<Rightarrow> jmem result" where
  "array_push p q m =
     bind_res (load_place m p) (\<lambda>v.
       case v of
         V_Arr a \<Rightarrow>
           bind_res (load_place m q) (\<lambda>x. bind_res (json_copy x (jm_heap m)) (\<lambda>(w, h).
             case jh_cells h a of
               Some (C_Arr vs) \<Rightarrow> Inr (set_cell (m\<lparr>jm_heap := h\<rparr>) a (C_Arr (vs @ [w])))
             | _ \<Rightarrow> Inl Use_After_Free))
       | _ \<Rightarrow> Inl Std_Runtime_Error)"

text \<open>\<open>o[key]\<close> in \<open>parse_object_item\<close>: a null member is put in the order of the keys when there is none.\<close>

fun pair_put :: "string \<Rightarrow> 'v \<Rightarrow> (string \<times> 'v) list \<Rightarrow> (string \<times> 'v) list" where
  "pair_put key x [] = [(key, x)]"
| "pair_put key x ((k, y) # ob) =
     (if key = k then (k, x) # ob
      else if key < k then (key, x) # (k, y) # ob
      else (k, y) # pair_put key x ob)"

definition member_place :: "jplace \<Rightarrow> string \<Rightarrow> jmem \<Rightarrow> (jplace \<times> jmem) result" where
  "member_place p key m =
     bind_res (load_place m p) (\<lambda>v.
       case v of
         V_Obj a \<Rightarrow> (case jh_cells (jm_heap m) a of
             Some (C_Obj ps) \<Rightarrow>
               Inr (P_Member a key, if map_of ps key \<noteq> None then m else set_cell m a (C_Obj (pair_put key V_Null ps)))
           | _ \<Rightarrow> Inl Use_After_Free)
       | _ \<Rightarrow> Inl Std_Runtime_Error)"

section \<open>What a value stands for\<close>

inductive holds :: "(nat \<Rightarrow> jcell option) \<Rightarrow> jval \<Rightarrow> jvalue \<Rightarrow> nat set \<Rightarrow> bool"
  and holds_list :: "(nat \<Rightarrow> jcell option) \<Rightarrow> jval list \<Rightarrow> jvalue list \<Rightarrow> nat set \<Rightarrow> bool"
  for c where
  holds_null: "holds c V_Null JNull {}"
| holds_bool: "holds c (V_Bool b) (JBool b) {}"
| holds_num: "holds c (V_Num q) (JNum q) {}"
| holds_str: "c a = Some (C_Str s) \<Longrightarrow> holds c (V_Str a) (JStr s) {a}"
| holds_arr: "c a = Some (C_Arr vs) \<Longrightarrow> holds_list c vs js A \<Longrightarrow> a \<notin> A \<Longrightarrow>
    holds c (V_Arr a) (JArr js) (insert a A)"
| holds_obj: "c a = Some (C_Obj ps) \<Longrightarrow> holds_list c (map snd ps) (map snd ob) A \<Longrightarrow>
    map fst ps = map fst ob \<Longrightarrow> sorted_wrt (<) (map fst ob) \<Longrightarrow> a \<notin> A \<Longrightarrow>
    holds c (V_Obj a) (JObj ob) (insert a A)"
| holds_nil: "holds_list c [] [] {}"
| holds_cons: "holds c v j A \<Longrightarrow> holds_list c vs js B \<Longrightarrow> A \<inter> B = {} \<Longrightarrow>
    holds_list c (v # vs) (j # js) (A \<union> B)"

inductive_simps holds_simps [simp]:
  "holds c V_Null j A" "holds c (V_Bool b) j A" "holds c (V_Num q) j A"

inductive_cases holds_strE: "holds c (V_Str a) j A"
inductive_cases holds_arrE: "holds c (V_Arr a) j A"
inductive_cases holds_objE: "holds c (V_Obj a) j A"
inductive_cases holds_consE: "holds_list c (v # vs) js A"

lemma holds_owned:
  "holds c v j A \<Longrightarrow> finite A \<and> A \<subseteq> dom c"
  "holds_list c vs js A \<Longrightarrow> finite A \<and> A \<subseteq> dom c"
  by (induction rule: holds_holds_list.inducts) auto

lemma holds_list_length: "holds_list c vs js A \<Longrightarrow> length vs = length js"
  by (induction vs arbitrary: js A) (auto elim: holds_list.cases)

lemma holds_frame:
  "holds c v j A \<Longrightarrow> (\<And>a. a \<in> A \<Longrightarrow> d a = c a) \<Longrightarrow> holds d v j A"
  "holds_list c vs js A \<Longrightarrow> (\<And>a. a \<in> A \<Longrightarrow> d a = c a) \<Longrightarrow> holds_list d vs js A"
  by (induction rule: holds_holds_list.inducts) (auto intro!: holds_holds_list.intros)

section \<open>Copies are deep\<close>

definition heap_ok :: "jheap \<Rightarrow> bool" where
  "heap_ok h \<longleftrightarrow> dom (jh_cells h) \<subseteq> {..<jh_next h}"

text \<open>\<open>h'\<close> is \<open>h\<close> with the fresh cells \<open>B\<close>.\<close>

definition extends :: "jheap \<Rightarrow> jheap \<Rightarrow> nat set \<Rightarrow> bool" where
  "extends h h' B \<longleftrightarrow> heap_ok h' \<and> jh_next h \<le> jh_next h' \<and> B \<subseteq> {jh_next h..<jh_next h'}
     \<and> (\<forall>a. a < jh_next h \<longrightarrow> jh_cells h' a = jh_cells h a) \<and> dom (jh_cells h') = dom (jh_cells h) \<union> B"

lemma extends_refl: "heap_ok h \<Longrightarrow> extends h h {}"
  by (simp add: extends_def)

lemma extends_trans: "extends h h1 B \<Longrightarrow> extends h1 h2 C \<Longrightarrow> extends h h2 (B \<union> C)"
  by (auto simp: extends_def subset_iff)

lemma extends_disjoint: "extends h h1 B \<Longrightarrow> extends h1 h2 C \<Longrightarrow> B \<inter> C = {}"
  by (fastforce simp: extends_def)

lemma extends_old:
  assumes "extends h h' B" and "A \<subseteq> {..<jh_next h}"
  shows "\<And>a. a \<in> A \<Longrightarrow> jh_cells h' a = jh_cells h a" and "A \<inter> B = {}"
proof -
  show "\<And>a. a \<in> A \<Longrightarrow> jh_cells h' a = jh_cells h a" using assms by (auto simp: extends_def)
  have "B \<subseteq> {jh_next h..}" using assms(1) by (auto simp: extends_def)
  then show "A \<inter> B = {}" using assms(2) by (fastforce simp: subset_iff)
qed

lemma holds_below: "heap_ok h \<Longrightarrow> holds (jh_cells h) v j A \<Longrightarrow> A \<subseteq> {..<jh_next h}"
  using holds_owned(1) [of "jh_cells h" v j A] unfolding heap_ok_def by blast

lemma extends_holds:
  assumes "extends h h' B" and "heap_ok h" and "holds (jh_cells h) v j A"
  shows "holds (jh_cells h') v j A" and "A \<inter> B = {}"
proof -
  have A: "A \<subseteq> {..<jh_next h}" by (rule holds_below [OF assms(2,3)])
  show "holds (jh_cells h') v j A"
    by (rule holds_frame(1) [OF assms(3)]) (rule extends_old(1) [OF assms(1) A])
  show "A \<inter> B = {}" by (rule extends_old(2) [OF assms(1) A])
qed

lemma extends_new:
  assumes "heap_ok h" and "jh_new c h = (b, h')"
  shows "extends h h' {b}" and "jh_cells h' b = Some c" and "b = jh_next h"
proof -
  have h': "b = jh_next h" "h' = h\<lparr>jh_cells := (jh_cells h)(jh_next h \<mapsto> c), jh_next := Suc (jh_next h)\<rparr>"
    using assms(2) unfolding jh_new_def by auto
  have "dom (jh_cells h') \<subseteq> {..<Suc (jh_next h)}"
    using assms(1) by (auto simp: heap_ok_def h' subset_iff less_Suc_eq)
  then show "extends h h' {b}" by (auto simp: extends_def heap_ok_def h')
  show "jh_cells h' b = Some c" "b = jh_next h" by (simp_all add: h')
qed

lemma card_Suc_less: "finite A \<Longrightarrow> a \<notin> A \<Longrightarrow> card (insert a A) < Suc n \<Longrightarrow> card A < n"
  by simp

lemma copy_container:
  assumes cp: "copy_items f vs h = Inr (ws, h1)" and hl: "holds_list (jh_cells h1) ws js B"
    and ex: "extends h h1 B" and n: "jh_new c h1 = (b, h2)"
  shows "holds_list (jh_cells h2) ws js B \<and> jh_cells h2 b = Some c \<and> b \<notin> B \<and> extends h h2 (insert b B)"
proof -
  have ok: "heap_ok h1" using ex by (simp add: extends_def)
  note new = extends_new [OF ok n]
  have B: "B \<subseteq> {..<jh_next h1}" using ex by (auto simp: extends_def)
  have "holds_list (jh_cells h2) ws js B"
    by (rule holds_frame(2) [OF hl]) (rule extends_old(1) [OF new(1) B])
  moreover have "b \<notin> B" using extends_old(2) [OF new(1) B] by simp
  moreover have "extends h h2 (insert b B)" using extends_trans [OF ex new(1)] by simp
  ultimately show ?thesis using new(2) by blast
qed

lemma copy_holds:
  "holds c v j A \<Longrightarrow> heap_ok h \<Longrightarrow> (\<And>a. a \<in> A \<Longrightarrow> jh_cells h a = c a) \<Longrightarrow> card A < n \<Longrightarrow>
     \<exists>w h' B. copy_value n v h = Inr (w, h') \<and> holds (jh_cells h') w j B \<and> extends h h' B"
  "holds_list c vs js A \<Longrightarrow> heap_ok h \<Longrightarrow> (\<And>a. a \<in> A \<Longrightarrow> jh_cells h a = c a) \<Longrightarrow> card A < n \<Longrightarrow>
     \<exists>ws h' B. copy_items (copy_value n) vs h = Inr (ws, h') \<and> holds_list (jh_cells h') ws js B \<and> extends h h' B"
proof (induction arbitrary: h n and h n rule: holds_holds_list.inducts)
  case holds_null
  then show ?case by (cases n) (auto intro: extends_refl)
next
  case (holds_bool b)
  then show ?case by (cases n) (auto intro: extends_refl)
next
  case (holds_num q)
  then show ?case by (cases n) (auto intro: extends_refl)
next
  case (holds_str a s)
  obtain m where n: "n = Suc m" using holds_str.prems(3) by (cases n) auto
  obtain b h' where new: "jh_new (C_Str s) h = (b, h')" by (cases "jh_new (C_Str s) h")
  note e = extends_new [OF holds_str.prems(1) new]
  have "jh_cells h a = Some (C_Str s)" using holds_str by simp
  then have "copy_value n (V_Str a) h = Inr (V_Str b, h')" by (simp add: n new)
  then show ?case using e holds_holds_list.holds_str [of "jh_cells h'" b s] by blast
next
  case (holds_arr a vs js A)
  obtain m where n: "n = Suc m" using holds_arr.prems(3) by (cases n) auto
  have "card A < m"
    by (rule card_Suc_less) (use holds_arr holds_owned(2) n in auto)
  then have "\<exists>ws h1 B. copy_items (copy_value m) vs h = Inr (ws, h1)
      \<and> holds_list (jh_cells h1) ws js B \<and> extends h h1 B"
    by (intro holds_arr.IH) (use holds_arr.prems in auto)
  then obtain ws h1 B where c: "copy_items (copy_value m) vs h = Inr (ws, h1)"
      "holds_list (jh_cells h1) ws js B" "extends h h1 B"
    by blast
  obtain b h2 where new: "jh_new (C_Arr ws) h1 = (b, h2)" by (cases "jh_new (C_Arr ws) h1")
  note k = copy_container [OF c new]
  have "jh_cells h a = Some (C_Arr vs)" using holds_arr by simp
  then have "copy_value n (V_Arr a) h = Inr (V_Arr b, h2)" by (simp add: n c new)
  then show ?case using k holds_holds_list.holds_arr [of "jh_cells h2" b ws js B] by blast
next
  case (holds_obj a ps ob A)
  obtain m where n: "n = Suc m" using holds_obj.prems(3) by (cases n) auto
  have "card A < m"
    by (rule card_Suc_less) (use holds_obj holds_owned(2) n in auto)
  then have "\<exists>ws h1 B. copy_items (copy_value m) (map snd ps) h = Inr (ws, h1)
      \<and> holds_list (jh_cells h1) ws (map snd ob) B \<and> extends h h1 B"
    by (intro holds_obj.IH) (use holds_obj.prems in auto)
  then obtain ws h1 B where c: "copy_items (copy_value m) (map snd ps) h = Inr (ws, h1)"
      "holds_list (jh_cells h1) ws (map snd ob) B" "extends h h1 B"
    by blast
  define qs where "qs = zip (map fst ps) ws"
  obtain b h2 where new: "jh_new (C_Obj qs) h1 = (b, h2)" by (cases "jh_new (C_Obj qs) h1")
  note k = copy_container [OF c new]
  have keys: "map fst ps = map fst ob" by fact
  have len: "length ws = length ps"
    using holds_list_length [OF c(2)] keys by (metis length_map)
  have qs: "map fst qs = map fst ob" "map snd qs = ws"
    unfolding qs_def keys [symmetric] using len by simp_all
  have "jh_cells h a = Some (C_Obj ps)" using holds_obj by simp
  then have "copy_value n (V_Obj a) h = Inr (V_Obj b, h2)" by (simp add: n c new qs_def [symmetric])
  then show ?case
    using k qs holds_holds_list.holds_obj [of "jh_cells h2" b qs ob B] \<open>sorted_wrt (<) (map fst ob)\<close> by auto
next
  case holds_nil
  then show ?case by (auto intro: extends_refl holds_holds_list.holds_nil)
next
  case (holds_cons v j A vs js B)
  have fin: "finite (A \<union> B)" using \<open>holds c v j A\<close> \<open>holds_list c vs js B\<close> holds_owned by blast
  have le: "card A < n" "card B < n"
    using holds_cons.prems(3) card_mono [OF fin, of A] card_mono [OF fin, of B] by auto
  obtain w h1 C where c1: "copy_value n v h = Inr (w, h1)" "holds (jh_cells h1) w j C" "extends h h1 C"
    using holds_cons.IH(2) [of h n] holds_cons.prems le by auto
  have "B \<subseteq> {..<jh_next h}"
  proof -
    have "B \<subseteq> dom c" using \<open>holds_list c vs js B\<close> holds_owned by blast
    then show ?thesis using holds_cons.prems(1,2) unfolding heap_ok_def by (metis UnCI domIff subset_iff)
  qed
  then have old: "\<And>a. a \<in> B \<Longrightarrow> jh_cells h1 a = c a"
    using extends_old(1) [OF c1(3)] holds_cons.prems(2) by auto
  have ok1: "heap_ok h1" using c1(3) by (simp add: extends_def)
  obtain ws h2 D where c2: "copy_items (copy_value n) vs h1 = Inr (ws, h2)" "holds_list (jh_cells h2) ws js D"
      "extends h1 h2 D"
    using holds_cons.IH(4) [OF ok1 old le(2)] by auto
  have "holds (jh_cells h2) w j C" by (rule extends_holds(1) [OF c2(3) ok1 c1(2)])
  then have "holds_list (jh_cells h2) (w # ws) (j # js) (C \<union> D)"
    using c2(2) extends_disjoint [OF c1(3) c2(3)] by (rule holds_holds_list.holds_cons)
  then show ?case using c1(1) c2(1) extends_trans [OF c1(3) c2(3)] by auto
qed

lemma card_below: "A \<subseteq> {..<n} \<Longrightarrow> card A < Suc n"
  using card_mono [of "{..<n}" A] by simp

lemma json_copy_holds:
  assumes "heap_ok h" and "holds (jh_cells h) v j A"
  obtains w h' B where "json_copy v h = Inr (w, h')" "holds (jh_cells h') w j B" "extends h h' B"
  using copy_holds(1) [OF assms(2,1) refl card_below [OF holds_below [OF assms]]]
  unfolding json_copy_def by blast

section \<open>The destructor frees what the value owns\<close>

definition jh_drop :: "nat set \<Rightarrow> jheap \<Rightarrow> jheap" where
  "jh_drop A h = h\<lparr>jh_cells := jh_cells h |` (- A)\<rparr>"

lemma jh_drop_simps [simp]:
  "jh_next (jh_drop A h) = jh_next h"
  "jh_cells (jh_drop A h) = jh_cells h |` (- A)"
  by (simp_all add: jh_drop_def)

lemma jh_drop_drop [simp]: "jh_drop B (jh_drop A h) = jh_drop (A \<union> B) h"
proof -
  have "jh_cells h |` (- A) |` (- B) = jh_cells h |` (- (A \<union> B))" by (simp add: Int_commute)
  then show ?thesis by (simp only: jh_drop_def jheap.simps) simp
qed

lemma jh_drop_empty [simp]: "jh_drop {} h = h"
  by (simp add: jh_drop_def restrict_map_def)

lemma jh_free_drop: "jh_free a (jh_drop A h) = jh_drop (insert a A) h"
proof -
  have "(jh_cells h |` (- A))(a := None) = jh_cells h |` (- insert a A)"
    by (rule ext) (simp add: restrict_map_def)
  then show ?thesis by (simp add: jh_free_def jh_drop_def)
qed

lemma jh_drop_ok: "heap_ok h \<Longrightarrow> heap_ok (jh_drop A h)"
  by (auto simp: heap_ok_def)

lemma destroy_holds:
  "holds c v j A \<Longrightarrow> (\<And>a. a \<in> A \<Longrightarrow> jh_cells h a = c a) \<Longrightarrow> card A < n \<Longrightarrow>
     destroy_value n v h = Inr (jh_drop A h)"
  "holds_list c vs js A \<Longrightarrow> (\<And>a. a \<in> A \<Longrightarrow> jh_cells h a = c a) \<Longrightarrow> card A < n \<Longrightarrow>
     destroy_items (destroy_value n) vs h = Inr (jh_drop A h)"
proof (induction arbitrary: h n and h n rule: holds_holds_list.inducts)
  case holds_null
  then show ?case by (cases n) simp_all
next
  case (holds_bool b)
  then show ?case by (cases n) simp_all
next
  case (holds_num q)
  then show ?case by (cases n) simp_all
next
  case holds_nil
  then show ?case by simp
next
  case (holds_str a s)
  then show ?case using jh_free_drop [of a "{}" h] by (cases n) simp_all
next
  case (holds_arr a vs js A)
  obtain m where n: "n = Suc m" using holds_arr.prems(2) by (cases n) auto
  have "card A < m"
    by (rule card_Suc_less) (use holds_arr holds_owned(2) n in auto)
  then have "destroy_items (destroy_value m) vs h = Inr (jh_drop A h)"
    by (intro holds_arr.IH) (use holds_arr.prems in auto)
  then show ?case using holds_arr.prems \<open>c a = _\<close> by (simp add: n jh_free_drop)
next
  case (holds_obj a ps ob A)
  obtain m where n: "n = Suc m" using holds_obj.prems(2) by (cases n) auto
  have "card A < m"
    by (rule card_Suc_less) (use holds_obj holds_owned(2) n in auto)
  then have "destroy_items (destroy_value m) (map snd ps) h = Inr (jh_drop A h)"
    by (intro holds_obj.IH) (use holds_obj.prems in auto)
  then show ?case using holds_obj.prems \<open>c a = _\<close> by (simp add: n jh_free_drop)
next
  case (holds_cons v j A vs js B)
  have fin: "finite (A \<union> B)" using \<open>holds c v j A\<close> \<open>holds_list c vs js B\<close> holds_owned by blast
  have le: "card A < n" "card B < n"
    using holds_cons.prems(2) card_mono [OF fin, of A] card_mono [OF fin, of B] by auto
  have "destroy_value n v h = Inr (jh_drop A h)"
    by (intro holds_cons.IH) (use holds_cons.prems le in auto)
  moreover have "destroy_items (destroy_value n) vs (jh_drop A h) = Inr (jh_drop B (jh_drop A h))"
    by (intro holds_cons.IH) (use holds_cons.prems le \<open>A \<inter> B = {}\<close> in \<open>auto simp: restrict_map_def\<close>)
  ultimately show ?case by simp
qed

lemma json_destroy_holds:
  assumes "heap_ok h" and "holds (jh_cells h) v j A"
  shows "json_destroy v h = Inr (jh_drop A h)"
  unfolding json_destroy_def
  by (rule destroy_holds(1) [OF assms(2) refl card_below [OF holds_below [OF assms]]])

text \<open>Assignment: the target's cells are freed, the source is copied to fresh ones.\<close>

lemma assign_core:
  assumes ok: "heap_ok (jm_heap m)" and ne: "p \<noteq> q"
    and v: "load_place m p = Inr v" "holds (jh_cells (jm_heap m)) v j A"
    and x: "load_place (m\<lparr>jm_heap := jh_drop A (jm_heap m)\<rparr>) q = Inr x"
      "holds (jh_cells (jm_heap m)) x k B" "A \<inter> B = {}"
  obtains w h C where "json_assign p q m = store_place (m\<lparr>jm_heap := h\<rparr>) p w"
    "holds (jh_cells h) w k C" "extends (jh_drop A (jm_heap m)) h C"
proof -
  have h: "holds (jh_cells (jh_drop A (jm_heap m))) x k B"
    by (rule holds_frame(1) [OF x(2)]) (use x(3) in \<open>auto simp: restrict_map_def\<close>)
  obtain w h C where c: "json_copy x (jh_drop A (jm_heap m)) = Inr (w, h)" "holds (jh_cells h) w k C"
      "extends (jh_drop A (jm_heap m)) h C"
    using json_copy_holds [OF jh_drop_ok [OF ok] h] by blast
  have "json_assign p q m = store_place (m\<lparr>jm_heap := h\<rparr>) p w"
    using ne v x(1) json_destroy_holds [OF ok v(2)] c(1) by (simp add: json_assign_def)
  then show thesis using c that by blast
qed

end
