(* ===== verification/Json_Values.thy ===== *)
theory Json_Values
  imports Json_Store
begin

text \<open>
  Programs on the values of \<^verbatim>\<open>framework/include/framework/picojson/picojson.h\<close>: what constructors, assignment, \<open>swap\<close>, \<open>get\<close>,
  \<open>push_back\<close> and destruction do in memory (theory \<open>Json_Store\<close>) is what they do on trees that are copied
  (\<open>jvalue\<close>, the type the parser, the serializer and the document reader are stated over).

  \<open>owned m J F\<close> says that every variable \<open>x\<close> stands for \<open>J x\<close> and owns the cells \<open>F x\<close>, that no two own
  the same cell and that there is no other cell. An operation on a variable and a part of the same variable
  is left to the lemma on \<open>v = v.get(i)\<close>, which reads what it has just freed.
\<close>

section \<open>Ownership\<close>

definition owned :: "jmem \<Rightarrow> (jvar \<Rightarrow> jvalue) \<Rightarrow> (jvar \<Rightarrow> nat set) \<Rightarrow> bool" where
  "owned m J F \<longleftrightarrow> heap_ok (jm_heap m)
     \<and> (\<forall>x. holds (jh_cells (jm_heap m)) (jm_vars m x) (J x) (F x))
     \<and> (\<forall>x y. x \<noteq> y \<longrightarrow> F x \<inter> F y = {})
     \<and> dom (jh_cells (jm_heap m)) = (\<Union>x. F x)"

lemma ownedD:
  assumes "owned m J F"
  shows "heap_ok (jm_heap m)" "holds (jh_cells (jm_heap m)) (jm_vars m x) (J x) (F x)"
    "x \<noteq> y \<Longrightarrow> F x \<inter> F y = {}" "dom (jh_cells (jm_heap m)) = (\<Union>x. F x)"
  using assms unfolding owned_def by blast+

text \<open>One variable changes, with the cells it owns.\<close>

lemma owned_update:
  assumes o: "owned m J F" and ok: "heap_ok h" and w: "holds (jh_cells h) w k C"
    and old: "\<And>z a. z \<noteq> x \<Longrightarrow> a \<in> F z \<Longrightarrow> jh_cells h a = jh_cells (jm_heap m) a"
    and C: "\<And>z. z \<noteq> x \<Longrightarrow> C \<inter> F z = {}"
    and D: "dom (jh_cells h) = C \<union> (\<Union>z \<in> - {x}. F z)"
  shows "owned (m\<lparr>jm_heap := h, jm_vars := (jm_vars m)(x := w)\<rparr>) (J(x := k)) (F(x := C))"
proof -
  have "holds (jh_cells h) (((jm_vars m)(x := w)) z) ((J(x := k)) z) ((F(x := C)) z)" for z
    using w holds_frame(1) [OF ownedD(2) [OF o, of z], of "jh_cells h"] old [of z] by (cases "z = x") auto
  moreover have "(F(x := C)) y \<inter> (F(x := C)) z = {}" if "y \<noteq> z" for y z
    using that C [of y] C [of z] ownedD(3) [OF o, of y z] by auto
  moreover have "(\<Union>z. (F(x := C)) z) = C \<union> (\<Union>z \<in> - {x}. F z)" by auto
  ultimately show ?thesis using ok D by (simp add: owned_def)
qed

lemma owned_below: "owned m J F \<Longrightarrow> F z \<subseteq> {..<jh_next (jm_heap m)}"
  using holds_below ownedD(1,2) by blast

lemma drop_extends:
  assumes o: "owned m J F" and e: "extends (jh_drop A (jm_heap m)) h C"
  shows "heap_ok h" "\<And>z a. a \<in> F z \<Longrightarrow> a \<notin> A \<Longrightarrow> jh_cells h a = jh_cells (jm_heap m) a"
    "C \<inter> F z = {}" "dom (jh_cells h) = ((\<Union>z. F z) - A) \<union> C"
proof -
  show "heap_ok h" using e by (simp add: extends_def)
  show "jh_cells h a = jh_cells (jm_heap m) a" if "a \<in> F z" "a \<notin> A" for z a
    using owned_below [OF o, of z] e that by (auto simp: extends_def restrict_map_def)
  show "C \<inter> F z = {}"
    using extends_old(2) [OF e, of "F z"] owned_below [OF o, of z] by auto
  show "dom (jh_cells h) = ((\<Union>z. F z) - A) \<union> C"
    using e ownedD(4) [OF o] by (auto simp: extends_def)
qed

lemma owned_assign_from:
  assumes o: "owned m J F" and ne: "P_Var x \<noteq> q"
    and q: "load_place (m\<lparr>jm_heap := jh_drop (F x) (jm_heap m)\<rparr>) q = Inr v"
      "holds (jh_cells (jm_heap m)) v k B" "F x \<inter> B = {}"
  shows "\<exists>m' F'. json_assign (P_Var x) q m = Inr m' \<and> owned m' (J(x := k)) F'
    \<and> (\<forall>z. z \<noteq> x \<longrightarrow> jm_vars m' z = jm_vars m z)"
proof -
  have lx: "load_place m (P_Var x) = Inr (jm_vars m x)" by (simp add: load_place_def)
  obtain w h C where c: "json_assign (P_Var x) q m = store_place (m\<lparr>jm_heap := h\<rparr>) (P_Var x) w"
      "holds (jh_cells h) w k C" "extends (jh_drop (F x) (jm_heap m)) h C"
    by (rule assign_core [OF ownedD(1) [OF o] ne lx ownedD(2) [OF o] q])
  note d = drop_extends [OF o c(3)]
  have "owned (m\<lparr>jm_heap := h, jm_vars := (jm_vars m)(x := w)\<rparr>) (J(x := k)) (F(x := C))"
  proof (rule owned_update [OF o d(1) c(2) _ d(3)])
    show "jh_cells h a = jh_cells (jm_heap m) a" if "z \<noteq> x" "a \<in> F z" for z a
      using d(2) [OF that(2)] ownedD(3) [OF o that(1)] that(2) by blast
    show "dom (jh_cells h) = C \<union> (\<Union>z \<in> - {x}. F z)"
      unfolding d(4) using ownedD(3) [OF o] by blast
  qed
  then show ?thesis using c(1) by (fastforce simp: store_place_def)
qed

lemma owned_assign:
  assumes o: "owned m J F"
  shows "\<exists>m' F'. json_assign (P_Var x) (P_Var y) m = Inr m' \<and> owned m' (J(x := J y)) F'
    \<and> (\<forall>z. z \<noteq> x \<longrightarrow> jm_vars m' z = jm_vars m z)"
proof (cases "x = y")
  case True
  then show ?thesis using o by (auto simp: json_assign_def)
next
  case False
  show ?thesis
    by (rule owned_assign_from [OF o _ _ ownedD(2) [OF o, of y] ownedD(3) [OF o False]])
       (use False in \<open>simp_all add: load_place_def\<close>)
qed

lemma owned_destroy:
  assumes o: "owned m J F"
  shows "\<exists>m' F'. destroy_var x m = Inr m' \<and> owned m' (J(x := JNull)) F'
    \<and> jm_vars m' = (jm_vars m)(x := V_Null)"
proof -
  have "owned (m\<lparr>jm_heap := jh_drop (F x) (jm_heap m), jm_vars := (jm_vars m)(x := V_Null)\<rparr>) (J(x := JNull)) (F(x := {}))"
  proof (rule owned_update [OF o jh_drop_ok [OF ownedD(1) [OF o]]])
    show "jh_cells (jh_drop (F x) (jm_heap m)) a = jh_cells (jm_heap m) a" if "z \<noteq> x" "a \<in> F z" for z a
      using ownedD(3) [OF o that(1)] that(2) by (auto simp: restrict_map_def)
    show "dom (jh_cells (jh_drop (F x) (jm_heap m))) = {} \<union> (\<Union>z \<in> - {x}. F z)"
      using ownedD(3,4) [OF o] by auto
  qed simp_all
  then show ?thesis
    using json_destroy_holds [OF ownedD(1,2) [OF o]] by (auto simp: destroy_var_def)
qed

lemma owned_temp:
  assumes o: "owned m J F" and t: "jm_vars m Temp = V_Null"
    and w: "holds (jh_cells h) w j C" and e: "extends (jm_heap m) h C"
  shows "owned (m\<lparr>jm_heap := h, jm_vars := (jm_vars m)(Temp := w)\<rparr>) (J(Temp := j)) (F(Temp := C))"
proof -
  have e': "extends (jh_drop {} (jm_heap m)) h C" using e by simp
  note d = drop_extends [OF o e']
  have "F Temp = {}" using ownedD(2) [OF o, of Temp] t by simp
  moreover have "(\<Union>z. F z) = F Temp \<union> (\<Union>z \<in> - {Temp}. F z)" by auto
  ultimately have U: "(\<Union>z. F z) = (\<Union>z \<in> - {Temp}. F z)" by simp
  show ?thesis
  proof (rule owned_update [OF o d(1) w _ d(3)])
    show "jh_cells h a = jh_cells (jm_heap m) a" if "a \<in> F z" for z a using d(2) [OF that] by simp
    show "dom (jh_cells h) = C \<union> (\<Union>z \<in> - {Temp}. F z)" using d(4) U by blast
  qed
qed

lemma owned_assign_temp:
  assumes o: "owned m J F" and t: "jm_vars m Temp = V_Null" and x: "x \<noteq> Temp"
    and w: "holds (jh_cells h) w j C" and e: "extends (jm_heap m) h C"
  shows "\<exists>m' F'. assign_temp (P_Var x) (w, h) m = Inr m' \<and> owned m' (J(x := j)) F' \<and> jm_vars m' Temp = V_Null"
proof -
  let ?m = "m\<lparr>jm_heap := h, jm_vars := (jm_vars m)(Temp := w)\<rparr>"
  obtain m1 F1 where m1: "json_assign (P_Var x) (P_Var Temp) ?m = Inr m1" "owned m1 ((J(Temp := j))(x := j)) F1"
    using owned_assign [OF owned_temp [OF o t w e], of x Temp] by auto
  obtain m2 F2 where m2: "destroy_var Temp m1 = Inr m2" "owned m2 ((J(Temp := j))(x := j, Temp := JNull)) F2"
      "jm_vars m2 Temp = V_Null"
    using owned_destroy [OF m1(2), of Temp] by auto
  have "J Temp = JNull" using ownedD(2) [OF o, of Temp] t by simp
  then have "(J(Temp := j))(x := j, Temp := JNull) = J(x := j)" using x by auto
  then show ?thesis using m1(1) m2 by (auto simp: assign_temp_def)
qed

section \<open>Parts of a value\<close>

lemma holds_list_nth:
  "holds_list c vs js A \<Longrightarrow> i < length vs \<Longrightarrow>
     \<exists>B. holds c (vs ! i) (js ! i) B \<and> B \<subseteq> A \<and>
       (\<forall>d w k C. (\<forall>a \<in> A - B. d a = c a) \<longrightarrow> holds d w k C \<longrightarrow> C \<inter> (A - B) = {} \<longrightarrow>
          holds_list d (vs[i := w]) (js[i := k]) ((A - B) \<union> C))"
proof (induction vs arbitrary: js A i)
  case Nil
  then show ?case by simp
next
  case (Cons v vs)
  from Cons.prems(1) obtain j js' A1 A2 where s: "js = j # js'" "A = A1 \<union> A2" "holds c v j A1"
      "holds_list c vs js' A2" "A1 \<inter> A2 = {}"
    by (auto elim: holds_consE)
  show ?case
  proof (cases i)
    case 0
    have "holds_list d (w # vs) (k # js') ((A - A1) \<union> C)"
      if d: "\<forall>a \<in> A - A1. d a = c a" and w: "holds d w k C" and C: "C \<inter> (A - A1) = {}" for d w k C
    proof -
      have A2: "A - A1 = A2" using s(2,5) by blast
      have "holds_list d vs js' A2" by (rule holds_frame(2) [OF s(4)]) (use d A2 in auto)
      moreover have "C \<inter> A2 = {}" using C A2 by simp
      ultimately show ?thesis using holds_cons [OF w, of vs js' A2] A2 by (simp add: Un_commute)
    qed
    then show ?thesis using s 0 by (intro exI [of _ A1]) auto
  next
    case (Suc n)
    obtain B where B: "holds c (vs ! n) (js' ! n) B" "B \<subseteq> A2"
        and upd: "\<And>d w k C. (\<forall>a \<in> A2 - B. d a = c a) \<Longrightarrow> holds d w k C \<Longrightarrow> C \<inter> (A2 - B) = {} \<Longrightarrow>
          holds_list d (vs[n := w]) (js'[n := k]) ((A2 - B) \<union> C)"
      using Cons.IH [OF s(4), of n] Cons.prems(2) Suc by auto
    have "holds_list d (v # vs[n := w]) (j # js'[n := k]) ((A - B) \<union> C)"
      if d: "\<forall>a \<in> A - B. d a = c a" and w: "holds d w k C" and C: "C \<inter> (A - B) = {}" for d w k C
    proof -
      have AB: "A - B = A1 \<union> (A2 - B)" using s(2,5) B(2) by blast
      have "holds d v j A1" by (rule holds_frame(1) [OF s(3)]) (use d AB in auto)
      moreover have "holds_list d (vs[n := w]) (js'[n := k]) ((A2 - B) \<union> C)"
        by (rule upd [OF _ w]) (use d C AB in auto)
      moreover have "A1 \<inter> ((A2 - B) \<union> C) = {}" using s(5) C AB by blast
      ultimately show ?thesis using holds_cons [of d v j A1] AB by (simp add: Un_assoc)
    qed
    then show ?thesis using s B Suc by (intro exI [of _ B]) auto
  qed
qed

lemma holds_list_snoc:
  "holds_list c vs js A \<Longrightarrow> holds c w k C \<Longrightarrow> A \<inter> C = {} \<Longrightarrow> holds_list c (vs @ [w]) (js @ [k]) (A \<union> C)"
proof (induction vs arbitrary: js A)
  case Nil
  then have "js = []" "A = {}" by (auto elim: holds_list.cases)
  then show ?case using holds_cons [OF Nil.prems(2) holds_nil] by simp
next
  case (Cons v vs)
  from Cons.prems(1) obtain j js' A1 A2 where s: "js = j # js'" "A = A1 \<union> A2" "holds c v j A1"
      "holds_list c vs js' A2" "A1 \<inter> A2 = {}"
    by (auto elim: holds_consE)
  have "holds_list c (vs @ [w]) (js' @ [k]) (A2 \<union> C)"
    by (rule Cons.IH [OF s(4) Cons.prems(2)]) (use Cons.prems(3) s(2) in blast)
  moreover have "A1 \<inter> (A2 \<union> C) = {}" using s(2,5) Cons.prems(3) by blast
  ultimately show ?case using s holds_cons [OF s(3)] by (simp add: Un_assoc)
qed

lemma set_cell_simps [simp]:
  "jm_vars (set_cell m a c) = jm_vars m"
  "jm_heap (set_cell m a c) = (jm_heap m)\<lparr>jh_cells := (jh_cells (jm_heap m))(a \<mapsto> c)\<rparr>"
  by (simp_all add: set_cell_def)

text \<open>A cell of a variable is rewritten; \<open>E\<close> are the variable's cells afterwards.\<close>

lemma owned_set_cell:
  assumes o: "owned m J F" and a: "a \<in> F x" "B \<subseteq> F x - {a}" and e: "extends (jh_drop B (jm_heap m)) h C"
    and v: "holds ((jh_cells h)(a \<mapsto> cell)) (jm_vars m x) k ((F x - B) \<union> C)"
  shows "owned (set_cell (m\<lparr>jm_heap := h\<rparr>) a cell) (J(x := k)) (F(x := (F x - B) \<union> C))"
proof -
  note d = drop_extends [OF o e]
  have ha: "jh_cells h a = jh_cells (jm_heap m) a" using d(2) [OF a(1)] a(2) by blast
  have da: "a \<in> dom (jh_cells (jm_heap m))" using ownedD(4) [OF o] a(1) by blast
  let ?h = "h\<lparr>jh_cells := (jh_cells h)(a \<mapsto> cell)\<rparr>"
  have "owned (m\<lparr>jm_heap := ?h, jm_vars := (jm_vars m)(x := jm_vars m x)\<rparr>) (J(x := k)) (F(x := (F x - B) \<union> C))"
  proof (rule owned_update [OF o])
    have "a < jh_next h" using d(1) da ha by (auto simp: heap_ok_def subset_iff dom_def)
    then show "heap_ok ?h" using d(1) by (auto simp: heap_ok_def)
    show "holds (jh_cells ?h) (jm_vars m x) k ((F x - B) \<union> C)" using v by simp
    show "jh_cells ?h b = jh_cells (jm_heap m) b" if "z \<noteq> x" "b \<in> F z" for z b
      using d(2) [OF that(2)] ownedD(3) [OF o that(1)] that(2) a by auto
    show "((F x - B) \<union> C) \<inter> F z = {}" if "z \<noteq> x" for z
      using ownedD(3) [OF o that] d(3) [of z] by blast
    have "dom (jh_cells ?h) = dom (jh_cells h)" using da ha by (simp add: insert_absorb domIff)
    also have "\<dots> = ((F x - B) \<union> C) \<union> (\<Union>z \<in> - {x}. F z)"
      unfolding d(4) using ownedD(3) [OF o] a(2) by blast
    finally show "dom (jh_cells ?h) = ((F x - B) \<union> C) \<union> (\<Union>z \<in> - {x}. F z)" .
  qed
  then show ?thesis by (simp add: set_cell_def)
qed

lemma owned_assign_child:
  assumes o: "owned m J F" and xy: "x \<noteq> y" and a: "a \<in> F x" "B \<subseteq> F x - {a}"
    and p: "p \<noteq> P_Var y" "load_place m p = Inr v" "holds (jh_cells (jm_heap m)) v j B"
    and st: "\<And>h w. jh_cells h a = jh_cells (jm_heap m) a \<Longrightarrow>
      store_place (m\<lparr>jm_heap := h\<rparr>) p w = Inr (set_cell (m\<lparr>jm_heap := h\<rparr>) a (cell w))"
    and upd: "\<And>d w C. d a = Some (cell w) \<Longrightarrow> (\<forall>b \<in> F x - insert a B. d b = jh_cells (jm_heap m) b) \<Longrightarrow>
      holds d w (J y) C \<Longrightarrow> C \<inter> F x = {} \<Longrightarrow> holds d (jm_vars m x) k ((F x - B) \<union> C)"
  shows "\<exists>m' F'. json_assign p (P_Var y) m = Inr m' \<and> owned m' (J(x := k)) F' \<and> jm_vars m' = jm_vars m"
proof -
  have ly: "load_place (m\<lparr>jm_heap := jh_drop B (jm_heap m)\<rparr>) (P_Var y) = Inr (jm_vars m y)"
    by (simp add: load_place_def)
  have dis: "B \<inter> F y = {}" using ownedD(3) [OF o xy] a(2) by blast
  obtain w h C where c: "json_assign p (P_Var y) m = store_place (m\<lparr>jm_heap := h\<rparr>) p w"
      "holds (jh_cells h) w (J y) C" "extends (jh_drop B (jm_heap m)) h C"
    by (rule assign_core [OF ownedD(1) [OF o] p ly ownedD(2) [OF o] dis])
  note d = drop_extends [OF o c(3)]
  have keep: "jh_cells h b = jh_cells (jm_heap m) b" if "b \<in> F x" "b \<notin> B" for b
    using d(2) [OF that] .
  have aC: "a \<notin> C" using d(3) [of x] a(1) by blast
  have s: "store_place (m\<lparr>jm_heap := h\<rparr>) p w = Inr (set_cell (m\<lparr>jm_heap := h\<rparr>) a (cell w))"
    using st keep [OF a(1)] a(2) by blast
  have "holds ((jh_cells h)(a \<mapsto> cell w)) (jm_vars m x) k ((F x - B) \<union> C)"
  proof (rule upd)
    show "\<forall>b \<in> F x - insert a B. ((jh_cells h)(a \<mapsto> cell w)) b = jh_cells (jm_heap m) b"
      using keep by auto
    show "holds ((jh_cells h)(a \<mapsto> cell w)) w (J y) C"
      by (rule holds_frame(1) [OF c(2)]) (use aC in auto)
    show "C \<inter> F x = {}" using d(3) .
  qed simp
  then have "owned (set_cell (m\<lparr>jm_heap := h\<rparr>) a (cell w)) (J(x := k)) (F(x := (F x - B) \<union> C))"
    by (rule owned_set_cell [OF o a c(3)])
  then show ?thesis using c(1) s by auto
qed

section \<open>Programs\<close>

text \<open>Variables are the locals of the client. \<open>J_Set\<close>, \<open>J_Get\<close>, \<open>J_Put\<close> and \<open>J_Find\<close> are \<open>x.get(i) = y\<close>,
  \<open>x = y.get(i)\<close>, \<open>x.get(k) = y\<close> and \<open>x = y.get(k)\<close>, \<open>J_Insert\<close> is \<open>x.get<object>()[k] = y\<close>.\<close>

datatype json_op =
    J_Null nat
  | J_Bool nat bool
  | J_Number nat "rat option"
  | J_String nat string
  | J_Start nat jtype
  | J_Assign nat nat
  | J_Swap nat nat
  | J_Drop nat
  | J_Push nat nat
  | J_Set nat nat nat
  | J_Get nat nat nat
  | J_Put nat string nat
  | J_Find nat nat string
  | J_Insert nat string nat

definition local_place :: "nat \<Rightarrow> jplace" where
  "local_place x = P_Var (Local x)"

fun json_step :: "json_op \<Rightarrow> jmem \<Rightarrow> jmem result" where
  "json_step (J_Null x) m = ctx_set_null (local_place x) m"
| "json_step (J_Bool x b) m = ctx_set_bool (local_place x) b m"
| "json_step (J_Number x f) m = ctx_set_number (local_place x) f m"
| "json_step (J_String x s) m = assign_temp (local_place x) (value_of_string s (jm_heap m)) m"
| "json_step (J_Start x t) m = ctx_start (local_place x) t m"
| "json_step (J_Assign x y) m = json_assign (local_place x) (local_place y) m"
| "json_step (J_Swap x y) m = json_swap (local_place x) (local_place y) m"
| "json_step (J_Drop x) m = destroy_var (Local x) m"
| "json_step (J_Push x y) m = array_push (local_place x) (local_place y) m"
| "json_step (J_Set x i y) m =
     bind_res (get_idx_place (local_place x) i m) (\<lambda>p. json_assign p (local_place y) m)"
| "json_step (J_Get x y i) m =
     bind_res (get_idx_place (local_place y) i m) (\<lambda>q. json_assign (local_place x) q m)"
| "json_step (J_Put x k y) m =
     bind_res (get_key_place (local_place x) k m) (\<lambda>p. json_assign p (local_place y) m)"
| "json_step (J_Find x y k) m =
     bind_res (get_key_place (local_place y) k m) (\<lambda>q. json_assign (local_place x) q m)"
| "json_step (J_Insert x k y) m =
     bind_res (member_place (local_place x) k m) (\<lambda>(p, m1). json_assign p (local_place y) m1)"

fun json_run :: "json_op list \<Rightarrow> jmem \<Rightarrow> jmem result" where
  "json_run [] m = Inr m"
| "json_run (op # ops) m = bind_res (json_step op m) (json_run ops)"

definition json_start :: jmem where
  "json_start = \<lparr>jm_heap = \<lparr>jh_cells = Map.empty, jh_next = 0\<rparr>, jm_vars = (\<lambda>_. V_Null)\<rparr>"

text \<open>The same on trees.\<close>

definition tree_of_type :: "jtype \<Rightarrow> jvalue" where
  "tree_of_type t = (case t of T_Null \<Rightarrow> JNull | T_Boolean \<Rightarrow> JBool False | T_Number \<Rightarrow> JNum 0
     | T_String \<Rightarrow> JStr [] | T_Array \<Rightarrow> JArr [] | T_Object \<Rightarrow> JObj [])"

definition obj_set :: "string \<Rightarrow> 'v \<Rightarrow> (string \<times> 'v) list \<Rightarrow> (string \<times> 'v) list" where
  "obj_set k w ps = map (\<lambda>(k', v). (k', if k' = k then w else v)) ps"

fun tree_step :: "json_op \<Rightarrow> (jvar \<Rightarrow> jvalue) \<Rightarrow> (jvar \<Rightarrow> jvalue) result" where
  "tree_step (J_Null x) J = Inr (J(Local x := JNull))"
| "tree_step (J_Bool x b) J = Inr (J(Local x := JBool b))"
| "tree_step (J_Number x f) J = map_res (\<lambda>v. J(Local x := v)) (value_of_double f)"
| "tree_step (J_String x s) J = Inr (J(Local x := JStr s))"
| "tree_step (J_Start x t) J = Inr (J(Local x := tree_of_type t))"
| "tree_step (J_Assign x y) J = Inr (J(Local x := J (Local y)))"
| "tree_step (J_Swap x y) J = Inr (J(Local x := J (Local y), Local y := J (Local x)))"
| "tree_step (J_Drop x) J = Inr (J(Local x := JNull))"
| "tree_step (J_Push x y) J = map_res (\<lambda>a. J(Local x := JArr (a @ [J (Local y)]))) (get_array (J (Local x)))"
| "tree_step (J_Set x i y) J =
     map_res (\<lambda>a. if i < length a then J(Local x := JArr (a[i := J (Local y)])) else J(Null_Idx := J (Local y)))
       (get_array (J (Local x)))"
| "tree_step (J_Get x y i) J =
     map_res (\<lambda>a. J(Local x := if i < length a then a ! i else J Null_Idx)) (get_array (J (Local y)))"
| "tree_step (J_Put x k y) J =
     map_res (\<lambda>ob. if map_of ob k \<noteq> None then J(Local x := JObj (obj_set k (J (Local y)) ob)) else J(Null_Key := J (Local y)))
       (get_object (J (Local x)))"
| "tree_step (J_Find x y k) J =
     map_res (\<lambda>ob. J(Local x := case map_of ob k of Some v \<Rightarrow> v | None \<Rightarrow> J Null_Key)) (get_object (J (Local y)))"
| "tree_step (J_Insert x k y) J =
     map_res (\<lambda>ob. J(Local x := JObj (obj_put k (J (Local y)) ob))) (get_object (J (Local x)))"

fun tree_run :: "json_op list \<Rightarrow> (jvar \<Rightarrow> jvalue) \<Rightarrow> (jvar \<Rightarrow> jvalue) result" where
  "tree_run [] J = Inr J"
| "tree_run (op # ops) J = bind_res (tree_step op J) (tree_run ops)"

text \<open>No operation mixes a variable with a part of itself.\<close>

fun apart :: "json_op \<Rightarrow> bool" where
  "apart (J_Set x i y) = (x \<noteq> y)"
| "apart (J_Get x y i) = (x \<noteq> y)"
| "apart (J_Put x k y) = (x \<noteq> y)"
| "apart (J_Find x y k) = (x \<noteq> y)"
| "apart (J_Insert x k y) = (x \<noteq> y)"
| "apart _ = True"

lemma owned_array:
  assumes "owned m J F" and "J x = JArr js"
  obtains a vs A where "jm_vars m x = V_Arr a" "jh_cells (jm_heap m) a = Some (C_Arr vs)"
    "holds_list (jh_cells (jm_heap m)) vs js A" "a \<notin> A" "F x = insert a A" "length vs = length js"
proof -
  have "holds (jh_cells (jm_heap m)) (jm_vars m x) (JArr js) (F x)" using ownedD(2) [OF assms(1), of x] assms(2) by simp
  then show thesis by (cases rule: holds.cases) (use that holds_list_length in blast)
qed

lemma owned_object:
  assumes "owned m J F" and "J x = JObj ob"
  obtains a ps A where "jm_vars m x = V_Obj a" "jh_cells (jm_heap m) a = Some (C_Obj ps)"
    "holds_list (jh_cells (jm_heap m)) (map snd ps) (map snd ob) A" "map fst ps = map fst ob" "sorted_wrt (<) (map fst ob)"
    "a \<notin> A" "F x = insert a A"
proof -
  have "holds (jh_cells (jm_heap m)) (jm_vars m x) (JObj ob) (F x)" using ownedD(2) [OF assms(1), of x] assms(2) by simp
  then show thesis by (cases rule: holds.cases) (use that in blast)
qed

lemma holds_tags:
  assumes "holds c v j A"
  shows "v = V_Arr a \<Longrightarrow> \<exists>js. j = JArr js" and "v = V_Obj a \<Longrightarrow> \<exists>ob. j = JObj ob"
  using assms by (auto elim: holds.cases)

lemma get_array_cases: "get_array j = Inl Std_Runtime_Error \<or> (\<exists>js. j = JArr js \<and> get_array j = Inr js)"
  by (cases j) auto

lemma get_object_cases: "get_object j = Inl Std_Runtime_Error \<or> (\<exists>ob. j = JObj ob \<and> get_object j = Inr ob)"
  by (cases j) auto

definition mem_ok :: "jmem \<Rightarrow> (jvar \<Rightarrow> jvalue) \<Rightarrow> bool" where
  "mem_ok m J \<longleftrightarrow> (\<exists>F. owned m J F) \<and> jm_vars m Temp = V_Null"

text \<open>The operation in memory ends as the one on trees.\<close>

definition implements :: "jmem result \<Rightarrow> (jvar \<Rightarrow> jvalue) result \<Rightarrow> bool" where
  "implements r t \<longleftrightarrow> (case t of Inl e \<Rightarrow> r = Inl e | Inr J \<Rightarrow> \<exists>m. r = Inr m \<and> mem_ok m J)"

lemma implements_simps [simp]:
  "implements (Inl e) (Inl e)"
  "implements (Inr m) (Inr J) \<longleftrightarrow> mem_ok m J"
  by (simp_all add: implements_def)

lemma implementsI: "r = Inr m \<Longrightarrow> mem_ok m J \<Longrightarrow> implements r (Inr J)"
  by simp

lemma temp_implements:
  assumes m: "mem_ok m J" and e: "extends (jm_heap m) h C" and w: "holds (jh_cells h) w j C"
  shows "implements (assign_temp (local_place x) (w, h) m) (Inr (J(Local x := j)))"
  using m owned_assign_temp [OF _ _ _ w e, of J _ "Local x"]
  unfolding mem_ok_def local_place_def by (fastforce simp: mem_ok_def)

lemma mem_heap_ok: "mem_ok m J \<Longrightarrow> heap_ok (jm_heap m)"
  unfolding mem_ok_def using ownedD(1) by blast

lemma temp_plain:
  assumes m: "mem_ok m J" and w: "holds (jh_cells (jm_heap m)) w j {}"
  shows "implements (assign_temp (local_place x) (w, jm_heap m) m) (Inr (J(Local x := j)))"
  by (rule temp_implements [OF m extends_refl [OF mem_heap_ok [OF m]] w])

lemma temp_new:
  assumes m: "mem_ok m J" and w: "\<And>(h :: jheap) b. jh_cells h b = Some c \<Longrightarrow> holds (jh_cells h) (f b) j {b}"
  shows "implements (assign_temp (local_place x) (map_prod f id (jh_new c (jm_heap m))) m) (Inr (J(Local x := j)))"
proof -
  obtain b h where n: "jh_new c (jm_heap m) = (b, h)" by (cases "jh_new c (jm_heap m)")
  note e = extends_new [OF mem_heap_ok [OF m] n]
  show ?thesis using temp_implements [OF m e(1) w [OF e(2)]] by (simp add: n)
qed

lemma holds_new:
  "jh_cells h b = Some (C_Str s) \<Longrightarrow> holds (jh_cells h) (V_Str b) (JStr s) {b}"
  "jh_cells h b = Some (C_Arr []) \<Longrightarrow> holds (jh_cells h) (V_Arr b) (JArr []) {b}"
  "jh_cells h b = Some (C_Obj []) \<Longrightarrow> holds (jh_cells h) (V_Obj b) (JObj []) {b}"
  using holds_arr [of "jh_cells h" b "[]" "[]" "{}"] holds_obj [of "jh_cells h" b "[]" "[]" "{}"]
  by (auto intro: holds_holds_list.intros)

lemma assign_implements:
  assumes m: "mem_ok m J" and y: "y \<noteq> Temp" and x: "x \<noteq> Temp"
  shows "implements (json_assign (P_Var x) (P_Var y) m) (Inr (J(x := J y)))"
proof -
  obtain F where o: "owned m J F" and t: "jm_vars m Temp = V_Null" using m by (auto simp: mem_ok_def)
  obtain m' F' where r: "json_assign (P_Var x) (P_Var y) m = Inr m'" "owned m' (J(x := J y)) F'"
      "\<forall>z. z \<noteq> x \<longrightarrow> jm_vars m' z = jm_vars m z"
    using owned_assign [OF o] by blast
  have "jm_vars m' Temp = V_Null" using r(3) t x by metis
  then show ?thesis using r(1,2) by (auto simp: mem_ok_def)
qed

lemma drop_implements:
  assumes "mem_ok m J"
  shows "implements (destroy_var (Local x) m) (Inr (J(Local x := JNull)))"
  using assms owned_destroy [of m J _ "Local x"] unfolding mem_ok_def by (fastforce simp: mem_ok_def)

lemma swap_implements:
  assumes "mem_ok m J"
  shows "implements (json_swap (local_place x) (local_place y) m) (Inr (J(Local x := J (Local y), Local y := J (Local x))))"
proof -
  obtain F where o: "owned m J F" and t: "jm_vars m Temp = V_Null" using assms by (auto simp: mem_ok_def)
  let ?m = "m\<lparr>jm_vars := (jm_vars m)(Local x := jm_vars m (Local y), Local y := jm_vars m (Local x))\<rparr>"
  let ?F = "F(Local x := F (Local y), Local y := F (Local x))"
  have "owned ?m (J(Local x := J (Local y), Local y := J (Local x))) ?F"
    unfolding owned_def
  proof (intro conjI allI impI)
    show "heap_ok (jm_heap ?m)" using ownedD(1) [OF o] by simp
    show "holds (jh_cells (jm_heap ?m)) (jm_vars ?m z) ((J(Local x := J (Local y), Local y := J (Local x))) z) (?F z)" for z
      using ownedD(2) [OF o] by simp
    show "?F u \<inter> ?F z = {}" if "u \<noteq> z" for u z
    proof -
      define swap where "swap z = (if z = Local y then Local x else if z = Local x then Local y else z)" for z
      have "swap u \<noteq> swap z" using that by (auto simp: swap_def)
      moreover have "?F w = F (swap w)" for w by (simp add: swap_def)
      ultimately show ?thesis using ownedD(3) [OF o] by simp
    qed
    have "(\<Union>z. ?F z) = (\<Union>z. F z)" by (auto split: if_splits) (metis)+
    then show "dom (jh_cells (jm_heap ?m)) = (\<Union>z. ?F z)" using ownedD(4) [OF o] by simp
  qed
  then show ?thesis
    using t by (auto simp: mem_ok_def json_swap_def local_place_def load_place_def store_place_def)
qed

lemma var_load [simp]: "load_place m (P_Var x) = Inr (jm_vars m x)"
  by (simp add: load_place_def)

lemma idx_place:
  assumes "owned m J F"
  shows "get_idx_place (P_Var x) i m = Inl Std_Runtime_Error \<and> get_array (J x) = Inl Std_Runtime_Error
    \<or> (\<exists>js a vs A. J x = JArr js \<and> jm_vars m x = V_Arr a \<and> jh_cells (jm_heap m) a = Some (C_Arr vs)
        \<and> holds_list (jh_cells (jm_heap m)) vs js A \<and> a \<notin> A \<and> F x = insert a A \<and> length vs = length js
        \<and> get_idx_place (P_Var x) i m = Inr (if i < length js then P_Elem a i else P_Var Null_Idx))"
proof (cases "\<exists>js. J x = JArr js")
  case True
  then obtain js where js: "J x = JArr js" by blast
  obtain a vs A where c: "jm_vars m x = V_Arr a" "jh_cells (jm_heap m) a = Some (C_Arr vs)"
    "holds_list (jh_cells (jm_heap m)) vs js A" "a \<notin> A" "F x = insert a A" "length vs = length js"
    by (rule owned_array [OF assms js])
  then have "get_idx_place (P_Var x) i m = Inr (if i < length js then P_Elem a i else P_Var Null_Idx)"
    by (simp add: get_idx_place_def)
  then show ?thesis using js c by blast
next
  case False
  then have "jm_vars m x \<noteq> V_Arr a" for a using holds_tags(1) [OF ownedD(2) [OF assms, of x]] by blast
  then have "get_idx_place (P_Var x) i m = Inl Std_Runtime_Error"
    by (auto simp: get_idx_place_def split: jval.split)
  then show ?thesis using False get_array_cases [of "J x"] by blast
qed

lemma key_place:
  assumes "owned m J F"
  shows "get_key_place (P_Var x) k m = Inl Std_Runtime_Error \<and> get_object (J x) = Inl Std_Runtime_Error
    \<or> (\<exists>ob a ps A. J x = JObj ob \<and> jm_vars m x = V_Obj a \<and> jh_cells (jm_heap m) a = Some (C_Obj ps)
        \<and> holds_list (jh_cells (jm_heap m)) (map snd ps) (map snd ob) A \<and> map fst ps = map fst ob
        \<and> sorted_wrt (<) (map fst ob) \<and> a \<notin> A \<and> F x = insert a A
        \<and> get_key_place (P_Var x) k m = Inr (if k \<in> fst ` set ob then P_Member a k else P_Var Null_Key))"
proof (cases "\<exists>ob. J x = JObj ob")
  case True
  then obtain ob where ob: "J x = JObj ob" by blast
  obtain a ps A where c: "jm_vars m x = V_Obj a" "jh_cells (jm_heap m) a = Some (C_Obj ps)"
    "holds_list (jh_cells (jm_heap m)) (map snd ps) (map snd ob) A" "map fst ps = map fst ob" "sorted_wrt (<) (map fst ob)"
    "a \<notin> A" "F x = insert a A"
    by (rule owned_object [OF assms ob])
  have "map_of ps k \<noteq> None \<longleftrightarrow> k \<in> fst ` set ob"
    using c(4) by (metis map_of_eq_None_iff set_map)
  then have "get_key_place (P_Var x) k m = Inr (if k \<in> fst ` set ob then P_Member a k else P_Var Null_Key)"
    using c(1,2) by (simp add: get_key_place_def)
  then show ?thesis using ob c by blast
next
  case False
  then have "jm_vars m x \<noteq> V_Obj a" for a using holds_tags(2) [OF ownedD(2) [OF assms, of x]] by blast
  then have "get_key_place (P_Var x) k m = Inl Std_Runtime_Error"
    by (auto simp: get_key_place_def split: jval.split)
  then show ?thesis using False get_object_cases [of "J x"] by blast
qed

lemma get_implements:
  assumes m: "mem_ok m J" and xy: "x \<noteq> y"
  shows "implements (json_step (J_Get x y i) m) (tree_step (J_Get x y i) J)"
proof -
  obtain F where o: "owned m J F" and t: "jm_vars m Temp = V_Null" using m by (auto simp: mem_ok_def)
  from idx_place [OF o, of "Local y" i] show ?thesis
  proof (elim disjE exE conjE)
    fix js a vs A
    assume j: "J (Local y) = JArr js" and c: "jh_cells (jm_heap m) a = Some (C_Arr vs)"
      and hl: "holds_list (jh_cells (jm_heap m)) vs js A" and F: "F (Local y) = insert a A" and len: "length vs = length js"
      and g: "get_idx_place (P_Var (Local y)) i m = Inr (if i < length js then P_Elem a i else P_Var Null_Idx)"
    show ?thesis
    proof (cases "i < length js")
      case True
      obtain B where B: "holds (jh_cells (jm_heap m)) (vs ! i) (js ! i) B" "B \<subseteq> A"
        using holds_list_nth [OF hl, of i] True len by auto
      have dis: "F (Local x) \<inter> insert a A = {}" using ownedD(3) [OF o, of "Local x" "Local y"] xy F by simp
      have "load_place (m\<lparr>jm_heap := jh_drop (F (Local x)) (jm_heap m)\<rparr>) (P_Elem a i) = Inr (vs ! i)"
        using c dis True len by (simp add: load_place_def)
      then obtain m' F' where r: "json_assign (P_Var (Local x)) (P_Elem a i) m = Inr m'"
          "owned m' (J(Local x := js ! i)) F'" "\<forall>z. z \<noteq> Local x \<longrightarrow> jm_vars m' z = jm_vars m z"
        using owned_assign_from [OF o, of "Local x" "P_Elem a i" "vs ! i" "js ! i" B] B dis by auto
      then have "mem_ok m' (J(Local x := js ! i))" using t by (auto simp: mem_ok_def)
      then show ?thesis using r(1) g j True by (simp add: local_place_def)
    next
      case False
      then show ?thesis using assign_implements [OF m, of Null_Idx "Local x"] g j by (simp add: local_place_def)
    qed
  qed (simp add: local_place_def)
qed

lemma set_implements:
  assumes m: "mem_ok m J" and xy: "x \<noteq> y"
  shows "implements (json_step (J_Set x i y) m) (tree_step (J_Set x i y) J)"
proof -
  obtain F where o: "owned m J F" and t: "jm_vars m Temp = V_Null" using m by (auto simp: mem_ok_def)
  from idx_place [OF o, of "Local x" i] show ?thesis
  proof (elim disjE exE conjE)
    fix js a vs A
    assume j: "J (Local x) = JArr js" and v: "jm_vars m (Local x) = V_Arr a"
      and c: "jh_cells (jm_heap m) a = Some (C_Arr vs)" and a: "a \<notin> A"
      and hl: "holds_list (jh_cells (jm_heap m)) vs js A" and F: "F (Local x) = insert a A" and len: "length vs = length js"
      and g: "get_idx_place (P_Var (Local x)) i m = Inr (if i < length js then P_Elem a i else P_Var Null_Idx)"
    show ?thesis
    proof (cases "i < length js")
      case True
      obtain B where B: "holds (jh_cells (jm_heap m)) (vs ! i) (js ! i) B" "B \<subseteq> A"
        and upd: "\<And>d w k C. (\<forall>b \<in> A - B. d b = jh_cells (jm_heap m) b) \<Longrightarrow> holds d w k C \<Longrightarrow> C \<inter> (A - B) = {} \<Longrightarrow>
          holds_list d (vs[i := w]) (js[i := k]) ((A - B) \<union> C)"
        using holds_list_nth [OF hl, of i] True len by auto
      have FB: "F (Local x) - B = insert a (A - B)" using F B(2) a by blast
      have upd': "holds d (jm_vars m (Local x)) (JArr (js[i := J (Local y)])) ((F (Local x) - B) \<union> C)"
        if d: "d a = Some (C_Arr (vs[i := w]))" "\<forall>b \<in> F (Local x) - insert a B. d b = jh_cells (jm_heap m) b"
          and w: "holds d w (J (Local y)) C" "C \<inter> F (Local x) = {}" for d w C
      proof -
        have "holds_list d (vs[i := w]) (js[i := J (Local y)]) ((A - B) \<union> C)"
          by (rule upd [OF _ w(1)]) (use d(2) w(2) F a in auto)
        then have "holds d (V_Arr a) (JArr (js[i := J (Local y)])) (insert a ((A - B) \<union> C))"
          by (rule holds_arr [where c = d, OF d(1)]) (use a w(2) F in auto)
        then show ?thesis using v FB by simp
      qed
      have st: "store_place (m\<lparr>jm_heap := h\<rparr>) (P_Elem a i) w = Inr (set_cell (m\<lparr>jm_heap := h\<rparr>) a (C_Arr (vs[i := w])))"
        if "jh_cells h a = jh_cells (jm_heap m) a" for h w
        using that c True len by (simp add: store_place_def)
      have ld: "load_place m (P_Elem a i) = Inr (vs ! i)" using c True len by (simp add: load_place_def)
      have aB: "a \<in> F (Local x)" "B \<subseteq> F (Local x) - {a}" using F B(2) a by auto
      have "\<exists>m' F'. json_assign (P_Elem a i) (P_Var (Local y)) m = Inr m'
          \<and> owned m' (J(Local x := JArr (js[i := J (Local y)]))) F' \<and> jm_vars m' = jm_vars m"
      proof (rule owned_assign_child [OF o _ aB _ ld B(1)])
        show "Local x \<noteq> Local y" using xy by simp
        show "P_Elem a i \<noteq> P_Var (Local y)" by simp
      qed (fact st, fact upd')
      then obtain m' F' where r: "json_assign (P_Elem a i) (P_Var (Local y)) m = Inr m'"
          "owned m' (J(Local x := JArr (js[i := J (Local y)]))) F'" "jm_vars m' = jm_vars m"
        by blast
      then have "mem_ok m' (J(Local x := JArr (js[i := J (Local y)])))" using t by (auto simp: mem_ok_def)
      then show ?thesis using r(1) g j True by (simp add: local_place_def)
    next
      case False
      then show ?thesis using assign_implements [OF m, of "Local y" Null_Idx] g j by (simp add: local_place_def)
    qed
  qed (simp add: local_place_def)
qed

lemma obj_set_keys [simp]: "map fst (obj_set k w ps) = map fst ps"
  by (auto simp: obj_set_def)

lemma obj_set_update:
  assumes "distinct (map fst ps)" and "i < length ps"
  shows "obj_set (fst (ps ! i)) w ps = ps[i := (fst (ps ! i), w)]"
proof (rule nth_equalityI)
  fix n assume "n < length (obj_set (fst (ps ! i)) w ps)"
  then have n: "n < length ps" by (simp add: obj_set_def)
  have "fst (ps ! n) = fst (ps ! i) \<longleftrightarrow> n = i"
    using assms n nth_eq_iff_index_eq [OF assms(1), of n i] by simp
  then show "obj_set (fst (ps ! i)) w ps ! n = ps[i := (fst (ps ! i), w)] ! n"
    using n by (cases "ps ! n") (auto simp: obj_set_def nth_list_update)
qed (simp add: obj_set_def)

lemma key_index:
  fixes ob :: "(string \<times> 'v) list"
  assumes "sorted_wrt (<) (map fst ob)" and "k \<in> fst ` set ob" and "map fst ps = map fst ob"
  obtains i where "i < length ob" "i < length ps" "fst (ob ! i) = k" "fst (ps ! i) = k"
    "map_of ob k = Some (snd (ob ! i))" "map_of ps k = Some (snd (ps ! i))"
proof -
  have dist: "distinct (map fst ob)" using assms(1) by (simp add: strict_sorted_iff)
  obtain i where i: "i < length ob" "fst (ob ! i) = k" using assms(2) by (auto simp: in_set_conv_nth)
  have len: "length ps = length ob" using assms(3) by (metis length_map)
  have k: "fst (ps ! i) = k" using assms(3) i len by (metis nth_map)
  have "map_of ob k = Some (snd (ob ! i))"
    using dist i by (metis map_of_is_SomeI nth_mem prod.collapse)
  moreover have "map_of ps k = Some (snd (ps ! i))"
    using dist assms(3) i len k by (metis map_of_is_SomeI nth_mem prod.collapse)
  ultimately show thesis using that i k len by simp
qed

lemma find_implements:
  assumes m: "mem_ok m J" and xy: "x \<noteq> y"
  shows "implements (json_step (J_Find x y k) m) (tree_step (J_Find x y k) J)"
proof -
  obtain F where o: "owned m J F" and t: "jm_vars m Temp = V_Null" using m by (auto simp: mem_ok_def)
  from key_place [OF o, of "Local y" k] show ?thesis
  proof (elim disjE exE conjE)
    fix ob a ps A
    assume j: "J (Local y) = JObj ob" and c: "jh_cells (jm_heap m) a = Some (C_Obj ps)"
      and hl: "holds_list (jh_cells (jm_heap m)) (map snd ps) (map snd ob) A" and F: "F (Local y) = insert a A"
      and keys: "map fst ps = map fst ob" and dist: "sorted_wrt (<) (map fst ob)"
      and g: "get_key_place (P_Var (Local y)) k m = Inr (if k \<in> fst ` set ob then P_Member a k else P_Var Null_Key)"
    show ?thesis
    proof (cases "k \<in> fst ` set ob")
      case True
      obtain i where i: "i < length ob" "i < length ps" "fst (ob ! i) = k" "fst (ps ! i) = k"
          "map_of ob k = Some (snd (ob ! i))" "map_of ps k = Some (snd (ps ! i))"
        by (rule key_index [OF dist True keys])
      obtain B where B: "holds (jh_cells (jm_heap m)) (snd (ps ! i)) (snd (ob ! i)) B" "B \<subseteq> A"
        using holds_list_nth [OF hl, of i] i by auto
      have dis: "F (Local x) \<inter> insert a A = {}" using ownedD(3) [OF o, of "Local x" "Local y"] xy F by simp
      have "load_place (m\<lparr>jm_heap := jh_drop (F (Local x)) (jm_heap m)\<rparr>) (P_Member a k) = Inr (snd (ps ! i))"
        using c dis i by (simp add: load_place_def)
      then obtain m' F' where r: "json_assign (P_Var (Local x)) (P_Member a k) m = Inr m'"
          "owned m' (J(Local x := snd (ob ! i))) F'" "\<forall>z. z \<noteq> Local x \<longrightarrow> jm_vars m' z = jm_vars m z"
        using owned_assign_from [OF o, of "Local x" "P_Member a k" "snd (ps ! i)" "snd (ob ! i)" B] B dis by auto
      then have "mem_ok m' (J(Local x := snd (ob ! i)))" using t by (auto simp: mem_ok_def)
      then show ?thesis using r(1) g j True i by (simp add: local_place_def)
    next
      case False
      then have "map_of ob k = None" by (simp add: map_of_eq_None_iff)
      then show ?thesis
        using False assign_implements [OF m, of Null_Key "Local x"] g j by (simp add: local_place_def)
    qed
  qed (simp add: local_place_def)
qed

lemma put_implements:
  assumes m: "mem_ok m J" and xy: "x \<noteq> y"
  shows "implements (json_step (J_Put x k y) m) (tree_step (J_Put x k y) J)"
proof -
  obtain F where o: "owned m J F" and t: "jm_vars m Temp = V_Null" using m by (auto simp: mem_ok_def)
  from key_place [OF o, of "Local x" k] show ?thesis
  proof (elim disjE exE conjE)
    fix ob a ps A
    assume j: "J (Local x) = JObj ob" and v: "jm_vars m (Local x) = V_Obj a"
      and c: "jh_cells (jm_heap m) a = Some (C_Obj ps)" and a: "a \<notin> A"
      and hl: "holds_list (jh_cells (jm_heap m)) (map snd ps) (map snd ob) A" and F: "F (Local x) = insert a A"
      and keys: "map fst ps = map fst ob" and dist: "sorted_wrt (<) (map fst ob)"
      and g: "get_key_place (P_Var (Local x)) k m = Inr (if k \<in> fst ` set ob then P_Member a k else P_Var Null_Key)"
    show ?thesis
    proof (cases "k \<in> fst ` set ob")
      case True
      obtain i where i: "i < length ob" "i < length ps" "fst (ob ! i) = k" "fst (ps ! i) = k"
          "map_of ob k = Some (snd (ob ! i))" "map_of ps k = Some (snd (ps ! i))"
        by (rule key_index [OF dist True keys])
      have upds: "obj_set k w ps = ps[i := (k, w)]" "obj_set k u ob = ob[i := (k, u)]" for w u
        using obj_set_update [of ps i w] obj_set_update [of ob i u] dist keys i by (simp_all add: strict_sorted_iff)
      have kps: "k \<in> fst ` set ps" using True keys by (metis set_map)
      obtain B where B: "holds (jh_cells (jm_heap m)) (snd (ps ! i)) (snd (ob ! i)) B" "B \<subseteq> A"
        and upd: "\<And>d w u C. (\<forall>b \<in> A - B. d b = jh_cells (jm_heap m) b) \<Longrightarrow> holds d w u C \<Longrightarrow> C \<inter> (A - B) = {} \<Longrightarrow>
          holds_list d ((map snd ps)[i := w]) ((map snd ob)[i := u]) ((A - B) \<union> C)"
        using holds_list_nth [OF hl, of i] i by auto
      have FB: "F (Local x) - B = insert a (A - B)" using F B(2) a by blast
      have upd': "holds d (jm_vars m (Local x)) (JObj (obj_set k (J (Local y)) ob)) ((F (Local x) - B) \<union> C)"
        if d: "d a = Some (C_Obj (obj_set k w ps))" "\<forall>b \<in> F (Local x) - insert a B. d b = jh_cells (jm_heap m) b"
          and w: "holds d w (J (Local y)) C" "C \<inter> F (Local x) = {}" for d w C
      proof -
        have "holds_list d ((map snd ps)[i := w]) ((map snd ob)[i := J (Local y)]) ((A - B) \<union> C)"
          by (rule upd [OF _ w(1)]) (use d(2) w(2) F a in auto)
        then have "holds_list d (map snd (obj_set k w ps)) (map snd (obj_set k (J (Local y)) ob)) ((A - B) \<union> C)"
          by (simp add: upds map_update)
        then have "holds d (V_Obj a) (JObj (obj_set k (J (Local y)) ob)) (insert a ((A - B) \<union> C))"
          by (rule holds_obj [where c = d, OF d(1)]) (use a w(2) F keys dist in auto)
        then show ?thesis using v FB by simp
      qed
      have st: "store_place (m\<lparr>jm_heap := h\<rparr>) (P_Member a k) w = Inr (set_cell (m\<lparr>jm_heap := h\<rparr>) a (C_Obj (obj_set k w ps)))"
        if "jh_cells h a = jh_cells (jm_heap m) a" for h w
        using that c kps by (simp add: store_place_def obj_set_def)
      have ld: "load_place m (P_Member a k) = Inr (snd (ps ! i))" using c i by (simp add: load_place_def)
      have aB: "a \<in> F (Local x)" "B \<subseteq> F (Local x) - {a}" using F B(2) a by auto
      have "\<exists>m' F'. json_assign (P_Member a k) (P_Var (Local y)) m = Inr m'
          \<and> owned m' (J(Local x := JObj (obj_set k (J (Local y)) ob))) F' \<and> jm_vars m' = jm_vars m"
      proof (rule owned_assign_child [OF o _ aB _ ld B(1)])
        show "Local x \<noteq> Local y" using xy by simp
        show "P_Member a k \<noteq> P_Var (Local y)" by simp
      qed (fact st, fact upd')
      then obtain m' F' where r: "json_assign (P_Member a k) (P_Var (Local y)) m = Inr m'"
          "owned m' (J(Local x := JObj (obj_set k (J (Local y)) ob))) F'" "jm_vars m' = jm_vars m"
        by blast
      then have "mem_ok m' (J(Local x := JObj (obj_set k (J (Local y)) ob)))" using t by (auto simp: mem_ok_def)
      then show ?thesis using r(1) g j i by (simp add: local_place_def True)
    next
      case False
      then have "map_of ob k = None" by (simp add: map_of_eq_None_iff)
      then show ?thesis
        using False assign_implements [OF m, of "Local y" Null_Key] g j by (simp add: local_place_def)
    qed
  qed (simp add: local_place_def)
qed

lemma pair_put_keys: "map fst (pair_put k w ps) = map fst (pair_put k u qs)"
  if "map fst ps = map fst qs"
  using that
proof (induction ps arbitrary: qs)
  case (Cons p ps)
  then show ?case by (cases p; cases qs) auto
qed simp

lemma pair_put_obj: "pair_put k w ob = obj_put k w ob"
  by (induction ob) auto

lemma pair_put_set:
  assumes "k \<notin> fst ` set ps"
  shows "obj_set k w (pair_put k u ps) = pair_put k w ps" and "map_of (pair_put k u ps) k = Some u"
    and "obj_set k w ps = ps"
  using assms by (induction ps) (auto simp: obj_set_def)

lemma obj_set_put: "sorted_wrt (<) (map fst ob) \<Longrightarrow> k \<in> fst ` set ob \<Longrightarrow> obj_set k w ob = obj_put k w ob"
proof (induction ob)
  case (Cons p ob)
  obtain k' y where p: "p = (k', y)" by (cases p)
  show ?case
  proof (cases "k = k'")
    case True
    then have "k \<notin> fst ` set ob" using Cons.prems(1) p by auto
    then show ?thesis using True p pair_put_set(3) [of k ob] by (simp add: obj_set_def)
  next
    case False
    then have "k \<in> fst ` set ob" "\<not> k < k'" using Cons.prems p by auto
    then show ?thesis using Cons p False by (auto simp: obj_set_def)
  qed
qed simp

lemma holds_put_null:
  "holds_list c (map snd ps) (map snd ob) A \<Longrightarrow> map fst ps = map fst ob \<Longrightarrow> k \<notin> fst ` set ob \<Longrightarrow>
     holds_list c (map snd (pair_put k V_Null ps)) (map snd (pair_put k JNull ob)) A"
proof (induction ps arbitrary: ob A)
  case Nil
  then show ?case using holds_cons [OF holds_null, of c "[]" "[]" A] by simp
next
  case (Cons p ps)
  obtain q ob' where q: "ob = q # ob'" "fst p = fst q" "map fst ps = map fst ob'" using Cons.prems(2) by (cases ob) auto
  obtain v w where vw: "p = (fst q, v)" "q = (fst q, w)" using q(2) by (metis prod.collapse)
  obtain A1 A2 where s: "A = A1 \<union> A2" "holds c v w A1" "holds_list c (map snd ps) (map snd ob') A2" "A1 \<inter> A2 = {}"
    using Cons.prems(1) q(1) vw by (auto elim!: holds_consE) (metis snd_conv)
  have ih: "holds_list c (map snd (pair_put k V_Null ps)) (map snd (pair_put k JNull ob')) A2"
    by (rule Cons.IH [OF s(3) q(3)]) (use Cons.prems(3) q(1) in auto)
  show ?case
  proof (cases "k < fst q")
    case True
    then have "pair_put k V_Null (p # ps) = (k, V_Null) # p # ps" "pair_put k JNull ob = (k, JNull) # ob"
      using vw q(1) by (metis less_irrefl pair_put.simps(2))+
    then show ?thesis using holds_cons [OF holds_null Cons.prems(1)] by simp
  next
    case False
    have "k \<noteq> fst q" using Cons.prems(3) q(1) by auto
    then have "pair_put k V_Null (p # ps) = p # pair_put k V_Null ps" "pair_put k JNull ob = q # pair_put k JNull ob'"
      using vw q(1) False by (metis pair_put.simps(2))+
    then show ?thesis using holds_cons [OF s(2) ih s(4)] s(1) vw by (metis list.simps(9) snd_conv)
  qed
qed

lemma insert_implements:
  assumes m: "mem_ok m J" and xy: "x \<noteq> y"
  shows "implements (json_step (J_Insert x k y) m) (tree_step (J_Insert x k y) J)"
proof -
  obtain F where o: "owned m J F" and t: "jm_vars m Temp = V_Null" using m by (auto simp: mem_ok_def)
  show ?thesis
  proof (cases "\<exists>ob. J (Local x) = JObj ob")
    case True
    then obtain ob where ob: "J (Local x) = JObj ob" by blast
    obtain a ps A where c: "jm_vars m (Local x) = V_Obj a" "jh_cells (jm_heap m) a = Some (C_Obj ps)"
      "holds_list (jh_cells (jm_heap m)) (map snd ps) (map snd ob) A" "map fst ps = map fst ob"
      "sorted_wrt (<) (map fst ob)" "a \<notin> A" "F (Local x) = insert a A"
      by (rule owned_object [OF o ob])
    have keys: "map_of ps k \<noteq> None \<longleftrightarrow> k \<in> fst ` set ob" using c(4) by (metis map_of_eq_None_iff set_map)
    show ?thesis
    proof (cases "k \<in> fst ` set ob")
      case True
      have "member_place (local_place x) k m = Inr (P_Member a k, m)"
        using c keys True by (simp add: member_place_def local_place_def)
      moreover have "get_key_place (local_place x) k m = Inr (P_Member a k)"
        using c keys True by (simp add: get_key_place_def local_place_def)
      ultimately have "json_step (J_Insert x k y) m = json_step (J_Put x k y) m" by simp
      moreover have "tree_step (J_Insert x k y) J = tree_step (J_Put x k y) J"
        using ob obj_set_put [OF c(5) True] True by (auto simp: map_of_eq_None_iff)
      ultimately show ?thesis using put_implements [OF m xy] by simp
    next
      case False
      let ?ps = "pair_put k V_Null ps" and ?ob = "pair_put k JNull ob"
      let ?n = "set_cell m a (C_Obj ?ps)" and ?K = "J(Local x := JObj ?ob)"
      let ?c = "(jh_cells (jm_heap m))(a \<mapsto> C_Obj ?ps)"
      have "holds_list ?c (map snd ps) (map snd ob) A" by (rule holds_frame(2) [OF c(3)]) (use c(6) in auto)
      then have "holds_list ?c (map snd ?ps) (map snd ?ob) A" by (rule holds_put_null [OF _ c(4) False])
      moreover have "sorted_wrt (<) (map fst ?ob)" using obj_put_sorted [OF c(5)] by (simp add: pair_put_obj)
      moreover have "map fst ?ps = map fst ?ob" by (rule pair_put_keys [OF c(4)])
      ultimately have "holds ?c (V_Obj a) (JObj ?ob) (insert a A)"
        by (intro holds_obj) (use c(6) in auto)
      then have "owned (set_cell (m\<lparr>jm_heap := jm_heap m\<rparr>) a (C_Obj ?ps)) ?K (F(Local x := (F (Local x) - {}) \<union> {}))"
        by (intro owned_set_cell [OF o]) (use c(1,7) extends_refl [OF ownedD(1) [OF o]] in auto)
      then have n: "mem_ok ?n ?K" using t by (auto simp: mem_ok_def)
      have mk: "map_of ?ps k = Some V_Null" "map_of ?ob k = Some JNull"
        using pair_put_set(2) False keys by (metis map_of_eq_None_iff)+
      have "member_place (local_place x) k m = Inr (P_Member a k, ?n)"
        using c keys False by (simp add: member_place_def local_place_def)
      moreover have "get_key_place (local_place x) k ?n = Inr (P_Member a k)"
        using c mk by (simp add: get_key_place_def local_place_def)
      ultimately have "json_step (J_Insert x k y) m = json_step (J_Put x k y) ?n" by simp
      moreover have "tree_step (J_Insert x k y) J = tree_step (J_Put x k y) ?K"
        using ob mk xy pair_put_set(1) [OF False, of "J (Local y)" JNull] by (simp add: pair_put_obj)
      ultimately show ?thesis using put_implements [OF n xy] by simp
    qed
  next
    case False
    then have "jm_vars m (Local x) \<noteq> V_Obj a" for a using holds_tags(2) [OF ownedD(2) [OF o, of "Local x"]] by blast
    then have "json_step (J_Insert x k y) m = Inl Std_Runtime_Error"
      by (auto simp: member_place_def local_place_def split: jval.split)
    moreover have "get_object (J (Local x)) = Inl Std_Runtime_Error"
      using False get_object_cases [of "J (Local x)"] by blast
    ultimately show ?thesis by simp
  qed
qed

lemma push_implements:
  assumes m: "mem_ok m J"
  shows "implements (json_step (J_Push x y) m) (tree_step (J_Push x y) J)"
proof -
  obtain F where o: "owned m J F" and t: "jm_vars m Temp = V_Null" using m by (auto simp: mem_ok_def)
  show ?thesis
  proof (cases "\<exists>js. J (Local x) = JArr js")
    case True
    then obtain js where js: "J (Local x) = JArr js" by blast
    obtain a vs A where c: "jm_vars m (Local x) = V_Arr a" "jh_cells (jm_heap m) a = Some (C_Arr vs)"
      "holds_list (jh_cells (jm_heap m)) vs js A" "a \<notin> A" "F (Local x) = insert a A" "length vs = length js"
      by (rule owned_array [OF o js])
    obtain w h C where w: "json_copy (jm_vars m (Local y)) (jm_heap m) = Inr (w, h)"
        "holds (jh_cells h) w (J (Local y)) C" "extends (jm_heap m) h C"
      by (rule json_copy_holds [OF ownedD(1) [OF o] ownedD(2) [OF o]])
    have e: "extends (jh_drop {} (jm_heap m)) h C" using w(3) by simp
    note d = drop_extends [OF o e]
    have dis: "C \<inter> insert a A = {}" using d(3) [of "Local x"] c(5) by simp
    have keep: "jh_cells h b = jh_cells (jm_heap m) b" if "b \<in> insert a A" for b
      using d(2) [of b "Local x"] that c(5) by simp
    let ?cell = "C_Arr (vs @ [w])" and ?c = "(jh_cells h)(a \<mapsto> C_Arr (vs @ [w]))"
    have "holds_list ?c vs js A" by (rule holds_frame(2) [OF c(3)]) (use keep c(4) in auto)
    moreover have "holds ?c w (J (Local y)) C" by (rule holds_frame(1) [OF w(2)]) (use dis in auto)
    ultimately have "holds_list ?c (vs @ [w]) (js @ [J (Local y)]) (A \<union> C)"
      by (rule holds_list_snoc) (use dis in blast)
    then have "holds ?c (V_Arr a) (JArr (js @ [J (Local y)])) (insert a (A \<union> C))"
      by (intro holds_arr) (use c(4) dis in auto)
    then have "holds ?c (jm_vars m (Local x)) (JArr (js @ [J (Local y)])) ((F (Local x) - {}) \<union> C)"
      using c(1,5) by simp
    then have "owned (set_cell (m\<lparr>jm_heap := h\<rparr>) a ?cell) (J(Local x := JArr (js @ [J (Local y)])))
        (F(Local x := (F (Local x) - {}) \<union> C))"
      by (intro owned_set_cell [OF o _ _ e]) (use c(5) in auto)
    then have "mem_ok (set_cell (m\<lparr>jm_heap := h\<rparr>) a ?cell) (J(Local x := JArr (js @ [J (Local y)])))"
      using t by (auto simp: mem_ok_def)
    moreover have "json_step (J_Push x y) m = Inr (set_cell (m\<lparr>jm_heap := h\<rparr>) a ?cell)"
      using c(1,2) w(1) keep [of a] by (simp add: array_push_def local_place_def)
    ultimately show ?thesis using js by simp
  next
    case False
    then have "jm_vars m (Local x) \<noteq> V_Arr a" for a using holds_tags(1) [OF ownedD(2) [OF o, of "Local x"]] by blast
    then have "json_step (J_Push x y) m = Inl Std_Runtime_Error"
      by (auto simp: array_push_def local_place_def split: jval.split)
    moreover have "get_array (J (Local x)) = Inl Std_Runtime_Error"
      using False get_array_cases [of "J (Local x)"] by blast
    ultimately show ?thesis by simp
  qed
qed

lemma start_implements:
  assumes "mem_ok m J"
  shows "implements (ctx_start (local_place x) t m) (Inr (J(Local x := tree_of_type t)))"
  using temp_plain [OF assms] temp_new [OF assms, OF holds_new(1)] temp_new [OF assms, OF holds_new(2)]
    temp_new [OF assms, OF holds_new(3)]
  by (cases t) (simp_all add: ctx_start_def value_of_type_def tree_of_type_def)

lemma step_implements:
  assumes m: "mem_ok m J" and a: "apart op"
  shows "implements (json_step op m) (tree_step op J)"
proof (cases op)
  case (J_Null x)
  then show ?thesis using temp_plain [OF m] by (simp add: ctx_set_null_def)
next
  case (J_Bool x b)
  then show ?thesis using temp_plain [OF m] by (simp add: ctx_set_bool_def)
next
  case (J_Number x f)
  then show ?thesis
    using temp_plain [OF m]
    by (cases f) (simp_all add: ctx_set_number_def value_of_number_def value_of_double_def)
next
  case (J_String x s)
  then show ?thesis using temp_new [OF m, OF holds_new(1)] by (simp add: value_of_string_def)
next
  case (J_Start x t)
  then show ?thesis using start_implements [OF m] by simp
next
  case (J_Assign x y)
  then show ?thesis using assign_implements [OF m, of "Local y" "Local x"] by (simp add: local_place_def)
next
  case (J_Swap x y)
  then show ?thesis using swap_implements [OF m] by simp
next
  case (J_Drop x)
  then show ?thesis using drop_implements [OF m] by simp
next
  case (J_Push x y)
  then show ?thesis using push_implements [OF m] by simp
qed (use a m in \<open>simp_all only: apart.simps get_implements set_implements put_implements find_implements insert_implements not_False_eq_True\<close>)

lemma run_implements: "mem_ok m J \<Longrightarrow> list_all apart ops \<Longrightarrow> implements (json_run ops m) (tree_run ops J)"
proof (induction ops arbitrary: m J)
  case (Cons op ops)
  have s: "implements (json_step op m) (tree_step op J)" using Cons.prems step_implements by simp
  show ?case
  proof (cases "tree_step op J")
    case (Inl e)
    then show ?thesis using s by (simp add: implements_def)
  next
    case (Inr K)
    then obtain n where "json_step op m = Inr n" "mem_ok n K" using s by (auto simp: implements_def)
    then show ?thesis using Cons.IH Cons.prems Inr by simp
  qed
qed simp

lemma start_ok: "mem_ok json_start (\<lambda>_. JNull)"
proof -
  have "owned json_start (\<lambda>_. JNull) (\<lambda>_. {})" by (simp add: owned_def json_start_def heap_ok_def)
  then show ?thesis by (auto simp: mem_ok_def json_start_def)
qed

text \<open>C8. 
  C0. (refinement) A program on JSON values - constructors, assignment, \<open>swap\<close>, \<open>push_back\<close>, writing and reading through
  \<open>get\<close>, destruction - does in memory what it does on trees: it fails when the tree program does, with the same
  exception and never with an access to freed memory; otherwise every variable stands for its tree, no two share a
  cell, and no cell is lost. No operation takes a variable together with a part of it.
\<close>

theorem json_memory_refines:
  assumes "list_all apart ops"
  shows "case tree_run ops (\<lambda>_. JNull) of
           Inl e \<Rightarrow> json_run ops json_start = Inl e
         | Inr J \<Rightarrow> \<exists>m F. json_run ops json_start = Inr m \<and> owned m J F"
  using run_implements [OF start_ok assms]
  by (cases "tree_run ops (\<lambda>_. JNull)") (auto simp: implements_def mem_ok_def)

definition demo_ops :: "json_op list" where
  "demo_ops = [J_Start 0 T_Array, J_String 1 ''a'', J_Push 0 1, J_Push 0 0, J_Assign 2 0, J_Set 0 1 1, J_Get 3 2 1, J_Drop 2,
     J_Start 4 T_Object, J_Insert 4 ''k'' 3, J_Put 4 ''k'' 1, J_Find 5 4 ''k'', J_Swap 5 2]"

theorem json_memory_refines_witness:
  "\<exists>m F J. json_run demo_ops json_start = Inr m \<and> owned m J F
     \<and> J (Local 0) = JArr [JStr ''a'', JStr ''a''] \<and> J (Local 3) = JArr [JStr ''a''] \<and> J (Local 4) = JObj [(''k'', JStr ''a'')]"
proof -
  define J where "J = (\<lambda>_. JNull)(Local 1 := JStr ''a'', Local 0 := JArr [JStr ''a'', JStr ''a''],
    Local 3 := JArr [JStr ''a''], Local 2 := JStr ''a'', Local 4 := JObj [(''k'', JStr ''a'')])"
  have "tree_run demo_ops (\<lambda>_. JNull) = Inr J"
    by (simp add: demo_ops_def tree_of_type_def obj_set_def J_def fun_eq_iff)
  moreover have "list_all apart demo_ops" by (simp add: demo_ops_def)
  ultimately obtain m F where "json_run demo_ops json_start = Inr m" "owned m J F"
    using json_memory_refines [of demo_ops] by auto
  then show ?thesis by (intro exI [of _ m] exI [of _ F] exI [of _ J]) (simp add: J_def)
qed

text \<open>C38. 
  C0. (error) \<open>v = v.get(key)\<close>: assignment destroys its target before it copies the source, and the source is a part of
  the target; it is read after it has been freed. Only the assignment of a value to itself is excluded.
\<close>

theorem assign_own_member_reads_freed:
  assumes "mem_ok m J" and "J (Local x) = JObj ob" and "k \<in> fst ` set ob"
  shows "json_step (J_Find x x k) m = Inl Use_After_Free"
proof -
  obtain F where o: "owned m J F" using assms(1) by (auto simp: mem_ok_def)
  obtain a ps A where c: "jm_vars m (Local x) = V_Obj a" "jh_cells (jm_heap m) a = Some (C_Obj ps)" "F (Local x) = insert a A"
      "get_key_place (P_Var (Local x)) k m = Inr (P_Member a k)"
    using key_place [OF o, of "Local x" k] assms(2,3) by auto
  have "load_place (m\<lparr>jm_heap := jh_drop (F (Local x)) (jm_heap m)\<rparr>) (P_Member a k) = Inl Use_After_Free"
    using c(3) by (simp add: load_place_def)
  moreover have "json_destroy (jm_vars m (Local x)) (jm_heap m) = Inr (jh_drop (F (Local x)) (jm_heap m))"
    by (rule json_destroy_holds [OF ownedD(1) [OF o] ownedD(2) [OF o]])
  ultimately show ?thesis using c(4) by (simp add: local_place_def json_assign_def)
qed

lemma own_item_reads_freed:
  assumes "mem_ok m J" and "J (Local x) = JArr js" and "i < length js"
  shows "json_step (J_Get x x i) m = Inl Use_After_Free"
proof -
  obtain F where o: "owned m J F" using assms(1) by (auto simp: mem_ok_def)
  obtain a A where c: "F (Local x) = insert a A" "get_idx_place (P_Var (Local x)) i m = Inr (P_Elem a i)"
    using idx_place [OF o, of "Local x" i] assms(2,3) by auto
  have "load_place (m\<lparr>jm_heap := jh_drop (F (Local x)) (jm_heap m)\<rparr>) (P_Elem a i) = Inl Use_After_Free"
    using c(1) by (simp add: load_place_def)
  moreover have "json_destroy (jm_vars m (Local x)) (jm_heap m) = Inr (jh_drop (F (Local x)) (jm_heap m))"
    by (rule json_destroy_holds [OF ownedD(1) [OF o] ownedD(2) [OF o]])
  ultimately show ?thesis using c(2) by (simp add: local_place_def json_assign_def)
qed

definition demo_object :: "json_op list" where
  "demo_object = [J_Start 0 T_Object, J_String 1 ''v'', J_Insert 0 ''k'' 1]"

lemma demo_object_ok:
  "\<exists>m. json_run demo_object json_start = Inr m
     \<and> mem_ok m ((\<lambda>_. JNull)(Local 1 := JStr ''v'', Local 0 := JObj [(''k'', JStr ''v'')]))"
proof -
  have "tree_run demo_object (\<lambda>_. JNull) = Inr ((\<lambda>_. JNull)(Local 1 := JStr ''v'', Local 0 := JObj [(''k'', JStr ''v'')]))"
    by (simp add: demo_object_def tree_of_type_def fun_eq_iff)
  moreover have "list_all apart demo_object" by (simp add: demo_object_def)
  ultimately show ?thesis using run_implements [OF start_ok, of demo_object] by (simp add: implements_def)
qed

theorem assign_own_member_reads_freed_witness:
  "\<exists>m. json_run demo_object json_start = Inr m \<and> json_step (J_Find 0 0 ''k'') m = Inl Use_After_Free"
proof -
  obtain m where "json_run demo_object json_start = Inr m"
    and "mem_ok m ((\<lambda>_. JNull)(Local 1 := JStr ''v'', Local 0 := JObj [(''k'', JStr ''v'')]))"
    using demo_object_ok by blast
  then show ?thesis
    using assign_own_member_reads_freed [of m _ 0 "[(''k'', JStr ''v'')]" "''k''"] by auto
qed

text \<open>The null that \<open>get\<close> returns for a missing key is one for all objects: what is written through the
  reference is what every missing key reads from then on.\<close>

lemma missing_key_is_shared:
  assumes m: "mem_ok m J"
    and x: "J (Local x) = JObj ob" "k \<notin> fst ` set ob" and z: "J (Local z) = JObj oz" "k' \<notin> fst ` set oz"
    and ne: "x \<noteq> y" "w \<noteq> z"
  shows "implements (json_run [J_Put x k y, J_Find w z k'] m) (Inr (J(Null_Key := J (Local y), Local w := J (Local y))))"
proof -
  have "map_of ob k = None" "map_of oz k' = None" using x z by (simp_all add: map_of_eq_None_iff)
  then have "tree_run [J_Put x k y, J_Find w z k'] J = Inr (J(Null_Key := J (Local y), Local w := J (Local y)))"
    using x z by simp
  then show ?thesis using run_implements [OF m, of "[J_Put x k y, J_Find w z k']"] ne by simp
qed

end
