(* ===== verification/Json_Stream.thy ===== *)
theory Json_Stream
  imports Picojson_Roundtrip
begin

text \<open>
  The ends of \<^verbatim>\<open>framework/include/framework/picojson/picojson.h\<close>: the variants of \<open>parse\<close>, the stream operators, the last error and the
  context that denies everything.

  A stream is what its buffer still holds, its \<open>failbit\<close> and whether its exception mask has that
  bit. The input of the parser has taken a character from the buffer when it pushes it back, so what it hands back begins
  after that character.
\<close>

section \<open>Streams\<close>

record istream =
  is_rest :: string
  is_fail :: bool
  is_throws :: bool

definition stream_setfail :: "istream \<Rightarrow> istream result" where
  "stream_setfail is = (if is_throws is then Inl Std_System_Error else Inr (is\<lparr>is_fail := True\<rparr>))"

text \<open>\<open>parse(out, pos, last)\<close>, \<open>parse(out, s)\<close> and \<open>parse(out, is)\<close>.\<close>

definition parse_pos :: "json_env \<Rightarrow> jvalue \<Rightarrow> string \<Rightarrow> (string \<times> jvalue \<times> string) result" where
  "parse_pos E out pos = map_res (\<lambda>(v, err, rest). (err, v, rest)) (json_parse_at E out pos)"

definition parse_istream :: "json_env \<Rightarrow> jvalue \<Rightarrow> istream \<Rightarrow> (string \<times> jvalue \<times> istream) result" where
  "parse_istream E out is = map_res (\<lambda>(v, err, rest). (err, v, is\<lparr>is_rest := rest\<rparr>)) (json_parse_at E out (is_rest is))"

text \<open>\<open>last_error_t<bool>::s\<close> is the state of these.\<close>

record json_state =
  js_last_error :: string

definition set_last_error :: "string \<Rightarrow> json_state \<Rightarrow> json_state" where
  "set_last_error s st = st\<lparr>js_last_error := s\<rparr>"

definition get_last_error :: "json_state \<Rightarrow> string" where
  "get_last_error st = js_last_error st"

definition stream_read :: "json_env \<Rightarrow> istream \<Rightarrow> jvalue \<Rightarrow> json_state \<Rightarrow> (jvalue \<times> istream \<times> json_state) result" where
  "stream_read E is x st =
     (let st1 = set_last_error [] st in
      bind_res (parse_istream E x is) (\<lambda>(err, v, is1).
        if err \<noteq> []
        then map_res (\<lambda>is2. (v, is2, set_last_error err st1)) (stream_setfail is1)
        else Inr (v, is1, st1)))"

definition stream_write :: "json_env \<Rightarrow> string \<Rightarrow> jvalue \<Rightarrow> string" where
  "stream_write E os x = os @ json_serialize E False x"

fun stream_read_many ::
    "json_env \<Rightarrow> nat \<Rightarrow> istream \<Rightarrow> jvalue \<Rightarrow> json_state \<Rightarrow> (jvalue list \<times> istream \<times> json_state) result" where
  "stream_read_many E 0 is x st = Inr ([], is, st)"
| "stream_read_many E (Suc n) is x st =
     bind_res (stream_read E is x st) (\<lambda>(v, is1, st1).
       map_res (\<lambda>(vs, is2, st2). (v # vs, is2, st2)) (stream_read_many E n is1 v st1))"

definition json_neq :: "jvalue \<Rightarrow> jvalue \<Rightarrow> bool" where
  "json_neq x y \<longleftrightarrow> \<not> json_eq x y"

section \<open>The context that denies\<close>

text \<open>\<open>_parse\<close> with a \<open>deny_parse_context\<close>. What \<open>set_number\<close> returns is not looked at.\<close>

definition deny_parse :: "json_env \<Rightarrow> input \<Rightarrow> (bool \<times> input) result" where
  "deny_parse E i =
     bind_res (skip_ws i) (\<lambda>i1. case getc i1 of (ch, i2) \<Rightarrow>
       if ch = 110 then map_res (\<lambda>(ok, j). (ok \<and> False, j)) (match_text ''ull'' i2)
       else if ch = 102 then map_res (\<lambda>(ok, j). (ok \<and> False, j)) (match_text ''alse'' i2)
       else if ch = 116 then map_res (\<lambda>(ok, j). (ok \<and> False, j)) (match_text ''rue'' i2)
       else if ch = 34 \<or> ch = 91 \<or> ch = 123 then Inr (False, i2)
       else if (48 \<le> ch \<and> ch \<le> 57) \<or> ch = 45 then
         bind_res (ungetc i2) (\<lambda>i3. bind_res (parse_number E [] i3) (\<lambda>(num_str, i4).
           if num_str = [] then Inr (False, i4)
           else (case strtod (je_point E) num_str of
                   None \<Rightarrow> Inr (False, i4)
                 | Some f \<Rightarrow> Inr (True, i4))))
       else map_res (Pair False) (ungetc i2))"

text \<open>It accepts a text exactly when the context that accepts everything reads a number there.\<close>

lemma deny_accepts_numbers:
  assumes "skip_ws i = Inr i1" and "getc i1 = (ch, i2)"
  shows "deny_parse E i = Inr (True, j) \<longleftrightarrow>
    ((48 \<le> ch \<and> ch \<le> 57) \<or> ch = 45) \<and> null_parse E (Suc n) i = Inr (True, j)"
  using assms by (auto simp: deny_parse_def map_res_eq_Inr split: prod.splits)

section \<open>Where the parser leaves the input\<close>

definition in_ok :: "input \<Rightarrow> bool" where
  "in_ok i \<longleftrightarrow> (in_ungot i \<longrightarrow> in_last i \<noteq> -1)"

lemma getc_not_ungot: "getc i = (ch, j) \<Longrightarrow> \<not> in_ungot j"
  by (auto simp: getc_def split: if_splits list.splits)

lemma ungetc_in_ok: "ungetc i = Inr j \<Longrightarrow> \<not> in_ungot i \<Longrightarrow> in_ok j"
  by (auto simp: ungetc_def in_ok_def split: if_splits)

lemma getc_eof: "getc i = (ch, j) \<Longrightarrow> in_ok i \<Longrightarrow> in_last j = -1 \<Longrightarrow> in_rest j = []"
  by (auto simp: getc_def in_ok_def split: if_splits list.splits)

lemma number_ungot:
  "parse_number E num i = Inr (num', j) \<Longrightarrow> in_ok i \<Longrightarrow> in_ungot j \<or> in_rest j = []"
proof (induction E num i rule: parse_number.induct)
  case (1 E num i)
  obtain ch i1 where g: "getc i = (ch, i1)" by (cases "getc i")
  have ok1: "in_ok i1" using getc_not_ungot [OF g] by (simp add: in_ok_def)
  show ?case
  proof (cases "(48 \<le> ch \<and> ch \<le> 57) \<or> ch = 43 \<or> ch = 45 \<or> ch = 101 \<or> ch = 69 \<or> ch = 46")
    case True
    then show ?thesis
      using 1 g ok1 by (simp add: parse_number.simps [of E num i]) (metis (full_types))
  next
    case False
    then have "ungetc i1 = Inr j"
      using 1(3) g by (auto simp: parse_number.simps [of E num i] map_res_eq_Inr)
    then show ?thesis
      using getc_eof [OF g 1(4)] by (auto simp: ungetc_def split: if_splits)
  qed
qed

lemma match_not_ungot: "match_text ps i = Inr (True, j) \<Longrightarrow> \<not> in_ungot i \<Longrightarrow> \<not> in_ungot j"
proof (induction ps arbitrary: i)
  case (Cons p ps)
  obtain ch i1 where g: "getc i = (ch, i1)" by (cases "getc i")
  then show ?case
    using Cons getc_not_ungot [OF g]
    by (auto simp: match_text.simps map_res_eq_Inr split: if_splits)
qed (simp add: match_text.simps)

lemma expect_not_ungot:
  assumes "expect_ch e i = Inr (True, j)"
  shows "\<not> in_ungot j"
proof -
  obtain i1 where i1: "skip_ws i = Inr i1" using assms by (cases "skip_ws i") (simp_all add: expect_ch_def)
  obtain ch i2 where g: "getc i1 = (ch, i2)" by (cases "getc i1")
  have "i2 = j" using assms i1 g by (auto simp: expect_ch_def map_res_eq_Inr split: if_splits)
  then show ?thesis using getc_not_ungot [OF g] by simp
qed

lemma string_not_ungot: "parse_string out i = Inr (True, s, j) \<Longrightarrow> \<not> in_ungot j"
proof (induction out i rule: parse_string.induct)
  case (1 out i)
  obtain ch i1 where g: "getc i = (ch, i1)" by (cases "getc i")
  obtain ch2 i2 where g2: "getc i1 = (ch2, i2)" by (cases "getc i1")
  note n = getc_not_ungot [OF g]
  have eq: "parse_string out i = Inr (True, s, j)" by fact
  consider "ch < 32" | "ch = 34" | "ch = 92" | "\<not> ch < 32" "ch \<noteq> 34" "ch \<noteq> 92" by blast
  then show ?case
  proof cases
    case 1
    then show ?thesis using eq g by (auto simp: parse_string.simps [of out i] map_res_eq_Inr)
  next
    case 2
    then show ?thesis using eq g n by (simp add: parse_string.simps [of out i])
  next
    case 4
    then show ?thesis using eq g 1 by (simp add: parse_string.simps [of out i])
  next
    case 3
    then have r: "(if ch2 = -1 then Inr (False, out, i2)
             else (case unescape ch2 of
                     Some c \<Rightarrow> parse_string (out @ [c]) i2
                   | None \<Rightarrow>
                       if ch2 = 117 then
                         bind_res (parse_codepoint out i2) (\<lambda>(ok, s, i3).
                           if ok then parse_string s i3 else Inr (False, s, i3))
                       else Inr (False, out, i2))) = Inr (True, s, j)"
      using eq g g2 by (simp add: parse_string.simps [of out i])
    show ?thesis
    proof (cases "unescape ch2")
      case (Some c)
      then show ?thesis using r 1(1,2) 3 g g2 by (auto split: if_splits)
    next
      case None
      then obtain ok t i3 where "ch2 = 117" "parse_codepoint out i2 = Inr (ok, t, i3)" "ok"
          "parse_string t i3 = Inr (True, s, j)"
        using r by (auto simp: bind_res_eq_Inr split: if_splits)
      then show ?thesis using 1(1,2) 3 g g2 None by auto
    qed
  qed
qed

lemma items_array: "parse_items E n a i = Inr (ok, v, j) \<Longrightarrow> \<not> is_double v"
proof (induction n arbitrary: a i)
  case (Suc n)
  then show ?case by (auto simp: bind_res_eq_Inr map_res_eq_Inr Let_def split: if_splits)
qed simp

lemma members_object: "parse_members E n ob i = Inr (ok, v, j) \<Longrightarrow> \<not> is_double v"
proof (induction n arbitrary: ob i)
  case (Suc n)
  then show ?case by (auto simp: bind_res_eq_Inr map_res_eq_Inr Let_def split: if_splits)
qed simp

lemma items_not_ungot: "parse_items E n a i = Inr (True, v, j) \<Longrightarrow> \<not> in_ungot j"
proof (induction n arbitrary: a i)
  case (Suc n)
  obtain ok x i1 where p: "parse_value E n JNull i = Inr (ok, x, i1)"
    using Suc.prems by (cases "parse_value E n JNull i") auto
  then have ok: ok using Suc.prems by (auto simp: Let_def split: if_splits)
  obtain more i2 where q: "expect_ch 44 i1 = Inr (more, i2)"
    using Suc.prems p ok by (cases "expect_ch 44 i1") auto
  show ?case
  proof (cases more)
    case True
    then show ?thesis using Suc p q ok by simp
  next
    case False
    then show ?thesis using Suc.prems p q ok expect_not_ungot [of 93 i2] by (auto simp: map_res_eq_Inr)
  qed
qed simp

lemma members_not_ungot: "parse_members E n ob i = Inr (True, v, j) \<Longrightarrow> \<not> in_ungot j"
proof (induction n arbitrary: ob i)
  case (Suc n)
  obtain q1 i1 where 1: "expect_ch 34 i = Inr (q1, i1)" using Suc.prems by (cases "expect_ch 34 i") auto
  then have q1 using Suc.prems by (auto split: if_splits)
  obtain q2 key i2 where 2: "parse_string [] i1 = Inr (q2, key, i2)"
    using Suc.prems 1 \<open>q1\<close> by (cases "parse_string [] i1") auto
  then have q2 using Suc.prems 1 \<open>q1\<close> by (auto split: if_splits)
  obtain q3 i3 where 3: "expect_ch 58 i2 = Inr (q3, i3)"
    using Suc.prems 1 2 \<open>q1\<close> \<open>q2\<close> by (cases "expect_ch 58 i2") auto
  then have q3 using Suc.prems 1 2 \<open>q1\<close> \<open>q2\<close> by (auto split: if_splits)
  obtain q4 x i4 where 4: "parse_value E n (obj_at key ob) i3 = Inr (q4, x, i4)"
    using Suc.prems 1 2 3 \<open>q1\<close> \<open>q2\<close> \<open>q3\<close> by (cases "parse_value E n (obj_at key ob) i3") auto
  then have q4 using Suc.prems 1 2 3 \<open>q1\<close> \<open>q2\<close> \<open>q3\<close> by (auto simp: Let_def split: if_splits)
  obtain more i5 where 5: "expect_ch 44 i4 = Inr (more, i5)"
    using Suc.prems 1 2 3 4 \<open>q1\<close> \<open>q2\<close> \<open>q3\<close> \<open>q4\<close> by (cases "expect_ch 44 i4") auto
  note steps = 1 2 3 4 5 \<open>q1\<close> \<open>q2\<close> \<open>q3\<close> \<open>q4\<close>
  show ?case
  proof (cases more)
    case True
    then show ?thesis using Suc steps by simp
  next
    case False
    then show ?thesis using Suc.prems steps expect_not_ungot [of 125 i5] by (auto simp: map_res_eq_Inr)
  qed
qed simp

lemma value_left:
  assumes "parse_value E (Suc n) out i = Inr (True, v, j)"
  shows "if is_double v then in_ungot j \<or> in_rest j = [] else \<not> in_ungot j"
proof -
  obtain i1 where i1: "skip_ws i = Inr i1" using assms by (cases "skip_ws i") auto
  obtain ch i2 where g: "getc i1 = (ch, i2)" by (cases "getc i1")
  note n = getc_not_ungot [OF g]
  consider (lit) "ch = 110 \<or> ch = 102 \<or> ch = 116" | (str) "ch = 34" | (arr) "ch = 91" | (obj) "ch = 123"
    | (num) "(48 \<le> ch \<and> ch \<le> 57) \<or> ch = 45"
    | (no) "ch \<notin> {110, 102, 116, 34, 91, 123}" "\<not> ((48 \<le> ch \<and> ch \<le> 57) \<or> ch = 45)" by auto
  then show ?thesis
  proof cases
    case lit
    then show ?thesis using assms i1 g match_not_ungot n by (auto simp: map_res_eq_Inr split: if_splits)
  next
    case str
    then show ?thesis using assms i1 g string_not_ungot by (auto simp: map_res_eq_Inr)
  next
    case arr
    then obtain none i3 where x: "expect_ch 93 i2 = Inr (none, i3)"
      using assms i1 g by (cases "expect_ch 93 i2") auto
    then show ?thesis
      using assms i1 g arr expect_not_ungot [of 93 i2] items_not_ungot items_array by (auto split: if_splits)
  next
    case obj
    then obtain none i3 where x: "expect_ch 125 i2 = Inr (none, i3)"
      using assms i1 g by (cases "expect_ch 125 i2") auto
    then show ?thesis
      using assms i1 g obj expect_not_ungot [of 125 i2] members_not_ungot members_object by (auto split: if_splits)
  next
    case num
    then have ch: "ch \<noteq> 110" "ch \<noteq> 102" "ch \<noteq> 116" "ch \<noteq> 34" "ch \<noteq> 91" "ch \<noteq> 123" by auto
    obtain i3 where i3: "ungetc i2 = Inr i3" using assms i1 g ch num by (cases "ungetc i2") auto
    obtain s i4 where p: "parse_number E [] i3 = Inr (s, i4)"
      using assms i1 g ch num i3 by (cases "parse_number E [] i3") auto
    have "i4 = j \<and> is_double v"
      using assms i1 g ch num i3 p
      by (auto simp: map_res_eq_Inr value_of_double_def split: if_splits option.splits)
    then show ?thesis using number_ungot [OF p ungetc_in_ok [OF i3 n]] by auto
  next
    case no
    then show ?thesis using assms i1 g by (auto simp: map_res_eq_Inr)
  qed
qed

section \<open>Reading back from a stream\<close>

lemma stream_read_ok:
  assumes E: "je_point E = ''.''" "json_ok E v" and cs: "stops cs" and r: "is_rest is = json_serialize E False v @ cs"
  shows "stream_read E is x st =
    Inr (v, is\<lparr>is_rest := if is_double v then tl cs else cs\<rparr>, st\<lparr>js_last_error := []\<rparr>)"
proof -
  let ?s = "is_rest is"
  have s: "?s = [] @ value_text E (-1) v @ cs" by (simp add: r json_serialize_def serialize_text)
  then have "sees (input_make ?s) ([] @ value_text E (-1) v @ cs)" by (simp only: sees_make)
  then obtain j where j: "parse_value E (2 * length ?s + 1) x (input_make ?s) = Inr (True, v, j)" "sees j cs"
    using reads_valueD [OF all_read [OF E(1)], of v "-1" "[]" cs "input_make ?s" "2 * length ?s + 1" x]
      json_ok_meaning [OF E(2)] cs by auto
  then have "parse_value E (Suc (2 * length ?s)) x (input_make ?s) = Inr (True, v, j)" by simp
  note left = value_left [OF this]
  have "in_rest j = (if is_double v then tl cs else cs)"
    using left j(2) by (auto simp: sees_def split: if_splits)
  then show ?thesis
    using j(1) by (simp add: stream_read_def parse_istream_def json_parse_at_def set_last_error_def)
qed

lemma not_number_stops:
  assumes "\<not> is_double v"
  shows "stops (json_serialize E False v @ cs)"
  using assms
  by (cases v)
     (auto simp: json_serialize_def serialize_text value_text_def Let_def stops_def serialize_str_def
        num_char_def is_digit_def chr_int_def)

lemma stops_many:
  assumes "\<forall>v \<in> set vs. \<not> is_double v" and "stops cs"
  shows "stops (concat (map (json_serialize E False) vs) @ cs)"
  using assms not_number_stops by (cases vs) auto

lemma write_many: "foldl (stream_write E) os vs = os @ concat (map (json_serialize E False) vs)"
  by (induction vs arbitrary: os) (simp_all add: stream_write_def)

lemma read_many:
  assumes "je_point E = ''.''" and "\<forall>v \<in> set vs. json_ok E v \<and> \<not> is_double v" and "stops cs"
    and "is_rest is = concat (map (json_serialize E False) vs) @ cs"
  shows "\<exists>st'. stream_read_many E (length vs) is x st = Inr (vs, is\<lparr>is_rest := cs\<rparr>, st')"
  using assms(2,4)
proof (induction vs arbitrary: "is" x st)
  case (Cons v vs)
  let ?cs = "concat (map (json_serialize E False) vs) @ cs"
  have "stops ?cs" by (rule stops_many [OF _ assms(3)]) (use Cons.prems(1) in auto)
  then have r: "stream_read E is x st = Inr (v, is\<lparr>is_rest := ?cs\<rparr>, st\<lparr>js_last_error := []\<rparr>)"
    using stream_read_ok [OF assms(1), of v ?cs "is" x st] Cons.prems by auto
  obtain st' where "stream_read_many E (length vs) (is\<lparr>is_rest := ?cs\<rparr>) v (st\<lparr>js_last_error := []\<rparr>)
      = Inr (vs, is\<lparr>is_rest := cs\<rparr>, st')"
    using Cons.IH [of "is\<lparr>is_rest := ?cs\<rparr>" v "st\<lparr>js_last_error := []\<rparr>"] Cons.prems(1) by auto
  then show ?case by (simp add: r)
qed simp

text \<open>C24. 
  C0. (roundtrip) Values that are written to a stream one after the other with \<open>operator<<\<close> are read back with
  \<open>operator>>\<close>, in their order, without a failure; what follows them is left in the stream. Numbers are excluded.
\<close>

theorem stream_reads_back:
  assumes "je_point E = ''.''" and "\<forall>v \<in> set vs. json_ok E v \<and> \<not> is_double v" and "stops cs"
  shows "\<exists>st'. stream_read_many E (length vs) \<lparr>is_rest = foldl (stream_write E) [] vs @ cs, is_fail = False, is_throws = b\<rparr> x st
    = Inr (vs, \<lparr>is_rest = cs, is_fail = False, is_throws = b\<rparr>, st')"
  using read_many [OF assms, of "\<lparr>is_rest = foldl (stream_write E) [] vs @ cs, is_fail = False, is_throws = b\<rparr>" x st]
  by (simp add: write_many)

theorem stream_reads_back_witness:
  "\<exists>st'. stream_read_many demo_env 2
      \<lparr>is_rest = foldl (stream_write demo_env) [] [demo_doc, JStr ''x''] @ ''rest'', is_fail = False, is_throws = True\<rparr> JNull
      \<lparr>js_last_error = ''old''\<rparr>
    = Inr ([demo_doc, JStr ''x''], \<lparr>is_rest = ''rest'', is_fail = False, is_throws = True\<rparr>, st')"
proof -
  have a: "\<forall>v \<in> set [demo_doc, JStr ''x'']. json_ok demo_env v \<and> \<not> is_double v"
    using demo_ok(2) by (simp add: demo_doc_def)
  have "stops ''rest''" by (simp add: stops_def num_char_def is_digit_def chr_int_def)
  from stream_reads_back [OF demo_ok(1) a this] show ?thesis by (simp add: numeral_2_eq_2)
qed

text \<open>A number ends where another character begins, and the parser has taken that character from the stream: what
  follows a number loses its first character.\<close>

lemma number_eats_next:
  assumes "je_point E = ''.''" and "number_ok E q" and "stops (c # cs)"
  shows "stream_read E \<lparr>is_rest = stream_write E [] (JNum q) @ c # cs, is_fail = False, is_throws = b\<rparr> x st
    = Inr (JNum q, \<lparr>is_rest = cs, is_fail = False, is_throws = b\<rparr>, st\<lparr>js_last_error := []\<rparr>)"
  using stream_read_ok [OF assms(1) _ assms(3), of "JNum q"] assms(2) by (simp add: stream_write_def)

text \<open>A text that is not JSON sets \<open>failbit\<close> and the last error.\<close>

lemma stream_read_fails:
  assumes "parse_istream E x is = Inr (err, v, is')" and "err \<noteq> []"
  shows "stream_read E is x st =
    (if is_throws is' then Inl Std_System_Error else Inr (v, is'\<lparr>is_fail := True\<rparr>, st\<lparr>js_last_error := err\<rparr>))"
  using assms by (simp add: stream_read_def stream_setfail_def set_last_error_def)

end
