(* ===== verification/Assembler.thy ===== *)
theory Assembler
  imports Document Rack Task_Queue Scheduled
begin

text \<open>
  From a description to a system: \<^verbatim>\<open>framework/config/assembler.cpp\<close>, the utilities a rack holds
  (\<^verbatim>\<open>component/utility_container.cpp\<close>) and what a unit registers for midi (\<^verbatim>\<open>component/unit.cpp\<close>).

  The unit loader (dynamic libraries) is a parameter: model, label and library lead to a unit or to none.
  \<open>set_configuration\<close> is a method of concrete units and a parameter too. The pointers of the container are
  options.
\<close>

section \<open>Units as the loader gives them\<close>

record 'f loaded_unit =
  lu_unit :: sio_unit
  lu_handlers :: "(string \<times> 'f) list"
  lu_leds :: "(string \<times> int) list"
  lu_led_utility :: bool

text \<open>\<open>std::map::insert\<close> keeps an entry that is there.\<close>

definition register_midi_handler :: "string \<Rightarrow> 'f \<Rightarrow> 'f loaded_unit \<Rightarrow> 'f loaded_unit" where
  "register_midi_handler binding_name method u =
     (if map_of (lu_handlers u) binding_name = None
      then u\<lparr>lu_handlers := lu_handlers u @ [(binding_name, method)]\<rparr> else u)"

definition register_midi_led :: "string \<Rightarrow> int \<Rightarrow> 'f loaded_unit \<Rightarrow> 'f loaded_unit" where
  "register_midi_led state_name state u =
     (if map_of (lu_leds u) state_name = None
      then u\<lparr>lu_leds := lu_leds u @ [(state_name, state)]\<rparr> else u)"

definition midi_handlers :: "'f loaded_unit \<Rightarrow> (string \<times> 'f) list" where
  "midi_handlers u = lu_handlers u"

definition midi_leds :: "'f loaded_unit \<Rightarrow> (string \<times> int) list" where
  "midi_leds u = lu_leds u"

definition controllable :: "'f loaded_unit \<Rightarrow> bool" where
  "controllable u = (if length (lu_handlers u) = 0 then False else True)"

definition ulabel :: "'f loaded_unit \<Rightarrow> string" where
  "ulabel u = rg_label (lu_unit u)"

record 'f unit_factory =
  uf_load :: "string \<Rightarrow> string \<Rightarrow> string \<Rightarrow> 'f loaded_unit option"
  uf_configure :: "string \<Rightarrow> string \<Rightarrow> 'f loaded_unit \<Rightarrow> 'f loaded_unit"

section \<open>The system\<close>

record ('m, 'f, 'h, 't, 'l) sio_system =
  sy_rack :: "'m sio_rack"
  sy_queue :: "'t tqueue option"
  sy_loop :: "'l option"
  sy_midi :: "('f, 'h) midi_handler option"
  sy_registry :: "registry option"
  sy_schpolicy :: sched_desc

definition system_make :: "'m sio_rack \<Rightarrow> ('m, 'f, 'h, 't, 'l) sio_system" where
  "system_make r = \<lparr>sy_rack = r, sy_queue = None, sy_loop = None, sy_midi = None, sy_registry = None,
     sy_schpolicy = sched_desc_zero\<rparr>"

definition set_cache_utility_of ::
    "cache_manager option \<Rightarrow> ('m, 'f, 'h, 't, 'l) sio_system \<Rightarrow> ('m, 'f, 'h, 't, 'l) sio_system" where
  "set_cache_utility_of c s = s\<lparr>sy_rack := (sy_rack s)\<lparr>rk_cache := c\<rparr>\<rparr>"

definition get_cache_utility_of :: "('m, 'f, 'h, 't, 'l) sio_system \<Rightarrow> cache_manager option" where
  "get_cache_utility_of s = rk_cache (sy_rack s)"

definition set_queue_of ::
    "'t tqueue option \<Rightarrow> ('m, 'f, 'h, 't, 'l) sio_system \<Rightarrow> ('m, 'f, 'h, 't, 'l) sio_system" where
  "set_queue_of q s = s\<lparr>sy_queue := q\<rparr>"

definition get_queue_of :: "('m, 'f, 'h, 't, 'l) sio_system \<Rightarrow> 't tqueue option" where
  "get_queue_of s = sy_queue s"

definition set_loop_of :: "'l option \<Rightarrow> ('m, 'f, 'h, 't, 'l) sio_system \<Rightarrow> ('m, 'f, 'h, 't, 'l) sio_system" where
  "set_loop_of l s = s\<lparr>sy_loop := l\<rparr>"

definition get_loop_of :: "('m, 'f, 'h, 't, 'l) sio_system \<Rightarrow> 'l option" where
  "get_loop_of s = sy_loop s"

definition set_midi_handler ::
    "('f, 'h) midi_handler option \<Rightarrow> ('m, 'f, 'h, 't, 'l) sio_system \<Rightarrow> ('m, 'f, 'h, 't, 'l) sio_system" where
  "set_midi_handler h s = s\<lparr>sy_midi := h\<rparr>"

definition get_midi_handler :: "('m, 'f, 'h, 't, 'l) sio_system \<Rightarrow> ('f, 'h) midi_handler option" where
  "get_midi_handler s = sy_midi s"

definition set_registry ::
    "registry option \<Rightarrow> ('m, 'f, 'h, 't, 'l) sio_system \<Rightarrow> ('m, 'f, 'h, 't, 'l) sio_system" where
  "set_registry r s = s\<lparr>sy_registry := r\<rparr>"

definition get_registry :: "('m, 'f, 'h, 't, 'l) sio_system \<Rightarrow> registry option" where
  "get_registry s = sy_registry s"

definition assign_schpolicy :: "sched_desc \<Rightarrow> ('m, 'f, 'h, 't, 'l) sio_system \<Rightarrow> ('m, 'f, 'h, 't, 'l) sio_system" where
  "assign_schpolicy policy s = s\<lparr>sy_schpolicy := policy\<rparr>"

section \<open>The assembler\<close>

text \<open>The factory, a pointer that may be null; \<open>assemble_unit\<close> is a stub in the code.\<close>

definition assembler_make :: "'f unit_factory option" where
  "assembler_make = None"

definition assembler_with :: "'f unit_factory option \<Rightarrow> 'f unit_factory option" where
  "assembler_with factory = factory"

definition set_builder :: "'f unit_factory option \<Rightarrow> 'f unit_factory option \<Rightarrow> 'f unit_factory option" where
  "set_builder builder factory = builder"

definition assemble_unit :: "string \<Rightarrow> string \<Rightarrow> string \<Rightarrow> 'f loaded_unit option" where
  "assemble_unit model label target = None"

type_synonym ('m, 'f, 'h, 't, 'l) assembly =
  "('m, 'f, 'h, 't, 'l) sio_system \<Rightarrow> ('m, 'f, 'h, 't, 'l) sio_system result"

definition size_queue :: "description \<Rightarrow> ('m, 'f, 'h, 't, 'l) assembly" where
  "size_queue desc sys =
     (case get_queue_of sys of
        None \<Rightarrow> Inr sys
      | Some queue \<Rightarrow>
          (case ds_workers desc of
             None \<Rightarrow> Inl Uninitialised
           | Some n \<Rightarrow> Inr (set_queue_of (Some (queue_set_size n queue)) sys)))"

fun mainlines_each :: "string list \<Rightarrow> ('m, 'f, 'h, 't, 'l) sio_system \<Rightarrow> ('m, 'f, 'h, 't, 'l) sio_system" where
  "mainlines_each [] sys = sys"
| "mainlines_each (m # ms) sys = mainlines_each ms (sys\<lparr>sy_rack := add_mainline m (sy_rack sys)\<rparr>)"

definition assemble_mainlines :: "description \<Rightarrow> ('m, 'f, 'h, 't, 'l) sio_system \<Rightarrow> ('m, 'f, 'h, 't, 'l) sio_system" where
  "assemble_mainlines desc sys = mainlines_each (ds_mainlines desc) sys"

text \<open>\<open>moves\<close>: whether the vector of devices moves when it grows. \<open>get\<close> gives the first device with the label.\<close>

definition with_device :: "nat \<Rightarrow> (('f, 'h) device \<Rightarrow> ('f, 'h) device) \<Rightarrow> ('f, 'h) midi_handler \<Rightarrow> ('f, 'h) midi_handler" where
  "with_device i f h = h\<lparr>mh_devices := (mh_devices h)[i := f (mh_devices h ! i)]\<rparr>"

fun devices_each :: "bool \<Rightarrow> s_controller list \<Rightarrow> ('m, 'f, 'h, 't, 'l) assembly" where
  "devices_each moves [] sys = Inr sys"
| "devices_each moves (c # cs) sys =
     (case get_midi_handler sys of
        None \<Rightarrow> Inl Null_Deref
      | Some handler \<Rightarrow>
          let h1 = midi_add_device moves (ct_port c) (ct_label c) handler in
          (case midi_get (ct_label c) h1 of
             None \<Rightarrow> Inl Null_Deref
           | Some dev \<Rightarrow>
               let h2 = with_device dev (device_set_led_on (ct_led_on c)) h1;
                   h3 = with_device dev (device_set_led_off (ct_led_off c)) h2 in
               devices_each moves cs (set_midi_handler (Some h3) sys)))"

definition assemble_devices :: "bool \<Rightarrow> description \<Rightarrow> ('m, 'f, 'h, 't, 'l) assembly" where
  "assemble_devices moves desc sys = devices_each moves (ds_controllers desc) sys"

text \<open>\<open>unit_description\<close>; \<open>throw;\<close> outside of a handler ends the program.\<close>

definition unit_description :: "description \<Rightarrow> string \<Rightarrow> s_unit result" where
  "unit_description desc label =
     (case find (\<lambda>u. su_label u = label) (ds_units desc) of
        Some u \<Rightarrow> Inr u
      | None \<Rightarrow> Inl Terminate)"

fun bindings_each :: "s_binding list \<Rightarrow> (string \<times> 'f) list \<Rightarrow> ('m, 'f, 'h, 't, 'l) assembly" where
  "bindings_each [] exports sys = Inr sys"
| "bindings_each (b # bs) exports sys =
     (case map_of exports (bd_name b) of
        None \<Rightarrow> bindings_each bs exports sys
      | Some func \<Rightarrow>
          (case get_midi_handler sys of
             None \<Rightarrow> Inl Null_Deref
           | Some handler \<Rightarrow>
               bind_res (midi_add_binding (bd_module b) (of_int (bd_code b)) func handler) (\<lambda>h.
                 bindings_each bs exports (set_midi_handler (Some h) sys))))"

definition assemble_bindings :: "description \<Rightarrow> 'f loaded_unit \<Rightarrow> ('m, 'f, 'h, 't, 'l) assembly" where
  "assemble_bindings desc u sys =
     bind_res (unit_description desc (ulabel u)) (\<lambda>ud. bindings_each (su_bindings ud) (midi_handlers u) sys)"

definition led_mode_of :: "string \<Rightarrow> led_mode" where
  "led_mode_of mode = (if mode = ''blink'' then led_blink else if mode = ''off'' then led_off else led_steady)"

fun leds_each :: "string \<Rightarrow> s_leds list \<Rightarrow> (string \<times> int) list \<Rightarrow> ('m, 'f, 'h, 't, 'l) assembly" where
  "leds_each label [] leds sys = Inr sys"
| "leds_each label (l # ls) leds sys =
     (case map_of leds (ld_state l) of
        None \<Rightarrow> leds_each label ls leds sys
      | Some state \<Rightarrow>
          (case get_midi_handler sys of
             None \<Rightarrow> Inl Null_Deref
           | Some handler \<Rightarrow>
               leds_each label ls leds (set_midi_handler (Some (midi_add_led label state (ld_device l) (ld_code l)
                 (ld_value l) (led_mode_of (ld_mode l)) handler)) sys)))"

definition assemble_leds :: "description \<Rightarrow> 'f loaded_unit \<Rightarrow> ('m, 'f, 'h, 't, 'l) assembly" where
  "assemble_leds desc u sys =
     bind_res (unit_description desc (ulabel u)) (\<lambda>ud. leds_each (ulabel u) (su_leds ud) (midi_leds u) sys)"

definition register_unit :: "'f loaded_unit \<Rightarrow> ('m, 'f, 'h, 't, 'l) sio_system
    \<Rightarrow> ('f loaded_unit \<times> ('m, 'f, 'h, 't, 'l) sio_system) result" where
  "register_unit u sys =
     (case get_registry sys of
        None \<Rightarrow> Inl Null_Deref
      | Some r \<Rightarrow> (case register_component (lu_unit u) r of (z, r') \<Rightarrow>
          Inr (u\<lparr>lu_unit := z\<rparr>, set_registry (Some r') sys)))"

definition configure_all :: "'f unit_factory \<Rightarrow> s_config list \<Rightarrow> 'f loaded_unit \<Rightarrow> 'f loaded_unit" where
  "configure_all F configs u = fold (\<lambda>c. uf_configure F (cf_type c) (cf_value c)) configs u"

text \<open>The factory of an assembler may be null.\<close>

definition check_unit :: "'f unit_factory option \<Rightarrow> description \<Rightarrow> string \<Rightarrow> ('m, 'f, 'h, 't, 'l) assembly" where
  "check_unit factory desc label sys =
     bind_res (unit_description desc label) (\<lambda>ud.
       if has_unit (su_label ud) (sy_rack sys) then Inr sys
       else (case factory of
         None \<Rightarrow> Inl Null_Deref
       | Some F \<Rightarrow>
           (case uf_load F (su_unit ud) (su_label ud) (su_library ud) of
              None \<Rightarrow> Inr sys
            | Some u0 \<Rightarrow>
                let u1 = u0\<lparr>lu_led_utility := get_midi_handler sys \<noteq> None\<rparr> in
                bind_res (register_unit u1 sys) (\<lambda>(u, sys1).
                bind_res (if controllable u then assemble_bindings desc u sys1 else Inr sys1) (\<lambda>sys2.
                bind_res (assemble_leds desc u sys2) (\<lambda>sys3.
                  Inr (sys3\<lparr>sy_rack := add_unit (lu_unit (configure_all F (su_configs ud) u)) (sy_rack sys3)\<rparr>)))))))"

text \<open>The results of connecting are dropped.\<close>

fun daisychains_each :: "'f unit_factory option \<Rightarrow> description \<Rightarrow> s_link list \<Rightarrow> ('m, 'f, 'h, 't, 'l) assembly" where
  "daisychains_each factory desc [] sys = Inr sys"
| "daisychains_each factory desc (l # ls) sys =
     bind_res (check_unit factory desc (lk_to l) sys) (\<lambda>sys1.
     bind_res (if lk_from l = ''rack''
               then Inr (sys1\<lparr>sy_rack := snd (connect_mainline (lk_plug l) (lk_to l) (sy_rack sys1))\<rparr>)
               else map_res (\<lambda>(_, r). sys1\<lparr>sy_rack := r\<rparr>)
                      (connect_units (lk_from l) (lk_plug l) (lk_to l) (lk_jack l) (sy_rack sys1))) (\<lambda>sys2.
       daisychains_each factory desc ls sys2))"

definition assemble_daisychains :: "'f unit_factory option \<Rightarrow> description \<Rightarrow> ('m, 'f, 'h, 't, 'l) assembly" where
  "assemble_daisychains factory desc sys = daisychains_each factory desc (ds_daisychains desc) sys"

text \<open>The policies of Linux.\<close>

definition policy_of :: "string \<Rightarrow> int" where
  "policy_of name =
     (if name = ''SCHED_FIFO'' then 1
      else if name = ''SCHED_RR'' then 2
      else if name = ''SCHED_OTHER'' then 0
      else if name = ''SCHED_BATCH'' then 3
      else if name = ''SCHED_IDLE'' then 5
      else 0)"

definition assemble_schpolicy :: "description \<Rightarrow> ('m, 'f, 'h, 't, 'l) assembly" where
  "assemble_schpolicy desc sys =
     (case lx_affinity (ds_linux desc) of
        None \<Rightarrow> Inl Uninitialised
      | Some a \<Rightarrow> Inr (assign_schpolicy \<lparr>sd_policy = policy_of (lx_policy (ds_linux desc)),
            sd_priority = lx_priority (ds_linux desc), sd_cpu_affinity = a\<rparr> sys))"

definition assemble :: "bool \<Rightarrow> 'f unit_factory option \<Rightarrow> description \<Rightarrow> ('m, 'f, 'h, 't, 'l) assembly" where
  "assemble moves factory desc sys =
     bind_res (size_queue desc sys) (\<lambda>sys1.
     bind_res (assemble_devices moves desc (assemble_mainlines desc sys1)) (\<lambda>sys2.
     bind_res (assemble_daisychains factory desc sys2) (\<lambda>sys3.
       assemble_schpolicy desc sys3)))"

section \<open>What assembling leaves alone\<close>

definition same_but_midi :: "('m, 'f, 'h, 't, 'l) sio_system \<Rightarrow> ('m, 'f, 'h, 't, 'l) sio_system \<Rightarrow> bool" where
  "same_but_midi s s' \<longleftrightarrow> sy_rack s' = sy_rack s \<and> sy_queue s' = sy_queue s \<and> sy_schpolicy s' = sy_schpolicy s"

lemma same_but_midi_refl [simp]: "same_but_midi s s"
  by (simp add: same_but_midi_def)

lemma same_but_midi_trans: "same_but_midi s s1 \<Longrightarrow> same_but_midi s1 s2 \<Longrightarrow> same_but_midi s s2"
  by (simp add: same_but_midi_def)

lemma same_but_midi_set [simp]: "same_but_midi s (set_midi_handler h s)" "same_but_midi s (set_registry r s)"
  by (simp_all add: same_but_midi_def set_midi_handler_def set_registry_def)

lemma devices_same: "devices_each moves cs s = Inr s' \<Longrightarrow> same_but_midi s s'"
proof (induction cs arbitrary: s)
  case (Cons c cs)
  then obtain h where "devices_each moves cs (set_midi_handler h s) = Inr s'"
    by (auto simp: Let_def split: option.splits)
  then show ?case using Cons.IH same_but_midi_trans same_but_midi_set(1) by blast
qed simp

lemma bindings_same: "bindings_each bs exports s = Inr s' \<Longrightarrow> same_but_midi s s'"
proof (induction bs arbitrary: s)
  case (Cons b bs)
  then obtain h where "bindings_each bs exports s = Inr s' \<or> bindings_each bs exports (set_midi_handler h s) = Inr s'"
    by (auto simp: bind_res_eq_Inr split: option.splits)
  then show ?case using Cons.IH same_but_midi_trans same_but_midi_set(1) by blast
qed simp

lemma leds_same: "leds_each label ls leds s = Inr s' \<Longrightarrow> same_but_midi s s'"
proof (induction ls arbitrary: s)
  case (Cons l ls)
  then obtain h where "leds_each label ls leds s = Inr s' \<or> leds_each label ls leds (set_midi_handler h s) = Inr s'"
    by (auto split: option.splits)
  then show ?case using Cons.IH same_but_midi_trans same_but_midi_set(1) by blast
qed simp

lemma register_unit_same:
  assumes "register_unit u s = Inr (u', s')"
  shows "same_but_midi s s'" "ulabel u' = ulabel u"
  using assms
  by (auto simp: register_unit_def register_component_def set_id_def set_handle_def ulabel_def Let_def
      split: option.splits)

text \<open>A loader that gives units the label it is asked for.\<close>

definition keeps_labels :: "'f unit_factory \<Rightarrow> bool" where
  "keeps_labels F \<longleftrightarrow> (\<forall>model label target u. uf_load F model label target = Some u \<longrightarrow> ulabel u = label)
     \<and> (\<forall>k v u. ulabel (uf_configure F k v u) = ulabel u)"

definition loads :: "'f unit_factory \<Rightarrow> description \<Rightarrow> string \<Rightarrow> bool" where
  "loads F desc label \<longleftrightarrow> (case unit_description desc label of
     Inl _ \<Rightarrow> False | Inr ud \<Rightarrow> uf_load F (su_unit ud) (su_label ud) (su_library ud) \<noteq> None)"

lemma configure_label: "keeps_labels F \<Longrightarrow> ulabel (configure_all F cs u) = ulabel u"
  unfolding configure_all_def by (induction cs arbitrary: u) (simp_all add: keeps_labels_def)

lemma description_label: "unit_description desc label = Inr ud \<Longrightarrow> su_label ud = label \<and> ud \<in> set (ds_units desc)"
  by (auto simp: unit_description_def find_Some_iff split: option.splits)

lemma has_unit_add: "has_unit x (add_unit z r) \<longleftrightarrow> has_unit x r \<or> x = rg_label z"
  by (simp add: has_unit_def add_unit_def Let_def)

lemma mainlines_add_unit [simp]: "rk_mainlines (add_unit z r) = rk_mainlines r"
  by (simp add: add_unit_def Let_def)

text \<open>One unit.\<close>

definition same_queue :: "('m, 'f, 'h, 't, 'l) sio_system \<Rightarrow> ('m, 'f, 'h, 't, 'l) sio_system \<Rightarrow> bool" where
  "same_queue s s' \<longleftrightarrow> sy_queue s' = sy_queue s \<and> sy_schpolicy s' = sy_schpolicy s
     \<and> dom (rk_mainlines (sy_rack s)) \<subseteq> dom (rk_mainlines (sy_rack s'))"

lemma same_queue_trans: "same_queue s s1 \<Longrightarrow> same_queue s1 s2 \<Longrightarrow> same_queue s s2"
  unfolding same_queue_def by (metis subset_trans)

lemma check_unit_mounts:
  assumes F: "keeps_labels F" and ok: "check_unit (Some F) desc label s = Inr s'"
  shows "same_queue s s' \<and> (\<forall>x. has_unit x (sy_rack s') \<longleftrightarrow> has_unit x (sy_rack s) \<or> (x = label \<and> loads F desc label))"
proof -
  obtain ud where ud: "unit_description desc label = Inr ud" "su_label ud = label"
    using ok description_label by (fastforce simp: check_unit_def bind_res_eq_Inr)
  consider "has_unit label (sy_rack s)" | "\<not> has_unit label (sy_rack s)" "uf_load F (su_unit ud) label (su_library ud) = None"
    | u0 where "\<not> has_unit label (sy_rack s)" "uf_load F (su_unit ud) label (su_library ud) = Some u0"
    by (cases "uf_load F (su_unit ud) label (su_library ud)") auto
  then show ?thesis
  proof cases
    case 1
    then show ?thesis using ok ud by (auto simp: check_unit_def same_queue_def)
  next
    case 2
    then show ?thesis using ok ud by (auto simp: check_unit_def same_queue_def loads_def)
  next
    case (3 u0)
    let ?u1 = "u0\<lparr>lu_led_utility := get_midi_handler s \<noteq> None\<rparr>"
    obtain u s1 s2 s3 where st: "register_unit ?u1 s = Inr (u, s1)"
        "(if controllable u then assemble_bindings desc u s1 else Inr s1) = Inr s2"
        "assemble_leds desc u s2 = Inr s3"
      and s': "s' = s3\<lparr>sy_rack := add_unit (lu_unit (configure_all F (su_configs ud) u)) (sy_rack s3)\<rparr>"
      using ok ud 3 by (auto simp: check_unit_def bind_res_eq_Inr)
    have "same_but_midi s1 s2"
      using st(2) bindings_same by (auto simp: assemble_bindings_def bind_res_eq_Inr split: if_splits)
    moreover have "same_but_midi s2 s3" using st(3) leds_same by (auto simp: assemble_leds_def bind_res_eq_Inr)
    ultimately have same: "same_but_midi s s3"
      using register_unit_same(1) [OF st(1)] same_but_midi_trans by blast
    have "ulabel u0 = label" using F 3(2) by (auto simp: keeps_labels_def)
    then have "ulabel u = label" using register_unit_same(2) [OF st(1)] by (simp add: ulabel_def)
    then have "rg_label (lu_unit (configure_all F (su_configs ud) u)) = label"
      using configure_label [OF F, of "su_configs ud" u] by (simp add: ulabel_def)
    moreover have "loads F desc label" using 3(2) ud by (simp add: loads_def)
    ultimately show ?thesis
      using same by (auto simp: s' same_queue_def same_but_midi_def has_unit_add)
  qed
qed

lemma connect_mounted:
  "has_unit x (snd (connect_mainline m label r)) \<longleftrightarrow> has_unit x r"
  "dom (rk_mainlines (snd (connect_mainline m label r))) = dom (rk_mainlines r)"
  by (auto simp: connect_mainline_def has_unit_def split: option.splits)

lemma connect_units_mounted:
  assumes "connect_units a b c d r = Inr (k, r')"
  shows "has_unit x r' \<longleftrightarrow> has_unit x r" "rk_mainlines r' = rk_mainlines r"
  using assms
  by (auto simp: connect_units_def has_unit_def Let_def bind_res_eq_Inr split: option.splits if_splits)

lemma daisychains_mount:
  assumes F: "keeps_labels F"
  shows "daisychains_each (Some F) desc ls s = Inr s' \<Longrightarrow> same_queue s s'
    \<and> (\<forall>x. has_unit x (sy_rack s') \<longleftrightarrow> has_unit x (sy_rack s) \<or> (x \<in> lk_to ` set ls \<and> loads F desc x))"
proof (induction ls arbitrary: s)
  case Nil
  then show ?case by (simp add: same_queue_def)
next
  case (Cons l ls)
  obtain s1 where s1: "check_unit (Some F) desc (lk_to l) s = Inr s1"
    using Cons.prems by (auto simp: bind_res_eq_Inr)
  have "\<exists>s2. same_queue s1 s2 \<and> (\<forall>x. has_unit x (sy_rack s2) \<longleftrightarrow> has_unit x (sy_rack s1))
      \<and> daisychains_each (Some F) desc ls s2 = Inr s'"
  proof (cases "lk_from l = ''rack''")
    case True
    then show ?thesis
      using Cons.prems s1
      by (intro exI [of _ "s1\<lparr>sy_rack := snd (connect_mainline (lk_plug l) (lk_to l) (sy_rack s1))\<rparr>"])
         (simp add: same_queue_def connect_mounted)
  next
    case False
    then obtain k r' where r': "connect_units (lk_from l) (lk_plug l) (lk_to l) (lk_jack l) (sy_rack s1) = Inr (k, r')"
        "daisychains_each (Some F) desc ls (s1\<lparr>sy_rack := r'\<rparr>) = Inr s'"
      using Cons.prems s1 by (auto simp: bind_res_eq_Inr map_res_eq_Inr)
    then show ?thesis
      using connect_units_mounted [OF r'(1)]
      by (intro exI [of _ "s1\<lparr>sy_rack := r'\<rparr>"]) (simp add: same_queue_def)
  qed
  then obtain s2 where s2: "same_queue s1 s2" "\<forall>x. has_unit x (sy_rack s2) \<longleftrightarrow> has_unit x (sy_rack s1)"
      "daisychains_each (Some F) desc ls s2 = Inr s'"
    by blast
  show ?case
    using check_unit_mounts [OF F s1] Cons.IH [OF s2(3)] s2(1,2) same_queue_trans by (auto intro: same_queue_trans)
qed

lemma mainlines_each_facts:
  "sy_queue (mainlines_each ms s) = sy_queue s \<and> has_unit x (sy_rack (mainlines_each ms s)) = has_unit x (sy_rack s)
   \<and> set ms \<subseteq> dom (rk_mainlines (sy_rack (mainlines_each ms s)))
   \<and> dom (rk_mainlines (sy_rack s)) \<subseteq> dom (rk_mainlines (sy_rack (mainlines_each ms s)))"
proof (induction ms arbitrary: s)
  case (Cons m ms)
  let ?s = "s\<lparr>sy_rack := add_mainline m (sy_rack s)\<rparr>"
  have "m \<in> dom (rk_mainlines (sy_rack ?s))" "dom (rk_mainlines (sy_rack s)) \<subseteq> dom (rk_mainlines (sy_rack ?s))"
    "has_unit x (sy_rack ?s) = has_unit x (sy_rack s)"
    by (auto simp: add_mainline_def has_unit_def)
  note step = this
  note IH = Cons.IH [of ?s]
  have "dom (rk_mainlines (sy_rack s)) \<subseteq> dom (rk_mainlines (sy_rack (mainlines_each (m # ms) s)))"
    using step(2) IH unfolding mainlines_each.simps by (blast intro: subset_trans)
  moreover have "set (m # ms) \<subseteq> dom (rk_mainlines (sy_rack (mainlines_each (m # ms) s)))"
    using step(1) IH unfolding mainlines_each.simps list.set by blast
  ultimately show ?case using step(3) IH by simp
qed simp

lemma check_unit_description:
  assumes "check_unit factory desc label s = Inr s'"
  shows "label \<in> su_label ` set (ds_units desc)"
proof -
  obtain ud where "unit_description desc label = Inr ud" using assms by (auto simp: check_unit_def bind_res_eq_Inr)
  from description_label [OF this] show ?thesis by blast
qed

lemma daisychains_described:
  "daisychains_each factory desc ls s = Inr s' \<Longrightarrow> lk_to ` set ls \<subseteq> su_label ` set (ds_units desc)"
proof (induction ls arbitrary: s)
  case (Cons l ls)
  then obtain s1 s2 where "check_unit factory desc (lk_to l) s = Inr s1" "daisychains_each factory desc ls s2 = Inr s'"
    by (auto simp: bind_res_eq_Inr)
  then show ?case using check_unit_description Cons.IH by (metis image_insert insert_subset list.set(2))
qed simp

lemma assemble_mounts:
  fixes s s' :: "('m, 'f, 'h, 't, 'l) sio_system"
  assumes "keeps_labels F" and "assemble moves (Some F) desc s = Inr s'"
  shows "(\<forall>x. has_unit x (sy_rack s') \<longleftrightarrow>
        has_unit x (sy_rack s) \<or> (x \<in> lk_to ` set (ds_daisychains desc) \<and> loads F desc x))
    \<and> set (ds_mainlines desc) \<subseteq> dom (rk_mainlines (sy_rack s'))
    \<and> map_option q_size (sy_queue s') = (if sy_queue s = None then None else ds_workers desc)
    \<and> sd_policy (sy_schpolicy s') = policy_of (lx_policy (ds_linux desc))
    \<and> sd_priority (sy_schpolicy s') = lx_priority (ds_linux desc)
    \<and> Some (sd_cpu_affinity (sy_schpolicy s')) = lx_affinity (ds_linux desc)"
proof -
  obtain s1 s2 s3 where st: "size_queue desc s = Inr s1"
      "devices_each moves (ds_controllers desc) (mainlines_each (ds_mainlines desc) s1) = Inr s2"
      "daisychains_each (Some F) desc (ds_daisychains desc) s2 = Inr s3" "assemble_schpolicy desc s3 = Inr s'"
    using assms(2)
    by (auto simp: assemble_def assemble_devices_def assemble_mainlines_def assemble_daisychains_def bind_res_eq_Inr)
  have q: "map_option q_size (sy_queue s1) = (if sy_queue s = None then None else ds_workers desc)"
    and r: "sy_rack s1 = sy_rack s"
    using st(1) by (auto simp: size_queue_def get_queue_of_def set_queue_of_def queue_set_size_def split: option.splits)
  note m = mainlines_each_facts [of "ds_mainlines desc" s1] and d = devices_same [OF st(2)]
    and c = daisychains_mount [OF assms(1) st(3)]
  have "sy_rack s' = sy_rack s3" "sy_queue s' = sy_queue s3" "sd_policy (sy_schpolicy s') = policy_of (lx_policy (ds_linux desc))"
      "sd_priority (sy_schpolicy s') = lx_priority (ds_linux desc)"
      "Some (sd_cpu_affinity (sy_schpolicy s')) = lx_affinity (ds_linux desc)"
    using st(4) by (auto simp: assemble_schpolicy_def assign_schpolicy_def split: option.splits)
  moreover have "set (ds_mainlines desc) \<subseteq> dom (rk_mainlines (sy_rack s3))"
    using m d c unfolding same_but_midi_def same_queue_def by (metis subset_trans)
  ultimately show ?thesis using m d c q r by (simp add: same_but_midi_def same_queue_def)
qed

section \<open>Properties\<close>

text \<open>A system that was assembled has exactly the units that were mounted before and those that a
  daisychain leads to and the loader gives; it has every mainline of the description, the
  queue has the described size, and the worker gets the policy, priority and processor
  of the description.\<close>

theorem assemble_builds:
  fixes s s' :: "('m, 'f, 'h, 't, 'l) sio_system"
  assumes "keeps_labels F" and "assemble moves (Some F) desc s = Inr s'"
  shows "(\<forall>x. has_unit x (sy_rack s') \<longleftrightarrow>
        has_unit x (sy_rack s) \<or> (x \<in> lk_to ` set (ds_daisychains desc) \<and> loads F desc x))
    \<and> set (ds_mainlines desc) \<subseteq> dom (rk_mainlines (sy_rack s'))
    \<and> map_option q_size (sy_queue s') = (if sy_queue s = None then None else ds_workers desc)
    \<and> sd_policy (sy_schpolicy s') = policy_of (lx_policy (ds_linux desc))
    \<and> sd_priority (sy_schpolicy s') = lx_priority (ds_linux desc)
    \<and> Some (sd_cpu_affinity (sy_schpolicy s')) = lx_affinity (ds_linux desc)"
  using assms by (rule assemble_mounts)

text \<open>A daisychain that leads to a label without a unit in the description, which the document reader
  accepts, cannot be assembled: the assembler ends the program or fails before.\<close>

theorem assemble_needs_units:
  fixes s :: "('m, 'f, 'h, 't, 'l) sio_system"
  assumes "l \<in> set (ds_daisychains desc)" and "lk_to l \<notin> su_label ` set (ds_units desc)"
  shows "\<exists>e. assemble moves factory desc s = Inl e"
proof (cases "assemble moves factory desc s")
  case (Inr s')
  then obtain s2 s3 :: "('m, 'f, 'h, 't, 'l) sio_system" where "daisychains_each factory desc (ds_daisychains desc) s2 = Inr s3"
    by (auto simp: assemble_def assemble_daisychains_def bind_res_eq_Inr)
  from daisychains_described [OF this] show ?thesis using assms by blast
qed simp

definition demo_factory :: "string unit_factory" where
  "demo_factory = \<lparr>uf_load = (\<lambda>model label target. if model = ''Loader''
       then Some \<lparr>lu_unit = unit_make Plain_Class UT_Step model label, lu_handlers = [(''trigger'', ''play'')],
              lu_leds = [(''on'', 1)], lu_led_utility = False\<rparr>
       else None),
     uf_configure = (\<lambda>_ _ u. u)\<rparr>"

definition demo_plan :: description where
  "demo_plan = demo_desc\<lparr>ds_daisychains := [\<lparr>lk_from = ''rack'', lk_plug = ''ac1'', lk_to = ''loader'', lk_jack = ''ac''\<rparr>]\<rparr>"

definition demo_system :: "(unit, string, nat, nat, unit) sio_system" where
  "demo_system = (system_make (rack_make ()))\<lparr>sy_midi := Some midi_handler_make, sy_registry := Some registry_make\<rparr>"

lemma cast_60: "cast_int 60 = Inr 60"
  using cast_int_of_int [of 60] by simp

lemmas demo_runs = assemble_def size_queue_def assemble_devices_def assemble_mainlines_def assemble_daisychains_def
  assemble_schpolicy_def check_unit_def unit_description_def register_unit_def assemble_bindings_def assemble_leds_def
  system_make_def get_queue_of_def get_midi_handler_def set_midi_handler_def get_registry_def set_registry_def
  with_device_def midi_add_device_def midi_handler_make_def midi_get_def device_get_alias_def device_make_def
  controllable_def midi_handlers_def midi_leds_def midi_add_binding_def device_add_binding_def cast_60 led_mode_of_def midi_add_led_def
  configure_all_def add_unit_def get_unit_def assign_schpolicy_def policy_of_def connect_mainline_def
  has_unit_def rack_make_def add_mainline_def register_component_def registry_make_def set_id_def set_handle_def
  Let_def ulabel_def unit_make_def linkable_make_def registrable_make_def linkable.defs registrable.defs device_set_led_on_def
  device_set_led_off_def

theorem assemble_builds_witness:
  "\<exists>s'. assemble False (Some demo_factory) demo_plan demo_system = Inr s' \<and> has_unit ''loader'' (sy_rack s')
    \<and> sd_policy (sy_schpolicy s') = 1"
proof -
  have F: "keeps_labels demo_factory"
    by (simp add: keeps_labels_def demo_factory_def ulabel_def unit_make_def linkable_make_def registrable_make_def
        linkable.defs registrable.defs)
  have "\<exists>s'. assemble False (Some demo_factory) demo_plan demo_system = Inr s'"
    by (simp add: demo_runs demo_plan_def demo_desc_def demo_system_def demo_factory_def)
  then obtain s' where s': "assemble False (Some demo_factory) demo_plan demo_system = Inr s'" by blast
  have "loads demo_factory demo_plan ''loader''"
    by (simp add: loads_def unit_description_def demo_plan_def demo_desc_def demo_factory_def)
  moreover have "policy_of (lx_policy (ds_linux demo_plan)) = 1" "''loader'' \<in> lk_to ` set (ds_daisychains demo_plan)"
    by (simp_all add: policy_of_def demo_plan_def demo_desc_def)
  ultimately show ?thesis using assemble_builds [OF F s'] s' by auto
qed

theorem assemble_needs_units_witness:
  "\<exists>e. assemble False (Some demo_factory) demo_desc demo_system = Inl e"
  by (rule assemble_needs_units [of "\<lparr>lk_from = ''loader'', lk_plug = ''out'', lk_to = ''sink'', lk_jack = ''in''\<rparr>"])
     (simp_all add: demo_desc_def)

end
