(* ===== verification/System.thy ===== *)
theory System
  imports Assembler Event_Loop
begin

text \<open>
  Putting a system together: \<open>system::setup\<close> of \<^verbatim>\<open>framework/routine/system.cpp\<close>, which reads a configuration and
  assembles a rack from it, and the loader of units, \<^verbatim>\<open>component/unit_loader.cpp\<close> with \<^verbatim>\<open>dynlib/linux_library.hpp\<close>.

  The dynamic linker is a parameter. What \<open>setup\<close> starts, the threads of the queue and of the devices, and its
  20 milliseconds of sleep are left out; the signal handler is part of development builds only.
\<close>

section \<open>Libraries\<close>

record ('lib, 'f) linker =
  dl_good :: "string \<Rightarrow> bool"
  dl_open :: "string \<Rightarrow> 'lib option"
  dl_sym :: "'lib \<Rightarrow> string \<Rightarrow> (string \<Rightarrow> 'f loaded_unit) option"

text \<open>The constructor of \<open>library\<close> throws nothing when \<open>dlopen\<close> fails: \<open>throw;\<close> without an exception at hand
  ends the program, before the handler in \<open>library::load\<close> could see it. What a library is made of comes with the
  list of the paths that were given to \<open>dlopen\<close>.\<close>

definition library_make :: "('lib, 'f) linker \<Rightarrow> string \<Rightarrow> ('lib \<times> string list) result" where
  "library_make os path = (case dl_open os path of None \<Rightarrow> Inl Terminate | Some lib \<Rightarrow> Inr (lib, [path]))"

definition library_load :: "('lib, 'f) linker \<Rightarrow> string \<Rightarrow> ('lib option \<times> string list) result" where
  "library_load os libpath =
     (if \<not> dl_good os libpath then Inr (None, [])
      else map_res (\<lambda>(lib, calls). (Some lib, calls)) (library_make os libpath))"

text \<open>The methods of a library by its handle, which may be null; \<open>close\<close> and the destructor give the handles they
  close.\<close>

definition load_symbol :: "('lib, 'f) linker \<Rightarrow> 'lib option \<Rightarrow> string \<Rightarrow> (string \<Rightarrow> 'f loaded_unit) option" where
  "load_symbol os handle name = (case handle of None \<Rightarrow> None | Some lib \<Rightarrow> dl_sym os lib name)"

definition library_close :: "'lib option \<Rightarrow> 'lib option \<times> 'lib list" where
  "library_close handle = (case handle of None \<Rightarrow> (None, []) | Some lib \<Rightarrow> (Some lib, [lib]))"

definition library_destroy :: "'lib option \<Rightarrow> 'lib list" where
  "library_destroy handle = (case handle of None \<Rightarrow> [] | Some lib \<Rightarrow> [lib])"

text \<open>\<open>unit_loader::load\<close>; the state is the map of the libraries that are open, \<open>m_libraries\<close>, and, for the
  statements, the list of all paths the linker has been asked to open.\<close>

record 'lib unit_loader =
  ul_libraries :: "string \<Rightarrow> 'lib option"
  ul_dlopen :: "string list"

definition unit_loader_make :: "'lib unit_loader" where
  "unit_loader_make = \<lparr>ul_libraries = (\<lambda>_. None), ul_dlopen = []\<rparr>"

definition loader_load ::
    "('lib, 'f) linker \<Rightarrow> string \<Rightarrow> string \<Rightarrow> string \<Rightarrow> 'lib unit_loader \<Rightarrow> ('f loaded_unit option \<times> 'lib unit_loader) result" where
  "loader_load os model label target ld =
     bind_res (case ul_libraries ld target of
         Some lib \<Rightarrow> Inr (Some lib, ld)
       | None \<Rightarrow>
           map_res (\<lambda>(l, calls).
             let ld1 = ld\<lparr>ul_dlopen := ul_dlopen ld @ calls\<rparr> in
             case l of
               None \<Rightarrow> (None, ld1)
             | Some lib \<Rightarrow> (Some lib, ld1\<lparr>ul_libraries := (ul_libraries ld1)(target \<mapsto> lib)\<rparr>))
           (library_load os target)) (\<lambda>(l, ld').
     case l of
       None \<Rightarrow> Inr (None, ld')
     | Some lib \<Rightarrow>
         (case load_symbol os (Some lib) (''Build'' @ model) of
            None \<Rightarrow> Inr (None, ld')
          | Some loader \<Rightarrow> Inr (Some (loader label), ld')))"

fun loader_run ::
    "('lib, 'f) linker \<Rightarrow> (string \<times> string \<times> string) list \<Rightarrow> 'lib unit_loader
      \<Rightarrow> ('f loaded_unit option list \<times> 'lib unit_loader) result" where
  "loader_run os [] ld = Inr ([], ld)"
| "loader_run os ((model, label, target) # ls) ld =
     bind_res (loader_load os model label target ld) (\<lambda>(u, ld1).
       map_res (\<lambda>(us, ld2). (u # us, ld2)) (loader_run os ls ld1))"

text \<open>What a load is to give: no unit when there is no such file or the library does not build the model, the end of
  the program when the file is there and is not a library.\<close>

definition fresh_load :: "('lib, 'f) linker \<Rightarrow> string \<Rightarrow> string \<Rightarrow> string \<Rightarrow> 'f loaded_unit option result" where
  "fresh_load os model label target =
     (if \<not> dl_good os target then Inr None
      else case dl_open os target of
        None \<Rightarrow> Inl Terminate
      | Some lib \<Rightarrow> Inr (map_option (\<lambda>b. b label) (dl_sym os lib (''Build'' @ model))))"

lemma firsts_snoc [simp]:
  "firsts seen (ts @ [t]) = (if t \<in> set seen \<union> set ts then firsts seen ts else firsts seen ts @ [t])"
  by (induction seen ts rule: firsts.induct) auto

lemma firsts_set [simp]: "set (firsts seen ts) = set ts - set seen"
  by (induction seen ts rule: firsts.induct) auto

text \<open>A loader that has been asked for the paths \<open>ts\<close>: every library among them that exists has been opened once and
  is kept.\<close>

definition loader_after :: "('lib, 'f) linker \<Rightarrow> string list \<Rightarrow> 'lib unit_loader" where
  "loader_after os ts =
     \<lparr>ul_libraries = (\<lambda>t. if t \<in> set ts \<and> dl_good os t then dl_open os t else None),
      ul_dlopen = firsts [] (filter (dl_good os) ts)\<rparr>"

lemma loader_load_after:
  assumes "\<forall>t \<in> set ts. dl_good os t \<longrightarrow> dl_open os t \<noteq> None"
  shows "loader_load os model label target (loader_after os ts)
    = map_res (\<lambda>u. (u, loader_after os (ts @ [target]))) (fresh_load os model label target)"
proof (cases "dl_good os target")
  case False
  then have "loader_after os (ts @ [target]) = loader_after os ts" by (auto simp: loader_after_def)
  moreover have "ul_libraries (loader_after os ts) target = None" using False by (simp add: loader_after_def)
  ultimately show ?thesis using False by (simp add: loader_load_def fresh_load_def library_load_def)
next
  case good: True
  show ?thesis
  proof (cases "dl_open os target")
    case None
    then have "ul_libraries (loader_after os ts) target = None" by (simp add: loader_after_def)
    then show ?thesis using good None by (simp add: loader_load_def fresh_load_def library_load_def library_make_def)
  next
    case (Some lib)
    have rest: "(case load_symbol os (Some lib) (''Build'' @ model) of
          None \<Rightarrow> Inr (None, ld) | Some loader \<Rightarrow> Inr (Some (loader label), ld))
        = map_res (\<lambda>u. (u, ld)) (fresh_load os model label target)" for ld :: "'a unit_loader"
      using good Some by (simp add: load_symbol_def fresh_load_def split: option.splits)
    show ?thesis
    proof (cases "target \<in> set ts")
      case True
      then have "loader_after os (ts @ [target]) = loader_after os ts" using good by (auto simp: loader_after_def)
      moreover have "ul_libraries (loader_after os ts) target = Some lib" using True good Some by (simp add: loader_after_def)
      ultimately show ?thesis using rest [of "loader_after os ts"] by (simp add: loader_load_def)
    next
      case False
      let ?ld = "loader_after os ts" and ?ld' = "loader_after os (ts @ [target])"
      have "ul_libraries ?ld target = None" using False by (simp add: loader_after_def)
      moreover have "?ld\<lparr>ul_dlopen := ul_dlopen ?ld @ [target], ul_libraries := (ul_libraries ?ld)(target \<mapsto> lib)\<rparr> = ?ld'"
        using False good Some by (auto simp: loader_after_def)
      ultimately show ?thesis
        using good Some rest [of ?ld'] by (simp add: loader_load_def library_load_def library_make_def Let_def)
    qed
  qed
qed

text \<open>Loads one after the other, each asked of the linker afresh.\<close>

fun fresh_run :: "('lib, 'f) linker \<Rightarrow> (string \<times> string \<times> string) list \<Rightarrow> 'f loaded_unit option list result" where
  "fresh_run os [] = Inr []"
| "fresh_run os ((model, label, target) # ls) =
     bind_res (fresh_load os model label target) (\<lambda>u. map_res (Cons u) (fresh_run os ls))"

lemma loader_run_after:
  "\<forall>t \<in> set ts. dl_good os t \<longrightarrow> dl_open os t \<noteq> None \<Longrightarrow>
    loader_run os ls (loader_after os ts)
      = map_res (\<lambda>us. (us, loader_after os (ts @ map (\<lambda>(m, l, t). t) ls))) (fresh_run os ls)"
proof (induction ls arbitrary: ts)
  case (Cons x ls)
  obtain m l t where x: "x = (m, l, t)" by (cases x)
  show ?case
  proof (cases "fresh_load os m l t")
    case (Inl e)
    then show ?thesis by (simp add: x loader_load_after [OF Cons.prems])
  next
    case (Inr u)
    then have "\<forall>t' \<in> set (ts @ [t]). dl_good os t' \<longrightarrow> dl_open os t' \<noteq> None"
      using Cons.prems by (auto simp: fresh_load_def split: if_splits option.splits)
    from Cons.IH [OF this] show ?thesis
      using Inr by (cases "fresh_run os ls") (simp_all add: x loader_load_after [OF Cons.prems])
  qed
qed simp

lemma fresh_run_fails:
  "fresh_run os ls = Inl Terminate \<longleftrightarrow> (\<exists>(m, l, t) \<in> set ls. dl_good os t \<and> dl_open os t = None)"
proof (induction ls)
  case (Cons x ls)
  obtain m l t where x: "x = (m, l, t)" by (cases x)
  have "map_res (Cons u) (fresh_run os ls) = Inl Terminate \<longleftrightarrow> fresh_run os ls = Inl Terminate" for u
    by (cases "fresh_run os ls") simp_all
  then show ?case using Cons.IH by (simp add: x fresh_load_def split: option.split)
qed simp

lemma fresh_run_length: "fresh_run os ls = Inr us \<Longrightarrow> length us = length ls"
  by (induction ls arbitrary: us rule: fresh_run.induct [of _ os]) (auto simp: bind_res_eq_Inr map_res_eq_Inr)

lemma fresh_run_each:
  "fresh_run os ls = Inr us \<Longrightarrow> k < length ls \<Longrightarrow> case ls ! k of (m, l, t) \<Rightarrow> fresh_load os m l t = Inr (us ! k)"
proof (induction ls arbitrary: us k)
  case (Cons x ls)
  obtain m l t where x: "x = (m, l, t)" by (cases x)
  then obtain u us' where us: "us = u # us'" "fresh_load os m l t = Inr u" "fresh_run os ls = Inr us'"
    using Cons.prems(1) by (auto simp: bind_res_eq_Inr map_res_eq_Inr)
  show ?case
  proof (cases k)
    case 0
    then show ?thesis using us x by simp
  next
    case (Suc j)
    then show ?thesis using Cons.IH [OF us(3), of j] Cons.prems(2) us(1) by simp
  qed
qed simp

section \<open>Setup\<close>

definition system_setup ::
    "bool \<Rightarrow> json_env \<Rightarrow> (string \<Rightarrow> string option) \<Rightarrow> 'h midi_driver \<Rightarrow> 'f unit_factory \<Rightarrow> 'm \<Rightarrow> string \<Rightarrow> int
      \<Rightarrow> ('m, 'f, 'h, 't, 'l ev_loop) sio_system result" where
  "system_setup moves E files drv F user config_path cache_blocks =
     (let sys0 = system_make (rack_make user);
          sys1 = set_queue_of (Some (queue_make 2)) sys0;
          sys2 = set_loop_of (Some loop_make) sys1;
          sys3 = set_midi_handler (Some midi_handler_make) sys2;
          sys4 = set_cache_utility_of (Some (cache_manager_make cache_blocks)) sys3;
          sys5 = set_registry (Some registry_make) sys4
      in bind_res (document_load E files config_path) (\<lambda>config.
         bind_res (assemble moves (set_builder (Some F) assembler_make) config sys5) (\<lambda>sys6.
           Inr (set_midi_handler (map_option (midi_init drv) (get_midi_handler sys6)) sys6))))"

section \<open>Assembling succeeds\<close>

text \<open>Units whose outputs and inputs are numbered, as \<open>add_output\<close> and \<open>add_input\<close> number them.\<close>

definition ports_ok :: "'a linkable_scheme \<Rightarrow> bool" where
  "ports_ok z \<longleftrightarrow> lk_num_outputs z = length (lk_outputs z) \<and> lk_num_inputs z = length (lk_inputs z)
     \<and> list_all (\<lambda>out. lo_id out < length (lk_outputs z)) (lk_outputs z)
     \<and> list_all (\<lambda>inp. li_id inp < length (lk_inputs z)) (lk_inputs z)"

definition rack_ok :: "'m sio_rack \<Rightarrow> bool" where
  "rack_ok r \<longleftrightarrow> (\<forall>label u. rk_mounted r label = Some u \<longrightarrow> u < length (rk_units r))
     \<and> list_all ports_ok (rk_units r)"

definition factory_ok :: "'f unit_factory \<Rightarrow> bool" where
  "factory_ok F \<longleftrightarrow> keeps_labels F
     \<and> (\<forall>model label target u. uf_load F model label target = Some u \<longrightarrow> ports_ok (lu_unit u))
     \<and> (\<forall>k v u. ports_ok (lu_unit u) \<longrightarrow> ports_ok (lu_unit (uf_configure F k v u)))"

definition sys_ok :: "('m, 'f, 'h, 't, 'l) sio_system \<Rightarrow> bool" where
  "sys_ok s \<longleftrightarrow> sy_midi s \<noteq> None \<and> sy_registry s \<noteq> None \<and> rack_ok (sy_rack s)"

lemma bind_devices_runs: "int_range code \<Longrightarrow> \<exists>ds'. bind_devices modul (of_int code) func ds = Inr ds'"
proof (induction ds)
  case (Cons d ds)
  then show ?case by (auto simp: device_add_binding_def cast_int_of_int int_range_def split: option.splits)
qed simp

lemma bindings_run:
  assumes "list_all (\<lambda>b. int_range (bd_code b)) bs" and "sys_ok s"
  shows "\<exists>s'. bindings_each bs exports s = Inr s' \<and> sys_ok s'"
  using assms
proof (induction bs arbitrary: s)
  case (Cons b bs)
  show ?case
  proof (cases "map_of exports (bd_name b)")
    case None
    then show ?thesis using Cons.IH [of s] Cons.prems by simp
  next
    case (Some func)
    obtain h where h: "sy_midi s = Some h" using Cons.prems(2) by (auto simp: sys_ok_def)
    obtain h' where h': "midi_add_binding (bd_module b) (of_int (bd_code b)) func h = Inr h'"
      using bind_devices_runs [of "bd_code b" "bd_module b" func "mh_devices h"] Cons.prems(1)
      by (auto simp: midi_add_binding_def)
    have "sys_ok (set_midi_handler (Some h') s)" using Cons.prems(2) by (simp add: sys_ok_def set_midi_handler_def)
    then show ?thesis using Cons.IH [of "set_midi_handler (Some h') s"] Cons.prems(1) Some h h'
      by (simp add: get_midi_handler_def)
  qed
qed simp

lemma leds_run: "sys_ok s \<Longrightarrow> \<exists>s'. leds_each label ls leds s = Inr s' \<and> sys_ok s'"
proof (induction ls arbitrary: s)
  case (Cons l ls)
  obtain h where h: "sy_midi s = Some h" using Cons.prems by (auto simp: sys_ok_def)
  have "sys_ok (set_midi_handler (Some h') s)" for h'
    using Cons.prems by (simp add: sys_ok_def set_midi_handler_def)
  then show ?case using Cons.IH Cons.prems h by (auto simp: get_midi_handler_def split: option.splits)
qed simp

lemma rack_ok_add: "rack_ok r \<Longrightarrow> ports_ok z \<Longrightarrow> rack_ok (add_unit z r)"
  by (auto simp: rack_ok_def add_unit_def Let_def ports_ok_def less_Suc_eq)

lemma configure_outs: "factory_ok F \<Longrightarrow> ports_ok (lu_unit u) \<Longrightarrow> ports_ok (lu_unit (configure_all F cs u))"
  unfolding configure_all_def by (induction cs arbitrary: u) (simp_all add: factory_ok_def)

lemma unit_description_runs:
  assumes "label \<in> su_label ` set (ds_units desc)"
  shows "\<exists>ud. unit_description desc label = Inr ud \<and> su_label ud = label \<and> ud \<in> set (ds_units desc)"
proof -
  have "find (\<lambda>u. su_label u = label) (ds_units desc) \<noteq> None" using assms by (auto simp: find_None_iff)
  then obtain ud where "unit_description desc label = Inr ud" by (auto simp: unit_description_def)
  with description_label [OF this] show ?thesis by simp
qed

lemma assemble_bindings_runs:
  assumes "unit_description desc (ulabel u) = Inr ud" and "list_all (\<lambda>b. int_range (bd_code b)) (su_bindings ud)"
    and "sys_ok s"
  shows "\<exists>s'. (if b then assemble_bindings desc u s else Inr s) = Inr s' \<and> sys_ok s'"
  using bindings_run [OF assms(2,3)] assms by (auto simp: assemble_bindings_def)

lemma assemble_leds_runs:
  "unit_description desc (ulabel u) = Inr ud \<Longrightarrow> sys_ok s \<Longrightarrow> \<exists>s'. assemble_leds desc u s = Inr s' \<and> sys_ok s'"
  using leds_run by (auto simp: assemble_leds_def)

lemma check_unit_loaded:
  assumes "unit_description desc label = Inr ud" and "su_label ud = label" and "\<not> has_unit label (sy_rack s)"
    and "uf_load F (su_unit ud) label (su_library ud) = Some u0"
    and "register_unit (u0\<lparr>lu_led_utility := get_midi_handler s \<noteq> None\<rparr>) s = Inr (u, s1)"
    and "(if controllable u then assemble_bindings desc u s1 else Inr s1) = Inr s2"
    and "assemble_leds desc u s2 = Inr s3"
  shows "check_unit (Some F) desc label s
    = Inr (s3\<lparr>sy_rack := add_unit (lu_unit (configure_all F (su_configs ud) u)) (sy_rack s3)\<rparr>)"
  using assms by (simp add: check_unit_def Let_def split del: if_split del: not_None_eq)

lemma check_unit_runs:
  assumes F: "factory_ok F" and desc: "label \<in> su_label ` set (ds_units desc)"
    and codes: "\<forall>ud \<in> set (ds_units desc). list_all (\<lambda>b. int_range (bd_code b)) (su_bindings ud)"
    and ok: "sys_ok s"
  shows "\<exists>s'. check_unit (Some F) desc label s = Inr s' \<and> sys_ok s'"
proof -
  obtain ud where ud: "unit_description desc label = Inr ud" "su_label ud = label" "ud \<in> set (ds_units desc)"
    using unit_description_runs [OF desc] by blast
  show ?thesis
  proof (cases "has_unit label (sy_rack s) \<or> uf_load F (su_unit ud) label (su_library ud) = None")
    case True
    then show ?thesis using ud ok by (auto simp: check_unit_def)
  next
    case False
    then obtain u0 where u0: "uf_load F (su_unit ud) label (su_library ud) = Some u0" by blast
    let ?u1 = "u0\<lparr>lu_led_utility := get_midi_handler s \<noteq> None\<rparr>"
    obtain reg where reg: "sy_registry s = Some reg" using ok by (auto simp: sys_ok_def)
    obtain z reg' where z: "register_component (lu_unit ?u1) reg = (z, reg')" by force
    let ?u = "?u1\<lparr>lu_unit := z\<rparr>" and ?s1 = "set_registry (Some reg') s"
    have r: "register_unit ?u1 s = Inr (?u, ?s1)" using reg z by (simp add: register_unit_def get_registry_def)
    have "ports_ok (lu_unit u0)" "ulabel u0 = label" using F u0 by (auto simp: factory_ok_def keeps_labels_def)
    then have outs: "ports_ok (lu_unit ?u)"
      using z by (auto simp: register_component_def set_id_def set_handle_def Let_def ports_ok_def)
    have lab: "ulabel ?u = label" using register_unit_same(2) [OF r] \<open>ulabel u0 = label\<close> by (simp add: ulabel_def)
    have s1: "sys_ok ?s1" using ok by (simp add: sys_ok_def set_registry_def)
    have d: "unit_description desc (ulabel ?u) = Inr ud" using ud(1) lab by simp
    obtain s2 where s2: "(if controllable ?u then assemble_bindings desc ?u ?s1 else Inr ?s1) = Inr s2" "sys_ok s2"
      using assemble_bindings_runs [OF d bspec [OF codes ud(3)] s1] by blast
    obtain s3 where s3: "assemble_leds desc ?u s2 = Inr s3" "sys_ok s3"
      using assemble_leds_runs [OF d s2(2)] by blast
    have "sys_ok (s3\<lparr>sy_rack := add_unit (lu_unit (configure_all F (su_configs ud) ?u)) (sy_rack s3)\<rparr>)"
      using s3(2) rack_ok_add configure_outs [OF F outs] by (auto simp: sys_ok_def)
    then show ?thesis
      using check_unit_loaded [OF ud(1,2) _ u0 r s2(1) s3(1)] False u0 by simp
  qed
qed

text \<open>Connecting.\<close>

lemma upd_nth_all: "list_all P xs \<Longrightarrow> (\<And>x. P x \<Longrightarrow> P (f x)) \<Longrightarrow> list_all P (upd_nth k f xs)"
  by (cases "k < length xs") (auto simp: upd_nth_def list_all_length nth_list_update)

lemma length_upd_nth: "length (upd_nth k f xs) = length xs"
  by (simp add: upd_nth_def)

lemma ports_ok_upd:
  assumes "list_all ports_ok st"
  shows "(\<And>l. li_id (f l) = li_id l) \<Longrightarrow> list_all ports_ok (upd_input v j f st)"
    and "(\<And>l. lo_id (g l) = lo_id l) \<Longrightarrow> list_all ports_ok (upd_output u k g st)"
proof -
  assume f: "\<And>l. li_id (f l) = li_id l"
  have "ports_ok (l\<lparr>lk_inputs := upd_nth j f (lk_inputs l)\<rparr>)" if "ports_ok l" for l :: "'a linkable_scheme"
    using that f by (auto simp: ports_ok_def length_upd_nth intro: upd_nth_all)
  then show "list_all ports_ok (upd_input v j f st)"
    unfolding upd_input_def by (intro upd_nth_all [OF assms])
next
  assume g: "\<And>l. lo_id (g l) = lo_id l"
  have "ports_ok (l\<lparr>lk_outputs := upd_nth k g (lk_outputs l)\<rparr>)" if "ports_ok l" for l :: "'a linkable_scheme"
    using that g by (auto simp: ports_ok_def length_upd_nth intro: upd_nth_all)
  then show "list_all ports_ok (upd_output u k g st)"
    unfolding upd_output_def by (intro upd_nth_all [OF assms])
qed

lemma has_output_ok:
  assumes "ports_ok z" and "0 \<le> has_output label z"
  shows "nat (has_output label z) < length (lk_outputs z)"
  using assms by (auto simp: has_output_def ports_ok_def find_Some_iff list_all_length split: option.splits)

lemma link_connect_runs:
  assumes ok: "list_all ports_ok st" and i: "nat i < length (lk_outputs (st ! u))"
  shows "\<exists>b st'. link_connect u i lin st = Inr (b, st') \<and> list_all ports_ok st' \<and> length st' = length st"
proof (cases "lk_num_outputs (st ! u) \<le> uint_of i \<or> lin = None")
  case True
  then show ?thesis using ok by (auto simp: link_connect_def split: option.splits)
next
  case False
  then obtain v k where lin: "lin = Some (v, k)" by auto
  let ?st = "upd_input v k (\<lambda>l. l\<lparr>li_connected := True\<rparr>)
      (upd_output u (nat i) (\<lambda>l. l\<lparr>lo_to := lin, lo_connected := True\<rparr>) st)"
  have "list_all ports_ok ?st" by (intro ports_ok_upd ok) simp_all
  moreover have "length ?st = length st" by (simp add: upd_input_def upd_output_def length_upd_nth)
  moreover have "link_connect u i lin st = Inr (True, ?st)" using False lin i by (simp add: link_connect_def)
  ultimately show ?thesis by blast
qed

lemma connect_units_runs:
  assumes ok: "rack_ok r"
  shows "\<exists>b r'. connect_units a out c inp r = Inr (b, r') \<and> rack_ok r'"
proof (cases "get_unit a r = None \<or> get_unit c r = None")
  case True
  then show ?thesis using ok by (auto simp: connect_units_def split: option.splits)
next
  case False
  then obtain u v where uv: "get_unit a r = Some u" "get_unit c r = Some v" by auto
  let ?k = "has_output out (rk_units r ! u)" and ?j = "has_input inp (rk_units r ! v)"
  show ?thesis
  proof (cases "?k < 0 \<or> ?j < 0")
    case True
    then show ?thesis using ok uv by (auto simp: connect_units_def Let_def)
  next
    case f: False
    have "u < length (rk_units r)" using ok uv(1) by (auto simp: rack_ok_def get_unit_def)
    then have "ports_ok (rk_units r ! u)" using ok by (simp add: rack_ok_def list_all_length)
    from has_output_ok [OF this, of out] have k: "nat ?k < length (lk_outputs (rk_units r ! u))" using f by simp
    have "list_all ports_ok (rk_units r)" using ok by (simp add: rack_ok_def)
    then obtain b units where l: "link_connect u ?k (get_input v ?j (rk_units r ! v)) (rk_units r) = Inr (b, units)"
      "list_all ports_ok units" "length units = length (rk_units r)"
      using link_connect_runs [of "rk_units r" ?k u "get_input v ?j (rk_units r ! v)"] k by blast
    have "rack_ok (r\<lparr>rk_units := units\<rparr>)" using ok l(2,3) by (simp add: rack_ok_def)
    then show ?thesis using uv f l(1) by (auto simp: connect_units_def Let_def)
  qed
qed

lemma connect_mainline_ok: "rack_ok r \<Longrightarrow> rack_ok (snd (connect_mainline m label r))"
  by (auto simp: connect_mainline_def rack_ok_def split: option.splits)

lemma sys_ok_rack: "sys_ok s \<Longrightarrow> rack_ok r \<Longrightarrow> sys_ok (s\<lparr>sy_rack := r\<rparr>)"
  by (simp add: sys_ok_def)

lemma daisychains_run:
  assumes F: "factory_ok F"
    and codes: "\<forall>ud \<in> set (ds_units desc). list_all (\<lambda>b. int_range (bd_code b)) (su_bindings ud)"
  shows "sys_ok s \<Longrightarrow> lk_to ` set ls \<subseteq> su_label ` set (ds_units desc) \<Longrightarrow>
    \<exists>s'. daisychains_each (Some F) desc ls s = Inr s' \<and> sys_ok s'"
proof (induction ls arbitrary: s)
  case (Cons l ls)
  obtain s1 where s1: "check_unit (Some F) desc (lk_to l) s = Inr s1" "sys_ok s1"
    using check_unit_runs [OF F _ codes Cons.prems(1), of "lk_to l"] Cons.prems(2) by auto
  have r: "rack_ok (sy_rack s1)" using s1(2) by (simp add: sys_ok_def)
  obtain b r' where c: "connect_units (lk_from l) (lk_plug l) (lk_to l) (lk_jack l) (sy_rack s1) = Inr (b, r')" "rack_ok r'"
    using connect_units_runs [OF r] by blast
  have to: "lk_to ` set ls \<subseteq> su_label ` set (ds_units desc)" using Cons.prems(2) by simp
  show ?case
  proof (cases "lk_from l = ''rack''")
    case True
    then show ?thesis
      using s1 Cons.IH [OF sys_ok_rack [OF s1(2) connect_mainline_ok [OF r]] to] by simp
  next
    case False
    then show ?thesis using s1(1) c Cons.IH [OF sys_ok_rack [OF s1(2) c(2)] to] by simp
  qed
qed simp

section \<open>The devices\<close>

definition configured :: "s_controller \<Rightarrow> ('f, 'h) device" where
  "configured c = device_set_led_off (ct_led_off c) (device_set_led_on (ct_led_on c) (device_make (ct_port c) (ct_label c)))"

lemma device_alias [simp]:
  "device_get_alias (device_set_led_on x d) = device_get_alias d" "device_get_alias (device_set_led_off x d) = device_get_alias d"
  "device_get_alias (device_make p l) = l"
  by (simp_all add: device_get_alias_def device_set_led_on_def device_set_led_off_def device_make_def)

lemma find_after: "find P xs = None \<Longrightarrow> find P (xs @ ys) = find P ys"
  by (induction xs) (auto split: if_splits)

lemma midi_get_last:
  assumes "label \<notin> device_get_alias ` set (mh_devices h)"
  shows "midi_get label (midi_add_device moves port label h) = Some (length (mh_devices h))"
proof -
  have "find (\<lambda>i. device_get_alias ((mh_devices h @ [device_make port label]) ! i) = label) [0..<length (mh_devices h)] = None"
    using assms by (auto simp: find_None_iff nth_append)
  then show ?thesis by (simp add: midi_get_def midi_add_device_def find_after nth_append)
qed

lemma devices_run:
  assumes "sy_midi s = Some h" and "sy_registry s \<noteq> None" and "rack_ok (sy_rack s)"
    and "distinct (map device_get_alias (mh_devices h) @ map ct_label cs)"
  shows "\<exists>s' h'. devices_each moves cs s = Inr s' \<and> sys_ok s' \<and> sy_midi s' = Some h'
    \<and> mh_devices h' = mh_devices h @ map configured cs
    \<and> mh_active_dev h' = mh_active_dev h \<and> (mh_active_dev h = [] \<longrightarrow> mh_dangling h' = mh_dangling h)
    \<and> mh_led_map h' = mh_led_map h \<and> sy_registry s' = sy_registry s"
  using assms
proof (induction cs arbitrary: s h)
  case Nil
  then show ?case by (simp add: sys_ok_def)
next
  case (Cons c cs)
  have g: "midi_get (ct_label c) (midi_add_device moves (ct_port c) (ct_label c) h) = Some (length (mh_devices h))"
    using midi_get_last Cons.prems(4) by auto
  let ?h1 = "midi_add_device moves (ct_port c) (ct_label c) h"
  let ?h = "with_device (length (mh_devices h)) (device_set_led_off (ct_led_off c))
      (with_device (length (mh_devices h)) (device_set_led_on (ct_led_on c)) ?h1)"
  have dev: "mh_devices ?h = mh_devices h @ [configured c]"
    by (simp add: with_device_def midi_add_device_def configured_def list_update_append nth_append)
  let ?s = "set_midi_handler (Some ?h) s"
  have st: "devices_each moves (c # cs) s = devices_each moves cs ?s"
    using Cons.prems(1) g by (simp add: get_midi_handler_def Let_def)
  have "sy_midi ?s = Some ?h" "sy_registry ?s \<noteq> None" "rack_ok (sy_rack ?s)"
    using Cons.prems(2,3) by (simp_all add: set_midi_handler_def)
  moreover have "distinct (map device_get_alias (mh_devices ?h) @ map ct_label cs)"
    using Cons.prems(4) unfolding dev by (simp add: configured_def)
  ultimately obtain s' h' where "devices_each moves cs ?s = Inr s'" "sys_ok s'" "sy_midi s' = Some h'"
    "mh_devices h' = mh_devices ?h @ map configured cs"
    "mh_active_dev h' = mh_active_dev ?h" "mh_active_dev ?h = [] \<longrightarrow> mh_dangling h' = mh_dangling ?h"
    "mh_led_map h' = mh_led_map ?h" "sy_registry s' = sy_registry ?s"
    using Cons.IH by blast
  moreover have "mh_active_dev ?h = mh_active_dev h" "mh_active_dev h = [] \<Longrightarrow> mh_dangling ?h = mh_dangling h"
    "mh_led_map ?h = mh_led_map h" "sy_registry ?s = sy_registry s"
    by (simp_all add: with_device_def midi_add_device_def set_midi_handler_def)
  ultimately show ?case using st dev by simp
qed

text \<open>What a device is besides its bindings stays as it was configured, none becomes active, and the cache stays
  as it is.\<close>

definition device_id :: "('f, 'h) device \<Rightarrow> string \<times> string \<times> 8 word \<times> 8 word" where
  "device_id d = (dv_alias d, dv_port_name d, dv_led_on d, dv_led_off d)"

definition handler_ids :: "('f, 'h) midi_handler \<Rightarrow> (string \<times> string \<times> 8 word \<times> 8 word) list" where
  "handler_ids h = map device_id (mh_devices h)"

definition kept ::
    "('m, 'f, 'h, 't, 'l) sio_system \<Rightarrow>
      ((string \<times> string \<times> 8 word \<times> 8 word) list \<times> nat list \<times> bool) option \<times> cache_manager option" where
  "kept s = (map_option (\<lambda>h. (handler_ids h, mh_active_dev h, mh_dangling h)) (sy_midi s), rk_cache (sy_rack s))"

lemma bind_devices_ids: "bind_devices modul code func ds = Inr ds' \<Longrightarrow> map device_id ds' = map device_id ds"
proof (induction ds arbitrary: ds')
  case (Cons d ds)
  then obtain d1 ds1 where ds1: "(if device_get_alias d = modul then device_add_binding code func d else Inr d) = Inr d1"
    "bind_devices modul code func ds = Inr ds1" "ds' = d1 # ds1"
    by (auto simp: bind_res_eq_Inr)
  have "device_id d1 = device_id d"
    using ds1(1) by (auto simp: device_add_binding_def bind_res_eq_Inr device_id_def split: if_splits option.splits)
  then show ?case using Cons.IH [OF ds1(2)] ds1(3) by simp
qed simp

lemma bindings_kept: "bindings_each bs exports s = Inr s' \<Longrightarrow> kept s' = kept s"
proof (induction bs arbitrary: s)
  case (Cons b bs)
  show ?case
  proof (cases "map_of exports (bd_name b)")
    case None
    then show ?thesis using Cons by simp
  next
    case (Some func)
    then obtain h h' where h: "sy_midi s = Some h" "midi_add_binding (bd_module b) (of_int (bd_code b)) func h = Inr h'"
      "bindings_each bs exports (set_midi_handler (Some h') s) = Inr s'"
      using Cons.prems by (auto simp: bind_res_eq_Inr get_midi_handler_def split: option.splits)
    have "handler_ids h' = handler_ids h"
      using h(2) bind_devices_ids by (fastforce simp: midi_add_binding_def map_res_eq_Inr handler_ids_def)
    moreover have "mh_active_dev h' = mh_active_dev h" "mh_dangling h' = mh_dangling h"
      using h(2) by (auto simp: midi_add_binding_def map_res_eq_Inr)
    ultimately show ?thesis using Cons.IH [OF h(3)] h(1) by (simp add: kept_def set_midi_handler_def)
  qed
qed simp

lemma led_ids:
  "handler_ids (midi_add_led unit state dev code value mode h) = handler_ids h"
  "mh_active_dev (midi_add_led unit state dev code value mode h) = mh_active_dev h"
  "mh_dangling (midi_add_led unit state dev code value mode h) = mh_dangling h"
  by (auto simp: handler_ids_def midi_add_led_def Let_def split: option.splits)

lemma leds_kept: "leds_each label ls leds s = Inr s' \<Longrightarrow> kept s' = kept s"
proof (induction ls arbitrary: s)
  case (Cons l ls)
  show ?case
  proof (cases "map_of leds (ld_state l)")
    case None
    then show ?thesis using Cons by simp
  next
    case (Some state)
    then obtain h where h: "sy_midi s = Some h"
      "leds_each label ls leds (set_midi_handler (Some (midi_add_led label state (ld_device l) (ld_code l)
         (ld_value l) (led_mode_of (ld_mode l)) h)) s) = Inr s'"
      using Cons.prems by (auto simp: get_midi_handler_def split: option.splits)
    then show ?thesis using Cons.IH [OF h(2)] by (simp add: kept_def set_midi_handler_def led_ids)
  qed
qed simp

lemma register_kept: "register_unit u s = Inr (u', s') \<Longrightarrow> kept s' = kept s"
  by (auto simp: register_unit_def kept_def set_registry_def split: option.splits prod.splits)

lemma add_unit_cache [simp]: "rk_cache (add_unit z r) = rk_cache r"
  by (simp add: add_unit_def Let_def)

lemma check_unit_kept:
  assumes "check_unit factory desc label s = Inr s'"
  shows "kept s' = kept s"
proof -
  obtain ud where ud: "unit_description desc label = Inr ud"
    using assms by (auto simp: check_unit_def bind_res_eq_Inr)
  show ?thesis
  proof (cases "has_unit (su_label ud) (sy_rack s)")
    case True
    then show ?thesis using assms ud by (simp add: check_unit_def)
  next
    case False
    then obtain F where F: "factory = Some F" using assms ud by (cases factory) (auto simp: check_unit_def)
    show ?thesis
    proof (cases "uf_load F (su_unit ud) (su_label ud) (su_library ud)")
      case None
      then show ?thesis using assms ud False F by (simp add: check_unit_def)
    next
      case (Some u0)
      let ?u1 = "u0\<lparr>lu_led_utility := get_midi_handler s \<noteq> None\<rparr>"
      obtain u s1 s2 s3 where st: "register_unit ?u1 s = Inr (u, s1)"
        "(if controllable u then assemble_bindings desc u s1 else Inr s1) = Inr s2"
        "assemble_leds desc u s2 = Inr s3"
        and s': "s' = s3\<lparr>sy_rack := add_unit (lu_unit (configure_all F (su_configs ud) u)) (sy_rack s3)\<rparr>"
        using assms ud False F Some by (auto simp: check_unit_def bind_res_eq_Inr)
      have "kept s2 = kept s1"
        using st(2) bindings_kept by (auto simp: assemble_bindings_def bind_res_eq_Inr split: if_splits)
      moreover have "kept s3 = kept s2" using st(3) leds_kept by (auto simp: assemble_leds_def bind_res_eq_Inr)
      moreover have "kept s' = kept s3" using s' by (simp add: kept_def)
      ultimately show ?thesis using register_kept [OF st(1)] by simp
    qed
  qed
qed

lemma connect_kept:
  "rk_cache (snd (connect_mainline m label r)) = rk_cache r"
  "connect_units a b c d r = Inr (k, r') \<Longrightarrow> rk_cache r' = rk_cache r"
  by (auto simp: connect_mainline_def connect_units_def Let_def bind_res_eq_Inr split: option.splits if_splits)

lemma daisychains_kept: "daisychains_each factory desc ls s = Inr s' \<Longrightarrow> kept s' = kept s"
proof (induction ls arbitrary: s)
  case (Cons l ls)
  then obtain s1 where s1: "check_unit factory desc (lk_to l) s = Inr s1" by (auto simp: bind_res_eq_Inr)
  obtain r where r: "rk_cache r = rk_cache (sy_rack s1)" "daisychains_each factory desc ls (s1\<lparr>sy_rack := r\<rparr>) = Inr s'"
  proof (cases "lk_from l = ''rack''")
    case True
    then show ?thesis
      using Cons.prems s1 that [of "snd (connect_mainline (lk_plug l) (lk_to l) (sy_rack s1))"]
      by (simp add: connect_kept(1))
  next
    case False
    then obtain k r' where c: "connect_units (lk_from l) (lk_plug l) (lk_to l) (lk_jack l) (sy_rack s1) = Inr (k, r')"
        "daisychains_each factory desc ls (s1\<lparr>sy_rack := r'\<rparr>) = Inr s'"
      using Cons.prems s1 by (auto simp: bind_res_eq_Inr map_res_eq_Inr)
    show ?thesis using that [OF connect_kept(2) [OF c(1)] c(2)] .
  qed
  then show ?case using Cons.IH [OF r(2)] check_unit_kept [OF s1] by (simp add: kept_def)
qed simp

lemma init_devices_ids: "init_devices drv i ds = (ds', active) \<Longrightarrow> map device_id ds' = map device_id ds"
proof (induction ds arbitrary: i ds' active)
  case (Cons d ds)
  have "device_id (snd (device_init drv d)) = device_id d"
    by (auto simp: device_init_def device_id_def Let_def split: option.splits)
  then show ?case using Cons by (auto split: prod.splits if_splits)
qed simp

lemma midi_init_ids: "handler_ids (midi_init drv h) = handler_ids h"
  using init_devices_ids by (fastforce simp: midi_init_def handler_ids_def split: prod.splits)

lemma configured_id: "device_id (configured c) = (ct_label c, ct_port c, ct_led_on c, ct_led_off c)"
  by (simp add: configured_def device_id_def device_set_led_on_def device_set_led_off_def device_make_def)

lemma mainlines_kept: "sy_midi (mainlines_each ms s) = sy_midi s \<and> sy_registry (mainlines_each ms s) = sy_registry s
    \<and> rk_cache (sy_rack (mainlines_each ms s)) = rk_cache (sy_rack s)
    \<and> (rack_ok (sy_rack s) \<longrightarrow> rack_ok (sy_rack (mainlines_each ms s)))"
proof (induction ms arbitrary: s)
  case (Cons m ms)
  then show ?case by (simp add: add_mainline_def rack_ok_def)
qed simp

text \<open>The system before it is assembled.\<close>

definition bare_system :: "'m \<Rightarrow> int \<Rightarrow> ('m, 'f, 'h, 't, 'l ev_loop) sio_system" where
  "bare_system user cache_blocks =
     set_registry (Some registry_make) (set_cache_utility_of (Some (cache_manager_make cache_blocks))
       (set_midi_handler (Some midi_handler_make) (set_loop_of (Some loop_make)
         (set_queue_of (Some (queue_make 2)) (system_make (rack_make user))))))"

lemma bare_facts:
  "sy_midi (bare_system user k) = Some midi_handler_make" "sy_registry (bare_system user k) = Some registry_make"
  "sy_queue (bare_system user k) = Some (queue_make 2)" "rk_cache (sy_rack (bare_system user k)) = Some (cache_manager_make k)"
  "rack_ok (sy_rack (bare_system user k))" "\<not> has_unit x (sy_rack (bare_system user k))"
  "sy_loop (bare_system user k) = Some loop_make"
  by (simp_all add: bare_system_def set_registry_def set_cache_utility_of_def set_midi_handler_def set_loop_of_def
      set_queue_of_def system_make_def rack_make_def rack_ok_def has_unit_def)

lemma assemble_runs:
  fixes user :: 'm
  assumes F: "factory_ok F" and d: "desc_ok d"
    and to: "lk_to ` set (ds_daisychains d) \<subseteq> su_label ` set (ds_units d)"
  shows "\<exists>s h. assemble moves (Some F) d (bare_system user k :: ('m, 'f, 'h, 't, 'l ev_loop) sio_system) = Inr s
    \<and> sy_midi s = Some h \<and> rk_cache (sy_rack s) = Some (cache_manager_make k)
    \<and> handler_ids h = map (\<lambda>c. (ct_label c, ct_port c, ct_led_on c, ct_led_off c)) (ds_controllers d)
    \<and> mh_active_dev h = [] \<and> \<not> mh_dangling h"
proof -
  let ?bare = "bare_system user k :: ('m, 'f, 'h, 't, 'l ev_loop) sio_system"
  obtain w a where wa: "ds_workers d = Some w" "lx_affinity (ds_linux d) = Some a"
    using d by (auto simp: desc_ok_def split: option.splits)
  let ?sized = "set_queue_of (Some (queue_set_size w (queue_make 2))) ?bare"
  let ?named = "mainlines_each (ds_mainlines d) ?sized"
  have s1: "size_queue d ?bare = Inr ?sized" using wa(1) by (simp add: size_queue_def get_queue_of_def bare_facts)
  have r1: "sy_rack ?sized = sy_rack ?bare" "sy_midi ?sized = sy_midi ?bare" "sy_registry ?sized = sy_registry ?bare"
    by (simp_all add: set_queue_of_def)
  note mk = mainlines_kept [of "ds_mainlines d" ?sized]
  have m2: "sy_midi ?named = Some midi_handler_make" "sy_registry ?named \<noteq> None" "rack_ok (sy_rack ?named)"
    "rk_cache (sy_rack ?named) = Some (cache_manager_make k)"
    using mk by (simp_all add: r1 bare_facts)
  have "sorted_wrt (<) (map ct_label (ds_controllers d))" using d by (simp add: desc_ok_def)
  then have dist: "distinct (map device_get_alias (mh_devices midi_handler_make) @ map ct_label (ds_controllers d))"
    using strict_sorted_iff by (auto simp: midi_handler_make_def)
  obtain s3 h3 where s3: "devices_each moves (ds_controllers d) ?named = Inr s3" "sys_ok s3" "sy_midi s3 = Some h3"
    "mh_devices h3 = mh_devices midi_handler_make @ map configured (ds_controllers d)"
    "mh_active_dev h3 = []" "\<not> mh_dangling h3"
    using devices_run [OF m2(1-3) dist, of moves] by (fastforce simp: midi_handler_make_def)
  have codes: "\<forall>ud \<in> set (ds_units d). list_all (\<lambda>b. int_range (bd_code b)) (su_bindings ud)"
    using d by (auto simp: desc_ok_def unit_ok_def list_all_iff)
  obtain s4 where s4: "daisychains_each (Some F) d (ds_daisychains d) s3 = Inr s4" "sys_ok s4"
    using daisychains_run [OF F codes s3(2) to] by blast
  let ?fin = "assign_schpolicy \<lparr>sd_policy = policy_of (lx_policy (ds_linux d)), sd_priority = lx_priority (ds_linux d),
      sd_cpu_affinity = a\<rparr> s4"
  have "assemble moves (Some F) d ?bare = Inr ?fin"
    using s1 s3(1) s4(1) wa(2)
    by (simp add: assemble_def assemble_mainlines_def assemble_devices_def assemble_daisychains_def assemble_schpolicy_def)
  moreover have "kept s4 = kept s3" by (rule daisychains_kept [OF s4(1)])
  moreover have "rk_cache (sy_rack s3) = Some (cache_manager_make k)"
    using devices_same [OF s3(1)] m2(4) by (simp add: same_but_midi_def)
  moreover have "handler_ids h3 = map (\<lambda>c. (ct_label c, ct_port c, ct_led_on c, ct_led_off c)) (ds_controllers d)"
    using s3(4) by (simp add: handler_ids_def midi_handler_make_def comp_def configured_id)
  ultimately show ?thesis
    using s3(3,5,6) by (auto simp: kept_def assign_schpolicy_def)
qed

lemma setup_runs:
  fixes user :: 'm and drv :: "'h midi_driver" and F :: "'f unit_factory"
  assumes "je_point E = ''.''" and "exact_ints E" and "desc_ok d"
    and "files path = Some (json_serialize E prettify (desc_json d))"
    and "factory_ok F" and "lk_to ` set (ds_daisychains d) \<subseteq> su_label ` set (ds_units d)"
  obtains s :: "('m, 'f, 'h, 't, 'l ev_loop) sio_system" and h
  where "assemble moves (Some F) d (bare_system user cache_blocks) = Inr s" and "sy_midi s = Some h"
    and "rk_cache (sy_rack s) = Some (cache_manager_make cache_blocks)"
    and "handler_ids h = map (\<lambda>c. (ct_label c, ct_port c, ct_led_on c, ct_led_off c)) (ds_controllers d)"
    and "mh_active_dev h = []" and "\<not> mh_dangling h"
    and "system_setup moves E files drv F user path cache_blocks = Inr (set_midi_handler (Some (midi_init drv h)) s)"
proof -
  let ?bare = "bare_system user cache_blocks :: ('m, 'f, 'h, 't, 'l ev_loop) sio_system"
  have "\<exists>s h. assemble moves (Some F) d ?bare = Inr s \<and> sy_midi s = Some h
      \<and> rk_cache (sy_rack s) = Some (cache_manager_make cache_blocks)
      \<and> handler_ids h = map (\<lambda>c. (ct_label c, ct_port c, ct_led_on c, ct_led_off c)) (ds_controllers d)
      \<and> mh_active_dev h = [] \<and> \<not> mh_dangling h"
    by (rule assemble_runs [OF assms(5,3,6)])
  then obtain s h where a: "assemble moves (Some F) d ?bare = Inr s" "sy_midi s = Some h"
    "rk_cache (sy_rack s) = Some (cache_manager_make cache_blocks)"
    "handler_ids h = map (\<lambda>c. (ct_label c, ct_port c, ct_led_on c, ct_led_off c)) (ds_controllers d)"
    "mh_active_dev h = []" "\<not> mh_dangling h"
    by blast
  have "system_setup moves E files drv F user path cache_blocks = Inr (set_midi_handler (Some (midi_init drv h)) s)"
    using a(1,2) load_serialized [of E d files path prettify, OF assms(1-4)]
    by (simp add: system_setup_def bare_system_def Let_def set_builder_def get_midi_handler_def)
  then show thesis using that a by blast
qed

section \<open>Properties\<close>

text \<open>C35. The loader of units asks the linker for a library once. For any sequence of loads: as long as every file that
  is there can be opened, each load gives what the linker, asked afresh, would give, and \<open>dlopen\<close> has been
  called once for each library that exists, in the order in which they were first asked for, with their handles kept.
  At the first file that is there and cannot be opened the program ends.\<close>

theorem loader_opens_once:
  "loader_run os ls unit_loader_make =
     (case fresh_run os ls of
        Inl e \<Rightarrow> Inl e
      | Inr us \<Rightarrow> Inr (us,
          \<lparr>ul_libraries = (\<lambda>t. if t \<in> (\<lambda>(m, l, t). t) ` set ls \<and> dl_good os t then dl_open os t else None),
           ul_dlopen = firsts [] (filter (dl_good os) (map (\<lambda>(m, l, t). t) ls))\<rparr>))
   \<and> (fresh_run os ls = Inl Terminate \<longleftrightarrow> (\<exists>(m, l, t) \<in> set ls. dl_good os t \<and> dl_open os t = None))
   \<and> (\<forall>us. fresh_run os ls = Inr us \<longrightarrow> length us = length ls \<and> (\<forall>k < length ls.
        case ls ! k of (m, l, t) \<Rightarrow> fresh_load os m l t = Inr (us ! k)))"
proof (intro conjI)
  have "unit_loader_make = loader_after os []" by (simp add: unit_loader_make_def loader_after_def)
  then show "loader_run os ls unit_loader_make =
     (case fresh_run os ls of
        Inl e \<Rightarrow> Inl e
      | Inr us \<Rightarrow> Inr (us,
          \<lparr>ul_libraries = (\<lambda>t. if t \<in> (\<lambda>(m, l, t). t) ` set ls \<and> dl_good os t then dl_open os t else None),
           ul_dlopen = firsts [] (filter (dl_good os) (map (\<lambda>(m, l, t). t) ls))\<rparr>))"
    using loader_run_after [of "[]" os ls] by (cases "fresh_run os ls") (simp_all add: loader_after_def)
  show "\<forall>us. fresh_run os ls = Inr us \<longrightarrow> length us = length ls \<and> (\<forall>k < length ls.
        case ls ! k of (m, l, t) \<Rightarrow> fresh_load os m l t = Inr (us ! k))"
    by (intro allI impI conjI fresh_run_length fresh_run_each)
qed (rule fresh_run_fails)

text \<open>A linker with one library, which has one kind of unit.\<close>

definition demo_linker :: "(nat, string) linker" where
  "demo_linker = \<lparr>dl_good = (\<lambda>path. path = ''lib.so''), dl_open = (\<lambda>path. if path = ''lib.so'' then Some 1 else None),
     dl_sym = (\<lambda>_ name. if name = ''BuildLoader''
       then Some (\<lambda>label. the (uf_load demo_factory ''Loader'' label ''lib.so'')) else None)\<rparr>"

theorem loader_opens_once_witness:
  "\<exists>us ld. loader_run demo_linker [(''Loader'', ''a'', ''lib.so''), (''Loader'', ''b'', ''lib.so''), (''Sink'', ''c'', ''no.so'')]
      unit_loader_make = Inr (us, ld) \<and> map (map_option ulabel) us = [Some ''a'', Some ''b'', None]
      \<and> ul_dlopen ld = [''lib.so'']"
proof -
  let ?ls = "[(''Loader'', ''a'', ''lib.so''), (''Loader'', ''b'', ''lib.so''), (''Sink'', ''c'', ''no.so'')]"
  obtain us where us: "fresh_run demo_linker ?ls = Inr us" "map (map_option ulabel) us = [Some ''a'', Some ''b'', None]"
    by (simp add: fresh_load_def demo_linker_def demo_factory_def ulabel_def unit_make_def linkable_make_def
        registrable_make_def linkable.defs registrable.defs)
  have "firsts [] (filter (dl_good demo_linker) (map (\<lambda>(m, l, t). t) ?ls)) = [''lib.so'']"
    by (simp add: demo_linker_def)
  with us conjunct1 [OF loader_opens_once [of demo_linker ?ls]] show ?thesis by simp
qed

text \<open>A library that is closed is closed again when it is destroyed.\<close>

lemma close_twice:
  "snd (library_close (Some lib)) @ library_destroy (fst (library_close (Some lib))) = [lib, lib]"
  by (simp add: library_close_def library_destroy_def)

text \<open>A file that exists and is not a library ends the program instead of being reported.\<close>

lemma library_open_failure:
  "dl_good os t \<Longrightarrow> dl_open os t = None \<Longrightarrow> loader_load os m l t unit_loader_make = Inl Terminate"
  by (simp add: loader_load_def library_load_def library_make_def unit_loader_make_def)

end
