(* ===== verification/System_Plan.thy ===== *)
theory System_Plan
  imports System
begin

text \<open>
  What \<open>assemble\<close> (\<^verbatim>\<open>framework/config/assembler.cpp\<close>) makes of a description, said without running it: which
  units are mounted and with which configuration, which output leads to which input, where the mainlines go, which
  handler a midi code is bound to and what the leds show. The assembler is shown to realise this plan link by link.
\<close>

section \<open>The plan of a description\<close>

text \<open>The unit of a label before it is registered.\<close>

definition plan_description :: "description \<Rightarrow> string \<Rightarrow> s_unit option" where
  "plan_description d x = find (\<lambda>ud. su_label ud = x) (ds_units d)"

definition plan_load :: "'f unit_factory \<Rightarrow> description \<Rightarrow> string \<Rightarrow> 'f loaded_unit option" where
  "plan_load F d x =
     (case plan_description d x of None \<Rightarrow> None | Some ud \<Rightarrow> uf_load F (su_unit ud) x (su_library ud))"

text \<open>The labels that are mounted by the links \<open>ls\<close>: those that a link leads to and the loader gives, each where
  it comes first.\<close>

definition plan_mounts :: "'f unit_factory \<Rightarrow> description \<Rightarrow> s_link list \<Rightarrow> string list" where
  "plan_mounts F d ls = firsts [] (filter (\<lambda>x. plan_load F d x \<noteq> None) (map lk_to ls))"

definition slot :: "string list \<Rightarrow> string \<Rightarrow> nat" where
  "slot xs x = length (takeWhile (\<lambda>y. y \<noteq> x) xs)"

text \<open>The unit in a slot: registered under the number of the slot, with the led utility, then configured with the
  entries of its description in their order.\<close>

definition numbered :: "nat \<Rightarrow> sio_unit \<Rightarrow> sio_unit" where
  "numbered n z = z\<lparr>rg_component_id := Some (int n),
     rg_handle := \<lparr>rh_id = None, rh_type = rg_type z, rh_model = rg_model z, rh_label = rg_label z\<rparr>\<rparr>"

definition plan_unit :: "'f unit_factory \<Rightarrow> description \<Rightarrow> nat \<Rightarrow> string \<Rightarrow> sio_unit" where
  "plan_unit F d n x =
     (let u = the (plan_load F d x) in
      lu_unit (configure_all F (su_configs (the (plan_description d x)))
        (u\<lparr>lu_led_utility := True, lu_unit := numbered n (lu_unit u)\<rparr>)))"

text \<open>What \<open>f\<close> gives for each element of a list, knowing the list up to it.\<close>

definition along :: "('a list \<Rightarrow> 'a \<Rightarrow> 'b option) \<Rightarrow> 'a list \<Rightarrow> 'b list" where
  "along f ls = List.map_filter (\<lambda>i. f (take (Suc i) ls) (ls ! i)) [0..<length ls]"

text \<open>A wire leads from an output of a slot to an input of a slot. A link makes one when both units are mounted by
  then, the plug names an output of the unit it comes from and the jack an input of the unit it leads to.\<close>

type_synonym wire = "(nat \<times> nat) \<times> (nat \<times> nat)"

definition plan_wire :: "'f unit_factory \<Rightarrow> description \<Rightarrow> string list \<Rightarrow> s_link \<Rightarrow> wire option" where
  "plan_wire F d xs l =
     (if lk_from l = ''rack'' \<or> lk_from l \<notin> set xs \<or> lk_to l \<notin> set xs then None
      else let u = slot xs (lk_from l); v = slot xs (lk_to l);
               k = has_output (lk_plug l) (plan_unit F d u (lk_from l));
               j = has_input (lk_jack l) (plan_unit F d v (lk_to l))
           in if k < 0 \<or> j < 0 then None else Some ((u, nat k), (v, nat j)))"

definition plan_wires :: "'f unit_factory \<Rightarrow> description \<Rightarrow> s_link list \<Rightarrow> wire list" where
  "plan_wires F d = along (\<lambda>pre. plan_wire F d (plan_mounts F d pre))"

text \<open>A unit with its wires. The last wire of an output is the one that stays.\<close>

definition wire_out :: "wire list \<Rightarrow> nat \<Rightarrow> nat \<Rightarrow> link_out \<Rightarrow> link_out" where
  "wire_out ws n k out =
     (case map_of (rev ws) (n, k) of None \<Rightarrow> out | Some t \<Rightarrow> out\<lparr>lo_to := Some t, lo_connected := True\<rparr>)"

definition wire_in :: "wire list \<Rightarrow> nat \<Rightarrow> nat \<Rightarrow> link_in \<Rightarrow> link_in" where
  "wire_in ws n j inp = (if (n, j) \<in> snd ` set ws then inp\<lparr>li_connected := True\<rparr> else inp)"

definition wire_up :: "wire list \<Rightarrow> nat \<Rightarrow> sio_unit \<Rightarrow> sio_unit" where
  "wire_up ws n z = z\<lparr>u_rack := True,
     lk_outputs := map (\<lambda>k. wire_out ws n k (lk_outputs z ! k)) [0..<length (lk_outputs z)],
     lk_inputs := map (\<lambda>j. wire_in ws n j (lk_inputs z ! j)) [0..<length (lk_inputs z)]\<rparr>"

definition plan_units :: "'f unit_factory \<Rightarrow> description \<Rightarrow> string list \<Rightarrow> wire list \<Rightarrow> sio_unit list" where
  "plan_units F d xs ws = map (\<lambda>n. wire_up ws n (plan_unit F d n (xs ! n))) [0..<length xs]"

text \<open>The lines of the rack: mainline and slot.\<close>

definition plan_line :: "description \<Rightarrow> string list \<Rightarrow> s_link \<Rightarrow> (string \<times> nat) option" where
  "plan_line d xs l =
     (if lk_from l = ''rack'' \<and> lk_plug l \<in> set (ds_mainlines d) \<and> lk_to l \<in> set xs
      then Some (lk_plug l, slot xs (lk_to l)) else None)"

definition plan_lines :: "'f unit_factory \<Rightarrow> description \<Rightarrow> s_link list \<Rightarrow> (string \<times> nat) list" where
  "plan_lines F d = along (\<lambda>pre. plan_line d (plan_mounts F d pre))"

text \<open>What the units bind on the device \<open>dev\<close>, and their leds. Of several entries the first counts.\<close>

definition bindings_of :: "s_binding list \<Rightarrow> (string \<times> 'f) list \<Rightarrow> string \<Rightarrow> (int \<times> 'f) list" where
  "bindings_of bs exports dev = List.map_filter
     (\<lambda>b. if bd_module b = dev then map_option (Pair (bd_code b)) (map_of exports (bd_name b)) else None) bs"

definition plan_bindings :: "'f unit_factory \<Rightarrow> description \<Rightarrow> string list \<Rightarrow> string \<Rightarrow> (int \<times> 'f) list" where
  "plan_bindings F d xs dev = concat (map (\<lambda>x.
     bindings_of (su_bindings (the (plan_description d x))) (lu_handlers (the (plan_load F d x))) dev) xs)"

definition leds_of :: "string \<Rightarrow> s_leds list \<Rightarrow> (string \<times> int) list \<Rightarrow> led_entry list" where
  "leds_of x ls leds = List.map_filter (\<lambda>l. map_option (\<lambda>st. (x, st,
     \<lparr>ls_device = ld_device l, ls_mode = led_mode_of (ld_mode l), ls_code = ld_code l, ls_value = ld_value l\<rparr>))
     (map_of leds (ld_state l))) ls"

definition plan_leds :: "'f unit_factory \<Rightarrow> description \<Rightarrow> string list \<Rightarrow> led_entry list" where
  "plan_leds F d xs = concat (map (\<lambda>x.
     leds_of x (su_leds (the (plan_description d x))) (lu_leds (the (plan_load F d x)))) xs)"

section \<open>Lemmas on plans\<close>

lemma map_filter_snoc: "List.map_filter f (xs @ [x]) = List.map_filter f xs @ (case f x of None \<Rightarrow> [] | Some y \<Rightarrow> [y])"
  by (induction xs) (simp_all add: List.map_filter_simps split: option.split)

lemma along_Nil [simp]: "along f [] = []"
  by (simp add: along_def List.map_filter_simps)

lemma map_filter_cong: "(\<And>x. x \<in> set xs \<Longrightarrow> f x = g x) \<Longrightarrow> List.map_filter f xs = List.map_filter g xs"
  by (induction xs) (simp_all add: List.map_filter_simps split: option.split)

lemma along_snoc: "along f (ls @ [l]) = along f ls @ (case f (ls @ [l]) l of None \<Rightarrow> [] | Some y \<Rightarrow> [y])"
proof -
  have "List.map_filter (\<lambda>i. f (take (Suc i) (ls @ [l])) ((ls @ [l]) ! i)) [0..<length ls]
      = List.map_filter (\<lambda>i. f (take (Suc i) ls) (ls ! i)) [0..<length ls]"
    by (rule map_filter_cong) (simp add: nth_append)
  then show ?thesis by (simp add: along_def map_filter_snoc)
qed

lemma plan_mounts_snoc:
  "plan_mounts F d (ls @ [l]) =
     (if plan_load F d (lk_to l) = None \<or> lk_to l \<in> set (plan_mounts F d ls) then plan_mounts F d ls
      else plan_mounts F d ls @ [lk_to l])"
  by (auto simp: plan_mounts_def)

lemma slot_mem: "x \<in> set xs \<Longrightarrow> slot xs x < length xs \<and> xs ! slot xs x = x"
  by (induction xs) (auto simp: slot_def)

lemma slot_append: "x \<in> set xs \<Longrightarrow> slot (xs @ ys) x = slot xs x"
  by (induction xs) (auto simp: slot_def)

lemma slot_new: "x \<notin> set xs \<Longrightarrow> slot (xs @ [x]) x = length xs"
  by (induction xs) (auto simp: slot_def)

text \<open>Wires do not rename ports.\<close>

lemma find_names:
  "(case find (\<lambda>i. f i = a) xs of None \<Rightarrow> -1 | Some i \<Rightarrow> int (g i))
    = (case map_of (map (\<lambda>i. (f i, g i)) xs) a of None \<Rightarrow> -1 | Some k \<Rightarrow> int k)"
  by (induction xs) auto

lemma has_port_cong:
  "map (\<lambda>out. (lo_label out, lo_id out)) (lk_outputs y) = map (\<lambda>out. (lo_label out, lo_id out)) (lk_outputs z)
    \<Longrightarrow> has_output label y = has_output label z"
  "map (\<lambda>inp. (li_label inp, li_id inp)) (lk_inputs y) = map (\<lambda>inp. (li_label inp, li_id inp)) (lk_inputs z)
    \<Longrightarrow> has_input label y = has_input label z"
  by (simp_all only: has_output_def has_input_def find_names)

lemma wire_port_names [simp]:
  "lo_label (wire_out ws n k out) = lo_label out" "lo_id (wire_out ws n k out) = lo_id out"
  "li_label (wire_in ws n j inp) = li_label inp" "li_id (wire_in ws n j inp) = li_id inp"
  by (simp_all add: wire_out_def wire_in_def split: option.split)

lemma wire_up_fields [simp]:
  "length (lk_outputs (wire_up ws n z)) = length (lk_outputs z)" "length (lk_inputs (wire_up ws n z)) = length (lk_inputs z)"
  "lk_num_outputs (wire_up ws n z) = lk_num_outputs z" "lk_num_inputs (wire_up ws n z) = lk_num_inputs z"
  "rg_label (wire_up ws n z) = rg_label z"
  by (simp_all add: wire_up_def)

lemma wire_up_names [simp]:
  "has_output label (wire_up ws n z) = has_output label z" "has_input label (wire_up ws n z) = has_input label z"
proof -
  have "map (\<lambda>out. (lo_label out, lo_id out)) (lk_outputs (wire_up ws n z)) = map (\<lambda>out. (lo_label out, lo_id out)) (lk_outputs z)"
    by (rule nth_equalityI) (simp_all add: wire_up_def)
  then show "has_output label (wire_up ws n z) = has_output label z" by (rule has_port_cong)
  have "map (\<lambda>inp. (li_label inp, li_id inp)) (lk_inputs (wire_up ws n z)) = map (\<lambda>inp. (li_label inp, li_id inp)) (lk_inputs z)"
    by (rule nth_equalityI) (simp_all add: wire_up_def)
  then show "has_input label (wire_up ws n z) = has_input label z" by (rule has_port_cong)
qed

text \<open>A unit that no wire touches, and one more wire.\<close>

definition wires_below :: "nat \<Rightarrow> wire list \<Rightarrow> bool" where
  "wires_below m ws \<longleftrightarrow> (\<forall>((u, k), (v, j)) \<in> set ws. u < m \<and> v < m)"

lemma wire_up_new: "wires_below n ws \<Longrightarrow> wire_up ws n z = z\<lparr>u_rack := True\<rparr>"
proof -
  assume b: "wires_below n ws"
  have "map_of (rev ws) (n, k) = None" for k
    using b by (auto simp: map_of_eq_None_iff wires_below_def)
  moreover have "(n, j) \<notin> snd ` set ws" for j using b by (auto simp: wires_below_def)
  ultimately have "map (\<lambda>k. wire_out ws n k (lk_outputs z ! k)) [0..<length (lk_outputs z)] = lk_outputs z"
    "map (\<lambda>j. wire_in ws n j (lk_inputs z ! j)) [0..<length (lk_inputs z)] = lk_inputs z"
    by (simp_all add: wire_out_def wire_in_def map_nth)
  then show ?thesis by (simp add: wire_up_def)
qed

lemma plan_units_grow:
  "wires_below (length xs) ws \<Longrightarrow>
    plan_units F d (xs @ [x]) ws = plan_units F d xs ws @ [(plan_unit F d (length xs) x)\<lparr>u_rack := True\<rparr>]"
  by (simp add: plan_units_def nth_append wire_up_new)

lemma wire_out_snoc:
  "wire_out (ws @ [((u, k), t)]) n i out =
     (if n = u \<and> i = k then (wire_out ws n i out)\<lparr>lo_to := Some t, lo_connected := True\<rparr> else wire_out ws n i out)"
  by (auto simp: wire_out_def split: option.split)

lemma wire_in_snoc:
  "wire_in (ws @ [(t, (v, j))]) n i inp =
     (if n = v \<and> i = j then (wire_in ws n i inp)\<lparr>li_connected := True\<rparr> else wire_in ws n i inp)"
  by (auto simp: wire_in_def)

lemma wire_up_snoc:
  fixes z :: sio_unit
  shows "wire_up (ws @ [((u, k), (v, j))]) n z =
    (let y = wire_up ws n z;
         y1 = (if n = u then y\<lparr>lk_outputs := upd_nth k (\<lambda>l. l\<lparr>lo_to := Some (v, j), lo_connected := True\<rparr>) (lk_outputs y)\<rparr> else y)
     in if n = v then y1\<lparr>lk_inputs := upd_nth j (\<lambda>l. l\<lparr>li_connected := True\<rparr>) (lk_inputs y1)\<rparr> else y1)"
proof -
  let ?ws = "ws @ [((u, k), (v, j))]" and ?y = "wire_up ws n z"
  have o: "lk_outputs (wire_up ?ws n z) = (if n = u
      then upd_nth k (\<lambda>l. l\<lparr>lo_to := Some (v, j), lo_connected := True\<rparr>) (lk_outputs ?y) else lk_outputs ?y)"
    by (rule nth_equalityI) (auto simp: wire_up_def upd_nth_nth wire_out_snoc)
  have i: "lk_inputs (wire_up ?ws n z) = (if n = v
      then upd_nth j (\<lambda>l. l\<lparr>li_connected := True\<rparr>) (lk_inputs ?y) else lk_inputs ?y)"
    by (rule nth_equalityI) (auto simp: wire_up_def upd_nth_nth wire_in_snoc)
  have "wire_up ?ws n z = ?y\<lparr>lk_outputs := lk_outputs (wire_up ?ws n z), lk_inputs := lk_inputs (wire_up ?ws n z)\<rparr>"
    by (simp add: wire_up_def)
  then show ?thesis unfolding o i by (simp add: Let_def)
qed

lemma plan_units_wire:
  assumes "u < length xs" and "v < length xs"
  shows "upd_input v j (\<lambda>l. l\<lparr>li_connected := True\<rparr>)
      (upd_output u k (\<lambda>l. l\<lparr>lo_to := Some (v, j), lo_connected := True\<rparr>) (plan_units F d xs ws))
    = plan_units F d xs (ws @ [((u, k), (v, j))])"
  by (rule nth_equalityI)
     (use assms in \<open>auto simp: plan_units_def upd_input_def upd_output_def upd_nth_nth wire_up_snoc Let_def\<close>)

section \<open>The assembler realises the plan\<close>

text \<open>Bindings: the first of a code stays.\<close>

definition bind_first :: "int \<Rightarrow> 'f \<Rightarrow> ('f, 'h) device \<Rightarrow> ('f, 'h) device" where
  "bind_first c f d = (case dv_bindings d c of None \<Rightarrow> d\<lparr>dv_bindings := (dv_bindings d)(c \<mapsto> f)\<rparr> | Some _ \<Rightarrow> d)"

lemma bind_devices_map:
  assumes "int_range code"
  shows "bind_devices modul (of_int code) func ds = Inr (map (\<lambda>d. if dv_alias d = modul then bind_first code func d else d) ds)"
proof (induction ds)
  case (Cons d ds)
  have "device_add_binding (of_int code) func d = Inr (bind_first code func d)"
    using assms by (simp add: device_add_binding_def cast_int_of_int int_range_def bind_first_def)
  then show ?case using Cons by (simp add: device_get_alias_def)
qed simp

lemma bind_first_bindings:
  "dv_bindings d = map_of bs \<Longrightarrow> dv_bindings (bind_first c f d) = map_of (bs @ [(c, f)])"
  "dv_alias (bind_first c f d) = dv_alias d"
  by (auto simp: bind_first_def map_add_def fun_eq_iff split: option.split)

lemma set_midi_same: "sy_midi s = Some h \<Longrightarrow> set_midi_handler (Some h) s = s"
  by (cases s) (simp add: set_midi_handler_def)

lemma bindings_plan:
  assumes "bindings_each bs exports s = Inr s'" and "list_all (\<lambda>b. int_range (bd_code b)) bs" and "sy_midi s = Some h"
    and "\<forall>dv \<in> set (mh_devices h). dv_bindings dv = map_of (B (dv_alias dv))"
  shows "\<exists>h'. s' = set_midi_handler (Some h') s \<and> mh_led_map h' = mh_led_map h
    \<and> (\<forall>dv \<in> set (mh_devices h'). dv_bindings dv = map_of (B (dv_alias dv) @ bindings_of bs exports (dv_alias dv)))"
  using assms
proof (induction bs arbitrary: s h B)
  case Nil
  then show ?case by (intro exI [of _ h]) (simp add: set_midi_same bindings_of_def List.map_filter_simps)
next
  case (Cons b bs)
  show ?case
  proof (cases "map_of exports (bd_name b)")
    case None
    then have "bindings_of (b # bs) exports a = bindings_of bs exports a" for a
      by (simp add: bindings_of_def List.map_filter_simps)
    then show ?thesis using Cons None by simp
  next
    case (Some func)
    let ?ds = "map (\<lambda>d. if dv_alias d = bd_module b then bind_first (bd_code b) func d else d) (mh_devices h)"
    let ?h = "h\<lparr>mh_devices := ?ds\<rparr>"
    let ?B = "\<lambda>a. B a @ (if bd_module b = a then [(bd_code b, func)] else [])"
    have "midi_add_binding (bd_module b) (of_int (bd_code b)) func h = Inr ?h"
      using Cons.prems(2) by (simp add: midi_add_binding_def bind_devices_map)
    then have run: "bindings_each bs exports (set_midi_handler (Some ?h) s) = Inr s'"
      using Cons.prems(1,3) Some by (simp add: get_midi_handler_def)
    have "\<forall>dv \<in> set (mh_devices ?h). dv_bindings dv = map_of (?B (dv_alias dv))"
      using Cons.prems(4) by (auto simp: bind_first_bindings)
    from Cons.IH [OF run _ _ this] Cons.prems(2)
    obtain h' where h': "s' = set_midi_handler (Some h') (set_midi_handler (Some ?h) s)" "mh_led_map h' = mh_led_map ?h"
      "\<forall>dv \<in> set (mh_devices h'). dv_bindings dv = map_of (?B (dv_alias dv) @ bindings_of bs exports (dv_alias dv))"
      by (auto simp: set_midi_handler_def)
    have "?B a @ bindings_of bs exports a = B a @ bindings_of (b # bs) exports a" for a
      using Some by (simp add: bindings_of_def List.map_filter_simps)
    note app = this
    have "\<forall>dv \<in> set (mh_devices h'). dv_bindings dv = map_of (B (dv_alias dv) @ bindings_of (b # bs) exports (dv_alias dv))"
      using h'(3) unfolding app .
    then show ?thesis using h'(1,2) by (intro exI [of _ h']) (simp add: set_midi_handler_def)
  qed
qed

lemma leds_plan:
  assumes "leds_each x ls leds s = Inr s'" and "sy_midi s = Some h" and "\<forall>u st. led_at h u st = first_led es u st"
  shows "\<exists>h'. s' = set_midi_handler (Some h') s \<and> mh_devices h' = mh_devices h
    \<and> (\<forall>u st. led_at h' u st = first_led (es @ leds_of x ls leds) u st)"
  using assms
proof (induction ls arbitrary: s h es)
  case Nil
  then show ?case by (intro exI [of _ h]) (simp add: set_midi_same leds_of_def List.map_filter_simps)
next
  case (Cons l ls)
  show ?case
  proof (cases "map_of leds (ld_state l)")
    case None
    then show ?thesis using Cons by (simp add: leds_of_def List.map_filter_simps)
  next
    case (Some st)
    let ?l = "\<lparr>ls_device = ld_device l, ls_mode = led_mode_of (ld_mode l), ls_code = ld_code l, ls_value = ld_value l\<rparr>"
    let ?h = "midi_add_led x st (ld_device l) (ld_code l) (ld_value l) (led_mode_of (ld_mode l)) h"
    have run: "leds_each x ls leds (set_midi_handler (Some ?h) s) = Inr s'"
      using Cons.prems(1,2) Some by (simp add: get_midi_handler_def)
    have "led_at ?h u' st' = (case led_at h u' st' of Some l' \<Rightarrow> Some l' | None \<Rightarrow> if x = u' \<and> st = st' then Some ?l else None)"
      for u' st' using add_led_at [of x st ?l h u' st'] by simp
    then have "\<forall>u' st'. led_at ?h u' st' = first_led (es @ [(x, st, ?l)]) u' st'"
      using Cons.prems(3) by (auto simp: first_led_def map_add_def split: option.split)
    from Cons.IH [OF run _ this] obtain h' where "s' = set_midi_handler (Some h') (set_midi_handler (Some ?h) s)"
      "mh_devices h' = mh_devices ?h" "\<forall>u' st'. led_at h' u' st' = first_led ((es @ [(x, st, ?l)]) @ leds_of x ls leds) u' st'"
      by (auto simp: set_midi_handler_def)
    then show ?thesis using Some by (intro exI [of _ h']) (simp add: set_midi_handler_def leds_of_def List.map_filter_simps)
  qed
qed

text \<open>A system that has the units \<open>xs\<close>, the wires \<open>ws\<close> and the lines \<open>ms\<close>.\<close>

definition realises ::
    "'f unit_factory \<Rightarrow> description \<Rightarrow> string list \<Rightarrow> wire list \<Rightarrow> (string \<times> nat) list
      \<Rightarrow> ('m, 'f, 'h, 't, 'l) sio_system \<Rightarrow> bool" where
  "realises F d xs ws ms s \<longleftrightarrow>
     rk_units (sy_rack s) = plan_units F d xs ws
   \<and> rk_mounted (sy_rack s) = (\<lambda>x. if x \<in> set xs then Some (slot xs x) else None)
   \<and> rk_mainlines (sy_rack s) = (\<lambda>m. if m \<in> set (ds_mainlines d) then Some (map_of (rev ms) m) else None)
   \<and> rk_raw_mainlines (sy_rack s) = map snd ms
   \<and> map_option rgy_current_id (sy_registry s) = Some (int (length xs))
   \<and> (\<exists>h. sy_midi s = Some h
        \<and> (\<forall>dv \<in> set (mh_devices h). dv_bindings dv = map_of (plan_bindings F d xs (dv_alias dv)))
        \<and> (\<forall>u st. led_at h u st = first_led (plan_leds F d xs) u st))"

lemma description_plan: "unit_description d x = Inr ud \<longleftrightarrow> plan_description d x = Some ud"
  by (auto simp: unit_description_def plan_description_def split: option.splits)

lemma register_numbered: "register_component z reg =
    (numbered (nat (rgy_current_id reg)) z, reg\<lparr>rgy_registry := rgy_registry reg @ [rg_handle (numbered 0 z)],
       rgy_current_id := rgy_current_id reg + 1\<rparr>)" if "0 \<le> rgy_current_id reg" for z :: sio_unit
  using that by (simp add: register_component_def numbered_def set_id_def set_handle_def Let_def)

lemma plan_unit_label:
  assumes "keeps_labels F" and "plan_load F d x = Some u"
  shows "rg_label (plan_unit F d n x) = x"
proof -
  have "ulabel u = x" using assms by (auto simp: plan_load_def keeps_labels_def split: option.splits)
  then show ?thesis
    using configure_label [OF assms(1)] by (simp add: plan_unit_def Let_def ulabel_def [symmetric] assms(2))
       (simp add: ulabel_def numbered_def)
qed

lemma plan_units_labels: "plan_description d x = Some ud \<Longrightarrow> su_label ud = x \<and> ud \<in> set (ds_units d)"
  by (auto simp: plan_description_def find_Some_iff)

lemma plan_grow:
  "plan_bindings F d (xs @ [x]) dev = plan_bindings F d xs dev
     @ bindings_of (su_bindings (the (plan_description d x))) (lu_handlers (the (plan_load F d x))) dev"
  "plan_leds F d (xs @ [x]) = plan_leds F d xs
     @ leds_of x (su_leds (the (plan_description d x))) (lu_leds (the (plan_load F d x)))"
  by (simp_all add: plan_bindings_def plan_leds_def)

lemma bindings_of_none: "bindings_of bs [] dev = []"
  by (induction bs) (simp_all add: bindings_of_def List.map_filter_simps)

text \<open>Loading, binding and mounting one unit.\<close>

lemma check_unit_plan:
  assumes F: "factory_ok F"
    and codes: "\<forall>ud \<in> set (ds_units d). list_all (\<lambda>b. int_range (bd_code b)) (su_bindings ud)"
    and re: "realises F d xs ws ms s" and ws: "wires_below (length xs) ws"
    and run: "check_unit (Some F) d x s = Inr s'"
  shows "realises F d (if plan_load F d x = None \<or> x \<in> set xs then xs else xs @ [x]) ws ms s'"
proof -
  obtain ud where ud: "unit_description d x = Inr ud" using run by (auto simp: check_unit_def bind_res_eq_Inr)
  have pd: "plan_description d x = Some ud" using ud description_plan by simp
  note lab = plan_units_labels [OF pd]
  have has: "has_unit x (sy_rack s) \<longleftrightarrow> x \<in> set xs" using re by (simp add: realises_def has_unit_def)
  have load: "uf_load F (su_unit ud) (su_label ud) (su_library ud) = plan_load F d x"
    using pd lab by (simp add: plan_load_def)
  show ?thesis
  proof (cases "plan_load F d x = None \<or> x \<in> set xs")
    case True
    then have "s' = s" using run ud has load lab by (auto simp: check_unit_def)
    then show ?thesis using True re by simp
  next
    case False
    then obtain u0 where u0: "plan_load F d x = Some u0" by auto
    obtain h where h: "sy_midi s = Some h" "\<forall>dv \<in> set (mh_devices h). dv_bindings dv = map_of (plan_bindings F d xs (dv_alias dv))"
      "\<forall>u st. led_at h u st = first_led (plan_leds F d xs) u st"
      using re by (auto simp: realises_def)
    obtain reg where reg: "sy_registry s = Some reg" "rgy_current_id reg = int (length xs)"
      using re by (auto simp: realises_def)
    let ?z = "numbered (length xs) (lu_unit u0)"
    let ?u = "u0\<lparr>lu_led_utility := True, lu_unit := ?z\<rparr>"
    define reg' where "reg' = snd (register_component (lu_unit u0) reg)"
    have z: "register_component (lu_unit u0) reg = (?z, reg')" "rgy_current_id reg' = int (length xs) + 1"
      using reg(2) by (simp_all add: reg'_def register_numbered)
    let ?s1 = "set_registry (Some reg') s"
    have r: "register_unit (u0\<lparr>lu_led_utility := get_midi_handler s \<noteq> None\<rparr>) s = Inr (?u, ?s1)"
      using reg(1) z(1) h(1) by (simp add: register_unit_def get_registry_def get_midi_handler_def)
    obtain s2 s3 where st: "(if controllable ?u then assemble_bindings d ?u ?s1 else Inr ?s1) = Inr s2"
        "assemble_leds d ?u s2 = Inr s3"
      and s': "s' = s3\<lparr>sy_rack := add_unit (lu_unit (configure_all F (su_configs ud) ?u)) (sy_rack s3)\<rparr>"
      using run ud False has load u0 lab r by (auto simp: check_unit_def bind_res_eq_Inr split del: if_split)
    have ul: "ulabel ?u = x" using F u0 pd
      by (auto simp: plan_load_def factory_ok_def keeps_labels_def ulabel_def numbered_def)
    have "sy_midi ?s1 = Some h" using h(1) by (simp add: set_registry_def)
    then obtain h2 where h2: "s2 = set_midi_handler (Some h2) ?s1" "mh_led_map h2 = mh_led_map h"
      "\<forall>dv \<in> set (mh_devices h2). dv_bindings dv = map_of (plan_bindings F d xs (dv_alias dv)
         @ bindings_of (su_bindings ud) (lu_handlers u0) (dv_alias dv))"
    proof (cases "lu_handlers u0 = []")
      case True
      then have "s2 = ?s1" using st(1) by (simp add: controllable_def)
      then show ?thesis using that [of h] \<open>sy_midi ?s1 = Some h\<close> h(2) True by (simp add: set_midi_same bindings_of_none)
    next
      case False
      then have "bindings_each (su_bindings ud) (lu_handlers u0) ?s1 = Inr s2"
        using st(1) ul ud by (simp add: controllable_def assemble_bindings_def midi_handlers_def)
      from bindings_plan [OF this _ \<open>sy_midi ?s1 = Some h\<close>, where B = "plan_bindings F d xs"] show ?thesis
        using that codes lab h(2) by blast
    qed
    have "leds_each x (su_leds ud) (lu_leds u0) s2 = Inr s3"
      using st(2) ul ud by (simp add: assemble_leds_def midi_leds_def)
    moreover have "sy_midi s2 = Some h2" "\<forall>u st. led_at h2 u st = first_led (plan_leds F d xs) u st"
      using h2(1,2) h(3) by (simp_all add: set_midi_handler_def led_at_def)
    ultimately obtain h3 where h3: "s3 = set_midi_handler (Some h3) s2" "mh_devices h3 = mh_devices h2"
      "\<forall>u st. led_at h3 u st = first_led (plan_leds F d xs @ leds_of x (su_leds ud) (lu_leds u0)) u st"
      using leds_plan by blast
    have unit: "lu_unit (configure_all F (su_configs ud) ?u) = plan_unit F d (length xs) x"
      by (simp add: plan_unit_def u0 pd)
    have lb: "rg_label (plan_unit F d (length xs) x) = x"
      using plan_unit_label [OF _ u0] F by (simp add: factory_ok_def)
    have s'': "sy_rack s' = add_unit (plan_unit F d (length xs) x) (sy_rack s)" "sy_midi s' = Some h3" "sy_registry s' = Some reg'"
      by (simp_all add: s' h3(1) h2(1) unit set_midi_handler_def set_registry_def)
    have m: "rk_mounted (sy_rack s) = (\<lambda>x. if x \<in> set xs then Some (slot xs x) else None)"
      "rk_units (sy_rack s) = plan_units F d xs ws"
      using re by (simp_all add: realises_def)
    have "rk_units (sy_rack s') = plan_units F d (xs @ [x]) ws"
      by (simp add: s''(1) add_unit_def m lb plan_units_grow [OF ws])
    moreover have "length (plan_units F d xs ws) = length xs" by (simp add: plan_units_def)
    then have "rk_mounted (sy_rack s') = (\<lambda>y. if y \<in> set (xs @ [x]) then Some (slot (xs @ [x]) y) else None)"
      using False by (auto simp: s''(1) add_unit_def m lb fun_eq_iff slot_append slot_new Let_def)
    moreover have "rk_mainlines (sy_rack s') = rk_mainlines (sy_rack s)" "rk_raw_mainlines (sy_rack s') = rk_raw_mainlines (sy_rack s)"
      by (simp_all add: s''(1) add_unit_def Let_def)
    ultimately have "realises F d (xs @ [x]) ws ms s'"
      using re s''(2,3) z(2) h2(3) h3(2,3) unfolding realises_def by (simp add: plan_grow u0 pd)
    then show ?thesis using False u0 by simp
  qed
qed

text \<open>Connecting.\<close>

definition some_of :: "'a option \<Rightarrow> 'a list" where
  "some_of y = (case y of None \<Rightarrow> [] | Some a \<Rightarrow> [a])"

lemma some_of_simps [simp]: "some_of None = []" "some_of (Some a) = [a]"
  by (simp_all add: some_of_def)

lemma mainline_plan:
  assumes "realises F d xs ws ms s" and "lk_from l = ''rack''"
  shows "realises F d xs ws (ms @ some_of (plan_line d xs l))
    (s\<lparr>sy_rack := snd (connect_mainline (lk_plug l) (lk_to l) (sy_rack s))\<rparr>)"
proof (cases "lk_plug l \<in> set (ds_mainlines d) \<and> lk_to l \<in> set xs")
  case True
  have "(\<lambda>m. if m \<in> set (ds_mainlines d) then Some (map_of (rev ms) m) else None)(lk_plug l \<mapsto> Some (slot xs (lk_to l)))
     = (\<lambda>m. if m \<in> set (ds_mainlines d) then Some (map_of (rev (ms @ [(lk_plug l, slot xs (lk_to l))])) m) else None)"
    using True by (simp add: fun_eq_iff)
  then show ?thesis
    using assms True by (simp add: realises_def connect_mainline_def get_unit_def plan_line_def)
next
  case False
  then have "snd (connect_mainline (lk_plug l) (lk_to l) (sy_rack s)) = sy_rack s"
    using assms(1) by (auto simp: realises_def connect_mainline_def get_unit_def)
  moreover have "plan_line d xs l = None" using False by (auto simp: plan_line_def)
  ultimately show ?thesis using assms(1) by simp
qed

lemma plan_unit_ports:
  assumes "factory_ok F" and "plan_load F d x \<noteq> None"
  shows "ports_ok (plan_unit F d n x)"
proof -
  obtain u where u: "plan_load F d x = Some u" using assms(2) by auto
  then have "ports_ok (lu_unit u)" using assms(1) by (auto simp: plan_load_def factory_ok_def split: option.splits)
  then have "ports_ok (numbered n (lu_unit u))" by (simp add: ports_ok_def numbered_def)
  then show ?thesis by (simp add: plan_unit_def Let_def u configure_outs [OF assms(1)])
qed

lemma has_input_ok: "ports_ok z \<Longrightarrow> 0 \<le> has_input label z \<Longrightarrow> nat (has_input label z) < length (lk_inputs z)"
  by (auto simp: has_input_def ports_ok_def find_Some_iff list_all_length split: option.splits)

lemma uint_of_le: "0 \<le> i \<Longrightarrow> uint_of i \<le> nat i"
  unfolding uint_of_def by (simp add: nat_mono zmod_le_nonneg_dividend)

lemma wires_below_snoc: "wires_below m (ws @ [((u, k), (v, j))]) \<longleftrightarrow> wires_below m ws \<and> u < m \<and> v < m"
  by (auto simp: wires_below_def)

lemma wires_below_mono: "wires_below m ws \<Longrightarrow> m \<le> n \<Longrightarrow> wires_below n ws"
  unfolding wires_below_def by (auto dest!: bspec)

lemma units_plan:
  assumes F: "factory_ok F" and re: "realises F d xs ws ms s" and ws: "wires_below (length xs) ws"
    and ld: "\<forall>x \<in> set xs. plan_load F d x \<noteq> None" and nr: "lk_from l \<noteq> ''rack''"
    and run: "connect_units (lk_from l) (lk_plug l) (lk_to l) (lk_jack l) (sy_rack s) = Inr (b, r')"
  shows "realises F d xs (ws @ some_of (plan_wire F d xs l)) ms (s\<lparr>sy_rack := r'\<rparr>)
    \<and> wires_below (length xs) (ws @ some_of (plan_wire F d xs l))"
proof (cases "lk_from l \<in> set xs \<and> lk_to l \<in> set xs")
  case False
  then have "plan_wire F d xs l = None" by (auto simp: plan_wire_def)
  moreover have "get_unit (lk_from l) (sy_rack s) = None \<or> get_unit (lk_to l) (sy_rack s) = None"
    using False re by (auto simp: realises_def get_unit_def)
  then have "r' = sy_rack s" using run by (auto simp: connect_units_def split: option.splits)
  ultimately show ?thesis using re ws by simp
next
  case True
  let ?u = "slot xs (lk_from l)" and ?v = "slot xs (lk_to l)"
  let ?a = "plan_unit F d ?u (lk_from l)" and ?b = "plan_unit F d ?v (lk_to l)"
  let ?k = "has_output (lk_plug l) ?a" and ?j = "has_input (lk_jack l) ?b"
  have uv: "?u < length xs" "xs ! ?u = lk_from l" "?v < length xs" "xs ! ?v = lk_to l"
    using True by (simp_all add: slot_mem)
  have units: "rk_units (sy_rack s) = plan_units F d xs ws" using re by (simp add: realises_def)
  have nth: "rk_units (sy_rack s) ! ?u = wire_up ws ?u ?a" "rk_units (sy_rack s) ! ?v = wire_up ws ?v ?b"
    using uv by (simp_all add: units plan_units_def)
  have get: "get_unit (lk_from l) (sy_rack s) = Some ?u" "get_unit (lk_to l) (sy_rack s) = Some ?v"
    using re True by (simp_all add: realises_def get_unit_def)
  show ?thesis
  proof (cases "?k < 0 \<or> ?j < 0")
    case neg: True
    then have "r' = sy_rack s" "plan_wire F d xs l = None"
      using run get nth True by (auto simp: connect_units_def plan_wire_def Let_def)
    then show ?thesis using re ws by simp
  next
    case pos: False
    let ?w = "((?u, nat ?k), (?v, nat ?j))"
    have w: "plan_wire F d xs l = Some ?w" using True pos nr by (simp add: plan_wire_def Let_def)
    have pa: "ports_ok ?a" "ports_ok ?b" using plan_unit_ports [OF F] ld True by simp_all
    have k: "nat ?k < length (lk_outputs ?a)" "lk_num_outputs ?a = length (lk_outputs ?a)"
      "nat ?j < length (lk_inputs ?b)" "lk_num_inputs ?b = length (lk_inputs ?b)"
      using has_output_ok [OF pa(1), of "lk_plug l"] has_input_ok [OF pa(2), of "lk_jack l"] pa pos
      by (simp_all add: ports_ok_def)
    then have "\<not> lk_num_outputs ?a \<le> uint_of ?k" "\<not> lk_num_inputs ?b \<le> uint_of ?j"
      using uint_of_le [of ?k] uint_of_le [of ?j] pos by simp_all
    then have "link_connect ?u ?k (get_input ?v ?j (rk_units (sy_rack s) ! ?v)) (rk_units (sy_rack s))
        = Inr (True, plan_units F d xs (ws @ [?w]))"
      using k nth plan_units_wire [OF uv(1,3), of "nat ?j" "nat ?k" F d ws]
      by (simp add: link_connect_def get_input_def units)
    then have "r' = (sy_rack s)\<lparr>rk_units := plan_units F d xs (ws @ [?w])\<rparr>"
      using run get nth pos by (simp add: connect_units_def Let_def)
    then show ?thesis using re ws w uv by (simp add: realises_def wires_below_snoc)
  qed
qed

text \<open>All links.\<close>

lemma mounts_loaded: "x \<in> set (plan_mounts F d ls) \<Longrightarrow> plan_load F d x \<noteq> None"
  by (simp add: plan_mounts_def)

lemma plan_wires_snoc:
  "plan_wires F d (ls @ [l]) = plan_wires F d ls @ some_of (plan_wire F d (plan_mounts F d (ls @ [l])) l)"
  "plan_lines F d (ls @ [l]) = plan_lines F d ls @ some_of (plan_line d (plan_mounts F d (ls @ [l])) l)"
  by (simp_all add: plan_wires_def plan_lines_def along_snoc some_of_def)

lemma daisychains_snoc:
  "daisychains_each factory d (ls @ [l]) s = bind_res (daisychains_each factory d ls s) (daisychains_each factory d [l])"
proof (induction ls arbitrary: s)
  case Nil
  then show ?case by simp
next
  case (Cons k ls)
  have assoc: "bind_res (bind_res x f) g = bind_res x (\<lambda>y. bind_res (f y) g)"
    for x :: "'x result" and f :: "'x \<Rightarrow> 'y result" and g :: "'y \<Rightarrow> 'z result" by (cases x) simp_all
  show ?case unfolding append_Cons daisychains_each.simps(2) Cons.IH assoc by simp
qed

lemma daisychains_plan:
  assumes F: "factory_ok F"
    and codes: "\<forall>ud \<in> set (ds_units d). list_all (\<lambda>b. int_range (bd_code b)) (su_bindings ud)"
    and s: "realises F d [] [] [] s"
  shows "daisychains_each (Some F) d ls s = Inr s' \<Longrightarrow>
    realises F d (plan_mounts F d ls) (plan_wires F d ls) (plan_lines F d ls) s'
    \<and> wires_below (length (plan_mounts F d ls)) (plan_wires F d ls)"
proof (induction ls arbitrary: s' rule: rev_induct)
  case Nil
  then show ?case using s by (simp add: plan_mounts_def plan_wires_def plan_lines_def wires_below_def)
next
  case (snoc l ls)
  let ?xs = "plan_mounts F d ls" and ?ys = "plan_mounts F d (ls @ [l])"
  obtain s1 where s1: "daisychains_each (Some F) d ls s = Inr s1" "daisychains_each (Some F) d [l] s1 = Inr s'"
    using snoc.prems by (auto simp: daisychains_snoc bind_res_eq_Inr)
  note IH = snoc.IH [OF s1(1)]
  obtain s2 where s2: "check_unit (Some F) d (lk_to l) s1 = Inr s2" using s1(2) by (auto simp: bind_res_eq_Inr)
  have ys: "?ys = (if plan_load F d (lk_to l) = None \<or> lk_to l \<in> set ?xs then ?xs else ?xs @ [lk_to l])"
    by (rule plan_mounts_snoc)
  have re: "realises F d ?ys (plan_wires F d ls) (plan_lines F d ls) s2"
    unfolding ys using check_unit_plan [OF F codes _ _ s2] IH by blast
  have below: "wires_below (length ?ys) (plan_wires F d ls)"
    using IH wires_below_mono by (auto simp: ys)
  show ?case
  proof (cases "lk_from l = ''rack''")
    case True
    then have "s' = s2\<lparr>sy_rack := snd (connect_mainline (lk_plug l) (lk_to l) (sy_rack s2))\<rparr>" using s1(2) s2 by simp
    moreover have "plan_wire F d ?ys l = None" using True by (simp add: plan_wire_def)
    ultimately show ?thesis using mainline_plan [OF re True] below by (simp add: plan_wires_snoc)
  next
    case False
    then obtain b r' where r': "connect_units (lk_from l) (lk_plug l) (lk_to l) (lk_jack l) (sy_rack s2) = Inr (b, r')"
        "s' = s2\<lparr>sy_rack := r'\<rparr>"
      using s1(2) s2 by (auto simp: bind_res_eq_Inr map_res_eq_Inr)
    have "plan_line d ?ys l = None" using False by (simp add: plan_line_def)
    moreover have "\<forall>x \<in> set ?ys. plan_load F d x \<noteq> None" using mounts_loaded by blast
    ultimately show ?thesis
      using units_plan [OF F re below _ False r'(1)] r'(2) by (simp add: plan_wires_snoc)
  qed
qed

text \<open>The whole description.\<close>

lemma mainlines_exact:
  "rk_units (sy_rack (mainlines_each ms s)) = rk_units (sy_rack s)
   \<and> rk_mounted (sy_rack (mainlines_each ms s)) = rk_mounted (sy_rack s)
   \<and> rk_raw_mainlines (sy_rack (mainlines_each ms s)) = rk_raw_mainlines (sy_rack s)
   \<and> rk_mainlines (sy_rack (mainlines_each ms s))
       = (\<lambda>m. if m \<in> set ms \<and> rk_mainlines (sy_rack s) m = None then Some None else rk_mainlines (sy_rack s) m)"
proof (induction ms arbitrary: s)
  case (Cons m ms)
  show ?case by (auto simp: Cons.IH add_mainline_def fun_eq_iff)
qed simp

lemma configured_bindings [simp]: "dv_bindings (configured c) = (\<lambda>_. None)"
  by (simp add: configured_def device_set_led_on_def device_set_led_off_def device_make_def)

lemma assemble_plan:
  fixes s' :: "('m, 'f, 'h, 't, 'l ev_loop) sio_system"
  assumes F: "factory_ok F" and d: "desc_ok d" and run: "assemble moves (Some F) d (bare_system user k) = Inr s'"
  shows "let ls = ds_daisychains d in realises F d (plan_mounts F d ls) (plan_wires F d ls) (plan_lines F d ls) s'"
proof -
  let ?bare = "bare_system user k :: ('m, 'f, 'h, 't, 'l ev_loop) sio_system"
  obtain s1 s2 s3 where st: "size_queue d ?bare = Inr s1"
      "devices_each moves (ds_controllers d) (mainlines_each (ds_mainlines d) s1) = Inr s2"
      "daisychains_each (Some F) d (ds_daisychains d) s2 = Inr s3" "assemble_schpolicy d s3 = Inr s'"
    using run
    by (auto simp: assemble_def assemble_devices_def assemble_mainlines_def assemble_daisychains_def bind_res_eq_Inr)
  let ?named = "mainlines_each (ds_mainlines d) s1"
  have s1: "sy_rack s1 = sy_rack ?bare" "sy_midi s1 = Some midi_handler_make" "sy_registry s1 = Some registry_make"
    using st(1) by (auto simp: size_queue_def get_queue_of_def set_queue_of_def bare_facts split: option.splits)
  note mk = mainlines_kept [of "ds_mainlines d" s1]
  have m: "sy_midi ?named = Some midi_handler_make" "sy_registry ?named = Some registry_make" "rack_ok (sy_rack ?named)"
    using mk by (simp_all add: s1 bare_facts)
  have "sorted_wrt (<) (map ct_label (ds_controllers d))" using d by (simp add: desc_ok_def)
  then have dist: "distinct (map device_get_alias (mh_devices midi_handler_make) @ map ct_label (ds_controllers d))"
    using strict_sorted_iff by (auto simp: midi_handler_make_def)
  obtain h where h: "sy_midi s2 = Some h" "mh_devices h = map configured (ds_controllers d)" "mh_led_map h = (\<lambda>_. None)"
    "sy_registry s2 = Some registry_make"
    using devices_run [OF m(1) _ m(3) dist, of moves] st(2) m(2) by (fastforce simp: midi_handler_make_def)
  have rack: "sy_rack s2 = sy_rack ?named" using devices_same [OF st(2)] by (simp add: same_but_midi_def)
  have "realises F d [] [] [] s2"
    unfolding realises_def rack
    using mainlines_exact [of "ds_mainlines d" s1] h
    by (simp add: s1 bare_system_def set_registry_def set_cache_utility_of_def set_midi_handler_def set_loop_of_def
        set_queue_of_def system_make_def rack_make_def plan_units_def fun_eq_iff registry_make_def plan_bindings_def
        plan_leds_def led_at_def first_led_def)
  moreover have "\<forall>ud \<in> set (ds_units d). list_all (\<lambda>b. int_range (bd_code b)) (su_bindings ud)"
    using d by (auto simp: desc_ok_def unit_ok_def list_all_iff)
  ultimately have "let ls = ds_daisychains d in realises F d (plan_mounts F d ls) (plan_wires F d ls) (plan_lines F d ls) s3"
    using daisychains_plan [OF F _ _ st(3)] by (simp add: Let_def)
  then show ?thesis
    using st(4) by (auto simp: assemble_schpolicy_def assign_schpolicy_def realises_def Let_def split: option.splits)
qed

text \<open>\<open>init\<close> opens ports and leaves the rest of a device alone.\<close>

lemma init_devices_bindings: "init_devices drv i ds = (ds', active) \<Longrightarrow> map dv_bindings ds' = map dv_bindings ds"
proof (induction ds arbitrary: i ds' active)
  case (Cons d ds)
  have "dv_bindings (snd (device_init drv d)) = dv_bindings d"
    by (auto simp: device_init_def Let_def split: option.splits)
  then show ?case using Cons by (auto split: prod.splits if_splits)
qed simp

lemma midi_init_bindings: "map dv_bindings (mh_devices (midi_init drv h)) = map dv_bindings (mh_devices h)"
  using init_devices_bindings by (fastforce simp: midi_init_def split: prod.splits)

lemma midi_init_leds: "led_at (midi_init drv h) = led_at h"
  by (auto simp: midi_init_def led_at_def fun_eq_iff split: prod.split)

text \<open>What is bound on the devices, in the order of the controllers.\<close>

lemma realises_bindings:
  assumes "realises F d xs ws ms s" and "sy_midi s = Some h"
    and "handler_ids h = map (\<lambda>c. (ct_label c, ct_port c, ct_led_on c, ct_led_off c)) (ds_controllers d)"
  shows "map dv_bindings (mh_devices h) = map (\<lambda>c. map_of (plan_bindings F d xs (ct_label c))) (ds_controllers d)"
proof -
  have "map dv_bindings (mh_devices h) = map (\<lambda>a. map_of (plan_bindings F d xs a)) (map dv_alias (mh_devices h))"
    using assms(1,2) by (simp add: realises_def)
  also have "map dv_alias (mh_devices h) = map fst (handler_ids h)"
    by (simp add: handler_ids_def device_id_def comp_def)
  finally show ?thesis by (simp add: assms(3) comp_def)
qed

text \<open>What \<open>setup\<close> returns.\<close>

lemma setup_plan:
  fixes user :: 'm and drv :: "'h midi_driver" and F :: "'f unit_factory"
  assumes "je_point E = ''.''" and "exact_ints E" and "desc_ok d"
    and "files path = Some (json_serialize E prettify (desc_json d))"
    and "factory_ok F" and "lk_to ` set (ds_daisychains d) \<subseteq> su_label ` set (ds_units d)"
  obtains s :: "('m, 'f, 'h, 't, 'l ev_loop) sio_system" and h
  where "assemble moves (Some F) d (bare_system user cache_blocks) = Inr s"
    and "realises F d (plan_mounts F d (ds_daisychains d)) (plan_wires F d (ds_daisychains d)) (plan_lines F d (ds_daisychains d)) s"
    and "sy_midi s = Some h" and "rk_cache (sy_rack s) = Some (cache_manager_make cache_blocks)"
    and "handler_ids h = map (\<lambda>c. (ct_label c, ct_port c, ct_led_on c, ct_led_off c)) (ds_controllers d)"
    and "mh_active_dev h = []" and "\<not> mh_dangling h"
    and "system_setup moves E files drv F user path cache_blocks = Inr (set_midi_handler (Some (midi_init drv h)) s)"
proof -
  obtain s :: "('m, 'f, 'h, 't, 'l ev_loop) sio_system" and h where
    a: "assemble moves (Some F) d (bare_system user cache_blocks) = Inr s" "sy_midi s = Some h"
      "rk_cache (sy_rack s) = Some (cache_manager_make cache_blocks)"
      "handler_ids h = map (\<lambda>c. (ct_label c, ct_port c, ct_led_on c, ct_led_off c)) (ds_controllers d)"
      "mh_active_dev h = []" "\<not> mh_dangling h"
      "system_setup moves E files drv F user path cache_blocks = Inr (set_midi_handler (Some (midi_init drv h)) s)"
    by (rule setup_runs [where files = files and path = path and prettify = prettify and F = F and moves = moves
        and drv = drv and user = user and cache_blocks = cache_blocks, OF assms])
  show thesis
    by (rule that [OF a(1) _ a(2-7)]) (use assemble_plan [OF assms(5,3) a(1)] in \<open>simp add: Let_def\<close>)
qed

section \<open>Properties\<close>

text \<open>C5. From a configuration file to a system: when the file says a description whose daisychains lead to described
  units only, \<open>setup\<close> succeeds, and what it returns is the plan of the description. The rack holds, in
  the order in which the links first lead to them, the units that the loader gives, registered by number and configured;
  each output leads to the input that the last link from it names, plug on the side it comes from and jack on the side
  it leads to, and both ends are marked; nothing else is connected. A link whose units are not both there by then, or
  whose port no unit has, connects nothing. The mainlines are those of the file and lead to the units of their last links.
  The queue has the configured number of workers, the worker of the rack the configured policy, the cache the
  blocks asked for. The midi handler has one device per controller, in order, with its port, its led codes and the
  handlers of the units that bind on it; the leds of the units are those described, of several entries the first.\<close>

theorem setup_builds:
  fixes user :: 'm and drv :: "'h midi_driver" and F :: "'f unit_factory"
  assumes "je_point E = ''.''" and "exact_ints E" and "desc_ok d"
    and "files path = Some (json_serialize E prettify (desc_json d))"
    and "factory_ok F" and "lk_to ` set (ds_daisychains d) \<subseteq> su_label ` set (ds_units d)"
  shows "\<exists>(s :: ('m, 'f, 'h, 't, 'l ev_loop) sio_system) h.
    system_setup moves E files drv F user path cache_blocks = Inr s \<and> sy_midi s = Some h \<and>
    (let ls = ds_daisychains d; xs = plan_mounts F d ls; r = sy_rack s in
       rk_units r = plan_units F d xs (plan_wires F d ls)
     \<and> rk_mounted r = (\<lambda>x. if x \<in> set xs then Some (slot xs x) else None)
     \<and> rk_mainlines r = (\<lambda>m. if m \<in> set (ds_mainlines d) then Some (map_of (rev (plan_lines F d ls)) m) else None)
     \<and> rk_raw_mainlines r = map snd (plan_lines F d ls)
     \<and> rk_cache r = Some (cache_manager_make cache_blocks)
     \<and> map_option q_size (sy_queue s) = ds_workers d
     \<and> sd_policy (sy_schpolicy s) = policy_of (lx_policy (ds_linux d))
     \<and> sd_priority (sy_schpolicy s) = lx_priority (ds_linux d)
     \<and> Some (sd_cpu_affinity (sy_schpolicy s)) = lx_affinity (ds_linux d)
     \<and> map (\<lambda>dv. (dv_alias dv, dv_port_name dv, dv_led_on dv, dv_led_off dv)) (mh_devices h)
         = map (\<lambda>c. (ct_label c, ct_port c, ct_led_on c, ct_led_off c)) (ds_controllers d)
     \<and> map dv_bindings (mh_devices h) = map (\<lambda>c. map_of (plan_bindings F d xs (ct_label c))) (ds_controllers d)
     \<and> (\<forall>u st. led_at h u st = first_led (plan_leds F d xs) u st))"
proof -
  obtain s :: "('m, 'f, 'h, 't, 'l ev_loop) sio_system" and h where
    a: "assemble moves (Some F) d (bare_system user cache_blocks) = Inr s"
    and re: "realises F d (plan_mounts F d (ds_daisychains d)) (plan_wires F d (ds_daisychains d))
        (plan_lines F d (ds_daisychains d)) s" and h: "sy_midi s = Some h"
    and cache: "rk_cache (sy_rack s) = Some (cache_manager_make cache_blocks)"
    and ids: "handler_ids h = map (\<lambda>c. (ct_label c, ct_port c, ct_led_on c, ct_led_off c)) (ds_controllers d)"
    and run: "system_setup moves E files drv F user path cache_blocks = Inr (set_midi_handler (Some (midi_init drv h)) s)"
    by (rule setup_plan [where files = files and path = path and prettify = prettify and F = F and moves = moves
        and drv = drv and user = user and cache_blocks = cache_blocks, OF assms])
  let ?s = "set_midi_handler (Some (midi_init drv h)) s"
  have same: "sy_rack ?s = sy_rack s" "sy_queue ?s = sy_queue s" "sy_schpolicy ?s = sy_schpolicy s"
    "sy_midi ?s = Some (midi_init drv h)"
    by (simp_all add: set_midi_handler_def)
  have F: "keeps_labels F" using assms(5) by (simp add: factory_ok_def)
  have leds: "\<forall>u st. led_at (midi_init drv h) u st = first_led (plan_leds F d (plan_mounts F d (ds_daisychains d))) u st"
    using re h by (simp add: realises_def midi_init_leds)
  have ids': "map (\<lambda>dv. (dv_alias dv, dv_port_name dv, dv_led_on dv, dv_led_off dv)) (mh_devices (midi_init drv h))
      = map (\<lambda>c. (ct_label c, ct_port c, ct_led_on c, ct_led_off c)) (ds_controllers d)"
    using midi_init_ids [of drv h] ids by (simp add: handler_ids_def device_id_def [abs_def])
  show ?thesis
    by (rule exI [of _ ?s], rule exI [of _ "midi_init drv h"])
       (use run assemble_mounts [OF F a] realises_bindings [OF re h ids] leds ids' cache re in
         \<open>simp add: same Let_def midi_init_bindings bare_facts realises_def\<close>)
qed

text \<open>A rig of two units, of which one feeds the other and takes notes from the second of two controllers.\<close>

definition rig_factory :: "string unit_factory" where
  "rig_factory = \<lparr>uf_load = (\<lambda>model label target.
       if model = ''Source'' then Some \<lparr>lu_unit = add_output ''out'' (unit_make Plain_Class UT_Step model label),
              lu_handlers = [(''trigger'', ''play'')], lu_leds = [(''on'', 1)], lu_led_utility = False\<rparr>
       else if model = ''Sink'' then Some \<lparr>lu_unit = add_input 1 ''in'' (unit_make Plain_Class UT_Step model label),
              lu_handlers = [], lu_leds = [], lu_led_utility = False\<rparr>
       else None),
     uf_configure = (\<lambda>_ _ u. u)\<rparr>"

definition rig_plan :: description where
  "rig_plan = demo_desc\<lparr>
     ds_controllers := [\<lparr>ct_label = ''keys'', ct_port = ''hw:2,0,0'', ct_led_on = 144, ct_led_off = 128\<rparr>,
       \<lparr>ct_label = ''pad'', ct_port = ''hw:1,0,0'', ct_led_on = 144, ct_led_off = 128\<rparr>],
     ds_daisychains := [\<lparr>lk_from = ''rack'', lk_plug = ''ac1'', lk_to = ''src'', lk_jack = ''ac''\<rparr>,
       \<lparr>lk_from = ''src'', lk_plug = ''out'', lk_to = ''sink'', lk_jack = ''in''\<rparr>],
     ds_units := [\<lparr>su_label = ''src'', su_unit = ''Source'', su_library = ''lib.so'', su_configs = [],
       su_bindings = [\<lparr>bd_name = ''trigger'', bd_module = ''pad'', bd_code = 60\<rparr>],
       su_leds = [\<lparr>ld_state = ''on'', ld_device = ''pad'', ld_mode = ''blink'', ld_code = 60, ld_value = 127\<rparr>]\<rparr>,
      \<lparr>su_label = ''sink'', su_unit = ''Sink'', su_library = ''lib.so'', su_configs = [], su_bindings = [], su_leds = []\<rparr>]\<rparr>"

lemmas rig_defs = unit_make_def linkable_make_def registrable_make_def linkable.defs registrable.defs
  add_output_def add_input_def

lemma rig_ok:
  "desc_ok rig_plan" "factory_ok rig_factory"
  "lk_to ` set (ds_daisychains rig_plan) \<subseteq> su_label ` set (ds_units rig_plan)"
  by (simp_all add: rig_plan_def desc_ok_def demo_desc_def int_range_def unit_ok_def factory_ok_def keeps_labels_def
      rig_factory_def ulabel_def rig_defs ports_ok_def)

definition rig_driver :: "nat midi_driver" where
  "rig_driver = \<lparr>open_input_port = (\<lambda>_ port. if port = ''hw:1,0,0'' then Some 3 else None), open_output_port = (\<lambda>_ _. None)\<rparr>"

lemma rig_loads:
  "ds_daisychains rig_plan = [\<lparr>lk_from = ''rack'', lk_plug = ''ac1'', lk_to = ''src'', lk_jack = ''ac''\<rparr>,
     \<lparr>lk_from = ''src'', lk_plug = ''out'', lk_to = ''sink'', lk_jack = ''in''\<rparr>]"
  "plan_load rig_factory rig_plan ''src'' = Some \<lparr>lu_unit = add_output ''out'' (unit_make Plain_Class UT_Step ''Source'' ''src''),
      lu_handlers = [(''trigger'', ''play'')], lu_leds = [(''on'', 1)], lu_led_utility = False\<rparr>"
  "plan_load rig_factory rig_plan ''sink'' = Some \<lparr>lu_unit = add_input 1 ''in'' (unit_make Plain_Class UT_Step ''Sink'' ''sink''),
      lu_handlers = [], lu_leds = [], lu_led_utility = False\<rparr>"
  by (simp_all add: plan_load_def plan_description_def rig_plan_def demo_desc_def rig_factory_def)

lemma rig_described:
  "plan_description rig_plan ''src'' = Some \<lparr>su_label = ''src'', su_unit = ''Source'', su_library = ''lib.so'', su_configs = [],
       su_bindings = [\<lparr>bd_name = ''trigger'', bd_module = ''pad'', bd_code = 60\<rparr>],
       su_leds = [\<lparr>ld_state = ''on'', ld_device = ''pad'', ld_mode = ''blink'', ld_code = 60, ld_value = 127\<rparr>]\<rparr>"
  "plan_description rig_plan ''sink'' = Some \<lparr>su_label = ''sink'', su_unit = ''Sink'', su_library = ''lib.so'', su_configs = [],
       su_bindings = [], su_leds = []\<rparr>"
  by (simp_all add: plan_description_def rig_plan_def)

lemma rig_units:
  "plan_unit rig_factory rig_plan n ''src'' = numbered n (add_output ''out'' (unit_make Plain_Class UT_Step ''Source'' ''src''))"
  "plan_unit rig_factory rig_plan n ''sink'' = numbered n (add_input 1 ''in'' (unit_make Plain_Class UT_Step ''Sink'' ''sink''))"
  by (simp_all add: plan_unit_def rig_loads rig_described configure_all_def)

lemma rig_plans:
  "plan_mounts rig_factory rig_plan (ds_daisychains rig_plan) = [''src'', ''sink'']"
  "plan_wires rig_factory rig_plan (ds_daisychains rig_plan) = [((0, 0), (1, 0))]"
  "plan_lines rig_factory rig_plan (ds_daisychains rig_plan) = [(''ac1'', 0)]"
  "plan_bindings rig_factory rig_plan [''src'', ''sink''] ''keys'' = []"
  "plan_bindings rig_factory rig_plan [''src'', ''sink''] ''pad'' = [(60, ''play'')]"
proof -
  have m: "plan_mounts rig_factory rig_plan [l] = [lk_to l]" if "plan_load rig_factory rig_plan (lk_to l) \<noteq> None" for l
    using that by (simp add: plan_mounts_def)
  show xs: "plan_mounts rig_factory rig_plan (ds_daisychains rig_plan) = [''src'', ''sink'']"
    by (simp add: plan_mounts_def rig_loads)
  have s: "slot [''src'', ''sink''] ''src'' = 0" "slot [''src'', ''sink''] ''sink'' = 1" "slot [''src''] ''src'' = 0"
    by (simp_all add: slot_def)
  have p: "has_output ''out'' (plan_unit rig_factory rig_plan 0 ''src'') = 0"
    "has_input ''in'' (plan_unit rig_factory rig_plan (Suc 0) ''sink'') = 0"
    by (simp_all add: rig_units numbered_def rig_defs has_output_def has_input_def)
  show "plan_wires rig_factory rig_plan (ds_daisychains rig_plan) = [((0, 0), (1, 0))]"
    using xs by (simp add: plan_wires_def along_def List.map_filter_simps rig_loads(1) plan_wire_def s p Let_def)
  have ml: "set (ds_mainlines rig_plan) = {''ac1''}" by (simp add: rig_plan_def demo_desc_def)
  show "plan_lines rig_factory rig_plan (ds_daisychains rig_plan) = [(''ac1'', 0)]"
    using xs by (simp add: plan_lines_def along_def List.map_filter_simps rig_loads plan_line_def m s
        ml)
  show "plan_bindings rig_factory rig_plan [''src'', ''sink''] ''keys'' = []"
    "plan_bindings rig_factory rig_plan [''src'', ''sink''] ''pad'' = [(60, ''play'')]"
    by (simp_all add: plan_bindings_def rig_loads bindings_of_def rig_described List.map_filter_simps)
qed

theorem setup_builds_witness:
  "\<exists>(s :: (unit, string, nat, string, unit ev_loop) sio_system) h.
     system_setup False demo_env [''rack.cfg'' \<mapsto> json_serialize demo_env True (desc_json rig_plan)] rig_driver rig_factory
       () ''rack.cfg'' 32 = Inr s
     \<and> rk_mounted (sy_rack s) ''sink'' = Some 1 \<and> rk_mounted (sy_rack s) ''organ'' = None
     \<and> lo_to (lk_outputs (rk_units (sy_rack s) ! 0) ! 0) = Some (1, 0)
     \<and> li_connected (lk_inputs (rk_units (sy_rack s) ! 1) ! 0)
     \<and> rk_raw_mainlines (sy_rack s) = [0] \<and> map_option q_size (sy_queue s) = Some 4
     \<and> sy_midi s = Some h \<and> map dv_bindings (mh_devices h) = [(\<lambda>_. None), [60 \<mapsto> ''play'']]"
proof -
  let ?files = "[''rack.cfg'' \<mapsto> json_serialize demo_env True (desc_json rig_plan)]"
  have f: "?files ''rack.cfg'' = Some (json_serialize demo_env True (desc_json rig_plan))" by simp
  have c: "ds_workers rig_plan = Some 4" "map (\<lambda>c. map_of (plan_bindings rig_factory rig_plan [''src'', ''sink''] (ct_label c)))
      (ds_controllers rig_plan) = [(\<lambda>_. None), [60 \<mapsto> ''play'']]"
    using rig_plans(4,5) by (simp_all add: rig_plan_def demo_desc_def)
  have w: "lo_to (lk_outputs (plan_units rig_factory rig_plan [''src'', ''sink''] [((0, 0), (1, 0))] ! 0) ! 0) = Some (1, 0)"
    "li_connected (lk_inputs (plan_units rig_factory rig_plan [''src'', ''sink''] [((0, 0), (1, 0))] ! 1) ! 0)"
    "slot [''src'', ''sink''] ''sink'' = 1"
    by (simp_all add: plan_units_def wire_up_def wire_out_def wire_in_def rig_units numbered_def rig_defs slot_def)
  obtain s :: "(unit, string, nat, string, unit ev_loop) sio_system" and h where
    r: "system_setup False demo_env ?files rig_driver rig_factory () ''rack.cfg'' 32 = Inr s" "sy_midi s = Some h"
      "rk_units (sy_rack s) = plan_units rig_factory rig_plan [''src'', ''sink''] [((0, 0), (1, 0))]"
      "rk_mounted (sy_rack s) = (\<lambda>x. if x \<in> set [''src'', ''sink''] then Some (slot [''src'', ''sink''] x) else None)"
      "rk_raw_mainlines (sy_rack s) = map snd [(''ac1'', 0)]" "map_option q_size (sy_queue s) = ds_workers rig_plan"
      "map dv_bindings (mh_devices h) = map (\<lambda>c. map_of (plan_bindings rig_factory rig_plan [''src'', ''sink''] (ct_label c)))
         (ds_controllers rig_plan)"
    using setup_builds [where E = demo_env and files = ?files and path = "''rack.cfg''" and prettify = True
        and d = rig_plan and moves = False and drv = rig_driver and user = "()" and cache_blocks = 32 and F = rig_factory
        and 't = string and 'l = unit, OF demo_good(1,2) rig_ok(1) f rig_ok(2,3)]
    unfolding Let_def rig_plans by blast
  show ?thesis
    by (rule exI [of _ s], rule exI [of _ h]) (use r(1,2,5) in \<open>simp add: r(3,4,6,7) c w [unfolded One_nat_def]\<close>)
qed

end
