(* ===== verification/Samples.thy ===== *)
theory Samples
  imports Cache_Ptr Linkable
begin

text \<open>
  Where samples are handled outside of the cache: the routines on interleaved channels
  (\<^verbatim>\<open>framework/routine/sound.cpp\<close>), the delay buffer (\<^verbatim>\<open>buffer/delay.cpp\<close>), and the hand-over of a block
  from one unit to the next (\<open>feed_out\<close> and \<open>fill_out\<close> of \<^verbatim>\<open>component/linkable.cpp\<close>, \<open>fill_line\<close> of
  \<^verbatim>\<open>component/unit.cpp\<close>).

  A raw pointer to samples is an optional list, null or the array from the pointer on; input and
  output do not overlap. A \<open>cache_ptr\<close> passed by value is destroyed at the end of the call, by an
  exception too.
\<close>

section \<open>Interleaved channels\<close>

fun deint_frames :: "nat \<Rightarrow> 'a list \<Rightarrow> nat list \<Rightarrow> nat \<Rightarrow> 'a list \<Rightarrow> 'a list result" where
  "deint_frames n ins [] block_index out = Inr out"
| "deint_frames n ins (sample # samples) block_index out =
     bind_res (arr_get ins block_index) (\<lambda>x.
     bind_res (arr_set out sample x) (\<lambda>out1.
     bind_res (arr_get ins (u32 (block_index + 1))) (\<lambda>y.
     bind_res (arr_set out1 (n + sample) y) (\<lambda>out2.
       deint_frames n ins samples (u32 (block_index + 2)) out2))))"

text \<open>Without frames nothing is read or written.\<close>

definition deinterleave2 :: "'a list option \<Rightarrow> 'a list option \<Rightarrow> nat \<Rightarrow> 'a list option result" where
  "deinterleave2 ins out num_frames =
     (if num_frames = 0 then Inr out
      else case (ins, out) of
        (Some xs, Some ys) \<Rightarrow> map_res Some (deint_frames num_frames xs [0..<num_frames] 0 ys)
      | _ \<Rightarrow> Inl Null_Deref)"

fun inter_frames :: "nat \<Rightarrow> 'a list \<Rightarrow> nat list \<Rightarrow> nat \<Rightarrow> 'a list \<Rightarrow> 'a list result" where
  "inter_frames n ins [] block_index out = Inr out"
| "inter_frames n ins (sample # samples) block_index out =
     bind_res (arr_get ins sample) (\<lambda>x.
     bind_res (arr_set out block_index x) (\<lambda>out1.
     bind_res (arr_get ins (n + sample)) (\<lambda>y.
     bind_res (arr_set out1 (u32 (block_index + 1)) y) (\<lambda>out2.
       inter_frames n ins samples (u32 (block_index + 2)) out2))))"

definition interleave2 :: "'a list option \<Rightarrow> 'a list option \<Rightarrow> nat \<Rightarrow> 'a list option result" where
  "interleave2 ins out num_frames =
     (case (ins, out) of
        (Some xs, Some ys) \<Rightarrow> map_res Some (inter_frames num_frames xs [0..<num_frames] 0 ys)
      | _ \<Rightarrow> Inl (Cache_Nullptr ''sound::routine::interleave''))"

text \<open>The array behind a handle, and the overloads that consume one.\<close>

definition handle_array :: "nat \<Rightarrow> cache_ptr \<Rightarrow> (nat \<Rightarrow> 'a) \<Rightarrow> 'a list" where
  "handle_array bs p mem = map (\<lambda>i. mem (cp_block p + i)) [0 ..< cp_num_blocks p * bs]"

definition consuming ::
    "(nat \<Rightarrow> 'c \<Rightarrow> 'c result) \<Rightarrow> cache_ptr \<Rightarrow> 'b result \<Rightarrow> 'c \<Rightarrow> ('b result \<times> 'c) result" where
  "consuming fr p r c = map_res (\<lambda>c'. (r, c')) (cptr_destroy fr p c)"

definition deinterleave2_ptr ::
    "(nat \<Rightarrow> 'c \<Rightarrow> 'c result) \<Rightarrow> nat \<Rightarrow> (nat \<Rightarrow> 'a) \<Rightarrow> cache_ptr \<Rightarrow> 'a list option \<Rightarrow> nat \<Rightarrow> 'c
      \<Rightarrow> ('a list option result \<times> 'c) result" where
  "deinterleave2_ptr fr bs mem p out num_frames c =
     consuming fr p
       (if \<not> cptr_bool p then Inl (Cache_Nullptr ''sound::routine::interleave'')
        else deinterleave2 (Some (handle_array bs p mem)) out num_frames) c"

definition interleave2_ptr ::
    "(nat \<Rightarrow> 'c \<Rightarrow> 'c result) \<Rightarrow> nat \<Rightarrow> (nat \<Rightarrow> 'a) \<Rightarrow> cache_ptr \<Rightarrow> 'a list option \<Rightarrow> nat \<Rightarrow> 'c
      \<Rightarrow> ('a list option result \<times> 'c) result" where
  "interleave2_ptr fr bs mem p out num_frames c =
     consuming fr p
       (if \<not> cptr_bool p then Inl (Cache_Nullptr ''sound::routine::interleave'')
        else interleave2 (Some (handle_array bs p mem)) out num_frames) c"

text \<open>\<open>sinewave_mono\<close>; the values of the wave are a parameter.\<close>

fun sine_loop :: "(nat \<Rightarrow> 'a) \<Rightarrow> nat list \<Rightarrow> 'a list \<Rightarrow> 'a list result" where
  "sine_loop wave [] out = Inr out"
| "sine_loop wave (x # xs) out = bind_res (arr_set out x (wave x)) (sine_loop wave xs)"

definition sinewave_mono :: "(nat \<Rightarrow> nat \<Rightarrow> nat \<Rightarrow> 'a) \<Rightarrow> 'a list \<Rightarrow> nat \<Rightarrow> nat \<Rightarrow> nat \<Rightarrow> 'a list result" where
  "sinewave_mono wave out fc fs num_samples = sine_loop (wave fc fs) [0..<num_samples] out"

section \<open>What the routines compute\<close>

lemma u32_next: "m < n \<Longrightarrow> n < 2147483648 \<Longrightarrow>
    u32 (Suc (2 * m)) = Suc (2 * m) \<and> u32 (Suc (Suc (2 * m))) = Suc (Suc (2 * m))"
  by (simp add: u32_def)

definition split_channels :: "nat \<Rightarrow> 'a list \<Rightarrow> 'a list" where
  "split_channels n xs = map (\<lambda>i. xs ! (2 * i)) [0..<n] @ map (\<lambda>i. xs ! (2 * i + 1)) [0..<n]"

definition join_channels :: "nat \<Rightarrow> 'a list \<Rightarrow> 'a list" where
  "join_channels n xs = concat (map (\<lambda>i. [xs ! i, xs ! (n + i)]) [0..<n])"

lemma deint_from:
  assumes "n < 2147483648" and "2 * n \<le> length xs" and "m \<le> n"
  shows "2 * n \<le> length out \<Longrightarrow> \<exists>ys. deint_frames n xs [m..<n] (2 * m) out = Inr ys \<and> length ys = length out
    \<and> (\<forall>i < length out. ys ! i = (if m \<le> i \<and> i < n then xs ! (2 * i)
         else if n + m \<le> i \<and> i < 2 * n then xs ! (2 * (i - n) + 1) else out ! i))"
  using assms(3)
proof (induction m arbitrary: out rule: inc_induct)
  case base
  then show ?case by auto
next
  case (step m)
  let ?o = "out[m := xs ! (2 * m), n + m := xs ! (2 * m + 1)]"
  have lt: "2 * m + 1 < length xs" "n + m < length out" "m < length out"
    using step.hyps step.prems assms(2) by simp_all
  have "deint_frames n xs [m..<n] (2 * m) out = deint_frames n xs [Suc m..<n] (2 * Suc m) ?o"
    using lt step.hyps assms(1) by (simp add: upt_conv_Cons u32_next [of m n])
  moreover obtain ys where ys: "deint_frames n xs [Suc m..<n] (2 * Suc m) ?o = Inr ys" "length ys = length ?o"
    "\<forall>i < length ?o. ys ! i = (if Suc m \<le> i \<and> i < n then xs ! (2 * i)
         else if n + Suc m \<le> i \<and> i < 2 * n then xs ! (2 * (i - n) + 1) else ?o ! i)"
    using step.IH [of ?o] step.prems by auto
  moreover have "ys ! i = (if m \<le> i \<and> i < n then xs ! (2 * i)
         else if n + m \<le> i \<and> i < 2 * n then xs ! (2 * (i - n) + 1) else out ! i)" if "i < length out" for i
  proof -
    have "i = m \<or> i = n + m \<or> i \<noteq> m \<and> i \<noteq> n + m" by blast
    then consider "i = m" | "i = n + m" | "i \<noteq> m" "i \<noteq> n + m" by blast
    then show ?thesis using ys(3) that step.hyps lt by cases (auto simp: le_Suc_eq Suc_le_eq)
  qed
  ultimately show ?case by auto
qed

lemma inter_from:
  assumes "n < 2147483648" and "2 * n \<le> length xs" and "m \<le> n"
  shows "2 * n \<le> length out \<Longrightarrow> \<exists>ys. inter_frames n xs [m..<n] (2 * m) out = Inr ys \<and> length ys = length out
    \<and> (\<forall>i < length out. ys ! i = (if 2 * m \<le> i \<and> i < 2 * n
         then (if even i then xs ! (i div 2) else xs ! (n + i div 2)) else out ! i))"
  using assms(3)
proof (induction m arbitrary: out rule: inc_induct)
  case base
  then show ?case by auto
next
  case (step m)
  let ?o = "out[2 * m := xs ! m, 2 * m + 1 := xs ! (n + m)]"
  have lt: "n + m < length xs" "m < length xs" "2 * m + 1 < length out" "2 * m < length out"
    using step.hyps step.prems assms(2) by simp_all
  have "inter_frames n xs [m..<n] (2 * m) out = inter_frames n xs [Suc m..<n] (2 * Suc m) ?o"
    using lt step.hyps assms(1) by (simp add: upt_conv_Cons u32_next [of m n])
  moreover obtain ys where ys: "inter_frames n xs [Suc m..<n] (2 * Suc m) ?o = Inr ys" "length ys = length ?o"
    "\<forall>i < length ?o. ys ! i = (if 2 * Suc m \<le> i \<and> i < 2 * n
         then (if even i then xs ! (i div 2) else xs ! (n + i div 2)) else ?o ! i)"
    using step.IH [of ?o] step.prems by auto
  moreover have "ys ! i = (if 2 * m \<le> i \<and> i < 2 * n
         then (if even i then xs ! (i div 2) else xs ! (n + i div 2)) else out ! i)" if "i < length out" for i
  proof -
    have "i = 2 * m \<or> i = 2 * m + 1 \<or> i < 2 * m \<or> 2 * Suc m \<le> i" by presburger
    then consider "i = 2 * m" | "i = 2 * m + 1" | "i < 2 * m" | "2 * Suc m \<le> i" by blast
    then show ?thesis using ys(3) that step.hyps lt by cases auto
  qed
  ultimately show ?case by auto
qed

lemma deint_all:
  assumes "n < 2147483648" and "2 * n \<le> length xs" and "length out = 2 * n"
  shows "deint_frames n xs [0..<n] 0 out = Inr (split_channels n xs)"
proof -
  obtain ys where ys: "deint_frames n xs [0..<n] (2 * 0) out = Inr ys" "length ys = length out"
    "\<forall>i < length out. ys ! i = (if 0 \<le> i \<and> i < n then xs ! (2 * i)
         else if n + 0 \<le> i \<and> i < 2 * n then xs ! (2 * (i - n) + 1) else out ! i)"
    using deint_from [OF assms(1,2), of 0 out] assms(3) by auto
  then have "ys = split_channels n xs"
    using assms(3) by (intro nth_equalityI) (auto simp: split_channels_def nth_append)
  then show ?thesis using ys(1) by simp
qed

lemma join_length [simp]: "length (join_channels n xs) = 2 * n"
  by (simp add: join_channels_def length_concat comp_def sum_list_triv)

lemma join_nth: "i < 2 * n \<Longrightarrow> join_channels n xs ! i = (if even i then xs ! (i div 2) else xs ! (n + i div 2))"
proof -
  have "i < 2 * m \<Longrightarrow> concat (map (\<lambda>i. [xs ! i, xs ! (n + i)]) [0..<m]) ! i
      = (if even i then xs ! (i div 2) else xs ! (n + i div 2))" for m
  proof (induction m)
    case (Suc m)
    have len: "length (concat (map (\<lambda>i. [xs ! i, xs ! (n + i)]) [0..<m])) = 2 * m"
      by (simp add: length_concat comp_def sum_list_triv)
    have "i < 2 * m \<or> i = 2 * m \<or> i = 2 * m + 1" using Suc.prems by presburger
    then consider "i < 2 * m" | "i = 2 * m" | "i = 2 * m + 1" by blast
    then show ?case using Suc.IH len by cases (auto simp: nth_append)
  qed simp
  then show "i < 2 * n \<Longrightarrow> ?thesis" by (simp add: join_channels_def)
qed

lemma inter_all:
  assumes "n < 2147483648" and "2 * n \<le> length xs" and "length out = 2 * n"
  shows "inter_frames n xs [0..<n] 0 out = Inr (join_channels n xs)"
proof -
  obtain ys where ys: "inter_frames n xs [0..<n] (2 * 0) out = Inr ys" "length ys = length out"
    "\<forall>i < length out. ys ! i = (if 2 * 0 \<le> i \<and> i < 2 * n
         then (if even i then xs ! (i div 2) else xs ! (n + i div 2)) else out ! i)"
    using inter_from [OF assms(1,2), of 0 out] assms(3) by auto
  then have "ys = join_channels n xs"
    using assms(3) by (intro nth_equalityI) (auto simp: join_nth)
  then show ?thesis using ys(1) by simp
qed

lemma split_length [simp]: "length (split_channels n xs) = 2 * n"
  by (simp add: split_channels_def)

lemma join_split: "length xs = 2 * n \<Longrightarrow> join_channels n (split_channels n xs) = xs"
proof (intro nth_equalityI)
  fix i assume l: "length xs = 2 * n" "i < length (join_channels n (split_channels n xs))"
  then have "i div 2 < n" by simp
  moreover have "even i \<Longrightarrow> 2 * (i div 2) = i" "odd i \<Longrightarrow> 2 * (i div 2) + 1 = i" by simp_all
  ultimately show "join_channels n (split_channels n xs) ! i = xs ! i"
    using l by (auto simp: join_nth split_channels_def nth_append)
qed simp

lemma split_join: "length xs = 2 * n \<Longrightarrow> split_channels n (join_channels n xs) = xs"
  by (intro nth_equalityI) (auto simp: split_channels_def nth_append join_nth)

text \<open>Within too short an array the routines run over its end.\<close>

lemma deint_error: "deint_frames n xs ss b out = Inl e \<Longrightarrow> e = Out_Of_Bounds"
  by (induction n xs ss b out rule: deint_frames.induct)
     (auto simp: bind_res_eq_Inl arr_get_def arr_set_def split: if_splits)

lemma inter_error: "inter_frames n xs ss b out = Inl e \<Longrightarrow> e = Out_Of_Bounds"
  by (induction n xs ss b out rule: inter_frames.induct)
     (auto simp: bind_res_eq_Inl arr_get_def arr_set_def split: if_splits)

lemma deint_fits:
  assumes "n < 2147483648" and "m < n"
  shows "deint_frames n xs [m..<n] (2 * m) out = Inr ys \<Longrightarrow> 2 * n \<le> length xs \<and> 2 * n \<le> length out"
  using less_imp_le [OF assms(2)] assms(2)
proof (induction m arbitrary: out rule: inc_induct)
  case (step m)
  then have "2 * m + 1 < length xs" "n + m < length out"
    "deint_frames n xs [Suc m..<n] (2 * Suc m) (out[m := xs ! (2 * m), n + m := xs ! (2 * m + 1)]) = Inr ys"
    using assms(1)
    by (auto simp: upt_conv_Cons u32_next [of m n] bind_res_eq_Inr arr_get_def arr_set_def split: if_splits)
  then show ?case using step.IH [of "out[m := xs ! (2 * m), n + m := xs ! (2 * m + 1)]"] step.hyps
    by (cases "Suc m = n") auto
qed simp

lemma inter_fits:
  assumes "n < 2147483648" and "m < n"
  shows "inter_frames n xs [m..<n] (2 * m) out = Inr ys \<Longrightarrow> 2 * n \<le> length xs \<and> 2 * n \<le> length out"
  using less_imp_le [OF assms(2)] assms(2)
proof (induction m arbitrary: out rule: inc_induct)
  case (step m)
  then have "n + m < length xs" "2 * m + 1 < length out"
    "inter_frames n xs [Suc m..<n] (2 * Suc m) (out[2 * m := xs ! m, 2 * m + 1 := xs ! (n + m)]) = Inr ys"
    using assms(1)
    by (auto simp: upt_conv_Cons u32_next [of m n] bind_res_eq_Inr arr_get_def arr_set_def split: if_splits)
  then show ?case using step.IH [of "out[2 * m := xs ! m, 2 * m + 1 := xs ! (n + m)]"] step.hyps
    by (cases "Suc m = n") auto
qed simp

section \<open>The delay buffer\<close>

datatype delay_state = Delay_Ok | Delay_Wait

text \<open>\<open>m_size\<close> is 0 and \<open>m_buffer\<close> null in every constructed object, and no method changes them.\<close>

record 'a delay =
  dl_size :: nat
  dl_load :: nat
  dl_blocks :: nat
  dl_buffer :: "'a list option"

definition delay_make :: "int \<Rightarrow> 'a delay" where
  "delay_make num_blocks = \<lparr>dl_size = 0, dl_load = 0, dl_blocks = uint_of num_blocks, dl_buffer = None\<rparr>"

definition delay_load :: "'a delay \<Rightarrow> nat" where
  "delay_load d = dl_load d"

text \<open>\<open>supply\<close> releases the block it is given and never frees it.\<close>

definition delay_supply :: "nat \<Rightarrow> (nat \<Rightarrow> 'a) \<Rightarrow> cache_ptr \<Rightarrow> 'a delay \<Rightarrow> (delay_state \<times> 'a delay) result" where
  "delay_supply bs mem samples d =
     (let num = u32 (cptr_block_size bs samples * cp_num_blocks samples);
          ptr = fst (cptr_release samples);
          d' = d\<lparr>dl_load := u32 (dl_load d + num)\<rparr>
      in if num = 0 then Inr (Delay_Ok, d')
         else if ptr = 0 then Inl Null_Deref
         else case dl_buffer d of
           None \<Rightarrow> Inl Null_Deref
         | Some buf \<Rightarrow>
             if length buf < dl_load d + num then Inl Out_Of_Bounds
             else Inr (Delay_Ok, d'\<lparr>dl_buffer := Some (take (dl_load d) buf @ map (\<lambda>i. mem (ptr + i)) [0..<num]
                    @ drop (dl_load d + num) buf)\<rparr>))"

definition delay_flush_raw :: "'a delay \<Rightarrow> 'a list option \<times> 'a delay" where
  "delay_flush_raw d = (dl_buffer d, d\<lparr>dl_load := 0\<rparr>)"

definition delay_has_capacity :: "int \<Rightarrow> 'a delay \<Rightarrow> delay_state" where
  "delay_has_capacity num_samples d =
     (if u32 (dl_load d + uint_of num_samples) > dl_size d then Delay_Wait else Delay_Ok)"

text \<open>A program that uses a delay buffer.\<close>

datatype delay_op = Dl_Supply cache_ptr | Dl_Flush

fun delay_run :: "nat \<Rightarrow> (nat \<Rightarrow> 'a) \<Rightarrow> delay_op list \<Rightarrow> 'a delay \<Rightarrow> 'a delay result" where
  "delay_run bs mem [] d = Inr d"
| "delay_run bs mem (Dl_Supply p # ops) d =
     bind_res (delay_supply bs mem p d) (\<lambda>(_, d'). delay_run bs mem ops d')"
| "delay_run bs mem (Dl_Flush # ops) d = delay_run bs mem ops (snd (delay_flush_raw d))"

lemma delay_stays_empty:
  "dl_size d = 0 \<Longrightarrow> dl_load d = 0 \<Longrightarrow> dl_buffer d = None \<Longrightarrow> delay_run bs mem ops d = Inr d' \<Longrightarrow>
     dl_size d' = 0 \<and> dl_load d' = 0 \<and> dl_buffer d' = None"
proof (induction ops arbitrary: d)
  case (Cons op ops)
  then have "delay_run bs mem ops (d\<lparr>dl_load := 0\<rparr>) = Inr d'"
    by (cases op) (auto simp: bind_res_eq_Inr delay_supply_def Let_def u32_def delay_flush_raw_def split: if_splits)
  then show ?case using Cons.IH [of "d\<lparr>dl_load := 0\<rparr>"] Cons.prems by simp
qed simp

section \<open>From unit to unit\<close>

text \<open>Calls of \<open>feed_line\<close> and \<open>fill_line\<close> are values: the unit, the line and the block it is given.\<close>

type_synonym line_call = "nat \<times> nat \<times> cache_ptr"

definition target_line :: "'a linkable_scheme list \<Rightarrow> nat \<times> nat \<Rightarrow> nat" where
  "target_line st to = li_id (lk_inputs (st ! fst to) ! snd to)"

definition feed_out ::
    "(nat \<Rightarrow> 'c \<Rightarrow> 'c result) \<Rightarrow> 'a linkable_scheme list \<Rightarrow> nat \<Rightarrow> cache_ptr \<Rightarrow> int \<Rightarrow> 'c
      \<Rightarrow> (bool \<times> line_call option \<times> 'c) result" where
  "feed_out fr st u samples i c =
     (if lk_num_outputs (st ! u) \<le> uint_of i
      then map_res (\<lambda>c'. (False, None, c')) (cptr_destroy fr samples c)
      else bind_res (arr_get (lk_outputs (st ! u)) (nat i)) (\<lambda>out.
        if \<not> lo_connected out then map_res (\<lambda>c'. (False, None, c')) (cptr_destroy fr samples c)
        else case lo_to out of
          None \<Rightarrow> Inl Null_Deref
        | Some to \<Rightarrow>
            let samples1 = cptr_set_owner (rg_handle (st ! fst to)) samples;
                (arg, samples2) = cptr_move samples1
            in map_res (\<lambda>c'. (True, Some (fst to, target_line st to, arg), c')) (cptr_destroy fr samples2 c)))"

definition fill_out ::
    "(nat \<Rightarrow> 'c \<Rightarrow> 'c result) \<Rightarrow> 'a linkable_scheme list \<Rightarrow> nat \<Rightarrow> cache_ptr \<Rightarrow> int \<Rightarrow> 'c
      \<Rightarrow> (bool \<times> line_call option \<times> 'c) result" where
  "fill_out fr st u samples i c =
     (if lk_num_outputs (st ! u) \<le> uint_of i
      then map_res (\<lambda>c'. (False, None, c')) (cptr_destroy fr samples c)
      else bind_res (arr_get (lk_outputs (st ! u)) (nat i)) (\<lambda>out.
        if \<not> lo_connected out then map_res (\<lambda>c'. (False, None, c')) (cptr_destroy fr samples c)
        else case lo_to out of
          None \<Rightarrow> Inl Null_Deref
        | Some to \<Rightarrow>
            let (arg, samples2) = cptr_move samples
            in map_res (\<lambda>c'. (True, Some (fst to, target_line st to, arg), c')) (cptr_destroy fr samples2 c)))"

text \<open>The \<open>fill_line\<close> of a unit that does not override it, in the loop over its outputs.\<close>

fun fill_outputs ::
    "'a linkable_scheme list \<Rightarrow> cache_ptr \<Rightarrow> link_out list \<Rightarrow> (line_call list \<times> cache_ptr) result" where
  "fill_outputs st samples [] = Inr ([], samples)"
| "fill_outputs st samples (out # outs) =
     (if \<not> lo_connected out then fill_outputs st samples outs
      else case lo_to out of
        None \<Rightarrow> Inl Null_Deref
      | Some to \<Rightarrow>
          if li_unit (lk_inputs (st ! fst to) ! snd to) = None then fill_outputs st samples outs
          else let (arg, rest) = cptr_move samples
               in map_res (\<lambda>(calls, r). ((fst to, target_line st to, arg) # calls, r)) (fill_outputs st rest outs))"

definition fill_line ::
    "(nat \<Rightarrow> 'c \<Rightarrow> 'c result) \<Rightarrow> 'a linkable_scheme list \<Rightarrow> nat \<Rightarrow> cache_ptr \<Rightarrow> 'c \<Rightarrow> (line_call list \<times> 'c) result" where
  "fill_line fr st u samples c =
     bind_res (fill_outputs st samples (lk_outputs (st ! u))) (\<lambda>(calls, rest).
       map_res (\<lambda>c'. (calls, c')) (cptr_destroy fr rest c))"

lemma moved_destroy: "cptr_destroy fr (snd (cptr_move p)) c = Inr c"
  by (simp add: cptr_destroy_def cptr_move_def)

lemma destroy_live:
  assumes "cache_inv c" and "cp_cache p" and "cache_live c (cp_block p) = Some k" and "cache_freeable c (cp_block p)"
  shows "\<exists>c'. cptr_destroy free_raw p c = Inr c' \<and> cache_inv c' \<and> cache_live c' = (cache_live c)(cp_block p := None)"
proof -
  have "cp_block p \<noteq> 0"
  proof
    assume "cp_block p = 0"
    then show False using cache.null_dead [OF assms(1)] assms(3) by simp
  qed
  then show ?thesis using cache.free_some [OF assms(1,3,4)] assms(2) by (simp add: cptr_destroy_def)
qed

section \<open>Properties\<close>

text \<open>C36. The routines on two channels are inverse to each other: on arrays of exactly two samples per frame
  \<open>deinterleave2\<close> gives the samples at even places, then those at odd places, and
  \<open>interleave2\<close> makes the original of it, and the other way round.\<close>

theorem sound_roundtrip:
  assumes "0 < n" and "n < 2147483648" and "length xs = 2 * n" and "length out1 = 2 * n" and "length out2 = 2 * n"
  shows "deinterleave2 (Some xs) (Some out1) n
      = Inr (Some (map (\<lambda>i. xs ! (2 * i)) [0..<n] @ map (\<lambda>i. xs ! (2 * i + 1)) [0..<n]))
    \<and> bind_res (deinterleave2 (Some xs) (Some out1) n) (\<lambda>ys. interleave2 ys (Some out2) n) = Inr (Some xs)
    \<and> bind_res (interleave2 (Some xs) (Some out1) n) (\<lambda>ys. deinterleave2 ys (Some out2) n) = Inr (Some xs)"
  using assms
  by (simp add: deinterleave2_def interleave2_def deint_all inter_all join_split split_join)
     (simp add: split_channels_def)

theorem sound_roundtrip_witness:
  "deinterleave2 (Some [1, 2, 3, 4, 5, 6 :: int]) (Some [0, 0, 0, 0, 0, 0]) 3 = Inr (Some [1, 3, 5, 2, 4, 6])
   \<and> interleave2 (Some [1, 3, 5, 2, 4, 6 :: int]) (Some [0, 0, 0, 0, 0, 0]) 3 = Inr (Some [1, 2, 3, 4, 5, 6])"
proof -
  let ?xs = "[1, 2, 3, 4, 5, 6 :: int]" and ?o = "[0, 0, 0, 0, 0, 0 :: int]"
  have d: "deinterleave2 (Some ?xs) (Some ?o) 3 = Inr (Some [1, 3, 5, 2, 4, 6])"
    using sound_roundtrip [of 3 ?xs ?o ?o] by (simp add: upt_rec)
  have "bind_res (deinterleave2 (Some ?xs) (Some ?o) 3) (\<lambda>ys. interleave2 ys (Some ?o) 3) = Inr (Some ?xs)"
    using sound_roundtrip [of 3 ?xs ?o ?o] by fastforce
  then show ?thesis unfolding d by simp
qed

text \<open>C37. The routines stay within their arrays exactly when both have two samples per frame; in a shorter one
  they run over the end.\<close>

theorem sound_in_bounds:
  assumes "0 < n" and "n < 2147483648"
  shows "(deinterleave2 (Some xs) (Some out) n = Inl Out_Of_Bounds \<longleftrightarrow> length xs < 2 * n \<or> length out < 2 * n)
    \<and> (interleave2 (Some xs) (Some out) n = Inl Out_Of_Bounds \<longleftrightarrow> length xs < 2 * n \<or> length out < 2 * n)"
proof -
  have "(\<exists>ys. deint_frames n xs [0..<n] 0 out = Inr ys) \<longleftrightarrow> 2 * n \<le> length xs \<and> 2 * n \<le> length out"
    using deint_fits [OF assms(2,1), of xs out] deint_from [OF assms(2), of xs 0 out] by auto
  then have d: "deint_frames n xs [0..<n] 0 out = Inl Out_Of_Bounds \<longleftrightarrow> length xs < 2 * n \<or> length out < 2 * n"
    using deint_error [of n xs "[0..<n]" 0 out] by (cases "deint_frames n xs [0..<n] 0 out") auto
  have "(\<exists>ys. inter_frames n xs [0..<n] 0 out = Inr ys) \<longleftrightarrow> 2 * n \<le> length xs \<and> 2 * n \<le> length out"
    using inter_fits [OF assms(2,1), of xs out] inter_from [OF assms(2), of xs 0 out] by auto
  then have "inter_frames n xs [0..<n] 0 out = Inl Out_Of_Bounds \<longleftrightarrow> length xs < 2 * n \<or> length out < 2 * n"
    using inter_error [of n xs "[0..<n]" 0 out] by (cases "inter_frames n xs [0..<n] 0 out") auto
  with d show ?thesis using assms(1) by (simp add: deinterleave2_def interleave2_def map_res_def bind_res_eq_Inl)
qed

theorem sound_in_bounds_witness:
  "interleave2 (Some [1, 2, 3, 4 :: int]) (Some [0, 0, 0]) 2 = Inl Out_Of_Bounds"
  using sound_in_bounds [of 2 "[1, 2, 3, 4 :: int]" "[0, 0, 0]"] by simp

text \<open>Handing a block on neither loses nor duplicates it: when output \<open>i\<close> of a unit is connected,
  \<open>feed_out\<close> calls the unit at the other end with the block, now owned by that unit, and leaves the
  cache alone; otherwise it returns false and the block is free again.\<close>

theorem feed_out_hands_over:
  assumes "links_wf st" and "u < length st" and "cache_inv c" and "cp_cache p"
    and "cache_live c (cp_block p) = Some k" and "cache_freeable c (cp_block p)"
    and "-2147483648 \<le> i" and "i < 2147483648"
  shows "\<exists>b call c'. feed_out free_raw st u p i c = Inr (b, call, c') \<and> cache_inv c'
    \<and> (if uint_of i < length (lk_outputs (st ! u)) \<and> lo_connected (lk_outputs (st ! u) ! nat i)
       then \<exists>v j q. lo_to (lk_outputs (st ! u) ! nat i) = Some (v, j) \<and> b \<and> call = Some (v, j, q)
          \<and> cp_block q = cp_block p \<and> cp_num_blocks q = cp_num_blocks p \<and> cp_owner q = rg_handle (st ! v) \<and> c' = c
       else \<not> b \<and> call = None \<and> cache_live c' = (cache_live c)(cp_block p := None))"
proof -
  let ?outs = "lk_outputs (st ! u)"
  note num = links_wfD(2) [OF assms(1,2)]
  obtain c1 where c1: "cptr_destroy free_raw p c = Inr c1" "cache_inv c1"
    "cache_live c1 = (cache_live c)(cp_block p := None)"
    using destroy_live [OF assms(3-6)] by blast
  have lt: "nat i < length ?outs" if "uint_of i < length ?outs"
    using that assms(7,8) by (cases "0 \<le> i") (auto simp: uint_of_def)
  show ?thesis
  proof (cases "uint_of i < length ?outs \<and> lo_connected (?outs ! nat i)")
    case True
    then obtain v j where to: "lo_to (?outs ! nat i) = Some (v, j)" "v < length st" "j < length (lk_inputs (st ! v))"
      using links_wfD(5,6) [OF assms(1,2) lt] by fastforce
    have "li_id (lk_inputs (st ! v) ! j) = j" using links_wfD(3) [OF assms(1) to(2,3)] by simp
    then show ?thesis
      using True to lt num assms(3)
      by (auto simp: feed_out_def cptr_move_def cptr_destroy_def cptr_set_owner_def target_line_def)
  next
    case False
    then show ?thesis using c1 lt num by (auto simp: feed_out_def)
  qed
qed

text \<open>A connected pair of units and a cache with an allocation of two blocks.\<close>

definition demo_connected :: "linkable list" where
  "demo_connected = upd_input 1 0 (\<lambda>l. l\<lparr>li_connected := True\<rparr>)
     (upd_output 0 1 (\<lambda>l. l\<lparr>lo_to := Some (1, 0), lo_connected := True\<rparr>) demo_links)"

lemma demo_connected_facts:
  "links_wf demo_connected" "length demo_connected = 2" "length (lk_outputs (demo_connected ! 0)) = 2"
  "lo_connected (lk_outputs (demo_connected ! 0) ! 1)" "\<not> lo_connected (lk_outputs (demo_connected ! 0) ! 0)"
proof -
  show "links_wf demo_connected"
  proof (rule connect_step [OF demo_links_wf(1), of 0 1 1 0])
    show "0 < length (lk_inputs (demo_links ! 1))" by (simp only: demo_links_wf)
  qed (use demo_links_wf in \<open>simp_all add: demo_connected_def\<close>)
qed (simp_all add: demo_connected_def demo_links_def upd_nth_def upd_input_def upd_output_def add_output_def add_input_def
    linkable_make_def registrable.defs linkable.defs registrable_make_def)

definition demo_block :: cache_ptr where
  "demo_block = cache_ptr_make 100 2 True 1"

lemma demo_block_live:
  "cache_inv (demo_cache [(True, 2), (False, 2)])" "cp_cache demo_block"
  "cache_live (demo_cache [(True, 2), (False, 2)]) (cp_block demo_block) = Some 2"
  "cache_freeable (demo_cache [(True, 2), (False, 2)]) (cp_block demo_block)"
  using demo_cache_facts [of "[(True, 2), (False, 2)]"]
  by (simp_all add: demo_block_def cache_ptr_make_def cache_live_def cache_freeable_def)

theorem feed_out_hands_over_witness:
  "\<exists>q c'. feed_out free_raw demo_connected 0 demo_block 1 (demo_cache [(True, 2), (False, 2)])
      = Inr (True, Some (1, 0, q), demo_cache [(True, 2), (False, 2)]) \<and> cp_block q = 100
    \<and> feed_out free_raw demo_connected 0 demo_block 0 (demo_cache [(True, 2), (False, 2)]) = Inr (False, None, c')
    \<and> cache_live c' 100 = None"
proof -
  note h = feed_out_hands_over [OF demo_connected_facts(1) _ demo_block_live, of 0]
  have u: "uint_of 1 = 1" "uint_of 0 = 0" by (simp_all add: uint_of_def)
  have b: "cp_block demo_block = 100" by (simp add: demo_block_def cache_ptr_make_def)
  have to: "lo_to (lk_outputs (demo_connected ! 0) ! 1) = Some (1, 0)"
    by (simp add: demo_connected_def demo_links_def upd_nth_def upd_input_def upd_output_def add_output_def add_input_def
        linkable_make_def registrable.defs linkable.defs registrable_make_def)
  show ?thesis using h [of 1] h [of 0] demo_connected_facts(2-5) u b to by auto
qed

text \<open>Where a unit does not override it, \<open>fill_line\<close> gives the block to the first connected output only.\<close>

lemma fill_outputs_calls:
  assumes "\<forall>out \<in> set outs. lo_connected out \<longrightarrow>
      (\<exists>v j. lo_to out = Some (v, j) \<and> li_unit (lk_inputs (st ! v) ! j) \<noteq> None \<and> li_id (lk_inputs (st ! v) ! j) = j)"
  shows "\<exists>calls rest. fill_outputs st p outs = Inr (calls, rest)
    \<and> map (\<lambda>(v, j, q). Some (v, j)) calls = map lo_to (filter lo_connected outs)
    \<and> (cp_block p = 0 \<longrightarrow> cp_block rest = 0 \<and> (\<forall>(v, j, q) \<in> set calls. cp_block q = 0))
    \<and> (case calls of [] \<Rightarrow> rest = p
       | (v, j, q) # more_calls \<Rightarrow> cp_block q = cp_block p \<and> cp_block rest = 0 \<and> (\<forall>(v, j, q) \<in> set more_calls. cp_block q = 0))"
  using assms
proof (induction outs arbitrary: p)
  case (Cons out outs)
  show ?case
  proof (cases "lo_connected out")
    case True
    then obtain v j where to: "lo_to out = Some (v, j)" "li_unit (lk_inputs (st ! v) ! j) \<noteq> None"
      "li_id (lk_inputs (st ! v) ! j) = j" using Cons.prems by auto
    obtain calls rest where ih: "fill_outputs st (snd (cptr_move p)) outs = Inr (calls, rest)"
      "map (\<lambda>(v, j, q). Some (v, j)) calls = map lo_to (filter lo_connected outs)"
      "cp_block rest = 0" "\<forall>(v, j, q) \<in> set calls. cp_block q = 0"
      using Cons.IH [of "snd (cptr_move p)"] Cons.prems by (auto simp: cptr_move_def)
    have "fill_outputs st p (out # outs) = Inr ((v, j, fst (cptr_move p)) # calls, rest)"
      using True to ih(1) by (auto simp: target_line_def split: prod.splits)
    then show ?thesis using True to ih by (auto simp: cptr_move_def)
  next
    case False
    then show ?thesis using Cons.IH [of p] Cons.prems by auto
  qed
qed auto

text \<open>The first connected output gets the block, the units behind the others are called with a null
  handle; without a connected output the block is freed.\<close>

theorem fill_line_first_only:
  assumes "links_wf st" and "u < length st" and "cache_inv c" and "cp_cache p"
    and "cache_live c (cp_block p) = Some k" and "cache_freeable c (cp_block p)"
  shows "\<exists>calls c'. fill_line free_raw st u p c = Inr (calls, c')
    \<and> map (\<lambda>(v, j, q). Some (v, j)) calls = map lo_to (filter lo_connected (lk_outputs (st ! u)))
    \<and> (case calls of [] \<Rightarrow> cache_live c' = (cache_live c)(cp_block p := None)
       | (v, j, q) # more_calls \<Rightarrow> cp_block q = cp_block p \<and> (\<forall>(v, j, q) \<in> set more_calls. cp_block q = 0) \<and> c' = c)"
proof -
  have "\<exists>v j. lo_to out = Some (v, j) \<and> li_unit (lk_inputs (st ! v) ! j) \<noteq> None \<and> li_id (lk_inputs (st ! v) ! j) = j"
    if out: "out \<in> set (lk_outputs (st ! u))" "lo_connected out" for out
  proof -
    obtain m where m: "m < length (lk_outputs (st ! u))" "out = lk_outputs (st ! u) ! m"
      using out(1) by (metis in_set_conv_nth)
    then obtain v j where to: "lo_to out = Some (v, j)" "v < length st" "j < length (lk_inputs (st ! v))"
      using links_wfD(5,6) [OF assms(1,2) m(1)] out(2) by fastforce
    then show ?thesis using links_wfD(3) [OF assms(1) to(2,3)] by simp
  qed
  then obtain calls rest where f: "fill_outputs st p (lk_outputs (st ! u)) = Inr (calls, rest)"
    "map (\<lambda>(v, j, q). Some (v, j)) calls = map lo_to (filter lo_connected (lk_outputs (st ! u)))"
    "case calls of [] \<Rightarrow> rest = p
       | (v, j, q) # more_calls \<Rightarrow> cp_block q = cp_block p \<and> cp_block rest = 0 \<and> (\<forall>(v, j, q) \<in> set more_calls. cp_block q = 0)"
    using fill_outputs_calls [of "lk_outputs (st ! u)" st p] by blast
  obtain c1 where c1: "cptr_destroy free_raw p c = Inr c1" "cache_live c1 = (cache_live c)(cp_block p := None)"
    using destroy_live [OF assms(3-6)] by blast
  show ?thesis
  proof (cases calls)
    case Nil
    then show ?thesis using f c1 by (simp add: fill_line_def)
  next
    case (Cons call more_calls)
    then show ?thesis using f by (auto simp: fill_line_def cptr_destroy_def)
  qed
qed

theorem fill_line_first_only_witness:
  "\<exists>q c'. fill_line free_raw demo_connected 0 demo_block (demo_cache [(True, 2), (False, 2)]) = Inr ([(1, 0, q)], c')
    \<and> cp_block q = 100"
proof -
  have b: "cp_block demo_block = 100" by (simp add: demo_block_def cache_ptr_make_def)
  have to: "map lo_to (filter lo_connected (lk_outputs (demo_connected ! 0))) = [Some (1, 0)]"
    by (simp add: demo_connected_def demo_links_def upd_nth_def upd_input_def upd_output_def add_output_def add_input_def
        linkable_make_def registrable.defs linkable.defs registrable_make_def)
  have "0 < length demo_connected" using demo_connected_facts(2) by simp
  from fill_line_first_only [OF demo_connected_facts(1) this demo_block_live, unfolded to b]
  obtain calls c' where f: "fill_line free_raw demo_connected 0 demo_block (demo_cache [(True, 2), (False, 2)]) = Inr (calls, c')"
    "map (\<lambda>(v, j, q). Some (v, j)) calls = [Some (1, 0)]"
    "case calls of [] \<Rightarrow> True | (v, j, q) # _ \<Rightarrow> cp_block q = 100"
    by (fastforce split: list.splits)
  then obtain q where "calls = [(1, 0, q)]" by (cases calls) (auto split: prod.splits)
  with f show ?thesis by auto
qed

text \<open>The delay buffer cannot hold a sample: whatever a program has done with it, a block with samples is
  copied through a null pointer, and there is never room.\<close>

theorem delay_never_holds:
  assumes "delay_run bs mem ops (delay_make num_blocks) = Inr d"
  shows "delay_load d = 0
    \<and> (cptr_block_size bs p * cp_num_blocks p mod 4294967296 \<noteq> 0 \<longrightarrow> delay_supply bs mem p d = Inl Null_Deref)
    \<and> (uint_of n \<noteq> 0 \<longrightarrow> delay_has_capacity n d = Delay_Wait)"
proof -
  have "dl_size d = 0 \<and> dl_load d = 0 \<and> dl_buffer d = None"
    by (rule delay_stays_empty [OF _ _ _ assms]) (simp_all add: delay_make_def)
  moreover have "u32 (uint_of n) = uint_of n" by (simp add: u32_def uint_of_def)
  ultimately show ?thesis
    by (simp add: delay_load_def delay_supply_def delay_has_capacity_def u32_def Let_def)
qed

theorem delay_never_holds_witness:
  "delay_supply 8 (\<lambda>_. 0 :: int) demo_block (delay_make 4) = Inl Null_Deref
    \<and> delay_has_capacity 1 (delay_make 4 :: int delay) = Delay_Wait"
  using delay_never_holds [of 8 "\<lambda>_. 0 :: int" "[]" 4 "delay_make 4" demo_block 1]
  by (simp add: demo_block_def cache_ptr_make_def cptr_block_size_def uint_of_def)

end
