(* ===== verification/Rack_Worker.thy ===== *)
theory Rack_Worker
  imports Rack
begin

text \<open>
  The worker thread of the rack, \<open>rack::start\<close> and \<open>rack::stop\<close> of \<^verbatim>\<open>framework/component/rack.cpp\<close>, step
  by step: the thread that starts and stops it, the worker, and threads that call \<open>trigger_cycle\<close> and
  \<open>trigger_sync\<close>. A step is one statement or one test of the code; the processing of a cycle and a
  sync are one step each. The mutex is used by the worker alone, so what matters is whether its
  \<open>unique_lock\<close> owns it.

  How the object behind \<open>m_rack_thread\<close> fares is the subject of the theory on scheduled threads.
\<close>

section \<open>Steps\<close>

datatype rack_pc =
    R_None | R_Activate | R_Lock | R_Test | R_Enter | R_Blocked | R_Woken
  | R_Drain | R_Cycle | R_Resync | R_Flags | R_Upstream | R_Xor | R_Sync | R_Clear | R_Line | R_Synced | R_Count
  | R_End | R_Done | R_Dead sio_error

datatype rack_main = C_Idle | C_Spin | C_Running | C_Notify | C_Join | C_Stopped

text \<open>\<open>rr_calls\<close> counts the threads inside \<open>trigger_cycle\<close>, between the count and the notification.\<close>

record 'm rack_run =
  rr_rack :: "'m sio_rack"
  rr_pc :: rack_pc
  rr_owns :: bool
  rr_running :: bool
  rr_active :: bool
  rr_main :: rack_main
  rr_calls :: nat

definition rack_run_make :: "'m sio_rack \<Rightarrow> 'm rack_run" where
  "rack_run_make r = \<lparr>rr_rack = r, rr_pc = R_None, rr_owns = False, rr_running = False, rr_active = False,
     rr_main = C_Idle, rr_calls = 0\<rparr>"

definition rack_active :: "'m rack_run \<Rightarrow> bool" where
  "rack_active s = rr_active s"

definition rack_running :: "'m rack_run \<Rightarrow> bool" where
  "rack_running s = rr_running s"

text \<open>The two handlers unlock and leave the loop over the queue; any other error ends the program.\<close>

definition rack_catch :: "sio_error \<Rightarrow> 'm rack_run \<Rightarrow> 'm rack_run" where
  "rack_catch e s =
     (case e of
        Cache_Drain _ \<Rightarrow> s\<lparr>rr_owns := False, rr_pc := R_Test\<rparr>
      | Cache_Nullptr _ \<Rightarrow> s\<lparr>rr_owns := False, rr_pc := R_Test\<rparr>
      | _ \<Rightarrow> s\<lparr>rr_pc := R_Dead e\<rparr>)"

definition run_act :: "('m, 'a) act \<Rightarrow> rack_pc \<Rightarrow> 'm rack_run \<Rightarrow> 'm rack_run" where
  "run_act f pc s =
     (case f (rr_rack s) of
        (Inr _, r) \<Rightarrow> s\<lparr>rr_rack := r, rr_pc := pc\<rparr>
      | (Inl e, r) \<Rightarrow> rack_catch e (s\<lparr>rr_rack := r\<rparr>))"

definition rack_worker_step :: "'m unit_methods \<Rightarrow> nat \<Rightarrow> 'm rack_run \<Rightarrow> 'm rack_run option" where
  "rack_worker_step M n s =
     (case rr_pc s of
        R_Activate \<Rightarrow> Some (s\<lparr>rr_active := True, rr_pc := R_Lock\<rparr>)
      | R_Lock \<Rightarrow> Some (s\<lparr>rr_owns := True, rr_pc := R_Test\<rparr>)
      | R_Test \<Rightarrow> Some (s\<lparr>rr_pc := (if rr_running s then R_Enter else R_End)\<rparr>)
      | R_Enter \<Rightarrow> Some (s\<lparr>rr_pc := (if rr_owns s then R_Blocked else R_Dead Bad_Lock)\<rparr>)
      | R_Woken \<Rightarrow> Some (if rr_running s then s\<lparr>rr_pc := R_Drain\<rparr> else s\<lparr>rr_owns := False, rr_pc := R_End\<rparr>)
      | R_Drain \<Rightarrow> Some (s\<lparr>rr_pc := (if rk_cycle_queue (rr_rack s) > 0 then R_Cycle else R_Test)\<rparr>)
      | R_Cycle \<Rightarrow> Some (run_act (be_cycle M n Cycle_Ac) R_Resync s)
      | R_Resync \<Rightarrow> Some (s\<lparr>rr_pc := (if rk_resync (rr_rack s) then R_Flags else R_Count)\<rparr>)
      | R_Flags \<Rightarrow>
          Some (s\<lparr>rr_pc := (if rk_resync_flags (rr_rack s) = 0 then R_Line
                           else if has_flag (rk_resync_flags (rr_rack s)) SF_upstream then R_Upstream else R_Sync)\<rparr>)
      | R_Upstream \<Rightarrow> Some (run_act (be_sync M n SF_upstream) R_Xor s)
      | R_Xor \<Rightarrow> Some (run_act (modify (\<lambda>r. r\<lparr>rk_resync_flags := rk_resync_flags r XOR SF_upstream\<rparr>)) R_Sync s)
      | R_Sync \<Rightarrow> Some (run_act (with_state (\<lambda>r. be_sync M n (rk_resync_flags r))) R_Clear s)
      | R_Clear \<Rightarrow> Some (run_act (modify (\<lambda>r. r\<lparr>rk_resync_flags := 0\<rparr>)) R_Synced s)
      | R_Line \<Rightarrow> Some (run_act (be_cycle M n Cycle_Sync) R_Synced s)
      | R_Synced \<Rightarrow> Some (run_act (modify (\<lambda>r. r\<lparr>rk_resync := False\<rparr>)) R_Count s)
      | R_Count \<Rightarrow> Some (run_act (modify (\<lambda>r. r\<lparr>rk_cycle_queue := rk_cycle_queue r - 1\<rparr>)) R_Drain s)
      | R_End \<Rightarrow> Some (s\<lparr>rr_active := False, rr_pc := R_Done\<rparr>)
      | R_None \<Rightarrow> None | R_Blocked \<Rightarrow> None | R_Done \<Rightarrow> None | R_Dead _ \<Rightarrow> None)"

definition rack_notify :: "'m rack_run \<Rightarrow> 'm rack_run" where
  "rack_notify s = (if rr_pc s = R_Blocked then s\<lparr>rr_pc := R_Woken\<rparr> else s)"

text \<open>\<open>start\<close> up to the end of its busy loop, then \<open>stop\<close>.\<close>

definition rack_main_step :: "'m rack_run \<Rightarrow> 'm rack_run option" where
  "rack_main_step s =
     (case rr_main s of
        C_Idle \<Rightarrow> Some (s\<lparr>rr_running := True, rr_active := False, rr_pc := R_Activate, rr_main := C_Spin\<rparr>)
      | C_Spin \<Rightarrow> (if rr_active s then Some (s\<lparr>rr_main := C_Running\<rparr>) else None)
      | C_Running \<Rightarrow> Some (s\<lparr>rr_running := False, rr_main := C_Notify\<rparr>)
      | C_Notify \<Rightarrow> Some ((rack_notify s)\<lparr>rr_main := C_Join\<rparr>)
      | C_Join \<Rightarrow> (if rr_pc s = R_Done then Some (s\<lparr>rr_main := C_Stopped\<rparr>) else None)
      | C_Stopped \<Rightarrow> None)"

datatype rack_move =
    Rm_Worker | Rm_Main | Rm_Spurious | Rm_Trigger_Cycle | Rm_Notify | Rm_Trigger_Sync sync_flag

definition rack_move :: "'m unit_methods \<Rightarrow> nat \<Rightarrow> rack_move \<Rightarrow> 'm rack_run \<Rightarrow> 'm rack_run option" where
  "rack_move M n m s =
     (case m of
        Rm_Worker \<Rightarrow> rack_worker_step M n s
      | Rm_Main \<Rightarrow> rack_main_step s
      | Rm_Spurious \<Rightarrow> (if rr_pc s = R_Blocked then Some (s\<lparr>rr_pc := R_Woken\<rparr>) else None)
      | Rm_Trigger_Cycle \<Rightarrow> Some (s\<lparr>rr_rack := rack_trigger_cycle (rr_rack s), rr_calls := rr_calls s + 1\<rparr>)
      | Rm_Notify \<Rightarrow> (if rr_calls s = 0 then None else Some ((rack_notify s)\<lparr>rr_calls := rr_calls s - 1\<rparr>))
      | Rm_Trigger_Sync flags \<Rightarrow> Some (s\<lparr>rr_rack := rack_trigger_sync flags (rr_rack s)\<rparr>))"

fun rack_moves :: "'m unit_methods \<Rightarrow> nat \<Rightarrow> rack_move list \<Rightarrow> 'm rack_run \<Rightarrow> 'm rack_run option" where
  "rack_moves M n [] s = Some s"
| "rack_moves M n (m # ms) s =
     (case rack_move M n m s of None \<Rightarrow> None | Some s' \<Rightarrow> rack_moves M n ms s')"

text \<open>Steps of the worker alone.\<close>

inductive worker_runs :: "'m unit_methods \<Rightarrow> nat \<Rightarrow> 'm rack_run \<Rightarrow> 'm rack_run \<Rightarrow> bool" for M n where
  runs_refl [simp, intro]: "worker_runs M n s s"
| runs_step: "rack_worker_step M n s = Some s1 \<Longrightarrow> worker_runs M n s1 s2 \<Longrightarrow> worker_runs M n s s2"

lemma runs_trans: "worker_runs M n s s1 \<Longrightarrow> worker_runs M n s1 s2 \<Longrightarrow> worker_runs M n s s2"
  by (induction rule: worker_runs.induct) (auto intro: runs_step)

section \<open>Undisturbed, the worker makes the passes\<close>

text \<open>Where a worker at the head of the loop over the queue gets to.\<close>

definition after_pass :: "pass_end \<Rightarrow> rack_pc \<Rightarrow> 'm sio_rack \<Rightarrow> 'm rack_run \<Rightarrow> 'm rack_run" where
  "after_pass e pc r s =
     (case e of
        Pass_Done \<Rightarrow> s\<lparr>rr_rack := r, rr_pc := pc\<rparr>
      | Pass_Bail \<Rightarrow> s\<lparr>rr_rack := r, rr_owns := False, rr_pc := R_Test\<rparr>
      | Pass_Crash x \<Rightarrow> s\<lparr>rr_rack := r, rr_pc := R_Dead x\<rparr>)"

definition act_end :: "('m, 'a) act \<Rightarrow> 'm sio_rack \<Rightarrow> pass_end \<times> 'm sio_rack" where
  "act_end f r =
     (case f r of
        (Inr _, r') \<Rightarrow> (Pass_Done, r')
      | (Inl e, r') \<Rightarrow>
          (case e of Cache_Drain _ \<Rightarrow> (Pass_Bail, r') | Cache_Nullptr _ \<Rightarrow> (Pass_Bail, r')
           | _ \<Rightarrow> (Pass_Crash e, r')))"

lemma try_act_end: "rack_try M n r = act_end (rack_pass M n) r"
  by (simp add: rack_try_def act_end_def)

lemma run_act_after: "act_end f (rr_rack s) = (e, r') \<Longrightarrow> run_act f pc s = after_pass e pc r' s"
  by (auto simp: act_end_def run_act_def rack_catch_def after_pass_def split: sum.splits prod.splits sio_error.splits)

text \<open>\<open>does M n f a b\<close>: from \<open>a\<close> the worker does what \<open>f\<close> does and gets to \<open>b\<close>.\<close>

definition does :: "'m unit_methods \<Rightarrow> nat \<Rightarrow> ('m, 'a) act \<Rightarrow> rack_pc \<Rightarrow> rack_pc \<Rightarrow> bool" where
  "does M n f a b \<longleftrightarrow> (\<forall>s e r'. rr_pc s = a \<and> act_end f (rr_rack s) = (e, r') \<longrightarrow>
     worker_runs M n s (after_pass e b r' s))"

lemma doesI: "(\<And>s e r'. rr_pc s = a \<Longrightarrow> act_end f (rr_rack s) = (e, r') \<Longrightarrow> worker_runs M n s (after_pass e b r' s))
    \<Longrightarrow> does M n f a b"
  by (simp add: does_def)

lemma doesD: "does M n f a b \<Longrightarrow> rr_pc s = a \<Longrightarrow> act_end f (rr_rack s) = (e, r') \<Longrightarrow>
    worker_runs M n s (after_pass e b r' s)"
  by (simp add: does_def)

lemma does_step:
  assumes "\<And>s. rr_pc s = a \<Longrightarrow> rack_worker_step M n s = Some (run_act f b s)"
  shows "does M n f a b"
proof (rule doesI)
  fix s :: "'a rack_run" and e r'
  assume "rr_pc s = a" "act_end f (rr_rack s) = (e, r')"
  then show "worker_runs M n s (after_pass e b r' s)"
    using assms [of s] run_act_after runs_step [of M n s _ "after_pass e b r' s"] by fastforce
qed

lemma does_ret [simp]: "does M n (ret x) a a"
proof (rule doesI)
  fix s :: "'a rack_run" and e r'
  assume "rr_pc s = a" "act_end (ret x) (rr_rack s) = (e, r')"
  then have "after_pass e a r' s = s" by (auto simp: after_pass_def act_end_def act_defs)
  then show "worker_runs M n s (after_pass e a r' s)" by simp
qed

lemma act_end_bind:
  "act_end (bind_act f g) r =
     (case f r of
        (Inr x, r1) \<Rightarrow> act_end (g x) r1
      | (Inl e, r1) \<Rightarrow> act_end f r)"
  by (auto simp: act_end_def act_defs split: sum.splits prod.splits)

lemma does_bind:
  assumes f: "does M n f a b" and g: "\<And>x. does M n (g x) b c"
  shows "does M n (bind_act f g) a c"
proof (rule doesI)
  fix s :: "'a rack_run" and e r'
  assume a: "rr_pc s = a" and e: "act_end (bind_act f g) (rr_rack s) = (e, r')"
  obtain y r1 where fr: "f (rr_rack s) = (y, r1)" by force
  show "worker_runs M n s (after_pass e c r' s)"
  proof (cases y)
    case (Inl x)
    then have e': "act_end f (rr_rack s) = (e, r')" using e fr by (simp add: act_end_bind)
    have "e \<noteq> Pass_Done" using Inl fr e' by (auto simp: act_end_def split: sio_error.splits)
    then have "after_pass e c r' s = after_pass e b r' s" by (cases e) (simp_all add: after_pass_def)
    then show ?thesis using doesD [OF f a e'] by simp
  next
    case (Inr x)
    then have "act_end f (rr_rack s) = (Pass_Done, r1)" using fr by (simp add: act_end_def)
    then have f1: "worker_runs M n s (s\<lparr>rr_rack := r1, rr_pc := b\<rparr>)"
      using doesD [OF f a] by (fastforce simp: after_pass_def)
    have "act_end (g x) (rr_rack (s\<lparr>rr_rack := r1, rr_pc := b\<rparr>)) = (e, r')"
      using e fr Inr by (simp add: act_end_bind)
    from doesD [OF g _ this]
    have "worker_runs M n (s\<lparr>rr_rack := r1, rr_pc := b\<rparr>) (after_pass e c r' (s\<lparr>rr_rack := r1, rr_pc := b\<rparr>))" by simp
    moreover have "after_pass e c r' (s\<lparr>rr_rack := r1, rr_pc := b\<rparr>) = after_pass e c r' s"
      by (cases e) (simp_all add: after_pass_def)
    ultimately show ?thesis using f1 runs_trans by metis
  qed
qed

text \<open>A test of the worker.\<close>

lemma does_test:
  assumes t: "\<And>s. rr_pc s = a \<Longrightarrow> rack_worker_step M n s = Some (s\<lparr>rr_pc := br (rr_rack s)\<rparr>)"
    and f: "\<And>r. does M n (F r) (br r) d"
  shows "does M n (with_state F) a d"
proof (rule doesI)
  fix s :: "'a rack_run" and e r'
  assume a: "rr_pc s = a" and e: "act_end (with_state F) (rr_rack s) = (e, r')"
  let ?s = "s\<lparr>rr_pc := br (rr_rack s)\<rparr>"
  have "act_end (F (rr_rack ?s)) (rr_rack ?s) = (e, r')" using e by (simp add: act_end_def with_state_def)
  from doesD [OF f _ this] have "worker_runs M n ?s (after_pass e d r' ?s)" by simp
  moreover have "after_pass e d r' ?s = after_pass e d r' s" by (cases e) (simp_all add: after_pass_def)
  ultimately show "worker_runs M n s (after_pass e d r' s)" using runs_step [OF t [OF a]] by simp
qed

lemma does_cycle_ret: "does M n f a b \<Longrightarrow> does M n (bind_act f (\<lambda>_. ret ())) a b"
  by (erule does_bind) (rule does_ret)

lemma worker_acts:
  "rr_pc s = R_Cycle \<Longrightarrow> rack_worker_step M n s = Some (run_act (be_cycle M n Cycle_Ac) R_Resync s)"
  "rr_pc s = R_Upstream \<Longrightarrow> rack_worker_step M n s = Some (run_act (be_sync M n SF_upstream) R_Xor s)"
  "rr_pc s = R_Xor \<Longrightarrow> rack_worker_step M n s
     = Some (run_act (modify (\<lambda>r. r\<lparr>rk_resync_flags := rk_resync_flags r XOR SF_upstream\<rparr>)) R_Sync s)"
  "rr_pc s = R_Sync \<Longrightarrow> rack_worker_step M n s
     = Some (run_act (with_state (\<lambda>r. be_sync M n (rk_resync_flags r))) R_Clear s)"
  "rr_pc s = R_Clear \<Longrightarrow> rack_worker_step M n s = Some (run_act (modify (\<lambda>r. r\<lparr>rk_resync_flags := 0\<rparr>)) R_Synced s)"
  "rr_pc s = R_Line \<Longrightarrow> rack_worker_step M n s = Some (run_act (be_cycle M n Cycle_Sync) R_Synced s)"
  "rr_pc s = R_Synced \<Longrightarrow> rack_worker_step M n s = Some (run_act (modify (\<lambda>r. r\<lparr>rk_resync := False\<rparr>)) R_Count s)"
  "rr_pc s = R_Count \<Longrightarrow> rack_worker_step M n s
     = Some (run_act (modify (\<lambda>r. r\<lparr>rk_cycle_queue := rk_cycle_queue r - 1\<rparr>)) R_Drain s)"
  by (simp_all add: rack_worker_step_def)

lemma does_acts:
  "does M n (be_cycle M n Cycle_Ac) R_Cycle R_Resync"
  "does M n (be_sync M n SF_upstream) R_Upstream R_Xor"
  "does M n (modify (\<lambda>r. r\<lparr>rk_resync_flags := rk_resync_flags r XOR SF_upstream\<rparr>)) R_Xor R_Sync"
  "does M n (with_state (\<lambda>r. be_sync M n (rk_resync_flags r))) R_Sync R_Clear"
  "does M n (modify (\<lambda>r. r\<lparr>rk_resync_flags := 0\<rparr>)) R_Clear R_Synced"
  "does M n (be_cycle M n Cycle_Sync) R_Line R_Synced"
  "does M n (modify (\<lambda>r. r\<lparr>rk_resync := False\<rparr>)) R_Synced R_Count"
  "does M n (modify (\<lambda>r. r\<lparr>rk_cycle_queue := rk_cycle_queue r - 1\<rparr>)) R_Count R_Drain"
  by (rule does_step, erule worker_acts)+

lemma worker_tests:
  "rr_pc s = R_Resync \<Longrightarrow> rack_worker_step M n s
     = Some (s\<lparr>rr_pc := (if rk_resync (rr_rack s) then R_Flags else R_Count)\<rparr>)"
  "rr_pc s = R_Flags \<Longrightarrow> rack_worker_step M n s
     = Some (s\<lparr>rr_pc := (if rk_resync_flags (rr_rack s) = 0 then R_Line
                      else if has_flag (rk_resync_flags (rr_rack s)) SF_upstream then R_Upstream else R_Sync)\<rparr>)"
  by (simp_all add: rack_worker_step_def)

lemma does_resync:
  fixes M :: "'m unit_methods"
  shows "does M n (rack_resync_step M n) R_Flags R_Synced"
proof -
  note up = does_bind [OF does_acts(2) does_acts(3)]
  note sync = does_bind [OF does_acts(4) does_acts(5)]
  note line = does_cycle_ret [OF does_acts(6)]
  have "does M n (if rk_resync_flags r \<noteq> 0 then
       bind_act (if has_flag (rk_resync_flags r) SF_upstream
                 then bind_act (be_sync M n SF_upstream) (\<lambda>_.
                      modify (\<lambda>s. s\<lparr>rk_resync_flags := rk_resync_flags s XOR SF_upstream\<rparr>))
                 else ret ()) (\<lambda>_.
       bind_act (with_state (\<lambda>s. be_sync M n (rk_resync_flags s))) (\<lambda>_.
       modify (\<lambda>s. s\<lparr>rk_resync_flags := 0\<rparr>)))
     else bind_act (be_cycle M n Cycle_Sync) (\<lambda>_. ret ()))
     (if rk_resync_flags r = 0 then R_Line
      else if has_flag (rk_resync_flags r) SF_upstream then R_Upstream else R_Sync) R_Synced" for r :: "'m sio_rack"
    by (simp add: line does_bind [OF up sync] does_bind [OF does_ret sync])
  note t = this
  show ?thesis unfolding rack_resync_step_def by (rule does_test [where br = "\<lambda>r. if rk_resync_flags r = 0 then R_Line
      else if has_flag (rk_resync_flags r) SF_upstream then R_Upstream else R_Sync", OF worker_tests(2) t])
qed

lemma does_pass:
  fixes M :: "'m unit_methods"
  shows "does M n (rack_pass M n) R_Cycle R_Drain"
proof -
  have "does M n (if rk_resync r then bind_act (rack_resync_step M n) (\<lambda>_. modify (\<lambda>r. r\<lparr>rk_resync := False\<rparr>))
      else ret ()) (if rk_resync r then R_Flags else R_Count) R_Count" for r :: "'m sio_rack"
    by (simp add: does_bind [OF does_resync does_acts(7)])
  note t = does_test [where br = "\<lambda>r. if rk_resync r then R_Flags else R_Count", OF worker_tests(1) this]
  show ?thesis unfolding rack_pass_def by (rule does_bind [OF does_acts(1) does_bind [OF t does_acts(8)]])
qed

lemma drain_runs:
  assumes "rr_pc s = R_Drain" and "rack_drain M n k (rr_rack s) = Some (e, r')"
  shows "worker_runs M n s (after_pass e R_Test r' s)"
  using assms
proof (induction k arbitrary: s)
  case 0
  then have "rack_worker_step M n s = Some (s\<lparr>rr_pc := R_Test\<rparr>)" "e = Pass_Done" "r' = rr_rack s"
    by (auto simp: rack_worker_step_def split: if_splits)
  then show ?case by (auto simp: after_pass_def intro: runs_step)
next
  case (Suc k)
  show ?case
  proof (cases "rk_cycle_queue (rr_rack s) \<le> 0")
    case True
    then have "rack_worker_step M n s = Some (s\<lparr>rr_pc := R_Test\<rparr>)" "e = Pass_Done" "r' = rr_rack s"
      using Suc.prems by (auto simp: rack_worker_step_def)
    then show ?thesis by (auto simp: after_pass_def intro: runs_step)
  next
    case False
    let ?s = "s\<lparr>rr_pc := R_Cycle\<rparr>"
    have st: "rack_worker_step M n s = Some ?s" using False Suc.prems(1) by (simp add: rack_worker_step_def)
    obtain e1 r1 where tr: "rack_try M n (rr_rack s) = (e1, r1)" by force
    then have "worker_runs M n ?s (after_pass e1 R_Drain r1 ?s)"
      using doesD [OF does_pass, of ?s M n] by (simp add: try_act_end)
    then have p: "worker_runs M n s (after_pass e1 R_Drain r1 s)"
      using runs_step [OF st] by (cases e1) (simp_all add: after_pass_def)
    show ?thesis
    proof (cases "e1 = Pass_Done")
      case True
      let ?t = "after_pass e1 R_Drain r1 s"
      have "rack_drain M n k r1 = Some (e, r')" using Suc.prems(2) False tr True by simp
      then have "worker_runs M n ?t (after_pass e R_Test r' ?t)"
        using Suc.IH [of ?t] True by (simp add: after_pass_def)
      moreover have "after_pass e R_Test r' ?t = after_pass e R_Test r' s"
        using True by (cases e) (simp_all add: after_pass_def)
      ultimately show ?thesis using p runs_trans by metis
    next
      case f: False
      then have "e = e1" "r' = r1" using Suc.prems(2) False tr by (auto split: pass_end.splits)
      then show ?thesis using p f by (cases e1) (simp_all add: after_pass_def)
    qed
  qed
qed

section \<open>Reachable states\<close>

fun in_pass :: "rack_pc \<Rightarrow> bool" where
  "in_pass R_None = False" | "in_pass R_Activate = False" | "in_pass R_Lock = False" | "in_pass R_Test = False"
| "in_pass R_Enter = False" | "in_pass R_End = False" | "in_pass R_Done = False" | "in_pass (R_Dead e) = False"
| "in_pass _ = True"

fun began :: "rack_pc \<Rightarrow> bool" where
  "began R_None = False" | "began R_Activate = False" | "began _ = True"

fun over :: "rack_pc \<Rightarrow> bool" where
  "over R_End = True" | "over R_Done = True" | "over _ = False"

text \<open>The states of the two threads that go together.\<close>

fun ctl_ok :: "rack_main \<Rightarrow> rack_pc \<Rightarrow> bool" where
  "ctl_ok C_Idle pc = (pc = R_None)"
| "ctl_ok C_Spin pc = (pc \<noteq> R_None \<and> \<not> over pc)"
| "ctl_ok C_Running pc = (began pc \<and> \<not> over pc)"
| "ctl_ok _ pc = began pc"

definition rack_run_inv :: "'m rack_run \<Rightarrow> bool" where
  "rack_run_inv s \<longleftrightarrow> ctl_ok (rr_main s) (rr_pc s)
     \<and> rr_running s = (rr_main s = C_Spin \<or> rr_main s = C_Running)
     \<and> (in_pass (rr_pc s) \<longrightarrow> rr_owns s)
     \<and> rr_active s = (began (rr_pc s) \<and> rr_pc s \<noteq> R_Done)"

lemma in_passD: "in_pass pc \<Longrightarrow> began pc \<and> \<not> over pc \<and> pc \<noteq> R_None \<and> pc \<noteq> R_Done"
  by (cases pc) simp_all

lemma make_run_inv: "rack_run_inv (rack_run_make r)"
  by (simp add: rack_run_inv_def rack_run_make_def)

text \<open>Moving the worker between two states of its loop.\<close>

lemma ctl_ok_began: "ctl_ok main pc \<Longrightarrow> began pc \<Longrightarrow> began pc' \<Longrightarrow> \<not> over pc' \<Longrightarrow> ctl_ok main pc'"
  by (cases main) (auto elim: began.elims over.elims)

lemma run_act_inv:
  assumes inv: "rack_run_inv s" and pc: "in_pass (rr_pc s)" and pc': "in_pass pc'"
  shows "rack_run_inv (run_act f pc' s)"
proof -
  have o: "rr_owns s" and c: "ctl_ok (rr_main s) (rr_pc s)" using inv pc by (simp_all add: rack_run_inv_def)
  note i = in_passD [OF pc] in_passD [OF pc']
  have "ctl_ok (rr_main s) pc'" "ctl_ok (rr_main s) R_Test" "ctl_ok (rr_main s) (R_Dead e)" for e
    using ctl_ok_began [OF c] i by simp_all
  then show ?thesis
    using inv o i
    by (simp add: rack_run_inv_def run_act_def rack_catch_def split: sum.split prod.split sio_error.split)
qed

lemma rack_notify_inv: "rack_run_inv s \<Longrightarrow> rack_run_inv (rack_notify s)"
  using ctl_ok_began [of "rr_main s" R_Blocked R_Woken] by (cases "rr_pc s") (simp_all add: rack_run_inv_def rack_notify_def)

lemma pc_inv:
  assumes "rack_run_inv s" and "began pc'" and "\<not> over pc'" and "began (rr_pc s)" and "\<not> over (rr_pc s)"
    and "rr_owns s \<or> \<not> in_pass pc'"
  shows "rack_run_inv (s\<lparr>rr_pc := pc'\<rparr>)"
proof -
  have "ctl_ok (rr_main s) pc'" using ctl_ok_began assms by (auto simp: rack_run_inv_def)
  moreover have "pc' \<noteq> R_Done" "rr_pc s \<noteq> R_Done" using assms(3,5) by auto
  ultimately show ?thesis using assms by (auto simp: rack_run_inv_def)
qed

lemma worker_step_inv:
  assumes inv: "rack_run_inv s" and st: "rack_worker_step M n s = Some s'"
  shows "rack_run_inv s'"
proof -
  have c: "ctl_ok (rr_main s) (rr_pc s)" using inv by (simp add: rack_run_inv_def)
  note inv_simps = rack_run_inv_def rack_worker_step_def
  show ?thesis
  proof (cases "rr_pc s")
    case R_Activate
    then show ?thesis using inv st by (cases "rr_main s") (auto simp: inv_simps)
  next
    case R_Test
    then show ?thesis using inv st by (cases "rr_main s") (auto simp: inv_simps)
  next
    case R_Woken
    then show ?thesis using inv st by (cases "rr_main s") (auto simp: inv_simps)
  next
    case R_End
    then show ?thesis using inv st by (cases "rr_main s") (auto simp: inv_simps)
  next
    case R_Lock
    then show ?thesis using inv st ctl_ok_began [OF c] by (auto simp: inv_simps)
  next
    case R_Enter
    then show ?thesis using st pc_inv [OF inv, of R_Blocked] pc_inv [OF inv, of "R_Dead Bad_Lock"]
      by (auto simp: rack_worker_step_def split: if_splits)
  next
    case R_Drain
    then show ?thesis using st pc_inv [OF inv, of R_Cycle] pc_inv [OF inv, of R_Test] inv
      by (auto simp: rack_worker_step_def rack_run_inv_def [of s] split: if_splits)
  next
    case R_Resync
    then show ?thesis using st pc_inv [OF inv, of R_Flags] pc_inv [OF inv, of R_Count] inv
      by (auto simp: rack_worker_step_def rack_run_inv_def [of s] split: if_splits)
  next
    case R_Flags
    then show ?thesis
      using st pc_inv [OF inv, of R_Line] pc_inv [OF inv, of R_Upstream] pc_inv [OF inv, of R_Sync] inv
      by (auto simp: rack_worker_step_def rack_run_inv_def [of s] split: if_splits)
  qed (use st in \<open>auto simp: rack_worker_step_def intro!: run_act_inv [OF inv]\<close>)
qed

lemma main_step_run_inv:
  assumes inv: "rack_run_inv s" and st: "rack_main_step s = Some s'"
  shows "rack_run_inv s'"
proof (cases "rr_main s")
  case C_Spin
  then show ?thesis using inv st by (auto simp: rack_main_step_def rack_run_inv_def split: if_splits)
next
  case C_Running
  then show ?thesis using inv st by (auto simp: rack_main_step_def rack_run_inv_def)
next
  case C_Notify
  have "rack_run_inv (t\<lparr>rr_main := C_Join\<rparr>)" if "rack_run_inv t" "rr_main t = C_Notify" for t :: "'a rack_run"
    using that by (simp add: rack_run_inv_def)
  moreover have "rr_main (rack_notify s) = C_Notify" using C_Notify by (simp add: rack_notify_def)
  ultimately show ?thesis using st C_Notify rack_notify_inv [OF inv] by (auto simp: rack_main_step_def)
next
  case C_Idle
  then show ?thesis using inv st by (auto simp: rack_main_step_def rack_run_inv_def)
next
  case C_Join
  then show ?thesis using inv st by (auto simp: rack_main_step_def rack_run_inv_def split: if_splits)
next
  case C_Stopped
  then show ?thesis using st by (simp add: rack_main_step_def)
qed

lemma rack_move_inv:
  assumes inv: "rack_run_inv s" and st: "rack_move M n m s = Some s'"
  shows "rack_run_inv s'"
proof (cases m)
  case Rm_Worker
  then show ?thesis using assms worker_step_inv by (simp add: rack_move_def)
next
  case Rm_Main
  then show ?thesis using assms main_step_run_inv by (simp add: rack_move_def)
next
  case Rm_Notify
  have "rack_run_inv (t\<lparr>rr_calls := k\<rparr>)" if "rack_run_inv t" for t :: "'a rack_run" and k
    using that by (simp add: rack_run_inv_def)
  then show ?thesis
    using st Rm_Notify rack_notify_inv [OF inv] by (auto simp: rack_move_def split: if_splits)
next
  case Rm_Spurious
  then show ?thesis
    using st rack_notify_inv [OF inv] by (cases "rr_pc s = R_Blocked") (simp_all add: rack_move_def rack_notify_def)
next
  case (Rm_Trigger_Sync flags)
  then show ?thesis using inv st by (simp add: rack_move_def rack_run_inv_def) force
next
  case Rm_Trigger_Cycle
  then show ?thesis using inv st by (simp add: rack_move_def rack_run_inv_def) force
qed

lemma moves_inv: "rack_moves M n ms s = Some s' \<Longrightarrow> rack_run_inv s \<Longrightarrow> rack_run_inv s'"
  by (induction ms arbitrary: s) (auto split: option.splits dest: rack_move_inv)

section \<open>Stopping\<close>

lemma worker_steps_end:
  "rr_pc s = R_End \<Longrightarrow> rack_worker_step M n s = Some (s\<lparr>rr_active := False, rr_pc := R_Done\<rparr>)"
  "rr_pc s = R_Test \<Longrightarrow> \<not> rr_running s \<Longrightarrow> rack_worker_step M n s = Some (s\<lparr>rr_pc := R_End\<rparr>)"
  "rr_pc s = R_Lock \<Longrightarrow> rack_worker_step M n s = Some (s\<lparr>rr_owns := True, rr_pc := R_Test\<rparr>)"
  "rr_pc s = R_Woken \<Longrightarrow> \<not> rr_running s \<Longrightarrow> rack_worker_step M n s = Some (s\<lparr>rr_owns := False, rr_pc := R_End\<rparr>)"
  by (simp_all add: rack_worker_step_def)

lemma end_runs:
  assumes "rr_pc s \<in> {R_End, R_Done}"
  shows "\<exists>s2. worker_runs M n s s2 \<and> rr_pc s2 = R_Done \<and> rr_main s2 = rr_main s"
proof (cases "rr_pc s = R_Done")
  case False
  then have "rr_pc s = R_End" using assms by simp
  from runs_step [OF worker_steps_end(1) [OF this] runs_refl] show ?thesis by fastforce
qed auto

lemma test_runs:
  assumes "rr_pc s = R_Test" and "\<not> rr_running s"
  shows "\<exists>s2. worker_runs M n s s2 \<and> rr_pc s2 = R_Done \<and> rr_main s2 = rr_main s"
  using end_runs [of "s\<lparr>rr_pc := R_End\<rparr>" M n] runs_step [OF worker_steps_end(2) [OF assms]] by fastforce

lemma stopped_runs:
  assumes "\<not> rr_running s" and "rr_pc s \<in> {R_Lock, R_Test, R_Woken, R_End, R_Done}"
  shows "\<exists>s2. worker_runs M n s s2 \<and> rr_pc s2 = R_Done \<and> rr_main s2 = rr_main s"
proof -
  consider "rr_pc s \<in> {R_End, R_Done}" | "rr_pc s = R_Test" | "rr_pc s = R_Lock" | "rr_pc s = R_Woken"
    using assms(2) by blast
  then show ?thesis
  proof cases
    case 3
    from runs_step [OF worker_steps_end(3) [OF 3]] show ?thesis
      using test_runs [of "s\<lparr>rr_owns := True, rr_pc := R_Test\<rparr>" M n] assms(1) by fastforce
  next
    case 4
    from runs_step [OF worker_steps_end(4) [OF 4 assms(1)]] show ?thesis
      using end_runs [of "s\<lparr>rr_owns := False, rr_pc := R_End\<rparr>" M n] by fastforce
  qed (use end_runs test_runs assms(1) in blast)+
qed

lemma drain_stopped_runs:
  assumes "\<not> rr_running s" and "rr_pc s = R_Drain" and "rack_drain M n k (rr_rack s) = Some (e, r')"
    and "\<forall>x. e \<noteq> Pass_Crash x"
  shows "\<exists>s2. worker_runs M n s s2 \<and> rr_pc s2 = R_Done \<and> rr_main s2 = rr_main s"
proof -
  let ?t = "after_pass e R_Test r' s"
  have "rr_pc ?t = R_Test" "\<not> rr_running ?t" "rr_main ?t = rr_main s"
    using assms(1,4) by (cases e; simp add: after_pass_def)+
  then show ?thesis
    using test_runs [of ?t M n] drain_runs [OF assms(2,3)] runs_trans by metis
qed

text \<open>No one but a trigger or a spurious wake-up gets a blocked worker on.\<close>

definition no_wakeup :: "rack_move list \<Rightarrow> bool" where
  "no_wakeup ms \<longleftrightarrow> list_all (\<lambda>m. m = Rm_Worker \<or> m = Rm_Main) ms"

lemma stuck_moves:
  assumes "rr_pc s = R_Blocked" and "rr_main s = C_Join"
  shows "no_wakeup ms \<Longrightarrow> rack_moves M n ms s = Some s' \<Longrightarrow> s' = s"
  using assms
  by (cases ms) (auto simp: no_wakeup_def rack_move_def rack_worker_step_def rack_main_step_def split: if_splits)

section \<open>Properties\<close>

text \<open>C31. A trigger runs all that is queued: when \<open>trigger_cycle\<close> is called while the worker of a running rack
  waits, and the loop over the queue comes to an end, the worker does exactly what that loop
  does, and then either waits again in the same state, or, when a cycle ran out of blocks, waits with a
  lock it does not own, which is undefined, or has died of another error.\<close>

theorem trigger_runs_queue:
  assumes "rack_moves M n ms (rack_run_make r) = Some s" and "rr_pc s = R_Blocked" and "rr_running s"
    and "rack_drain M n k (rack_trigger_cycle (rr_rack s)) = Some (e, r')"
  shows "\<exists>s1. rack_moves M n [Rm_Trigger_Cycle, Rm_Notify] s = Some s1
    \<and> worker_runs M n s1
        (case e of
           Pass_Done \<Rightarrow> s\<lparr>rr_rack := r'\<rparr>
         | Pass_Bail \<Rightarrow> s\<lparr>rr_rack := r', rr_owns := False, rr_pc := R_Dead Bad_Lock\<rparr>
         | Pass_Crash x \<Rightarrow> s\<lparr>rr_rack := r', rr_pc := R_Dead x\<rparr>)"
proof -
  have owns: "rr_owns s" using moves_inv [OF assms(1) make_run_inv] assms(2) by (simp add: rack_run_inv_def)
  let ?s1 = "s\<lparr>rr_rack := rack_trigger_cycle (rr_rack s), rr_pc := R_Woken\<rparr>"
  let ?d = "?s1\<lparr>rr_pc := R_Drain\<rparr>"
  have m: "rack_moves M n [Rm_Trigger_Cycle, Rm_Notify] s = Some ?s1"
    using assms(2) by (simp add: rack_move_def rack_notify_def)
  have "rack_worker_step M n ?s1 = Some ?d" using assms(3) by (simp add: rack_worker_step_def)
  then have d: "worker_runs M n ?s1 (after_pass e R_Test r' ?d)"
    using drain_runs [of ?d M n k e r'] assms(4) by (auto intro: runs_step)
  have enter: "worker_runs M n t (t\<lparr>rr_pc := (if rr_owns t then R_Blocked else R_Dead Bad_Lock)\<rparr>)"
    if "rr_pc t = R_Test" "rr_running t" for t :: "'a rack_run"
  proof -
    have "rack_worker_step M n t = Some (t\<lparr>rr_pc := R_Enter\<rparr>)" using that by (simp add: rack_worker_step_def)
    moreover have "rack_worker_step M n (t\<lparr>rr_pc := R_Enter\<rparr>)
        = Some (t\<lparr>rr_pc := (if rr_owns t then R_Blocked else R_Dead Bad_Lock)\<rparr>)"
      by (simp add: rack_worker_step_def)
    ultimately show ?thesis by (meson runs_refl runs_step)
  qed
  show ?thesis
  proof (cases e)
    case Pass_Done
    have "s\<lparr>rr_rack := r'\<rparr> = s\<lparr>rr_rack := r', rr_pc := R_Blocked\<rparr>" using assms(2) by simp
    then show ?thesis
      using m runs_trans [OF d enter] Pass_Done owns assms(3) by (simp add: after_pass_def)
  next
    case Pass_Bail
    then show ?thesis using m runs_trans [OF d enter] assms(3) by (simp add: after_pass_def)
  next
    case (Pass_Crash x)
    then show ?thesis using m d by (simp add: after_pass_def)
  qed
qed

definition demo_empty_rack :: "unit sio_rack" where
  "demo_empty_rack = rack_make ()"

text \<open>Start, and run the worker until it waits.\<close>

definition demo_wait :: "rack_move list" where
  "demo_wait = [Rm_Main, Rm_Worker, Rm_Main, Rm_Worker, Rm_Worker, Rm_Worker]"

lemma demo_waits:
  "\<exists>s. rack_moves demo_methods 3 demo_wait (rack_run_make demo_empty_rack) = Some s \<and> rr_pc s = R_Blocked
    \<and> rr_running s \<and> rr_rack s = demo_empty_rack \<and> rr_main s = C_Running"
  by (simp add: demo_wait_def rack_run_make_def rack_move_def rack_main_step_def rack_worker_step_def)

theorem trigger_runs_queue_witness:
  "\<exists>s s1. rack_moves demo_methods 3 demo_wait (rack_run_make demo_empty_rack) = Some s
    \<and> rack_moves demo_methods 3 [Rm_Trigger_Cycle, Rm_Notify] s = Some s1 \<and> rk_cycle_queue (rr_rack s1) = 1
    \<and> worker_runs demo_methods 3 s1 s"
proof -
  obtain s where s: "rack_moves demo_methods 3 demo_wait (rack_run_make demo_empty_rack) = Some s"
    "rr_pc s = R_Blocked" "rr_running s" "rr_rack s = demo_empty_rack" using demo_waits by blast
  have q: "rk_cycle_queue demo_empty_rack = 0" "rk_raw_mainlines demo_empty_rack = []" "\<not> rk_resync demo_empty_rack"
    by (simp_all add: demo_empty_rack_def rack_make_def)
  then have "rack_try demo_methods 3 (rack_trigger_cycle demo_empty_rack) = (Pass_Done, demo_empty_rack)"
    by (simp add: rack_try_def rack_pass_def be_cycle_def act_defs rack_trigger_cycle_def)
  then have d: "rack_drain demo_methods 3 1 (rack_trigger_cycle (rr_rack s)) = Some (Pass_Done, demo_empty_rack)"
    using q s(4) by (simp add: rack_trigger_cycle_def)
  have "s\<lparr>rr_rack := demo_empty_rack\<rparr> = s" using s(4) by simp
  with trigger_runs_queue [OF s(1-3) d] s(1,2,4) q show ?thesis
    by (auto simp: rack_move_def rack_notify_def rack_trigger_cycle_def)
qed

text \<open>C32. Stopping the rack joins the worker unless the notification comes too early: from any reachable state in
  which \<open>stop\<close> is about to notify and the worker is not inside a pass, the worker ends and
  \<open>stop\<close> returns, except when the worker has tested \<open>m_running\<close> but not yet begun to wait. Then
  it waits for ever, and \<open>stop\<close> does not return, unless somebody triggers a cycle or the wait wakes
  up for no reason.\<close>

theorem rack_stop_joins:
  assumes "rack_moves M n ms (rack_run_make r) = Some s" and "rr_main s = C_Notify"
    and "rr_pc s \<in> {R_Lock, R_Test, R_Enter, R_Blocked, R_Woken, R_End, R_Done}
      \<or> (rr_pc s = R_Drain \<and> rack_drain M n k (rr_rack s) = Some (e, r') \<and> (\<forall>x. e \<noteq> Pass_Crash x))"
  shows "(rr_pc s \<noteq> R_Enter \<longrightarrow>
        (\<exists>s1 s2 s3. rack_main_step s = Some s1 \<and> worker_runs M n s1 s2 \<and> rack_main_step s2 = Some s3
          \<and> rr_main s3 = C_Stopped))
    \<and> (rr_pc s = R_Enter \<and> rr_owns s \<longrightarrow>
        (\<exists>s1 s2. rack_main_step s = Some s1 \<and> rack_worker_step M n s1 = Some s2
          \<and> (\<forall>ms s3. no_wakeup ms \<and> rack_moves M n ms s2 = Some s3 \<longrightarrow> s3 = s2 \<and> rr_main s3 \<noteq> C_Stopped)))"
proof (intro conjI impI)
  let ?s1 = "(rack_notify s)\<lparr>rr_main := C_Join\<rparr>"
  have m: "rack_main_step s = Some ?s1" using assms(2) by (simp add: rack_main_step_def)
  have run: "\<not> rr_running s"
    using moves_inv [OF assms(1) make_run_inv] assms(2) by (simp add: rack_run_inv_def)
  {
    assume ne: "rr_pc s \<noteq> R_Enter"
    have "\<exists>s2. worker_runs M n ?s1 s2 \<and> rr_pc s2 = R_Done \<and> rr_main s2 = rr_main ?s1"
    proof (cases "rr_pc s = R_Drain")
      case True
      then have "rr_pc ?s1 = R_Drain" "rr_rack ?s1 = rr_rack s" "\<not> rr_running ?s1"
        using run by (simp_all add: rack_notify_def)
      then show ?thesis using drain_stopped_runs [of ?s1 M n k e r'] assms(3) True by simp
    next
      case False
      then have "rr_pc ?s1 \<in> {R_Lock, R_Test, R_Woken, R_End, R_Done}" "\<not> rr_running ?s1"
        using run ne assms(3) by (auto simp: rack_notify_def)
      then show ?thesis using stopped_runs by blast
    qed
    then obtain s2 where s2: "worker_runs M n ?s1 s2" "rr_pc s2 = R_Done" "rr_main s2 = C_Join" by auto
    have "rack_main_step s2 = Some (s2\<lparr>rr_main := C_Stopped\<rparr>)" using s2 by (simp add: rack_main_step_def)
    then show "\<exists>s1 s2 s3. rack_main_step s = Some s1 \<and> worker_runs M n s1 s2 \<and> rack_main_step s2 = Some s3
          \<and> rr_main s3 = C_Stopped"
      using m s2(1) by fastforce
  }
  {
    assume e: "rr_pc s = R_Enter \<and> rr_owns s"
    let ?s2 = "s\<lparr>rr_pc := R_Blocked, rr_main := C_Join\<rparr>"
    have "rack_worker_step M n ?s1 = Some ?s2" using e by (simp add: rack_worker_step_def rack_notify_def)
    moreover have "s3 = ?s2 \<and> rr_main s3 \<noteq> C_Stopped" if "no_wakeup ms \<and> rack_moves M n ms ?s2 = Some s3" for ms s3
      using stuck_moves [of ?s2 ms M n s3] that by simp
    ultimately show "\<exists>s1 s2. rack_main_step s = Some s1 \<and> rack_worker_step M n s1 = Some s2
          \<and> (\<forall>ms s3. no_wakeup ms \<and> rack_moves M n ms s2 = Some s3 \<longrightarrow> s3 = s2 \<and> rr_main s3 \<noteq> C_Stopped)"
      using m by blast
  }
qed

text \<open>The worker has just tested whether the rack runs when \<open>stop\<close> sets the flag and notifies.\<close>

theorem rack_stop_joins_witness:
  "\<exists>s s1 s2. rack_moves demo_methods 3 [Rm_Main, Rm_Worker, Rm_Worker, Rm_Worker, Rm_Main, Rm_Main]
        (rack_run_make demo_empty_rack) = Some s
    \<and> rack_main_step s = Some s1 \<and> rack_worker_step demo_methods 3 s1 = Some s2
    \<and> rr_pc s2 = R_Blocked \<and> rr_main s2 = C_Join
    \<and> (\<forall>ms s3. no_wakeup ms \<and> rack_moves demo_methods 3 ms s2 = Some s3 \<longrightarrow> s3 = s2)"
proof -
  obtain s where s: "rack_moves demo_methods 3 [Rm_Main, Rm_Worker, Rm_Worker, Rm_Worker, Rm_Main, Rm_Main]
        (rack_run_make demo_empty_rack) = Some s" "rr_main s = C_Notify" "rr_pc s = R_Enter" "rr_owns s"
    by (simp add: rack_run_make_def rack_move_def rack_main_step_def rack_worker_step_def)
  then obtain s1 s2 where "rack_main_step s = Some s1" "rack_worker_step demo_methods 3 s1 = Some s2"
    "\<forall>ms s3. no_wakeup ms \<and> rack_moves demo_methods 3 ms s2 = Some s3 \<longrightarrow> s3 = s2"
    using rack_stop_joins [OF s(1,2)] by blast
  moreover from this have "rr_pc s2 = R_Blocked" "rr_main s2 = C_Join"
    using s(2-4) by (auto simp: rack_main_step_def rack_notify_def rack_worker_step_def)
  ultimately show ?thesis using s(1) by blast
qed

text \<open>Requests are lost when they come at the wrong moment: a cycle triggered after the worker has seen the
  queue empty and before it waits stays in the queue of a sleeping worker; a sync triggered between
  the clearing of the flags and the clearing of \<open>m_resync\<close> leaves its flags without a request, so that no
  later pass looks at them.\<close>

theorem rack_triggers_lost:
  assumes "rr_running s" and "rr_owns s" and "rk_cycle_queue (rr_rack s) = 0"
  shows "(rr_pc s = R_Test \<longrightarrow>
      (\<exists>s'. rack_moves M n [Rm_Trigger_Cycle, Rm_Notify, Rm_Worker, Rm_Worker] s = Some s'
        \<and> rr_pc s' = R_Blocked \<and> rk_cycle_queue (rr_rack s') = 1))
    \<and> (rr_pc s = R_Synced \<and> flags \<noteq> 0 \<and> 0 \<le> flags \<and> rk_resync_flags (rr_rack s) = 0 \<longrightarrow>
      (\<exists>s'. rack_moves M n [Rm_Trigger_Sync flags, Rm_Worker, Rm_Worker] s = Some s'
        \<and> rr_pc s' = R_Drain \<and> rk_resync_flags (rr_rack s') = flags \<and> \<not> rk_resync (rr_rack s')))"
  using assms
  by (auto simp: rack_move_def rack_notify_def rack_worker_step_def rack_trigger_cycle_def rack_trigger_sync_def
      run_act_def modify_def)

theorem rack_triggers_lost_witness:
  "\<exists>s s'. rack_moves demo_methods 3 (take 4 demo_wait) (rack_run_make demo_empty_rack) = Some s
    \<and> rack_moves demo_methods 3 [Rm_Trigger_Cycle, Rm_Notify, Rm_Worker, Rm_Worker] s = Some s'
    \<and> rr_pc s' = R_Blocked \<and> rk_cycle_queue (rr_rack s') = 1"
proof -
  obtain s where s: "rack_moves demo_methods 3 (take 4 demo_wait) (rack_run_make demo_empty_rack) = Some s"
    "rr_running s" "rr_owns s" "rk_cycle_queue (rr_rack s) = 0" "rr_pc s = R_Test"
    by (simp add: demo_wait_def rack_run_make_def rack_move_def rack_main_step_def rack_worker_step_def
        demo_empty_rack_def rack_make_def)
  then show ?thesis
    using rack_triggers_lost [of s demo_methods 3] by simp
qed

end
