(* ===== verification/Midi_Threads.thy ===== *)
theory Midi_Threads
  imports Midi
begin

text \<open>
  The threads of the midi devices: \<open>start\<close>, \<open>stop\<close> and \<open>cycle\<close> of \<^verbatim>\<open>framework/midi/device.cpp\<close> and \<open>start\<close> and
  \<open>stop\<close> of \<^verbatim>\<open>framework/midi/midi_handler.cpp\<close>, step by step.

  A step of a device's thread takes what \<open>flush\<close> gives: a message, or nothing while it blocks. The handler
  stops its active devices one after the other: it clears \<open>m_running\<close> of one and waits for the end of its
  thread before it turns to the next. Accesses to \<open>m_running\<close> are sequentially consistent. Joining a
  thread that was not started throws \<open>std::system_error\<close>, and starting a device whose thread is still
  owned ends the program.
\<close>

section \<open>The thread of a device\<close>

datatype dt_pc = Dt_None | Dt_Spawned | Dt_While | Dt_Flush | Dt_Over

record 'f dev_thread =
  dt_joinable :: bool
  dt_pc :: dt_pc
  dt_running :: bool
  dt_bindings :: "int \<Rightarrow> 'f option"
  dt_calls :: "('f \<times> midi_msg) list"

definition dev_thread_start :: "'f dev_thread \<Rightarrow> 'f dev_thread result" where
  "dev_thread_start t = (if dt_joinable t then Inl Terminate else Inr (t\<lparr>dt_joinable := True, dt_pc := Dt_Spawned\<rparr>))"

definition call_binding :: "midi_msg \<Rightarrow> 'f dev_thread \<Rightarrow> 'f dev_thread" where
  "call_binding code t =
     (case dt_bindings t (uint (mm_n code)) of
        None \<Rightarrow> t
      | Some func \<Rightarrow> t\<lparr>dt_calls := dt_calls t @ [(func, code)]\<rparr>)"

definition dev_thread_step :: "midi_msg option \<Rightarrow> 'f dev_thread \<Rightarrow> 'f dev_thread" where
  "dev_thread_step reading t =
     (case dt_pc t of
        Dt_Spawned \<Rightarrow> t\<lparr>dt_running := True, dt_pc := Dt_While\<rparr>
      | Dt_While \<Rightarrow> t\<lparr>dt_pc := if dt_running t then Dt_Flush else Dt_Over\<rparr>
      | Dt_Flush \<Rightarrow>
          (case reading of
             None \<Rightarrow> t
           | Some code \<Rightarrow>
               if \<not> dt_running t then t\<lparr>dt_pc := Dt_Over\<rparr>
               else if mm_f code = 0 then t\<lparr>dt_pc := Dt_Over\<rparr>
               else (call_binding code t)\<lparr>dt_pc := Dt_While\<rparr>)
      | _ \<Rightarrow> t)"

section \<open>The handler and its devices\<close>

record 'f midi_threads =
  mt_threads :: "nat \<Rightarrow> 'f dev_thread"
  mt_stop :: "nat list"
  mt_waiting :: bool

definition set_thread :: "nat \<Rightarrow> 'f dev_thread \<Rightarrow> 'f midi_threads \<Rightarrow> 'f midi_threads" where
  "set_thread k t s = s\<lparr>mt_threads := (mt_threads s)(k := t)\<rparr>"

fun midi_start :: "nat list \<Rightarrow> 'f midi_threads \<Rightarrow> 'f midi_threads result" where
  "midi_start [] s = Inr s"
| "midi_start (k # ks) s = bind_res (dev_thread_start (mt_threads s k)) (\<lambda>t. midi_start ks (set_thread k t s))"

definition midi_stop :: "nat list \<Rightarrow> 'f midi_threads \<Rightarrow> 'f midi_threads" where
  "midi_stop active s = s\<lparr>mt_stop := active, mt_waiting := False\<rparr>"

text \<open>\<open>mt_stop\<close> are the devices still to be stopped; in the first of them \<open>mt_waiting\<close> says that \<open>m_running\<close> is
  cleared and \<open>join\<close> waits.\<close>

definition stop_step :: "'f midi_threads \<Rightarrow> 'f midi_threads result" where
  "stop_step s =
     (case mt_stop s of
        [] \<Rightarrow> Inr s
      | k # ks \<Rightarrow>
          let t = mt_threads s k in
          if \<not> mt_waiting s then Inr ((set_thread k (t\<lparr>dt_running := False\<rparr>) s)\<lparr>mt_waiting := True\<rparr>)
          else if \<not> dt_joinable t then Inl Std_System_Error
          else if dt_pc t = Dt_Over
               then Inr ((set_thread k (t\<lparr>dt_joinable := False\<rparr>) s)\<lparr>mt_stop := ks, mt_waiting := False\<rparr>)
          else Inr s)"

datatype mt_move = Mv_Device nat "midi_msg option" | Mv_Stop

fun midi_move :: "mt_move \<Rightarrow> 'f midi_threads \<Rightarrow> 'f midi_threads result" where
  "midi_move (Mv_Device k reading) s = Inr (set_thread k (dev_thread_step reading (mt_threads s k)) s)"
| "midi_move Mv_Stop s = stop_step s"

fun midi_moves :: "mt_move list \<Rightarrow> 'f midi_threads \<Rightarrow> 'f midi_threads result" where
  "midi_moves [] s = Inr s"
| "midi_moves (a # as) s = bind_res (midi_move a s) (midi_moves as)"

lemma midi_moves_append: "midi_moves (as @ bs) s = bind_res (midi_moves as s) (midi_moves bs)"
proof (induction as arbitrary: s)
  case (Cons a as)
  then show ?case by (cases "midi_move a s") simp_all
qed simp

lemma set_thread_simps [simp]:
  "mt_threads (set_thread k t s) j = (if j = k then t else mt_threads s j)"
  "mt_stop (set_thread k t s) = mt_stop s" "mt_waiting (set_thread k t s) = mt_waiting s"
  by (simp_all add: set_thread_def)

section \<open>Starting\<close>

text \<open>Devices that are each started once run.\<close>

lemma midi_start_spawns:
  assumes "distinct ks" and "\<forall>k \<in> set ks. \<not> dt_joinable (mt_threads s k)"
  shows "\<exists>s'. midi_start ks s = Inr s' \<and> mt_stop s' = mt_stop s \<and> mt_waiting s' = mt_waiting s
    \<and> (\<forall>k. mt_threads s' k = (if k \<in> set ks then (mt_threads s k)\<lparr>dt_joinable := True, dt_pc := Dt_Spawned\<rparr>
                               else mt_threads s k))"
  using assms
proof (induction ks arbitrary: s)
  case (Cons k ks)
  let ?t = "(mt_threads s k)\<lparr>dt_joinable := True, dt_pc := Dt_Spawned\<rparr>"
  have "\<exists>s'. midi_start ks (set_thread k ?t s) = Inr s' \<and> mt_stop s' = mt_stop (set_thread k ?t s)
      \<and> mt_waiting s' = mt_waiting (set_thread k ?t s)
      \<and> (\<forall>j. mt_threads s' j = (if j \<in> set ks then (mt_threads (set_thread k ?t s) j)\<lparr>dt_joinable := True, dt_pc := Dt_Spawned\<rparr>
                               else mt_threads (set_thread k ?t s) j))"
    by (rule Cons.IH) (use Cons.prems in auto)
  then obtain s' where s': "midi_start ks (set_thread k ?t s) = Inr s'" "mt_stop s' = mt_stop s"
      "mt_waiting s' = mt_waiting s"
      "\<And>j. mt_threads s' j = (if j \<in> set ks then (mt_threads (set_thread k ?t s) j)\<lparr>dt_joinable := True, dt_pc := Dt_Spawned\<rparr>
                               else mt_threads (set_thread k ?t s) j)"
    by auto
  have "dev_thread_start (mt_threads s k) = Inr ?t" using Cons.prems(2) by (simp add: dev_thread_start_def)
  then show ?case using s' Cons.prems(1) by (intro exI [of _ s']) auto
qed simp

text \<open>\<open>init\<close> run twice leaves a device twice among the active ones; starting it twice ends the program.\<close>

lemma midi_start_twice:
  assumes "\<not> dt_joinable (mt_threads s k)"
  shows "midi_start [k, k] s = Inl Terminate"
  using assms by (simp add: dev_thread_start_def)

section \<open>Stopping\<close>

text \<open>The threads of the devices still to be stopped are past their first step.\<close>

definition stoppable :: "'f midi_threads \<Rightarrow> bool" where
  "stoppable s \<longleftrightarrow> distinct (mt_stop s)
     \<and> (\<forall>k \<in> set (mt_stop s). dt_joinable (mt_threads s k) \<and> dt_pc (mt_threads s k) \<notin> {Dt_None, Dt_Spawned})
     \<and> (mt_waiting s \<longrightarrow> mt_stop s \<noteq> [] \<and> \<not> dt_running (mt_threads s (hd (mt_stop s))))"

lemma call_binding_simps [simp]:
  "dt_joinable (call_binding code t) = dt_joinable t" "dt_running (call_binding code t) = dt_running t"
  by (simp_all add: call_binding_def split: option.split)

lemma dev_thread_step_keeps:
  assumes "dt_pc t \<notin> {Dt_None, Dt_Spawned}"
  shows "dt_joinable (dev_thread_step r t) = dt_joinable t" "dt_running (dev_thread_step r t) = dt_running t"
    "dt_pc (dev_thread_step r t) \<notin> {Dt_None, Dt_Spawned}" "dt_pc t = Dt_Over \<Longrightarrow> dt_pc (dev_thread_step r t) = Dt_Over"
  using assms by (auto simp: dev_thread_step_def split: dt_pc.split option.split)

lemma dev_thread_step_joinable [simp]: "dt_joinable (dev_thread_step r t) = dt_joinable t"
  by (auto simp: dev_thread_step_def split: dt_pc.split option.split)

lemma device_moves_keep:
  assumes "stoppable s" and "\<forall>a \<in> set as. a \<noteq> Mv_Stop"
  shows "\<exists>s'. midi_moves as s = Inr s' \<and> stoppable s' \<and> mt_stop s' = mt_stop s \<and> mt_waiting s' = mt_waiting s
    \<and> (\<forall>k. dt_joinable (mt_threads s' k) = dt_joinable (mt_threads s k))
    \<and> (\<forall>k \<in> set (mt_stop s). dt_pc (mt_threads s k) = Dt_Over \<longrightarrow> dt_pc (mt_threads s' k) = Dt_Over)"
  using assms
proof (induction as arbitrary: s)
  case (Cons a as)
  then obtain k r where a: "a = Mv_Device k r" by (cases a) auto
  let ?s = "set_thread k (dev_thread_step r (mt_threads s k)) s"
  have "stoppable ?s"
    unfolding stoppable_def
  proof (intro conjI ballI impI)
    show "distinct (mt_stop ?s)" using Cons.prems(1) by (simp add: stoppable_def)
    fix j assume "j \<in> set (mt_stop ?s)"
    then have "dt_joinable (mt_threads s j)" "dt_pc (mt_threads s j) \<notin> {Dt_None, Dt_Spawned}"
      using Cons.prems(1) by (auto simp: stoppable_def)
    then show "dt_joinable (mt_threads ?s j)" "dt_pc (mt_threads ?s j) \<notin> {Dt_None, Dt_Spawned}"
      using dev_thread_step_keeps(3) [of "mt_threads s k" r] by (auto split: if_splits)
  next
    assume w: "mt_waiting ?s"
    then show "mt_stop ?s \<noteq> []" using Cons.prems(1) by (simp add: stoppable_def)
    have "hd (mt_stop s) \<in> set (mt_stop s)" "\<not> dt_running (mt_threads s (hd (mt_stop s)))"
      using w Cons.prems(1) by (auto simp: stoppable_def)
    then show "\<not> dt_running (mt_threads ?s (hd (mt_stop ?s)))"
      using dev_thread_step_keeps(2) [of "mt_threads s k" r] Cons.prems(1) by (auto simp: stoppable_def)
  qed
  from Cons.IH [OF this] Cons.prems(2) obtain s' where s': "midi_moves as ?s = Inr s'" "stoppable s'"
      "mt_stop s' = mt_stop s" "mt_waiting s' = mt_waiting s"
      "\<forall>j. dt_joinable (mt_threads s' j) = dt_joinable (mt_threads ?s j)"
      "\<forall>j \<in> set (mt_stop s). dt_pc (mt_threads ?s j) = Dt_Over \<longrightarrow> dt_pc (mt_threads s' j) = Dt_Over"
    by auto
  have "dt_pc (mt_threads ?s j) = Dt_Over" if "dt_pc (mt_threads s j) = Dt_Over" for j
    using that by (auto simp: dev_thread_step_def)
  then show ?case using s' a by (intro exI [of _ s']) auto
qed simp

text \<open>While the handler stops a device, its thread takes at least one message; all threads may move in
  between.\<close>

definition only_devices :: "mt_move list \<Rightarrow> bool" where
  "only_devices as \<longleftrightarrow> (\<forall>a \<in> set as. a \<noteq> Mv_Stop)"

definition stops_device :: "nat \<Rightarrow> mt_move list \<Rightarrow> bool" where
  "stops_device k c \<longleftrightarrow> (\<exists>us vs ws m. only_devices us \<and> only_devices vs \<and> only_devices ws
     \<and> c = us @ [Mv_Stop] @ vs @ [Mv_Device k (Some m)] @ ws @ [Mv_Stop])"

lemma stopped_thread_ends:
  assumes "\<not> dt_running t" and "dt_pc t \<notin> {Dt_None, Dt_Spawned}"
  shows "dt_pc (dev_thread_step (Some m) t) = Dt_Over"
  using assms by (cases "dt_pc t") (auto simp: dev_thread_step_def)

lemma device_stops:
  assumes "stoppable s" and "mt_stop s = k # ks" and "\<not> mt_waiting s" and "stops_device k c"
  shows "\<exists>s'. midi_moves c s = Inr s' \<and> stoppable s' \<and> mt_stop s' = ks \<and> \<not> mt_waiting s'
    \<and> \<not> dt_joinable (mt_threads s' k) \<and> (\<forall>j. j \<noteq> k \<longrightarrow> dt_joinable (mt_threads s' j) = dt_joinable (mt_threads s j))"
proof -
  obtain us vs ws m where o: "only_devices us" "only_devices vs" "only_devices ws"
    and c: "c = us @ [Mv_Stop] @ vs @ [Mv_Device k (Some m)] @ ws @ [Mv_Stop]"
    using assms(4) unfolding stops_device_def by blast
  obtain s1 where s1: "midi_moves us s = Inr s1" "stoppable s1" "mt_stop s1 = k # ks" "\<not> mt_waiting s1"
      "\<forall>j. dt_joinable (mt_threads s1 j) = dt_joinable (mt_threads s j)"
    using device_moves_keep [OF assms(1), of us] o(1) assms(2,3) by (auto simp: only_devices_def)
  define s2 where "s2 = (set_thread k ((mt_threads s1 k)\<lparr>dt_running := False\<rparr>) s1)\<lparr>mt_waiting := True\<rparr>"
  have m2: "midi_move Mv_Stop s1 = Inr s2" using s1(3,4) by (simp add: stop_step_def s2_def)
  have t2: "mt_stop s2 = k # ks" "mt_waiting s2" "dt_joinable (mt_threads s2 j) = dt_joinable (mt_threads s1 j)" for j
    using s1(3) by (simp_all add: s2_def)
  have ok2: "stoppable s2" using s1(2,3) by (auto simp: stoppable_def s2_def)
  obtain s3 where s3: "midi_moves vs s2 = Inr s3" "stoppable s3" "mt_stop s3 = k # ks" "mt_waiting s3"
      "\<forall>j. dt_joinable (mt_threads s3 j) = dt_joinable (mt_threads s2 j)"
    using device_moves_keep [OF ok2, of vs] o(2) t2 by (auto simp: only_devices_def)
  have "\<not> dt_running (mt_threads s3 k)" "dt_pc (mt_threads s3 k) \<notin> {Dt_None, Dt_Spawned}"
    using s3(2,3,4) by (auto simp: stoppable_def)
  note over = stopped_thread_ends [OF this, of m]
  obtain s4 where s4: "midi_moves [Mv_Device k (Some m)] s3 = Inr s4" "stoppable s4" "mt_stop s4 = k # ks" "mt_waiting s4"
      "\<forall>j. dt_joinable (mt_threads s4 j) = dt_joinable (mt_threads s3 j)"
    using device_moves_keep [OF s3(2), of "[Mv_Device k (Some m)]"] s3(3,4) by auto
  have over4: "dt_pc (mt_threads s4 k) = Dt_Over" using s4(1) over by auto
  obtain s5 where s5: "midi_moves ws s4 = Inr s5" "stoppable s5" "mt_stop s5 = k # ks" "mt_waiting s5"
      "\<forall>j. dt_joinable (mt_threads s5 j) = dt_joinable (mt_threads s4 j)" "dt_pc (mt_threads s5 k) = Dt_Over"
    using device_moves_keep [OF s4(2), of ws] o(3) s4(3,4) over4 by (auto simp: only_devices_def)
  define s6 where "s6 = (set_thread k ((mt_threads s5 k)\<lparr>dt_joinable := False\<rparr>) s5)\<lparr>mt_stop := ks, mt_waiting := False\<rparr>"
  have "dt_joinable (mt_threads s5 k)" using s5(2,3) by (simp add: stoppable_def)
  then have m6: "midi_move Mv_Stop s5 = Inr s6" using s5(3,4,6) by (simp add: stop_step_def s6_def)
  have "midi_moves c s = Inr s6"
    using s1(1) m2 s3(1) s4(1) s5(1) m6 by (simp add: c midi_moves_append)
  moreover have "stoppable s6" using s5(2,3) by (auto simp: stoppable_def s6_def)
  moreover have "mt_stop s6 = ks" "\<not> mt_waiting s6" "\<not> dt_joinable (mt_threads s6 k)"
    by (simp_all add: s6_def)
  moreover have "dt_joinable (mt_threads s6 j) = dt_joinable (mt_threads s j)" if "j \<noteq> k" for j
    using that s1(5) t2(3) s3(5) s4(5) s5(5) by (simp add: s6_def)
  ultimately show ?thesis by blast
qed

lemma devices_stop:
  assumes "stoppable s" and "mt_stop s = ks" and "\<not> mt_waiting s" and "list_all2 stops_device ks cs"
  shows "\<exists>s'. midi_moves (concat cs) s = Inr s' \<and> mt_stop s' = []
    \<and> (\<forall>k. dt_joinable (mt_threads s' k) \<longleftrightarrow> k \<notin> set ks \<and> dt_joinable (mt_threads s k))"
  using assms
proof (induction ks arbitrary: s cs)
  case (Cons k ks)
  then obtain c cs' where cs: "cs = c # cs'" "stops_device k c" "list_all2 stops_device ks cs'"
    by (auto simp: list_all2_Cons1)
  obtain s1 where s1: "midi_moves c s = Inr s1" "stoppable s1" "mt_stop s1 = ks" "\<not> mt_waiting s1"
      "\<not> dt_joinable (mt_threads s1 k)" "\<forall>j. j \<noteq> k \<longrightarrow> dt_joinable (mt_threads s1 j) = dt_joinable (mt_threads s j)"
    using device_stops [OF Cons.prems(1,2,3) cs(2)] by blast
  obtain s' where "midi_moves (concat cs') s1 = Inr s'" "mt_stop s' = []"
      "\<forall>j. dt_joinable (mt_threads s' j) \<longleftrightarrow> j \<notin> set ks \<and> dt_joinable (mt_threads s1 j)"
    using Cons.IH [OF s1(2,3,4) cs(3)] by blast
  then show ?case using s1 cs(1) by (auto simp: midi_moves_append)
qed simp

text \<open>A stop that comes before the device's thread has set \<open>m_running\<close> is lost: the thread sets it
  again, and \<open>join\<close> waits as long as only notes come in.\<close>

lemma midi_stop_lost:
  assumes "mt_stop s = k # ks" and "\<not> mt_waiting s" and "dt_joinable (mt_threads s k)"
    and "dt_pc (mt_threads s k) = Dt_Spawned"
    and "\<forall>m. Mv_Device k (Some m) \<in> set as \<longrightarrow> mm_f m \<noteq> 0"
  shows "\<exists>s'. midi_moves (Mv_Stop # Mv_Device k None # as) s = Inr s' \<and> mt_stop s' = k # ks \<and> dt_joinable (mt_threads s' k)"
proof -
  define waits :: "'a midi_threads \<Rightarrow> bool" where
    "waits s \<longleftrightarrow> mt_stop s = k # ks \<and> mt_waiting s \<and> dt_joinable (mt_threads s k) \<and> dt_running (mt_threads s k)
       \<and> dt_pc (mt_threads s k) \<in> {Dt_While, Dt_Flush}" for s
  have "\<exists>s'. midi_moves as r = Inr s' \<and> mt_stop s' = k # ks \<and> dt_joinable (mt_threads s' k)" if "waits r" for r
    using that assms(5)
  proof (induction as arbitrary: r)
    case (Cons a as)
    have "\<exists>r'. midi_move a r = Inr r' \<and> waits r'"
    proof (cases a)
      case (Mv_Device j reading)
      then show ?thesis
        using Cons.prems by (auto simp: waits_def dev_thread_step_def call_binding_def split: option.split)
    next
      case Mv_Stop
      then show ?thesis using Cons.prems by (auto simp: waits_def stop_step_def)
    qed
    then show ?case using Cons.IH Cons.prems(2) by auto
  qed (simp add: waits_def)
  moreover obtain r where "midi_moves [Mv_Stop, Mv_Device k None] s = Inr r" "waits r"
    using assms(1-4) by (simp add: stop_step_def waits_def dev_thread_step_def)
  ultimately show ?thesis using midi_moves_append [of "[Mv_Stop, Mv_Device k None]" as s] by auto
qed

section \<open>Properties\<close>

text \<open>C33. Stopping the handler, whatever the threads of the devices do in between. It ends with every active device's thread
  joined when each thread is past its first step, where \<open>cycle\<close> sets \<open>m_running\<close>, and takes one more message
  while its device is being stopped. A thread that is still at its first step when \<open>stop\<close> clears \<open>m_running\<close> sets it
  again: then the handler waits in \<open>join\<close>, however many notes come in, as long as no read gives an empty message.\<close>

theorem midi_stop_joins:
  assumes "distinct active"
    and "\<forall>k \<in> set active. dt_joinable (mt_threads s k) \<and> dt_pc (mt_threads s k) \<noteq> Dt_None"
  shows "((\<forall>k \<in> set active. dt_pc (mt_threads s k) \<noteq> Dt_Spawned) \<and> list_all2 stops_device active cs \<longrightarrow>
      (\<exists>s'. midi_moves (concat cs) (midi_stop active s) = Inr s' \<and> mt_stop s' = []
         \<and> (\<forall>k \<in> set active. \<not> dt_joinable (mt_threads s' k))))
    \<and> (active = k # ks \<and> dt_pc (mt_threads s k) = Dt_Spawned \<and> (\<forall>m. Mv_Device k (Some m) \<in> set as \<longrightarrow> mm_f m \<noteq> 0) \<longrightarrow>
      (\<exists>s'. midi_moves (Mv_Stop # Mv_Device k None # as) (midi_stop active s) = Inr s' \<and> mt_stop s' = active
         \<and> dt_joinable (mt_threads s' k)))"
proof (intro conjI impI)
  have m: "mt_stop (midi_stop active s) = active" "\<not> mt_waiting (midi_stop active s)"
    "mt_threads (midi_stop active s) = mt_threads s"
    by (simp_all add: midi_stop_def)
  {
    assume a: "(\<forall>k \<in> set active. dt_pc (mt_threads s k) \<noteq> Dt_Spawned) \<and> list_all2 stops_device active cs"
    then have "stoppable (midi_stop active s)" using assms by (auto simp: stoppable_def midi_stop_def)
    from devices_stop [OF this m(1,2) conjunct2 [OF a]]
    show "\<exists>s'. midi_moves (concat cs) (midi_stop active s) = Inr s' \<and> mt_stop s' = []
        \<and> (\<forall>k \<in> set active. \<not> dt_joinable (mt_threads s' k))" by blast
  }
  assume b: "active = k # ks \<and> dt_pc (mt_threads s k) = Dt_Spawned \<and> (\<forall>m. Mv_Device k (Some m) \<in> set as \<longrightarrow> mm_f m \<noteq> 0)"
  then show "\<exists>s'. midi_moves (Mv_Stop # Mv_Device k None # as) (midi_stop active s) = Inr s' \<and> mt_stop s' = active
      \<and> dt_joinable (mt_threads s' k)"
    using midi_stop_lost [of "midi_stop active s" k ks as] m assms(2) by auto
qed

definition demo_threads :: "nat midi_threads" where
  "demo_threads = \<lparr>mt_threads = (\<lambda>_. \<lparr>dt_joinable = False, dt_pc = Dt_None, dt_running = False,
      dt_bindings = (\<lambda>n. if n = 60 then Some 7 else None), dt_calls = []\<rparr>), mt_stop = [], mt_waiting = False\<rparr>"

definition demo_note :: midi_msg where
  "demo_note = \<lparr>mm_f = 144, mm_n = 60, mm_v = 1\<rparr>"

theorem midi_stop_joins_witness:
  "\<exists>s s'. midi_start [0, 1] demo_threads = Inr s
     \<and> midi_moves ([Mv_Device 0 None, Mv_Device 1 None, Mv_Device 1 None]
         @ [Mv_Stop, Mv_Device 1 (Some demo_note), Mv_Device 0 (Some demo_note), Mv_Stop]
         @ [Mv_Stop, Mv_Device 1 (Some demo_note), Mv_Stop])
        (midi_stop [0, 1] s) = Inr s'
     \<and> mt_stop s' = [] \<and> \<not> dt_joinable (mt_threads s' 0) \<and> \<not> dt_joinable (mt_threads s' 1)
     \<and> (\<exists>s''. midi_moves (Mv_Stop # Mv_Device 0 None # replicate 50 (Mv_Device 0 (Some demo_note))) (midi_stop [0, 1] s) = Inr s''
          \<and> mt_stop s'' = [0, 1])"
proof -
  obtain s where s: "midi_start [0, 1] demo_threads = Inr s"
    by (simp add: dev_thread_start_def demo_threads_def)
  define r where "r = set_thread 1 (dev_thread_step None (dev_thread_step None (mt_threads s 1)))
    (set_thread 0 (dev_thread_step None (mt_threads s 0)) s)"
  have j: "\<forall>k \<in> set [0, 1]. dt_joinable (mt_threads r k) \<and> dt_pc (mt_threads r k) \<notin> {Dt_None, Dt_Spawned}"
    using s by (auto simp: r_def dev_thread_start_def demo_threads_def dev_thread_step_def)
  let ?cs = "[[Mv_Stop, Mv_Device 1 (Some demo_note), Mv_Device 0 (Some demo_note), Mv_Stop],
      [Mv_Stop, Mv_Device 1 (Some demo_note), Mv_Stop]]"
  have "stops_device 0 (?cs ! 0)"
    unfolding stops_device_def
    by (intro exI [of _ "[]"] exI [of _ "[Mv_Device 1 (Some demo_note)]"] exI [of _ demo_note])
       (simp add: only_devices_def)
  moreover have "stops_device 1 (?cs ! 1)"
    unfolding stops_device_def
    by (intro exI [of _ "[]"] exI [of _ demo_note]) (simp add: only_devices_def)
  ultimately have cs: "list_all2 stops_device [0, 1] ?cs" by simp
  let ?as = "[Mv_Device 0 None, Mv_Device 1 None, Mv_Device 1 None]"
  have a: "midi_moves ?as (midi_stop [0, 1] s) = Inr (midi_stop [0, 1] r)"
    by (simp add: r_def midi_stop_def set_thread_def fun_upd_twist)
  obtain s' where s': "midi_moves (concat ?cs) (midi_stop [0, 1] r) = Inr s'" "mt_stop s' = []"
      "\<forall>k \<in> set [0, 1]. \<not> dt_joinable (mt_threads s' k)"
    using conjunct1 [OF midi_stop_joins [of "[0, 1]" r ?cs 0 "[]" "[]"]] j cs by (simp del: concat.simps) blast
  have "midi_moves (?as @ concat ?cs) (midi_stop [0, 1] s) = Inr s'"
    by (simp only: midi_moves_append a bind_res_Inr s'(1))
  moreover have "\<forall>k \<in> set [0, 1]. dt_joinable (mt_threads s k) \<and> dt_pc (mt_threads s k) = Dt_Spawned"
    using s by (auto simp: dev_thread_start_def demo_threads_def)
  then have "\<exists>s''. midi_moves (Mv_Stop # Mv_Device 0 None # replicate 50 (Mv_Device 0 (Some demo_note))) (midi_stop [0, 1] s)
      = Inr s'' \<and> mt_stop s'' = [0, 1]"
    using conjunct2 [OF midi_stop_joins [of "[0, 1]" s "[]" 0 "[1]" "replicate 50 (Mv_Device 0 (Some demo_note))"]]
    by (fastforce simp: demo_note_def simp del: midi_moves.simps replicate.simps)
  ultimately show ?thesis
    using s s'(2,3) by - (rule exI [of _ s], rule exI [of _ s'], simp del: midi_start.simps replicate.simps)
qed

end
