(* ===== verification/System_Start.thy ===== *)
theory System_Start
  imports System_Plan Midi_Threads
begin

text \<open>
  The last part of \<open>system::setup\<close> (\<^verbatim>\<open>framework/routine/system.cpp\<close>): the midi handler is initialised and started, so that
  every device whose port opens gets a thread. This is where the configuration (theory \<open>System\<close>) and the
  threads of the devices (theory \<open>Midi_Threads\<close>) meet. The thread of the queue, which \<open>setup\<close> starts before, is the one
  of \<open>Task_Queue\<close>.
\<close>

definition device_thread :: "('f, 'h) device \<Rightarrow> 'f dev_thread" where
  "device_thread d = \<lparr>dt_joinable = False, dt_pc = Dt_None, dt_running = dv_running d, dt_bindings = dv_bindings d,
     dt_calls = []\<rparr>"

definition handler_threads :: "('f, 'h) midi_handler \<Rightarrow> 'f midi_threads" where
  "handler_threads h = \<lparr>mt_threads = (\<lambda>k. device_thread (mh_devices h ! k)), mt_stop = [], mt_waiting = False\<rparr>"

definition handler_start :: "('f, 'h) midi_handler \<Rightarrow> 'f midi_threads result" where
  "handler_start h = bind_res (active_devices h) (\<lambda>_. midi_start (mh_active_dev h) (handler_threads h))"

definition setup_start ::
    "bool \<Rightarrow> json_env \<Rightarrow> (string \<Rightarrow> string option) \<Rightarrow> 'h midi_driver \<Rightarrow> 'f unit_factory \<Rightarrow> 'm \<Rightarrow> string \<Rightarrow> int
      \<Rightarrow> (('m, 'f, 'h, 't, 'l ev_loop) sio_system \<times> 'f midi_threads) result" where
  "setup_start moves E files drv F user config_path cache_blocks =
     bind_res (system_setup moves E files drv F user config_path cache_blocks) (\<lambda>s.
       case get_midi_handler s of
         None \<Rightarrow> Inl Null_Deref
       | Some h \<Rightarrow> map_res (Pair s) (handler_start h))"

section \<open>Lemmas\<close>

text \<open>\<open>init\<close> makes a device active when its input opens, and leaves its bindings alone.\<close>

definition opens :: "'h midi_driver \<Rightarrow> ('f, 'h) device \<Rightarrow> bool" where
  "opens drv d \<longleftrightarrow> open_input_port drv (dv_alias d) (dv_port_name d) \<noteq> None"

lemma device_init_keeps:
  "fst (device_init drv d) \<longleftrightarrow> opens drv d" "dv_bindings (snd (device_init drv d)) = dv_bindings d"
  by (auto simp: device_init_def opens_def Let_def split: option.splits)

lemma init_devices_active:
  "init_devices drv i ds = (ds', active) \<Longrightarrow> distinct active \<and> length ds' = length ds
     \<and> map dv_bindings ds' = map dv_bindings ds
     \<and> set active = {k. i \<le> k \<and> k < i + length ds \<and> opens drv (ds ! (k - i))}"
proof (induction ds arbitrary: i ds' active)
  case (Cons d ds)
  obtain ok d1 where d: "device_init drv d = (ok, d1)" by (cases "device_init drv d")
  obtain ds1 act1 where r: "init_devices drv (i + 1) ds = (ds1, act1)" by (cases "init_devices drv (i + 1) ds")
  note ih = Cons.IH [OF r]
  have ok: "ok \<longleftrightarrow> opens drv d" "dv_bindings d1 = dv_bindings d" using device_init_keeps [of drv d] d by simp_all
  have e: "ds' = d1 # ds1" "active = (if ok then i # act1 else act1)" using Cons.prems d r by simp_all
  have split: "{k. i \<le> k \<and> k < i + length (d # ds) \<and> opens drv ((d # ds) ! (k - i))}
      = (if ok then {i} else {}) \<union> {k. i + 1 \<le> k \<and> k < i + 1 + length ds \<and> opens drv (ds ! (k - (i + 1)))}"
    (is "?L = ?R")
  proof (rule set_eqI)
    fix k
    show "k \<in> ?L \<longleftrightarrow> k \<in> ?R"
    proof (cases "k \<le> i")
      case True
      then show ?thesis using ok(1) by auto
    next
      case False
      then have "k - i = Suc (k - (i + 1))" by simp
      then show ?thesis using False by auto
    qed
  qed
  have "i \<notin> set act1" using ih by simp
  then show ?case using ih e ok(2) unfolding split by auto
qed simp

lemma init_active:
  assumes "mh_active_dev h = []" and "\<not> mh_dangling h"
  shows "distinct (mh_active_dev (midi_init drv h))" "\<not> mh_dangling (midi_init drv h)"
    "set (mh_active_dev (midi_init drv h)) = {k. k < length (mh_devices h) \<and> opens drv (mh_devices h ! k)}"
proof -
  obtain ds act where r: "init_devices drv 0 (mh_devices h) = (ds, act)" by (cases "init_devices drv 0 (mh_devices h)")
  then show "distinct (mh_active_dev (midi_init drv h))" "\<not> mh_dangling (midi_init drv h)"
    "set (mh_active_dev (midi_init drv h)) = {k. k < length (mh_devices h) \<and> opens drv (mh_devices h ! k)}"
    using assms init_devices_active [OF r] by (simp_all add: midi_init_def)
qed

lemma handler_starts:
  assumes "distinct (mh_active_dev h)" and "\<not> mh_dangling h"
  shows "\<exists>ts. handler_start h = Inr ts \<and> mt_stop ts = [] \<and> \<not> mt_waiting ts
    \<and> (\<forall>k. mt_threads ts k = (if k \<in> set (mh_active_dev h)
         then (device_thread (mh_devices h ! k))\<lparr>dt_joinable := True, dt_pc := Dt_Spawned\<rparr>
         else device_thread (mh_devices h ! k)))"
proof -
  have t: "mt_threads (handler_threads h) k = device_thread (mh_devices h ! k)" for k
    by (simp add: handler_threads_def)
  have r: "\<forall>k \<in> set (mh_active_dev h). \<not> dt_joinable (mt_threads (handler_threads h) k)"
    by (simp add: t device_thread_def)
  have "handler_start h = midi_start (mh_active_dev h) (handler_threads h)"
    using assms(2) by (simp add: handler_start_def active_devices_def)
  moreover obtain ts where "midi_start (mh_active_dev h) (handler_threads h) = Inr ts"
    "mt_stop ts = mt_stop (handler_threads h)" "mt_waiting ts = mt_waiting (handler_threads h)"
    "\<forall>k. mt_threads ts k = (if k \<in> set (mh_active_dev h)
       then (mt_threads (handler_threads h) k)\<lparr>dt_joinable := True, dt_pc := Dt_Spawned\<rparr>
       else mt_threads (handler_threads h) k)"
    using midi_start_spawns [OF assms(1) r] by blast
  moreover have "mt_stop (handler_threads h) = []" "\<not> mt_waiting (handler_threads h)"
    by (simp_all add: handler_threads_def)
  ultimately show ?thesis unfolding t by (intro exI [of _ ts]) simp
qed

section \<open>Properties\<close>

text \<open>C39. After \<open>setup\<close> the devices run that the configuration names and the driver opens: one thread each for exactly the
  controllers whose port opens, before its first step; no other thread is there. A thread looks notes up in what the units
  of the configuration bind on its controller: the handlers that mounted units export under the names in
  their descriptions, for the codes given there, the first of a code in the order in which the units were mounted.\<close>

theorem setup_starts_devices:
  fixes user :: 'm and drv :: "'h midi_driver" and F :: "'f unit_factory"
  assumes "je_point E = ''.''" and "exact_ints E" and "desc_ok d"
    and "files path = Some (json_serialize E prettify (desc_json d))"
    and "factory_ok F" and "lk_to ` set (ds_daisychains d) \<subseteq> su_label ` set (ds_units d)"
  shows "\<exists>(s :: ('m, 'f, 'h, 't, 'l ev_loop) sio_system) h ts.
    setup_start moves E files drv F user path cache_blocks = Inr (s, ts) \<and> sy_midi s = Some h
    \<and> (\<forall>k. dt_joinable (mt_threads ts k) \<longleftrightarrow> k < length (ds_controllers d)
         \<and> open_input_port drv (ct_label (ds_controllers d ! k)) (ct_port (ds_controllers d ! k)) \<noteq> None)
    \<and> (\<forall>k. dt_joinable (mt_threads ts k) \<longrightarrow> dt_pc (mt_threads ts k) = Dt_Spawned
         \<and> dt_bindings (mt_threads ts k)
             = map_of (plan_bindings F d (plan_mounts F d (ds_daisychains d)) (ct_label (ds_controllers d ! k)))
         \<and> dt_calls (mt_threads ts k) = [])"
proof -
  let ?xs = "plan_mounts F d (ds_daisychains d)"
  obtain s :: "('m, 'f, 'h, 't, 'l ev_loop) sio_system" and h where
    re: "realises F d ?xs (plan_wires F d (ds_daisychains d)) (plan_lines F d (ds_daisychains d)) s"
    and h: "sy_midi s = Some h"
    and ids: "handler_ids h = map (\<lambda>c. (ct_label c, ct_port c, ct_led_on c, ct_led_off c)) (ds_controllers d)"
    and act: "mh_active_dev h = []" "\<not> mh_dangling h"
    and run: "system_setup moves E files drv F user path cache_blocks = Inr (set_midi_handler (Some (midi_init drv h)) s)"
    by (rule setup_plan [where files = files and path = path and prettify = prettify and F = F and moves = moves
        and drv = drv and user = user and cache_blocks = cache_blocks, OF assms])
  let ?h = "midi_init drv h"
  note active = init_active [OF act, of drv]
  obtain ts where ts: "handler_start ?h = Inr ts"
    "\<And>k. mt_threads ts k = (if k \<in> set (mh_active_dev ?h)
         then (device_thread (mh_devices ?h ! k))\<lparr>dt_joinable := True, dt_pc := Dt_Spawned\<rparr>
         else device_thread (mh_devices ?h ! k))"
    using handler_starts [OF active(1,2)] by blast
  have len: "length (mh_devices h) = length (ds_controllers d)"
    using arg_cong [OF ids, of length] by (simp add: handler_ids_def)
  have "opens drv (mh_devices h ! k)
      \<longleftrightarrow> open_input_port drv (ct_label (ds_controllers d ! k)) (ct_port (ds_controllers d ! k)) \<noteq> None"
    if "k < length (ds_controllers d)" for k
  proof -
    have "device_id (mh_devices h ! k) = handler_ids h ! k" using that len by (simp add: handler_ids_def)
    then show ?thesis using that by (simp add: ids device_id_def opens_def)
  qed
  then have on: "k \<in> set (mh_active_dev ?h) \<longleftrightarrow> k < length (ds_controllers d)
      \<and> open_input_port drv (ct_label (ds_controllers d ! k)) (ct_port (ds_controllers d ! k)) \<noteq> None" for k
    using active(3) len by auto
  have bs: "map dv_bindings (mh_devices ?h) = map (\<lambda>c. map_of (plan_bindings F d ?xs (ct_label c))) (ds_controllers d)"
    using realises_bindings [OF re h ids] by (simp add: midi_init_bindings)
  have b: "dv_bindings (mh_devices ?h ! k) = map_of (plan_bindings F d ?xs (ct_label (ds_controllers d ! k)))"
    if "k < length (ds_controllers d)" for k
  proof -
    have "length (mh_devices ?h) = length (ds_controllers d)" using arg_cong [OF bs, of length] by simp
    then show ?thesis using arg_cong [OF bs, of "\<lambda>xs. xs ! k"] that by simp
  qed
  have start: "setup_start moves E files drv F user path cache_blocks = Inr (set_midi_handler (Some ?h) s, ts)"
    by (simp add: setup_start_def run get_midi_handler_def set_midi_handler_def ts(1))
  show ?thesis
    by (rule exI [of _ "set_midi_handler (Some ?h) s"], rule exI [of _ ?h], rule exI [of _ ts])
       (use start on b in \<open>simp add: ts(2) device_thread_def set_midi_handler_def\<close>)
qed

text \<open>Of the two controllers of the rig the port of the second opens.\<close>

theorem setup_starts_devices_witness:
  "\<exists>(s :: (unit, string, nat, string, unit ev_loop) sio_system) ts.
     setup_start False demo_env [''rack.cfg'' \<mapsto> json_serialize demo_env True (desc_json rig_plan)] rig_driver rig_factory
       () ''rack.cfg'' 32 = Inr (s, ts)
     \<and> \<not> dt_joinable (mt_threads ts 0) \<and> dt_joinable (mt_threads ts 1) \<and> dt_pc (mt_threads ts 1) = Dt_Spawned
     \<and> dt_bindings (mt_threads ts 1) = [60 \<mapsto> ''play''] \<and> \<not> dt_joinable (mt_threads ts 2)"
proof -
  let ?files = "[''rack.cfg'' \<mapsto> json_serialize demo_env True (desc_json rig_plan)]"
  have f: "?files ''rack.cfg'' = Some (json_serialize demo_env True (desc_json rig_plan))" by simp
  have c: "length (ds_controllers rig_plan) = 2" "ct_label (ds_controllers rig_plan ! 1) = ''pad''"
    "open_input_port rig_driver (ct_label (ds_controllers rig_plan ! 0)) (ct_port (ds_controllers rig_plan ! 0)) = None"
    "open_input_port rig_driver (ct_label (ds_controllers rig_plan ! 1)) (ct_port (ds_controllers rig_plan ! 1)) = Some 3"
    by (simp_all add: rig_plan_def demo_desc_def rig_driver_def)
  obtain s :: "(unit, string, nat, string, unit ev_loop) sio_system" and ts where
    r: "setup_start False demo_env ?files rig_driver rig_factory () ''rack.cfg'' 32 = Inr (s, ts)"
    and j: "\<forall>k. dt_joinable (mt_threads ts k) \<longleftrightarrow> k < length (ds_controllers rig_plan)
         \<and> open_input_port rig_driver (ct_label (ds_controllers rig_plan ! k)) (ct_port (ds_controllers rig_plan ! k)) \<noteq> None"
    and b: "\<forall>k. dt_joinable (mt_threads ts k) \<longrightarrow> dt_pc (mt_threads ts k) = Dt_Spawned
         \<and> dt_bindings (mt_threads ts k) = map_of (plan_bindings rig_factory rig_plan
             (plan_mounts rig_factory rig_plan (ds_daisychains rig_plan)) (ct_label (ds_controllers rig_plan ! k)))"
    using setup_starts_devices [where E = demo_env and files = ?files and path = "''rack.cfg''" and prettify = True
        and d = rig_plan and moves = False and drv = rig_driver and user = "()" and cache_blocks = 32 and F = rig_factory
        and 't = string and 'l = unit, OF demo_good(1,2) rig_ok(1) f rig_ok(2,3)]
    by blast
  have j1: "\<not> dt_joinable (mt_threads ts 0)" "dt_joinable (mt_threads ts 1)" "\<not> dt_joinable (mt_threads ts 2)"
    using j c by simp_all
  have "dt_pc (mt_threads ts 1) = Dt_Spawned" "dt_bindings (mt_threads ts 1) = [60 \<mapsto> ''play'']"
    using b [rule_format, OF j1(2)] by (simp_all add: c(2) [unfolded One_nat_def] rig_plans)
  with r j1 show ?thesis by blast
qed

end
