(* ===== verification/Unit_Services.thy ===== *)
theory Unit_Services
  imports Cache_Ptr Event_Loop Task_Queue Midi
begin

text \<open>
  What a unit gets from its rack besides the links: \<open>mount_dependencies\<close> and the destructor of \<^verbatim>\<open>framework/component/rack.cpp\<close>, and of
  \<^verbatim>\<open>framework/component/unit.cpp\<close> the allocation of blocks and the leds. The pointers a unit gets are those the rack has when
  the unit is mounted; a rack that gets its cache later leaves its units without one.
\<close>

section \<open>The services of a unit\<close>

record unit_services =
  us_ident :: registrable
  us_rack :: bool
  us_cptr :: cptr_utility
  us_loop :: event_utility
  us_tasks :: task_utility

definition unit_services_make :: "string \<Rightarrow> string \<Rightarrow> unit_services" where
  "unit_services_make model label =
     \<lparr>us_ident = registrable_make model label Ctype_Unit, us_rack = False,
      us_cptr = cptr_utility_make (model @ ''::'' @ label), us_loop = event_utility_make, us_tasks = task_utility_make\<rparr>"

definition set_rack :: "bool \<Rightarrow> unit_services \<Rightarrow> unit_services" where
  "set_rack rack u = u\<lparr>us_rack := rack\<rparr>"

text \<open>The cache is one object, so its pointer is null or not; loops and queues are told apart by numbers.\<close>

definition mount_dependencies :: "bool \<Rightarrow> nat option \<Rightarrow> nat option \<Rightarrow> unit_services \<Rightarrow> unit_services" where
  "mount_dependencies cache loop queue u =
     (let u1 = set_rack True u;
          u2 = u1\<lparr>us_cptr := set_cache_utility cache (us_cptr u1)\<rparr>;
          u3 = u2\<lparr>us_loop := set_loop_utility loop (us_loop u2)\<rparr>
      in u3\<lparr>us_tasks := set_queue_utility queue (us_tasks u3)\<rparr>)"

definition unit_cache_alloc ::
    "(nat \<Rightarrow> int \<Rightarrow> 'c \<Rightarrow> nat result \<times> int \<times> 'c) \<Rightarrow> unit_services \<Rightarrow> nat \<Rightarrow> 'c \<Rightarrow> cache_ptr result \<times> 'c" where
  "unit_cache_alloc al u num c =
     (case cache_alloc al (us_cptr u) num c of
        (Inl e, c') \<Rightarrow> (Inl e, c')
      | (Inr cptr, c') \<Rightarrow> (Inr (cptr_set_owner (rg_handle (us_ident u)) cptr), c'))"

definition unit_toggle_led ::
    "int \<Rightarrow> unit_services \<Rightarrow> ('f, 'h) midi_handler option \<Rightarrow> ('h \<times> midi_msg) list result" where
  "unit_toggle_led state u led = toggle_led_state (rg_label (us_ident u)) state led"

text \<open>The base class ignores configurations; in a development build it answers with an empty text.\<close>

definition unit_set_configuration :: "string \<Rightarrow> string \<Rightarrow> unit_services \<Rightarrow> unit_services" where
  "unit_set_configuration key val u = u"

definition unit_get_configuration :: "string \<Rightarrow> unit_services \<Rightarrow> string" where
  "unit_get_configuration key u = []"

section \<open>The end of a rack\<close>

text \<open>A block is given back to the cache; \<open>None\<close> is a cache that has been deleted.\<close>

definition free_through :: "nat \<Rightarrow> cache_manager option \<Rightarrow> cache_manager option result" where
  "free_through ptr c = (case c of None \<Rightarrow> Inl Use_After_Free | Some m \<Rightarrow> map_res Some (free_raw ptr m))"

fun destroy_handles :: "cache_ptr list \<Rightarrow> cache_manager option \<Rightarrow> cache_manager option result" where
  "destroy_handles [] c = Inr c"
| "destroy_handles (p # ps) c = bind_res (cptr_destroy free_through p c) (destroy_handles ps)"

text \<open>The destructor of a rack that has been stopped deletes the cache; the units it holds are destroyed after
  it, as members of the base class, with the handles \<open>ps\<close> they still have.\<close>

definition rack_destroy :: "cache_ptr list \<Rightarrow> cache_manager option \<Rightarrow> cache_manager option result" where
  "rack_destroy ps c = (let c1 = (if c \<noteq> None then None else c) in destroy_handles ps c1)"

section \<open>What exceptions say\<close>

text \<open>\<open>what\<close> of \<^verbatim>\<open>framework/include/framework/exceptions.hpp\<close> prints into an array of 256 characters; the terminating zero
  takes one.\<close>

definition print_message :: "string \<Rightarrow> string \<Rightarrow> string result" where
  "print_message message cmpt =
     (let m = message @ [CHR 0x09] @ ''['' @ cmpt @ '']'' in if length m < 256 then Inr m else Inl Out_Of_Bounds)"

definition exception_what :: "sio_error \<Rightarrow> string result" where
  "exception_what e =
     (case e of
        Cache_Drain cmpt \<Rightarrow> print_message ''Exception: Cache drained of resources - cannot allocate block'' cmpt
      | Cache_Nullptr cmpt \<Rightarrow> print_message ''Exception: Null cache_ptr'' cmpt
      | _ \<Rightarrow> Inr ''Generic internal exception'')"

section \<open>Lemmas\<close>

lemma mount_keeps_identity [simp]:
  "us_ident (mount_dependencies cache loop queue u) = us_ident u"
  "us_rack (mount_dependencies cache loop queue u)"
  "cu_cache (us_cptr (mount_dependencies cache loop queue u)) = cache"
  by (simp_all add: mount_dependencies_def set_rack_def set_cache_utility_def Let_def)

text \<open>A unit mounted on a rack with a cache allocates from it and owns the block.\<close>

lemma mounted_unit_allocates:
  assumes "alloc_raw_tracked num 0 c = (Inr ptr, tid, c')"
  shows "\<exists>p. unit_cache_alloc alloc_raw_tracked (mount_dependencies True loop queue u) num c = (Inr p, c')
    \<and> cp_block p = ptr \<and> cp_num_blocks p = num \<and> cp_tracking_id p = tid \<and> cp_cache p
    \<and> cp_owner p = rg_handle (us_ident u)"
  using assms
  by (simp add: unit_cache_alloc_def cache_alloc_def cptr_set_owner_def cache_ptr_make_def)

text \<open>A unit mounted before the rack has a cache gets null handles, without an error.\<close>

lemma unit_without_cache:
  "\<exists>p. unit_cache_alloc al (mount_dependencies False loop queue u) num c = (Inr p, c) \<and> \<not> cptr_bool p"
  by (simp add: unit_cache_alloc_def cache_alloc_def cptr_set_owner_def cache_ptr_make_def cptr_bool_def)

text \<open>A cache that is exhausted is reported with the name of the unit.\<close>

lemma unit_alloc_drained:
  assumes "al num 0 c = (Inl (Cache_Drain name), tid, c')"
  shows "unit_cache_alloc al (mount_dependencies True loop queue (unit_services_make model label)) num c
    = (Inl (Cache_Drain (model @ ''::'' @ label)), c')"
proof -
  have "cu_component_name (us_cptr (mount_dependencies True loop queue (unit_services_make model label))) = model @ ''::'' @ label"
    by (simp add: mount_dependencies_def set_rack_def set_cache_utility_def unit_services_make_def cptr_utility_make_def Let_def)
  then show ?thesis using assms by (simp add: unit_cache_alloc_def cache_alloc_def set_component_def)
qed

lemma destroy_after_delete:
  "destroy_handles ps None =
     (if \<exists>p \<in> set ps. cp_cache p \<and> cp_block p \<noteq> 0 then Inl Use_After_Free else Inr None)"
  by (induction ps) (auto simp: cptr_destroy_def free_through_def)

text \<open>A rack that is destroyed while a unit holds a block gives the block back to a cache that is gone.\<close>

lemma rack_destroy_dangles:
  "rack_destroy ps (Some c) = Inl Use_After_Free \<longleftrightarrow> (\<exists>p \<in> set ps. cp_cache p \<and> cp_block p \<noteq> 0)"
  by (simp add: rack_destroy_def destroy_after_delete)

text \<open>The name of the unit is part of the text, and it comes from the configuration: a long one overruns the
  array.\<close>

lemma drain_text_fits:
  "exception_what (Cache_Drain (model @ ''::'' @ label)) = Inl Out_Of_Bounds \<longleftrightarrow> 190 \<le> length model + length label"
  by (simp add: exception_what_def print_message_def Let_def)

end
