(* ===== verification/Debug_Clock.thy ===== *)
theory Debug_Clock
  imports SIO_Prelude
begin

text \<open>
  The clocks of \<^verbatim>\<open>framework/include/framework/routine/debug.hpp\<close>. A time point of \<open>steady_clock\<close> is a number of
  nanoseconds; what the clock shows is a parameter. \<open>duration_cast\<close> drops the fraction, and the count is
  narrowed to \<open>int\<close>.
\<close>

definition trunc_div :: "int \<Rightarrow> int \<Rightarrow> int" where
  "trunc_div a b = (if 0 \<le> a then a div b else - (- a div b))"

definition to_int32 :: "int \<Rightarrow> int" where
  "to_int32 n = (n + 2147483648) mod 4294967296 - 2147483648"

definition clock_delta_us :: "int \<Rightarrow> int \<Rightarrow> int" where
  "clock_delta_us start finish = to_int32 (trunc_div (finish - start) 1000)"

definition clock_delta_ms :: "int \<Rightarrow> int \<Rightarrow> int" where
  "clock_delta_ms start finish = to_int32 (trunc_div (finish - start) 1000000)"

definition zero_timepoint :: int where
  "zero_timepoint = 0"

definition epoch_ns :: "int \<Rightarrow> int" where
  "epoch_ns now = now"

text \<open>The timer of a scope writes where it is told or prints; \<open>sc_out\<close> is the cell it writes to.\<close>

record scoped_timer =
  sc_start :: int
  sc_out :: "nat option"
  sc_msg :: string

definition scoped_timer_msg :: "int \<Rightarrow> string \<Rightarrow> scoped_timer" where
  "scoped_timer_msg now message = \<lparr>sc_start = now, sc_out = None, sc_msg = message\<rparr>"

text \<open>A null pointer is \<open>0\<close>; then the timer prints, with an empty message.\<close>

definition scoped_timer_out :: "int \<Rightarrow> nat \<Rightarrow> scoped_timer" where
  "scoped_timer_out now cell = \<lparr>sc_start = now, sc_out = (if cell = 0 then None else Some cell), sc_msg = []\<rparr>"

datatype timer_effect = Timer_Writes nat int | Timer_Prints int string

definition scoped_timer_destroy :: "int \<Rightarrow> scoped_timer \<Rightarrow> timer_effect" where
  "scoped_timer_destroy now t =
     (let d = clock_delta_us (sc_start t) now in
      case sc_out t of Some cell \<Rightarrow> Timer_Writes cell d | None \<Rightarrow> Timer_Prints d (sc_msg t))"

section \<open>Lemmas\<close>

lemma to_int32_id: "-2147483648 \<le> n \<Longrightarrow> n < 2147483648 \<Longrightarrow> to_int32 n = n"
  by (simp add: to_int32_def)

lemma trunc_div_bounds:
  assumes "0 < b" and "\<bar>a\<bar> < c * b"
  shows "\<bar>trunc_div a b\<bar> < c"
proof -
  have "\<bar>trunc_div a b\<bar> = \<bar>a\<bar> div b"
    using assms(1) by (auto simp: trunc_div_def pos_imp_zdiv_nonneg_iff)
  moreover have "\<bar>a\<bar> div b < c"
  proof (rule ccontr)
    assume "\<not> \<bar>a\<bar> div b < c"
    then have "c * b \<le> \<bar>a\<bar> div b * b" using assms(1) by simp
    also have "\<dots> \<le> \<bar>a\<bar>" using assms(1) by (simp add: mult.commute [of _ b] minus_mod_eq_mult_div [symmetric])
    finally show False using assms(2) by simp
  qed
  ultimately show ?thesis by simp
qed

text \<open>A measured time is right up to \<open>2^31\<close> microseconds, some 35 minutes; then it is negative.\<close>

lemma clock_delta_exact:
  assumes "\<bar>finish - start\<bar> < 2147483648 * 1000"
  shows "clock_delta_us start finish = trunc_div (finish - start) 1000"
proof -
  have "\<bar>trunc_div (finish - start) 1000\<bar> < 2147483648"
    by (rule trunc_div_bounds) (use assms in simp_all)
  then show ?thesis unfolding clock_delta_us_def by (intro to_int32_id) auto
qed

lemma clock_delta_wraps: "clock_delta_us 0 (2147483648 * 1000) = -2147483648"
  by (simp add: clock_delta_us_def to_int32_def trunc_div_def)

lemma scoped_timer_measures:
  assumes "cell \<noteq> 0" and "start \<le> now" and "now - start < 2147483648 * 1000"
  shows "scoped_timer_destroy now (scoped_timer_out start cell) = Timer_Writes cell ((now - start) div 1000)"
  using clock_delta_exact [of now start] assms
  by (simp add: scoped_timer_destroy_def scoped_timer_out_def trunc_div_def)

end
