(* ===== verification/Staging.thy ===== *)
theory Staging
  imports Complex_Main Debug_Clock
begin

text \<open>
  Two classes of \<^verbatim>\<open>framework/staging\<close>, which the build does not compile: the buffer
  \<^verbatim>\<open>buffer/NormalisedSizeBuffer.cpp\<close> and the measurements of \<^verbatim>\<open>telemetry/RackTelemetry.cpp\<close>.

  The buffer takes periods of any size and gives them out in periods of one size. Its header is not in the
  repository; its fields and the three states are those the functions use. The read and the write pointer are
  offsets from \<open>remainder\<close>, \<open>bound\<close> is the length of that array. \<open>buffer\<close> is allocated and never used.
\<close>

section \<open>The buffer of one period size\<close>

datatype norm_state = Partial | Dispatch | Overflow

record 'a norm_buffer =
  nb_size :: nat
  nb_remainder :: "'a list"
  nb_read :: nat
  nb_write :: nat
  nb_load :: nat
  nb_state :: norm_state

text \<open>The contents of a fresh array are a parameter.\<close>

definition norm_make :: "(nat \<Rightarrow> 'a) \<Rightarrow> nat \<Rightarrow> nat \<Rightarrow> 'a norm_buffer" where
  "norm_make fresh normal overflow =
     \<lparr>nb_size = normal, nb_remainder = map fresh [0..<normal + overflow], nb_read = 0, nb_write = 0,
      nb_load = 0, nb_state = Partial\<rparr>"

text \<open>\<open>std::copy\<close> from a range to a place in an array.\<close>

definition blit :: "'a list \<Rightarrow> nat \<Rightarrow> 'a list \<Rightarrow> ('a list) result" where
  "blit src k dst =
     (if k + length src \<le> length dst then Inr (take k dst @ src @ drop (k + length src) dst) else Inl Out_Of_Bounds)"

definition norm_supply :: "'a norm_buffer \<Rightarrow> 'a list \<Rightarrow> (norm_state \<times> 'a norm_buffer) result" where
  "norm_supply b period =
     (let pSize = length period; bound = length (nb_remainder b) in
      if nb_write b < nb_read b \<and> nb_write b + pSize > nb_read b then Inr (Overflow, b)
      else bind_res
        (if nb_write b + pSize \<ge> bound
         then (let delta = bound - nb_write b in
               map_res (\<lambda>rem. (rem, 0, drop delta period)) (blit (take delta period) (nb_write b) (nb_remainder b)))
         else Inr (nb_remainder b, nb_write b, period)) (\<lambda>(rem, w, rest).
        map_res (\<lambda>rem'.
           let load = nb_load b + pSize; st = (if load \<ge> nb_size b then Dispatch else Partial) in
           (st, b\<lparr>nb_remainder := rem', nb_write := w + length rest, nb_load := load, nb_state := st\<rparr>))
          (blit rest w rem)))"

text \<open>A range of an array.\<close>

definition slice :: "'a list \<Rightarrow> nat \<Rightarrow> nat \<Rightarrow> ('a list) result" where
  "slice xs k n = (if k + n \<le> length xs then Inr (take n (drop k xs)) else Inl Out_Of_Bounds)"

definition norm_flush :: "'a norm_buffer \<Rightarrow> 'a list \<Rightarrow> ('a list \<times> 'a norm_buffer) result" where
  "norm_flush b period =
     (let bound = length (nb_remainder b) in
      if nb_state b = Partial \<or> nb_load b < nb_size b then Inr (period, b)
      else bind_res
        (if nb_read b + nb_size b \<ge> bound
         then (let delta = bound - nb_read b in
               bind_res (slice (nb_remainder b) (nb_read b) delta) (\<lambda>xs.
               map_res (\<lambda>p. (p, 0, delta, nb_size b - delta)) (blit xs 0 period)))
         else Inr (period, nb_read b, 0, nb_size b)) (\<lambda>(p, r, w, delta).
        bind_res (slice (nb_remainder b) r delta) (\<lambda>xs.
        map_res (\<lambda>p'.
           let load = nb_load b - nb_size b in
           (p', b\<lparr>nb_read := r + delta, nb_load := load,
                  nb_state := if load \<ge> nb_size b then Dispatch else Partial\<rparr>))
          (blit xs w p))))"

definition norm_get_state :: "'a norm_buffer \<Rightarrow> norm_state" where
  "norm_get_state b = nb_state b"

text \<open>The samples that wait, oldest first.\<close>

definition norm_view :: "'a norm_buffer \<Rightarrow> 'a list" where
  "norm_view b = map (\<lambda>i. nb_remainder b ! ((nb_read b + i) mod length (nb_remainder b))) [0..<nb_load b]"

definition norm_ok :: "'a norm_buffer \<Rightarrow> bool" where
  "norm_ok b \<longleftrightarrow> 0 < nb_size b \<and> nb_size b \<le> length (nb_remainder b)
     \<and> nb_read b < length (nb_remainder b) \<and> nb_load b \<le> length (nb_remainder b)
     \<and> nb_write b = (nb_read b + nb_load b) mod length (nb_remainder b)
     \<and> nb_state b = (if nb_load b \<ge> nb_size b then Dispatch else Partial)"

lemma norm_make_ok: "0 < normal \<Longrightarrow> norm_ok (norm_make fresh normal overflow) \<and> norm_view (norm_make fresh normal overflow) = []"
  by (simp add: norm_ok_def norm_make_def norm_view_def)

lemma blit_nth:
  assumes "k + length src \<le> length dst"
  shows "\<exists>xs. blit src k dst = Inr xs \<and> length xs = length dst
    \<and> (\<forall>j < length dst. xs ! j = (if k \<le> j \<and> j < k + length src then src ! (j - k) else dst ! j))"
  using assms by (auto simp: blit_def nth_append)

lemma wrap_mod: "r < n \<Longrightarrow> i \<le> n \<Longrightarrow> (r + i) mod n = (if r + i < n then r + i else r + i - n)" for n :: nat
  by (auto simp: mod_if le_mod_geq)

text \<open>Writing around the end of the array.\<close>

lemma supply_writes:
  fixes b :: "'a norm_buffer"
  defines "n \<equiv> length (nb_remainder b)"
  assumes w: "nb_write b < n" and p: "length p \<le> n" and free: "nb_write b < nb_read b \<Longrightarrow> nb_write b + length p \<le> nb_read b"
  shows "\<exists>b'. norm_supply b p = Inr (nb_state b', b') \<and> length (nb_remainder b') = n
    \<and> (\<forall>j < n. nb_remainder b' ! j =
         (if nb_write b \<le> j \<and> j < nb_write b + length p then p ! (j - nb_write b)
          else if j + n < nb_write b + length p then p ! (j + n - nb_write b)
          else nb_remainder b ! j))
    \<and> nb_write b' = (if nb_write b + length p < n then nb_write b + length p else nb_write b + length p - n)
    \<and> nb_read b' = nb_read b \<and> nb_load b' = nb_load b + length p \<and> nb_size b' = nb_size b
    \<and> nb_state b' = (if nb_load b + length p \<ge> nb_size b then Dispatch else Partial)"
proof (cases "nb_write b + length p < n")
  case True
  then obtain xs where xs: "blit p (nb_write b) (nb_remainder b) = Inr xs" "length xs = n"
      "\<forall>j < n. xs ! j = (if nb_write b \<le> j \<and> j < nb_write b + length p then p ! (j - nb_write b) else nb_remainder b ! j)"
    using blit_nth [of "nb_write b" p "nb_remainder b"] by (auto simp: n_def)
  then show ?thesis using True free by (auto simp: norm_supply_def Let_def n_def)
next
  case False
  let ?d = "n - nb_write b"
  have d: "length (take ?d p) = ?d" using False by simp
  obtain xs where xs: "blit (take ?d p) (nb_write b) (nb_remainder b) = Inr xs" "length xs = n"
      "\<forall>j < n. xs ! j = (if nb_write b \<le> j then p ! (j - nb_write b) else nb_remainder b ! j)"
    using blit_nth [of "nb_write b" "take ?d p" "nb_remainder b"] w d by (auto simp: n_def)
  have le: "0 + length (drop ?d p) \<le> length xs" using p xs(2) by simp
  have dp: "?d \<le> length p" using False by simp
  obtain ys where ys: "blit (drop ?d p) 0 xs = Inr ys" "length ys = n"
      "\<forall>j < n. ys ! j = (if j < length p - ?d then drop ?d p ! j else xs ! j)"
    using blit_nth [OF le] xs(2) by auto
  have "ys ! j = (if nb_write b \<le> j \<and> j < nb_write b + length p then p ! (j - nb_write b)
          else if j + n < nb_write b + length p then p ! (j + n - nb_write b)
          else nb_remainder b ! j)" if "j < n" for j
  proof -
    have "j + n - nb_write b = ?d + j" using w by simp
    then show ?thesis using xs(3) ys(3) that False p w nth_drop [OF dp, of j] by auto
  qed
  moreover have "length p - ?d = nb_write b + length p - n" using w by simp
  ultimately show ?thesis using False free xs(1,2) ys(1,2) by (auto simp: norm_supply_def Let_def n_def)
qed

lemma supply_appends:
  assumes ok: "norm_ok b" and room: "nb_load b + length p \<le> length (nb_remainder b)"
  shows "\<exists>b'. norm_supply b p = Inr (nb_state b', b') \<and> norm_ok b' \<and> norm_view b' = norm_view b @ p
    \<and> nb_size b' = nb_size b \<and> length (nb_remainder b') = length (nb_remainder b)"
proof -
  let ?n = "length (nb_remainder b)"
  have r: "nb_read b < ?n" and wr: "nb_write b = (nb_read b + nb_load b) mod ?n" and l: "nb_load b \<le> ?n"
    using ok by (auto simp: norm_ok_def)
  have w: "nb_write b = (if nb_read b + nb_load b < ?n then nb_read b + nb_load b else nb_read b + nb_load b - ?n)"
    unfolding wr by (rule wrap_mod [OF r l])
  have wn: "nb_write b < ?n" using w r l by auto
  have free: "nb_write b + length p \<le> nb_read b" if "nb_write b < nb_read b"
    using that w room r by (auto split: if_splits)
  have p: "length p \<le> ?n" using room by simp
  obtain b' where b': "norm_supply b p = Inr (nb_state b', b')" "length (nb_remainder b') = ?n"
    "\<forall>j < ?n. nb_remainder b' ! j =
         (if nb_write b \<le> j \<and> j < nb_write b + length p then p ! (j - nb_write b)
          else if j + ?n < nb_write b + length p then p ! (j + ?n - nb_write b)
          else nb_remainder b ! j)"
    "nb_write b' = (if nb_write b + length p < ?n then nb_write b + length p else nb_write b + length p - ?n)"
    "nb_read b' = nb_read b" "nb_load b' = nb_load b + length p" "nb_size b' = nb_size b"
    "nb_state b' = (if nb_load b + length p \<ge> nb_size b then Dispatch else Partial)"
    using supply_writes [OF wn p free] by auto
  have "(nb_read b + (nb_load b + length p)) mod ?n
      = (if nb_read b + (nb_load b + length p) < ?n then nb_read b + (nb_load b + length p) else nb_read b + (nb_load b + length p) - ?n)"
    by (rule wrap_mod [OF r room])
  then have "nb_write b' = (nb_read b' + nb_load b') mod length (nb_remainder b')"
    using b'(2,4,5,6) w r room by (auto split: if_splits)
  then have ok': "norm_ok b'" using ok b' room by (auto simp: norm_ok_def)
  have "norm_view b' = norm_view b @ p"
  proof (rule nth_equalityI)
    show "length (norm_view b') = length (norm_view b @ p)" by (simp add: norm_view_def b'(6))
    fix i assume "i < length (norm_view b')"
    then have i: "i < nb_load b + length p" by (simp add: norm_view_def b'(6))
    let ?j = "(nb_read b + i) mod ?n"
    have j: "?j = (if nb_read b + i < ?n then nb_read b + i else nb_read b + i - ?n)"
      by (rule wrap_mod [OF r]) (use i room in simp)
    have jn: "?j < ?n" by (rule mod_less_divisor) (use wn in linarith)
    have v: "norm_view b' ! i = nb_remainder b' ! ?j" using i by (simp add: norm_view_def b'(2,5,6))
    show "norm_view b' ! i = (norm_view b @ p) ! i"
    proof (cases "i < nb_load b")
      case True
      have "\<not> (nb_write b \<le> ?j \<and> ?j < nb_write b + length p)" "\<not> ?j + ?n < nb_write b + length p"
        using True j w r room by (auto split: if_splits)
      then have "nb_remainder b' ! ?j = nb_remainder b ! ?j" using b'(3) jn by auto
      then show ?thesis using v True by (simp add: norm_view_def nth_append)
    next
      case False
      have "(nb_write b \<le> ?j \<and> ?j < nb_write b + length p \<and> ?j - nb_write b = i - nb_load b)
          \<or> (\<not> nb_write b \<le> ?j \<and> ?j + ?n < nb_write b + length p \<and> ?j + ?n - nb_write b = i - nb_load b)"
        using False i j w r room by (auto split: if_splits)
      then have "nb_remainder b' ! ?j = p ! (i - nb_load b)" using b'(3) jn by auto
      then show ?thesis using v False by (simp add: norm_view_def nth_append)
    qed
  qed
  then show ?thesis using b' ok' by blast
qed

lemma slice_in: "k + n \<le> length xs \<Longrightarrow> slice xs k n = Inr (take n (drop k xs))"
  by (simp add: slice_def)

lemma norm_view_length [simp]: "length (norm_view b) = nb_load b"
  by (simp add: norm_view_def)

lemma view_nth: "i < nb_load b \<Longrightarrow> norm_view b ! i = nb_remainder b ! ((nb_read b + i) mod length (nb_remainder b))"
  by (simp add: norm_view_def)

lemma flush_takes:
  assumes ok: "norm_ok b" and full: "nb_size b \<le> nb_load b" and len: "length period = nb_size b"
  shows "\<exists>b'. norm_flush b period = Inr (take (nb_size b) (norm_view b), b') \<and> norm_ok b'
    \<and> norm_view b' = drop (nb_size b) (norm_view b) \<and> nb_size b' = nb_size b
    \<and> length (nb_remainder b') = length (nb_remainder b)"
proof -
  let ?n = "length (nb_remainder b)" and ?s = "nb_size b" and ?r = "nb_read b" and ?rem = "nb_remainder b"
  have r: "?r < ?n" and sn: "?s \<le> ?n" and s0: "0 < ?s" and l: "nb_load b \<le> ?n"
    and st: "nb_state b \<noteq> Partial" using ok full by (auto simp: norm_ok_def)
  let ?b = "b\<lparr>nb_read := (?r + ?s) mod ?n, nb_load := nb_load b - ?s,
              nb_state := if nb_load b - ?s \<ge> ?s then Dispatch else Partial\<rparr>"
  have run: "norm_flush b period = Inr (take ?s (norm_view b), ?b)"
  proof (cases "?r + ?s < ?n")
    case True
    have "take ?s (drop ?r ?rem) = take ?s (norm_view b)"
      by (rule nth_equalityI) (use True full r in \<open>auto simp: norm_view_def\<close>)
    then show ?thesis
      using True full st len by (simp add: norm_flush_def Let_def slice_in blit_def)
  next
    case False
    let ?d = "?n - ?r"
    have d: "?d \<le> ?s" using False by simp
    have a: "slice ?rem ?r ?d = Inr (drop ?r ?rem)" using r by (simp add: slice_def)
    have b1: "blit (drop ?r ?rem) 0 period = Inr (drop ?r ?rem @ drop ?d period)" using d len by (simp add: blit_def)
    have c: "slice ?rem 0 (?s - ?d) = Inr (take (?s - ?d) ?rem)" using sn by (simp add: slice_def)
    have e: "blit (take (?s - ?d) ?rem) ?d (drop ?r ?rem @ drop ?d period) = Inr (drop ?r ?rem @ take (?s - ?d) ?rem)"
      using d len sn by (simp add: blit_def)
    have "drop ?r ?rem @ take (?s - ?d) ?rem = take ?s (norm_view b)"
    proof (rule nth_equalityI)
      show "length (drop ?r ?rem @ take (?s - ?d) ?rem) = length (take ?s (norm_view b))"
        using d sn full by (simp add: norm_view_def)
      fix i assume "i < length (drop ?r ?rem @ take (?s - ?d) ?rem)"
      then have i: "i < ?s" using d sn by simp
      have "(?r + i) mod ?n = (if ?r + i < ?n then ?r + i else ?r + i - ?n)"
        by (rule wrap_mod [OF r]) (use i sn in simp)
      then show "(drop ?r ?rem @ take (?s - ?d) ?rem) ! i = take ?s (norm_view b) ! i"
        using i d sn full r by (auto simp: nth_append view_nth add.commute)
    qed
    moreover have "(?r + ?s) mod ?n = ?s - ?d"
      using wrap_mod [OF r sn] False r by simp
    ultimately show ?thesis
      using False full st a b1 c e by (simp add: norm_flush_def Let_def)
  qed
  have mod: "((?r + ?s) mod ?n + i) mod ?n = (?r + (?s + i)) mod ?n" for i
    by (simp add: mod_add_left_eq add.assoc)
  have "(?r + ?s) mod ?n < ?n" by (rule mod_less_divisor) (use r in linarith)
  then have "norm_ok ?b"
    using ok full l mod [of "nb_load b - ?s"] r by (auto simp: norm_ok_def)
  moreover have "norm_view ?b = drop ?s (norm_view b)"
    by (rule nth_equalityI) (use mod in \<open>auto simp: norm_view_def\<close>)
  ultimately show ?thesis using run by auto
qed

text \<open>A client that supplies periods that fit and takes a period whenever one is ready.\<close>

datatype 'a norm_op = Supply "'a list" | Flush

fun norm_run :: "'a norm_buffer \<Rightarrow> 'a list \<Rightarrow> 'a norm_op list \<Rightarrow> ('a list list \<times> 'a norm_buffer) result" where
  "norm_run b period [] = Inr ([], b)"
| "norm_run b period (Supply p # ops) = bind_res (norm_supply b p) (\<lambda>(st, b1). norm_run b1 period ops)"
| "norm_run b period (Flush # ops) =
     bind_res (norm_flush b period) (\<lambda>(out, b1). map_res (\<lambda>(outs, b2). (out # outs, b2)) (norm_run b1 period ops))"

fun norm_fits :: "nat \<Rightarrow> nat \<Rightarrow> nat \<Rightarrow> 'a norm_op list \<Rightarrow> bool" where
  "norm_fits cap n load [] = True"
| "norm_fits cap n load (Supply p # ops) = (load + length p \<le> cap \<and> norm_fits cap n (load + length p) ops)"
| "norm_fits cap n load (Flush # ops) = (n \<le> load \<and> norm_fits cap n (load - n) ops)"

fun norm_supplied :: "'a norm_op list \<Rightarrow> 'a list" where
  "norm_supplied [] = []"
| "norm_supplied (Supply p # ops) = p @ norm_supplied ops"
| "norm_supplied (Flush # ops) = norm_supplied ops"

lemma norm_run_in_order:
  assumes "norm_ok b" and "length period = nb_size b" and "norm_fits (length (nb_remainder b)) (nb_size b) (nb_load b) ops"
  shows "\<exists>outs b'. norm_run b period ops = Inr (outs, b') \<and> norm_ok b'
    \<and> concat outs @ norm_view b' = norm_view b @ norm_supplied ops \<and> (\<forall>xs \<in> set outs. length xs = nb_size b)"
  using assms
proof (induction ops arbitrary: b)
  case Nil
  then show ?case by simp
next
  case (Cons op ops)
  show ?case
  proof (cases op)
    case (Supply p)
    obtain b' where b': "norm_supply b p = Inr (nb_state b', b')" "norm_ok b'" "norm_view b' = norm_view b @ p"
        "nb_size b' = nb_size b" "length (nb_remainder b') = length (nb_remainder b)"
      using supply_appends [of b p] Cons.prems Supply by auto
    have "nb_load b' = nb_load b + length p" using b'(3) norm_view_length [of b'] by simp
    then have "\<exists>outs c. norm_run b' period ops = Inr (outs, c) \<and> norm_ok c
        \<and> concat outs @ norm_view c = norm_view b' @ norm_supplied ops \<and> (\<forall>xs \<in> set outs. length xs = nb_size b')"
      by (intro Cons.IH) (use Cons.prems Supply b' in auto)
    then show ?thesis using b' Supply by auto
  next
    case Flush
    have full: "nb_size b \<le> nb_load b" using Cons.prems(3) Flush by simp
    obtain b' where b': "norm_flush b period = Inr (take (nb_size b) (norm_view b), b')" "norm_ok b'"
        "norm_view b' = drop (nb_size b) (norm_view b)" "nb_size b' = nb_size b"
        "length (nb_remainder b') = length (nb_remainder b)"
      using flush_takes [OF Cons.prems(1) full Cons.prems(2)] by auto
    have "nb_load b' = nb_load b - nb_size b" using b'(3) norm_view_length [of b'] by simp
    then have "\<exists>outs c. norm_run b' period ops = Inr (outs, c) \<and> norm_ok c
        \<and> concat outs @ norm_view c = norm_view b' @ norm_supplied ops \<and> (\<forall>xs \<in> set outs. length xs = nb_size b')"
      by (intro Cons.IH) (use Cons.prems Flush b' in auto)
    then show ?thesis using b' Flush full by (auto simp: min_def)
  qed
qed

text \<open>The overflow is seen only while the write pointer is behind the read pointer: a period larger than
  what is free overwrites samples that wait, and the load counts them twice.\<close>

lemma supply_overflow_unseen:
  assumes "norm_ok b" and "nb_read b \<le> nb_write b" and "length p \<le> length (nb_remainder b)"
    and "length (nb_remainder b) < nb_load b + length p"
  shows "\<exists>b'. norm_supply b p = Inr (Dispatch, b') \<and> nb_load b' > length (nb_remainder b')"
proof -
  have "0 < length (nb_remainder b)" "nb_write b = (nb_read b + nb_load b) mod length (nb_remainder b)"
    using assms(1) by (auto simp: norm_ok_def)
  then have "nb_write b < length (nb_remainder b)" by simp
  from supply_writes [OF this assms(3)] obtain b' where "norm_supply b p = Inr (nb_state b', b')"
      "length (nb_remainder b') = length (nb_remainder b)" "nb_load b' = nb_load b + length p"
      "nb_state b' = (if nb_load b + length p \<ge> nb_size b then Dispatch else Partial)"
    using assms(2) by auto
  then show ?thesis using assms(1,4) by (auto simp: norm_ok_def)
qed

section \<open>Measurements\<close>

text \<open>Times are in nanoseconds, durations in microseconds; \<open>duration_cast\<close> drops the fraction.\<close>

record unit_cycle =
  uc_peak :: rat
  uc_low :: rat
  uc_avg :: rat
  uc_sum :: rat
  uc_start :: int
  uc_total :: nat

definition metric_reset :: "unit_cycle \<Rightarrow> unit_cycle" where
  "metric_reset u = u\<lparr>uc_total := 0, uc_sum := 0, uc_avg := 0, uc_peak := 0, uc_low := 1000000\<rparr>"

definition on_cycle_start :: "int \<Rightarrow> unit_cycle \<Rightarrow> unit_cycle" where
  "on_cycle_start t u = u\<lparr>uc_start := t\<rparr>"

definition on_cycle_end :: "int \<Rightarrow> unit_cycle \<Rightarrow> unit_cycle" where
  "on_cycle_end t u =
     (let delta = of_int (trunc_div (t - uc_start u) 1000);
          u1 = (if delta > uc_peak u then u\<lparr>uc_peak := delta\<rparr>
                else if delta < uc_low u then u\<lparr>uc_low := delta\<rparr> else u);
          u2 = u1\<lparr>uc_total := uc_total u1 + 1\<rparr>
      in u2\<lparr>uc_avg := uc_sum u2 / of_nat (uc_total u2)\<rparr>)"

fun measure_cycles :: "(int \<times> int) list \<Rightarrow> unit_cycle \<Rightarrow> unit_cycle" where
  "measure_cycles [] u = u"
| "measure_cycles ((s, t) # cs) u = measure_cycles cs (on_cycle_end t (on_cycle_start s u))"

text \<open>The peak is the longest cycle; the average stays zero, because the sum is never added to.\<close>

lemma measure_peak:
  "uc_peak (measure_cycles cs u) = foldl max (uc_peak u) (map (\<lambda>(s, t). of_int (trunc_div (t - s) 1000)) cs)"
proof (induction cs arbitrary: u)
  case (Cons c cs)
  obtain s t where c: "c = (s, t)" by (cases c)
  have "uc_peak (on_cycle_end t (on_cycle_start s u)) = max (uc_peak u) (of_int (trunc_div (t - s) 1000))"
    by (simp add: on_cycle_end_def on_cycle_start_def Let_def)
  then show ?case using Cons.IH c by simp
qed simp

lemma measure_average_zero: "uc_avg (measure_cycles cs (metric_reset u)) = 0"
proof -
  have "uc_sum v = 0 \<Longrightarrow> uc_avg v = 0 \<Longrightarrow> uc_avg (measure_cycles cs v) = 0" for v
    by (induction cs arbitrary: v) (auto simp: on_cycle_end_def on_cycle_start_def Let_def)
  then show ?thesis by (simp add: metric_reset_def)
qed

end
