(* ===== verification/Log.thy ===== *)
theory Log
  imports SIO_Prelude "HOL-Library.Sublist"
begin

text \<open>
  The log of \<^verbatim>\<open>framework/log/log.hpp\<close>: one object for all threads. \<open>inst\<close> locks its mutex and gives the object out,
  \<open>operator <<\<close> appends to the buffer, and \<open>flush\<close> writes the buffer, empties it and unlocks. So the mutex is held
  from the beginning of a statement \<^verbatim>\<open>log::inst() << ... << lendl;\<close> to its end, across calls, and a statement without
  \<open>lendl\<close> or \<open>lflush\<close> keeps it.

  Threads run lists of such calls. A thread whose \<open>inst\<close> finds the mutex taken waits: its step changes nothing. Locking a mutex
  one has and unlocking one that one does not have are undefined (\<open>Bad_Lock\<close>).
\<close>

section \<open>The log\<close>

record sio_log =
  lg_stream :: string
  lg_ss :: string
  lg_owner :: "nat option"

definition log_make :: sio_log where
  "log_make = \<lparr>lg_stream = [], lg_ss = [], lg_owner = None\<rparr>"

text \<open>None: the calling thread waits.\<close>

definition log_inst :: "nat \<Rightarrow> sio_log \<Rightarrow> sio_log option result" where
  "log_inst t l =
     (case lg_owner l of
        None \<Rightarrow> Inr (Some (l\<lparr>lg_owner := Some t\<rparr>))
      | Some u \<Rightarrow> if u = t then Inl Bad_Lock else Inr None)"

definition log_put :: "string \<Rightarrow> sio_log \<Rightarrow> sio_log" where
  "log_put v l = l\<lparr>lg_ss := lg_ss l @ v\<rparr>"

definition log_flush :: "nat \<Rightarrow> sio_log \<Rightarrow> sio_log result" where
  "log_flush t l =
     (let l1 = l\<lparr>lg_stream := lg_stream l @ lg_ss l, lg_ss := []\<rparr> in
      if lg_owner l1 = Some t then Inr (l1\<lparr>lg_owner := None\<rparr>) else Inl Bad_Lock)"

definition lflush :: "nat \<Rightarrow> sio_log \<Rightarrow> sio_log result" where
  "lflush t l = log_flush t l"

definition lendl :: "nat \<Rightarrow> sio_log \<Rightarrow> sio_log result" where
  "lendl t l = log_flush t (log_put [CHR 0x0A] l)"

section \<open>Threads that log\<close>

datatype log_call = Lg_Inst | Lg_Put string | Lg_Flush | Lg_Endl

fun log_exec :: "nat \<Rightarrow> log_call \<Rightarrow> sio_log \<Rightarrow> sio_log option result" where
  "log_exec t Lg_Inst l = log_inst t l"
| "log_exec t (Lg_Put v) l = Inr (Some (log_put v l))"
| "log_exec t Lg_Flush l = map_res Some (lflush t l)"
| "log_exec t Lg_Endl l = map_res Some (lendl t l)"

record log_run =
  lr_log :: sio_log
  lr_prog :: "nat \<Rightarrow> log_call list"

definition log_step :: "nat \<Rightarrow> log_run \<Rightarrow> log_run result" where
  "log_step t r =
     (case lr_prog r t of
        [] \<Rightarrow> Inr r
      | c # cs \<Rightarrow> map_res (\<lambda>x. case x of
            None \<Rightarrow> r
          | Some l \<Rightarrow> r\<lparr>lr_log := l, lr_prog := (lr_prog r)(t := cs)\<rparr>) (log_exec t c (lr_log r)))"

fun log_steps :: "nat list \<Rightarrow> log_run \<Rightarrow> log_run result" where
  "log_steps [] r = Inr r"
| "log_steps (t # ts) r = bind_res (log_step t r) (log_steps ts)"

lemma log_steps_append: "log_steps (ts @ us) r = bind_res (log_steps ts r) (log_steps us)"
proof (induction ts arbitrary: r)
  case (Cons t ts)
  then show ?case by (cases "log_step t r") simp_all
qed simp

text \<open>The statements of the framework: \<^verbatim>\<open>log::inst() << p1 << ... << pn << lendl\<close>.\<close>

definition statement :: "string list \<Rightarrow> log_call list" where
  "statement ps = Lg_Inst # map Lg_Put ps @ [Lg_Endl]"

definition statements :: "string list list \<Rightarrow> log_call list" where
  "statements ms = concat (map statement ms)"

definition log_start :: "(nat \<Rightarrow> string list list) \<Rightarrow> log_run" where
  "log_start msgs = \<lparr>lr_log = log_make, lr_prog = (\<lambda>t. statements (msgs t))\<rparr>"

text \<open>What is written, as lines with the thread that wrote them.\<close>

definition log_line :: "string list \<Rightarrow> string" where
  "log_line ps = concat ps @ [CHR 0x0A]"

definition log_text :: "(nat \<times> string list) list \<Rightarrow> string" where
  "log_text out = concat (map (log_line \<circ> snd) out)"

definition sent :: "nat \<Rightarrow> (nat \<times> string list) list \<Rightarrow> string list list" where
  "sent t out = map snd (filter (\<lambda>x. fst x = t) out)"

lemma statements_simps [simp]:
  "statements [] = []" "statements (ps # ms) = Lg_Inst # map Lg_Put ps @ Lg_Endl # statements ms"
  by (simp_all add: statements_def statement_def)

lemma sent_simps [simp]:
  "sent t [] = []" "sent t (out @ [(u, ps)]) = sent t out @ (if u = t then [ps] else [])"
  by (simp_all add: sent_def)

lemma log_text_simps [simp]:
  "log_text [] = []" "log_text (out @ [(u, ps)]) = log_text out @ concat ps @ [CHR 0x0A]"
  by (simp_all add: log_text_def log_line_def)

section \<open>The invariant\<close>

text \<open>A thread between two statements, and one inside a statement with \<open>ss\<close> in the buffer.\<close>

definition between :: "(nat \<Rightarrow> string list list) \<Rightarrow> (nat \<times> string list) list \<Rightarrow> nat \<Rightarrow> log_call list \<Rightarrow> bool" where
  "between msgs out t cs \<longleftrightarrow> (\<exists>rest. msgs t = sent t out @ rest \<and> cs = statements rest)"

definition within ::
    "(nat \<Rightarrow> string list list) \<Rightarrow> (nat \<times> string list) list \<Rightarrow> nat \<Rightarrow> string \<Rightarrow> log_call list \<Rightarrow> bool" where
  "within msgs out t ss cs \<longleftrightarrow> (\<exists>put todo rest. msgs t = sent t out @ (put @ todo) # rest \<and> ss = concat put
     \<and> cs = map Lg_Put todo @ Lg_Endl # statements rest)"

definition log_inv :: "(nat \<Rightarrow> string list list) \<Rightarrow> (nat \<times> string list) list \<Rightarrow> log_run \<Rightarrow> bool" where
  "log_inv msgs out r \<longleftrightarrow> lg_stream (lr_log r) = log_text out
     \<and> (\<forall>t. lg_owner (lr_log r) \<noteq> Some t \<longrightarrow> between msgs out t (lr_prog r t))
     \<and> (case lg_owner (lr_log r) of
          None \<Rightarrow> lg_ss (lr_log r) = []
        | Some u \<Rightarrow> within msgs out u (lg_ss (lr_log r)) (lr_prog r u))"

lemma log_inv_start: "log_inv msgs [] (log_start msgs)"
  by (simp add: log_inv_def log_start_def log_make_def between_def)

text \<open>A thread that can do nothing: it has ended, or another one has the mutex.\<close>

definition log_stuck :: "nat \<Rightarrow> log_run \<Rightarrow> bool" where
  "log_stuck t r \<longleftrightarrow> lr_prog r t = [] \<or> (\<exists>u. lg_owner (lr_log r) = Some u \<and> u \<noteq> t)"

lemma log_stuck_step:
  assumes "log_inv msgs out r" and "log_stuck t r"
  shows "log_step t r = Inr r"
proof (cases "lr_prog r t")
  case (Cons c cs)
  then obtain u where u: "lg_owner (lr_log r) = Some u" "u \<noteq> t" using assms(2) by (auto simp: log_stuck_def)
  then have "between msgs out t (lr_prog r t)" using assms(1) by (simp add: log_inv_def)
  then obtain rest where "lr_prog r t = statements rest" by (auto simp: between_def)
  then have "c = Lg_Inst" using Cons by (cases rest) auto
  then show ?thesis using Cons u by (simp add: log_step_def log_inst_def)
qed (simp add: log_step_def)

text \<open>Any other step is the next call of the thread.\<close>

lemma log_free_step:
  assumes "log_inv msgs out r" and "\<not> log_stuck t r"
  shows "\<exists>out' r' c. log_step t r = Inr r' \<and> log_inv msgs out' r' \<and> lr_prog r t = c # lr_prog r' t
    \<and> (\<forall>j. j \<noteq> t \<longrightarrow> lr_prog r' j = lr_prog r j)"
proof (cases "lg_owner (lr_log r)")
  case None
  then have b: "between msgs out t (lr_prog r t)" "lg_ss (lr_log r) = []" and s: "lg_stream (lr_log r) = log_text out"
    and o: "\<And>j. between msgs out j (lr_prog r j)"
    using assms(1) by (simp_all add: log_inv_def)
  then obtain rest where "msgs t = sent t out @ rest" "lr_prog r t = statements rest" by (auto simp: between_def)
  moreover have "lr_prog r t \<noteq> []" using assms(2) by (simp add: log_stuck_def)
  ultimately obtain ps ms where m: "msgs t = sent t out @ ps # ms"
    "lr_prog r t = Lg_Inst # map Lg_Put ps @ Lg_Endl # statements ms"
    by (cases rest) auto
  let ?r = "r\<lparr>lr_log := (lr_log r)\<lparr>lg_owner := Some t\<rparr>, lr_prog := (lr_prog r)(t := map Lg_Put ps @ Lg_Endl # statements ms)\<rparr>"
  have "within msgs out t [] (map Lg_Put ps @ Lg_Endl # statements ms)"
    unfolding within_def by (rule exI [of _ "[]"], rule exI [of _ ps], rule exI [of _ ms]) (simp add: m)
  then have "log_inv msgs out ?r" using b(2) s o by (simp add: log_inv_def)
  moreover have "log_step t r = Inr ?r" using None m(2) by (simp add: log_step_def log_inst_def)
  ultimately show ?thesis using m(2) by (intro exI [of _ out] exI [of _ ?r] exI [of _ Lg_Inst]) simp
next
  case (Some u)
  then have u: "u = t" using assms(2) by (auto simp: log_stuck_def)
  have s: "lg_stream (lr_log r) = log_text out"
    and o: "\<And>j. j \<noteq> t \<Longrightarrow> between msgs out j (lr_prog r j)"
    and w: "within msgs out t (lg_ss (lr_log r)) (lr_prog r t)"
    using assms(1) Some u by (simp_all add: log_inv_def)
  obtain put todo rest where m: "msgs t = sent t out @ (put @ todo) # rest" "lg_ss (lr_log r) = concat put"
    "lr_prog r t = map Lg_Put todo @ Lg_Endl # statements rest"
    using w by (auto simp: within_def)
  show ?thesis
  proof (cases todo)
    case Nil
    let ?out = "out @ [(t, put)]"
    let ?r = "r\<lparr>lr_log := \<lparr>lg_stream = log_text ?out, lg_ss = [], lg_owner = None\<rparr>,
      lr_prog := (lr_prog r)(t := statements rest)\<rparr>"
    have "between msgs ?out j (((lr_prog r)(t := statements rest)) j)" for j
      using o [of j] m(1) Nil by (auto simp: between_def)
    then have "log_inv msgs ?out ?r" by (simp add: log_inv_def)
    moreover have "log_step t r = Inr ?r"
      using Some u m(2,3) s Nil by (simp add: log_step_def lendl_def log_flush_def log_put_def)
    ultimately show ?thesis using m(3) Nil by (intro exI [of _ ?out] exI [of _ ?r] exI [of _ Lg_Endl]) simp
  next
    case (Cons v vs)
    let ?cs = "map Lg_Put vs @ Lg_Endl # statements rest"
    let ?r = "r\<lparr>lr_log := log_put v (lr_log r), lr_prog := (lr_prog r)(t := ?cs)\<rparr>"
    have "within msgs out t (concat put @ v) ?cs"
      unfolding within_def
      by (rule exI [of _ "put @ [v]"], rule exI [of _ vs], rule exI [of _ rest]) (simp add: m Cons)
    then have "log_inv msgs out ?r" using Some u m(2) s o by (simp add: log_inv_def log_put_def)
    moreover have "log_step t r = Inr ?r" using m(3) Cons by (simp add: log_step_def)
    ultimately show ?thesis using m(3) Cons by (intro exI [of _ out] exI [of _ ?r] exI [of _ "Lg_Put v"]) simp
  qed
qed


section \<open>Progress\<close>

definition log_work :: "nat set \<Rightarrow> log_run \<Rightarrow> nat" where
  "log_work T r = (\<Sum>t \<in> T. length (lr_prog r t))"

lemma log_work_step:
  assumes "finite T" and "t \<in> T" and "lr_prog r t = c # lr_prog r' t" and "\<And>j. j \<noteq> t \<Longrightarrow> lr_prog r' j = lr_prog r j"
  shows "log_work T r = Suc (log_work T r')"
proof -
  have "log_work T s = length (lr_prog s t) + (\<Sum>j \<in> T - {t}. length (lr_prog s j))" for s
    using assms(1,2) by (simp add: log_work_def sum.remove)
  moreover have "(\<Sum>j \<in> T - {t}. length (lr_prog r' j)) = (\<Sum>j \<in> T - {t}. length (lr_prog r j))"
    using assms(4) by (intro sum.cong) auto
  ultimately show ?thesis using assms(3) by simp
qed

text \<open>Threads outside \<open>T\<close> have nothing to say.\<close>

definition log_good :: "nat set \<Rightarrow> (nat \<Rightarrow> string list list) \<Rightarrow> (nat \<times> string list) list \<Rightarrow> log_run \<Rightarrow> bool" where
  "log_good T msgs out r \<longleftrightarrow> finite T \<and> log_inv msgs out r \<and> (\<forall>t. t \<notin> T \<longrightarrow> lr_prog r t = [])"

lemma log_run_steps:
  assumes "log_good T msgs out r"
  shows "\<exists>out' r'. log_steps ts r = Inr r' \<and> log_good T msgs out' r'
    \<and> (r' = r \<and> (\<forall>t \<in> set ts. log_stuck t r) \<or> log_work T r' < log_work T r)"
  using assms
proof (induction ts arbitrary: out r)
  case (Cons t ts)
  have g: "finite T" "log_inv msgs out r" "\<And>t. t \<notin> T \<Longrightarrow> lr_prog r t = []"
    using Cons.prems by (simp_all add: log_good_def)
  show ?case
  proof (cases "log_stuck t r")
    case True
    then show ?thesis using Cons.IH [OF Cons.prems] log_stuck_step [OF g(2) True] by auto
  next
    case False
    then have "t \<in> T" using g(3) [of t] by (auto simp: log_stuck_def)
    obtain out1 r1 c where s: "log_step t r = Inr r1" "log_inv msgs out1 r1" "lr_prog r t = c # lr_prog r1 t"
        "\<And>j. j \<noteq> t \<Longrightarrow> lr_prog r1 j = lr_prog r j"
      using log_free_step [OF g(2) False] by blast
    have "log_work T r = Suc (log_work T r1)" by (rule log_work_step [OF g(1) \<open>t \<in> T\<close> s(3,4)])
    moreover have "lr_prog r1 j = []" if "j \<notin> T" for j
      using that s(4) [of j] g(3) [of j] \<open>t \<in> T\<close> by (cases "j = t") auto
    then have "log_good T msgs out1 r1" using g(1) s(2) by (simp add: log_good_def)
    note Cons.IH [OF this]
    ultimately show ?thesis using s(1) by fastforce
  qed
qed (auto simp: log_good_def)

text \<open>When every thread has its turn, one of them gets on until all have ended.\<close>

lemma log_all_stuck:
  assumes "log_good T msgs out r" and "\<forall>t \<in> T. log_stuck t r"
  shows "lr_prog r t = []" "lg_owner (lr_log r) = None"
proof -
  have g: "log_inv msgs out r" "\<And>t. t \<notin> T \<Longrightarrow> lr_prog r t = []" using assms(1) by (simp_all add: log_good_def)
  show o: "lg_owner (lr_log r) = None"
  proof (rule ccontr)
    assume "lg_owner (lr_log r) \<noteq> None"
    then obtain u where u: "lg_owner (lr_log r) = Some u" by auto
    then have "within msgs out u (lg_ss (lr_log r)) (lr_prog r u)" using g(1) by (simp add: log_inv_def)
    then have n: "lr_prog r u \<noteq> []" by (auto simp: within_def)
    then have "u \<in> T" using g(2) by auto
    then show False using assms(2) u n by (auto simp: log_stuck_def)
  qed
  show "lr_prog r t = []"
    using assms(2) g(2) [of t] o by (cases "t \<in> T") (auto simp: log_stuck_def)
qed

lemma log_rounds_end:
  assumes "log_good T msgs out r" and "\<forall>rd \<in> set rounds. T \<subseteq> set rd" and "log_work T r < length rounds"
  shows "\<exists>out' r'. log_steps (concat rounds) r = Inr r' \<and> log_good T msgs out' r'
    \<and> (\<forall>t. lr_prog r' t = []) \<and> lg_owner (lr_log r') = None"
  using assms
proof (induction rounds arbitrary: out r)
  case (Cons rd rounds)
  obtain out1 r1 where s: "log_steps rd r = Inr r1" "log_good T msgs out1 r1"
      "r1 = r \<and> (\<forall>t \<in> set rd. log_stuck t r) \<or> log_work T r1 < log_work T r"
    using log_run_steps [OF Cons.prems(1), of rd] by blast
  show ?case
  proof (cases "log_work T r1 < log_work T r")
    case True
    then show ?thesis using Cons.IH [OF s(2)] Cons.prems(2,3) s(1) by (simp add: log_steps_append)
  next
    case False
    then have "r1 = r" and "\<forall>t \<in> T. log_stuck t r" using s(3) Cons.prems(2) by auto
    note e = log_all_stuck [OF Cons.prems(1) this(2)]
    obtain out2 r2 where t: "log_steps (concat rounds) r = Inr r2" "log_good T msgs out2 r2"
        "r2 = r \<or> log_work T r2 < log_work T r"
      using log_run_steps [OF Cons.prems(1), of "concat rounds"] by blast
    have "log_work T r = 0" using e(1) by (simp add: log_work_def)
    then have "r2 = r" using t(3) by simp
    then show ?thesis using e t s(1) \<open>r1 = r\<close> by (intro exI [of _ out2] exI [of _ r]) (simp add: log_steps_append)
  qed
qed simp

section \<open>Properties\<close>

lemma log_sent_prefix:
  assumes "log_inv msgs out r"
  shows "prefix (sent t out) (msgs t)"
proof (cases "lg_owner (lr_log r) = Some t")
  case True
  then show ?thesis using assms by (auto simp: log_inv_def within_def)
next
  case False
  then have "between msgs out t (lr_prog r t)" using assms by (simp add: log_inv_def)
  then show ?thesis by (auto simp: between_def)
qed

text \<open>C34. Threads that log do not get in each other's way: however the calls of their statements interleave, what is written is
  at every moment a sequence of whole lines, with the lines of each thread in its order. Nobody waits for
  ever: when every thread gets more turns than there are calls, in any order, all lines are
  written and the mutex is free.\<close>

theorem log_writes_lines:
  assumes "finite T" and "\<forall>t. t \<notin> T \<longrightarrow> msgs t = []"
  shows "\<exists>out r. log_steps sched (log_start msgs) = Inr r \<and> lg_stream (lr_log r) = log_text out
    \<and> (\<forall>t. prefix (sent t out) (msgs t))
    \<and> (\<forall>rounds. sched = concat rounds \<and> (\<forall>rd \<in> set rounds. T \<subseteq> set rd) \<and> log_work T (log_start msgs) < length rounds
         \<longrightarrow> (\<forall>t. sent t out = msgs t) \<and> lg_owner (lr_log r) = None)"
proof -
  have g: "log_good T msgs [] (log_start msgs)"
    using assms log_inv_start [of msgs] by (simp add: log_good_def) (simp add: log_start_def)
  obtain out r where s: "log_steps sched (log_start msgs) = Inr r" "log_good T msgs out r"
    using log_run_steps [OF g, of sched] by blast
  have i: "log_inv msgs out r" using s(2) by (simp add: log_good_def)
  have "(\<forall>t. sent t out = msgs t) \<and> lg_owner (lr_log r) = None"
    if c: "sched = concat rounds \<and> (\<forall>rd \<in> set rounds. T \<subseteq> set rd) \<and> log_work T (log_start msgs) < length rounds" for rounds
  proof -
    have e: "\<And>t. lr_prog r t = []" "lg_owner (lr_log r) = None"
      using log_rounds_end [OF g, of rounds] c s(1) by auto
    have "sent t out = msgs t" for t
    proof -
      have "between msgs out t []" using i e by (simp add: log_inv_def)
      then obtain rest where "msgs t = sent t out @ rest" "statements rest = []" by (auto simp: between_def)
      then show ?thesis by (cases rest) auto
    qed
    then show ?thesis using e(2) by simp
  qed
  then show ?thesis
    using s(1) i log_sent_prefix [OF i] by (intro exI [of _ out] exI [of _ r]) (auto simp: log_inv_def)
qed

text \<open>Two threads, the second of which finds the mutex taken.\<close>

theorem log_writes_lines_witness:
  "\<exists>out r. log_steps (concat (replicate 9 [0, 1]))
       (log_start (\<lambda>t. if t = 0 then [[''ab'', ''c'']] else if t = 1 then [[''d'']] else [])) = Inr r
     \<and> lg_stream (lr_log r) = log_text out \<and> sent 0 out = [[''ab'', ''c'']] \<and> sent 1 out = [[''d'']]
     \<and> lg_owner (lr_log r) = None"
proof -
  let ?msgs = "\<lambda>t :: nat. if t = 0 then [[''ab'', ''c'']] else if t = 1 then [[''d'']] else []"
  have w: "log_work {0, 1} (log_start ?msgs) = 7" by (simp add: log_work_def log_start_def)
  have f: "finite {0 :: nat, 1}" and z: "\<forall>t. t \<notin> {0, 1} \<longrightarrow> ?msgs t = []" by auto
  obtain out r where r: "log_steps (concat (replicate 9 [0, 1])) (log_start ?msgs) = Inr r"
      "lg_stream (lr_log r) = log_text out"
      "\<forall>rounds. concat (replicate 9 [0 :: nat, 1]) = concat rounds \<and> (\<forall>rd \<in> set rounds. {0, 1} \<subseteq> set rd)
         \<and> log_work {0, 1} (log_start ?msgs) < length rounds
         \<longrightarrow> (\<forall>t. sent t out = ?msgs t) \<and> lg_owner (lr_log r) = None"
    using log_writes_lines [of "{0, 1}" ?msgs "concat (replicate 9 [0, 1])", OF f z] by (elim exE conjE) (rule that)
  have "(\<forall>t. sent t out = ?msgs t) \<and> lg_owner (lr_log r) = None"
    using r(3) [rule_format, of "replicate 9 [0, 1]"] unfolding w by (simp add: set_replicate_conv_if)
  then show ?thesis using r(1,2) by (intro exI [of _ out] exI [of _ r]) simp
qed

text \<open>A statement that does not end silences the log: once a thread has locked and has no call left, nothing more
  is written, whatever the others do.\<close>

theorem log_open_statement_silences:
  assumes "lg_owner (lr_log r) = Some t" and "lr_prog r t = []"
    and "\<And>j. j \<noteq> t \<Longrightarrow> lr_prog r j = statements (msgs j)"
  shows "log_steps sched r = Inr r"
proof (induction sched)
  case (Cons j sched)
  have "log_step j r = Inr r"
  proof (cases "j = t")
    case False
    then have "lr_prog r j = statements (msgs j)" by (rule assms(3))
    then show ?thesis using False assms(1) by (cases "msgs j") (simp_all add: log_step_def log_inst_def)
  qed (simp add: log_step_def assms(2))
  then show ?case using Cons by simp
qed simp

end
