(* ===== verification/LV2_Hosting.thy ===== *)
theory LV2_Hosting
  imports Complex_Main SIO_Prelude "HOL-Library.Char_ord" "HOL-Library.List_Lexorder"
begin

text \<open>
  The hosting of LV2 plugins under \<^verbatim>\<open>framework/staging/hosting/lv2/\<close>: nodes, their factory, a plugin with its ports, the
  platform and the adaptor that makes a unit of a plugin. The library lilv is a parameter (\<open>lilv\<close>), a record of what its
  functions give; the store \<open>lv2_world\<close> holds the nodes it has handed out and the caller has to free,
  the live instances and the calls on them. The methods \<open>addJack\<close> and \<open>addPlug\<close> of the former class \<open>RackUnit\<close>
  are parameters too.
\<close>

section \<open>The library\<close>

text \<open>None stands for a null pointer. A node is known by its contents \<open>'v\<close>.\<close>

record ('v, 'pl, 'po) lilv =
  li_world :: bool
  li_new_uri :: "string \<Rightarrow> 'v option"
  li_new_string :: "string \<Rightarrow> 'v option"
  li_new_int :: "int \<Rightarrow> 'v option"
  li_new_float :: "rat \<Rightarrow> 'v option"
  li_new_bool :: "bool \<Rightarrow> 'v option"
  li_is_uri :: "'v option \<Rightarrow> bool"
  li_is_blank :: "'v option \<Rightarrow> bool"
  li_is_string :: "'v option \<Rightarrow> bool"
  li_is_float :: "'v option \<Rightarrow> bool"
  li_is_int :: "'v option \<Rightarrow> bool"
  li_is_bool :: "'v option \<Rightarrow> bool"
  li_is_literal :: "'v option \<Rightarrow> bool"
  li_as_uri :: "'v option \<Rightarrow> string option"
  li_as_blank :: "'v option \<Rightarrow> string option"
  li_as_string :: "'v option \<Rightarrow> string option"
  li_as_float :: "'v option \<Rightarrow> rat"
  li_as_int :: "'v option \<Rightarrow> int"
  li_as_bool :: "'v option \<Rightarrow> bool"
  li_uri_input :: string
  li_uri_output :: string
  li_uri_control :: string
  li_by_uri :: "'v option \<Rightarrow> 'pl option"
  li_verify :: "'pl \<Rightarrow> bool"
  li_plugin_name :: "'pl \<Rightarrow> 'v option"
  li_plugin_uri :: "'pl \<Rightarrow> 'v option"
  li_num_ports :: "'pl \<Rightarrow> nat"
  li_port :: "'pl \<Rightarrow> nat \<Rightarrow> 'po"
  li_port_name :: "'pl \<Rightarrow> 'po \<Rightarrow> 'v option"
  li_port_is_a :: "'pl \<Rightarrow> 'po \<Rightarrow> 'v option \<Rightarrow> bool"
  li_instantiate :: "'pl \<Rightarrow> rat \<Rightarrow> bool"

datatype 'd lv2_call = Call_Activate nat | Call_Connect nat nat 'd | Call_Run nat nat | Call_Free nat

record ('v, 'd) lv2_world =
  lw_world :: bool
  lw_nodes :: "nat \<Rightarrow> 'v option"
  lw_fresh :: nat
  lw_insts :: "nat set"
  lw_calls :: "'d lv2_call list"

text \<open>A function of the library that hands out a node which the caller has to free.\<close>

definition new_node :: "'v option \<Rightarrow> ('v, 'd) lv2_world \<Rightarrow> nat option \<times> ('v, 'd) lv2_world" where
  "new_node x w =
     (case x of
        None \<Rightarrow> (None, w)
      | Some v \<Rightarrow> (Some (lw_fresh w), w\<lparr>lw_nodes := (lw_nodes w)(lw_fresh w \<mapsto> v), lw_fresh := Suc (lw_fresh w)\<rparr>))"

definition read_node :: "nat option \<Rightarrow> ('v, 'd) lv2_world \<Rightarrow> 'v option result" where
  "read_node p w =
     (case p of
        None \<Rightarrow> Inr None
      | Some k \<Rightarrow> (case lw_nodes w k of None \<Rightarrow> Inl Use_After_Free | Some v \<Rightarrow> Inr (Some v)))"

definition free_node :: "nat option \<Rightarrow> ('v, 'd) lv2_world \<Rightarrow> ('v, 'd) lv2_world result" where
  "free_node p w =
     (case p of
        None \<Rightarrow> Inr w
      | Some k \<Rightarrow> if lw_nodes w k = None then Inl Use_After_Free else Inr (w\<lparr>lw_nodes := (lw_nodes w)(k := None)\<rparr>))"

section \<open>Nodes\<close>

datatype node_type = Nd_URI | Nd_Blank | Nd_Literal | Nd_String | Nd_Float | Nd_Int | Nd_Bool

record lv2_node = nd_node :: "nat option"

definition lv2_node_make :: "nat option \<Rightarrow> lv2_node" where
  "lv2_node_make n = \<lparr>nd_node = n\<rparr>"

definition lv2_node_destroy :: "lv2_node \<Rightarrow> ('v, 'd) lv2_world \<Rightarrow> (lv2_node \<times> ('v, 'd) lv2_world) result" where
  "lv2_node_destroy nd w = map_res (Pair (nd\<lparr>nd_node := None\<rparr>)) (free_node (nd_node nd) w)"

fun node_is ::
    "('v, 'pl, 'po) lilv \<Rightarrow> node_type \<Rightarrow> lv2_node \<Rightarrow> ('v, 'd) lv2_world \<Rightarrow> bool result" where
  "node_is L Nd_URI nd w = map_res (li_is_uri L) (read_node (nd_node nd) w)"
| "node_is L Nd_Blank nd w = map_res (li_is_blank L) (read_node (nd_node nd) w)"
| "node_is L Nd_String nd w = map_res (li_is_string L) (read_node (nd_node nd) w)"
| "node_is L Nd_Float nd w = map_res (li_is_float L) (read_node (nd_node nd) w)"
| "node_is L Nd_Int nd w = map_res (li_is_int L) (read_node (nd_node nd) w)"
| "node_is L Nd_Bool nd w = map_res (li_is_bool L) (read_node (nd_node nd) w)"
| "node_is L Nd_Literal nd w = map_res (li_is_literal L) (read_node (nd_node nd) w)"

text \<open>The static conversions, on a pointer; the members apply them to their node.\<close>

definition as_URI :: "('v, 'pl, 'po) lilv \<Rightarrow> nat option \<Rightarrow> ('v, 'd) lv2_world \<Rightarrow> string option result" where
  "as_URI L p w = map_res (li_as_uri L) (read_node p w)"

definition as_Blank :: "('v, 'pl, 'po) lilv \<Rightarrow> nat option \<Rightarrow> ('v, 'd) lv2_world \<Rightarrow> string option result" where
  "as_Blank L p w = map_res (li_as_blank L) (read_node p w)"

definition as_String :: "('v, 'pl, 'po) lilv \<Rightarrow> nat option \<Rightarrow> ('v, 'd) lv2_world \<Rightarrow> string option result" where
  "as_String L p w = map_res (li_as_string L) (read_node p w)"

definition as_Float :: "('v, 'pl, 'po) lilv \<Rightarrow> nat option \<Rightarrow> ('v, 'd) lv2_world \<Rightarrow> rat result" where
  "as_Float L p w = map_res (li_as_float L) (read_node p w)"

definition as_Int :: "('v, 'pl, 'po) lilv \<Rightarrow> nat option \<Rightarrow> ('v, 'd) lv2_world \<Rightarrow> int result" where
  "as_Int L p w = map_res (li_as_int L) (read_node p w)"

definition as_Bool :: "('v, 'pl, 'po) lilv \<Rightarrow> nat option \<Rightarrow> ('v, 'd) lv2_world \<Rightarrow> bool result" where
  "as_Bool L p w = map_res (li_as_bool L) (read_node p w)"

definition node_as_URI :: "('v, 'pl, 'po) lilv \<Rightarrow> lv2_node \<Rightarrow> ('v, 'd) lv2_world \<Rightarrow> string option result" where
  "node_as_URI L nd w = as_URI L (nd_node nd) w"

definition node_as_Blank :: "('v, 'pl, 'po) lilv \<Rightarrow> lv2_node \<Rightarrow> ('v, 'd) lv2_world \<Rightarrow> string option result" where
  "node_as_Blank L nd w = as_Blank L (nd_node nd) w"

definition node_as_String :: "('v, 'pl, 'po) lilv \<Rightarrow> lv2_node \<Rightarrow> ('v, 'd) lv2_world \<Rightarrow> string option result" where
  "node_as_String L nd w = as_String L (nd_node nd) w"

definition node_as_Float :: "('v, 'pl, 'po) lilv \<Rightarrow> lv2_node \<Rightarrow> ('v, 'd) lv2_world \<Rightarrow> rat result" where
  "node_as_Float L nd w = as_Float L (nd_node nd) w"

definition node_as_Int :: "('v, 'pl, 'po) lilv \<Rightarrow> lv2_node \<Rightarrow> ('v, 'd) lv2_world \<Rightarrow> int result" where
  "node_as_Int L nd w = as_Int L (nd_node nd) w"

definition node_as_Bool :: "('v, 'pl, 'po) lilv \<Rightarrow> lv2_node \<Rightarrow> ('v, 'd) lv2_world \<Rightarrow> bool result" where
  "node_as_Bool L nd w = as_Bool L (nd_node nd) w"

section \<open>The factory\<close>

definition pack_node :: "nat option \<times> ('v, 'd) lv2_world \<Rightarrow> lv2_node \<times> ('v, 'd) lv2_world" where
  "pack_node r = (lv2_node_make (fst r), snd r)"

definition new_Uri :: "('v, 'pl, 'po) lilv \<Rightarrow> string \<Rightarrow> ('v, 'd) lv2_world \<Rightarrow> lv2_node \<times> ('v, 'd) lv2_world" where
  "new_Uri L uri w = pack_node (new_node (li_new_uri L uri) w)"

definition new_String :: "('v, 'pl, 'po) lilv \<Rightarrow> string \<Rightarrow> ('v, 'd) lv2_world \<Rightarrow> lv2_node \<times> ('v, 'd) lv2_world" where
  "new_String L str w = pack_node (new_node (li_new_string L str) w)"

definition new_Int :: "('v, 'pl, 'po) lilv \<Rightarrow> int \<Rightarrow> ('v, 'd) lv2_world \<Rightarrow> lv2_node \<times> ('v, 'd) lv2_world" where
  "new_Int L val w = pack_node (new_node (li_new_int L val) w)"

definition new_Float :: "('v, 'pl, 'po) lilv \<Rightarrow> rat \<Rightarrow> ('v, 'd) lv2_world \<Rightarrow> lv2_node \<times> ('v, 'd) lv2_world" where
  "new_Float L val w = pack_node (new_node (li_new_float L val) w)"

definition new_Bool :: "('v, 'pl, 'po) lilv \<Rightarrow> bool \<Rightarrow> ('v, 'd) lv2_world \<Rightarrow> lv2_node \<times> ('v, 'd) lv2_world" where
  "new_Bool L val w = pack_node (new_node (li_new_bool L val) w)"

section \<open>A plugin\<close>

datatype port_type = Port_Input | Port_Output | Port_Midi

record 'po lv2_port =
  po_symbol :: string
  po_type :: port_type
  po_index :: nat
  po_port :: 'po

record ('pl, 'po) lv2_plugin =
  pg_plugin :: 'pl
  pg_inst :: "nat option"
  pg_fs :: rat
  pg_ports :: "(string \<times> 'po lv2_port) list"

text \<open>\<open>std::map::insert\<close>, which keeps the entry that is there; the list is in the order of the keys.\<close>

fun port_insert :: "string \<Rightarrow> 'a \<Rightarrow> (string \<times> 'a) list \<Rightarrow> (string \<times> 'a) list" where
  "port_insert k p [] = [(k, p)]"
| "port_insert k p ((j, q) # ps) =
     (if k < j then (k, p) # (j, q) # ps else if k = j then (j, q) # ps else (j, q) # port_insert k p ps)"

text \<open>\<open>std::string\<close> of a null pointer is undefined.\<close>

definition std_string :: "string option \<Rightarrow> string result" where
  "std_string s = (case s of None \<Rightarrow> Inl Null_Deref | Some x \<Rightarrow> Inr x)"

fun profile_loop ::
    "('v, 'pl, 'po) lilv \<Rightarrow> 'pl \<Rightarrow> lv2_node \<Rightarrow> lv2_node \<Rightarrow> nat list \<Rightarrow> (string \<times> 'po lv2_port) list
      \<Rightarrow> ('v, 'd) lv2_world \<Rightarrow> ((string \<times> 'po lv2_port) list \<times> ('v, 'd) lv2_world) result" where
  "profile_loop L pl node_in node_out [] ports w = Inr (ports, w)"
| "profile_loop L pl node_in node_out (i # is) ports w =
     (let port = li_port L pl i; (name, w1) = new_node (li_port_name L pl port) w in
      bind_res (as_String L name w1) (\<lambda>pname.
      bind_res (read_node (nd_node node_in) w1) (\<lambda>input.
        if li_port_is_a L pl port input
        then bind_res (std_string pname) (\<lambda>s.
             profile_loop L pl node_in node_out is
               (port_insert s \<lparr>po_symbol = s, po_type = Port_Input, po_index = i, po_port = port\<rparr> ports) w1)
        else bind_res (read_node (nd_node node_out) w1) (\<lambda>output.
          if li_port_is_a L pl port output
          then bind_res (std_string pname) (\<lambda>s.
               profile_loop L pl node_in node_out is
                 (port_insert s \<lparr>po_symbol = s, po_type = Port_Output, po_index = i, po_port = port\<rparr> ports) w1)
          else profile_loop L pl node_in node_out is ports w1))))"

definition get_num_ports :: "('v, 'pl, 'po) lilv \<Rightarrow> 'pl \<Rightarrow> nat" where
  "get_num_ports L pl = u32 (li_num_ports L pl)"

text \<open>The three nodes of port classes are owned by locals and freed at the end, in the reverse order.\<close>

definition profile_ports ::
    "('v, 'pl, 'po) lilv \<Rightarrow> ('pl, 'po) lv2_plugin \<Rightarrow> ('v, 'd) lv2_world
      \<Rightarrow> (('pl, 'po) lv2_plugin \<times> ('v, 'd) lv2_world) result" where
  "profile_ports L p w =
     (let n = get_num_ports L (pg_plugin p);
          (node_in, w1) = new_Uri L (li_uri_input L) w;
          (node_out, w2) = new_Uri L (li_uri_output L) w1;
          (node_control, w3) = new_Uri L (li_uri_control L) w2
      in bind_res (profile_loop L (pg_plugin p) node_in node_out [0..<n] (pg_ports p) w3) (\<lambda>(ports, w4).
         bind_res (lv2_node_destroy node_control w4) (\<lambda>(_, w5).
         bind_res (lv2_node_destroy node_out w5) (\<lambda>(_, w6).
         bind_res (lv2_node_destroy node_in w6) (\<lambda>(_, w7).
         Inr (p\<lparr>pg_ports := ports\<rparr>, w7))))))"

definition plugin_make ::
    "('v, 'pl, 'po) lilv \<Rightarrow> 'pl \<Rightarrow> ('v, 'd) lv2_world \<Rightarrow> (('pl, 'po) lv2_plugin \<times> ('v, 'd) lv2_world) result" where
  "plugin_make L pl w = profile_ports L \<lparr>pg_plugin = pl, pg_inst = None, pg_fs = 44100, pg_ports = []\<rparr> w"

definition plugin_destroy :: "('pl, 'po) lv2_plugin \<Rightarrow> ('v, 'd) lv2_world \<Rightarrow> ('v, 'd) lv2_world" where
  "plugin_destroy p w =
     (case pg_inst p of
        None \<Rightarrow> w
      | Some i \<Rightarrow> w\<lparr>lw_insts := lw_insts w - {i}, lw_calls := lw_calls w @ [Call_Free i]\<rparr>)"

definition get_plugin :: "('pl, 'po) lv2_plugin \<Rightarrow> 'pl" where
  "get_plugin p = pg_plugin p"

text \<open>The node of the name is handed out by the library, that of the URI stays the library's.\<close>

definition get_name ::
    "('v, 'pl, 'po) lilv \<Rightarrow> ('pl, 'po) lv2_plugin \<Rightarrow> ('v, 'd) lv2_world \<Rightarrow> (string \<times> ('v, 'd) lv2_world) result" where
  "get_name L p w =
     (let (n, w1) = new_node (li_plugin_name L (pg_plugin p)) w in
      bind_res (as_String L n w1) (\<lambda>s. map_res (\<lambda>x. (x, w1)) (std_string s)))"

definition get_uri :: "('v, 'pl, 'po) lilv \<Rightarrow> ('pl, 'po) lv2_plugin \<Rightarrow> string result" where
  "get_uri L p = std_string (li_as_string L (li_plugin_uri L (pg_plugin p)))"

definition set_fs :: "rat \<Rightarrow> ('pl, 'po) lv2_plugin \<Rightarrow> ('pl, 'po) lv2_plugin" where
  "set_fs rate p = p\<lparr>pg_fs := rate\<rparr>"

definition get_fs :: "('pl, 'po) lv2_plugin \<Rightarrow> rat" where
  "get_fs p = pg_fs p"

text \<open>An instance that is there already is forgotten, not freed.\<close>

definition plugin_instantiate ::
    "('v, 'pl, 'po) lilv \<Rightarrow> ('pl, 'po) lv2_plugin \<Rightarrow> ('v, 'd) lv2_world
      \<Rightarrow> bool \<times> ('pl, 'po) lv2_plugin \<times> ('v, 'd) lv2_world" where
  "plugin_instantiate L p w =
     (if li_instantiate L (pg_plugin p) (pg_fs p)
      then (True, p\<lparr>pg_inst := Some (lw_fresh w)\<rparr>,
            w\<lparr>lw_fresh := Suc (lw_fresh w), lw_insts := insert (lw_fresh w) (lw_insts w)\<rparr>)
      else (False, p\<lparr>pg_inst := None\<rparr>, w))"

definition plugin_init :: "('pl, 'po) lv2_plugin \<Rightarrow> ('v, 'd) lv2_world \<Rightarrow> bool \<times> ('v, 'd) lv2_world" where
  "plugin_init p w =
     (case pg_inst p of
        None \<Rightarrow> (False, w)
      | Some i \<Rightarrow> (True, w\<lparr>lw_calls := lw_calls w @ [Call_Activate i]\<rparr>))"

definition plugin_run :: "nat \<Rightarrow> ('pl, 'po) lv2_plugin \<Rightarrow> ('v, 'd) lv2_world \<Rightarrow> ('v, 'd) lv2_world result" where
  "plugin_run num p w =
     (case pg_inst p of
        None \<Rightarrow> Inl Null_Deref
      | Some i \<Rightarrow> Inr (w\<lparr>lw_calls := lw_calls w @ [Call_Run i num]\<rparr>))"

definition get_port :: "string \<Rightarrow> ('pl, 'po) lv2_plugin \<Rightarrow> 'po lv2_port option" where
  "get_port name p = map_of (pg_ports p) name"

definition get_port_at :: "nat \<Rightarrow> ('pl, 'po) lv2_plugin \<Rightarrow> 'po lv2_port option" where
  "get_port_at index p = map_option snd (find (\<lambda>it. po_index (snd it) = index) (pg_ports p))"

definition get_ports_of_type :: "port_type \<Rightarrow> ('pl, 'po) lv2_plugin \<Rightarrow> 'po lv2_port list" where
  "get_ports_of_type ty p = map snd (filter (\<lambda>it. po_type (snd it) = ty) (pg_ports p))"

definition connect_port_at ::
    "nat \<Rightarrow> 'd \<Rightarrow> ('pl, 'po) lv2_plugin \<Rightarrow> ('v, 'd) lv2_world \<Rightarrow> ('v, 'd) lv2_world result" where
  "connect_port_at index data p w =
     (case pg_inst p of
        None \<Rightarrow> Inl Null_Deref
      | Some i \<Rightarrow> Inr (w\<lparr>lw_calls := lw_calls w @ [Call_Connect i index data]\<rparr>))"

definition connect_port ::
    "string \<Rightarrow> 'd \<Rightarrow> ('pl, 'po) lv2_plugin \<Rightarrow> ('v, 'd) lv2_world \<Rightarrow> ('v, 'd) lv2_world result" where
  "connect_port pname data p w =
     (case get_port pname p of None \<Rightarrow> Inr w | Some port \<Rightarrow> connect_port_at (po_index port) data p w)"

section \<open>The platform and the adaptor\<close>

text \<open>The constructor throws a pointer to an exception, not an exception.\<close>

definition platform_make :: "('v, 'pl, 'po) lilv \<Rightarrow> ('v, 'd) lv2_world result" where
  "platform_make L =
     (if \<not> li_world L then Inl Thrown_Pointer
      else Inr \<lparr>lw_world = True, lw_nodes = (\<lambda>_. None), lw_fresh = 0, lw_insts = {}, lw_calls = []\<rparr>)"

definition platform_destroy :: "('v, 'd) lv2_world \<Rightarrow> ('v, 'd) lv2_world" where
  "platform_destroy w = w\<lparr>lw_world := False\<rparr>"

definition platform_get_plugin ::
    "('v, 'pl, 'po) lilv \<Rightarrow> string \<Rightarrow> ('v, 'd) lv2_world \<Rightarrow> (('pl, 'po) lv2_plugin option \<times> ('v, 'd) lv2_world) result" where
  "platform_get_plugin L uri w =
     (if \<not> lw_world w then Inl Use_After_Free
      else (let (uri_node, w1) = new_node (li_new_uri L uri) w in
            bind_res (read_node uri_node w1) (\<lambda>v.
              case li_by_uri L v of
                None \<Rightarrow> Inr (None, w1)
              | Some pl \<Rightarrow>
                  if \<not> li_verify L pl then Inr (None, w1)
                  else map_res (\<lambda>(p, w2). (Some p, w2)) (plugin_make L pl w1))))"

text \<open>The pointer to the platform is not initialised by the constructor.\<close>

record ('pl, 'po, 'u) lv2_adaptor =
  ad_unit :: 'u
  ad_plugin :: "('pl, 'po) lv2_plugin option"
  ad_platform :: bool

definition adaptor_make :: "'u \<Rightarrow> ('pl, 'po, 'u) lv2_adaptor" where
  "adaptor_make u = \<lparr>ad_unit = u, ad_plugin = None, ad_platform = False\<rparr>"

definition set_platform :: "('pl, 'po, 'u) lv2_adaptor \<Rightarrow> ('pl, 'po, 'u) lv2_adaptor" where
  "set_platform a = a\<lparr>ad_platform := True\<rparr>"

definition load_plugin ::
    "('v, 'pl, 'po) lilv \<Rightarrow> (string \<Rightarrow> 'u \<Rightarrow> 'u) \<Rightarrow> (string \<Rightarrow> 'u \<Rightarrow> 'u) \<Rightarrow> string \<Rightarrow> bool
      \<Rightarrow> ('pl, 'po, 'u) lv2_adaptor \<Rightarrow> ('v, 'd) lv2_world
      \<Rightarrow> (('pl, 'po, 'u) lv2_adaptor \<times> ('v, 'd) lv2_world) result" where
  "load_plugin L add_jack add_plug uri manual a w =
     (if \<not> ad_platform a then Inl Uninitialised
      else bind_res (platform_get_plugin L uri w) (\<lambda>(got, w1).
        let w2 = (case ad_plugin a of None \<Rightarrow> w1 | Some old \<Rightarrow> plugin_destroy old w1);
            a1 = a\<lparr>ad_plugin := got\<rparr>
        in case got of
             None \<Rightarrow> Inr (a1, w2)
           | Some p \<Rightarrow>
               let inputs = get_ports_of_type Port_Input p; outputs = get_ports_of_type Port_Output p in
               if manual then Inr (a1, w2)
               else Inr (a1\<lparr>ad_unit := fold (\<lambda>it. add_plug (po_symbol it)) outputs
                                    (fold (\<lambda>it. add_jack (po_symbol it)) inputs (ad_unit a1))\<rparr>, w2)))"

definition init_plugin :: "('pl, 'po, 'u) lv2_adaptor \<Rightarrow> ('v, 'd) lv2_world \<Rightarrow> bool \<times> ('v, 'd) lv2_world" where
  "init_plugin a w = (case ad_plugin a of None \<Rightarrow> (False, w) | Some p \<Rightarrow> plugin_init p w)"

section \<open>Nodes in the store\<close>

definition world_ok :: "('v, 'd) lv2_world \<Rightarrow> bool" where
  "world_ok w \<longleftrightarrow> (\<forall>k \<ge> lw_fresh w. lw_nodes w k = None)"

definition live_nodes :: "('v, 'd) lv2_world \<Rightarrow> nat" where
  "live_nodes w = card (dom (lw_nodes w))"

text \<open>The nodes there were are as they were; new ones may have come.\<close>

definition grows :: "('v, 'd) lv2_world \<Rightarrow> ('v, 'd) lv2_world \<Rightarrow> bool" where
  "grows w w' \<longleftrightarrow> world_ok w' \<and> lw_fresh w \<le> lw_fresh w' \<and> (\<forall>k < lw_fresh w. lw_nodes w' k = lw_nodes w k)
     \<and> lw_world w' = lw_world w \<and> lw_insts w' = lw_insts w \<and> lw_calls w' = lw_calls w"

lemma grows_refl: "world_ok w \<Longrightarrow> grows w w"
  by (simp add: grows_def)

lemma grows_trans: "grows w1 w2 \<Longrightarrow> grows w2 w3 \<Longrightarrow> grows w1 w3"
  by (simp add: grows_def)

lemma world_ok_finite: "world_ok w \<Longrightarrow> finite (dom (lw_nodes w))"
  by (rule finite_subset [of _ "{..< lw_fresh w}"]) (auto simp: world_ok_def not_le [symmetric])

lemma new_node_grows:
  assumes "world_ok w" and "new_node x w = (p, w1)"
  shows "grows w w1" "live_nodes w1 = live_nodes w + (if x = None then 0 else 1)" "read_node p w1 = Inr x"
proof -
  have "lw_nodes w (lw_fresh w) = None" using assms(1) by (simp add: world_ok_def)
  then show "live_nodes w1 = live_nodes w + (if x = None then 0 else 1)"
    using assms world_ok_finite [OF assms(1)] by (auto simp: new_node_def live_nodes_def card_insert_if split: option.splits)
  show "grows w w1" "read_node p w1 = Inr x"
    using assms by (auto simp: new_node_def grows_def world_ok_def read_node_def split: option.splits)
qed

lemma read_grows:
  assumes "grows w w'" and "world_ok w" and "read_node p w = Inr v"
  shows "read_node p w' = Inr v"
proof (cases p)
  case (Some k)
  then obtain x where x: "lw_nodes w k = Some x" "v = Some x" using assms(3) by (auto simp: read_node_def split: option.splits)
  then have "k < lw_fresh w" using assms(2) by (auto simp: world_ok_def not_le [symmetric])
  then show ?thesis using assms(1) x Some by (simp add: grows_def read_node_def)
qed (use assms(3) in \<open>simp add: read_node_def\<close>)

text \<open>A node that a local owns is gone at the end of its scope, and nothing else is.\<close>

lemma scoped_node:
  assumes "world_ok w" and "new_node x w = (p, w1)" and "grows w1 w2"
  shows "\<exists>w3. free_node p w2 = Inr w3 \<and> grows w w3 \<and> live_nodes w3 + live_nodes w1 = live_nodes w2 + live_nodes w"
proof (cases x)
  case None
  then show ?thesis using assms by (simp add: new_node_def free_node_def)
next
  case (Some v)
  let ?k = "lw_fresh w"
  let ?w3 = "w2\<lparr>lw_nodes := (lw_nodes w2)(?k := None)\<rparr>"
  have p: "p = Some ?k" and w1: "lw_fresh w1 = Suc ?k" "lw_nodes w1 = (lw_nodes w)(?k \<mapsto> v)"
    "lw_world w1 = lw_world w" "lw_insts w1 = lw_insts w" "lw_calls w1 = lw_calls w"
    using assms(2) Some by (auto simp: new_node_def)
  have k: "lw_nodes w2 ?k = Some v" using assms(3) w1 by (simp add: grows_def)
  have f: "finite (dom (lw_nodes w2))" using assms(3) world_ok_finite by (auto simp: grows_def)
  have "?k \<in> dom (lw_nodes w2)" using k by auto
  then have "live_nodes w2 = Suc (live_nodes ?w3)"
    using card_Suc_Diff1 [OF f] by (simp add: live_nodes_def)
  moreover have "live_nodes w1 = live_nodes w + 1" using new_node_grows(2) [OF assms(1,2)] Some by simp
  moreover have "grows w ?w3" using assms(3) w1 by (auto simp: grows_def world_ok_def)
  moreover have "free_node p w2 = Inr ?w3" using p k by (simp add: free_node_def)
  ultimately show ?thesis by (intro exI [of _ ?w3]) simp
qed

section \<open>The ports of a plugin\<close>

text \<open>What the library says of a port.\<close>

definition port_kind :: "('v, 'pl, 'po) lilv \<Rightarrow> 'pl \<Rightarrow> nat \<Rightarrow> port_type option" where
  "port_kind L pl i =
     (if li_port_is_a L pl (li_port L pl i) (li_new_uri L (li_uri_input L)) then Some Port_Input
      else if li_port_is_a L pl (li_port L pl i) (li_new_uri L (li_uri_output L)) then Some Port_Output else None)"

definition port_name :: "('v, 'pl, 'po) lilv \<Rightarrow> 'pl \<Rightarrow> nat \<Rightarrow> string option" where
  "port_name L pl i = li_as_string L (li_port_name L pl (li_port L pl i))"

definition port_entry :: "('v, 'pl, 'po) lilv \<Rightarrow> 'pl \<Rightarrow> nat \<Rightarrow> 'po lv2_port" where
  "port_entry L pl i = \<lparr>po_symbol = the (port_name L pl i), po_type = the (port_kind L pl i), po_index = i,
     po_port = li_port L pl i\<rparr>"

definition add_entry ::
    "('v, 'pl, 'po) lilv \<Rightarrow> 'pl \<Rightarrow> nat \<Rightarrow> (string \<times> 'po lv2_port) list \<Rightarrow> (string \<times> 'po lv2_port) list" where
  "add_entry L pl i ports =
     (if port_kind L pl i = None \<or> port_name L pl i = None then ports
      else port_insert (the (port_name L pl i)) (port_entry L pl i) ports)"

definition named_ports :: "('v, 'pl, 'po) lilv \<Rightarrow> 'pl \<Rightarrow> nat list \<Rightarrow> bool" where
  "named_ports L pl is \<longleftrightarrow> (\<forall>i \<in> set is. port_kind L pl i \<noteq> None \<longrightarrow> port_name L pl i \<noteq> None)"

definition first_port :: "('v, 'pl, 'po) lilv \<Rightarrow> 'pl \<Rightarrow> nat list \<Rightarrow> string \<Rightarrow> nat option" where
  "first_port L pl is nm = find (\<lambda>i. port_kind L pl i \<noteq> None \<and> port_name L pl i = Some nm) is"

definition name_nodes :: "('v, 'pl, 'po) lilv \<Rightarrow> 'pl \<Rightarrow> nat list \<Rightarrow> nat" where
  "name_nodes L pl is = length (filter (\<lambda>i. li_port_name L pl (li_port L pl i) \<noteq> None) is)"

lemma profile_loop_runs:
  assumes "world_ok w" and "named_ports L pl is"
    and "read_node (nd_node node_in) w = Inr (li_new_uri L (li_uri_input L))"
    and "read_node (nd_node node_out) w = Inr (li_new_uri L (li_uri_output L))"
  shows "\<exists>w'. profile_loop L pl node_in node_out is ports w = Inr (fold (add_entry L pl) is ports, w')
    \<and> grows w w' \<and> live_nodes w' = live_nodes w + name_nodes L pl is"
  using assms
proof (induction "is" arbitrary: ports w)
  case (Cons i "is")
  obtain name w1 where n: "new_node (li_port_name L pl (li_port L pl i)) w = (name, w1)"
    by (cases "new_node (li_port_name L pl (li_port L pl i)) w")
  note g = new_node_grows [OF Cons.prems(1) n]
  have ok: "world_ok w1" using g(1) by (simp add: grows_def)
  note r = read_grows [OF g(1) Cons.prems(1) Cons.prems(3)] read_grows [OF g(1) Cons.prems(1) Cons.prems(4)]
  have nm: "named_ports L pl is" "port_kind L pl i \<noteq> None \<Longrightarrow> port_name L pl i \<noteq> None"
    using Cons.prems(2) by (simp_all add: named_ports_def)
  have s: "as_String L name w1 = Inr (port_name L pl i)" by (simp add: as_String_def g(3) port_name_def)
  have head: "profile_loop L pl node_in node_out (i # is) ports w
      = profile_loop L pl node_in node_out is (add_entry L pl i ports) w1"
    using nm(2) by (auto simp: n s r port_kind_def add_entry_def port_entry_def std_string_def)
  obtain w' where w': "profile_loop L pl node_in node_out is (add_entry L pl i ports) w1
      = Inr (fold (add_entry L pl) is (add_entry L pl i ports), w')"
      "grows w1 w'" "live_nodes w' = live_nodes w1 + name_nodes L pl is"
    using Cons.IH [OF ok nm(1) r] by blast
  then show ?case
    using grows_trans [OF g(1) w'(2)] g(2) head by (intro exI [of _ w']) (simp add: name_nodes_def)
qed (simp add: grows_refl name_nodes_def)

lemma plugin_make_runs:
  assumes "world_ok w" and "li_num_ports L pl < 4294967296" and "named_ports L pl [0..<li_num_ports L pl]"
  shows "\<exists>w'. plugin_make L pl w = Inr (\<lparr>pg_plugin = pl, pg_inst = None, pg_fs = 44100,
      pg_ports = fold (add_entry L pl) [0..<li_num_ports L pl] []\<rparr>, w')
    \<and> grows w w' \<and> live_nodes w' = live_nodes w + name_nodes L pl [0..<li_num_ports L pl]"
proof -
  let ?is = "[0..<li_num_ports L pl]"
  obtain pi w1 where a: "new_node (li_new_uri L (li_uri_input L)) w = (pi, w1)"
    by (cases "new_node (li_new_uri L (li_uri_input L)) w")
  note ga = new_node_grows [OF assms(1) a]
  have oka: "world_ok w1" using ga(1) by (simp add: grows_def)
  obtain po w2 where b: "new_node (li_new_uri L (li_uri_output L)) w1 = (po, w2)"
    by (cases "new_node (li_new_uri L (li_uri_output L)) w1")
  note gb = new_node_grows [OF oka b]
  have okb: "world_ok w2" using gb(1) by (simp add: grows_def)
  obtain pc w3 where c: "new_node (li_new_uri L (li_uri_control L)) w2 = (pc, w3)"
    by (cases "new_node (li_new_uri L (li_uri_control L)) w2")
  note gc = new_node_grows [OF okb c]
  have okc: "world_ok w3" using gc(1) by (simp add: grows_def)
  have ri: "read_node pi w3 = Inr (li_new_uri L (li_uri_input L))"
    by (rule read_grows [OF gc(1) okb read_grows [OF gb(1) oka ga(3)]])
  have ro: "read_node po w3 = Inr (li_new_uri L (li_uri_output L))" by (rule read_grows [OF gc(1) okb gb(3)])
  obtain w4 where l: "profile_loop L pl (lv2_node_make pi) (lv2_node_make po) ?is [] w3
      = Inr (fold (add_entry L pl) ?is [], w4)" "grows w3 w4" "live_nodes w4 = live_nodes w3 + name_nodes L pl ?is"
    using profile_loop_runs [OF okc assms(3), of "lv2_node_make pi" "lv2_node_make po"] ri ro
    by (force simp: lv2_node_make_def)
  obtain w5 where f: "free_node pc w4 = Inr w5" "grows w2 w5" "live_nodes w5 + live_nodes w3 = live_nodes w4 + live_nodes w2"
    using scoped_node [OF okb c l(2)] by blast
  obtain w6 where e: "free_node po w5 = Inr w6" "grows w1 w6" "live_nodes w6 + live_nodes w2 = live_nodes w5 + live_nodes w1"
    using scoped_node [OF oka b f(2)] by blast
  obtain w7 where d: "free_node pi w6 = Inr w7" "grows w w7" "live_nodes w7 + live_nodes w1 = live_nodes w6 + live_nodes w"
    using scoped_node [OF assms(1) a e(2)] by blast
  have "live_nodes w7 = live_nodes w + name_nodes L pl ?is" using l(3) f(3) e(3) d(3) by simp
  then show ?thesis
    using d(2) assms(2) l(1) f(1) e(1) d(1)
    by (intro exI [of _ w7])
       (simp add: plugin_make_def profile_ports_def get_num_ports_def u32_id new_Uri_def pack_node_def a b c lv2_node_destroy_def
         lv2_node_make_def)
qed

text \<open>The map of ports: in the order of the names, and of ports with the same name the first.\<close>

lemma port_insert_keys: "fst ` set (port_insert k p ps) = insert k (fst ` set ps)"
  by (induction k p ps rule: port_insert.induct) auto

lemma port_insert_sorted: "sorted_wrt (<) (map fst ps) \<Longrightarrow> sorted_wrt (<) (map fst (port_insert k p ps))"
proof (induction k p ps rule: port_insert.induct)
  case (2 k p j q ps)
  have "x \<in> fst ` set (port_insert k p ps) \<Longrightarrow> \<not> k < j \<Longrightarrow> k \<noteq> j \<Longrightarrow> j < x" for x
    using 2(2) by (auto simp: port_insert_keys)
  then show ?case using 2 by auto
qed simp

lemma port_insert_map_of:
  "sorted_wrt (<) (map fst ps) \<Longrightarrow>
     map_of (port_insert k p ps) nm = (case map_of ps nm of Some q \<Rightarrow> Some q | None \<Rightarrow> if nm = k then Some p else None)"
proof (induction k p ps rule: port_insert.induct)
  case (2 k p j q ps)
  have "map_of ps k = None" if "k < j"
  proof (rule ccontr)
    assume "map_of ps k \<noteq> None"
    then have "k \<in> fst ` set ps" by (simp add: map_of_eq_None_iff)
    then have "j < k" using 2(2) by auto
    then show False using that by simp
  qed
  then show ?case using 2 by (auto split: option.splits)
qed simp

lemma ports_of_fold:
  assumes "sorted_wrt (<) (map fst ports)"
  shows "sorted_wrt (<) (map fst (fold (add_entry L pl) is ports))"
    and "map_of (fold (add_entry L pl) is ports) nm
      = (case map_of ports nm of Some q \<Rightarrow> Some q | None \<Rightarrow> map_option (port_entry L pl) (first_port L pl is nm))"
proof -
  have "sorted_wrt (<) (map fst (fold (add_entry L pl) is ports))
    \<and> map_of (fold (add_entry L pl) is ports) nm
      = (case map_of ports nm of Some q \<Rightarrow> Some q | None \<Rightarrow> map_option (port_entry L pl) (first_port L pl is nm))"
    using assms
  proof (induction "is" arbitrary: ports)
    case (Cons i "is")
    have s: "sorted_wrt (<) (map fst (add_entry L pl i ports))"
      using Cons.prems by (simp add: add_entry_def port_insert_sorted)
    have "map_of (add_entry L pl i ports) nm = (case map_of ports nm of Some q \<Rightarrow> Some q
        | None \<Rightarrow> if port_kind L pl i \<noteq> None \<and> port_name L pl i = Some nm then Some (port_entry L pl i) else None)"
      by (auto simp: add_entry_def port_insert_map_of [OF Cons.prems] split: option.splits)
    then show ?case using Cons.IH [OF s] by (auto simp: first_port_def split: option.splits)
  qed (simp add: first_port_def split: option.split)
  then show "sorted_wrt (<) (map fst (fold (add_entry L pl) is ports))"
    and "map_of (fold (add_entry L pl) is ports) nm
      = (case map_of ports nm of Some q \<Rightarrow> Some q | None \<Rightarrow> map_option (port_entry L pl) (first_port L pl is nm))"
    by simp_all
qed

lemma first_port_SomeD:
  "first_port L pl is nm = Some i \<Longrightarrow> i \<in> set is \<and> port_kind L pl i \<noteq> None \<and> port_name L pl i = Some nm"
  by (auto simp: first_port_def find_Some_iff)

locale profiled_plugin =
  fixes L :: "('v, 'pl, 'po) lilv" and pl :: 'pl and "is" :: "nat list" and p :: "('pl, 'po) lv2_plugin"
  assumes ports: "pg_ports p = fold (add_entry L pl) is []"
begin

lemma keys_sorted: "sorted_wrt (<) (map fst (pg_ports p))"
  unfolding ports by (rule ports_of_fold(1)) simp

lemma port_by_name: "get_port nm p = map_option (port_entry L pl) (first_port L pl is nm)"
  by (simp add: get_port_def ports ports_of_fold(2))

lemma ports_set: "set (pg_ports p) = {(nm, port_entry L pl i) | nm i. first_port L pl is nm = Some i}"
proof -
  have "distinct (map fst (pg_ports p))" using keys_sorted strict_sorted_iff [of "map fst (pg_ports p)"] by simp
  then have "(nm, q) \<in> set (pg_ports p) \<longleftrightarrow> get_port nm p = Some q" for nm q by (simp add: get_port_def)
  then show ?thesis by (auto simp: port_by_name)
qed

lemma port_by_index:
  "get_port_at i p = (if \<exists>nm. first_port L pl is nm = Some i then Some (port_entry L pl i) else None)"
proof (cases "find (\<lambda>it. po_index (snd it) = i) (pg_ports p)")
  case None
  then have "\<forall>it \<in> set (pg_ports p). po_index (snd it) \<noteq> i" unfolding find_None_iff by blast
  then have "\<nexists>nm. first_port L pl is nm = Some i" unfolding ports_set by (force simp: port_entry_def)
  then show ?thesis using None by (simp add: get_port_at_def)
next
  case (Some it)
  then have "it \<in> set (pg_ports p)" "po_index (snd it) = i" by (auto simp: find_Some_iff)
  then obtain nm where "it = (nm, port_entry L pl i)" "first_port L pl is nm = Some i"
    unfolding ports_set by (auto simp: port_entry_def)
  then show ?thesis using Some by (auto simp: get_port_at_def)
qed

lemma names_of_type:
  "sorted_wrt (<) (map po_symbol (get_ports_of_type ty p))"
  "set (map po_symbol (get_ports_of_type ty p)) = {nm. \<exists>i. first_port L pl is nm = Some i \<and> port_kind L pl i = Some ty}"
proof -
  have e: "po_symbol (snd it) = fst it" if "it \<in> set (pg_ports p)" for it
    using that first_port_SomeD unfolding ports_set by (force simp: port_entry_def)
  have m: "map po_symbol (get_ports_of_type ty p) = map fst (filter (\<lambda>it. po_type (snd it) = ty) (pg_ports p))"
    by (simp add: get_ports_of_type_def e)
  show "sorted_wrt (<) (map po_symbol (get_ports_of_type ty p))"
    using keys_sorted unfolding m by (simp add: sorted_wrt_map sorted_wrt_filter)
  show "set (map po_symbol (get_ports_of_type ty p)) = {nm. \<exists>i. first_port L pl is nm = Some i \<and> port_kind L pl i = Some ty}"
    unfolding m set_map set_filter ports_set using first_port_SomeD by (force simp: port_entry_def)
qed

end

text \<open>What the constructor makes of the ports \<open>is\<close> is such a plugin.\<close>

definition made_plugin :: "('v, 'pl, 'po) lilv \<Rightarrow> 'pl \<Rightarrow> nat list \<Rightarrow> ('pl, 'po) lv2_plugin" where
  "made_plugin L pl is =
     \<lparr>pg_plugin = pl, pg_inst = None, pg_fs = 44100, pg_ports = fold (add_entry L pl) is []\<rparr>"

interpretation made: profiled_plugin L pl "is" "made_plugin L pl is" for L :: "('v, 'pl, 'po) lilv" and pl "is"
  by unfold_locales (simp add: made_plugin_def)

lemma load_plugin_runs:
  assumes "world_ok w" and "lw_world w" and "ad_platform a"
    and "li_by_uri L (li_new_uri L uri) = Some pl" and "li_verify L pl"
    and "li_num_ports L pl < 4294967296" and "named_ports L pl [0..<li_num_ports L pl]"
  shows "\<exists>w'. load_plugin L add_jack add_plug uri False a w = Inr (a\<lparr>ad_plugin := Some (made_plugin L pl [0..<li_num_ports L pl]),
        ad_unit := fold add_plug (map po_symbol (get_ports_of_type Port_Output (made_plugin L pl [0..<li_num_ports L pl])))
          (fold add_jack (map po_symbol (get_ports_of_type Port_Input (made_plugin L pl [0..<li_num_ports L pl]))) (ad_unit a))\<rparr>, w')
    \<and> live_nodes w' = live_nodes w + (if li_new_uri L uri = None then 0 else 1) + name_nodes L pl [0..<li_num_ports L pl]"
proof -
  let ?p = "made_plugin L pl [0..<li_num_ports L pl]"
  obtain n w1 where n: "new_node (li_new_uri L uri) w = (n, w1)" by (cases "new_node (li_new_uri L uri) w")
  note g = new_node_grows [OF assms(1) n]
  have "world_ok w1" using g(1) by (simp add: grows_def)
  then obtain w2 where m: "plugin_make L pl w1 = Inr (?p, w2)"
      "live_nodes w2 = live_nodes w1 + name_nodes L pl [0..<li_num_ports L pl]"
    using plugin_make_runs [OF _ assms(6,7), of w1] by (auto simp: made_plugin_def)
  have got: "platform_get_plugin L uri w = Inr (Some ?p, w2)"
    using assms(2,4,5) by (simp add: platform_get_plugin_def n g(3) m(1))
  let ?w = "case ad_plugin a of None \<Rightarrow> w2 | Some old \<Rightarrow> plugin_destroy old w2"
  have "live_nodes ?w = live_nodes w2"
    by (simp add: live_nodes_def plugin_destroy_def split: option.split)
  then show ?thesis
    using assms(3) m(2) g(2)
    by (intro exI [of _ ?w]) (simp add: load_plugin_def got Let_def fold_map comp_def)
qed

section \<open>Properties\<close>

text \<open>C40. Loading an LV2 plugin declares its ports at the unit: one jack per name of an input and one plug per name of an
  output, each in the order of the names. Of ports with the same name the one with the least
  index stands for all, by name; the others cannot be found by their index either. Every load leaves the node of the URI and
  the node of each port name behind, and the loaded plugin cannot be initialised, as nothing has
  instantiated it.\<close>

theorem lv2_load_declares_ports:
  assumes "world_ok w" and "lw_world w" and "ad_platform a"
    and "li_by_uri L (li_new_uri L uri) = Some pl" and "li_verify L pl"
    and "n = li_num_ports L pl" and "n < 4294967296" and "named_ports L pl [0..<n]"
  shows "\<exists>a' p ins outs w'. load_plugin L add_jack add_plug uri False a w = Inr (a', w')
    \<and> ad_plugin a' = Some p \<and> ad_unit a' = fold add_plug outs (fold add_jack ins (ad_unit a))
    \<and> sorted_wrt (<) ins \<and> set ins = {nm. \<exists>i. first_port L pl [0..<n] nm = Some i \<and> port_kind L pl i = Some Port_Input}
    \<and> sorted_wrt (<) outs \<and> set outs = {nm. \<exists>i. first_port L pl [0..<n] nm = Some i \<and> port_kind L pl i = Some Port_Output}
    \<and> (\<forall>nm. get_port nm p = map_option (port_entry L pl) (first_port L pl [0..<n] nm))
    \<and> (\<forall>i. get_port_at i p = (if \<exists>nm. first_port L pl [0..<n] nm = Some i then Some (port_entry L pl i) else None))
    \<and> live_nodes w' = live_nodes w + (if li_new_uri L uri = None then 0 else 1) + name_nodes L pl [0..<n]
    \<and> init_plugin a' w' = (False, w')"
proof -
  let ?p = "made_plugin L pl [0..<n]"
  let ?in = "map po_symbol (get_ports_of_type Port_Input ?p)" and ?out = "map po_symbol (get_ports_of_type Port_Output ?p)"
  let ?a = "a\<lparr>ad_plugin := Some ?p, ad_unit := fold add_plug ?out (fold add_jack ?in (ad_unit a))\<rparr>"
  obtain w' where w': "load_plugin L add_jack add_plug uri False a w = Inr (?a, w')"
      "live_nodes w' = live_nodes w + (if li_new_uri L uri = None then 0 else 1) + name_nodes L pl [0..<n]"
    using load_plugin_runs [OF assms(1-5)] assms(6-8) by blast
  moreover have "init_plugin ?a w' = (False, w')" by (simp add: init_plugin_def plugin_init_def made_plugin_def)
  ultimately show ?thesis
    using made.names_of_type [of _ L pl "[0..<n]"]
      made.port_by_name [of _ L pl "[0..<n]"] made.port_by_index [of _ L pl "[0..<n]"]
    by - (rule exI [of _ ?a], rule exI [of _ ?p], rule exI [of _ ?in], rule exI [of _ ?out], rule exI [of _ w'], simp)
qed

text \<open>Three ports, an input and an output of the same name and another input.\<close>

definition demo_lilv :: "(string, string, nat) lilv" where
  "demo_lilv =
     \<lparr>li_world = True, li_new_uri = Some, li_new_string = Some, li_new_int = (\<lambda>_. Some ''int''),
      li_new_float = (\<lambda>_. Some ''float''), li_new_bool = (\<lambda>_. Some ''bool''), li_is_uri = (\<lambda>_. True),
      li_is_blank = (\<lambda>_. False), li_is_string = (\<lambda>_. True), li_is_float = (\<lambda>_. False), li_is_int = (\<lambda>_. False),
      li_is_bool = (\<lambda>_. False), li_is_literal = (\<lambda>_. False), li_as_uri = id, li_as_blank = id, li_as_string = id,
      li_as_float = (\<lambda>_. 0), li_as_int = (\<lambda>_. 0), li_as_bool = (\<lambda>_. False), li_uri_input = ''in'',
      li_uri_output = ''out'', li_uri_control = ''control'', li_by_uri = id, li_verify = (\<lambda>_. True),
      li_plugin_name = Some, li_plugin_uri = Some, li_num_ports = (\<lambda>_. 3), li_port = (\<lambda>_ i. i),
      li_port_name = (\<lambda>_ i. Some (if i = 2 then ''gain'' else ''audio'')),
      li_port_is_a = (\<lambda>_ i c. c = Some (if i = 1 then ''out'' else ''in'')), li_instantiate = (\<lambda>_ _. True)\<rparr>"

theorem lv2_load_declares_ports_witness:
  "\<exists>a' p w'. load_plugin demo_lilv (\<lambda>x. (#) x) (\<lambda>x. (#) x) ''uri'' False
       (set_platform (adaptor_make [])) (\<lparr>lw_world = True, lw_nodes = (\<lambda>_. None), lw_fresh = 0, lw_insts = {}, lw_calls = []\<rparr>
          :: (string, unit) lv2_world) = Inr (a', w')
     \<and> ad_plugin a' = Some p \<and> ad_unit a' = [''gain'', ''audio''] \<and> get_port_at 1 p = None \<and> live_nodes w' = 4
     \<and> \<not> fst (init_plugin a' w')"
proof -
  let ?w = "\<lparr>lw_world = True, lw_nodes = (\<lambda>_. None), lw_fresh = 0, lw_insts = {}, lw_calls = []\<rparr> :: (string, unit) lv2_world"
  let ?a = "set_platform (adaptor_make []) :: (string, nat, string list) lv2_adaptor"
  have n: "[0..<3] = [0, 1, 2 :: nat]" by (simp add: upt_rec)
  have f: "first_port demo_lilv ''uri'' [0..<3] nm = (if nm = ''audio'' then Some 0 else if nm = ''gain'' then Some 2 else None)" for nm
    by (simp add: n first_port_def port_kind_def port_name_def demo_lilv_def)
  have k: "port_kind demo_lilv ''uri'' i = Some (if i = 1 then Port_Output else Port_Input)" for i
    by (simp add: port_kind_def demo_lilv_def)
  have h: "world_ok ?w" "lw_world ?w" "ad_platform ?a"
      "li_by_uri demo_lilv (li_new_uri demo_lilv ''uri'') = Some ''uri''" "li_verify demo_lilv ''uri''"
      "3 = li_num_ports demo_lilv ''uri''" "(3 :: nat) < 4294967296" "named_ports demo_lilv ''uri'' [0..<3]"
    by (simp_all add: world_ok_def set_platform_def demo_lilv_def named_ports_def port_name_def)
  obtain a' p ins outs w' where r: "load_plugin demo_lilv (\<lambda>x. (#) x) (\<lambda>x. (#) x) ''uri'' False ?a ?w = Inr (a', w')"
      "ad_plugin a' = Some p" "ad_unit a' = fold (\<lambda>x. (#) x) outs (fold (\<lambda>x. (#) x) ins (ad_unit ?a))"
      "sorted_wrt (<) ins" "set ins = {nm. \<exists>i. first_port demo_lilv ''uri'' [0..<3] nm = Some i
         \<and> port_kind demo_lilv ''uri'' i = Some Port_Input}"
      "set outs = {nm. \<exists>i. first_port demo_lilv ''uri'' [0..<3] nm = Some i \<and> port_kind demo_lilv ''uri'' i = Some Port_Output}"
      "get_port_at 1 p = None"
      "live_nodes w' = live_nodes ?w + (if li_new_uri demo_lilv ''uri'' = None then 0 else 1) + name_nodes demo_lilv ''uri'' [0..<3]"
      "init_plugin a' w' = (False, w')"
    using lv2_load_declares_ports [OF h, of "\<lambda>x. (#) x" "\<lambda>x. (#) x"] by (auto simp: f)
  have "set ins = {''audio'', ''gain''}" using r(5) by (auto simp: f k)
  moreover have "sorted_wrt (<) [''audio'', ''gain'']" by simp
  ultimately have "ins = [''audio'', ''gain'']"
    using r(4) by (intro strict_sorted_equal) simp_all
  moreover have "outs = []" using r(6) by (auto simp: f k split: if_splits)
  ultimately have "ad_unit a' = [''gain'', ''audio'']" using r(3) by (simp add: set_platform_def adaptor_make_def)
  moreover have "live_nodes w' = 4" using r(8) by (simp add: live_nodes_def name_nodes_def n demo_lilv_def)
  ultimately show ?thesis using r(1,2,7,9) by (intro exI [of _ a'] exI [of _ p] exI [of _ w']) simp
qed

end
