(* ===== verification/Cache_Untracked.thy ===== *)
theory Cache_Untracked
  imports Cache_Ptr
begin

text \<open>
  The handles and their allocation in the build without \<open>CACHE_TRACKING\<close>, the default of the build files: the other
  branches of the conditional code in \<^verbatim>\<open>framework/memory/cache_ptr.cpp\<close>, \<^verbatim>\<open>cptr_utility.cpp\<close> and \<^verbatim>\<open>cache_manager.cpp\<close>.
  A handle has no identity and no owner there. Both builds do the same to the cache.
\<close>

section \<open>The handle\<close>

record plain_ptr =
  pp_cache :: bool
  pp_block :: nat
  pp_num_blocks :: nat

definition plain_null :: plain_ptr where
  "plain_null = \<lparr>pp_cache = False, pp_block = 0, pp_num_blocks = 0\<rparr>"

definition plain_make :: "nat \<Rightarrow> nat \<Rightarrow> bool \<Rightarrow> plain_ptr" where
  "plain_make block num_blocks cache = \<lparr>pp_cache = cache, pp_block = block, pp_num_blocks = num_blocks\<rparr>"

definition plain_move :: "plain_ptr \<Rightarrow> plain_ptr \<times> plain_ptr" where
  "plain_move that =
     (\<lparr>pp_cache = pp_cache that, pp_block = pp_block that, pp_num_blocks = pp_num_blocks that\<rparr>,
      that\<lparr>pp_block := 0, pp_num_blocks := 0\<rparr>)"

definition plain_move_assign :: "plain_ptr \<Rightarrow> plain_ptr \<Rightarrow> plain_ptr \<times> plain_ptr" where
  "plain_move_assign this that =
     (this\<lparr>pp_cache := pp_cache that, pp_block := pp_block that, pp_num_blocks := pp_num_blocks that\<rparr>,
      that\<lparr>pp_block := 0, pp_num_blocks := 0\<rparr>)"

definition plain_destroy :: "(nat \<Rightarrow> 'c \<Rightarrow> 'c result) \<Rightarrow> plain_ptr \<Rightarrow> 'c \<Rightarrow> 'c result" where
  "plain_destroy fr p c = (if pp_block p = 0 \<or> \<not> pp_cache p then Inr c else fr (pp_block p) c)"

definition plain_release :: "plain_ptr \<Rightarrow> nat \<times> plain_ptr" where
  "plain_release p = (pp_block p, p\<lparr>pp_num_blocks := 0, pp_block := 0\<rparr>)"

definition plain_free :: "(nat \<Rightarrow> 'c \<Rightarrow> 'c result) \<Rightarrow> plain_ptr \<Rightarrow> 'c \<Rightarrow> (plain_ptr \<times> 'c) result" where
  "plain_free fr p c =
     (if pp_block p = 0 \<or> \<not> pp_cache p then Inr (p, c)
      else map_res (Pair (p\<lparr>pp_block := 0\<rparr>)) (fr (pp_block p) c))"

definition plain_reset ::
    "(nat \<Rightarrow> 'c \<Rightarrow> 'c result) \<Rightarrow> nat \<Rightarrow> nat \<Rightarrow> plain_ptr \<Rightarrow> 'c \<Rightarrow> (plain_ptr \<times> 'c) result" where
  "plain_reset fr ptr num_blocks p c =
     bind_res (if pp_block p \<noteq> 0 then plain_free fr p c else Inr (p, c))
       (\<lambda>(p', c'). Inr (p'\<lparr>pp_num_blocks := num_blocks, pp_block := ptr\<rparr>, c'))"

definition plain_swap ::
    "bool \<Rightarrow> (nat \<Rightarrow> 'c \<Rightarrow> 'c result) \<Rightarrow> plain_ptr \<Rightarrow> plain_ptr \<Rightarrow> 'c \<Rightarrow> (plain_ptr \<times> plain_ptr \<times> 'c) result" where
  "plain_swap left_first fr this cptr c =
     (let nblocks = pp_num_blocks cptr;
          (ptr, cptr1) = plain_release cptr;
          (mine, this1) = plain_release this;
          count = (if left_first then pp_num_blocks this1 else pp_num_blocks this)
      in bind_res (plain_reset fr mine count cptr1 c) (\<lambda>(cptr2, c1).
         bind_res (plain_reset fr ptr nblocks this1 c1) (\<lambda>(this2, c2). Inr (this2, cptr2, c2))))"

definition plain_swap_self ::
    "(nat \<Rightarrow> 'c \<Rightarrow> 'c result) \<Rightarrow> plain_ptr \<Rightarrow> 'c \<Rightarrow> (plain_ptr \<times> 'c) result" where
  "plain_swap_self fr p c =
     (let nblocks = pp_num_blocks p;
          (ptr, p1) = plain_release p;
          (mine, p2) = plain_release p1
      in bind_res (plain_reset fr mine (pp_num_blocks p2) p2 c) (\<lambda>(p3, c1). plain_reset fr ptr nblocks p3 c1))"

definition plain_cache_alloc ::
    "(nat \<Rightarrow> 'c \<Rightarrow> nat result \<times> 'c) \<Rightarrow> cptr_utility \<Rightarrow> nat \<Rightarrow> 'c \<Rightarrow> plain_ptr result \<times> 'c" where
  "plain_cache_alloc al u num c =
     (if \<not> cu_cache u then (Inr (plain_make 0 0 False), c)
      else case al num c of
        (Inr ptr, c') \<Rightarrow> (Inr (plain_make ptr num (cu_cache u)), c')
      | (Inl e, c') \<Rightarrow> (Inl (set_component (cu_component_name u) e), c'))"

section \<open>Programs of handles\<close>

type_synonym plain_handles = "cache_manager \<times> plain_ptr list"

fun plain_exec :: "cptr_utility \<Rightarrow> handle_op \<Rightarrow> plain_handles \<Rightarrow> unit result \<times> plain_handles" where
  "plain_exec u (H_Alloc i n) (c, ps) =
     (case plain_cache_alloc alloc_raw u n c of
        (Inl e, c') \<Rightarrow> (Inl e, (c', ps))
      | (Inr p, c') \<Rightarrow> (Inr (), (c', ps[i := fst (plain_move_assign (ps ! i) p)])))"
| "plain_exec u (H_Move i j) (c, ps) =
     (let (p, q) = plain_move_assign (ps ! i) (ps ! j) in (Inr (), (c, ps[i := p, j := q])))"
| "plain_exec u (H_Free i) (c, ps) =
     (case plain_free free_raw (ps ! i) c of
        Inl e \<Rightarrow> (Inl e, (c, ps))
      | Inr (p, c') \<Rightarrow> (Inr (), (c', ps[i := p])))"
| "plain_exec u (H_Reset i j) (c, ps) =
     (let n = pp_num_blocks (ps ! j); (ptr, q) = plain_release (ps ! j); ps1 = ps[j := q] in
      case plain_reset free_raw ptr n (ps1 ! i) c of
        Inl e \<Rightarrow> (Inl e, (c, ps1))
      | Inr (p, c') \<Rightarrow> (Inr (), (c', ps1[i := p])))"
| "plain_exec u (H_Swap left_first i j) (c, ps) =
     (if i = j then
        case plain_swap_self free_raw (ps ! i) c of
          Inl e \<Rightarrow> (Inl e, (c, ps))
        | Inr (p, c') \<Rightarrow> (Inr (), (c', ps[i := p]))
      else
        case plain_swap left_first free_raw (ps ! i) (ps ! j) c of
          Inl e \<Rightarrow> (Inl e, (c, ps))
        | Inr (p, q, c') \<Rightarrow> (Inr (), (c', ps[i := p, j := q])))"
| "plain_exec u (H_Drop i) (c, ps) =
     (case plain_destroy free_raw (ps ! i) c of
        Inl e \<Rightarrow> (Inl e, (c, ps))
      | Inr c' \<Rightarrow> (Inr (), (c', ps[i := plain_null])))"

text \<open>The results of a program, one per operation, in both builds.\<close>

fun plain_results :: "cptr_utility \<Rightarrow> handle_op list \<Rightarrow> plain_handles \<Rightarrow> unit result list \<times> plain_handles" where
  "plain_results u [] s = ([], s)"
| "plain_results u (a # ops) s =
     (let (r, s1) = plain_exec u a s; (rs, s2) = plain_results u ops s1 in (r # rs, s2))"

fun tracked_results ::
    "cptr_utility \<Rightarrow> handle_op list \<Rightarrow> cache_manager handles \<Rightarrow> unit result list \<times> cache_manager handles" where
  "tracked_results u [] s = ([], s)"
| "tracked_results u (a # ops) s =
     (let (r, s1) = handle_exec alloc_raw_tracked free_raw u a s; (rs, s2) = tracked_results u ops s1 in (r # rs, s2))"

section \<open>Forgetting the identities\<close>

definition forget :: "cache_ptr \<Rightarrow> plain_ptr" where
  "forget p = plain_make (cp_block p) (cp_num_blocks p) (cp_cache p)"

definition at_id :: "int \<Rightarrow> cache_manager \<Rightarrow> cache_manager" where
  "at_id t c = c\<lparr>cm_track_id := t\<rparr>"

fun op_slots :: "handle_op \<Rightarrow> nat list" where
  "op_slots (H_Alloc i n) = [i]"
| "op_slots (H_Move i j) = [i, j]"
| "op_slots (H_Free i) = [i]"
| "op_slots (H_Reset i j) = [i, j]"
| "op_slots (H_Swap left_first i j) = [i, j]"
| "op_slots (H_Drop i) = [i]"

lemma forget_simps [simp]:
  "pp_cache (forget p) = cp_cache p" "pp_block (forget p) = cp_block p" "pp_num_blocks (forget p) = cp_num_blocks p"
  by (simp_all add: forget_def plain_make_def)

lemma at_id_simps [simp]:
  "cm_cache_size (at_id t c) = cm_cache_size c" "cm_handles (at_id t c) = cm_handles c" "at_id t (at_id s c) = at_id t c"
  by (simp_all add: at_id_def)

lemma plain_eqI: "pp_cache p = pp_cache q \<Longrightarrow> pp_block p = pp_block q \<Longrightarrow> pp_num_blocks p = pp_num_blocks q \<Longrightarrow> (p :: plain_ptr) = q"
  by simp

lemma allocate_at_id: "cache_allocate num (at_id t c) = map_prod id (at_id t) (cache_allocate num c)"
  by (simp add: cache_allocate_def at_id_def Let_def split: prod.split)

lemma alloc_at_id:
  "alloc_raw_tracked num tid c = (r, tid', c') \<Longrightarrow> alloc_raw num (at_id t c) = (r, at_id t c')"
  using allocate_at_id [of num t "at_id (cm_track_id c + 1) c"]
  by (auto simp: alloc_raw_tracked_def alloc_raw_def allocate_at_id at_id_def Let_def split: if_splits prod.splits)

lemma free_at_id: "free_raw ptr (at_id t c) = map_res (at_id t) (free_raw ptr c)"
  by (auto simp: free_raw_def at_id_def Let_def arr_get_def split: option.split)

text \<open>Each member function does the same to what is left.\<close>

lemma destroy_forget: "plain_destroy free_raw (forget p) (at_id t c) = map_res (at_id t) (cptr_destroy free_raw p c)"
  by (simp add: plain_destroy_def cptr_destroy_def free_at_id)

lemma move_assign_forget: "plain_move_assign (forget p) (forget q) = map_prod forget forget (cptr_move_assign p q)"
  by (simp add: plain_move_assign_def cptr_move_assign_def cptr_reset_owner_def plain_eqI)

lemma release_forget: "plain_release (forget p) = map_prod id forget (cptr_release p)"
  by (simp add: plain_release_def cptr_release_def plain_eqI)

lemma free_forget:
  "plain_free free_raw (forget p) (at_id t c) = map_res (map_prod forget (at_id t)) (cptr_free free_raw p c)"
  by (cases "free_raw (cp_block p) c") (simp_all add: plain_free_def cptr_free_def free_at_id cptr_reset_owner_def plain_eqI)

lemma reset_forget:
  "plain_reset free_raw ptr n (forget p) (at_id t c) = map_res (map_prod forget (at_id t)) (cptr_reset free_raw ptr n p c)"
  by (cases "cptr_free free_raw p c") (auto simp: plain_reset_def cptr_reset_def free_forget plain_eqI)

lemma swap_forget:
  "plain_swap left_first free_raw (forget p) (forget q) (at_id t c)
     = map_res (map_prod forget (map_prod forget (at_id t))) (cptr_swap left_first free_raw p q c)"
proof -
  let ?n = "if left_first then 0 else cp_num_blocks p"
  obtain m1 p1 m2 q1 where r: "cptr_release p = (m1, p1)" "cptr_release q = (m2, q1)" by fastforce
  have n: "cp_num_blocks p1 = 0" using r(1) by (auto simp: cptr_release_def)
  have f: "plain_release (forget p) = (m1, forget p1)" "plain_release (forget q) = (m2, forget q1)"
    using r by (simp_all add: release_forget)
  show ?thesis
  proof (cases "cptr_reset free_raw m1 ?n q1 c")
    case (Inl e)
    then show ?thesis by (cases left_first) (simp_all add: plain_swap_def cptr_swap_def r f n reset_forget)
  next
    case (Inr z)
    obtain q2 c1 where z: "z = (q2, c1)" by (cases z)
    then show ?thesis using Inr
      by (cases left_first; cases "cptr_reset free_raw m2 (cp_num_blocks q) p1 c1")
         (auto simp: plain_swap_def cptr_swap_def r f n reset_forget)
  qed
qed

lemma swap_self_forget: "plain_swap_self fr p c = Inr (p, c)"
  by (simp add: plain_swap_self_def plain_release_def plain_reset_def)

lemma alloc_forget:
  "cache_alloc alloc_raw_tracked u n c = (r, c') \<Longrightarrow>
     plain_cache_alloc alloc_raw u n (at_id t c) = (map_res forget r, at_id t c')"
  by (auto simp: cache_alloc_def plain_cache_alloc_def alloc_at_id plain_make_def cache_ptr_make_def forget_def
      split: prod.splits sum.splits)

lemma exec_forget:
  assumes "\<forall>i \<in> set (op_slots a). i < length ps" and "handle_exec alloc_raw_tracked free_raw u a (c, ps) = (r, (c', ps'))"
  shows "plain_exec u a (at_id t c, map forget ps) = (r, (at_id t c', map forget ps'))" and "length ps' = length ps"
proof -
  have "plain_exec u a (at_id t c, map forget ps) = (r, (at_id t c', map forget ps')) \<and> length ps' = length ps"
  proof (cases a)
    case (H_Alloc i n)
    obtain x c1 where x: "cache_alloc alloc_raw_tracked u n c = (x, c1)" by (cases "cache_alloc alloc_raw_tracked u n c")
    then show ?thesis using assms H_Alloc
      by (cases x) (auto simp: alloc_forget [OF x] move_assign_forget map_update)
  next
    case (H_Move i j)
    obtain p q where m: "cptr_move_assign (ps ! i) (ps ! j) = (p, q)" by (cases "cptr_move_assign (ps ! i) (ps ! j)")
    then show ?thesis using assms H_Move by (auto simp: move_assign_forget map_update)
  next
    case (H_Free i)
    then show ?thesis using assms
      by (cases "cptr_free free_raw (ps ! i) c") (auto simp: free_forget map_update)
  next
    case (H_Reset i j)
    obtain ptr q where q: "cptr_release (ps ! j) = (ptr, q)" by (cases "cptr_release (ps ! j)")
    have l: "i < length ps" "j < length ps" using assms(1) H_Reset by simp_all
    have n: "(map forget ps)[j := forget q] ! i = forget (ps[j := q] ! i)"
      using l by (simp add: map_update [symmetric])
    show ?thesis using assms(2) H_Reset q l
      by (cases "cptr_reset free_raw ptr (cp_num_blocks (ps ! j)) (ps[j := q] ! i) c")
         (auto simp: release_forget reset_forget map_update n Let_def)
  next
    case (H_Swap l i j)
    then show ?thesis using assms
      by (cases "i = j"; cases "cptr_swap l free_raw (ps ! i) (ps ! j) c")
         (auto simp: swap_forget swap_self_forget swap_self_same map_update [symmetric])
  next
    case (H_Drop i)
    have "forget cache_ptr_null = plain_null" by (simp add: cache_ptr_null_def plain_null_def plain_eqI)
    then show ?thesis using assms H_Drop
      by (cases "cptr_destroy free_raw (ps ! i) c") (auto simp: destroy_forget map_update)
  qed
  then show "plain_exec u a (at_id t c, map forget ps) = (r, (at_id t c', map forget ps'))" and "length ps' = length ps"
    by simp_all
qed

section \<open>Properties\<close>

text \<open>C20. Tracking changes nothing: a program of handle operations gives the same results, operation by
  operation and errors included, in the build with \<open>CACHE_TRACKING\<close> and in the one without, and leaves the same
  cache and handles with the same blocks; only identities and owners are extra.\<close>

theorem builds_agree:
  assumes "\<forall>a \<in> set ops. \<forall>i \<in> set (op_slots a). i < length ps"
    and "tracked_results u ops (c, ps) = (rs, (c', ps'))"
  shows "plain_results u ops (at_id t c, map forget ps) = (rs, (at_id t c', map forget ps'))"
  using assms
proof (induction ops arbitrary: c ps rs)
  case (Cons a ops)
  obtain r c1 ps1 where e: "handle_exec alloc_raw_tracked free_raw u a (c, ps) = (r, (c1, ps1))"
    by (metis prod.exhaust)
  obtain rs1 where rs: "tracked_results u ops (c1, ps1) = (rs1, (c', ps'))" "rs = r # rs1"
    using Cons.prems(2) e by (auto split: prod.splits)
  have l: "\<forall>i \<in> set (op_slots a). i < length ps" using Cons.prems(1) by simp
  note x = exec_forget [OF l e]
  have "\<forall>b \<in> set ops. \<forall>i \<in> set (op_slots b). i < length ps1" using Cons.prems(1) x(2) by simp
  from Cons.IH [OF this rs(1)] show ?case using x(1) rs(2) by simp
qed simp

text \<open>An allocation that fails after one that succeeds, a move, and the release.\<close>

theorem builds_agree_witness:
  "\<exists>c' ps'. plain_results demo_unit [H_Alloc 0 2, H_Alloc 1 9, H_Move 1 0, H_Free 1]
       (at_id 0 (demo_cache [(False, 4)]), map forget (no_handles 2)) = ([Inr (), Inl (Cache_Drain (cu_component_name demo_unit)),
         Inr (), Inr ()], (at_id 0 c', map forget ps'))"
proof -
  let ?ops = "[H_Alloc 0 2, H_Alloc 1 9, H_Move 1 0, H_Free 1]"
  obtain rs c' ps' where r: "tracked_results demo_unit ?ops (demo_cache [(False, 4)], no_handles 2) = (rs, (c', ps'))"
    by (metis prod.exhaust)
  have "fst (tracked_results demo_unit ?ops (demo_cache [(False, 4)], no_handles 2))
      = [Inr (), Inl (Cache_Drain (cu_component_name demo_unit)), Inr (), Inr ()]"
    by code_simp
  then have "rs = [Inr (), Inl (Cache_Drain (cu_component_name demo_unit)), Inr (), Inr ()]" using r by simp
  moreover have "\<forall>a \<in> set ?ops. \<forall>i \<in> set (op_slots a). i < length (no_handles 2)" by (simp add: no_handles_def)
  ultimately show ?thesis using builds_agree [OF _ r, of 0] by blast
qed

end
