(* ===== verification/Queue_Teardown.thy ===== *)
theory Queue_Teardown
  imports Task_Queue
begin

text \<open>
  The end of a task queue: the destructors of \<^verbatim>\<open>framework/threads/queue.cpp\<close> and \<^verbatim>\<open>pool.cpp\<close>, step by step, while the
  waiter and the workers go on. After its body the destructor of the queue destroys the members in the reverse order of
  their declaration: the thread of the waiter, which ends the program when it is joinable, the condition
  variable, the pump and the pool, whose destructor stops and deletes the workers. A worker that
  notifies the condition variable after its end uses freed memory.
\<close>

section \<open>Steps\<close>

datatype teardown_pc =
    D_Test | D_Clear | D_Notify | D_Join | D_Inactive | D_Waiter | D_Condition | D_Pump | D_Pool | D_Stop | D_Workers | D_Done

record 't teardown =
  td_queue :: "'t tqueue"
  td_pc :: teardown_pc
  td_joinable :: bool
  td_condition :: bool

text \<open>The waiter's thread is joinable between \<open>start\<close> and \<open>stop\<close>.\<close>

definition teardown_make :: "'t tqueue \<Rightarrow> 't teardown" where
  "teardown_make q = \<lparr>td_queue = q, td_pc = D_Test, td_joinable = (q_main q = M_Started), td_condition = True\<rparr>"

definition worker_joinable :: "'t worker \<Rightarrow> bool" where
  "worker_joinable w \<longleftrightarrow> w_pc w \<in> {W_Lock, W_Init} \<or> w_active w"

text \<open>None: the thread waits.\<close>

definition pool_destroy_step :: "'t teardown \<Rightarrow> 't teardown result option" where
  "pool_destroy_step s =
     (let q = td_queue s in
      case td_pc s of
        D_Pool \<Rightarrow>
          Some (Inr (if p_running (q_pool q) then s\<lparr>td_queue := q\<lparr>q_main := M_Stop 0\<rparr>, td_pc := D_Stop\<rparr> else s\<lparr>td_pc := D_Workers\<rparr>))
      | D_Stop \<Rightarrow>
          (if q_main q = M_Stop_Queue then Some (Inr (s\<lparr>td_pc := D_Workers\<rparr>))
           else map_option (\<lambda>q'. Inr (s\<lparr>td_queue := q'\<rparr>)) (pool_stop_step (q_main q) q))
      | D_Workers \<Rightarrow>
          Some (if list_ex worker_joinable (p_workers (q_pool q)) then Inl Terminate
                else Inr (s\<lparr>td_queue := q\<lparr>q_pool := (q_pool q)\<lparr>p_workers := []\<rparr>\<rparr>, td_pc := D_Done\<rparr>))
      | _ \<Rightarrow> None)"

definition queue_destroy_step :: "'t teardown \<Rightarrow> 't teardown result option" where
  "queue_destroy_step s =
     (let q = td_queue s in
      case td_pc s of
        D_Test \<Rightarrow> Some (Inr (s\<lparr>td_pc := if q_running q \<and> q_active q then D_Clear else D_Waiter\<rparr>))
      | D_Clear \<Rightarrow> Some (Inr (s\<lparr>td_queue := q\<lparr>q_running := False\<rparr>, td_pc := D_Notify\<rparr>))
      | D_Notify \<Rightarrow> Some (Inr (s\<lparr>td_queue := notify_cycle q, td_pc := D_Join\<rparr>))
      | D_Join \<Rightarrow>
          (if \<not> td_joinable s then Some (Inl Std_System_Error)
           else if q_pc q = Q_End then Some (Inr (s\<lparr>td_joinable := False, td_pc := D_Inactive\<rparr>)) else None)
      | D_Inactive \<Rightarrow> Some (Inr (s\<lparr>td_queue := q\<lparr>q_active := False\<rparr>, td_pc := D_Waiter\<rparr>))
      | D_Waiter \<Rightarrow> Some (if td_joinable s then Inl Terminate else Inr (s\<lparr>td_pc := D_Condition\<rparr>))
      | D_Condition \<Rightarrow> Some (Inr (s\<lparr>td_condition := False, td_pc := D_Pump\<rparr>))
      | D_Pump \<Rightarrow> Some (Inr (s\<lparr>td_queue := q\<lparr>q_pump := (q_pump q)\<lparr>pu_queue := []\<rparr>\<rparr>, td_pc := D_Pool\<rparr>))
      | _ \<Rightarrow> pool_destroy_step s)"

datatype td_move = Td_Main | Td_Worker nat | Td_Waiter bool

definition td_step :: "td_move \<Rightarrow> 't teardown \<Rightarrow> 't teardown result option" where
  "td_step m s =
     (case m of
        Td_Main \<Rightarrow> queue_destroy_step s
      | Td_Worker i \<Rightarrow>
          (case tq_step (Worker i) (td_queue s) of
             None \<Rightarrow> None
           | Some q \<Rightarrow>
               Some (if \<not> td_condition s \<and> w_pc (p_workers (q_pool (td_queue s)) ! i) = W_Ready then Inl Use_After_Free
                     else Inr (s\<lparr>td_queue := q\<rparr>)))
      | Td_Waiter fails \<Rightarrow> map_option (\<lambda>q. Inr (s\<lparr>td_queue := q\<rparr>)) (queue_cycle_step fails (td_queue s)))"

fun td_run :: "td_move list \<Rightarrow> 't teardown \<Rightarrow> 't teardown result option" where
  "td_run [] s = Some (Inr s)"
| "td_run (m # ms) s =
     (case td_step m s of None \<Rightarrow> None | Some (Inl e) \<Rightarrow> Some (Inl e) | Some (Inr s') \<Rightarrow> td_run ms s')"

lemma td_run_append:
  "td_run ms s = Some (Inr s') \<Longrightarrow> td_run (ms @ ns) s = td_run ns s'"
  by (induction ms arbitrary: s) (auto split: option.splits sum.splits)

lemmas td_eval = td_step_def queue_destroy_step_def pool_destroy_step_def queue_cycle_step_def notify_cycle_def Let_def

section \<open>The workers of a queue that has been started\<close>

definition quiet_worker :: "'t worker \<Rightarrow> bool" where
  "quiet_worker w \<longleftrightarrow> w_pc w = W_Blocked \<and> w_active w \<and> w_owner w = By_No_One"

definition ended_worker :: "'t worker \<Rightarrow> bool" where
  "ended_worker w \<longleftrightarrow> w_pc w = W_End \<and> \<not> w_active w"

text \<open>Stopping the next worker that waits.\<close>

lemma stop_quiet_worker:
  assumes "td_pc s = D_Stop" and "q_main (td_queue s) = M_Stop i" and "p_workers (q_pool (td_queue s)) = ws @ w # vs"
    and "length ws = i" and "quiet_worker w"
  shows "\<exists>s' w'. td_run [Td_Main, Td_Main, Td_Worker i, Td_Worker i, Td_Main] s = Some (Inr s') \<and> ended_worker w'
    \<and> td_pc s' = D_Stop \<and> q_main (td_queue s') = M_Stop (Suc i) \<and> p_workers (q_pool (td_queue s')) = ws @ w' # vs"
proof -
  have i: "i < length (ws @ w # vs)" "(ws @ w # vs) ! i = w" "\<And>x. (ws @ w # vs)[i := x] = ws @ x # vs"
    using assms(4) by (auto simp: nth_append list_update_append)
  show ?thesis
    using assms i
    by (simp add: td_eval tq_step_def pool_get_thread_def arr_get_def map_worker_def pool_map_thread_def worker_step_def
        worker_notify_def quiet_worker_def ended_worker_def nth_append list_update_append)
qed

text \<open>Then all of them, and the pool is deleted.\<close>

lemma stop_quiet_workers:
  assumes "td_pc s = D_Stop" and "q_main (td_queue s) = M_Stop (length ws)"
    and "p_workers (q_pool (td_queue s)) = ws @ vs" and "list_all ended_worker ws" and "list_all quiet_worker vs"
  shows "\<exists>ms s'. td_run ms s = Some (Inr s') \<and> td_pc s' = D_Done \<and> p_workers (q_pool (td_queue s')) = []"
  using assms
proof (induction vs arbitrary: ws s)
  case Nil
  have "\<not> list_ex worker_joinable ws"
    using Nil.prems(4) by (auto simp: list_ex_iff list_all_iff ended_worker_def worker_joinable_def)
  then have "\<exists>s'. td_run [Td_Main, Td_Main, Td_Main] s = Some (Inr s') \<and> td_pc s' = D_Done
      \<and> p_workers (q_pool (td_queue s')) = []"
    using Nil.prems(1-3) by (simp add: td_eval pool_get_thread_def arr_get_def)
  then show ?case by blast
next
  case (Cons v vs)
  let ?ms = "[Td_Main, Td_Main, Td_Worker (length ws), Td_Worker (length ws), Td_Main]"
  obtain s1 w where s1: "td_run ?ms s = Some (Inr s1)" "ended_worker w" "td_pc s1 = D_Stop"
      "q_main (td_queue s1) = M_Stop (length (ws @ [w]))" "p_workers (q_pool (td_queue s1)) = (ws @ [w]) @ vs"
    using stop_quiet_worker [OF Cons.prems(1-3) refl] Cons.prems(5) by auto
  have "list_all ended_worker (ws @ [w])" "list_all quiet_worker vs" using s1(2) Cons.prems(4,5) by simp_all
  from Cons.IH [OF s1(3-5) this] obtain ms s' where
    "td_run ms s1 = Some (Inr s') \<and> td_pc s' = D_Done \<and> p_workers (q_pool (td_queue s')) = []" by blast
  then show ?case using td_run_append [OF s1(1), of ms] by metis
qed

text \<open>The waiter that sleeps is woken and joined.\<close>

definition end_waiter :: "td_move list" where
  "end_waiter = [Td_Main, Td_Main, Td_Main, Td_Waiter False, Td_Main, Td_Main, Td_Main, Td_Main, Td_Main]"

lemma end_waiter_runs:
  assumes "q_main q = M_Started" and "q_running q" and "q_active q" and "q_pc q = Q_Blocked"
  shows "\<exists>s. td_run end_waiter (teardown_make q) = Some (Inr s) \<and> td_pc s = D_Pool \<and> \<not> td_condition s
    \<and> q_pool (td_queue s) = q_pool q"
  using assms by (simp add: end_waiter_def teardown_make_def td_eval)

section \<open>Properties\<close>

text \<open>C26. Destroying a queue that was started and not stopped. When the waiter and all workers wait, everybody is woken
  and joined and the destructor returns. When the waiter has not begun, its thread is not joined and the
  program ends. When a worker is running a task, the waiter and the condition variable are gone
  before the worker is waited for, and the worker notifies freed memory.\<close>

theorem queue_destroyed_unstopped:
  assumes "q_main q = M_Started" and "q_running q" and "p_running (q_pool q)"
  shows "(\<not> q_active q \<longrightarrow> td_run [Td_Main, Td_Main] (teardown_make q) = Some (Inl Terminate))
    \<and> (q_active q \<and> q_pc q = Q_Blocked \<and> list_all quiet_worker (p_workers (q_pool q)) \<longrightarrow>
         (\<exists>ms s. td_run ms (teardown_make q) = Some (Inr s) \<and> td_pc s = D_Done \<and> p_workers (q_pool (td_queue s)) = []))
    \<and> (q_active q \<and> q_pc q = Q_Blocked \<and> i < length (p_workers (q_pool q)) \<and> w_pc (p_workers (q_pool q) ! i) = W_Run \<longrightarrow>
         td_run (end_waiter @ [Td_Worker i, Td_Worker i, Td_Worker i]) (teardown_make q) = Some (Inl Use_After_Free))"
proof (intro conjI impI)
  assume "\<not> q_active q"
  then show "td_run [Td_Main, Td_Main] (teardown_make q) = Some (Inl Terminate)"
    using assms by (simp add: teardown_make_def td_eval)
next
  assume a: "q_active q \<and> q_pc q = Q_Blocked \<and> list_all quiet_worker (p_workers (q_pool q))"
  obtain s where s: "td_run end_waiter (teardown_make q) = Some (Inr s)" "td_pc s = D_Pool" "q_pool (td_queue s) = q_pool q"
    using end_waiter_runs [OF assms(1,2)] a by blast
  let ?s = "s\<lparr>td_queue := (td_queue s)\<lparr>q_main := M_Stop 0\<rparr>, td_pc := D_Stop\<rparr>"
  have m: "td_run [Td_Main] s = Some (Inr ?s)" using s(2,3) assms(3) by (simp add: td_eval)
  obtain ms s' where "td_run ms ?s = Some (Inr s')" "td_pc s' = D_Done" "p_workers (q_pool (td_queue s')) = []"
    using stop_quiet_workers [of ?s "[]" "p_workers (q_pool q)"] a s(3) by auto
  then show "\<exists>ms s. td_run ms (teardown_make q) = Some (Inr s) \<and> td_pc s = D_Done \<and> p_workers (q_pool (td_queue s)) = []"
    using td_run_append [OF s(1)] td_run_append [OF m] by metis
next
  assume a: "q_active q \<and> q_pc q = Q_Blocked \<and> i < length (p_workers (q_pool q)) \<and> w_pc (p_workers (q_pool q) ! i) = W_Run"
  obtain s where s: "td_run end_waiter (teardown_make q) = Some (Inr s)" "\<not> td_condition s" "q_pool (td_queue s) = q_pool q"
    using end_waiter_runs [OF assms(1,2)] a by blast
  have "td_run [Td_Worker i, Td_Worker i, Td_Worker i] s = Some (Inl Use_After_Free)"
    using a s(2,3)
    by (simp add: td_step_def tq_step_def pool_get_thread_def arr_get_def worker_step_def map_worker_def pool_map_thread_def)
  then show "td_run (end_waiter @ [Td_Worker i, Td_Worker i, Td_Worker i]) (teardown_make q) = Some (Inl Use_After_Free)"
    using td_run_append [OF s(1)] by simp
qed

text \<open>One worker: the queue is destroyed while the package runs.\<close>

theorem queue_destroyed_unstopped_witness:
  "\<exists>q. tq_run (demo_start @ [Waiter False, Add_Package ''t'', Add_Notify, Waiter False, Waiter False, Waiter False,
        Waiter False, Waiter False, Worker 0, Worker 0, Waiter False, Waiter False, Waiter False]) (queue_make 1) = Some q
     \<and> td_run (end_waiter @ [Td_Worker 0, Td_Worker 0, Td_Worker 0]) (teardown_make q) = Some (Inl Use_After_Free)"
proof -
  obtain q where q: "tq_run (demo_start @ [Waiter False, Add_Package ''t'', Add_Notify, Waiter False, Waiter False, Waiter False,
        Waiter False, Waiter False, Worker 0, Worker 0, Waiter False, Waiter False, Waiter False]) (queue_make 1) = Some q"
      "q_main q = M_Started" "q_running q" "p_running (q_pool q)" "q_active q" "q_pc q = Q_Blocked"
      "length (p_workers (q_pool q)) = 1" "w_pc (p_workers (q_pool q) ! 0) = W_Run"
    by (simp add: demo_start_def tq_eval)
  then show ?thesis using queue_destroyed_unstopped [OF q(2-4), of 0] by auto
qed

end
