(* ===== verification/Accessors.thy ===== *)
theory Accessors
  imports Circular_Buffer Rack Midi Picojson Task_Queue
begin

text \<open>
  The member functions that only read a member or set one, with the indexing operators of the handles. What they read is what the
  operations of the other theories maintain; here they are tied to the functions that fill the members.
\<close>

section \<open>Components and units\<close>

definition registrable_handle :: "'a registrable_scheme \<Rightarrow> rhandle" where
  "registrable_handle r = rg_handle r"

definition umodel :: "'a registrable_scheme \<Rightarrow> string" where
  "umodel r = rg_model r"

definition registrable_type :: "'a registrable_scheme \<Rightarrow> ctype" where
  "registrable_type r = rg_type r"

text \<open>The id is not initialised before the component is registered.\<close>

definition sysid :: "'a registrable_scheme \<Rightarrow> int result" where
  "sysid r = (case rg_component_id r of None \<Rightarrow> Inl Uninitialised | Some i \<Rightarrow> Inr i)"

text \<open>\<open>begin\<close> and \<open>end\<close>, as the range between them.\<close>

definition registry_range :: "registry \<Rightarrow> rhandle list" where
  "registry_range r = rgy_registry r"

definition linkable_inputs :: "'a linkable_scheme \<Rightarrow> link_in list" where
  "linkable_inputs l = lk_inputs l"

definition linkable_outputs :: "'a linkable_scheme \<Rightarrow> link_out list" where
  "linkable_outputs l = lk_outputs l"

definition unit_utype :: "sio_unit \<Rightarrow> unit_type" where
  "unit_utype u = u_utype u"

definition unit_cstate :: "sio_unit \<Rightarrow> component_state" where
  "unit_cstate u = u_cstate u"

definition change_cstate :: "component_state \<Rightarrow> sio_unit \<Rightarrow> sio_unit" where
  "change_cstate state u = u\<lparr>u_cstate := state\<rparr>"

definition unit_line_profile :: "sio_unit \<Rightarrow> sync_profile" where
  "unit_line_profile u = u_line_profile u"

definition unit_unit_profile :: "sio_unit \<Rightarrow> sync_profile" where
  "unit_unit_profile u = u_unit_profile u"

definition unit_global_profile :: "sio_unit \<Rightarrow> sync_profile" where
  "unit_global_profile u = u_global_profile u"

text \<open>The map of mounted units.\<close>

definition get_units :: "'m sio_rack \<Rightarrow> string \<Rightarrow> sio_unit option" where
  "get_units r = (\<lambda>label. map_option ((!) (rk_units r)) (rk_mounted r label))"

definition backend_global_profile :: "'m sio_rack \<Rightarrow> sync_profile" where
  "backend_global_profile r = rk_global_profile r"

section \<open>Cache and buffers\<close>

definition manager_cache_size :: "cache_manager \<Rightarrow> nat" where
  "manager_cache_size c = cm_cache_size c"

definition manager_num_blocks :: "cache_manager \<Rightarrow> nat" where
  "manager_num_blocks c = cm_num_blocks c"

definition manager_block_size :: "cache_manager \<Rightarrow> nat" where
  "manager_block_size c = cm_block_size c"

definition get_const_handles :: "cache_manager \<Rightarrow> cache_handle list" where
  "get_const_handles c = cm_handles c"

definition cptr_num_blocks :: "cache_ptr \<Rightarrow> nat" where
  "cptr_num_blocks p = cp_num_blocks p"

definition cptr_deref :: "cache_ptr \<Rightarrow> nat" where
  "cptr_deref p = cp_block p"

text \<open>The address of a sample; the index is a signed number and is not checked.\<close>

definition cptr_at :: "int \<Rightarrow> cache_ptr \<Rightarrow> int result" where
  "cptr_at index p = (if cp_block p = 0 then Inl Null_Deref else Inr (int (cp_block p) + index))"

definition cptr_tracking_id :: "cache_ptr \<Rightarrow> int" where
  "cptr_tracking_id p = cp_tracking_id p"

definition cptr_owner :: "cache_ptr \<Rightarrow> rhandle" where
  "cptr_owner p = cp_owner p"

definition circular_capacity :: "'a circular \<Rightarrow> nat" where
  "circular_capacity b = cb_capacity b"

definition circular_size :: "'a circular \<Rightarrow> nat" where
  "circular_size b = cb_size b"

section \<open>Threads and midi\<close>

definition pool_default :: "'t pool" where
  "pool_default = \<lparr>p_size = 0, p_workers = [], p_running = False\<rparr>"

definition pool_size :: "'t pool \<Rightarrow> int" where
  "pool_size p = p_size p"

definition midi_devices :: "('f, 'h) midi_handler \<Rightarrow> ('f, 'h) device list" where
  "midi_devices h = mh_devices h"

section \<open>Values of the JSON library\<close>

definition jvalue_null :: jvalue where
  "jvalue_null = JNull"

definition jvalue_bool :: "bool \<Rightarrow> jvalue" where
  "jvalue_bool b = JBool b"

text \<open>A C string ends at its first zero.\<close>

definition jvalue_chars :: "string \<Rightarrow> jvalue" where
  "jvalue_chars s = JStr (takeWhile (\<lambda>c. c \<noteq> CHR 0x00) s)"

section \<open>Lemmas\<close>

text \<open>A component that was registered knows the id under which the registry gives its handle.\<close>

lemma registered_found:
  assumes "rgy_current_id r = int (length (registry_range r))" and "register_component x r = (y, r')"
  shows "\<exists>i. sysid y = Inr i \<and> with_id i r' = Inr (registrable_handle y)"
    "rgy_current_id r' = int (length (registry_range r'))" "umodel y = umodel x" "registrable_type y = registrable_type x"
  using assms
  by (auto simp: register_component_def sysid_def registry_range_def with_id_def registrable_handle_def umodel_def
      registrable_type_def set_id_def set_handle_def Let_def)

text \<open>Indexing inside the block of a handle stays inside the allocation.\<close>

lemma cptr_at_inside:
  assumes "cp_block p \<noteq> 0" and "0 \<le> index" and "nat index < cptr_num_blocks p * cptr_block_size bs p"
  shows "\<exists>a. cptr_at index p = Inr (int a) \<and> cptr_deref p \<le> a \<and> a < cptr_deref p + cptr_num_blocks p * cptr_block_size bs p"
  using assms by (intro exI [of _ "cp_block p + nat index"]) (simp add: cptr_at_def cptr_deref_def cptr_num_blocks_def)

text \<open>Of a text with a zero character the value has what comes before it.\<close>

lemma chars_of_string: "jvalue_chars s = JStr s \<longleftrightarrow> CHR 0x00 \<notin> set s"
  by (auto simp: jvalue_chars_def takeWhile_eq_all_conv)

end
