(* ===== verification/Spec2Isabelle.thy ===== *)
theory Spec2Isabelle
  imports Circular_Buffer Cache_Manager Cache_Ptr Component Linkable Unit_Graph Sync_Lines Rack Event_Loop Task_Queue
    Midi Picojson Picojson_Laws Picojson_Roundtrip Document Scheduled
    Json_Store Json_Values Json_Stream
    Assembler System System_Plan Samples Rack_Worker Midi_Threads System_Start Unit_Services Debug_Clock Staging
    Log LV2_Hosting Cache_Untracked Queue_Teardown Accessors
begin

text \<open>
  StrangeIO is a C++ framework for real-time audio. A \<^emph>\<open>rack\<close> holds \<^emph>\<open>units\<close> (plugins), which are
  linked output to input into \<^emph>\<open>daisychains\<close>, each fed by a mainline unit and ended by a dispatch
  unit. A worker thread of the rack walks the daisychains: in an \<^emph>\<open>ac cycle\<close> the units process a
  period of samples, in a \<^emph>\<open>sync\<close> a profile travels down the line and collects or distributes
  sample rate, period, channels, latency and state. Samples live in blocks of one preallocated
  \<^emph>\<open>cache\<close> and are passed around in owning handles. This development models the framework under
  \<^verbatim>\<open>framework/\<close> and proves what its parts promise; where the code does not keep a promise, a
  property says exactly what it does instead.

  \<^bold>\<open>Theories\<close>, in the order of the imports:

  \<^item> \<open>SIO_Prelude\<close>: errors as values (\<open>sio_error\<close>, \<open>result\<close>), wrap-around of \<open>unsigned int\<close> and
    \<open>size_t\<close> written out, bounds-checked access to arrays, lemmas on lists and residues.
  \<^item> \<open>Fifo_Interface\<close>: the contract of a first-in first-out container as a locale, and what a
    client that neither overfills it nor takes from an empty one observes.
  \<^item> \<open>Circular_Buffer\<close>: \<^verbatim>\<open>buffer/circular.hpp\<close>, every member function of the template, on the
    array, the two positions and the size. The invariant \<open>cb_wf\<close> and the contents
    \<open>cb_contents\<close> relate it to a list; the template is an interpretation of the contract.
  \<^item> \<open>Cache_Interface\<close>, \<open>Cache_Manager\<close>: the abstract class \<open>cache_utility\<close> as a locale and the
    allocator \<^verbatim>\<open>memory/cache_manager.cpp\<close>. The handles are refined to a list of segments, on
    which allocation is first fit and release merges neighbours.
  \<^item> \<open>Component\<close>: \<^verbatim>\<open>component/component.hpp\<close>, \<^verbatim>\<open>registrable.cpp\<close>, \<^verbatim>\<open>registry.cpp\<close> and the
    arithmetic of a sync profile (\<open>register_metric\<close>, \<open>apply_unit_profile\<close> of
    \<^verbatim>\<open>component/unit.cpp\<close>).
  \<^item> \<open>Cache_Ptr\<close>: \<^verbatim>\<open>memory/cache_ptr.cpp\<close> and \<^verbatim>\<open>cptr_utility.cpp\<close>, and programs of any of the
    operations of a handle. The invariant \<open>owned_once\<close> counts: a live allocation is held by one handle or is one of those
    that \<open>handle_loses\<close> records as overwritten. It is proved once in the locale of the cache and used for the
    allocator by its interpretation.
  \<^item> \<open>Linkable\<close>: \<^verbatim>\<open>component/linkable.cpp\<close>; the invariant \<open>links_wf\<close> ties both ends of a link.
  \<^item> \<open>Unit_Graph\<close>: \<^verbatim>\<open>component/unit.cpp\<close> and \<^verbatim>\<open>spec/combine.cpp\<close>, \<^verbatim>\<open>dispatch.cpp\<close>, \<^verbatim>\<open>mainline.cpp\<close>:
    the recursive walks \<open>sync_line\<close> and \<open>cycle_line\<close> over the links, in a state that holds all
    units and the rack. Lemmas: the walks keep the shape of the graph, and on links
    without cycles they end and do not depend on the depth of the stack.
  \<^item> \<open>Sync_Lines\<close>: what the walks compute on a daisychain, exactly, for the line sync, the global
    sync, the upstream sync and the cycles.
  \<^item> \<open>Rack\<close>: \<^verbatim>\<open>component/mount.cpp\<close>, \<^verbatim>\<open>backend.cpp\<close> and \<^verbatim>\<open>rack.cpp\<close>: mounting, connecting by label,
    the walks over the mainlines, warmup and the passes of the worker. For the warmup the units register metrics of
    their own (\<open>inits_register\<close>).
  \<^item> \<open>Event_Loop\<close>: \<^verbatim>\<open>events/loop.cpp\<close> as a step relation at the granularity of its shared accesses:
    producers that append under the mutex, workers that take the list apart. The invariant
    \<open>ev_inv\<close> says which thread is in charge of the list; in-order delivery, absence of accesses
    to deleted nodes and termination follow from it.
  \<^item> \<open>Task_Queue\<close>: \<^verbatim>\<open>threads/pump.cpp\<close>, \<^verbatim>\<open>worker.cpp\<close>, \<^verbatim>\<open>pool.cpp\<close> and \<^verbatim>\<open>queue.cpp\<close> as state machines of
    the waiter, the workers and the thread that starts and stops them. The invariant \<open>tq_inv\<close>
    accounts for every package; the pump is an interpretation of the container contract.
  \<^item> \<open>Midi\<close>: \<^verbatim>\<open>midi/device.cpp\<close>, \<^verbatim>\<open>midi_handler.cpp\<close> and \<^verbatim>\<open>routine/midi.cpp\<close>: bindings and leds
    as maps in which the first entry of a key stays, dispatch of messages, ranges of velocities.
  \<^item> \<open>Picojson\<close>: the JSON library \<^verbatim>\<open>include/framework/picojson/picojson.h\<close>, values, serializer and
    parser. \<open>Picojson_Laws\<close>: parsing ends (twice the length of the text bounds the recursion),
    and agrees with parsing for nothing. \<open>Picojson_Roundtrip\<close>: what is
    serialized is read back, and what a text means whose members are unordered or repeated (\<open>json_meaning\<close>). \<open>Json_Store\<close>: the class \<open>value\<close> in memory, a tagged union over a heap; \<open>Json_Values\<close>:
    programs on it refine programs on trees (\<open>owned\<close>: who owns which cell). \<open>Json_Stream\<close>: the stream operators and the
    context that denies.
  \<^item> \<open>Document\<close>: \<^verbatim>\<open>config/document.cpp\<close> and \<^verbatim>\<open>description.hpp\<close>; a reference writer for descriptions and the
    round trip through the text of the file, units that are unique.
  \<^item> \<open>Scheduled\<close>: \<^verbatim>\<open>threads/scheduled.cpp\<close>, policies and processors as requests to the kernel, and the thread
    that \<^verbatim>\<open>rack::start\<close> creates through a temporary object, in every interleaving with its creator.
  \<^item> \<open>Assembler\<close>: \<^verbatim>\<open>config/assembler.cpp\<close>, \<^verbatim>\<open>component/utility_container.cpp\<close> and what a unit registers for midi:
    from a description to mounted and connected units, bindings, leds, devices, policy.
  \<^item> \<open>System\<close>: \<open>system::setup\<close> of \<^verbatim>\<open>routine/system.cpp\<close>, \<^verbatim>\<open>component/unit_loader.cpp\<close> and
    \<^verbatim>\<open>dynlib/linux_library.hpp\<close>: the composition of document, assembler, rack, queue, cache and midi, with lemmas
    on the success of each stage. The loader keeps its libraries and a log of the calls of \<open>dlopen\<close>; it is compared with
    the linker asked afresh.
  \<^item> \<open>System_Plan\<close>: what a description asks for in closed form (units, wires, lines, bindings, leds), and that the
    assembler realises it link by link (\<open>realises\<close>): what \<open>setup\<close> returns is that plan.
  \<^item> \<open>Samples\<close>: \<^verbatim>\<open>routine/sound.cpp\<close>, \<^verbatim>\<open>buffer/delay.cpp\<close> and the hand-over of blocks between units
    (\<open>feed_out\<close>, \<open>fill_out\<close>, \<open>fill_line\<close>), with the ownership of the block in the cache.
  \<^item> \<open>Rack_Worker\<close>: the worker thread of \<^verbatim>\<open>component/rack.cpp\<close> step by step, with the thread that starts and
    stops it and those that trigger cycles and syncs. Undisturbed, its steps compose to the passes of
    \<open>Rack\<close> (lemmas on \<open>does\<close>); \<open>rack_run_inv\<close> ties the states of the threads.
  \<^item> \<open>Midi_Threads\<close>: starting and stopping the threads of the midi devices, in every interleaving with the
    handler that stops them.
  \<^item> \<open>System_Start\<close>: the end of \<open>setup\<close>, where the devices of the configuration are initialised and get their threads;
    the start of the queue in between is the one of \<open>Task_Queue\<close>.
  \<^item> \<open>Queue_Teardown\<close>: the destructors of queue and pool, with the waiter and the workers going on meanwhile.
  \<^item> \<open>Log\<close>: \<^verbatim>\<open>log/log.hpp\<close>, whose mutex is held from \<open>inst\<close> to \<open>flush\<close>, in every interleaving of threads that log.
    The invariant \<open>log_inv\<close> says which lines are out and where each thread is; \<open>log_work\<close> counts what is left to call.
  \<^item> \<open>Unit_Services\<close>: what \<open>mount_dependencies\<close> gives a unit, the allocation of its blocks, the end of a rack, and
    the texts of exceptions.
  \<^item> \<open>Cache_Untracked\<close>: handles in the build without \<open>CACHE_TRACKING\<close>, and that the builds agree. \<open>Accessors\<close>: the functions
    that only read a member.
  \<^item> \<open>LV2_Hosting\<close>: \<^verbatim>\<open>staging/hosting/lv2/\<close>, from nodes to the adaptor, over the library lilv as a record of functions and a
    store of the nodes it hands out. A locale holds what the map of ports of a plugin says.
  \<^item> \<open>Debug_Clock\<close>: \<^verbatim>\<open>routine/debug.hpp\<close>. \<open>Staging\<close>: the buffer and the measurements under \<^verbatim>\<open>staging/\<close>, a
    first-in first-out buffer of samples as long as what is supplied fits.

  \<^bold>\<open>Conventions.\<close> A pointer to an object of the framework is an index into a store, a pointer to
  samples an address counted in samples, with 0 as null. An exception and an undefined behaviour
  are both errors of the result type. What runs under one mutex is one step. Loops
  are structural recursions over the container they run through, except for the recursion
  over the links, which carries the depth of the stack: \<open>Stack_Overflow\<close> cannot happen when
  the depth exceeds the rank of the unit, or the length of the daisychain.

  \<^bold>\<open>Parameters.\<close> The methods \<open>cycle\<close>, \<open>init\<close> and \<open>resync\<close> of concrete units are not part of the
  framework; they are the functions of the record \<open>unit_methods\<close>. The theorems about daisychains
  assume of \<open>cycle\<close> and \<open>resync\<close> that they return and touch only the unit's own data (\<open>quiet_methods\<close>), the one
  about the warmup of \<open>init\<close> that it completes and registers metrics of its unit (\<open>inits_register\<close>); termination
  assumes only that they return and leave the links alone (\<open>methods_bounded\<close>). The address of the
  array of samples is a parameter of \<open>build_cache\<close>.

  The methods of the loaded units, the dynamic linker, the kernel's scheduling calls, the calls of ALSA, the library lilv
  and the file system are parameters too.

  \<^bold>\<open>Not modelled.\<close> Rounding of \<open>float\<close> (\<open>drift\<close> is rational), overflow of signed counters, the
  messages that components send to the log, the values of the sine wave, and the signal handler of a development build. Writes
  that C++ does not synchronise (the flags of a sync request) are taken to be atomic statement by statement. What the
  theories leave of the sources is declarations, comments and directives.
\<close>

end
